(* ===== verification/Prelude.thy ===== *)
theory Prelude
  imports Main "HOL-Library.Signed_Division"
begin

text \<open>
  Shared vocabulary of the development: Go's \<open>int64\<close> and \<open>uint64\<close> as integers with the
  wrap-around written out, Go maps in iteration order as association lists, and the interface
  of a component whose operations all keep an invariant.  The named collections gather the
  rewrite rules (\<open>go_simps\<close>) and the preservation rules (\<open>inv_intros\<close>) of the components.
\<close>

named_theorems go_simps \<open>unfolding rules of the Go primitives\<close>
named_theorems inv_intros \<open>every operation keeps the invariant of its component\<close>

subsection \<open>Machine integers\<close>

text \<open>Go's \<open>int\<close> and \<open>int64\<close> on the supported (64-bit) targets: two's complement.\<close>

definition wrap64 :: "int \<Rightarrow> int" where
  "wrap64 x = (x + 2 ^ 63) mod 2 ^ 64 - 2 ^ 63"

definition wrapu64 :: "int \<Rightarrow> int" where
  "wrapu64 x = x mod 2 ^ 64"

definition is_i64 :: "int \<Rightarrow> bool" where
  "is_i64 x \<longleftrightarrow> - (2 ^ 63) \<le> x \<and> x < 2 ^ 63"

definition is_u64 :: "int \<Rightarrow> bool" where
  "is_u64 x \<longleftrightarrow> 0 \<le> x \<and> x < 2 ^ 64"

text \<open>Go's integer division and remainder truncate towards zero.\<close>

definition go_div :: "int \<Rightarrow> int \<Rightarrow> int" where
  "go_div a b = wrap64 (a sdiv b)"

definition go_rem :: "int \<Rightarrow> int \<Rightarrow> int" where
  "go_rem a b = a smod b"

lemma wrap64_is_i64 [simp]: "is_i64 (wrap64 x)"
proof -
  have "0 \<le> (x + 2 ^ 63) mod 2 ^ 64" and "(x + 2 ^ 63) mod 2 ^ 64 < 2 ^ 64"
    by (simp_all)
  then show ?thesis
    by (simp add: wrap64_def is_i64_def)
qed

lemma wrap64_le: "0 \<le> x \<Longrightarrow> wrap64 x \<le> x"
  using zmod_le_nonneg_dividend [of "x + 2 ^ 63" "2 ^ 64"] by (simp add: wrap64_def)

lemma wrap64_id: "is_i64 x \<Longrightarrow> wrap64 x = x"
  by (simp add: wrap64_def is_i64_def)

lemma wrap64_add: "wrap64 (wrap64 a + b) = wrap64 (a + b)"
proof -
  have "wrap64 a + b + 2 ^ 63 = (a + 2 ^ 63) mod 2 ^ 64 + b" by (simp add: wrap64_def)
  then have "wrap64 (wrap64 a + b) = ((a + 2 ^ 63) mod 2 ^ 64 + b) mod 2 ^ 64 - 2 ^ 63"
    unfolding wrap64_def [of "wrap64 a + b"] by (simp only:)
  also have "\<dots> = (a + 2 ^ 63 + b) mod 2 ^ 64 - 2 ^ 63" by (simp only: mod_add_left_eq)
  finally show ?thesis by (simp add: wrap64_def ac_simps)
qed

lemma wrap64_add_right: "wrap64 (a + wrap64 b) = wrap64 (a + b)"
  using wrap64_add [of b a] by (simp add: add.commute)

lemma wrap64_wrap64 [simp]: "wrap64 (wrap64 a) = wrap64 a"
  using wrap64_add [of a 0] by simp

lemma wrap64_0 [simp]: "wrap64 0 = 0"
  by (simp add: wrap64_def)

text \<open>A loop that sums up \<open>int64\<close> values.\<close>

definition wsum :: "int list \<Rightarrow> int" where
  "wsum xs = foldl (\<lambda>u x. wrap64 (u + x)) 0 xs"

lemma wsum_eq: "wsum xs = wrap64 (sum_list xs)"
proof -
  have "foldl (\<lambda>u x. wrap64 (u + x)) (wrap64 a) xs = wrap64 (a + sum_list xs)" for a
    by (induction xs arbitrary: a) (simp_all add: wrap64_add add.assoc)
  from this [of 0] show ?thesis by (simp add: wsum_def)
qed

lemma wrapu64_is_u64 [simp]: "is_u64 (wrapu64 x)"
  by (simp add: wrapu64_def is_u64_def)

lemma wrapu64_id: "is_u64 x \<Longrightarrow> wrapu64 x = x"
  by (simp add: wrapu64_def is_u64_def)

lemma is_i64_small: "0 \<le> x \<Longrightarrow> x < 2 ^ 53 \<Longrightarrow> is_i64 x"
  by (simp add: is_i64_def)

lemma sdiv_nonneg: "0 \<le> a \<Longrightarrow> 0 < b \<Longrightarrow> a sdiv b = a div (b::int)"
  by (simp add: signed_divide_int_def sgn_if)

lemma go_div_nonneg:
  assumes "0 \<le> a" "0 < b" "is_i64 a"
  shows "go_div a b = a div b"
proof -
  have "a div b \<le> a"
    using assms zdiv_mono2 [of a 1 b] by simp
  moreover have "0 \<le> a div b"
    using assms by (simp add: pos_imp_zdiv_nonneg_iff)
  ultimately have "is_i64 (a div b)"
    using assms by (simp add: is_i64_def)
  then show ?thesis
    using assms by (simp add: go_div_def sdiv_nonneg wrap64_id)
qed

subsection \<open>Go maps filled in a loop\<close>

text \<open>A loop that stores one key per element: the later of two equal keys wins.\<close>

lemma fold_upd_Some:
  assumes "fold (\<lambda>x m. if P x then m(key x \<mapsto> val x) else m) xs m k = Some v"
  shows "(\<exists>x \<in> set xs. P x \<and> key x = k \<and> val x = v) \<or> m k = Some v"
  using assms
proof (induction xs arbitrary: m)
  case (Cons a xs)
  from Cons.IH [OF Cons.prems [unfolded fold_Cons comp_def]] show ?case
    by (auto split: if_splits)
qed simp

lemma fold_upd_ex:
  assumes "(\<exists>x \<in> set xs. P x \<and> key x = k) \<or> m k \<noteq> None"
  shows "fold (\<lambda>x m. if P x then m(key x \<mapsto> val x) else m) xs m k \<noteq> None"
  using assms
proof (induction xs arbitrary: m)
  case (Cons a xs)
  have "(\<exists>x \<in> set xs. P x \<and> key x = k) \<or> (if P a then m(key a \<mapsto> val a) else m) k \<noteq> None"
    using Cons.prems by auto
  then show ?case
    using Cons.IH [of "if P a then m(key a \<mapsto> val a) else m"] by (simp del: fun_upd_apply)
qed simp

lemma fold_upd_other: "k \<notin> key ` set xs \<Longrightarrow> fold (\<lambda>x m. m(key x \<mapsto> val x)) xs m k = m k"
  by (induction xs arbitrary: m) auto

lemma fold_upd_distinct:
  assumes "distinct (map key xs)" and "x \<in> set xs"
  shows "fold (\<lambda>x m. m(key x \<mapsto> val x)) xs m (key x) = Some (val x)"
  using assms
proof (induction xs arbitrary: m)
  case (Cons a xs)
  show ?case
  proof (cases "x = a")
    case True
    then have "key x \<notin> key ` set xs" using Cons.prems by auto
    from fold_upd_other [OF this, of val "m(key a \<mapsto> val a)"] show ?thesis
      using True by (simp add: fun_upd_def)
  next
    case False
    then show ?thesis using Cons.IH [of "m(key a \<mapsto> val a)"] Cons.prems by simp
  qed
qed simp

lemmas fold_upd_True_Some = fold_upd_Some [where P = "\<lambda>_. True", unfolded if_True]
lemmas fold_upd_True_ex = fold_upd_ex [where P = "\<lambda>_. True", unfolded if_True]

subsection \<open>Components as operation systems\<close>

text \<open>
  The contract every stateful component of the model meets: its operations keep a
  well-formedness invariant, as long as its clients only make the calls
  they are allowed to.  A run of the component is a fold of its step function over the
  operations in the order the component's lock serialises them.
\<close>

locale op_system =
  fixes step :: "'op \<Rightarrow> 's \<Rightarrow> 's" and inv :: "'s \<Rightarrow> bool" and allowed :: "'op \<Rightarrow> bool"
  assumes step_inv: "inv s \<Longrightarrow> allowed op \<Longrightarrow> inv (step op s)"
begin

lemma run_inv: "inv s \<Longrightarrow> list_all allowed ops \<Longrightarrow> inv (fold step ops s)"
  by (induction ops arbitrary: s) (auto intro: step_inv)

lemma run_induct:
  assumes "inv s" and "P s" and "list_all allowed ops"
    and "\<And>op t. inv t \<Longrightarrow> P t \<Longrightarrow> op \<in> set ops \<Longrightarrow> P (step op t)"
  shows "P (fold step ops s)"
  using assms by (induction ops arbitrary: s) (auto intro: step_inv)

end

end
