(* ===== verification/Float64.thy ===== *)
theory Float64
  imports Complex_Main Prelude
begin

text \<open>
  Go's \<open>float64\<close>: IEEE 754 binary64 with round to nearest, ties to even.  A finite value is the
  rational it denotes (the sign of zero is not kept: no operation of the program observes it,
  since every float division is guarded against a zero divisor).  \<open>round64\<close> is executable, with
  gradual underflow and overflow to infinity.  The lemmas give what the schedulers rely on:
  rounding is monotone, exact on integers up to \<open>2 ^ 53\<close>, and a quotient of such integers never
  rounds onto or across an integer it is not equal to.
\<close>

datatype float64 = Fin rat | PInf | NInf | NaN

subsection \<open>Powers of two and the binade of a rational\<close>

definition p2 :: "int \<Rightarrow> rat" where
  "p2 k = (if 0 \<le> k then 2 ^ nat k else 1 / 2 ^ nat (- k))"

lemma p2_powi: "p2 k = 2 powi k"
  by (simp add: p2_def power_int_def field_simps)

lemma p2_pos [simp]: "0 < p2 k"
  by (simp add: p2_powi)

lemma p2_nz [simp]: "p2 k \<noteq> 0"
  by (simp add: p2_powi)

lemma p2_add: "p2 (a + b) = p2 a * p2 b"
  by (simp add: p2_powi power_int_add)

lemma p2_le_iff [simp]: "p2 a \<le> p2 b \<longleftrightarrow> a \<le> b"
proof (cases "a \<le> b")
  case True
  then show ?thesis by (simp add: p2_powi power_int_increasing)
next
  case False
  then have "p2 b < p2 a" by (simp add: p2_powi power_int_strict_increasing)
  then show ?thesis using False by simp
qed

lemma p2_of_nat: "p2 (int n) = 2 ^ n"
  by (simp add: p2_def)

fun blen :: "int \<Rightarrow> nat" where
  "blen n = (if n \<le> 0 then 0 else Suc (blen (n div 2)))"

declare blen.simps [simp del]

lemma blen_eval [simp]:
  "blen 0 = 0" "blen 1 = 1" "blen (numeral k) = Suc (blen (numeral k div 2))"
  by (simp_all add: blen.simps)

lemma blen_bounds: "0 < n \<Longrightarrow> 2 ^ blen n \<le> 2 * n \<and> n < 2 ^ blen n"
proof (induction n rule: blen.induct)
  case (1 n)
  show ?case
  proof (cases "n div 2 \<le> 0")
    case True
    then have "n = 1" using "1.prems" by auto
    then show ?thesis by (simp add: blen.simps)
  next
    case False
    then have "2 ^ blen (n div 2) \<le> 2 * (n div 2)" "n div 2 < 2 ^ blen (n div 2)"
      using 1 by auto
    moreover have "blen n = Suc (blen (n div 2))" using "1.prems" by (simp add: blen.simps [of n])
    ultimately show ?thesis by auto
  qed
qed

definition binade :: "rat \<Rightarrow> int" where
  "binade x = (if 1 \<le> x then int (blen \<lfloor>x\<rfloor>) - 1 else - int (blen (\<lceil>1 / x\<rceil> - 1)))"

lemma of_int_le_rat: "m \<le> n \<Longrightarrow> (of_int m :: rat) \<le> of_int n"
  by simp

lemma p2_pred: "p2 (k - 1) = p2 k / 2"
  using p2_add [of "k - 1" 1] by (simp add: p2_def)

lemma p2_minus: "p2 (- k) = 1 / p2 k"
  using p2_add [of "- k" k] by (simp add: p2_def field_simps)

lemma blen_bounds_rat:
  assumes "0 < n"
  shows "p2 (int (blen n) - 1) \<le> of_int n" and "of_int n + 1 \<le> p2 (int (blen n))"
proof -
  have b: "2 ^ blen n \<le> 2 * n" "n + 1 \<le> 2 ^ blen n" using blen_bounds [OF assms] by auto
  from b(1) have "(of_int (2 ^ blen n) :: rat) \<le> of_int (2 * n)" by (rule of_int_le_rat)
  then show "p2 (int (blen n) - 1) \<le> of_int n" by (simp add: p2_pred p2_of_nat)
  from b(2) have "(of_int (n + 1) :: rat) \<le> of_int (2 ^ blen n)" by (rule of_int_le_rat)
  then show "of_int n + 1 \<le> p2 (int (blen n))" by (simp add: p2_of_nat)
qed

lemma binade_bounds:
  assumes "0 < x"
  shows "p2 (binade x) \<le> x" and "x < p2 (binade x + 1)"
proof -
  have "p2 (binade x) \<le> x \<and> x < p2 (binade x + 1)"
  proof (cases "1 \<le> x")
    case True
    have "of_int \<lfloor>x\<rfloor> \<le> x" "x < of_int \<lfloor>x\<rfloor> + 1" by linarith+
    moreover have "0 < \<lfloor>x\<rfloor>" using True by simp
    ultimately show ?thesis
      using blen_bounds_rat [of "\<lfloor>x\<rfloor>"] True unfolding binade_def by (auto intro: order_trans less_le_trans)
  next
    case False
    define m where "m = \<lceil>1 / x\<rceil> - 1"
    have y: "1 < 1 / x" using assms False by (simp add: less_divide_eq)
    have m: "of_int m < 1 / x" "1 / x \<le> of_int m + 1" unfolding m_def by linarith+
    have m0: "0 < m" using y by (simp add: m_def less_ceiling_iff)
    have b: "binade x = - int (blen m)" using False by (simp add: binade_def m_def)
    note mb = blen_bounds_rat [OF m0]
    have "1 / x \<le> p2 (int (blen m))" using m(2) mb(2) by linarith
    then have lo: "1 / p2 (int (blen m)) \<le> x" using assms by (simp add: field_simps)
    have "p2 (int (blen m) - 1) < 1 / x" using m(1) mb(1) by linarith
    then have "x < 1 / p2 (int (blen m) - 1)" using assms by (simp add: field_simps)
    moreover have "1 / p2 (int (blen m) - 1) = p2 (binade x + 1)"
      using p2_minus [of "int (blen m) - 1"] by (simp add: b)
    moreover have "1 / p2 (int (blen m)) = p2 (binade x)" by (simp add: b p2_minus)
    ultimately show ?thesis using lo by simp
  qed
  then show "p2 (binade x) \<le> x" and "x < p2 (binade x + 1)" by auto
qed

lemma binade_mono:
  assumes "0 < x" "x \<le> y" shows "binade x \<le> binade y"
proof (rule ccontr)
  assume "\<not> ?thesis"
  then have "binade y + 1 \<le> binade x" by simp
  then have "p2 (binade y + 1) \<le> p2 (binade x)" by simp
  also have "\<dots> \<le> x" using assms by (simp add: binade_bounds)
  finally show False using assms binade_bounds(2) [of y] by simp
qed

subsection \<open>Rounding to nearest, ties to even\<close>

definition rne :: "rat \<Rightarrow> int" where
  "rne x = (let f = \<lfloor>x\<rfloor>; r = x - of_int f in
     if r < 1 / 2 then f else if 1 / 2 < r then f + 1 else if even f then f else f + 1)"

lemma rne_of_int [simp]: "rne (of_int n) = n"
  by (simp add: rne_def)

lemma rne_err: "\<bar>of_int (rne x) - x\<bar> \<le> 1 / 2"
proof -
  have "of_int \<lfloor>x\<rfloor> \<le> x" "x < of_int \<lfloor>x\<rfloor> + 1" by linarith+
  then show ?thesis unfolding rne_def Let_def by (auto simp: abs_le_iff field_simps)
qed

lemma rne_pow2 [simp]: "rne (2 ^ n) = 2 ^ n"
  using rne_of_int [of "2 ^ n"] by simp

lemma rne_numeral [simp]: "rne (numeral n) = numeral n"
  using rne_of_int [of "numeral n"] by simp

lemma rne_0 [simp]: "rne 0 = 0"
  using rne_of_int [of 0] by simp

lemma rne_mono: "x \<le> y \<Longrightarrow> rne x \<le> rne y"
proof -
  assume xy: "x \<le> y"
  have fl: "\<lfloor>x\<rfloor> \<le> \<lfloor>y\<rfloor>" using xy by (rule floor_mono)
  show ?thesis
  proof (cases "\<lfloor>x\<rfloor> = \<lfloor>y\<rfloor>")
    case True
    then show ?thesis using xy by (auto simp: rne_def Let_def)
  next
    case False
    then have "\<lfloor>x\<rfloor> + 1 \<le> \<lfloor>y\<rfloor>" using fl by simp
    moreover have "rne x \<le> \<lfloor>x\<rfloor> + 1" "\<lfloor>y\<rfloor> \<le> rne y" by (auto simp: rne_def Let_def)
    ultimately show ?thesis by simp
  qed
qed

definition ulp :: "rat \<Rightarrow> rat" where
  "ulp x = p2 (max (binade x - 52) (- 1074))"

definition rnd_pos :: "rat \<Rightarrow> rat" where
  "rnd_pos x = of_int (rne (x / ulp x)) * ulp x"

definition rnd :: "rat \<Rightarrow> rat" where
  "rnd x = (if x = 0 then 0 else if 0 < x then rnd_pos x else - rnd_pos (- x))"

definition round64 :: "rat \<Rightarrow> float64" where
  "round64 x = (let y = rnd x in
     if p2 1024 \<le> y then PInf else if y \<le> - p2 1024 then NInf else Fin y)"

lemma ulp_pos [simp]: "0 < ulp x" by (simp add: ulp_def)

lemma ulp_nz [simp]: "ulp x \<noteq> 0" by (simp add: ulp_def)

lemma abs_ulp [simp]: "\<bar>ulp x\<bar> = ulp x" by (simp add: abs_of_pos)

lemma rnd_0 [simp]: "rnd 0 = 0" by (simp add: rnd_def)

lemma rnd_pos_err: "\<bar>rnd_pos x - x\<bar> \<le> ulp x / 2"
proof -
  have "rnd_pos x - x = (of_int (rne (x / ulp x)) - x / ulp x) * ulp x"
    using ulp_pos [of x] by (simp add: rnd_pos_def field_simps)
  then have "\<bar>rnd_pos x - x\<bar> = \<bar>of_int (rne (x / ulp x)) - x / ulp x\<bar> * ulp x"
    using ulp_pos [of x] by (simp add: abs_mult)
  also have "\<dots> \<le> 1 / 2 * ulp x"
    using rne_err [of "x / ulp x"] by (intro mult_right_mono) (auto simp: less_imp_le)
  finally show ?thesis by simp
qed

text \<open>A multiple of the unit in the last place is a fixed point of rounding.\<close>

lemma rnd_pos_exact: "x = of_int m * ulp x \<Longrightarrow> rnd_pos x = x"
proof -
  assume x: "x = of_int m * ulp x"
  then have "x / ulp x = of_int m" using ulp_pos [of x] by (simp add: divide_eq_eq)
  then have "rnd_pos x = of_int m * ulp x" by (simp add: rnd_pos_def)
  then show ?thesis using x by simp
qed

text \<open>The power of two above a binade bounds every rounding from inside it.\<close>

lemma rnd_pos_upper:
  assumes "0 < x" "- 1074 \<le> k" "x \<le> p2 k"
  shows "rnd_pos x \<le> p2 k"
proof -
  have "p2 (binade x) \<le> p2 k" using assms binade_bounds(1) [of x] by linarith
  then have bk: "binade x \<le> k" by simp
  define u where "u = max (binade x - 52) (- 1074)"
  have uk: "u \<le> k" using bk assms by (simp add: u_def)
  have "p2 k / ulp x = p2 (k - u)"
    using p2_add [of "k - u" u] by (simp add: ulp_def u_def)
  also have "\<dots> = of_int (2 ^ nat (k - u))" using uk by (simp add: p2_def)
  finally have int: "p2 k / ulp x = of_int (2 ^ nat (k - u))" .
  have "rne (x / ulp x) \<le> rne (p2 k / ulp x)"
    using assms ulp_pos [of x] by (intro rne_mono divide_right_mono) (auto simp: less_imp_le)
  then have "(of_int (rne (x / ulp x)) :: rat) \<le> p2 k / ulp x" by (simp add: int)
  then show ?thesis using ulp_pos [of x] by (simp add: rnd_pos_def le_divide_eq)
qed

lemma rnd_pos_lower:
  assumes "0 < x" "- 1074 \<le> k" "p2 k \<le> x"
  shows "p2 k \<le> rnd_pos x"
proof -
  define u where "u = max (binade x - 52) (- 1074)"
  show ?thesis
  proof (cases "u \<le> k")
    case True
    have "p2 k / ulp x = p2 (k - u)" using p2_add [of "k - u" u] by (simp add: ulp_def u_def)
    also have "\<dots> = of_int (2 ^ nat (k - u))" using True by (simp add: p2_def)
    finally have int: "p2 k / ulp x = of_int (2 ^ nat (k - u))" .
    have "rne (p2 k / ulp x) \<le> rne (x / ulp x)"
      using assms ulp_pos [of x] by (intro rne_mono divide_right_mono) (auto simp: less_imp_le)
    then have "p2 k / ulp x \<le> of_int (rne (x / ulp x))" by (simp add: int)
    then show ?thesis using ulp_pos [of x] by (simp add: rnd_pos_def divide_le_eq)
  next
    case False
    then have u: "u = binade x - 52" using assms by (simp add: u_def max_def split: if_splits)
    have "p2 (binade x) / ulp x = p2 52" using p2_add [of 52 u] by (simp add: ulp_def u_def [symmetric] u)
    also have "\<dots> = of_int (2 ^ 52)" by (simp add: p2_def)
    finally have int: "p2 (binade x) / ulp x = of_int (2 ^ 52)" .
    have "rne (p2 (binade x) / ulp x) \<le> rne (x / ulp x)"
      using assms ulp_pos [of x] binade_bounds(1) [of x]
      by (intro rne_mono divide_right_mono) (auto simp: less_imp_le)
    then have "p2 (binade x) / ulp x \<le> of_int (rne (x / ulp x))" by (simp add: int)
    then have "p2 (binade x) \<le> rnd_pos x" using ulp_pos [of x] by (simp add: rnd_pos_def divide_le_eq)
    moreover have "p2 k \<le> p2 (binade x)" using False u by simp
    ultimately show ?thesis by linarith
  qed
qed

lemma rnd_pos_nonneg: "0 < x \<Longrightarrow> 0 \<le> rnd_pos x"
proof -
  assume "0 < x"
  then have "rne 0 \<le> rne (x / ulp x)" by (intro rne_mono) (simp add: zero_le_divide_iff less_imp_le)
  then have "0 \<le> rne (x / ulp x)" by simp
  then show ?thesis using ulp_pos [of x] by (simp add: rnd_pos_def zero_le_mult_iff less_imp_le)
qed

lemma rnd_pos_mono:
  assumes "0 < x" "x \<le> y" shows "rnd_pos x \<le> rnd_pos y"
proof (cases "ulp x = ulp y")
  case True
  have "rne (x / ulp y) \<le> rne (y / ulp y)"
    using assms ulp_pos [of y] by (intro rne_mono divide_right_mono) (auto simp: less_imp_le)
  then show ?thesis
    using True ulp_pos [of y] by (simp add: rnd_pos_def mult_right_mono less_imp_le)
next
  case False
  have b: "binade x \<le> binade y" using assms by (rule binade_mono)
  have "binade x \<noteq> binade y" using False by (auto simp: ulp_def)
  with b have lt: "binade x + 1 \<le> binade y" by simp
  have k: "- 1074 \<le> binade y" using False b by (auto simp: ulp_def max_def split: if_splits)
  have xy: "x \<le> p2 (binade y)"
  proof -
    have "x < p2 (binade x + 1)" using assms by (simp add: binade_bounds)
    also have "\<dots> \<le> p2 (binade y)" using lt by simp
    finally show ?thesis by simp
  qed
  have "rnd_pos x \<le> p2 (binade y)" using assms(1) k xy by (rule rnd_pos_upper)
  also have "\<dots> \<le> rnd_pos y"
    using assms by (intro rnd_pos_lower k) (auto simp: binade_bounds)
  finally show ?thesis .
qed

lemma rnd_mono: "x \<le> y \<Longrightarrow> rnd x \<le> rnd y"
proof -
  assume xy: "x \<le> y"
  consider "0 < x" | "y < 0" | "x \<le> 0" "0 \<le> y" by linarith
  then show ?thesis
  proof cases
    case 1 then show ?thesis using xy by (simp add: rnd_def rnd_pos_mono)
  next
    case 2 then show ?thesis using xy by (simp add: rnd_def rnd_pos_mono)
  next
    case 3
    have "rnd x \<le> 0" using 3 rnd_pos_nonneg [of "- x"] by (auto simp: rnd_def)
    moreover have "0 \<le> rnd y" using 3 rnd_pos_nonneg [of y] by (auto simp: rnd_def)
    ultimately show ?thesis by simp
  qed
qed

subsection \<open>Exactness\<close>

lemma rnd_of_int:
  assumes "\<bar>n\<bar> \<le> 2 ^ 53" shows "rnd (of_int n) = of_int n"
proof -
  have pos: "rnd_pos (of_int m) = of_int m" if m: "0 < m" "m \<le> 2 ^ 53" for m :: int
  proof -
    define x :: rat where "x = of_int m"
    have x0: "0 < x" using m by (simp add: x_def)
    show ?thesis
    proof (cases "m = 2 ^ 53")
      case True
      then have "x = p2 53" by (simp add: x_def p2_def)
      then have "rnd_pos x \<le> x" "x \<le> rnd_pos x"
        using rnd_pos_upper [OF x0, of 53] rnd_pos_lower [OF x0, of 53] by auto
      then show ?thesis by (simp add: x_def)
    next
      case False
      then have "x < of_int (2 ^ 53)" using m by (simp only: x_def of_int_less_iff)
      then have "x < p2 53" by (simp add: p2_def)
      then have "p2 (binade x) < p2 53" using binade_bounds(1) [OF x0] by linarith
      then have b: "binade x \<le> 52" using p2_le_iff [of 53 "binade x"] by linarith
      define u where "u = max (binade x - 52) (- 1074)"
      have u: "u \<le> 0" using b by (simp add: u_def)
      have "ulp x = p2 u" by (simp add: ulp_def u_def)
      moreover have "2 ^ nat (- u) * p2 u = 1" using u by (cases "u = 0") (auto simp: p2_def)
      ultimately have "x = of_int (m * 2 ^ nat (- u)) * ulp x" by (simp add: x_def mult.assoc)
      then have "rnd_pos x = x" by (rule rnd_pos_exact)
      then show ?thesis by (simp add: x_def)
    qed
  qed
  show ?thesis
  proof (cases "n = 0")
    case False
    then show ?thesis
    proof (cases "0 < n")
      case True then show ?thesis using assms pos [of n] by (simp add: rnd_def)
    next
      case neg: False
      have "of_int (- n) = (- of_int n :: rat)" by simp
      then show ?thesis using assms pos [of "- n"] neg False by (simp add: rnd_def)
    qed
  qed simp
qed

lemma rnd_p2: "- 1074 \<le> k \<Longrightarrow> rnd (p2 k) = p2 k"
  using rnd_pos_upper [of "p2 k" k] rnd_pos_lower [of "p2 k" k] by (simp add: rnd_def)

lemma rnd_minus: "rnd (- x) = - rnd x"
  by (auto simp: rnd_def)

lemma rnd_nonneg: "0 \<le> x \<Longrightarrow> 0 \<le> rnd x"
  using rnd_mono [of 0 x] by simp

lemma rnd_nonpos: "x \<le> 0 \<Longrightarrow> rnd x \<le> 0"
  using rnd_mono [of x 0] by simp

text \<open>The relative error bound, above the subnormal range.\<close>

lemma rnd_rel_err:
  assumes "p2 (- 1000) \<le> x"
  shows "\<bar>rnd x - x\<bar> \<le> x / 2 ^ 53"
proof -
  have x0: "0 < x" using assms p2_pos [of "- 1000"] by linarith
  have "p2 (- 1000) < p2 (binade x + 1)" using assms binade_bounds(2) [OF x0] by linarith
  then have "- 1000 < binade x + 1" using p2_le_iff [of "binade x + 1" "- 1000"] by linarith
  then have u: "ulp x = p2 (binade x - 52)" by (simp add: ulp_def max_def)
  have "p2 (binade x - 52) * 2 ^ 52 = p2 (binade x)"
    using p2_add [of "binade x - 52" 52] by (simp add: p2_def)
  then have "ulp x * 2 ^ 52 \<le> x" using binade_bounds(1) [OF x0] by (simp add: u)
  then have "ulp x / 2 \<le> x / 2 ^ 53" by (simp add: field_simps)
  then show ?thesis using rnd_pos_err [of x] x0 by (simp add: rnd_def)
qed

text \<open>The rounding error of a quotient of integers below \<open>2 ^ 53\<close> is under its integer gap.\<close>

lemma quotient_err:
  fixes p c :: int
  assumes "1 \<le> p" "p < 2 ^ 53" "0 < c" "c < 2 ^ 63"
  shows "\<bar>rnd (of_int p / of_int c) - of_int p / of_int c\<bar> \<le> 1 / of_int c - p2 (- 116)"
proof -
  define x :: rat where "x = of_int p / of_int c"
  have cpos: "(0::rat) < of_int c" using assms by simp
  have c63: "(of_int c :: rat) \<le> 2 ^ 63" using assms of_int_le_rat [of c "2 ^ 63"] by simp
  have p53: "(of_int p :: rat) \<le> 2 ^ 53 - 1" using assms of_int_le_rat [of p "2 ^ 53 - 1"] by simp
  have "p2 (- 1000) \<le> p2 (- 63)" by simp
  also have "p2 (- 63) = 1 / 2 ^ 63" by (simp add: p2_def)
  also have "\<dots> \<le> 1 / of_int c" using c63 cpos by (intro divide_left_mono) auto
  also have "\<dots> \<le> x" using assms cpos unfolding x_def by (intro divide_right_mono) (auto simp: less_imp_le)
  finally have "\<bar>rnd x - x\<bar> \<le> x / 2 ^ 53" by (rule rnd_rel_err)
  also have "\<dots> \<le> (2 ^ 53 - 1) / of_int c / 2 ^ 53"
    using p53 cpos unfolding x_def by (intro divide_right_mono) auto
  also have "\<dots> = 1 / of_int c - 1 / (2 ^ 53 * of_int c)" using cpos by (simp add: field_simps)
  also have "\<dots> \<le> 1 / of_int c - p2 (- 116)"
  proof -
    have "2 ^ 53 * (of_int c :: rat) \<le> 2 ^ 53 * 2 ^ 63" using c63 by (intro mult_left_mono) auto
    then have "(1::rat) / (2 ^ 53 * 2 ^ 63) \<le> 1 / (2 ^ 53 * of_int c)"
      using cpos by (intro divide_left_mono) auto
    then show ?thesis by (simp add: p2_def)
  qed
  finally show ?thesis by (simp add: x_def)
qed

lemma quotient_gap:
  fixes p c :: int
  assumes "0 < c" "p mod c \<noteq> 0"
  shows "1 / of_int c \<le> (of_int p / of_int c - of_int (p div c) :: rat)"
    and "(of_int p / of_int c - of_int (p div c) :: rat) \<le> 1 - 1 / of_int c"
proof -
  have cpos: "(0::rat) < of_int c" using assms by simp
  have "of_int p = of_int (p div c) * of_int c + (of_int (p mod c) :: rat)"
    by (metis of_int_add of_int_mult div_mult_mod_eq)
  then have x: "of_int p / of_int c - of_int (p div c) = (of_int (p mod c) / of_int c :: rat)"
    using cpos by (simp add: field_simps)
  have r: "1 \<le> p mod c" "p mod c \<le> c - 1"
    using assms pos_mod_sign [of c p] pos_mod_bound [of c p] by linarith+
  have "(1::rat) \<le> of_int (p mod c)" "of_int (p mod c) \<le> (of_int c - 1 :: rat)"
    using r of_int_le_rat [of 1 "p mod c"] of_int_le_rat [of "p mod c" "c - 1"] by simp_all
  then have "1 / of_int c \<le> (of_int (p mod c) / of_int c :: rat)"
    and "of_int (p mod c) / of_int c \<le> (of_int c - 1) / (of_int c :: rat)"
    using cpos by (intro divide_right_mono; simp add: less_imp_le)+
  then show "1 / of_int c \<le> (of_int p / of_int c - of_int (p div c) :: rat)"
    and "(of_int p / of_int c - of_int (p div c) :: rat) \<le> 1 - 1 / of_int c"
    using cpos by (simp_all add: x diff_divide_distrib)
qed

text \<open>
  So such a quotient keeps its integer part under rounding, and stays strictly between the
  neighbouring integers when it is not one itself.
\<close>

lemma rnd_quotient_exact:
  fixes p c :: int
  assumes "0 \<le> p" "p < 2 ^ 53" "0 < c" "p mod c = 0"
  shows "rnd (of_int p / of_int c) = of_int (p div c)"
proof -
  have "p = p div c * c" using assms(4) by auto
  then have "(of_int p :: rat) = of_int (p div c) * of_int c" by (metis of_int_mult)
  then have "(of_int p / of_int c :: rat) = of_int (p div c)" using assms by simp
  moreover have "0 \<le> p div c" "p div c \<le> p"
    using assms zdiv_mono2 [of p 1 c] by (simp_all add: pos_imp_zdiv_nonneg_iff)
  ultimately show ?thesis using assms rnd_of_int [of "p div c"] by simp
qed

lemma rnd_quotient_strict:
  fixes p c :: int
  assumes "0 \<le> p" "p < 2 ^ 53" "0 < c" "c < 2 ^ 63" "p mod c \<noteq> 0"
  shows "of_int (p div c) + p2 (- 116) \<le> rnd (of_int p / of_int c)"
    and "rnd (of_int p / of_int c) < of_int (p div c) + 1"
proof -
  have "1 \<le> p" using assms by (cases "p = 0") auto
  note e = quotient_err [OF this assms(2-4)] and g = quotient_gap [OF assms(3,5)]
  have t: "(0::rat) < p2 (- 116)" by simp
  show "of_int (p div c) + p2 (- 116) \<le> rnd (of_int p / of_int c)"
    using e g by (simp add: abs_le_iff)
  show "rnd (of_int p / of_int c) < of_int (p div c) + 1"
    using e g t unfolding abs_le_iff by linarith
qed

lemma rnd_quotient_floor:
  fixes p c :: int
  assumes "0 \<le> p" "p < 2 ^ 53" "0 < c" "c < 2 ^ 63"
  shows "\<lfloor>rnd (of_int p / of_int c)\<rfloor> = p div c"
proof (cases "p mod c = 0")
  case True
  then show ?thesis using assms by (simp add: rnd_quotient_exact)
next
  case False
  have "(0::rat) < p2 (- 116)" by simp
  then show ?thesis
    using rnd_quotient_strict [OF assms False] by (intro floor_unique) linarith+
qed

subsection \<open>The operations of the program\<close>

definition f64_of_int :: "int \<Rightarrow> float64" where
  "f64_of_int n = round64 (of_int n)"

fun fneg :: "float64 \<Rightarrow> float64" where
  "fneg (Fin x) = Fin (- x)"
| "fneg PInf = NInf"
| "fneg NInf = PInf"
| "fneg NaN = NaN"

fun fadd :: "float64 \<Rightarrow> float64 \<Rightarrow> float64" where
  "fadd NaN _ = NaN"
| "fadd _ NaN = NaN"
| "fadd (Fin x) (Fin y) = round64 (x + y)"
| "fadd PInf NInf = NaN"
| "fadd NInf PInf = NaN"
| "fadd PInf _ = PInf"
| "fadd NInf _ = NInf"
| "fadd _ PInf = PInf"
| "fadd _ NInf = NInf"

definition fsub :: "float64 \<Rightarrow> float64 \<Rightarrow> float64" where
  "fsub a b = fadd a (fneg b)"

definition inf_signed :: "bool \<Rightarrow> float64" where
  "inf_signed neg = (if neg then NInf else PInf)"

fun fmul :: "float64 \<Rightarrow> float64 \<Rightarrow> float64" where
  "fmul NaN _ = NaN"
| "fmul _ NaN = NaN"
| "fmul (Fin x) (Fin y) = round64 (x * y)"
| "fmul (Fin x) PInf = (if x = 0 then NaN else inf_signed (x < 0))"
| "fmul (Fin x) NInf = (if x = 0 then NaN else inf_signed (0 < x))"
| "fmul PInf (Fin y) = (if y = 0 then NaN else inf_signed (y < 0))"
| "fmul NInf (Fin y) = (if y = 0 then NaN else inf_signed (0 < y))"
| "fmul PInf PInf = PInf"
| "fmul NInf NInf = PInf"
| "fmul PInf NInf = NInf"
| "fmul NInf PInf = NInf"

text \<open>
  Division.  A zero divisor never reaches it in the program (both callers test for it first);
  the equations give IEEE's result for a positive zero.
\<close>

fun fdiv :: "float64 \<Rightarrow> float64 \<Rightarrow> float64" where
  "fdiv NaN _ = NaN"
| "fdiv _ NaN = NaN"
| "fdiv (Fin x) (Fin y) =
     (if y = 0 then (if x = 0 then NaN else inf_signed (x < 0)) else round64 (x / y))"
| "fdiv (Fin x) _ = Fin 0"
| "fdiv PInf (Fin y) = inf_signed (y < 0)"
| "fdiv NInf (Fin y) = inf_signed (0 \<le> y)"
| "fdiv _ _ = NaN"

fun flt :: "float64 \<Rightarrow> float64 \<Rightarrow> bool" where
  "flt NaN _ = False"
| "flt _ NaN = False"
| "flt (Fin x) (Fin y) = (x < y)"
| "flt NInf b = (b \<noteq> NInf)"
| "flt a PInf = (a \<noteq> PInf)"
| "flt _ _ = False"

fun feq :: "float64 \<Rightarrow> float64 \<Rightarrow> bool" where
  "feq NaN _ = False"
| "feq _ NaN = False"
| "feq a b = (a = b)"

text \<open>
  \<open>math.Floor\<close>, and the conversion of a float to \<open>int\<close>: truncation towards zero; outside the
  range (and for the non-finite values) the Go specification leaves the result to the
  implementation, and the amd64 instruction gives the least \<open>int64\<close>.
\<close>

fun ffloor :: "float64 \<Rightarrow> float64" where
  "ffloor (Fin x) = Fin (of_int \<lfloor>x\<rfloor>)"
| "ffloor a = a"

fun int_of_f64 :: "float64 \<Rightarrow> int" where
  "int_of_f64 (Fin x) =
     (let n = (if 0 \<le> x then \<lfloor>x\<rfloor> else \<lceil>x\<rceil>) in if is_i64 n then n else - (2 ^ 63))"
| "int_of_f64 _ = - (2 ^ 63)"

text \<open>
  \<open>a <= b\<close>, \<open>math.Abs\<close>, \<open>math.Max\<close> and \<open>math.Min\<close> (an infinity wins over a NaN), and
  \<open>math.Round\<close>, which rounds half away from zero.
\<close>

definition fle :: "float64 \<Rightarrow> float64 \<Rightarrow> bool" where
  "fle a b \<longleftrightarrow> flt a b \<or> feq a b"

fun fabs :: "float64 \<Rightarrow> float64" where
  "fabs (Fin x) = Fin \<bar>x\<bar>"
| "fabs NInf = PInf"
| "fabs a = a"

definition fmax :: "float64 \<Rightarrow> float64 \<Rightarrow> float64" where
  "fmax a b = (if a = PInf \<or> b = PInf then PInf else if a = NaN \<or> b = NaN then NaN
               else if flt a b then b else a)"

definition fmin :: "float64 \<Rightarrow> float64 \<Rightarrow> float64" where
  "fmin a b = (if a = NInf \<or> b = NInf then NInf else if a = NaN \<or> b = NaN then NaN
               else if flt b a then b else a)"

fun fround :: "float64 \<Rightarrow> float64" where
  "fround (Fin x) = (if 0 \<le> x then Fin (of_int \<lfloor>x + 1 / 2\<rfloor>) else Fin (of_int \<lceil>x - 1 / 2\<rceil>))"
| "fround a = a"

lemma round64_small:
  assumes "\<bar>x\<bar> \<le> 2 ^ 63" shows "round64 x = Fin (rnd x)"
proof -
  have p: "(2::rat) ^ 63 = p2 63" by (simp add: p2_def)
  have "x \<le> p2 63" "- p2 63 \<le> x" using assms unfolding p abs_le_iff by linarith+
  then have "rnd x \<le> rnd (p2 63)" "rnd (- p2 63) \<le> rnd x" by (auto intro!: rnd_mono)
  moreover have "rnd (p2 63) = p2 63" by (simp add: rnd_p2)
  moreover have "rnd (- p2 63) = - p2 63" by (simp add: rnd_minus rnd_p2)
  moreover have "p2 63 < p2 1024" by (simp add: p2_def)
  ultimately show ?thesis by (simp add: round64_def Let_def)
qed

lemma f64_of_int_small: "\<bar>n\<bar> \<le> 2 ^ 53 \<Longrightarrow> f64_of_int n = Fin (of_int n)"
proof -
  assume n: "\<bar>n\<bar> \<le> 2 ^ 53"
  then have "\<bar>of_int n :: rat\<bar> \<le> 2 ^ 63"
    using of_int_le_rat [of "\<bar>n\<bar>" "2 ^ 63"] by simp
  then show ?thesis using n by (simp add: f64_of_int_def round64_small rnd_of_int)
qed

text \<open>Evaluation of concrete float arithmetic by the simplifier.\<close>

lemmas f64_eval = f64_of_int_small round64_small rnd_def rnd_pos_def ulp_def binade_def rne_def
  p2_def Let_def floor_divide_of_int_eq

end
