(* ===== verification/GoValue.thy ===== *)
theory GoValue
  imports Float64 "HOL-Library.Sublist" "HOL-Library.Char_ord"
begin

text \<open>
  The dynamic values (\<open>any\<close>) a robot's state holds, and the string functions the flow loader
  uses.  A string is its bytes.  Containers (maps, lists, lazily decoded messages) are
  references: the condition language only asks whether a value is a scalar.
\<close>

datatype ikind = KInt | KInt8 | KInt16 | KInt32 | KInt64

datatype ukind = KUint | KUint8 | KUint16 | KUint32 | KUint64

datatype gval =
    VNil
  | VBool bool
  | VStr string
  | VBytes string
  | VInt ikind int
  | VUint ukind int
  | VF32 float64
  | VF64 float64
  | VRef nat

fun ibits :: "ikind \<Rightarrow> nat" where
  "ibits KInt = 64"
| "ibits KInt8 = 8"
| "ibits KInt16 = 16"
| "ibits KInt32 = 32"
| "ibits KInt64 = 64"

fun ubits :: "ukind \<Rightarrow> nat" where
  "ubits KUint = 64"
| "ubits KUint8 = 8"
| "ubits KUint16 = 16"
| "ubits KUint32 = 32"
| "ubits KUint64 = 64"

text \<open>The range of each machine type.\<close>

fun wf_gval :: "gval \<Rightarrow> bool" where
  "wf_gval (VInt k n) = (- (2 ^ (ibits k - 1)) \<le> n \<and> n < 2 ^ (ibits k - 1))"
| "wf_gval (VUint k n) = (0 \<le> n \<and> n < 2 ^ ubits k)"
| "wf_gval _ = True"

lemma wf_VInt_i64: "wf_gval (VInt k n) \<Longrightarrow> is_i64 n"
  by (cases k) (auto simp: is_i64_def)

lemma wf_VUint_u64: "wf_gval (VUint k n) \<Longrightarrow> is_u64 n"
  by (cases k) (auto simp: is_u64_def)

subsection \<open>\<open>strings.TrimSpace\<close> and \<open>strings.HasPrefix\<close>\<close>

text \<open>The UTF-8 encodings of the code points with Unicode's White\_Space property.\<close>

definition go_spaces :: "string list" where
  "go_spaces =
    [[CHR 0x09], [CHR 0x0A], [CHR 0x0B], [CHR 0x0C], [CHR 0x0D], [CHR 0x20],
     [CHR 0xC2, CHR 0x85], [CHR 0xC2, CHR 0xA0], [CHR 0xE1, CHR 0x9A, CHR 0x80],
     [CHR 0xE2, CHR 0x80, CHR 0x80], [CHR 0xE2, CHR 0x80, CHR 0x81], [CHR 0xE2, CHR 0x80, CHR 0x82],
     [CHR 0xE2, CHR 0x80, CHR 0x83], [CHR 0xE2, CHR 0x80, CHR 0x84], [CHR 0xE2, CHR 0x80, CHR 0x85],
     [CHR 0xE2, CHR 0x80, CHR 0x86], [CHR 0xE2, CHR 0x80, CHR 0x87], [CHR 0xE2, CHR 0x80, CHR 0x88],
     [CHR 0xE2, CHR 0x80, CHR 0x89], [CHR 0xE2, CHR 0x80, CHR 0x8A], [CHR 0xE2, CHR 0x80, CHR 0xA8],
     [CHR 0xE2, CHR 0x80, CHR 0xA9], [CHR 0xE2, CHR 0x80, CHR 0xAF], [CHR 0xE2, CHR 0x81, CHR 0x9F],
     [CHR 0xE3, CHR 0x80, CHR 0x80]]"

function trim_left :: "string list \<Rightarrow> string \<Rightarrow> string" where
  "trim_left ws s = (case find (\<lambda>w. w \<noteq> [] \<and> prefix w s) ws of
     None \<Rightarrow> s | Some w \<Rightarrow> trim_left ws (drop (length w) s))"
  by pat_completeness auto
termination
proof (relation "measure (\<lambda>(ws, s). length s)", goal_cases)
  case (2 ws s w)
  then have "w \<noteq> []" "prefix w s" by (auto simp: find_Some_iff)
  then show ?case by (auto simp: prefix_def)
qed simp

declare trim_left.simps [simp del]

definition trim_space :: "string \<Rightarrow> string" where
  "trim_space s = rev (trim_left (map rev go_spaces) (rev (trim_left go_spaces s)))"

definition has_prefix :: "string \<Rightarrow> string \<Rightarrow> bool" where
  "has_prefix s p \<longleftrightarrow> prefix p s"

text \<open>Trimming leaves a suffix that starts with no blank, so trimming again changes nothing.\<close>

definition trimmed :: "string list \<Rightarrow> string \<Rightarrow> bool" where
  "trimmed ws s \<longleftrightarrow> (\<forall>w \<in> set ws. w \<noteq> [] \<longrightarrow> \<not> prefix w s)"

lemma trim_left_suffix: "suffix (trim_left ws s) s"
proof (induction ws s rule: trim_left.induct)
  case (1 ws s)
  show ?case
  proof (cases "find (\<lambda>w. w \<noteq> [] \<and> prefix w s) ws")
    case None
    then show ?thesis by (simp add: trim_left.simps [of ws s])
  next
    case (Some w)
    then have "suffix (trim_left ws (drop (length w) s)) (drop (length w) s)" using 1 by simp
    then show ?thesis using Some suffix_drop suffix_order.trans by (fastforce simp: trim_left.simps [of ws s])
  qed
qed

lemma trim_left_trimmed: "trimmed ws (trim_left ws s)"
proof (induction ws s rule: trim_left.induct)
  case (1 ws s)
  show ?case
  proof (cases "find (\<lambda>w. w \<noteq> [] \<and> prefix w s) ws")
    case None
    then have "trimmed ws s" by (auto simp: trimmed_def find_None_iff)
    then show ?thesis using None by (simp add: trim_left.simps [of ws s])
  next
    case (Some w)
    then show ?thesis using 1 by (simp add: trim_left.simps [of ws s])
  qed
qed

lemma trim_left_id: "trimmed ws s \<Longrightarrow> trim_left ws s = s"
  by (auto simp: trim_left.simps [of ws s] trimmed_def find_Some_iff split: option.splits)

lemma trimmed_prefix: "trimmed ws s \<Longrightarrow> prefix t s \<Longrightarrow> trimmed ws t"
  using prefix_order.trans unfolding trimmed_def by blast

lemma trim_space_id:
  "trimmed go_spaces s \<Longrightarrow> trimmed (map rev go_spaces) (rev s) \<Longrightarrow> trim_space s = s"
  by (simp add: trim_space_def trim_left_id)

lemma trim_space_trimmed:
  "trimmed go_spaces (trim_space s)" "trimmed (map rev go_spaces) (rev (trim_space s))"
proof -
  let ?l = "trim_left go_spaces s"
  have "suffix (trim_left (map rev go_spaces) (rev ?l)) (rev ?l)" by (rule trim_left_suffix)
  then have "prefix (trim_space s) ?l" by (simp add: trim_space_def suffix_to_prefix)
  then show "trimmed go_spaces (trim_space s)" by (rule trimmed_prefix [OF trim_left_trimmed])
  show "trimmed (map rev go_spaces) (rev (trim_space s))"
    by (simp add: trim_space_def trim_left_trimmed)
qed

lemma trim_space_idem [simp]: "trim_space (trim_space s) = trim_space s"
  by (simp add: trim_space_id trim_space_trimmed)

lemma trim_space_Nil [simp]: "trim_space [] = []"
  by (rule trim_space_id) (auto simp: trimmed_def)

subsection \<open>\<open>strconv\<close> on the number literals of the condition language\<close>

text \<open>The literals are \<open>digits\<close> and \<open>digits.digits\<close>, as the tokenizer cuts them.\<close>

definition isDigit :: "char \<Rightarrow> bool" where
  "isDigit c \<longleftrightarrow> CHR ''0'' \<le> c \<and> c \<le> CHR ''9''"

definition digit_val :: "char \<Rightarrow> int" where
  "digit_val c = int (of_char c) - 48"

definition dec_val :: "string \<Rightarrow> int" where
  "dec_val s = foldl (\<lambda>n c. 10 * n + digit_val c) 0 s"

text \<open>\<open>strconv.ParseInt(s, 10, 64)\<close>: \<open>None\<close> is the range error.\<close>

definition parse_int :: "string \<Rightarrow> int option" where
  "parse_int s = (if dec_val s < 2 ^ 63 then Some (dec_val s) else None)"

text \<open>\<open>strconv.ParseFloat(s, 64)\<close>, correctly rounded: \<open>None\<close> is the range error.\<close>

definition parse_float :: "string \<Rightarrow> float64 option" where
  "parse_float s =
     (let ip = takeWhile (\<lambda>c. c \<noteq> CHR ''.'') s; fp = drop (Suc (length ip)) s in
      case round64 (of_int (dec_val (ip @ fp)) / 10 ^ length fp) of
        Fin x \<Rightarrow> Some (Fin x) | _ \<Rightarrow> None)"

end
