(* ===== verification/CondLexer.thy ===== *)
theory CondLexer
  imports GoValue
begin

text \<open>
  The tokenizer of the condition language (\<^verbatim>\<open>flow/condition_tokenizer.go\<close>).  The scanner walks
  the bytes of the input; \<open>i\<close> is the byte offset of the remaining input, which every token and
  every error carries.  The lemmas show that a token sequence ends with exactly one EOF sentinel
  (what the parser's cursor relies on), that tokens report their true offsets, and that the
  spelling of a token sequence scans back to it.
\<close>

datatype tokKind = TokEOF | TokNumber | TokString | TokPath | TokOp | TokLParen | TokRParen

record token =
  tkind :: tokKind
  tlit :: string
  tpos :: nat

datatype lex_error =
    LexUnclosedString nat
  | LexIndexNotNumeric nat
  | LexIndexUnclosed nat
  | LexSingleOp char nat
  | LexIllegalChar char nat

definition isIdentStart :: "char \<Rightarrow> bool" where
  "isIdentStart c \<longleftrightarrow> (CHR ''a'' \<le> c \<and> c \<le> CHR ''z'') \<or> (CHR ''A'' \<le> c \<and> c \<le> CHR ''Z'') \<or> c = CHR ''_''"

definition isIdentCont :: "char \<Rightarrow> bool" where
  "isIdentCont c \<longleftrightarrow> isIdentStart c \<or> isDigit c"

definition isBlank :: "char \<Rightarrow> bool" where
  "isBlank c \<longleftrightarrow> c = CHR '' '' \<or> c = CHR 0x09 \<or> c = CHR 0x0A \<or> c = CHR 0x0D"

text \<open>A number: digits, then a point only if a digit follows it.\<close>

definition scan_number :: "string \<Rightarrow> string \<times> string" where
  "scan_number cs =
     (let ds = takeWhile isDigit cs; r = dropWhile isDigit cs in
      case r of
        p # d # r' \<Rightarrow>
          if p = CHR ''.'' \<and> isDigit d
          then (ds @ p # takeWhile isDigit (d # r'), dropWhile isDigit (d # r'))
          else (ds, r)
      | _ \<Rightarrow> (ds, r))"

text \<open>The continuation of a path: \<open>.seg\<close> and \<open>[N]\<close> segments.\<close>

function path_loop :: "nat \<Rightarrow> string \<Rightarrow> string \<Rightarrow> lex_error + string \<times> string" where
  "path_loop i acc [] = Inr (acc, [])"
| "path_loop i acc (c # r) =
     (if c = CHR ''.'' \<and> r \<noteq> [] \<and> isIdentStart (hd r) then
        path_loop (i + 1 + length (takeWhile isIdentCont r))
          (acc @ c # takeWhile isIdentCont r) (dropWhile isIdentCont r)
      else if c = CHR ''['' then
        (if takeWhile isDigit r = [] then Inl (LexIndexNotNumeric i)
         else case dropWhile isDigit r of
           [] \<Rightarrow> Inl (LexIndexUnclosed i)
         | b # r' \<Rightarrow>
             if b \<noteq> CHR '']'' then Inl (LexIndexUnclosed i)
             else path_loop (i + 2 + length (takeWhile isDigit r))
                    (acc @ c # takeWhile isDigit r @ [b]) r')
      else Inr (acc, c # r))"
  by pat_completeness auto
termination
proof (relation "measure (\<lambda>(i, acc, cs). length cs)", goal_cases)
  case (2 i acc c r)
  then show ?case by (auto simp: le_imp_less_Suc length_dropWhile_le)
next
  case (3 i acc c r b r')
  then have "length (b # r') \<le> length r" using length_dropWhile_le [of isDigit r] by simp
  then show ?case by simp
qed simp

definition push_tok :: "token \<Rightarrow> lex_error + token list \<Rightarrow> lex_error + token list" where
  "push_tok t res = (case res of Inl e \<Rightarrow> Inl e | Inr ts \<Rightarrow> Inr (t # ts))"

definition tok :: "tokKind \<Rightarrow> string \<Rightarrow> nat \<Rightarrow> token" where
  "tok k l p = \<lparr>tkind = k, tlit = l, tpos = p\<rparr>"

text \<open>
  One- and two-character operators, by their first character: \<open>||\<close>, \<open>&&\<close> and \<open>==\<close> must be
  doubled, \<open>!\<close>, \<open>>\<close> and \<open><\<close> may be followed by \<open>=\<close>.
\<close>

definition op_len :: "char \<Rightarrow> string \<Rightarrow> nat option" where
  "op_len c r =
     (if c \<in> {CHR ''|'', CHR ''&'', CHR ''=''} then (if r \<noteq> [] \<and> hd r = c then Some 2 else None)
      else if c \<in> {CHR ''!'', CHR ''>'', CHR ''<''} then Some (if r \<noteq> [] \<and> hd r = CHR ''='' then 2 else 1)
      else Some 1)"

definition isOpChar :: "char \<Rightarrow> bool" where
  "isOpChar c \<longleftrightarrow> c \<in> {CHR ''|'', CHR ''&'', CHR ''='', CHR ''!'', CHR ''>'', CHR ''<'',
                       CHR ''+'', CHR ''-'', CHR ''*'', CHR ''/'', CHR ''%''}"

lemma scan_number_length: "cs \<noteq> [] \<Longrightarrow> isDigit (hd cs) \<Longrightarrow> length (snd (scan_number cs)) < length cs"
proof -
  assume cs: "cs \<noteq> []" "isDigit (hd cs)"
  then obtain c r where c: "cs = c # r" "isDigit c" by (cases cs) auto
  have "length (dropWhile isDigit cs) \<le> length r" using c by (simp add: length_dropWhile_le)
  moreover have "length (snd (scan_number cs)) \<le> length (dropWhile isDigit cs)"
    by (auto simp: scan_number_def Let_def length_dropWhile_le le_SucI split: list.splits)
  ultimately show ?thesis using c by simp
qed

lemma path_loop_length: "path_loop i acc cs = Inr (w, r) \<Longrightarrow> length r \<le> length cs"
proof (induction i acc cs rule: path_loop.induct)
  case (2 i acc c r0)
  then show ?case
    using length_dropWhile_le [of isIdentCont r0] length_dropWhile_le [of isDigit r0]
    by (fastforce split: if_splits list.splits)
qed simp

function tok_loop :: "nat \<Rightarrow> string \<Rightarrow> lex_error + token list" where
  "tok_loop i [] = Inr [tok TokEOF [] i]"
| "tok_loop i (c # r) =
     (if isBlank c then tok_loop (i + 1) r
      else if isDigit c then
        (case scan_number (c # r) of (w, r') \<Rightarrow>
           push_tok (tok TokNumber w i) (tok_loop (i + length w) r'))
      else if c = CHR 0x22 then
        (case dropWhile (\<lambda>d. d \<noteq> CHR 0x22) r of
           [] \<Rightarrow> Inl (LexUnclosedString i)
         | q # r' \<Rightarrow>
             (let w = takeWhile (\<lambda>d. d \<noteq> CHR 0x22) r in
              push_tok (tok TokString w i) (tok_loop (i + length w + 2) r')))
      else if isIdentStart c then
        (case path_loop (i + 1 + length (takeWhile isIdentCont r)) (c # takeWhile isIdentCont r)
                (dropWhile isIdentCont r) of
           Inl e \<Rightarrow> Inl e
         | Inr (w, r') \<Rightarrow> push_tok (tok TokPath w i) (tok_loop (i + length w) r'))
      else if c = CHR ''('' then push_tok (tok TokLParen ''('' i) (tok_loop (i + 1) r)
      else if c = CHR '')'' then push_tok (tok TokRParen '')'' i) (tok_loop (i + 1) r)
      else if isOpChar c then
        (case op_len c r of
           None \<Rightarrow> Inl (LexSingleOp c i)
         | Some n \<Rightarrow> push_tok (tok TokOp (take n (c # r)) i) (tok_loop (i + n) (drop n (c # r))))
      else Inl (LexIllegalChar c i))"
  by pat_completeness auto
termination
proof (relation "measure (\<lambda>(i, cs). length cs)", goal_cases)
  case (3 i c r w r')
  then show ?case using scan_number_length [of "c # r"] by (metis case_prod_conv in_measure list.discI list.sel(1) snd_conv)
next
  case (4 i c r q r')
  then have "length (q # r') \<le> length r"
    using length_dropWhile_le [of "\<lambda>d. d \<noteq> CHR 0x22" r] by simp
  then show ?case by simp
next
  case (5 i c r wr w r')
  then have "length r' \<le> length (dropWhile isIdentCont r)" by (auto dest: path_loop_length)
  then show ?case using length_dropWhile_le [of isIdentCont r] by simp
next
  case (8 i c r n)
  then have "0 < n" by (auto simp: op_len_def split: if_splits)
  then show ?case by simp
qed simp_all

definition tokenize :: "string \<Rightarrow> lex_error + token list" where
  "tokenize input = tok_loop 0 input"

subsection \<open>Scanning is sound\<close>

text \<open>The input text of a token.\<close>

definition tok_text :: "token \<Rightarrow> string" where
  "tok_text t = (if tkind t = TokString then CHR 0x22 # tlit t @ [CHR 0x22] else tlit t)"

lemma tok_sel [simp]: "tkind (tok k l p) = k" "tlit (tok k l p) = l" "tpos (tok k l p) = p"
  by (simp_all add: tok_def)

lemma push_tok_Inr: "push_tok t res = Inr ts \<longleftrightarrow> (\<exists>us. res = Inr us \<and> ts = t # us)"
  by (auto simp: push_tok_def split: sum.splits)

lemma scan_number_split: "scan_number cs = (w, r) \<Longrightarrow> cs = w @ r"
  by (auto simp: scan_number_def Let_def takeWhile_dropWhile_id split: list.splits if_splits)
     (metis append.assoc append_Cons takeWhile_dropWhile_id)+

lemma path_loop_split: "path_loop i acc cs = Inr (w, r) \<Longrightarrow> acc @ cs = w @ r"
proof (induction i acc cs rule: path_loop.induct)
  case (2 i acc c r0)
  have dot: "takeWhile isIdentCont r0 @ dropWhile isIdentCont r0 = r0" by simp
  have idx: "takeWhile isDigit r0 @ dropWhile isDigit r0 = r0" by simp
  show ?case
  proof (cases "c = CHR ''.'' \<and> r0 \<noteq> [] \<and> isIdentStart (hd r0)")
    case True
    then show ?thesis using 2 dot by auto
  next
    case False
    show ?thesis
    proof (cases "c = CHR ''[''")
      case True
      then obtain r' where b: "takeWhile isDigit r0 \<noteq> []" "dropWhile isDigit r0 = CHR '']'' # r'"
        using "2.prems" False by (auto split: if_splits list.splits)
      then have "path_loop (i + 2 + length (takeWhile isDigit r0))
          (acc @ c # takeWhile isDigit r0 @ [CHR '']'']) r' = Inr (w, r)"
        using "2.prems" False True by simp
      then have "(acc @ c # takeWhile isDigit r0 @ [CHR '']'']) @ r' = w @ r"
        using "2.IH"(2) [OF False True b] by simp
      moreover have "r0 = takeWhile isDigit r0 @ CHR '']'' # r'" using b idx by simp
      ultimately show ?thesis by simp
    next
      case c: False
      then show ?thesis using 2 False by simp
    qed
  qed
qed simp

text \<open>Each step of the scanner skips a blank or cuts one token off the front of the input.\<close>

lemma tok_loop_step:
  assumes "tok_loop i (c # r) = Inr ts"
  shows "(isBlank c \<and> tok_loop (i + 1) r = Inr ts) \<or>
    (\<exists>t ts' r'. ts = t # ts' \<and> tpos t = i \<and> tkind t \<noteq> TokEOF \<and> tok_text t \<noteq> [] \<and>
       c # r = tok_text t @ r' \<and> tok_loop (i + length (tok_text t)) r' = Inr ts')"
proof -
  consider "isBlank c" | "\<not> isBlank c" "isDigit c" | "\<not> isBlank c" "\<not> isDigit c" "c = CHR 0x22"
    | "\<not> isBlank c" "\<not> isDigit c" "c \<noteq> CHR 0x22" "isIdentStart c"
    | "\<not> isBlank c" "\<not> isDigit c" "c \<noteq> CHR 0x22" "\<not> isIdentStart c"
    by blast
  then show ?thesis
  proof cases
    case 2
    obtain w r' where n: "scan_number (c # r) = (w, r')" by (cases "scan_number (c # r)")
    have "c # r = w @ r'" using scan_number_split [OF n] .
    moreover have "w \<noteq> []"
      using scan_number_length [of "c # r"] n 2 calculation by auto
    moreover obtain ts' where "ts = tok TokNumber w i # ts'" "tok_loop (i + length w) r' = Inr ts'"
      using assms 2 n by (auto simp: push_tok_Inr)
    ultimately show ?thesis
      by (intro disjI2 exI [of _ "tok TokNumber w i"] exI [of _ ts'] exI [of _ r']) (simp add: tok_text_def)
  next
    case 3
    obtain q r' where d: "dropWhile (\<lambda>d. d \<noteq> CHR 0x22) r = q # r'"
      using assms 3 by (cases "dropWhile (\<lambda>d. d \<noteq> CHR 0x22) r") (simp_all del: dropWhile_eq_Nil_conv)
    have "q = CHR 0x22" using hd_dropWhile [of "\<lambda>d. d \<noteq> CHR 0x22" r] d by simp
    then have "r = takeWhile (\<lambda>d. d \<noteq> CHR 0x22) r @ CHR 0x22 # r'"
      using d takeWhile_dropWhile_id [of "\<lambda>d. d \<noteq> CHR 0x22" r] by simp
    moreover obtain ts' where "ts = tok TokString (takeWhile (\<lambda>d. d \<noteq> CHR 0x22) r) i # ts'"
      "tok_loop (i + length (takeWhile (\<lambda>d. d \<noteq> CHR 0x22) r) + 2) r' = Inr ts'"
      using assms 3 d by (auto simp: push_tok_Inr Let_def)
    ultimately show ?thesis
      using 3 by (intro disjI2 exI [of _ "tok TokString (takeWhile (\<lambda>d. d \<noteq> CHR 0x22) r) i"]
          exI [of _ ts'] exI [of _ r']) (simp add: tok_text_def)
  next
    case 4
    let ?p = "path_loop (i + 1 + length (takeWhile isIdentCont r)) (c # takeWhile isIdentCont r)
                (dropWhile isIdentCont r)"
    obtain w r' where p: "?p = Inr (w, r')" using assms 4 by (auto split: sum.splits)
    have cr: "c # r = w @ r'" using path_loop_split [OF p] by simp
    have "w \<noteq> []"
    proof
      assume "w = []"
      then have "length r' = length (c # r)" using cr by simp
      moreover have "length r' \<le> length r"
        using path_loop_length [OF p] length_dropWhile_le [of isIdentCont r] by linarith
      ultimately show False by simp
    qed
    moreover obtain ts' where "ts = tok TokPath w i # ts'" "tok_loop (i + length w) r' = Inr ts'"
      using assms 4 p by (auto simp: push_tok_Inr)
    ultimately show ?thesis
      using cr
      by (intro disjI2 exI [of _ "tok TokPath w i"] exI [of _ ts'] exI [of _ r']) (simp add: tok_text_def)
  next
    case 5
    have single: "ts = tok k [c] i # ts' \<Longrightarrow> tok_loop (i + 1) r = Inr ts' \<Longrightarrow> k \<notin> {TokEOF, TokString} \<Longrightarrow> ?thesis"
      for k ts' by (intro disjI2 exI [of _ "tok k [c] i"] exI [of _ ts'] exI [of _ r]) (simp add: tok_text_def)
    show ?thesis
    proof (cases "c = CHR ''('' \<or> c = CHR '')''")
      case True
      then show ?thesis using assms 5 single [of TokLParen] single [of TokRParen]
        by (auto simp: push_tok_Inr)
    next
      case False
      then obtain n where n: "op_len c r = Some n" using assms 5 by (simp split: if_splits option.splits)
      then have n1: "0 < n" "n \<le> length (c # r)" by (auto simp: op_len_def Suc_le_eq split: if_splits)
      obtain ts' where "ts = tok TokOp (take n (c # r)) i # ts'" "tok_loop (i + n) (drop n (c # r)) = Inr ts'"
        using assms 5 False n by (auto simp: push_tok_Inr split: if_splits)
      moreover have "length (take n (c # r)) = n" "take n (c # r) \<noteq> []" using n1 by auto
      moreover have "tok_text (tok TokOp (take n (c # r)) i) = take n (c # r)" by (simp add: tok_text_def)
      ultimately show ?thesis
        by (intro disjI2 exI [of _ "tok TokOp (take n (c # r)) i"] exI [of _ ts'] exI [of _ "drop n (c # r)"])
           (simp del: take_Suc_Cons drop_Suc_Cons length_take)
    qed
  next
    case 1
    then show ?thesis using assms by simp
  qed
qed

lemma tok_loop_sound:
  assumes "tok_loop i cs = Inr ts"
  shows "\<exists>us. ts = us @ [tok TokEOF [] (i + length cs)] \<and>
    (\<forall>t \<in> set us. tkind t \<noteq> TokEOF \<and> i \<le> tpos t \<and> prefix (tok_text t) (drop (tpos t - i) cs)) \<and>
    sorted_wrt (\<lambda>s t. tpos s + length (tok_text s) \<le> tpos t) us"
  using assms
proof (induction "length cs" arbitrary: i cs ts rule: less_induct)
  case less
  show ?case
  proof (cases cs)
    case Nil
    then show ?thesis using less.prems by auto
  next
    case (Cons c r)
    consider "isBlank c" "tok_loop (i + 1) r = Inr ts"
      | t ts' r' where "ts = t # ts'" "tpos t = i" "tkind t \<noteq> TokEOF" "tok_text t \<noteq> []"
          "cs = tok_text t @ r'" "tok_loop (i + length (tok_text t)) r' = Inr ts'"
      using tok_loop_step [of i c r ts] less.prems Cons by blast
    then show ?thesis
    proof cases
      case 1
      obtain us where us: "ts = us @ [tok TokEOF [] (i + 1 + length r)]"
        "\<forall>t \<in> set us. tkind t \<noteq> TokEOF \<and> i + 1 \<le> tpos t \<and> prefix (tok_text t) (drop (tpos t - (i + 1)) r)"
        "sorted_wrt (\<lambda>s t. tpos s + length (tok_text s) \<le> tpos t) us"
        using less.hyps [of r "i + 1" ts] 1 Cons by auto
      have "\<forall>t \<in> set us. prefix (tok_text t) (drop (tpos t - i) cs)"
        using us(2) Cons by (auto simp: drop_Cons' diff_diff_left)
      then show ?thesis using us Cons by (intro exI [of _ us]) auto
    next
      case (2 t ts' r')
      let ?n = "length (tok_text t)"
      have lt: "length r' < length cs" using 2 by simp
      obtain us where us: "ts' = us @ [tok TokEOF [] (i + ?n + length r')]"
        "\<forall>t' \<in> set us. tkind t' \<noteq> TokEOF \<and> i + ?n \<le> tpos t' \<and> prefix (tok_text t') (drop (tpos t' - (i + ?n)) r')"
        "sorted_wrt (\<lambda>s t. tpos s + length (tok_text s) \<le> tpos t) us"
        using less.hyps [OF lt 2(6)] by auto
      have "\<forall>t' \<in> set us. prefix (tok_text t') (drop (tpos t' - i) cs)"
        using us(2) 2(5) by (auto simp: diff_diff_left)
      then show ?thesis using us 2 by (intro exI [of _ "t # us"]) auto
    qed
  qed
qed

subsection \<open>Spelling a token sequence and scanning it back\<close>

text \<open>The texts of the literal tokens, as the language documents them.\<close>

definition ident :: "string \<Rightarrow> bool" where
  "ident x \<longleftrightarrow> x \<noteq> [] \<and> isIdentStart (hd x) \<and> list_all isIdentCont x"

inductive path_tail :: "string \<Rightarrow> bool" where
  path_end: "path_tail []"
| path_seg: "ident x \<Longrightarrow> path_tail w \<Longrightarrow> path_tail (CHR ''.'' # x @ w)"
| path_idx: "ds \<noteq> [] \<Longrightarrow> list_all isDigit ds \<Longrightarrow> path_tail w \<Longrightarrow> path_tail (CHR ''['' # ds @ CHR '']'' # w)"

definition number_text :: "string \<Rightarrow> bool" where
  "number_text w \<longleftrightarrow> (\<exists>ds fs. ds \<noteq> [] \<and> list_all isDigit ds \<and> list_all isDigit fs \<and>
     (w = ds \<or> w = ds @ CHR ''.'' # fs \<and> fs \<noteq> []))"

definition op_texts :: "string list" where
  "op_texts = [''||'', ''&&'', ''=='', ''!='', ''>='', ''<='', ''>'', ''<'', ''!'', ''+'', ''-'', ''*'', ''/'', ''%'']"

fun wf_tok :: "tokKind \<Rightarrow> string \<Rightarrow> bool" where
  "wf_tok TokEOF w = False"
| "wf_tok TokNumber w = number_text w"
| "wf_tok TokString w = (CHR 0x22 \<notin> set w)"
| "wf_tok TokPath w = (\<exists>x t. w = x @ t \<and> ident x \<and> path_tail t)"
| "wf_tok TokOp w = (w \<in> set op_texts)"
| "wf_tok TokLParen w = (w = ''('')"
| "wf_tok TokRParen w = (w = '')'')"

definition spell :: "token list \<Rightarrow> string" where
  "spell us = concat (map (\<lambda>t. tok_text t @ '' '') us)"

definition tok_view :: "token \<Rightarrow> tokKind \<times> string" where
  "tok_view t = (tkind t, tlit t)"

lemma while_stop:
  "list_all P xs \<Longrightarrow> \<not> P y \<Longrightarrow> takeWhile P (xs @ y # ys) = xs \<and> dropWhile P (xs @ y # ys) = y # ys"
  by (induction xs) auto

lemma stop_chars [simp]:
  "\<not> isIdentCont CHR ''.''" "\<not> isIdentCont CHR ''[''" "\<not> isIdentCont CHR '' ''" "\<not> isDigit CHR '']''"
  "\<not> isDigit CHR ''.''" "\<not> isDigit CHR '' ''" "isBlank CHR '' ''"
  by (simp_all add: isIdentCont_def isIdentStart_def isDigit_def isBlank_def)

lemma path_tail_stop: "path_tail w \<Longrightarrow> \<exists>y ys. w @ CHR '' '' # r = y # ys \<and> \<not> isIdentCont y"
  by (cases rule: path_tail.cases) auto

lemma path_loop_tail:
  "path_tail w \<Longrightarrow> path_loop i acc (w @ CHR '' '' # r) = Inr (acc @ w, CHR '' '' # r)"
proof (induction arbitrary: i acc rule: path_tail.induct)
  case path_end
  then show ?case by simp
next
  case (path_seg x w)
  obtain y ys where y: "w @ CHR '' '' # r = y # ys" "\<not> isIdentCont y"
    using path_tail_stop [OF path_seg.hyps(2)] by blast
  have s: "takeWhile isIdentCont (x @ w @ CHR '' '' # r) = x"
    "dropWhile isIdentCont (x @ w @ CHR '' '' # r) = w @ CHR '' '' # r"
    using while_stop [of isIdentCont x y ys] path_seg.hyps(1) y by (auto simp: ident_def)
  have "x @ w @ CHR '' '' # r \<noteq> []" "isIdentStart (hd (x @ w @ CHR '' '' # r))"
    using path_seg.hyps(1) by (auto simp: ident_def)
  then show ?case using path_seg.IH by (simp add: s)
next
  case (path_idx ds w)
  have s: "takeWhile isDigit (ds @ CHR '']'' # w @ CHR '' '' # r) = ds"
    "dropWhile isDigit (ds @ CHR '']'' # w @ CHR '' '' # r) = CHR '']'' # w @ CHR '' '' # r"
    using while_stop [of isDigit ds "CHR '']''"] path_idx.hyps by auto
  then show ?case using path_idx by simp
qed

lemma scan_number_text: "number_text w \<Longrightarrow> scan_number (w @ CHR '' '' # r) = (w, CHR '' '' # r)"
proof -
  assume "number_text w"
  then obtain ds fs where w: "ds \<noteq> []" "list_all isDigit ds" "list_all isDigit fs"
      "w = ds \<or> w = ds @ CHR ''.'' # fs \<and> fs \<noteq> []"
    by (auto simp: number_text_def)
  show ?thesis
  proof (cases "w = ds")
    case True
    then show ?thesis using while_stop [OF w(2), of "CHR '' ''" r]
      by (auto simp: scan_number_def Let_def split: list.splits)
  next
    case False
    then obtain f fs' where f: "w = ds @ CHR ''.'' # f # fs'" "fs = f # fs'" using w by (cases fs) auto
    have d: "isDigit f" "list_all isDigit fs'" using w(3) f by auto
    have "takeWhile isDigit (w @ CHR '' '' # r) = ds"
      "dropWhile isDigit (w @ CHR '' '' # r) = CHR ''.'' # f # fs' @ CHR '' '' # r"
      using while_stop [OF w(2), of "CHR ''.''" "f # fs' @ CHR '' '' # r"] f by auto
    moreover have "takeWhile isDigit (fs' @ CHR '' '' # r) = fs'" "dropWhile isDigit (fs' @ CHR '' '' # r) = CHR '' '' # r"
      using while_stop [OF d(2), of "CHR '' ''" r] by auto
    ultimately show ?thesis using d f by (simp add: scan_number_def Let_def)
  qed
qed

lemma start_not_digit: "isIdentStart c \<Longrightarrow> \<not> isDigit c \<and> \<not> isBlank c \<and> c \<noteq> CHR 0x22"
proof -
  assume c: "isIdentStart c"
  have "\<not> isDigit c"
  proof
    assume "isDigit c"
    then have "c \<le> CHR ''9''" by (simp add: isDigit_def)
    moreover have "CHR ''A'' \<le> c"
      using c order_trans [of "CHR ''A''" "CHR ''a''" c] by (auto simp: isIdentStart_def)
    ultimately have "CHR ''A'' \<le> CHR ''9''" by (rule order_trans [rotated])
    then show False by simp
  qed
  then show ?thesis using c by (auto simp: isIdentStart_def isBlank_def)
qed

lemma digit_not_blank: "isDigit c \<Longrightarrow> \<not> isBlank c"
  by (auto simp: isDigit_def isBlank_def)

text \<open>A well-formed token followed by a blank is scanned as itself.\<close>

lemma tok_loop_spelled:
  assumes "wf_tok k w"
  shows "tok_loop i (tok_text (tok k w j) @ CHR '' '' # r) =
    push_tok (tok k w i) (tok_loop (i + length (tok_text (tok k w j)) + 1) r)"
proof (cases k)
  case TokNumber
  then have "w \<noteq> []" "isDigit (hd w)"
    using assms by (auto simp: number_text_def list_all_iff hd_append)
  then obtain c w' where "w = c # w'" "isDigit c" by (cases w) auto
  then show ?thesis
    using TokNumber assms scan_number_text [of w r] digit_not_blank by (simp add: tok_text_def)
next
  case TokString
  then have "list_all (\<lambda>d. d \<noteq> CHR 0x22) w" using assms by (auto simp: list_all_iff)
  then have "takeWhile (\<lambda>d. d \<noteq> CHR 0x22) (w @ CHR 0x22 # CHR '' '' # r) = w"
    "dropWhile (\<lambda>d. d \<noteq> CHR 0x22) (w @ CHR 0x22 # CHR '' '' # r) = CHR 0x22 # CHR '' '' # r"
    using while_stop [of "\<lambda>d. d \<noteq> CHR 0x22" w "CHR 0x22"] by auto
  then show ?thesis
    using TokString by (simp add: tok_text_def isBlank_def isDigit_def Let_def)
next
  case TokPath
  then obtain x t where w: "w = x @ t" "ident x" "path_tail t" using assms by auto
  then obtain c x' where x: "x = c # x'" "isIdentStart c" "list_all isIdentCont x'"
    by (cases x) (auto simp: ident_def)
  obtain y ys where y: "t @ CHR '' '' # r = y # ys" "\<not> isIdentCont y"
    using path_tail_stop [OF w(3)] by blast
  have s: "takeWhile isIdentCont (x' @ t @ CHR '' '' # r) = x'"
    "dropWhile isIdentCont (x' @ t @ CHR '' '' # r) = t @ CHR '' '' # r"
    using while_stop [OF x(3) y(2), of ys] y(1) by auto
  show ?thesis
    using TokPath w x s start_not_digit [OF x(2)] path_loop_tail [OF w(3)]
    by (simp add: tok_text_def)
qed (use assms in \<open>auto simp: tok_text_def op_texts_def op_len_def isOpChar_def isBlank_def
      isDigit_def isIdentStart_def\<close>)

lemma tok_loop_spell:
  assumes "\<forall>t \<in> set us. wf_tok (tkind t) (tlit t)"
  shows "\<exists>ts. tok_loop i (spell us) = Inr ts \<and> map tok_view ts = map tok_view us @ [(TokEOF, [])]"
  using assms
proof (induction us arbitrary: i)
  case Nil
  then show ?case by (simp add: spell_def tok_view_def)
next
  case (Cons t us)
  let ?n = "length (tok_text t)"
  obtain ts where ts: "tok_loop (i + ?n + 1) (spell us) = Inr ts" "map tok_view ts = map tok_view us @ [(TokEOF, [])]"
    using Cons by auto
  have "tok_text t = tok_text (tok (tkind t) (tlit t) 0)" by (simp add: tok_text_def)
  then have "tok_loop i (spell (t # us)) = push_tok (tok (tkind t) (tlit t) i) (Inr ts)"
    using tok_loop_spelled [of "tkind t" "tlit t" i 0 "spell us"] Cons.prems ts(1) by (simp add: spell_def)
  moreover have "tok_view (tok (tkind t) (tlit t) i) = tok_view t" by (simp add: tok_view_def)
  ultimately show ?case using ts(2) by (simp add: push_tok_def)
qed

end
