(* ===== verification/CondParser.thy ===== *)
theory CondParser
  imports CondLexer
begin

text \<open>
  The compiler of the condition language (\<^verbatim>\<open>flow/condition_compile.go\<close>): a recursive-descent
  parser that emits a flat node array whose nodes refer to their operands by index.  The model
  keeps the parser's cursor and its node array; an out-of-range read of the token slice is the
  result \<open>PPanic\<close>.  The recursive functions carry fuel, \<open>PFuel\<close> is exhaustion; \<open>parse_total\<close>
  shows that \<open>12 * n + 7\<close> units are enough for \<open>n\<close> tokens, that no read is out of range and that
  every operand index of the emitted program points backwards.
\<close>

datatype conditionNodeKind = NodeLiteral | NodePath | NodeUnary | NodeBinary | NodeRuntimeError

datatype conditionOperator =
    OpNone | OpOr | OpAnd | OpNot | OpEqual | OpNotEqual | OpGreater | OpGreaterEqual | OpLess
  | OpLessEqual | OpAdd | OpSubtract | OpMultiply | OpDivide | OpModulo | OpNegate

text \<open>Every error of the compiler and of the evaluator, with what its message reports.\<close>

datatype cond_error =
    CErrMissingPrefix string
  | CErrLex lex_error
  | CErrExtraToken string nat
  | CErrMissingRParen nat
  | CErrUnexpectedToken string nat
  | CErrBadNumber string
  | CErrIntOverflow string
  | CErrBoolContext gval
  | CErrNotScalar gval
  | CErrTypeMismatch string gval gval
  | CErrNeedNumeric string gval gval
  | CErrUnknownCompare string
  | CErrModNotInt gval gval
  | CErrModZero
  | CErrDivZero
  | CErrUnknownArith string
  | CErrNegateNonNumber gval
  | CErrNegateRange
  | CErrNodeIndex int
  | CErrNilStore
  | CErrPathMissing string
  | CErrUnknownUnary conditionOperator
  | CErrUnknownBinary conditionOperator

record conditionNode =
  nkind :: conditionNodeKind
  nop :: conditionOperator
  nleft :: int
  nright :: int
  nvalue :: gval
  ntext :: string
  nevalErr :: "cond_error option"

record conditionProgram =
  proot :: int
  pnodes :: "conditionNode list"

record conditionParser =
  ptoks :: "token list"
  ppos :: nat
  pnds :: "conditionNode list"

datatype 'a pres = POk 'a conditionParser | PErr cond_error | PPanic | PFuel

definition pbind :: "'a pres \<Rightarrow> ('a \<Rightarrow> conditionParser \<Rightarrow> 'b pres) \<Rightarrow> 'b pres" where
  "pbind m f = (case m of POk a p \<Rightarrow> f a p | PErr e \<Rightarrow> PErr e | PPanic \<Rightarrow> PPanic | PFuel \<Rightarrow> PFuel)"

definition peek :: "conditionParser \<Rightarrow> token option" where
  "peek p = (if ppos p < length (ptoks p) then Some (ptoks p ! ppos p) else None)"

definition with_peek :: "conditionParser \<Rightarrow> (token \<Rightarrow> 'a pres) \<Rightarrow> 'a pres" where
  "with_peek p f = (case peek p of None \<Rightarrow> PPanic | Some t \<Rightarrow> f t)"

definition next_tok :: "conditionParser \<Rightarrow> conditionParser" where
  "next_tok p = (case peek p of None \<Rightarrow> p
     | Some t \<Rightarrow> if tkind t \<noteq> TokEOF then p\<lparr>ppos := ppos p + 1\<rparr> else p)"

definition zero_node :: conditionNode where
  "zero_node = \<lparr>nkind = NodeLiteral, nop = OpNone, nleft = 0, nright = 0, nvalue = VNil, ntext = [],
     nevalErr = None\<rparr>"

definition addNode :: "conditionNode \<Rightarrow> conditionParser \<Rightarrow> int pres" where
  "addNode n p = POk (int (length (pnds p))) (p\<lparr>pnds := pnds p @ [n]\<rparr>)"

definition addUnary :: "conditionOperator \<Rightarrow> int \<Rightarrow> conditionParser \<Rightarrow> int pres" where
  "addUnary op c = addNode (zero_node\<lparr>nkind := NodeUnary, nop := op, nleft := c, nright := -1\<rparr>)"

definition addBinary :: "conditionOperator \<Rightarrow> int \<Rightarrow> int \<Rightarrow> conditionParser \<Rightarrow> int pres" where
  "addBinary op l r = addNode (zero_node\<lparr>nkind := NodeBinary, nop := op, nleft := l, nright := r\<rparr>)"

definition isOp :: "token \<Rightarrow> string \<Rightarrow> bool" where
  "isOp t w \<longleftrightarrow> tkind t = TokOp \<and> tlit t = w"

definition comparisonOperator :: "string \<Rightarrow> conditionOperator option" where
  "comparisonOperator w =
     (if w = ''=='' then Some OpEqual
      else if w = ''!='' then Some OpNotEqual
      else if w = ''>'' then Some OpGreater
      else if w = ''>='' then Some OpGreaterEqual
      else if w = ''<'' then Some OpLess
      else if w = ''<='' then Some OpLessEqual
      else None)"

fun op_text :: "conditionOperator \<Rightarrow> string" where
  "op_text OpEqual = ''==''"
| "op_text OpNotEqual = ''!=''"
| "op_text OpGreater = ''>''"
| "op_text OpGreaterEqual = ''>=''"
| "op_text OpLess = ''<''"
| "op_text OpLessEqual = ''<=''"
| "op_text OpAdd = ''+''"
| "op_text OpSubtract = ''-''"
| "op_text OpMultiply = ''*''"
| "op_text OpDivide = ''/''"
| "op_text OpModulo = ''%''"
| "op_text _ = []"

definition parseConditionNumber :: "string \<Rightarrow> cond_error + gval" where
  "parseConditionNumber w =
     (if CHR ''.'' \<in> set w
      then (case parse_float w of None \<Rightarrow> Inl (CErrBadNumber w) | Some x \<Rightarrow> Inr (VF64 x))
      else (case parse_int w of None \<Rightarrow> Inl (CErrIntOverflow w) | Some n \<Rightarrow> Inr (VInt KInt64 n)))"

definition arith_op :: "string \<Rightarrow> conditionOperator" where
  "arith_op w = (if w = ''-'' then OpSubtract else OpAdd)"

definition term_op :: "string \<Rightarrow> conditionOperator" where
  "term_op w = (if w = ''/'' then OpDivide else if w = ''%'' then OpModulo else OpMultiply)"

text \<open>
  The parser methods.  Each takes the table of methods it calls (\<open>self\<close>); a loop of the source is
  a method of its own, with the operand built so far.
\<close>

datatype nonterm =
    NOr | NOrLoop int | NAnd | NAndLoop int | NUnary | NComparison
  | NArithmetic | NArithLoop int | NTerm | NTermLoop int | NFactor

type_synonym parse_table = "nonterm \<Rightarrow> conditionParser \<Rightarrow> int pres"

definition parseOr :: "parse_table \<Rightarrow> conditionParser \<Rightarrow> int pres" where
  "parseOr self p = pbind (self NAnd p) (\<lambda>l p. self (NOrLoop l) p)"

definition orLoop :: "parse_table \<Rightarrow> int \<Rightarrow> conditionParser \<Rightarrow> int pres" where
  "orLoop self l p = with_peek p (\<lambda>t.
     if isOp t ''||''
     then pbind (self NAnd (next_tok p)) (\<lambda>r p. pbind (addBinary OpOr l r p) (\<lambda>i p. self (NOrLoop i) p))
     else POk l p)"

definition parseAnd :: "parse_table \<Rightarrow> conditionParser \<Rightarrow> int pres" where
  "parseAnd self p = pbind (self NUnary p) (\<lambda>l p. self (NAndLoop l) p)"

definition andLoop :: "parse_table \<Rightarrow> int \<Rightarrow> conditionParser \<Rightarrow> int pres" where
  "andLoop self l p = with_peek p (\<lambda>t.
     if isOp t ''&&''
     then pbind (self NUnary (next_tok p)) (\<lambda>r p. pbind (addBinary OpAnd l r p) (\<lambda>i p. self (NAndLoop i) p))
     else POk l p)"

definition parseUnary :: "parse_table \<Rightarrow> conditionParser \<Rightarrow> int pres" where
  "parseUnary self p = with_peek p (\<lambda>t.
     if isOp t ''!'' then pbind (self NUnary (next_tok p)) (\<lambda>c p. addUnary OpNot c p)
     else self NComparison p)"

definition parseComparison :: "parse_table \<Rightarrow> conditionParser \<Rightarrow> int pres" where
  "parseComparison self p = pbind (self NArithmetic p) (\<lambda>l p. with_peek p (\<lambda>t.
     if tkind t \<noteq> TokOp then POk l p
     else (case comparisonOperator (tlit t) of
       None \<Rightarrow> POk l p
     | Some op \<Rightarrow> pbind (self NArithmetic (next_tok p)) (\<lambda>r p. addBinary op l r p))))"

definition parseArithmetic :: "parse_table \<Rightarrow> conditionParser \<Rightarrow> int pres" where
  "parseArithmetic self p = pbind (self NTerm p) (\<lambda>l p. self (NArithLoop l) p)"

definition arithLoop :: "parse_table \<Rightarrow> int \<Rightarrow> conditionParser \<Rightarrow> int pres" where
  "arithLoop self l p = with_peek p (\<lambda>t.
     if isOp t ''+'' \<or> isOp t ''-''
     then pbind (self NTerm (next_tok p))
       (\<lambda>r p. pbind (addBinary (arith_op (tlit t)) l r p) (\<lambda>i p. self (NArithLoop i) p))
     else POk l p)"

definition parseTerm :: "parse_table \<Rightarrow> conditionParser \<Rightarrow> int pres" where
  "parseTerm self p = pbind (self NFactor p) (\<lambda>l p. self (NTermLoop l) p)"

definition termLoop :: "parse_table \<Rightarrow> int \<Rightarrow> conditionParser \<Rightarrow> int pres" where
  "termLoop self l p = with_peek p (\<lambda>t.
     if isOp t ''*'' \<or> isOp t ''/'' \<or> isOp t ''%''
     then pbind (self NFactor (next_tok p))
       (\<lambda>r p. pbind (addBinary (term_op (tlit t)) l r p) (\<lambda>i p. self (NTermLoop i) p))
     else POk l p)"

definition parseFactor :: "parse_table \<Rightarrow> conditionParser \<Rightarrow> int pres" where
  "parseFactor self p = with_peek p (\<lambda>t.
     if tkind t = TokNumber then
       (case parseConditionNumber (tlit t) of
          Inl e \<Rightarrow> addNode (zero_node\<lparr>nkind := NodeRuntimeError, nevalErr := Some e\<rparr>) (next_tok p)
        | Inr v \<Rightarrow> addNode (zero_node\<lparr>nvalue := v\<rparr>) (next_tok p))
     else if tkind t = TokString then addNode (zero_node\<lparr>nvalue := VStr (tlit t)\<rparr>) (next_tok p)
     else if tkind t = TokPath then
       addNode (zero_node\<lparr>nkind := NodePath, ntext := tlit t\<rparr>) (next_tok p)
     else if tkind t = TokLParen then
       pbind (self NOr (next_tok p)) (\<lambda>i p. with_peek p (\<lambda>c.
         if tkind c \<noteq> TokRParen then PErr (CErrMissingRParen (tpos c)) else POk i (next_tok p)))
     else if isOp t ''-'' then pbind (self NFactor (next_tok p)) (\<lambda>c p. addUnary OpNegate c p)
     else PErr (CErrUnexpectedToken (tlit t) (tpos t)))"

definition parse_method :: "parse_table \<Rightarrow> parse_table" where
  "parse_method self nt = (case nt of
     NOr \<Rightarrow> parseOr self | NOrLoop l \<Rightarrow> orLoop self l
   | NAnd \<Rightarrow> parseAnd self | NAndLoop l \<Rightarrow> andLoop self l
   | NUnary \<Rightarrow> parseUnary self | NComparison \<Rightarrow> parseComparison self
   | NArithmetic \<Rightarrow> parseArithmetic self | NArithLoop l \<Rightarrow> arithLoop self l
   | NTerm \<Rightarrow> parseTerm self | NTermLoop l \<Rightarrow> termLoop self l
   | NFactor \<Rightarrow> parseFactor self)"

primrec parse_at :: "nat \<Rightarrow> parse_table" where
  "parse_at 0 = (\<lambda>nt p. PFuel)"
| "parse_at (Suc n) = parse_method (parse_at n)"

definition parse_fuel :: "token list \<Rightarrow> nat" where
  "parse_fuel ts = 12 * length ts + 7"

text \<open>The whole of a token sequence: the expression, then the end of input.\<close>

definition parse_tokens :: "token list \<Rightarrow> conditionProgram pres" where
  "parse_tokens ts =
     pbind (parse_at (parse_fuel ts) NOr \<lparr>ptoks = ts, ppos = 0, pnds = []\<rparr>) (\<lambda>root p. with_peek p (\<lambda>t.
       if tkind t \<noteq> TokEOF then PErr (CErrExtraToken (tlit t) (tpos t))
       else POk \<lparr>proot = root, pnodes = pnds p\<rparr> p))"

datatype conditionKind = ConditionState | ConditionLua

record CompiledCondition =
  csource :: string
  ckind :: conditionKind
  cscript :: string
  cprogram :: "conditionProgram option"

abbreviation PrefixState :: string where "PrefixState \<equiv> ''state:''"
abbreviation PrefixLua :: string where "PrefixLua \<equiv> ''lua:''"

definition true_program :: conditionProgram where
  "true_program = \<lparr>proot = 0, pnodes = [zero_node\<lparr>nvalue := VBool True\<rparr>]\<rparr>"

datatype compile_res = CompOk CompiledCondition | CompErr cond_error | CompPanic | CompFuel

definition compileCondition :: "string \<Rightarrow> compile_res" where
  "compileCondition source0 =
     (let source = trim_space source0 in
      if source = [] then
        CompOk \<lparr>csource = source, ckind = ConditionState, cscript = [], cprogram = Some true_program\<rparr>
      else if has_prefix source PrefixLua then
        CompOk \<lparr>csource = source, ckind = ConditionLua, cscript = drop (length PrefixLua) source, cprogram = None\<rparr>
      else if \<not> has_prefix source PrefixState then CompErr (CErrMissingPrefix source)
      else
        (let input = trim_space (drop (length PrefixState) source) in
         if input = [] then
           CompOk \<lparr>csource = source, ckind = ConditionState, cscript = [], cprogram = Some true_program\<rparr>
         else (case tokenize input of
             Inl e \<Rightarrow> CompErr (CErrLex e)
           | Inr ts \<Rightarrow> (case parse_tokens ts of
               POk prog p \<Rightarrow>
                 CompOk \<lparr>csource = source, ckind = ConditionState, cscript = [], cprogram = Some prog\<rparr>
             | PErr e \<Rightarrow> CompErr e
             | PPanic \<Rightarrow> CompPanic
             | PFuel \<Rightarrow> CompFuel))))"

definition Source :: "CompiledCondition option \<Rightarrow> string" where
  "Source c = (case c of None \<Rightarrow> [] | Some c \<Rightarrow> csource c)"

definition LuaScript :: "CompiledCondition option \<Rightarrow> string \<times> bool" where
  "LuaScript c = (case c of None \<Rightarrow> ([], False)
     | Some c \<Rightarrow> if ckind c \<noteq> ConditionLua then ([], False) else (cscript c, True))"

subsection \<open>The compiler is total and emits well-formed programs\<close>

definition is_binop :: "conditionOperator \<Rightarrow> bool" where
  "is_binop op \<longleftrightarrow> op \<notin> {OpNone, OpNot, OpNegate}"

text \<open>Operands point backwards, and every operator is one the evaluator knows.\<close>

definition node_ok :: "nat \<Rightarrow> conditionNode \<Rightarrow> bool" where
  "node_ok j n \<longleftrightarrow> (case nkind n of
     NodeUnary \<Rightarrow> 0 \<le> nleft n \<and> nleft n < int j \<and> nop n \<in> {OpNot, OpNegate}
   | NodeBinary \<Rightarrow> 0 \<le> nleft n \<and> nleft n < int j \<and> 0 \<le> nright n \<and> nright n < int j \<and> is_binop (nop n)
   | NodeRuntimeError \<Rightarrow> nevalErr n \<noteq> None
   | _ \<Rightarrow> True)"

definition wf_nodes :: "conditionNode list \<Rightarrow> bool" where
  "wf_nodes ns \<longleftrightarrow> (\<forall>j < length ns. node_ok j (ns ! j))"

definition wf_program :: "conditionProgram \<Rightarrow> bool" where
  "wf_program pr \<longleftrightarrow> wf_nodes (pnodes pr) \<and> 0 \<le> proot pr \<and> proot pr < int (length (pnodes pr))"

definition toks_ok :: "token list \<Rightarrow> bool" where
  "toks_ok ts \<longleftrightarrow> ts \<noteq> [] \<and> (\<forall>i < length ts. tkind (ts ! i) = TokEOF \<longleftrightarrow> Suc i = length ts)"

definition pwf :: "conditionParser \<Rightarrow> bool" where
  "pwf p \<longleftrightarrow> toks_ok (ptoks p) \<and> ppos p < length (ptoks p) \<and> wf_nodes (pnds p)"

definition rem_toks :: "conditionParser \<Rightarrow> nat" where
  "rem_toks p = length (ptoks p) - ppos p"

definition idx_ok :: "int \<Rightarrow> conditionParser \<Rightarrow> bool" where
  "idx_ok i p \<longleftrightarrow> 0 \<le> i \<and> i < int (length (pnds p))"

definition advances :: "bool \<Rightarrow> conditionParser \<Rightarrow> conditionParser \<Rightarrow> bool" where
  "advances strict p q \<longleftrightarrow> pwf q \<and> ptoks q = ptoks p \<and> prefix (pnds p) (pnds q) \<and>
     (if strict then ppos p < ppos q else ppos p \<le> ppos q)"

definition parses :: "bool \<Rightarrow> conditionParser \<Rightarrow> int pres \<Rightarrow> bool" where
  "parses strict p res \<longleftrightarrow> (case res of
     POk i q \<Rightarrow> advances strict p q \<and> idx_ok i q | PErr e \<Rightarrow> True | _ \<Rightarrow> False)"

lemma wf_nodes_snoc: "wf_nodes ns \<Longrightarrow> node_ok (length ns) n \<Longrightarrow> wf_nodes (ns @ [n])"
  by (auto simp: wf_nodes_def nth_append less_Suc_eq)

lemma advances_refl: "pwf p \<Longrightarrow> advances False p p"
  by (simp add: advances_def)

lemma advances_trans: "advances s p q \<Longrightarrow> advances s' q r \<Longrightarrow> advances (s \<or> s') p r"
  by (auto simp: advances_def intro: prefix_order.trans split: if_splits)

lemma advances_weaken: "advances True p q \<Longrightarrow> advances s p q"
  by (auto simp: advances_def)

lemma advances_pwf: "advances s p q \<Longrightarrow> pwf q"
  by (simp add: advances_def)

lemma idx_ok_mono: "idx_ok i p \<Longrightarrow> advances s p q \<Longrightarrow> idx_ok i q"
  by (auto simp: idx_ok_def advances_def prefix_def)

lemma parses_POk [simp]: "parses s p (POk i q) \<longleftrightarrow> advances s p q \<and> idx_ok i q"
  by (simp add: parses_def)

lemma parses_PErr [simp]: "parses s p (PErr e)"
  by (simp add: parses_def)

lemma parses_trans: "advances s p q \<Longrightarrow> parses s' q res \<Longrightarrow> parses (s \<or> s') p res"
  by (auto simp: parses_def intro: advances_trans split: pres.splits)

lemma parses_pbind:
  assumes "parses s p m" and "\<And>i q. advances s p q \<Longrightarrow> idx_ok i q \<Longrightarrow> parses s' p (f i q)"
  shows "parses s' p (pbind m f)"
  using assms by (cases m) (simp_all add: pbind_def parses_def [of s])

lemma parses_peek:
  assumes "pwf p" and "\<And>t. peek p = Some t \<Longrightarrow> parses s q (f t)"
  shows "parses s q (with_peek p f)"
  using assms by (auto simp: with_peek_def peek_def pwf_def)

lemma next_tok_advances:
  assumes "pwf p" "peek p = Some t" "tkind t \<noteq> TokEOF"
  shows "advances True p (next_tok p)" and "rem_toks (next_tok p) < rem_toks p"
proof -
  have "Suc (ppos p) < length (ptoks p)"
    using assms by (auto simp: pwf_def toks_ok_def peek_def split: if_splits)
  then show "advances True p (next_tok p)" "rem_toks (next_tok p) < rem_toks p"
    using assms by (auto simp: advances_def pwf_def next_tok_def rem_toks_def)
qed

lemma addNode_parses:
  assumes "advances s p q" "node_ok (length (pnds q)) n"
  shows "parses s p (addNode n q)"
proof -
  have "advances False q (q\<lparr>pnds := pnds q @ [n]\<rparr>)"
    using assms wf_nodes_snoc [of "pnds q" n] by (auto simp: advances_def pwf_def)
  then have "advances (s \<or> False) p (q\<lparr>pnds := pnds q @ [n]\<rparr>)" by (rule advances_trans [OF assms(1)])
  then show ?thesis by (simp add: addNode_def idx_ok_def)
qed

lemma addUnary_parses:
  "advances s p q \<Longrightarrow> idx_ok c q \<Longrightarrow> op \<in> {OpNot, OpNegate} \<Longrightarrow> parses s p (addUnary op c q)"
  unfolding addUnary_def by (rule addNode_parses) (auto simp: node_ok_def idx_ok_def)

lemma addBinary_parses:
  "advances s p q \<Longrightarrow> idx_ok l q \<Longrightarrow> idx_ok r q \<Longrightarrow> is_binop op \<Longrightarrow> parses s p (addBinary op l r q)"
  unfolding addBinary_def by (rule addNode_parses) (auto simp: node_ok_def idx_ok_def)

lemma rem_advances: "advances True p q \<Longrightarrow> rem_toks q < rem_toks p"
  by (auto simp: advances_def rem_toks_def pwf_def)

lemma rem_advances_le: "advances s p q \<Longrightarrow> rem_toks q \<le> rem_toks p"
  by (auto simp: advances_def rem_toks_def pwf_def split: if_splits)

text \<open>The fuel a method needs above twelve units per remaining token, and what it promises.\<close>

fun nt_fuel :: "nonterm \<Rightarrow> nat" where
  "nt_fuel NOr = 7" | "nt_fuel NAnd = 6" | "nt_fuel NUnary = 5" | "nt_fuel NComparison = 4"
| "nt_fuel NArithmetic = 3" | "nt_fuel NTerm = 2" | "nt_fuel NFactor = 1" | "nt_fuel _ = 1"

fun nt_arg :: "nonterm \<Rightarrow> int option" where
  "nt_arg (NOrLoop l) = Some l" | "nt_arg (NAndLoop l) = Some l"
| "nt_arg (NArithLoop l) = Some l" | "nt_arg (NTermLoop l) = Some l" | "nt_arg _ = None"

definition parse_good :: "nat \<Rightarrow> parse_table \<Rightarrow> bool" where
  "parse_good n self \<longleftrightarrow> (\<forall>nt p. pwf p \<longrightarrow> 12 * rem_toks p + nt_fuel nt \<le> n \<longrightarrow>
     (\<forall>l. nt_arg nt = Some l \<longrightarrow> idx_ok l p) \<longrightarrow> parses (nt_arg nt = None) p (self nt p))"

lemma parse_goodD:
  "parse_good n self \<Longrightarrow> advances s p q \<Longrightarrow> 12 * rem_toks q + nt_fuel nt \<le> n \<Longrightarrow>
   (\<And>l. nt_arg nt = Some l \<Longrightarrow> idx_ok l q) \<Longrightarrow> parses (s \<or> nt_arg nt = None) p (self nt q)"
  by (rule parses_trans) (auto simp: parse_good_def advances_def)

text \<open>
  Two shapes cover eight of the eleven methods: an operand followed by its loop, and one round of
  a loop.
\<close>

lemma chain_good:
  assumes good: "parse_good n self" and p: "pwf p" "12 * rem_toks p + nt_fuel nt \<le> n" "nt_arg nt = None"
    and lp: "\<And>i. nt_arg (lp i) = Some i" "\<And>i. nt_fuel (lp i) = 1"
  shows "parses True p (pbind (self nt p) (\<lambda>l p. self (lp l) p))"
proof (rule parses_pbind)
  show "parses True p (self nt p)"
    using parse_goodD [OF good advances_refl [OF p(1)] p(2)] p(3) by simp
next
  fix i q assume q: "advances True p q" "idx_ok i q"
  have "12 * rem_toks q + nt_fuel (lp i) \<le> n"
    using rem_advances [OF q(1)] p(2) lp(2) [of i] by linarith
  then show "parses True p (self (lp i) q)"
    using parse_goodD [OF good q(1), of "lp i"] q(2) lp(1) by simp
qed

lemma loop_good:
  assumes good: "parse_good n self" and p: "pwf p" "12 * rem_toks p \<le> n" "idx_ok l p"
    and t: "peek p = Some t" "tkind t \<noteq> TokEOF" and nt: "nt_arg nt = None" "nt_fuel nt \<le> 7"
    and op: "is_binop op" and lp: "\<And>i. nt_arg (lp i) = Some i" "\<And>i. nt_fuel (lp i) = 1"
  shows "parses False p (pbind (self nt (next_tok p))
           (\<lambda>r p. pbind (addBinary op l r p) (\<lambda>i p. self (lp i) p)))"
proof (rule parses_pbind [where s = True])
  note nx = next_tok_advances [OF p(1) t]
  show "parses True p (self nt (next_tok p))"
    using parse_goodD [OF good nx(1), of nt] nx(2) p(2) nt by simp
next
  fix r q assume q: "advances True p q" "idx_ok r q"
  show "parses False p (pbind (addBinary op l r q) (\<lambda>i p. self (lp i) p))"
  proof (rule parses_pbind [where s = True])
    show "parses True p (addBinary op l r q)"
      by (rule addBinary_parses [OF q(1) idx_ok_mono [OF p(3) q(1)] q(2) op])
  next
    fix i q' assume q': "advances True p q'" "idx_ok i q'"
    have "12 * rem_toks q' + nt_fuel (lp i) \<le> n"
      using rem_advances [OF q'(1)] p(2) lp(2) [of i] by linarith
    then have "parses True p (self (lp i) q')"
      using parse_goodD [OF good q'(1), of "lp i"] q'(2) lp(1) by simp
    then show "parses False p (self (lp i) q')"
      by (auto simp: parses_def intro: advances_weaken split: pres.splits)
  qed
qed

lemma isOp_not_eof: "isOp t w \<Longrightarrow> tkind t \<noteq> TokEOF"
  by (simp add: isOp_def)

lemma binop_simps [simp]:
  "is_binop OpOr" "is_binop OpAnd" "is_binop (arith_op w)" "is_binop (term_op w)"
  by (simp_all add: is_binop_def arith_op_def term_op_def)

lemma comparisonOperator_binop: "comparisonOperator w = Some op \<Longrightarrow> is_binop op"
  by (auto simp: comparisonOperator_def is_binop_def split: if_splits)

lemma stop_good: "pwf p \<Longrightarrow> idx_ok l p \<Longrightarrow> parses False p (POk l p)"
  by (simp add: advances_refl)

lemma orLoop_good:
  "parse_good n self \<Longrightarrow> pwf p \<Longrightarrow> 12 * rem_toks p \<le> n \<Longrightarrow> idx_ok l p \<Longrightarrow> parses False p (orLoop self l p)"
  unfolding orLoop_def
  by (rule parses_peek) (auto simp: stop_good simp del: parses_POk intro!: loop_good dest: isOp_not_eof)

lemma andLoop_good:
  "parse_good n self \<Longrightarrow> pwf p \<Longrightarrow> 12 * rem_toks p \<le> n \<Longrightarrow> idx_ok l p \<Longrightarrow> parses False p (andLoop self l p)"
  unfolding andLoop_def
  by (rule parses_peek) (auto simp: stop_good simp del: parses_POk intro!: loop_good dest: isOp_not_eof)

lemma arithLoop_good:
  "parse_good n self \<Longrightarrow> pwf p \<Longrightarrow> 12 * rem_toks p \<le> n \<Longrightarrow> idx_ok l p \<Longrightarrow> parses False p (arithLoop self l p)"
  unfolding arithLoop_def
  by (rule parses_peek) (auto simp: stop_good simp del: parses_POk intro!: loop_good dest: isOp_not_eof)

lemma termLoop_good:
  "parse_good n self \<Longrightarrow> pwf p \<Longrightarrow> 12 * rem_toks p \<le> n \<Longrightarrow> idx_ok l p \<Longrightarrow> parses False p (termLoop self l p)"
  unfolding termLoop_def
  by (rule parses_peek) (auto simp: stop_good simp del: parses_POk intro!: loop_good dest: isOp_not_eof)

text \<open>The three methods with a shape of their own.\<close>

lemma after_token_good:
  assumes "parse_good n self" "pwf p" "12 * rem_toks p \<le> n" "peek p = Some t" "tkind t \<noteq> TokEOF"
    "nt_arg nt = None" "nt_fuel nt \<le> 7"
  shows "parses True p (self nt (next_tok p))"
  using parse_goodD [OF assms(1) next_tok_advances(1) [OF assms(2,4,5)], of nt]
    next_tok_advances(2) [OF assms(2,4,5)] assms(3,6,7) by simp

lemma parseUnary_good:
  assumes "parse_good n self" "pwf p" "12 * rem_toks p + 4 \<le> n"
  shows "parses True p (parseUnary self p)"
  unfolding parseUnary_def
proof (rule parses_peek [OF assms(2)])
  fix t assume t: "peek p = Some t"
  show "parses True p (if isOp t ''!'' then pbind (self NUnary (next_tok p)) (\<lambda>c p. addUnary OpNot c p)
      else self NComparison p)"
    using parse_goodD [OF assms(1) advances_refl [OF assms(2)], of NComparison] assms t
    by (auto intro!: parses_pbind [where s = True] addUnary_parses after_token_good dest: isOp_not_eof)
qed

lemma parseComparison_good:
  assumes "parse_good n self" "pwf p" "12 * rem_toks p + 3 \<le> n"
  shows "parses True p (parseComparison self p)"
  unfolding parseComparison_def
proof (rule parses_pbind)
  show "parses True p (self NArithmetic p)"
    using parse_goodD [OF assms(1) advances_refl [OF assms(2)], of NArithmetic] assms(3) by simp
next
  fix l q assume q: "advances True p q" "idx_ok l q"
  have rem: "12 * rem_toks q \<le> n" using rem_advances [OF q(1)] assms(3) by linarith
  have "parses True q (pbind (self NArithmetic (next_tok q)) (\<lambda>r p. addBinary op l r p))"
    if t: "peek q = Some t" "tkind t \<noteq> TokEOF" and op: "is_binop op" for t op
    by (rule parses_pbind [where s = True])
       (auto intro!: addBinary_parses op after_token_good [OF assms(1) advances_pwf [OF q(1)] rem t]
             intro: idx_ok_mono [OF q(2)])
  then have rhs: "parses True p (pbind (self NArithmetic (next_tok q)) (\<lambda>r p. addBinary op l r p))"
    if "peek q = Some t" "tkind t \<noteq> TokEOF" "is_binop op" for t op
    using parses_trans [OF q(1)] that by fastforce
  show "parses True p (with_peek q (\<lambda>t. if tkind t \<noteq> TokOp then POk l q
     else (case comparisonOperator (tlit t) of None \<Rightarrow> POk l q
       | Some op \<Rightarrow> pbind (self NArithmetic (next_tok q)) (\<lambda>r p. addBinary op l r p))))"
  proof (rule parses_peek [OF advances_pwf [OF q(1)]])
    fix t assume "peek q = Some t"
    then show "parses True p (if tkind t \<noteq> TokOp then POk l q
       else (case comparisonOperator (tlit t) of None \<Rightarrow> POk l q
         | Some op \<Rightarrow> pbind (self NArithmetic (next_tok q)) (\<lambda>r p. addBinary op l r p)))"
      using q rhs comparisonOperator_binop [of "tlit t"]
      by (cases "comparisonOperator (tlit t)") simp_all
  qed
qed

lemma parens_good:
  assumes good: "parse_good n self" and p: "pwf p" "12 * rem_toks p \<le> n"
    and t: "peek p = Some t" "tkind t \<noteq> TokEOF"
  shows "parses True p (pbind (self NOr (next_tok p)) (\<lambda>i p. with_peek p (\<lambda>c.
         if tkind c \<noteq> TokRParen then PErr (CErrMissingRParen (tpos c)) else POk i (next_tok p))))"
proof (rule parses_pbind)
  show "parses True p (self NOr (next_tok p))"
    by (rule after_token_good [OF good p t]) simp_all
next
  fix i q assume q: "advances True p q" "idx_ok i q"
  have "advances True p (next_tok q) \<and> idx_ok i (next_tok q)"
    if "peek q = Some c" "tkind c = TokRParen" for c
  proof -
    have nx: "advances True q (next_tok q)"
      by (rule next_tok_advances(1) [OF advances_pwf [OF q(1)] that(1)]) (simp add: that(2))
    show ?thesis using advances_trans [OF q(1) nx] idx_ok_mono [OF q(2) nx] by simp
  qed
  then show "parses True p (with_peek q (\<lambda>c.
      if tkind c \<noteq> TokRParen then PErr (CErrMissingRParen (tpos c)) else POk i (next_tok q)))"
    by (intro parses_peek advances_pwf [OF q(1)]) auto
qed

lemma parseFactor_good:
  assumes "parse_good n self" "pwf p" "12 * rem_toks p \<le> n"
  shows "parses True p (parseFactor self p)"
  unfolding parseFactor_def
proof (rule parses_peek [OF assms(2)])
  fix t assume t: "peek p = Some t"
  have leaf: "parses True p (addNode nd (next_tok p))"
    if "node_ok (length (pnds (next_tok p))) nd" "tkind t \<noteq> TokEOF" for nd
    using that next_tok_advances(1) [OF assms(2) t] by (intro addNode_parses)
  have neg: "parses True p (pbind (self NFactor (next_tok p)) (\<lambda>c p. addUnary OpNegate c p))"
    if "tkind t \<noteq> TokEOF"
    using after_token_good [OF assms t that, of NFactor]
    by (intro parses_pbind [where s = True]) (auto intro!: addUnary_parses)
  show "parses True p
     (if tkind t = TokNumber then
       (case parseConditionNumber (tlit t) of
          Inl e \<Rightarrow> addNode (zero_node\<lparr>nkind := NodeRuntimeError, nevalErr := Some e\<rparr>) (next_tok p)
        | Inr v \<Rightarrow> addNode (zero_node\<lparr>nvalue := v\<rparr>) (next_tok p))
     else if tkind t = TokString then addNode (zero_node\<lparr>nvalue := VStr (tlit t)\<rparr>) (next_tok p)
     else if tkind t = TokPath then
       addNode (zero_node\<lparr>nkind := NodePath, ntext := tlit t\<rparr>) (next_tok p)
     else if tkind t = TokLParen then
       pbind (self NOr (next_tok p)) (\<lambda>i p. with_peek p (\<lambda>c.
         if tkind c \<noteq> TokRParen then PErr (CErrMissingRParen (tpos c)) else POk i (next_tok p)))
     else if isOp t ''-'' then pbind (self NFactor (next_tok p)) (\<lambda>c p. addUnary OpNegate c p)
     else PErr (CErrUnexpectedToken (tlit t) (tpos t)))"
    using parens_good [OF assms t] neg
    by (auto intro!: leaf simp: node_ok_def zero_node_def isOp_def split: sum.splits)
qed

lemma parse_method_good:
  assumes good: "parse_good n self"
  shows "parse_good (Suc n) (parse_method self)"
  unfolding parse_good_def
proof (intro allI impI)
  fix nt p assume p: "pwf p" and fuel: "12 * rem_toks p + nt_fuel nt \<le> Suc n"
    and arg: "\<forall>l. nt_arg nt = Some l \<longrightarrow> idx_ok l p"
  note loops = orLoop_good andLoop_good arithLoop_good termLoop_good
  note chains = parseOr_def parseAnd_def parseArithmetic_def parseTerm_def
  show "parses (nt_arg nt = None) p (parse_method self nt p)"
    using p fuel arg
    by (cases nt)
       (auto simp: parse_method_def chains simp del: parses_POk
             intro!: chain_good [OF good] loops [OF good] parseUnary_good [OF good]
                     parseComparison_good [OF good] parseFactor_good [OF good])
qed

lemma nt_fuel_pos [simp]: "nt_fuel nt = 0 \<longleftrightarrow> False"
  by (cases nt) simp_all

lemma parse_at_good: "parse_good n (parse_at n)"
proof (induction n)
  case 0
  then show ?case by (simp add: parse_good_def)
next
  case (Suc n)
  then show ?case by (simp add: parse_method_good)
qed

lemma parse_tokens_total:
  assumes "toks_ok ts"
  shows "(\<exists>pr p. parse_tokens ts = POk pr p \<and> wf_program pr) \<or> (\<exists>e. parse_tokens ts = PErr e)"
proof -
  let ?p = "\<lparr>ptoks = ts, ppos = 0, pnds = []\<rparr>"
  have p: "pwf ?p" using assms by (auto simp: pwf_def toks_ok_def wf_nodes_def)
  have "parses True ?p (parse_at (parse_fuel ts) NOr ?p)"
    using parse_goodD [OF parse_at_good advances_refl [OF p], of NOr "parse_fuel ts"]
    by (simp add: rem_toks_def parse_fuel_def)
  then show ?thesis
    by (cases "parse_at (parse_fuel ts) NOr ?p")
       (auto simp: parses_def parse_tokens_def pbind_def with_peek_def peek_def advances_def pwf_def
          wf_program_def idx_ok_def)
qed

lemma tokenize_toks_ok: "tokenize cs = Inr ts \<Longrightarrow> toks_ok ts"
  using tok_loop_sound [of 0 cs ts]
  by (auto simp: tokenize_def toks_ok_def tok_def nth_append less_Suc_eq dest: nth_mem)

definition condition_ok :: "CompiledCondition \<Rightarrow> bool" where
  "condition_ok c \<longleftrightarrow> (case ckind c of
     ConditionLua \<Rightarrow> cprogram c = None
   | ConditionState \<Rightarrow> (case cprogram c of None \<Rightarrow> False | Some pr \<Rightarrow> wf_program pr))"

lemma true_program_wf: "wf_program true_program"
  by (simp add: wf_program_def true_program_def wf_nodes_def node_ok_def zero_node_def)

end
