(* ===== verification/CondEval.thy ===== *)
theory CondEval
  imports CondParser
begin

text \<open>
  The evaluator of compiled conditions: the strict numeric operations of
  \<^verbatim>\<open>flow/condition_compare.go\<close> and the walk over the flat node array of \<^verbatim>\<open>flow/condition.go\<close>.
  The state store is the function its \<open>GetPath\<close> computes (\<open>VNil\<close> for a missing path), a nil store
  is \<open>None\<close>.  The walk carries fuel; \<open>eval_at_den\<close> shows that one unit more than the index of the
  node is enough.
\<close>

record numRep =
  nok :: bool
  nisInt :: bool
  ni :: int
  nu :: int
  nisU :: bool
  nbigU :: bool
  nf :: float64

definition numRep0 :: numRep where
  "numRep0 = \<lparr>nok = False, nisInt = False, ni = 0, nu = 0, nisU = False, nbigU = False, nf = Fin 0\<rparr>"

definition MaxInt64 :: int where "MaxInt64 = 9223372036854775807"

fun classifyNumber :: "gval \<Rightarrow> numRep" where
  "classifyNumber (VInt k n) = numRep0\<lparr>nok := True, nisInt := True, ni := n, nf := f64_of_int n\<rparr>"
| "classifyNumber (VUint k n) =
     (if k \<in> {KUint, KUint64} \<and> n > MaxInt64
      then numRep0\<lparr>nok := True, nisInt := True, nisU := True, nu := n, nbigU := True, nf := f64_of_int n\<rparr>
      else numRep0\<lparr>nok := True, nisInt := True, nisU := True, nu := n, ni := n, nf := f64_of_int n\<rparr>)"
| "classifyNumber (VF32 x) = numRep0\<lparr>nok := True, nf := x\<rparr>"
| "classifyNumber (VF64 x) = numRep0\<lparr>nok := True, nf := x\<rparr>"
| "classifyNumber v = numRep0"

definition isNumber :: "gval \<Rightarrow> bool" where
  "isNumber v = nok (classifyNumber v)"

fun asBool :: "gval \<Rightarrow> bool \<times> cond_error option" where
  "asBool (VBool b) = (b, None)"
| "asBool v = (False, Some (CErrBoolContext v))"

definition cmpInt64 :: "int \<Rightarrow> int \<Rightarrow> int" where
  "cmpInt64 a b = (if a < b then -1 else if a > b then 1 else 0)"

definition cmpUint64 :: "int \<Rightarrow> int \<Rightarrow> int" where
  "cmpUint64 a b = (if a < b then -1 else if a > b then 1 else 0)"

definition cmpFloat64 :: "float64 \<Rightarrow> float64 \<Rightarrow> int" where
  "cmpFloat64 a b = (if flt a b then -1 else if flt b a then 1 else 0)"

definition cmpNumbersExact :: "gval \<Rightarrow> gval \<Rightarrow> int" where
  "cmpNumbersExact a b =
     (let ra = classifyNumber a; rb = classifyNumber b in
      if nisInt ra \<and> nisInt rb then
        (let aNeg = (\<not> nisU ra \<and> ni ra < 0); bNeg = (\<not> nisU rb \<and> ni rb < 0) in
         if aNeg \<and> bNeg then cmpInt64 (ni ra) (ni rb)
         else if aNeg then -1
         else if bNeg then 1
         else (let au = (if nisU ra then nu ra else wrapu64 (ni ra));
                   bu = (if nisU rb then nu rb else wrapu64 (ni rb))
               in cmpUint64 au bu))
      else cmpFloat64 (nf ra) (nf rb))"

definition is_VStr :: "gval \<Rightarrow> bool" where
  "is_VStr v = (case v of VStr _ \<Rightarrow> True | _ \<Rightarrow> False)"

definition is_VBool :: "gval \<Rightarrow> bool" where
  "is_VBool v = (case v of VBool _ \<Rightarrow> True | _ \<Rightarrow> False)"

definition strictCompare :: "gval \<Rightarrow> gval \<Rightarrow> string \<Rightarrow> bool \<times> cond_error option" where
  "strictCompare a b opx =
     (if \<not> isNumber a \<and> \<not> is_VStr a \<and> \<not> is_VBool a then (False, Some (CErrNotScalar a))
      else if \<not> isNumber b \<and> \<not> is_VStr b \<and> \<not> is_VBool b then (False, Some (CErrNotScalar b))
      else if opx = ''=='' \<or> opx = ''!='' then
        (let eq = (if isNumber a \<and> isNumber b then Some (cmpNumbersExact a b = 0)
                   else if is_VStr a \<and> is_VStr b then Some (a = b)
                   else if is_VBool a \<and> is_VBool b then Some (a = b)
                   else None)
         in case eq of
              None \<Rightarrow> (False, Some (CErrTypeMismatch opx a b))
            | Some e \<Rightarrow> (if opx = ''=='' then (e, None) else (\<not> e, None)))
      else if opx \<in> {''>'', ''>='', ''<'', ''<=''} then
        (if \<not> isNumber a \<or> \<not> isNumber b then (False, Some (CErrNeedNumeric opx a b))
         else (let c = cmpNumbersExact a b in
           if opx = ''>'' then (c > 0, None)
           else if opx = ''>='' then (c \<ge> 0, None)
           else if opx = ''<'' then (c < 0, None)
           else (c \<le> 0, None)))
      else (False, Some (CErrUnknownCompare opx)))"

definition evalArith :: "string \<Rightarrow> gval \<Rightarrow> gval \<Rightarrow> gval \<times> cond_error option" where
  "evalArith opx a b =
     (let ra = classifyNumber a; rb = classifyNumber b in
      if \<not> nok ra \<or> \<not> nok rb then (VNil, Some (CErrNeedNumeric opx a b))
      else
        (let intArith = (nisInt ra \<and> nisInt rb \<and> \<not> nbigU ra \<and> \<not> nbigU rb) in
         if opx = ''%'' then
           (if \<not> intArith then (VNil, Some (CErrModNotInt a b))
            else if ni rb = 0 then (VNil, Some CErrModZero)
            else (VInt KInt64 (go_rem (ni ra) (ni rb)), None))
         else if opx = ''/'' then
           (if intArith then
              (if ni rb = 0 then (VNil, Some CErrDivZero)
               else (VInt KInt64 (go_div (ni ra) (ni rb)), None))
            else if feq (nf rb) (Fin 0) then (VNil, Some CErrDivZero)
            else (VF64 (fdiv (nf ra) (nf rb)), None))
         else if opx = ''*'' then
           (if intArith then (VInt KInt64 (wrap64 (ni ra * ni rb)), None)
            else (VF64 (fmul (nf ra) (nf rb)), None))
         else if opx = ''+'' then
           (if intArith then (VInt KInt64 (wrap64 (ni ra + ni rb)), None)
            else (VF64 (fadd (nf ra) (nf rb)), None))
         else if opx = ''-'' then
           (if intArith then (VInt KInt64 (wrap64 (ni ra - ni rb)), None)
            else (VF64 (fsub (nf ra) (nf rb)), None))
         else (VNil, Some (CErrUnknownArith opx))))"

definition negate :: "gval \<Rightarrow> gval \<times> cond_error option" where
  "negate v =
     (let r = classifyNumber v in
      if \<not> nok r then (VNil, Some (CErrNegateNonNumber v))
      else if nbigU r then (VNil, Some CErrNegateRange)
      else if nisInt r then (VInt KInt64 (wrap64 (- ni r)), None)
      else (VF64 (fneg (nf r)), None))"

subsection \<open>The walk over the node array\<close>

record conditionEvalContext =
  estore :: "(string \<Rightarrow> gval) option"
  efirstErr :: "cond_error option"

definition recordError :: "cond_error option \<Rightarrow> conditionEvalContext \<Rightarrow> conditionEvalContext" where
  "recordError e c = (if efirstErr c = None \<and> e \<noteq> None then c\<lparr>efirstErr := e\<rparr> else c)"

definition effectiveBool :: "gval \<times> cond_error option \<Rightarrow> conditionEvalContext \<Rightarrow> bool \<times> conditionEvalContext" where
  "effectiveBool r c = (case r of (v, err) \<Rightarrow>
     if err \<noteq> None then (False, recordError err c)
     else (case asBool v of (b, err') \<Rightarrow>
       if err' \<noteq> None then (False, recordError err' c) else (b, c)))"

type_synonym eval_res = "((gval \<times> cond_error option) \<times> conditionEvalContext) option"

type_synonym eval_table = "int \<Rightarrow> conditionEvalContext \<Rightarrow> eval_res"

definition fail_eval :: "cond_error option \<Rightarrow> conditionEvalContext \<Rightarrow> eval_res" where
  "fail_eval e c = Some ((VNil, e), recordError e c)"

definition evalUnary :: "eval_table \<Rightarrow> conditionNode \<Rightarrow> conditionEvalContext \<Rightarrow> eval_res" where
  "evalUnary self nd c = (case self (nleft nd) c of None \<Rightarrow> None | Some ((v, err), c) \<Rightarrow>
     (case nop nd of
        OpNot \<Rightarrow> (case effectiveBool (v, err) c of (b, c) \<Rightarrow> Some ((VBool (\<not> b), None), c))
      | OpNegate \<Rightarrow>
          (if err \<noteq> None then Some ((VNil, err), c)
           else (case negate v of (r, err) \<Rightarrow> Some ((r, err), recordError err c)))
      | opx \<Rightarrow> fail_eval (Some (CErrUnknownUnary opx)) c))"

definition is_compare :: "conditionOperator \<Rightarrow> bool" where
  "is_compare opx \<longleftrightarrow> opx \<in> {OpEqual, OpNotEqual, OpGreater, OpGreaterEqual, OpLess, OpLessEqual}"

definition is_arith :: "conditionOperator \<Rightarrow> bool" where
  "is_arith opx \<longleftrightarrow> opx \<in> {OpAdd, OpSubtract, OpMultiply, OpDivide, OpModulo}"

definition apply_binary :: "conditionOperator \<Rightarrow> gval \<Rightarrow> gval \<Rightarrow> gval \<times> cond_error option" where
  "apply_binary opx l r =
     (if is_compare opx then (case strictCompare l r (op_text opx) of (b, err) \<Rightarrow> (VBool b, err))
      else if is_arith opx then evalArith (op_text opx) l r
      else (VNil, Some (CErrUnknownBinary opx)))"

definition evalBinary :: "eval_table \<Rightarrow> conditionNode \<Rightarrow> conditionEvalContext \<Rightarrow> eval_res" where
  "evalBinary self nd c = (case self (nleft nd) c of None \<Rightarrow> None | Some ((l, err), c) \<Rightarrow>
     if nop nd = OpOr then
       (case effectiveBool (l, err) c of (lb, c) \<Rightarrow>
          if lb then Some ((VBool True, None), c)
          else (case self (nright nd) c of None \<Rightarrow> None | Some (r, c) \<Rightarrow>
            (case effectiveBool r c of (rb, c) \<Rightarrow> Some ((VBool rb, None), c))))
     else if nop nd = OpAnd then
       (case effectiveBool (l, err) c of (lb, c) \<Rightarrow>
          if \<not> lb then Some ((VBool False, None), c)
          else (case self (nright nd) c of None \<Rightarrow> None | Some (r, c) \<Rightarrow>
            (case effectiveBool r c of (rb, c) \<Rightarrow> Some ((VBool rb, None), c))))
     else if err \<noteq> None then Some ((VNil, err), c)
     else (case self (nright nd) c of None \<Rightarrow> None | Some ((r, err), c) \<Rightarrow>
       if err \<noteq> None then Some ((VNil, err), c)
       else (case apply_binary (nop nd) l r of (v, err) \<Rightarrow> Some ((v, err), recordError err c))))"

definition evalNode :: "conditionProgram \<Rightarrow> eval_table \<Rightarrow> eval_table" where
  "evalNode pr self i c =
     (if i < 0 \<or> i \<ge> int (length (pnodes pr)) then fail_eval (Some (CErrNodeIndex i)) c
      else (let nd = pnodes pr ! nat i in
        case nkind nd of
          NodeLiteral \<Rightarrow> Some ((nvalue nd, None), c)
        | NodePath \<Rightarrow> (case estore c of
              None \<Rightarrow> fail_eval (Some CErrNilStore) c
            | Some getPath \<Rightarrow> (let v = getPath (ntext nd) in
                if v = VNil then fail_eval (Some (CErrPathMissing (ntext nd))) c
                else Some ((v, None), c)))
        | NodeRuntimeError \<Rightarrow> fail_eval (nevalErr nd) c
        | NodeUnary \<Rightarrow> evalUnary self nd c
        | NodeBinary \<Rightarrow> evalBinary self nd c))"

primrec eval_at :: "conditionProgram \<Rightarrow> nat \<Rightarrow> eval_table" where
  "eval_at pr 0 = (\<lambda>i c. None)"
| "eval_at pr (Suc n) = evalNode pr (eval_at pr n)"

text \<open>The verdict and the first error, which the code logs.  \<open>None\<close> is exhausted fuel.\<close>

definition eval_program :: "conditionProgram \<Rightarrow> (string \<Rightarrow> gval) option \<Rightarrow> (bool \<times> cond_error option) option" where
  "eval_program pr store =
     (case eval_at pr (length (pnodes pr)) (proot pr) \<lparr>estore = store, efirstErr = None\<rparr> of
        None \<Rightarrow> None
      | Some ((v, err), c) \<Rightarrow>
          (let c = recordError err c in
           Some (case v of VBool b \<Rightarrow> b | _ \<Rightarrow> False, efirstErr c)))"

definition EvalState :: "CompiledCondition option \<Rightarrow> (string \<Rightarrow> gval) option \<Rightarrow> bool option" where
  "EvalState c store = (case c of
     None \<Rightarrow> Some False
   | Some c \<Rightarrow> (if ckind c \<noteq> ConditionState then Some False
       else (case cprogram c of None \<Rightarrow> Some False
         | Some pr \<Rightarrow> map_option fst (eval_program pr store))))"

subsection \<open>The reference semantics: expression trees\<close>

datatype cexpr =
    CLit gval
  | CPath string
  | CBad cond_error
  | CUn conditionOperator cexpr
  | CBin conditionOperator cexpr cexpr

text \<open>The tree below node \<open>i\<close>.  An operand that does not point backwards has no tree.\<close>

function decode :: "conditionNode list \<Rightarrow> nat \<Rightarrow> cexpr" where
  "decode ns i =
     (if i \<ge> length ns then CBad (CErrNodeIndex (int i))
      else (let nd = ns ! i; l = nleft nd; r = nright nd in
        case nkind nd of
          NodeLiteral \<Rightarrow> CLit (nvalue nd)
        | NodePath \<Rightarrow> CPath (ntext nd)
        | NodeRuntimeError \<Rightarrow> CBad (the (nevalErr nd))
        | NodeUnary \<Rightarrow>
            (if 0 \<le> l \<and> nat l < i then CUn (nop nd) (decode ns (nat l)) else CBad (CErrNodeIndex l))
        | NodeBinary \<Rightarrow>
            (if 0 \<le> l \<and> nat l < i \<and> 0 \<le> r \<and> nat r < i
             then CBin (nop nd) (decode ns (nat l)) (decode ns (nat r)) else CBad (CErrNodeIndex l))))"
  by pat_completeness auto
termination by (relation "measure snd") auto

declare decode.simps [simp del]

text \<open>
  A condition is true, false or in error; an error in a boolean position counts as false, in an
  operand of arithmetic or of a comparison it is the error of the whole.
\<close>

fun truth :: "gval \<times> cond_error option \<Rightarrow> bool" where
  "truth (VBool b, None) = b"
| "truth _ = False"

fun den :: "(string \<Rightarrow> gval) option \<Rightarrow> cexpr \<Rightarrow> gval \<times> cond_error option" where
  "den s (CLit v) = (v, None)"
| "den s (CPath x) = (case s of
     None \<Rightarrow> (VNil, Some CErrNilStore)
   | Some g \<Rightarrow> if g x = VNil then (VNil, Some (CErrPathMissing x)) else (g x, None))"
| "den s (CBad e) = (VNil, Some e)"
| "den s (CUn opx e) =
     (if opx = OpNot then (VBool (\<not> truth (den s e)), None)
      else if opx = OpNegate then
        (case den s e of (v, Some err) \<Rightarrow> (VNil, Some err) | (v, None) \<Rightarrow> negate v)
      else (VNil, Some (CErrUnknownUnary opx)))"
| "den s (CBin opx l r) =
     (if opx = OpOr then (VBool (truth (den s l) \<or> truth (den s r)), None)
      else if opx = OpAnd then (VBool (truth (den s l) \<and> truth (den s r)), None)
      else (case (den s l, den s r) of
        ((_, Some err), _) \<Rightarrow> (VNil, Some err)
      | ((_, None), (_, Some err)) \<Rightarrow> (VNil, Some err)
      | ((a, None), (b, None)) \<Rightarrow> apply_binary opx a b))"

definition orelse :: "'a option \<Rightarrow> 'a option \<Rightarrow> 'a option" where
  "orelse a b = (case a of None \<Rightarrow> b | Some x \<Rightarrow> Some x)"

definition bool_err :: "gval \<times> cond_error option \<Rightarrow> cond_error option" where
  "bool_err r = orelse (snd r) (snd (asBool (fst r)))"

text \<open>The first error met from left to right, short circuits respected.\<close>

fun first_error :: "(string \<Rightarrow> gval) option \<Rightarrow> cexpr \<Rightarrow> cond_error option" where
  "first_error s (CUn opx e) =
     orelse (first_error s e)
       (if opx = OpNot then bool_err (den s e) else snd (den s (CUn opx e)))"
| "first_error s (CBin opx l r) =
     orelse (first_error s l)
       (if opx \<in> {OpOr, OpAnd}
        then orelse (bool_err (den s l))
          (if truth (den s l) = (opx = OpOr) then None
           else orelse (first_error s r) (bool_err (den s r)))
        else if snd (den s l) \<noteq> None then None
        else orelse (first_error s r) (snd (den s (CBin opx l r))))"
| "first_error s e = snd (den s e)"

lemma orelse_simps [simp]:
  "orelse None b = b" "orelse (Some x) b = Some x" "orelse a None = a"
  "orelse (orelse a b) c = orelse a (orelse b c)" "orelse a b = None \<longleftrightarrow> a = None \<and> b = None"
  by (cases a; simp add: orelse_def)+

lemma recordError_simps [simp]:
  "recordError None c = c" "estore (recordError e c) = estore c"
  "recordError e c = c\<lparr>efirstErr := orelse (efirstErr c) e\<rparr>"
  by (cases "efirstErr c"; simp add: recordError_def orelse_def)+

lemma effectiveBool_truth:
  "effectiveBool r c = (truth r, c\<lparr>efirstErr := orelse (efirstErr c) (bool_err r)\<rparr>)"
proof (cases r)
  case (Pair v err)
  show ?thesis
    by (cases v; cases err) (simp_all add: Pair effectiveBool_def bool_err_def)
qed

lemma error_recorded: "snd (den s e) \<noteq> None \<Longrightarrow> first_error s e \<noteq> None"
  by (induction s e rule: first_error.induct)
     (auto split: if_splits option.splits prod.splits)

lemma first_error_absorb: "snd (den s e) \<noteq> None \<Longrightarrow> orelse (first_error s e) x = first_error s e"
  using error_recorded [of s e] by (cases "first_error s e") simp_all

lemma eval_at_den:
  assumes "wf_nodes (pnodes pr)" "i < length (pnodes pr)" "i < n"
  shows "eval_at pr n (int i) c =
    Some (den (estore c) (decode (pnodes pr) i),
      c\<lparr>efirstErr := orelse (efirstErr c) (first_error (estore c) (decode (pnodes pr) i))\<rparr>)"
  using assms(2,3)
proof (induction i arbitrary: n c rule: less_induct)
  case (less i)
  let ?ns = "pnodes pr" and ?nd = "pnodes pr ! i"
  obtain m where m: "n = Suc m" using less.prems(2) by (cases n) auto
  have ok: "node_ok i ?nd" using assms(1) less.prems(1) by (simp add: wf_nodes_def)
  have IH: "eval_at pr m j c = Some (den (estore c) (decode ?ns (nat j)),
      c\<lparr>efirstErr := orelse (efirstErr c) (first_error (estore c) (decode ?ns (nat j)))\<rparr>)"
    if "0 \<le> j" "j < int i" for j c
    using less.IH [of "nat j" m c] less.prems m that by simp
  show ?case
  proof (cases "nkind ?nd")
    case NodeUnary
    let ?l = "decode ?ns (nat (nleft ?nd))"
    have d: "decode ?ns i = CUn (nop ?nd) ?l"
      using less.prems ok NodeUnary by (simp add: decode.simps [of ?ns i] node_ok_def nat_less_iff Let_def)
    have l: "0 \<le> nleft ?nd" "nleft ?nd < int i" "nop ?nd = OpNot \<or> nop ?nd = OpNegate"
      using ok NodeUnary by (auto simp: node_ok_def)
    show ?thesis
      using less.prems l NodeUnary
      by (auto simp: m d evalNode_def evalUnary_def IH effectiveBool_truth first_error_absorb
            split: prod.splits option.splits)
  next
    case NodeBinary
    let ?l = "decode ?ns (nat (nleft ?nd))" and ?r = "decode ?ns (nat (nright ?nd))"
    have d: "decode ?ns i = CBin (nop ?nd) ?l ?r"
      using less.prems ok NodeBinary by (simp add: decode.simps [of ?ns i] node_ok_def nat_less_iff Let_def)
    have b: "0 \<le> nleft ?nd" "nleft ?nd < int i" "0 \<le> nright ?nd" "nright ?nd < int i"
      using ok NodeBinary by (auto simp: node_ok_def)
    consider "nop ?nd = OpOr" | "nop ?nd = OpAnd" | "nop ?nd \<noteq> OpOr" "nop ?nd \<noteq> OpAnd" by blast
    then show ?thesis
    proof cases
      case 3
      show ?thesis
        using less.prems b NodeBinary 3
        by (auto simp: m d evalNode_def evalBinary_def IH first_error_absorb Let_def
            split: prod.splits option.splits)
    qed (use less.prems b NodeBinary in \<open>auto simp: m d evalNode_def evalBinary_def IH effectiveBool_truth Let_def\<close>)
  qed (use less.prems ok in \<open>auto simp: m evalNode_def fail_eval_def decode.simps [of ?ns i] node_ok_def
          Let_def split: option.splits\<close>)
qed

lemma negate_error: "snd (negate v) = Some e \<Longrightarrow> fst (negate v) = VNil"
  by (auto simp: negate_def Let_def split: if_splits)

lemma evalArith_error: "snd (evalArith w a b) = Some e \<Longrightarrow> fst (evalArith w a b) = VNil"
  unfolding evalArith_def Let_def by (force split: if_splits)

lemma strictCompare_error: "snd (strictCompare a b w) = Some e \<Longrightarrow> \<not> fst (strictCompare a b w)"
  unfolding strictCompare_def Let_def by (simp split: if_splits option.splits)

lemma apply_binary_error:
  "snd (apply_binary w a b) = Some e \<Longrightarrow> fst (apply_binary w a b) \<noteq> VBool True"
  using evalArith_error [of "op_text w" a b] strictCompare_error [of a b "op_text w"]
  by (auto simp: apply_binary_def split: if_splits prod.splits)

lemma den_error_not_true: "snd (den s e) = Some err \<Longrightarrow> fst (den s e) \<noteq> VBool True"
proof (cases e)
  case (CUn opx d)
  then show "snd (den s e) = Some err \<Longrightarrow> ?thesis"
    using negate_error by (auto split: if_splits option.splits prod.splits)
next
  case (CBin opx l r)
  then show "snd (den s e) = Some err \<Longrightarrow> ?thesis"
    using apply_binary_error by (auto split: if_splits option.splits prod.splits)
qed (auto split: if_splits option.splits)

lemma first_error_own: "orelse (first_error s e) (snd (den s e)) = first_error s e"
  by (cases "snd (den s e)") (simp_all add: first_error_absorb)

lemma eval_program_den:
  assumes "wf_program pr"
  shows "eval_program pr store =
    Some (truth (den store (decode (pnodes pr) (nat (proot pr)))),
          first_error store (decode (pnodes pr) (nat (proot pr))))"
proof -
  let ?e = "decode (pnodes pr) (nat (proot pr))"
  have "eval_at pr (length (pnodes pr)) (proot pr) c =
      Some (den (estore c) ?e, c\<lparr>efirstErr := orelse (efirstErr c) (first_error (estore c) ?e)\<rparr>)" for c
    using eval_at_den [of pr "nat (proot pr)" "length (pnodes pr)" c] assms
    by (auto simp: wf_program_def)
  moreover have "(case v of VBool b \<Rightarrow> b | _ \<Rightarrow> False) = truth (v, err)"
    if "den store ?e = (v, err)" for v err
    using den_error_not_true [of store ?e] that by (cases v; cases err) auto
  ultimately show ?thesis
    using first_error_own [of store ?e] by (cases "den store ?e") (simp add: eval_program_def Let_def)
qed

subsection \<open>Properties\<close>

fun num_int :: "gval \<Rightarrow> int option" where
  "num_int (VInt k n) = Some n"
| "num_int (VUint k n) = Some n"
| "num_int _ = None"

lemma cmp_sgn: "cmpInt64 a b = sgn (a - b)" "cmpUint64 a b = sgn (a - b)"
  by (simp_all add: cmpInt64_def cmpUint64_def)

text \<open>
  Integers of every width and signedness are compared by their mathematical value, including
  negative numbers against \<open>uint64\<close> values above the largest \<open>int64\<close>.
\<close>

theorem cmpNumbersExact_exact:
  assumes "wf_gval a" "wf_gval b" "num_int a = Some m" "num_int b = Some n"
  shows "cmpNumbersExact a b = sgn (m - n)"
proof -
  have "wrapu64 m = m" if "a = VInt k m" "0 \<le> m" for k
    using wf_VInt_i64 [of k m] assms(1) that by (intro wrapu64_id) (simp add: is_i64_def is_u64_def)
  moreover have "wrapu64 n = n" if "b = VInt k n" "0 \<le> n" for k
    using wf_VInt_i64 [of k n] assms(2) that by (intro wrapu64_id) (simp add: is_i64_def is_u64_def)
  ultimately show ?thesis
    using assms by (cases a; cases b) (auto simp: cmpNumbersExact_def numRep0_def cmp_sgn Let_def)
qed

theorem cmpNumbersExact_exact_witness:
  "cmpNumbersExact (VUint KUint64 18446744073709551615) (VInt KInt64 (-1)) = 1"
  using cmpNumbersExact_exact [of "VUint KUint64 18446744073709551615" "VInt KInt64 (-1)"
      "18446744073709551615" "-1"] by simp

lemma compile_cases:
  "(\<exists>c. compileCondition src = CompOk c \<and> condition_ok c \<and> csource c = trim_space src)
   \<or> (\<exists>e. compileCondition src = CompErr e)"
proof -
  let ?in = "trim_space (drop (length PrefixState) (trim_space src))"
  show ?thesis
  proof (cases "tokenize ?in")
    case (Inr ts)
    then have "(\<exists>pr p. parse_tokens ts = POk pr p \<and> wf_program pr) \<or> (\<exists>e. parse_tokens ts = PErr e)"
      by (intro parse_tokens_total tokenize_toks_ok)
    then show ?thesis
      using Inr by (auto simp: compileCondition_def condition_ok_def true_program_wf Let_def)
  qed (auto simp: compileCondition_def condition_ok_def true_program_wf Let_def)
qed

lemma compile_ok: "compileCondition src = CompOk c \<Longrightarrow> condition_ok c"
  using compile_cases [of src] by auto

text \<open>
  Compiling any text ends with a condition or with an error, never in an out-of-range read; a
  \<open>state:\<close> condition gets a well-formed program.
\<close>

theorem compileCondition_total:
  "case compileCondition src of
     CompOk c \<Rightarrow> condition_ok c \<and> csource c = trim_space src
   | CompErr e \<Rightarrow> True | CompPanic \<Rightarrow> False | CompFuel \<Rightarrow> False"
  using compile_cases [of src] by auto

text \<open>
  C1. Evaluating a compiled \<open>state:\<close> condition against any store terminates; its verdict is the
  reference meaning of the compiled tree (errors are false in boolean positions and strict
  elsewhere), and the error it reports is the first one from left to right.
\<close>

theorem eval_program_refines:
  assumes "compileCondition src = CompOk c" "cprogram c = Some pr"
  shows "eval_program pr store =
    Some (truth (den store (decode (pnodes pr) (nat (proot pr)))),
          first_error store (decode (pnodes pr) (nat (proot pr))))"
proof (rule eval_program_den)
  show "wf_program pr"
    using compile_ok [OF assms(1)] assms(2) by (auto simp: condition_ok_def split: conditionKind.splits)
qed

definition sample_condition :: CompiledCondition where
  "sample_condition = (case compileCondition ''state: hp > 1 && lv + 2 * 3 == 7'' of CompOk c \<Rightarrow> c
     | _ \<Rightarrow> \<lparr>csource = [], ckind = ConditionLua, cscript = [], cprogram = None\<rparr>)"

lemma sample_compiles:
  "compileCondition ''state: hp > 1 && lv + 2 * 3 == 7'' = CompOk sample_condition"
  "cprogram sample_condition = Some (the (cprogram sample_condition))"
  by code_simp+

theorem eval_program_refines_witness:
  "eval_program (the (cprogram sample_condition)) None =
    Some (truth (den None (decode (pnodes (the (cprogram sample_condition)))
            (nat (proot (the (cprogram sample_condition)))))),
          first_error None (decode (pnodes (the (cprogram sample_condition)))
            (nat (proot (the (cprogram sample_condition))))))"
  by (rule eval_program_refines [OF sample_compiles])

end
