(* ===== verification/CondRoundTrip.thy ===== *)
theory CondRoundTrip
  imports CondEval
begin

text \<open>
  The condition grammar.  Surface expressions are printed with the fewest parentheses the
  precedence levels allow (\<open>||\<close>, \<open>&&\<close>, \<open>!\<close>, comparison, sum, product, factor); the compiler reads the
  printed text back as the tree it was printed from.  The logical and arithmetic operators associate
  to the left; the six comparisons share one level and do not associate, so that an operand of a
  comparison that is itself a comparison needs its parentheses.
\<close>

datatype pexpr =
    ENum string
  | EStr string
  | EPath string
  | ENot pexpr
  | ENeg pexpr
  | EBin conditionOperator pexpr pexpr

type_synonym tview = "tokKind \<times> string"

primrec elab :: "pexpr \<Rightarrow> cexpr" where
  "elab (ENum w) = (case parseConditionNumber w of Inl e \<Rightarrow> CBad e | Inr v \<Rightarrow> CLit v)"
| "elab (EStr w) = CLit (VStr w)"
| "elab (EPath w) = CPath w"
| "elab (ENot e) = CUn OpNot (elab e)"
| "elab (ENeg e) = CUn OpNegate (elab e)"
| "elab (EBin opx l r) = CBin opx (elab l) (elab r)"

fun op_level :: "conditionOperator \<Rightarrow> nat" where
  "op_level OpOr = 0"
| "op_level OpAnd = 1"
| "op_level OpAdd = 4"
| "op_level OpSubtract = 4"
| "op_level OpMultiply = 5"
| "op_level OpDivide = 5"
| "op_level OpModulo = 5"
| "op_level _ = 3"

fun binop_text :: "conditionOperator \<Rightarrow> string" where
  "binop_text OpOr = ''||''"
| "binop_text OpAnd = ''&&''"
| "binop_text opx = op_text opx"

fun level :: "pexpr \<Rightarrow> nat" where
  "level (ENot e) = 2"
| "level (EBin opx l r) = op_level opx"
| "level _ = 6"

definition paren :: "bool \<Rightarrow> tview list \<Rightarrow> tview list" where
  "paren b us = (if b then (TokLParen, ''('') # us @ [(TokRParen, '')'')] else us)"

primrec shw :: "nat \<Rightarrow> pexpr \<Rightarrow> tview list" where
  "shw k (ENum w) = [(TokNumber, w)]"
| "shw k (EStr w) = [(TokString, w)]"
| "shw k (EPath w) = [(TokPath, w)]"
| "shw k (ENot e) = paren (2 < k) ((TokOp, ''!'') # shw 2 e)"
| "shw k (ENeg e) = (TokOp, ''-'') # shw 6 e"
| "shw k (EBin opx l r) =
     paren (op_level opx < k)
       (shw (if op_level opx = 3 then 4 else op_level opx) l @
        (TokOp, binop_text opx) # shw (op_level opx + 1) r)"

primrec binops_ok :: "pexpr \<Rightarrow> bool" where
  "binops_ok (ENum w) = True"
| "binops_ok (EStr w) = True"
| "binops_ok (EPath w) = True"
| "binops_ok (ENot e) = binops_ok e"
| "binops_ok (ENeg e) = binops_ok e"
| "binops_ok (EBin opx l r) = (is_binop opx \<and> binops_ok l \<and> binops_ok r)"

subsection \<open>More fuel changes nothing\<close>

definition table_le :: "parse_table \<Rightarrow> parse_table \<Rightarrow> bool" where
  "table_le s s' \<longleftrightarrow> (\<forall>nt p. s nt p \<noteq> PFuel \<longrightarrow> s' nt p = s nt p)"

lemma pbind_le:
  assumes "m \<noteq> PFuel \<Longrightarrow> m' = m"
    and "\<And>a q. m = POk a q \<Longrightarrow> f a q \<noteq> PFuel \<Longrightarrow> f' a q = f a q"
    and "pbind m f \<noteq> PFuel"
  shows "pbind m' f' = pbind m f"
  using assms by (cases m) (simp_all add: pbind_def)

lemma with_peek_le:
  assumes "\<And>t. f t \<noteq> PFuel \<Longrightarrow> f' t = f t" and "with_peek p f \<noteq> PFuel"
  shows "with_peek p f' = with_peek p f"
  using assms by (simp add: with_peek_def split: option.splits)

lemma if_le:
  assumes "a \<noteq> PFuel \<Longrightarrow> a' = a" "b \<noteq> PFuel \<Longrightarrow> b' = b" "(if c then a else b) \<noteq> PFuel"
  shows "(if c then a' else b') = (if c then a else b)"
  using assms by (simp split: if_splits)

lemma option_le:
  assumes "a \<noteq> PFuel \<Longrightarrow> a' = a" "\<And>y. f y \<noteq> PFuel \<Longrightarrow> f' y = f y"
    and "(case x of None \<Rightarrow> a | Some y \<Rightarrow> f y) \<noteq> PFuel"
  shows "(case x of None \<Rightarrow> a' | Some y \<Rightarrow> f' y) = (case x of None \<Rightarrow> a | Some y \<Rightarrow> f y)"
  using assms by (simp split: option.splits)

lemma parse_method_le:
  assumes "table_le s s'"
  shows "table_le (parse_method s) (parse_method s')"
proof -
  have call: "s nt p \<noteq> PFuel \<Longrightarrow> s' nt p = s nt p" for nt p using assms by (simp add: table_le_def)
  note methods = parseOr_def orLoop_def parseAnd_def andLoop_def parseUnary_def parseComparison_def
    parseArithmetic_def arithLoop_def parseTerm_def termLoop_def parseFactor_def
  have "parse_method s' nt p = parse_method s nt p" if "parse_method s nt p \<noteq> PFuel" for nt p
    using that unfolding parse_method_def methods
    by (cases nt; simp only: nonterm.case)
       (erule pbind_le [rotated 2] with_peek_le [rotated] if_le [rotated 2] option_le [rotated 2] call
         | rule refl)+
  then show ?thesis by (simp add: table_le_def)
qed

lemma parse_at_le: "n \<le> m \<Longrightarrow> table_le (parse_at n) (parse_at m)"
proof (induction n arbitrary: m)
  case 0
  then show ?case by (simp add: table_le_def)
next
  case (Suc n)
  then obtain k where "m = Suc k" "n \<le> k" by (cases m) auto
  then show ?case using parse_method_le [OF Suc.IH [of k]] by simp
qed

definition parses_to :: "nonterm \<Rightarrow> conditionParser \<Rightarrow> int \<Rightarrow> conditionParser \<Rightarrow> bool" where
  "parses_to nt p i q \<longleftrightarrow> (\<exists>n. parse_at n nt p = POk i q)"

lemma table_leD: "table_le s s' \<Longrightarrow> s nt p \<noteq> PFuel \<Longrightarrow> s' nt p = s nt p"
  by (simp add: table_le_def)

lemma parses_to_fuel:
  assumes "parses_to nt p i q" "parse_at n nt p \<noteq> PFuel"
  shows "parse_at n nt p = POk i q"
proof -
  obtain m where m: "parse_at m nt p = POk i q" using assms(1) by (auto simp: parses_to_def)
  have "parse_at (max n m) nt p = parse_at n nt p"
    by (rule table_leD [OF parse_at_le assms(2)]) simp
  moreover have "parse_at (max n m) nt p = parse_at m nt p"
    by (rule table_leD [OF parse_at_le]) (simp_all add: m)
  ultimately show ?thesis using m by simp
qed

lemma parses_to_call: "parses_to nt p i q \<Longrightarrow> \<exists>n. \<forall>m \<ge> n. parse_at m nt p = POk i q"
  unfolding parses_to_def by (metis table_leD parse_at_le pres.distinct(5))

text \<open>
  Every method of the parser as a rule: one call is one unit of fuel above the calls it makes, so
  two calls meet at the larger of their fuels.
\<close>

lemma parses_to_1:
  assumes "parses_to a p i q" and "\<And>s. s a p = POk i q \<Longrightarrow> parse_method s nt p' = POk j q'"
  shows "parses_to nt p' j q'"
proof -
  obtain n where n: "\<forall>m \<ge> n. parse_at m a p = POk i q" using parses_to_call [OF assms(1)] ..
  then have "parse_at (Suc n) nt p' = POk j q'" by (simp add: assms(2))
  then show ?thesis by (auto simp: parses_to_def simp del: parse_at.simps)
qed

lemma parses_to_2:
  assumes "parses_to a p i q" "parses_to b p1 i2 q2"
    and "\<And>s. s a p = POk i q \<Longrightarrow> s b p1 = POk i2 q2 \<Longrightarrow> parse_method s nt p' = POk j q'"
  shows "parses_to nt p' j q'"
proof -
  obtain n where n: "\<forall>m \<ge> n. parse_at m a p = POk i q" using parses_to_call [OF assms(1)] ..
  obtain k where k: "\<forall>m \<ge> k. parse_at m b p1 = POk i2 q2" using parses_to_call [OF assms(2)] ..
  have "parse_at (Suc (max n k)) nt p' = POk j q'" using n k by (simp add: assms(3))
  then show ?thesis by (auto simp: parses_to_def simp del: parse_at.simps)
qed

lemma parses_to_0:
  assumes "\<And>s. parse_method s nt p = POk j q"
  shows "parses_to nt p j q"
  unfolding parses_to_def by (rule exI [of _ "Suc 0"]) (simp add: assms)

subsection \<open>The cursor as the views still to be read\<close>

definition view :: "conditionParser \<Rightarrow> tview list" where
  "view p = map tok_view (drop (ppos p) (ptoks p))"

lemma view_peek:
  assumes "view p = v # us"
  obtains t where "peek p = Some t" "tkind t = fst v" "tlit t = snd v"
proof -
  have "drop (ppos p) (ptoks p) \<noteq> []" using assms by (auto simp: view_def)
  then have lt: "ppos p < length (ptoks p)" by simp
  then have "tok_view (ptoks p ! ppos p) = v"
    using assms by (simp add: view_def Cons_nth_drop_Suc [symmetric])
  then show ?thesis using lt that by (auto simp: peek_def tok_view_def)
qed

lemma view_next:
  assumes "view p = v # us" "fst v \<noteq> TokEOF"
  shows "view (next_tok p) = us" "pnds (next_tok p) = pnds p"
proof -
  obtain t where t: "peek p = Some t" "tkind t = fst v" using view_peek [OF assms(1)] by metis
  then have "ppos p < length (ptoks p)" by (auto simp: peek_def split: if_splits)
  then show "view (next_tok p) = us" "pnds (next_tok p) = pnds p"
    using assms t by (auto simp: next_tok_def view_def Cons_nth_drop_Suc [symmetric])
qed

lemma decode_append: "i < length ns \<Longrightarrow> decode (ns @ ms) i = decode ns i"
proof (induction i rule: less_induct)
  case (less i)
  then show ?case
    by (auto simp: decode.simps [of "ns @ ms" i] decode.simps [of ns i] nth_append Let_def
        split: conditionNodeKind.splits)
qed

lemma decode_last:
  "0 \<le> l \<Longrightarrow> l < int (length ns) \<Longrightarrow> nkind n = NodeUnary \<Longrightarrow> nleft n = l \<Longrightarrow>
   decode (ns @ [n]) (length ns) = CUn (nop n) (decode ns (nat l))"
  "0 \<le> l \<Longrightarrow> l < int (length ns) \<Longrightarrow> 0 \<le> r \<Longrightarrow> r < int (length ns) \<Longrightarrow> nkind n = NodeBinary \<Longrightarrow>
   nleft n = l \<Longrightarrow> nright n = r \<Longrightarrow>
   decode (ns @ [n]) (length ns) = CBin (nop n) (decode ns (nat l)) (decode ns (nat r))"
  by (simp_all add: decode.simps [of "ns @ [n]" "length ns"] nat_less_iff decode_append Let_def)

text \<open>What a parse from \<open>p\<close> to \<open>q\<close> has built: index \<open>i\<close> is the tree \<open>e\<close>, earlier trees are kept.\<close>

definition built :: "conditionParser \<Rightarrow> conditionParser \<Rightarrow> tview list \<Rightarrow> int \<Rightarrow> cexpr \<Rightarrow> bool" where
  "built p q rest i e \<longleftrightarrow> view q = rest \<and> prefix (pnds p) (pnds q) \<and>
     0 \<le> i \<and> i < int (length (pnds q)) \<and> decode (pnds q) (nat i) = e"

lemma decode_prefix: "prefix ns ms \<Longrightarrow> i < length ns \<Longrightarrow> decode ms i = decode ns i"
  by (auto simp: prefix_def decode_append)

lemma built_binary:
  assumes l: "built p q us i e1" and q': "prefix (pnds q) (pnds q')"
    and r: "built q' q2 rest j e2"
  obtains k q3 where "addBinary opx i j q2 = POk k q3" "built p q3 rest k (CBin opx e1 e2)"
proof
  have i: "0 \<le> i" "nat i < length (pnds q)" "nat i < length (pnds q2)" "decode (pnds q2) (nat i) = e1"
    using assms prefix_length_le [of "pnds q" "pnds q'"] prefix_length_le [of "pnds q'" "pnds q2"]
      decode_prefix [of "pnds q" "pnds q2" "nat i"] prefix_order.trans [of "pnds q" "pnds q'" "pnds q2"]
    by (auto simp: built_def)
  let ?n = "zero_node\<lparr>nkind := NodeBinary, nop := opx, nleft := i, nright := j\<rparr>"
  let ?q = "q2\<lparr>pnds := pnds q2 @ [?n]\<rparr>"
  show "addBinary opx i j q2 = POk (int (length (pnds q2))) ?q"
    by (simp add: addBinary_def addNode_def)
  have "prefix (pnds p) (pnds q2)" using assms by (auto simp: built_def intro: prefix_order.trans)
  then have "prefix (pnds p) (pnds ?q)" by (simp add: prefix_order.trans)
  then show "built p ?q rest (int (length (pnds q2))) (CBin opx e1 e2)"
    using i r by (auto simp: built_def view_def decode_last(2) nat_less_iff)
qed

lemma built_unary:
  assumes "built p q rest i e"
  obtains k q3 where "addUnary opx i q = POk k q3" "built p q3 rest k (CUn opx e)"
proof
  let ?n = "zero_node\<lparr>nkind := NodeUnary, nop := opx, nleft := i, nright := -1\<rparr>"
  let ?q = "q\<lparr>pnds := pnds q @ [?n]\<rparr>"
  show "addUnary opx i q = POk (int (length (pnds q))) ?q"
    by (simp add: addUnary_def addNode_def)
  have "prefix (pnds p) (pnds ?q)" using assms by (auto simp: built_def intro: prefix_order.trans)
  then show "built p ?q rest (int (length (pnds q))) (CUn opx e)"
    using assms by (auto simp: built_def view_def decode_last(1))
qed

lemma built_leaf:
  assumes "view q = rest" "pnds q = pnds p" "nkind n \<notin> {NodeUnary, NodeBinary}"
  obtains k q3 where "addNode n q = POk k q3" "built p q3 rest k (decode [n] 0)"
proof
  show "addNode n q = POk (int (length (pnds q))) (q\<lparr>pnds := pnds q @ [n]\<rparr>)"
    by (simp add: addNode_def)
  show "built p (q\<lparr>pnds := pnds q @ [n]\<rparr>) rest (int (length (pnds q))) (decode [n] 0)"
    using assms by (auto simp: built_def view_def decode.simps [of "pnds p @ [n]"]
        decode.simps [of "[n]"] Let_def split: conditionNodeKind.splits)
qed

subsection \<open>The methods by precedence level\<close>

fun nt_of :: "nat \<Rightarrow> nonterm" where
  "nt_of k = (if k = 0 then NOr else if k = 1 then NAnd else if k = 2 then NUnary
     else if k = 3 then NComparison else if k = 4 then NArithmetic else if k = 5 then NTerm else NFactor)"

fun loop_of :: "nat \<Rightarrow> int \<Rightarrow> nonterm" where
  "loop_of k i = (if k = 0 then NOrLoop i else if k = 1 then NAndLoop i
     else if k = 4 then NArithLoop i else NTermLoop i)"

definition chain_level :: "nat \<Rightarrow> bool" where
  "chain_level k \<longleftrightarrow> k \<in> {0, 1, 4, 5}"

definition view_level :: "tview \<Rightarrow> nat option" where
  "view_level v = (if fst v \<noteq> TokOp then None
     else if snd v = ''||'' then Some 0 else if snd v = ''&&'' then Some 1
     else if comparisonOperator (snd v) \<noteq> None then Some 3
     else if snd v \<in> {''+'', ''-''} then Some 4
     else if snd v \<in> {''*'', ''/'', ''%''} then Some 5 else None)"

text \<open>An expression of level \<open>k\<close> ends here: no binary operator of level \<open>k\<close> or above follows.\<close>

definition stops :: "nat \<Rightarrow> tview list \<Rightarrow> bool" where
  "stops k us \<longleftrightarrow> us \<noteq> [] \<and> (\<forall>j. view_level (hd us) = Some j \<longrightarrow> j < k)"

lemma stops_mono: "stops k us \<Longrightarrow> k \<le> m \<Longrightarrow> stops m us"
  by (auto simp: stops_def)

lemma stops_cases:
  assumes "stops k (view p)"
  obtains v us t where "view p = v # us" "peek p = Some t" "tkind t = fst v" "tlit t = snd v"
    "\<And>j. view_level v = Some j \<Longrightarrow> j < k"
proof -
  obtain v us where v: "view p = v # us" using assms by (cases "view p") (auto simp: stops_def)
  obtain t where t: "peek p = Some t" "tkind t = fst v" "tlit t = snd v" by (rule view_peek [OF v])
  have "\<And>j. view_level v = Some j \<Longrightarrow> j < k" using assms by (simp add: stops_def v)
  then show ?thesis by (rule that [OF v t])
qed

lemma binop_view_level: "is_binop opx \<Longrightarrow> view_level (TokOp, binop_text opx) = Some (op_level opx)"
  by (cases opx) (simp_all add: is_binop_def view_level_def comparisonOperator_def)

lemma chain_rule:
  assumes "chain_level k" "parses_to (nt_of (k + 1)) p i q" "parses_to (loop_of k i) q j r"
  shows "parses_to (nt_of k) p j r"
  using assms(1)
  by (intro parses_to_2 [OF assms(2,3)])
     (auto simp: chain_level_def parse_method_def parseOr_def parseAnd_def parseArithmetic_def
       parseTerm_def pbind_def)

lemma loop_stop:
  assumes "chain_level k" "stops k (view p)"
  shows "parses_to (loop_of k i) p i p"
proof (rule parses_to_0)
  obtain v us t where t: "peek p = Some t" "tkind t = fst v" "tlit t = snd v"
      "\<And>j. view_level v = Some j \<Longrightarrow> j < k"
    using stops_cases [OF assms(2)] by metis
  show "parse_method s (loop_of k i) p = POk i p" for s
    using assms(1) t(4)
    by (auto simp: chain_level_def parse_method_def orLoop_def andLoop_def arithLoop_def termLoop_def
        with_peek_def t(1-3) isOp_def view_level_def comparisonOperator_def)
qed

lemma loop_step:
  assumes "op_level opx = k" "is_binop opx" "chain_level k" "view p = (TokOp, binop_text opx) # us"
    "parses_to (nt_of (k + 1)) (next_tok p) j q" "addBinary opx i j q = POk l q3"
    "parses_to (loop_of k l) q3 m r"
  shows "parses_to (loop_of k i) p m r"
proof (rule parses_to_2 [OF assms(5,7)])
  obtain t where t: "peek p = Some t" "tkind t = TokOp" "tlit t = binop_text opx"
    using view_peek [OF assms(4)] by (metis fst_conv snd_conv)
  fix s assume "s (nt_of (k + 1)) (next_tok p) = POk j q" "s (loop_of k l) q3 = POk m r"
  then show "parse_method s (loop_of k i) p = POk m r"
    using assms(1-3,6) t
    by (cases opx) (auto simp: is_binop_def chain_level_def parse_method_def orLoop_def andLoop_def
        arithLoop_def termLoop_def with_peek_def isOp_def pbind_def arith_op_def term_op_def)
qed

subsection \<open>Reading back what was printed\<close>

definition reads :: "nat \<Rightarrow> pexpr \<Rightarrow> bool" where
  "reads k e \<longleftrightarrow> (\<forall>p rest. view p = shw k e @ rest \<longrightarrow> stops k rest \<longrightarrow>
     (\<exists>i q. parses_to (nt_of k) p i q \<and> built p q rest i (elab e)))"

definition reads_chain :: "nat \<Rightarrow> pexpr \<Rightarrow> bool" where
  "reads_chain k e \<longleftrightarrow> (\<forall>p rest. view p = shw k e @ rest \<longrightarrow> stops (k + 1) rest \<longrightarrow>
     (\<exists>i q. built p q rest i (elab e) \<and>
        (\<forall>j r. parses_to (loop_of k i) q j r \<longrightarrow> parses_to (nt_of k) p j r)))"

lemma shw_level: "shw k e = paren (level e < k) (shw 0 e) \<or> level e = 6 \<and> shw k e = shw 0 e"
  by (cases e) (auto simp: paren_def)

lemma shw_same: "k \<le> level e \<Longrightarrow> shw k e = shw 0 e"
  using shw_level [of k e] by (auto simp: paren_def)

lemma shw_parens: "level e < k \<Longrightarrow> k \<le> 6 \<Longrightarrow> shw k e = (TokLParen, ''('') # shw 0 e @ [(TokRParen, '')'')]"
  using shw_level [of k e] by (auto simp: paren_def)

lemma reads_of_chain: "chain_level k \<Longrightarrow> reads_chain k e \<Longrightarrow> reads k e"
  unfolding reads_def
proof (intro allI impI)
  fix p rest assume k: "chain_level k" "reads_chain k e" and v: "view p = shw k e @ rest" "stops k rest"
  then obtain i q where q: "built p q rest i (elab e)"
      "\<forall>j r. parses_to (loop_of k i) q j r \<longrightarrow> parses_to (nt_of k) p j r"
    using stops_mono [of k rest "k + 1"] by (fastforce simp: reads_chain_def)
  have "parses_to (loop_of k i) q i q" using loop_stop [OF k(1)] q(1) v(2) by (simp add: built_def)
  then show "\<exists>i q. parses_to (nt_of k) p i q \<and> built p q rest i (elab e)" using q by blast
qed

lemma chain_of_next:
  "chain_level k \<Longrightarrow> reads (k + 1) e \<Longrightarrow> shw k e = shw (k + 1) e \<Longrightarrow> reads_chain k e"
  unfolding reads_chain_def reads_def by (metis chain_rule)

lemma chain_binary:
  assumes "op_level opx = k" "is_binop opx" "chain_level k" "reads_chain k l" "reads (k + 1) r"
  shows "reads_chain k (EBin opx l r)"
  unfolding reads_chain_def
proof (intro allI impI)
  fix p rest assume v: "view p = shw k (EBin opx l r) @ rest" "stops (k + 1) rest"
  let ?rest = "(TokOp, binop_text opx) # shw (k + 1) r @ rest"
  have "k \<noteq> 3" using assms(3) by (auto simp: chain_level_def)
  then have vl: "view p = shw k l @ ?rest" using v(1) assms(1) by (simp add: paren_def)
  have st: "stops (k + 1) ?rest" using binop_view_level [OF assms(2)] assms(1) by (simp add: stops_def)
  obtain i q where l: "built p q ?rest i (elab l)"
      "\<forall>j r. parses_to (loop_of k i) q j r \<longrightarrow> parses_to (nt_of k) p j r"
    using assms(4) vl st unfolding reads_chain_def by blast
  have vq: "view q = ?rest" using l(1) by (simp add: built_def)
  have nx: "view (next_tok q) = shw (k + 1) r @ rest" "pnds (next_tok q) = pnds q"
    using view_next [OF vq] by simp_all
  obtain j q2 where r: "parses_to (nt_of (k + 1)) (next_tok q) j q2" "built (next_tok q) q2 rest j (elab r)"
    using assms(5) v(2) nx(1) unfolding reads_def by blast
  have nq: "prefix (pnds q) (pnds (next_tok q))" by (simp add: nx(2))
  obtain m q3 where m: "addBinary opx i j q2 = POk m q3" "built p q3 rest m (CBin opx (elab l) (elab r))"
    by (rule built_binary [OF l(1) nq r(2)])
  have "parses_to (nt_of k) p a b" if "parses_to (loop_of k m) q3 a b" for a b
    using l(2) loop_step [OF assms(1-3) vq r(1) m(1) that] by blast
  then show "\<exists>i q. built p q rest i (elab (EBin opx l r)) \<and>
      (\<forall>j ra. parses_to (loop_of k i) q j ra \<longrightarrow> parses_to (nt_of k) p j ra)"
    using m(2) by (intro exI [of _ m] exI [of _ q3]) (simp del: nt_of.simps loop_of.simps)
qed

text \<open>No printed expression above level 2 starts with a negation.\<close>

lemma op_level_le: "op_level opx \<le> 5"
  by (cases opx) simp_all

lemma shw_head: "2 < k \<Longrightarrow> k \<le> 6 \<Longrightarrow> \<exists>v us. shw k e = v # us \<and> v \<noteq> (TokOp, ''!'')"
proof (induction e arbitrary: k)
  case (EBin opx l r)
  show ?case
  proof (cases "op_level opx < k")
    case False
    let ?m = "if op_level opx = 3 then 4 else op_level opx"
    have "2 < ?m" "?m \<le> 6" using False EBin.prems op_level_le [of opx] by auto
    then obtain v us where "shw ?m l = v # us" "v \<noteq> (TokOp, ''!'')" using EBin.IH(1) by blast
    then show ?thesis using False by (simp add: paren_def)
  qed (simp add: paren_def)
qed (auto simp: paren_def)

lemma reads_not:
  assumes "reads 2 e"
  shows "reads 2 (ENot e)"
  unfolding reads_def
proof (intro allI impI)
  fix p rest assume v: "view p = shw 2 (ENot e) @ rest" "stops 2 rest"
  then have vp: "view p = (TokOp, ''!'') # shw 2 e @ rest" by (simp add: paren_def)
  obtain t where t: "peek p = Some t" "tkind t = TokOp" "tlit t = ''!''"
    using view_peek [OF vp] by (metis fst_conv snd_conv)
  have nx: "view (next_tok p) = shw 2 e @ rest" "pnds (next_tok p) = pnds p"
    using view_next [OF vp] by simp_all
  obtain i q where q: "parses_to NUnary (next_tok p) i q" "built (next_tok p) q rest i (elab e)"
    using assms nx(1) v(2) unfolding reads_def by fastforce
  then have b: "built p q rest i (elab e)" by (simp add: built_def nx(2))
  obtain k q3 where k: "addUnary OpNot i q = POk k q3" "built p q3 rest k (CUn OpNot (elab e))"
    by (rule built_unary [OF b])
  have "parses_to NUnary p k q3"
    by (rule parses_to_1 [OF q(1)])
       (simp add: parse_method_def parseUnary_def with_peek_def t isOp_def pbind_def k(1))
  then show "\<exists>i q. parses_to (nt_of 2) p i q \<and> built p q rest i (elab (ENot e))"
    using k(2) by auto
qed

lemma reads_unary_next:
  assumes "reads 3 e" "shw 2 e = shw 3 e"
  shows "reads 2 e"
  unfolding reads_def
proof (intro allI impI)
  fix p rest assume v: "view p = shw 2 e @ rest" "stops 2 rest"
  obtain h us where h: "shw 3 e = h # us" "h \<noteq> (TokOp, ''!'')" using shw_head [of 3 e] by auto
  obtain t where t: "peek p = Some t" "tkind t = fst h" "tlit t = snd h"
    using view_peek [of p h "us @ rest"] v(1) assms(2) h(1) by auto
  have "\<not> isOp t ''!''" using t h(2) by (cases h) (auto simp: isOp_def)
  obtain i q where q: "parses_to NComparison p i q" "built p q rest i (elab e)"
    using assms v stops_mono [of 2 rest 3] unfolding reads_def by fastforce
  have "parses_to NUnary p i q"
    by (rule parses_to_1 [OF q(1)])
       (simp add: parse_method_def parseUnary_def with_peek_def t(1) \<open>\<not> isOp t ''!''\<close>)
  then show "\<exists>i q. parses_to (nt_of 2) p i q \<and> built p q rest i (elab e)" using q(2) by auto
qed

text \<open>A comparison is read as soon as its right operand ends, whatever operator of its level follows.\<close>

lemma compare_built:
  assumes "op_level opx = 3" "is_binop opx" "reads 4 l" "reads 4 r"
    and v: "view p = shw 3 (EBin opx l r) @ rest" "stops 4 rest"
  shows "\<exists>i q. parses_to NComparison p i q \<and> built p q rest i (elab (EBin opx l r))"
proof -
  let ?rest = "(TokOp, binop_text opx) # shw 4 r @ rest"
  have vl: "view p = shw 4 l @ ?rest" using v(1) assms(1) by (simp add: paren_def)
  have st: "stops 4 ?rest" using binop_view_level [OF assms(2)] assms(1) by (simp add: stops_def)
  obtain i q where l: "parses_to NArithmetic p i q" "built p q ?rest i (elab l)"
    using assms(3) vl st unfolding reads_def by fastforce
  have vq: "view q = ?rest" using l(2) by (simp add: built_def)
  have nx: "view (next_tok q) = shw 4 r @ rest" "pnds (next_tok q) = pnds q"
    using view_next [OF vq] by simp_all
  obtain j q2 where r: "parses_to NArithmetic (next_tok q) j q2" "built (next_tok q) q2 rest j (elab r)"
    using assms(4) nx(1) v(2) unfolding reads_def by fastforce
  have nq: "prefix (pnds q) (pnds (next_tok q))" by (simp add: nx(2))
  obtain m q3 where m: "addBinary opx i j q2 = POk m q3" "built p q3 rest m (CBin opx (elab l) (elab r))"
    by (rule built_binary [OF l(2) nq r(2)])
  obtain t where t: "peek q = Some t" "tkind t = TokOp" "tlit t = binop_text opx"
    using view_peek [OF vq] by (metis fst_conv snd_conv)
  have "comparisonOperator (binop_text opx) = Some opx"
    using assms(1,2) by (cases opx) (simp_all add: is_binop_def comparisonOperator_def)
  then have "parses_to NComparison p m q3"
    by (intro parses_to_2 [OF l(1) r(1)])
       (simp add: parse_method_def parseComparison_def with_peek_def t pbind_def m(1))
  then show ?thesis using m(2) by auto
qed

lemma reads_compare:
  assumes "op_level opx = 3" "is_binop opx" "reads 4 l" "reads 4 r"
  shows "reads 3 (EBin opx l r)"
  unfolding reads_def
proof (intro allI impI)
  fix p rest assume v: "view p = shw 3 (EBin opx l r) @ rest" "stops 3 rest"
  show "\<exists>i q. parses_to (nt_of 3) p i q \<and> built p q rest i (elab (EBin opx l r))"
    using compare_built [OF assms v(1)] stops_mono [OF v(2), of 4] by simp
qed

lemma reads_compare_next:
  assumes "reads 4 e" "shw 3 e = shw 4 e"
  shows "reads 3 e"
  unfolding reads_def
proof (intro allI impI)
  fix p rest assume v: "view p = shw 3 e @ rest" "stops 3 rest"
  obtain i q where q: "parses_to NArithmetic p i q" "built p q rest i (elab e)"
    using assms v stops_mono [of 3 rest 4] unfolding reads_def by fastforce
  then have "stops 3 (view q)" using v(2) by (simp add: built_def)
  then obtain u us t where t: "peek q = Some t" "tkind t = fst u" "tlit t = snd u"
      "\<And>j. view_level u = Some j \<Longrightarrow> j < 3"
    using stops_cases by metis
  have "tkind t \<noteq> TokOp \<or> comparisonOperator (tlit t) = None"
    using t(4) [of 3] by (auto simp: view_level_def t(2,3) comparisonOperator_def split: if_splits)
  then have "parses_to NComparison p i q"
    by (intro parses_to_1 [OF q(1)])
       (auto simp: parse_method_def parseComparison_def with_peek_def t(1) pbind_def)
  then show "\<exists>i q. parses_to (nt_of 3) p i q \<and> built p q rest i (elab e)" using q(2) by auto
qed

lemma reads_parens:
  assumes "reads 0 e" "level e < 6"
  shows "reads 6 e"
  unfolding reads_def
proof (intro allI impI)
  fix p rest assume v: "view p = shw 6 e @ rest" "stops 6 rest"
  have vp: "view p = (TokLParen, ''('') # shw 0 e @ (TokRParen, '')'') # rest"
    using v(1) shw_parens [OF assms(2)] by simp
  obtain t where t: "peek p = Some t" "tkind t = TokLParen"
    using view_peek [OF vp] by (metis fst_conv)
  have nx: "view (next_tok p) = shw 0 e @ (TokRParen, '')'') # rest" "pnds (next_tok p) = pnds p"
    using view_next [OF vp] by simp_all
  have "stops 0 ((TokRParen, '')'') # rest)" by (simp add: stops_def view_level_def)
  then obtain i q where q: "parses_to NOr (next_tok p) i q"
      "built (next_tok p) q ((TokRParen, '')'') # rest) i (elab e)"
    using assms nx(1) unfolding reads_def by fastforce
  then have vq: "view q = (TokRParen, '')'') # rest" by (simp add: built_def)
  obtain c where c: "peek q = Some c" "tkind c = TokRParen" using view_peek [OF vq] by (metis fst_conv)
  have ny: "view (next_tok q) = rest" "pnds (next_tok q) = pnds q"
    using view_next [OF vq] by simp_all
  have "parses_to NFactor p i (next_tok q)"
    by (rule parses_to_1 [OF q(1)])
       (simp add: parse_method_def parseFactor_def with_peek_def t c pbind_def isOp_def)
  then show "\<exists>i q. parses_to (nt_of 6) p i q \<and> built p q rest i (elab e)"
    using q(2) ny nx(2) by (intro exI [of _ i] exI [of _ "next_tok q"]) (simp add: built_def)
qed

lemma reads_neg:
  assumes "reads 6 e"
  shows "reads 6 (ENeg e)"
  unfolding reads_def
proof (intro allI impI)
  fix p rest assume v: "view p = shw 6 (ENeg e) @ rest" "stops 6 rest"
  then have vp: "view p = (TokOp, ''-'') # shw 6 e @ rest" by simp
  obtain t where t: "peek p = Some t" "tkind t = TokOp" "tlit t = ''-''"
    using view_peek [OF vp] by (metis fst_conv snd_conv)
  have nx: "view (next_tok p) = shw 6 e @ rest" "pnds (next_tok p) = pnds p"
    using view_next [OF vp] by simp_all
  obtain i q where q: "parses_to NFactor (next_tok p) i q" "built (next_tok p) q rest i (elab e)"
    using assms nx(1) v(2) unfolding reads_def by fastforce
  then have b: "built p q rest i (elab e)" by (simp add: built_def nx(2))
  obtain k q3 where k: "addUnary OpNegate i q = POk k q3" "built p q3 rest k (CUn OpNegate (elab e))"
    by (rule built_unary [OF b])
  have "parses_to NFactor p k q3"
    by (rule parses_to_1 [OF q(1)])
       (simp add: parse_method_def parseFactor_def with_peek_def t isOp_def pbind_def k(1))
  then show "\<exists>i q. parses_to (nt_of 6) p i q \<and> built p q rest i (elab (ENeg e))"
    using k(2) by auto
qed

definition leaf_node :: "tview \<Rightarrow> conditionNode" where
  "leaf_node v = (if fst v = TokNumber then
       (case parseConditionNumber (snd v) of
          Inl e \<Rightarrow> zero_node\<lparr>nkind := NodeRuntimeError, nevalErr := Some e\<rparr>
        | Inr x \<Rightarrow> zero_node\<lparr>nvalue := x\<rparr>)
     else if fst v = TokString then zero_node\<lparr>nvalue := VStr (snd v)\<rparr>
     else zero_node\<lparr>nkind := NodePath, ntext := snd v\<rparr>)"

lemma reads_leaf:
  assumes "shw 6 e = [v]" "fst v \<in> {TokNumber, TokString, TokPath}" "elab e = decode [leaf_node v] 0"
  shows "reads 6 e"
  unfolding reads_def
proof (intro allI impI)
  fix p rest assume "view p = shw 6 e @ rest" "stops 6 rest"
  then have vp: "view p = v # rest" by (simp add: assms(1))
  obtain t where t: "peek p = Some t" "tkind t = fst v" "tlit t = snd v" by (rule view_peek [OF vp])
  have nx: "view (next_tok p) = rest" "pnds (next_tok p) = pnds p"
    using view_next [OF vp] assms(2) by auto
  have "nkind (leaf_node v) \<notin> {NodeUnary, NodeBinary}"
    by (auto simp: leaf_node_def zero_node_def split: sum.splits)
  then obtain k q3 where k: "addNode (leaf_node v) (next_tok p) = POk k q3" "built p q3 rest k (elab e)"
    using built_leaf [OF nx] assms(3) by metis
  have "parses_to NFactor p k q3"
    using assms(2) k(1)
    by (intro parses_to_0)
       (auto simp: parse_method_def parseFactor_def with_peek_def t leaf_node_def split: sum.splits)
  then show "\<exists>i q. parses_to (nt_of 6) p i q \<and> built p q rest i (elab e)" using k(2) by auto
qed

definition reads_at :: "nat \<Rightarrow> pexpr \<Rightarrow> bool" where
  "reads_at k e \<longleftrightarrow> reads k e \<and> (chain_level k \<longrightarrow> reads_chain k e)"

lemma reads_at_next:
  assumes "reads_at (k + 1) e" "shw k e = shw (k + 1) e" "k < 6"
  shows "reads_at k e"
proof -
  consider "chain_level k" | "k = 2" | "k = 3" using assms(3) unfolding chain_level_def by fastforce
  then show ?thesis
  proof cases
    case 1
    then show ?thesis
      using chain_of_next [of k e] reads_of_chain [of k e] assms by (simp add: reads_at_def)
  next
    case 2
    then show ?thesis using assms reads_unary_next [of e] by (simp add: reads_at_def chain_level_def)
  next
    case 3
    then show ?thesis using assms reads_compare_next [of e] by (simp add: reads_at_def chain_level_def)
  qed
qed

text \<open>An expression read at its own level is read at every level.\<close>

lemma reads_everywhere:
  assumes "reads_at (level e) e" "level e \<le> 6" "k \<le> 6"
  shows "reads_at k e"
proof -
  have below: "reads_at k e" if "k \<le> level e" for k
    using that assms(1)
  proof (induction rule: inc_induct)
    case (step n)
    then show ?case using reads_at_next [of n e] assms(2) shw_same [of n e] shw_same [of "n + 1" e] by simp
  qed
  have top: "reads_at 6 e"
  proof (cases "level e = 6")
    case True
    then show ?thesis using assms(1) by simp
  next
    case False
    then show ?thesis
      using reads_parens [of e] below [of 0] assms(2) by (simp add: reads_at_def chain_level_def)
  qed
  have "level e < k \<longrightarrow> reads_at k e" using assms(3)
  proof (induction rule: inc_induct)
    case (step n)
    then show ?case using reads_at_next [of n e] shw_parens [of e n] shw_parens [of e "n + 1"] by simp
  qed (simp add: top)
  then show ?thesis using below by fastforce
qed

lemma reads_printed: "binops_ok e \<Longrightarrow> k \<le> 6 \<Longrightarrow> reads_at k e"
proof (induction e arbitrary: k)
  case (EBin opx l r)
  note IH = EBin.IH [unfolded reads_at_def] and ok = EBin.prems(1)
  have "reads_at (op_level opx) (EBin opx l r)"
  proof (cases "op_level opx = 3")
    case True
    then show ?thesis
      using reads_compare [OF True _ _, of l r] IH(1) [of 4] IH(2) [of 4] ok
      by (simp add: reads_at_def chain_level_def)
  next
    case False
    then have "chain_level (op_level opx)" by (cases opx) (simp_all add: chain_level_def)
    then show ?thesis
      using chain_binary [OF refl, of opx l r] IH(1) [of "op_level opx"] IH(2) [of "op_level opx + 1"] ok
        op_level_le [of opx] reads_of_chain [of "op_level opx" "EBin opx l r"]
      by (simp add: reads_at_def)
  qed
  then show ?case using reads_everywhere [of "EBin opx l r" k] op_level_le [of opx] EBin.prems(2) by simp
next
  case (ENot e)
  then show ?case
    using reads_everywhere [of "ENot e" k] reads_not [of e] ENot.IH [of 2]
    by (simp add: reads_at_def chain_level_def)
next
  case (ENeg e)
  then show ?case
    using reads_everywhere [of "ENeg e" k] reads_neg [of e] ENeg.IH [of 6]
    by (simp add: reads_at_def chain_level_def)
next
  case (ENum w)
  then show ?case
    using reads_everywhere [of "ENum w" k] reads_leaf [of "ENum w" "(TokNumber, w)"]
    by (simp add: reads_at_def chain_level_def leaf_node_def decode.simps zero_node_def split: sum.splits)
next
  case (EStr w)
  then show ?case
    using reads_everywhere [of "EStr w" k] reads_leaf [of "EStr w" "(TokString, w)"]
    by (simp add: reads_at_def chain_level_def leaf_node_def decode.simps zero_node_def)
next
  case (EPath w)
  then show ?case
    using reads_everywhere [of "EPath w" k] reads_leaf [of "EPath w" "(TokPath, w)"]
    by (simp add: reads_at_def chain_level_def leaf_node_def decode.simps zero_node_def)
qed

subsection \<open>The round trip from text\<close>

primrec pexpr_ok :: "pexpr \<Rightarrow> bool" where
  "pexpr_ok (ENum w) = wf_tok TokNumber w"
| "pexpr_ok (EStr w) = wf_tok TokString w"
| "pexpr_ok (EPath w) = wf_tok TokPath w"
| "pexpr_ok (ENot e) = pexpr_ok e"
| "pexpr_ok (ENeg e) = pexpr_ok e"
| "pexpr_ok (EBin opx l r) = (is_binop opx \<and> pexpr_ok l \<and> pexpr_ok r)"

definition print_expr :: "pexpr \<Rightarrow> string" where
  "print_expr e = spell (map (\<lambda>v. tok (fst v) (snd v) 0) (shw 0 e))"

lemma pexpr_binops: "pexpr_ok e \<Longrightarrow> binops_ok e"
  by (induction e) auto

lemma binop_text_wf: "is_binop opx \<Longrightarrow> binop_text opx \<in> set op_texts"
  by (cases opx) (simp_all add: is_binop_def op_texts_def)

lemma unop_text_wf: "''!'' \<in> set op_texts" "''-'' \<in> set op_texts"
  by (simp_all add: op_texts_def)

lemma shw_wf: "pexpr_ok e \<Longrightarrow> v \<in> set (shw k e) \<Longrightarrow> wf_tok (fst v) (snd v)"
  by (induction e arbitrary: k)
     (auto simp: paren_def binop_text_wf unop_text_wf split: if_splits)

lemma parse_printed:
  assumes "binops_ok e" "map tok_view ts = shw 0 e @ [(TokEOF, [])]" "toks_ok ts"
  shows "\<exists>pr p. parse_tokens ts = POk pr p \<and> decode (pnodes pr) (nat (proot pr)) = elab e"
proof -
  let ?p = "\<lparr>ptoks = ts, ppos = 0, pnds = []\<rparr>"
  have v: "view ?p = shw 0 e @ [(TokEOF, [])]" using assms(2) by (simp add: view_def)
  have "stops 0 [(TokEOF, [])]" by (simp add: stops_def view_level_def)
  then obtain i q where q: "parses_to NOr ?p i q" "built ?p q [(TokEOF, [])] i (elab e)"
    using reads_printed [OF assms(1), of 0] v unfolding reads_at_def reads_def by fastforce
  have "parse_at (parse_fuel ts) NOr ?p \<noteq> PFuel"
    using parse_tokens_total [OF assms(3)] by (auto simp: parse_tokens_def pbind_def)
  then have res: "parse_at (parse_fuel ts) NOr ?p = POk i q" by (rule parses_to_fuel [OF q(1)])
  have vq: "view q = [(TokEOF, [])]" using q(2) by (simp add: built_def)
  obtain t where "peek q = Some t" "tkind t = TokEOF" using view_peek [OF vq] by (metis fst_conv)
  then show ?thesis
    using res q(2) by (simp add: parse_tokens_def pbind_def with_peek_def built_def)
qed

text \<open>Two comparisons in a row: the second operator is left over.\<close>

lemma loop_other:
  assumes "k \<in> {0, 1}" "view p = v # us" "view_level v \<noteq> Some k"
  shows "parses_to (loop_of k i) p i p"
proof (rule parses_to_0)
  obtain t where t: "peek p = Some t" "tkind t = fst v" "tlit t = snd v" by (rule view_peek [OF assms(2)])
  show "parse_method s (loop_of k i) p = POk i p" for s
    using assms(1,3)
    by (auto simp: parse_method_def orLoop_def andLoop_def with_peek_def t isOp_def view_level_def split: if_splits)
qed

lemma comparisons_do_not_chain:
  assumes "op_level opx = 3" "is_binop opx" "binops_ok a" "binops_ok b" and y: "op_level opy = 3" "is_binop opy"
    and ts: "map tok_view ts = shw 4 a @ (TokOp, binop_text opx) # shw 4 b @ (TokOp, binop_text opy) # us" "toks_ok ts"
  shows "\<exists>e. parse_tokens ts = PErr e"
proof -
  let ?p = "\<lparr>ptoks = ts, ppos = 0, pnds = []\<rparr>" and ?rest = "(TokOp, binop_text opy) # us"
  have v: "view ?p = shw 3 (EBin opx a b) @ ?rest" using ts(1) assms(1) by (simp add: view_def paren_def)
  have lv: "view_level (TokOp, binop_text opy) = Some 3" using binop_view_level [OF y(2)] y(1) by simp
  then have st: "stops 4 ?rest" by (simp add: stops_def)
  have "reads 4 a" "reads 4 b" using reads_printed [OF assms(3), of 4] reads_printed [OF assms(4), of 4] by (simp_all add: reads_at_def)
  then obtain i q where q: "parses_to NComparison ?p i q" "view q = ?rest"
    using compare_built [OF assms(1,2) _ _ v st] by (auto simp: built_def)
  obtain h hs where h: "shw 3 (EBin opx a b) = h # hs" "h \<noteq> (TokOp, ''!'')" using shw_head [of 3 "EBin opx a b"] by auto
  obtain t where t: "peek ?p = Some t" "tkind t = fst h" "tlit t = snd h"
    using view_peek [of ?p h "hs @ ?rest"] v h(1) by auto
  have "\<not> isOp t ''!''" using t h(2) by (cases h) (auto simp: isOp_def)
  then have "parses_to (nt_of (1 + 1)) ?p i q"
    using parses_to_1 [OF q(1), of NUnary ?p i q]
    by (simp add: parse_method_def parseUnary_def with_peek_def t(1))
  then have "parses_to (nt_of (0 + 1)) ?p i q"
    using chain_rule [of 1 ?p i q i q] loop_other [of 1 q _ _ i, OF _ q(2)] lv by (simp add: chain_level_def)
  then have n: "parses_to NOr ?p i q"
    using chain_rule [of 0 ?p i q i q] loop_other [of 0 q _ _ i, OF _ q(2)] lv by (simp add: chain_level_def)
  have "parse_at (parse_fuel ts) NOr ?p \<noteq> PFuel"
    using parse_tokens_total [OF ts(2)] by (auto simp: parse_tokens_def pbind_def)
  then have res: "parse_at (parse_fuel ts) NOr ?p = POk i q" by (rule parses_to_fuel [OF n])
  obtain u where "peek q = Some u" "tkind u = TokOp" using view_peek [OF q(2)] by (metis fst_conv)
  then show ?thesis using res by (simp add: parse_tokens_def pbind_def with_peek_def)
qed

definition print_views :: "tview list \<Rightarrow> string" where
  "print_views us = spell (map (\<lambda>v. tok (fst v) (snd v) 0) us)"

lemma tokenize_views:
  assumes "\<forall>v \<in> set us. wf_tok (fst v) (snd v)"
  shows "\<exists>ts. tokenize (print_views us) = Inr ts \<and> map tok_view ts = us @ [(TokEOF, [])]"
proof -
  let ?us = "map (\<lambda>v. tok (fst v) (snd v) 0) us"
  have "\<forall>t \<in> set ?us. wf_tok (tkind t) (tlit t)" using assms by (auto simp: tok_def)
  moreover have "map tok_view ?us = us" by (simp add: tok_view_def tok_def o_def)
  ultimately show ?thesis
    using tok_loop_spell [of ?us 0] by (auto simp: tokenize_def print_views_def)
qed

text \<open>
  C4. Printing an expression with minimal parentheses, tokenizing and compiling it gives back its
  tree: every operator has the documented precedence, and the logical and arithmetic operators
  associate to the left.  The six comparisons do not associate: two of them in a row, whatever their
  operands, are an error of the compiler.
\<close>

theorem condition_roundtrip:
  assumes "pexpr_ok e" and "pexpr_ok a" "pexpr_ok b" "pexpr_ok c"
    and "is_binop opx" "op_level opx = 3" and "is_binop opy" "op_level opy = 3"
  shows "(\<exists>ts pr p. tokenize (print_expr e) = Inr ts \<and> parse_tokens ts = POk pr p \<and>
      decode (pnodes pr) (nat (proot pr)) = elab e) \<and>
    (\<exists>ts err. tokenize (print_views (shw 4 a @ (TokOp, binop_text opx) # shw 4 b @ (TokOp, binop_text opy) # shw 4 c)) = Inr ts \<and>
      parse_tokens ts = PErr err)"
proof
  have pe: "print_expr e = print_views (shw 0 e)" by (simp add: print_expr_def print_views_def)
  obtain ts where ts: "tokenize (print_expr e) = Inr ts" "map tok_view ts = shw 0 e @ [(TokEOF, [])]"
    using tokenize_views [of "shw 0 e"] shw_wf [OF assms(1)] unfolding pe by blast
  show "\<exists>ts pr p. tokenize (print_expr e) = Inr ts \<and> parse_tokens ts = POk pr p \<and> decode (pnodes pr) (nat (proot pr)) = elab e"
    using parse_printed [OF pexpr_binops [OF assms(1)] ts(2) tokenize_toks_ok [OF ts(1)]] ts(1) by blast
  let ?us = "shw 4 a @ (TokOp, binop_text opx) # shw 4 b @ (TokOp, binop_text opy) # shw 4 c"
  have "\<forall>v \<in> set ?us. wf_tok (fst v) (snd v)"
    using shw_wf [OF assms(2)] shw_wf [OF assms(3)] shw_wf [OF assms(4)] binop_text_wf [OF assms(5)] binop_text_wf [OF assms(7)]
    by auto
  then obtain ts where t: "tokenize (print_views ?us) = Inr ts" "map tok_view ts = ?us @ [(TokEOF, [])]"
    using tokenize_views by blast
  then show "\<exists>ts err. tokenize (print_views ?us) = Inr ts \<and> parse_tokens ts = PErr err"
    using comparisons_do_not_chain [OF assms(6,5) pexpr_binops [OF assms(2)] pexpr_binops [OF assms(3)] assms(8,7),
        of ts "shw 4 c @ [(TokEOF, [])]"] tokenize_toks_ok [OF t(1)] by simp
qed

lemma number_text_digit: "isDigit c \<Longrightarrow> number_text [c]"
  unfolding number_text_def by (rule exI [of _ "[c]"], rule exI [of _ "[]"]) simp

lemma digit_2 [simp]: "isDigit CHR ''2''" "isDigit CHR ''3''"
  by (simp_all add: isDigit_def)

theorem condition_roundtrip_witness:
  "(\<exists>ts pr p. tokenize (print_expr (ENot (EBin OpLess
       (EBin OpMultiply (EBin OpAdd (ENum ''2'') (ENum ''3'')) (ENeg (ENum ''2''))) (ENum ''3'')))) = Inr ts \<and>
     parse_tokens ts = POk pr p \<and>
     decode (pnodes pr) (nat (proot pr)) = elab (ENot (EBin OpLess
       (EBin OpMultiply (EBin OpAdd (ENum ''2'') (ENum ''3'')) (ENeg (ENum ''2''))) (ENum ''3'')))) \<and>
   (\<exists>ts err. tokenize (print_views (shw 4 (ENum ''2'') @ (TokOp, binop_text OpLess) # shw 4 (ENum ''3'') @
       (TokOp, binop_text OpLess) # shw 4 (ENeg (ENum ''2'')))) = Inr ts \<and> parse_tokens ts = PErr err)"
  by (rule condition_roundtrip) (simp_all add: number_text_digit is_binop_def)

end
