(* ===== verification/Errcode.thy ===== *)
theory Errcode
  imports Prelude
begin

text \<open>
  Error codes (\<^verbatim>\<open>errcode/\<close>) and Go error chains as the engine inspects them (\<^verbatim>\<open>engine/errors.go\<close>).
  An error value is a chain of wrappers around a sentinel, an action error or an opaque error;
  \<open>errors.Is\<close> and \<open>errors.AsType\<close> walk the chain.
\<close>

type_synonym ErrorCode = nat

definition ErrActionCanceled :: ErrorCode where "ErrActionCanceled = 6"
definition ErrExecFailed :: ErrorCode where "ErrExecFailed = 24"
definition ErrListenRegister :: ErrorCode where "ErrListenRegister = 32"

definition codeRegistry :: "(ErrorCode \<times> string) list" where
  "codeRegistry =
    [(1, ''CONN_NOT_FOUND''), (2, ''CONN_CLOSED''), (3, ''SEND_FAILED''), (4, ''RECV_TIMEOUT''),
     (6, ''ACTION_CANCELED''), (11, ''ENCODE_FAILED''), (12, ''PARSE_FAILED''), (21, ''CREATE_MSG''),
     (22, ''BIND_FIELD''), (23, ''SERIALIZE''), (24, ''EXEC_FAILED''), (31, ''LISTEN_TIMEOUT''),
     (32, ''LISTEN_REGISTER''), (41, ''ADDR_EMPTY''), (42, ''URL_EMPTY''), (43, ''URL_SCHEME''),
     (44, ''UNKNOWN_PATTERN''), (45, ''HTTP_BUILD''), (46, ''HTTP_READ_BODY''), (47, ''MARSHAL_BODY''),
     (48, ''HTTP_STATUS''), (49, ''HEARTBEAT_CONFIG''), (50, ''STATE_CONFIG''), (51, ''LUA_NOT_INIT''),
     (52, ''LUA_NO_SCRIPT''), (53, ''LUA_EXEC_FAILED''), (54, ''LUA_SCRIPT_CHECK''),
     (61, ''CALLBACK_LUA''), (62, ''CALLBACK_PARSE'')]"

text \<open>The index is filled in registry order, so a later entry of the same code wins.\<close>

definition codeNameIndex :: "ErrorCode \<rightharpoonup> string" where
  "codeNameIndex = fold (\<lambda>c m. m(fst c \<mapsto> snd c)) codeRegistry Map.empty"

definition code_String :: "ErrorCode \<Rightarrow> string" where
  "code_String c = (case codeNameIndex c of None \<Rightarrow> [] | Some n \<Rightarrow> n)"

definition AllCodes :: "(ErrorCode \<times> string) list" where
  "AllCodes = codeRegistry"

datatype sentinel =
    ContextCanceled | ContextDeadlineExceeded
  | ErrNodeNotFound | ErrUnknownNodeType | ErrActionNotFound | ErrWeightedNoBranch
  | ErrBreak | ErrContinue | ErrSkip

datatype go_error =
    Sentinel sentinel
  | Wrapped string go_error
  | ActionError ErrorCode string "go_error option"
  | Opaque string

definition NewActionError :: "ErrorCode \<Rightarrow> string \<Rightarrow> go_error list \<Rightarrow> go_error" where
  "NewActionError code detail cause =
     ActionError code detail (case cause of [] \<Rightarrow> None | e # _ \<Rightarrow> Some e)"

primrec Unwrap :: "go_error \<Rightarrow> go_error option" where
  "Unwrap (Sentinel s) = None"
| "Unwrap (Wrapped m e) = Some e"
| "Unwrap (ActionError c d cause) = cause"
| "Unwrap (Opaque m) = None"

fun errors_Is :: "go_error \<Rightarrow> sentinel \<Rightarrow> bool" where
  "errors_Is (Sentinel s) t = (s = t)"
| "errors_Is (Wrapped m e) t = errors_Is e t"
| "errors_Is (ActionError c d None) t = False"
| "errors_Is (ActionError c d (Some e)) t = errors_Is e t"
| "errors_Is (Opaque m) t = False"

fun as_ActionError :: "go_error \<Rightarrow> (ErrorCode \<times> string) option" where
  "as_ActionError (Wrapped m e) = as_ActionError e"
| "as_ActionError (ActionError c d cause) = Some (c, d)"
| "as_ActionError _ = None"

definition is_ctx :: "go_error \<Rightarrow> bool" where
  "is_ctx e \<longleftrightarrow> errors_Is e ContextCanceled \<or> errors_Is e ContextDeadlineExceeded"

definition isCanceledError :: "go_error option \<Rightarrow> bool" where
  "isCanceledError err = (case err of
     None \<Rightarrow> False
   | Some e \<Rightarrow>
       if is_ctx e then True
       else (case as_ActionError e of
           Some (code, _) \<Rightarrow> code = ErrActionCanceled
         | None \<Rightarrow> False))"

text \<open>\<open>errors.Is\<close> is membership in the chain of unwrapped errors.\<close>

fun chain :: "go_error \<Rightarrow> go_error list" where
  "chain (Wrapped m e) = Wrapped m e # chain e"
| "chain (ActionError c d (Some e)) = ActionError c d (Some e) # chain e"
| "chain e = [e]"

lemma errors_Is_chain: "errors_Is e t \<longleftrightarrow> Sentinel t \<in> set (chain e)"
  by (induction e t rule: errors_Is.induct) auto

lemma registry_distinct: "distinct (map fst codeRegistry)"
  by (simp add: codeRegistry_def)

lemma fold_index:
  "distinct (map fst cs) \<Longrightarrow> (c, n) \<in> set cs \<Longrightarrow> fold (\<lambda>c m. m(fst c \<mapsto> snd c)) cs m c = Some n"
proof (induction cs arbitrary: m)
  case (Cons x xs)
  have keep: "c \<notin> fst ` set ys \<Longrightarrow> fold (\<lambda>c m. m(fst c \<mapsto> snd c)) ys m' c = m' c"
    for ys :: "('a \<times> 'b) list" and m'
    by (induction ys arbitrary: m') auto
  show ?case
  proof (cases "x = (c, n)")
    case True
    then have "c \<notin> fst ` set xs" using Cons.prems(1) by auto
    then show ?thesis using True keep [of xs "m(c \<mapsto> n)"] by (simp del: fun_upd_apply) simp
  next
    case False
    then show ?thesis using Cons.prems Cons.IH [of "m(fst x \<mapsto> snd x)"] by (simp del: fun_upd_apply)
  qed
qed simp

text \<open>
  The registry is a faithful naming of the framework codes: 29 pairwise different codes, all
  below 100 (the range reserved for server codes starts there), none of them the retired code 5,
  and every registered code prints as its own name.
\<close>

theorem registry_sound:
  "length AllCodes = 29 \<and> distinct (map fst AllCodes) \<and>
   list_all (\<lambda>(c, n). 0 < c \<and> c < 100 \<and> c \<noteq> 5 \<and> n \<noteq> [] \<and> code_String c = n) AllCodes"
proof -
  have "code_String c = n" if "(c, n) \<in> set codeRegistry" for c n
    using fold_index [OF registry_distinct that, of Map.empty]
    by (simp add: code_String_def codeNameIndex_def)
  moreover have "list_all (\<lambda>(c, n). 0 < c \<and> c < 100 \<and> c \<noteq> 5 \<and> n \<noteq> []) codeRegistry"
    by (simp add: codeRegistry_def)
  ultimately show ?thesis
    using registry_distinct by (auto simp: AllCodes_def list_all_iff) (simp add: codeRegistry_def)
qed

end
