(* ===== verification/Flow.thy ===== *)
theory Flow
  imports CondEval Errcode
begin

text \<open>
  The flow model and its preparation (\<^verbatim>\<open>flow/flow.go\<close>, \<^verbatim>\<open>flow/prepare.go\<close>).  A Go map is an
  association list with distinct keys, in the (unspecified) order its iteration takes; a nil
  pointer is \<open>None\<close>.  The fields of an action that only its executor reads are left out.  A load
  that fails discards the flow, so the result is an error or the prepared flow.
\<close>

record WeightedOption =
  woNode :: string
  woWeight :: int

record RetryDef =
  MaxRetries :: int
  RetryDelayMs :: int

record OnErrorDef =
  IgnoreCodes :: "ErrorCode list"
  Handler :: string
  Retry :: "RetryDef option"
  Strategy :: string

record SwitchCase =
  scCondition :: string
  scNext :: string
  scCompiled :: "CompiledCondition option"

record ListenRef =
  lrServer :: string
  lrListen :: string
  lrQueueSize :: "int option"

datatype nodeType =
    NodeSequence | NodeAction | NodeLoop | NodeBoolean | NodeSwitch | NodeWeighted | NodeWait
  | NodeBreak | NodeContinue | NodeOther string

record Node =
  Type :: nodeType
  Next :: "string list"
  Body :: string
  LoopCount :: int
  Condition :: string
  BreakCondition :: string
  TrueNext :: string
  FalseNext :: string
  Cases :: "SwitchCase list"
  DefaultNext :: string
  Action :: string
  OnError :: "OnErrorDef option"
  ListenRefs :: "ListenRef list"
  Options :: "WeightedOption list"
  WaitMs :: int
  WaitMin :: int
  WaitMax :: int
  Then :: string
  DelayMs :: int
  compiledCondition :: "CompiledCondition option"
  compiledBreakCondition :: "CompiledCondition option"

datatype FieldBind = FieldBind
  (fbField: string) (fbCondition: string) (fbPrepared: "CompiledCondition option")
  (fbEntries: "FieldBind list")

record ActionDef =
  Pattern :: string
  Keys :: "string list"
  Bindings :: "FieldBind list"

record TaskFlow =
  Nodes :: "(string \<times> Node option) list"
  Actions :: "(string \<times> ActionDef option) list"
  Listens :: "string list"

definition PatternClearState :: string where "PatternClearState = ''clearState''"

datatype flow_error =
    FeClearState string string
  | FeCondition string cond_error
  | FeListen string nat string
  | FePanic

definition protectedStateKeys :: "string list" where
  "protectedStateKeys = [''id'', ''index'', ''account'']"

definition IsProtectedStateKey :: "string \<Rightarrow> bool" where
  "IsProtectedStateKey key \<longleftrightarrow> key \<in> set protectedStateKeys"

primrec ValidateClearStateKeys :: "string \<Rightarrow> string list \<Rightarrow> flow_error option" where
  "ValidateClearStateKeys name [] = None"
| "ValidateClearStateKeys name (key # ks) =
     (if IsProtectedStateKey key then Some (FeClearState name key) else ValidateClearStateKeys name ks)"

text \<open>The compiler with its cache.\<close>

type_synonym cond_cache = "string \<rightharpoonup> CompiledCondition"

definition compile :: "cond_cache \<Rightarrow> string \<Rightarrow> flow_error + CompiledCondition \<times> cond_cache" where
  "compile cache source0 =
     (let source = trim_space source0 in
      case cache source of
        Some c \<Rightarrow> Inr (c, cache)
      | None \<Rightarrow> (case compileCondition source of
          CompOk c \<Rightarrow> Inr (c, cache(source \<mapsto> c))
        | CompErr e \<Rightarrow> Inl (FeCondition source e)
        | CompPanic \<Rightarrow> Inl FePanic
        | CompFuel \<Rightarrow> Inl FePanic))"

text \<open>The new value of the target pointer.\<close>

definition prepare :: "cond_cache \<Rightarrow> string \<Rightarrow> flow_error + CompiledCondition option \<times> cond_cache" where
  "prepare cache source0 =
     (let source = trim_space source0 in
      if source = [] then Inr (None, cache)
      else (case compile cache source of
          Inl e \<Rightarrow> Inl e
        | Inr (c, cache) \<Rightarrow> Inr (Some c, cache)))"

text \<open>A loop over a slice that threads the cache, stops at the first error and rewrites in place.\<close>

primrec each :: "(cond_cache \<Rightarrow> 'a \<Rightarrow> flow_error + 'a \<times> cond_cache) \<Rightarrow> cond_cache \<Rightarrow> 'a list \<Rightarrow>
    flow_error + 'a list \<times> cond_cache" where
  "each f cache [] = Inr ([], cache)"
| "each f cache (x # xs) = (case f cache x of
     Inl e \<Rightarrow> Inl e
   | Inr (y, cache) \<Rightarrow> (case each f cache xs of
       Inl e \<Rightarrow> Inl e
     | Inr (ys, cache) \<Rightarrow> Inr (y # ys, cache)))"

lemma each_cong [fundef_cong]:
  "xs = ys \<Longrightarrow> c = c' \<Longrightarrow> (\<And>x c. x \<in> set ys \<Longrightarrow> f c x = g c x) \<Longrightarrow> each f c xs = each g c' ys"
proof (induction ys arbitrary: xs c c')
  case (Cons y ys)
  then show ?case by (auto split: sum.splits)
qed simp

fun prepareBinding :: "cond_cache \<Rightarrow> FieldBind \<Rightarrow> flow_error + FieldBind \<times> cond_cache" where
  "prepareBinding cache (FieldBind f cond p es) =
     (case prepare cache cond of
        Inl e \<Rightarrow> Inl e
      | Inr (c, cache) \<Rightarrow> (case each (\<lambda>c b. prepareBinding c b) cache es of
          Inl e \<Rightarrow> Inl e
        | Inr (es, cache) \<Rightarrow> Inr (FieldBind f cond c es, cache)))"

definition prepare_action ::
    "cond_cache \<Rightarrow> string \<times> ActionDef option \<Rightarrow> flow_error + (string \<times> ActionDef option) \<times> cond_cache" where
  "prepare_action cache na = (case na of
     (name, None) \<Rightarrow> Inr (na, cache)
   | (name, Some def) \<Rightarrow>
       (case (if Pattern def = PatternClearState then ValidateClearStateKeys name (Keys def) else None) of
          Some e \<Rightarrow> Inl e
        | None \<Rightarrow> (case each prepareBinding cache (Bindings def) of
            Inl e \<Rightarrow> Inl e
          | Inr (bs, cache) \<Rightarrow> Inr ((name, Some (def\<lparr>Bindings := bs\<rparr>)), cache))))"

definition prepare_case :: "cond_cache \<Rightarrow> SwitchCase \<Rightarrow> flow_error + SwitchCase \<times> cond_cache" where
  "prepare_case cache sc = (case prepare cache (scCondition sc) of
     Inl e \<Rightarrow> Inl e
   | Inr (c, cache) \<Rightarrow> Inr (sc\<lparr>scCompiled := c\<rparr>, cache))"

primrec check_listens :: "string list \<Rightarrow> string \<Rightarrow> nat \<Rightarrow> ListenRef list \<Rightarrow> flow_error option" where
  "check_listens listens nid i [] = None"
| "check_listens listens nid i (ref # refs) =
     (if lrListen ref = [] then check_listens listens nid (i + 1) refs
      else if lrListen ref \<notin> set listens then Some (FeListen nid i (lrListen ref))
      else check_listens listens nid (i + 1) refs)"

definition prepare_node ::
    "string list \<Rightarrow> cond_cache \<Rightarrow> string \<times> Node option \<Rightarrow> flow_error + (string \<times> Node option) \<times> cond_cache" where
  "prepare_node listens cache nn = (case nn of
     (nid, None) \<Rightarrow> Inr (nn, cache)
   | (nid, Some node) \<Rightarrow> (case prepare cache (Condition node) of
       Inl e \<Rightarrow> Inl e
     | Inr (c, cache) \<Rightarrow> (case prepare cache (BreakCondition node) of
         Inl e \<Rightarrow> Inl e
       | Inr (bc, cache) \<Rightarrow> (case each prepare_case cache (Cases node) of
           Inl e \<Rightarrow> Inl e
         | Inr (cs, cache) \<Rightarrow> (case check_listens listens nid 0 (ListenRefs node) of
             Some e \<Rightarrow> Inl e
           | None \<Rightarrow> Inr ((nid, Some (node\<lparr>compiledCondition := c, compiledBreakCondition := bc,
                Cases := cs\<rparr>)), cache))))))"

definition PrepareTaskFlow :: "TaskFlow option \<Rightarrow> flow_error + TaskFlow option" where
  "PrepareTaskFlow flow0 = (case flow0 of
     None \<Rightarrow> Inr None
   | Some fl \<Rightarrow> (case each prepare_action Map.empty (Actions fl) of
       Inl e \<Rightarrow> Inl e
     | Inr (as, cache) \<Rightarrow> (case each (prepare_node (Listens fl)) cache (Nodes fl) of
         Inl e \<Rightarrow> Inl e
       | Inr (ns, cache) \<Rightarrow> Inr (Some (fl\<lparr>Actions := as, Nodes := ns\<rparr>)))))"

definition PrepareFieldBindings :: "FieldBind list \<Rightarrow> flow_error + FieldBind list" where
  "PrepareFieldBindings bs = (case each prepareBinding Map.empty bs of
     Inl e \<Rightarrow> Inl e | Inr (bs, _) \<Rightarrow> Inr bs)"

definition matchingCondition :: "string \<Rightarrow> CompiledCondition option \<Rightarrow> CompiledCondition option" where
  "matchingCondition source compiled =
     (if compiled = None \<or> Source compiled \<noteq> trim_space source then None else compiled)"

definition PreparedCondition :: "Node \<Rightarrow> CompiledCondition option" where
  "PreparedCondition n = matchingCondition (Condition n) (compiledCondition n)"

definition PreparedBreakCondition :: "Node \<Rightarrow> CompiledCondition option" where
  "PreparedBreakCondition n = matchingCondition (BreakCondition n) (compiledBreakCondition n)"

definition CasePreparedCondition :: "SwitchCase \<Rightarrow> CompiledCondition option" where
  "CasePreparedCondition c = matchingCondition (scCondition c) (scCompiled c)"

definition BindingPreparedCondition :: "FieldBind \<Rightarrow> CompiledCondition option" where
  "BindingPreparedCondition b = matchingCondition (fbCondition b) (fbPrepared b)"

definition flow_node :: "TaskFlow \<Rightarrow> string \<Rightarrow> Node option option" where
  "flow_node fl nid = map_of (Nodes fl) nid"

definition flow_action :: "TaskFlow \<Rightarrow> string \<Rightarrow> ActionDef option option" where
  "flow_action fl name = map_of (Actions fl) name"

subsection \<open>The cache is transparent\<close>

text \<open>The preparation without a cache: each condition is compiled on its own.\<close>

primrec traverse :: "('a \<Rightarrow> 'e + 'b) \<Rightarrow> 'a list \<Rightarrow> 'e + 'b list" where
  "traverse g [] = Inr []"
| "traverse g (x # xs) = (case g x of Inl e \<Rightarrow> Inl e
     | Inr y \<Rightarrow> (case traverse g xs of Inl e \<Rightarrow> Inl e | Inr ys \<Rightarrow> Inr (y # ys)))"

lemma traverse_cong [fundef_cong]:
  "xs = ys \<Longrightarrow> (\<And>x. x \<in> set ys \<Longrightarrow> f x = g x) \<Longrightarrow> traverse f xs = traverse g ys"
proof (induction ys arbitrary: xs)
  case (Cons y ys)
  then show ?case by (auto split: sum.splits)
qed simp

definition cond_ref :: "string \<Rightarrow> flow_error + CompiledCondition option" where
  "cond_ref s = (if trim_space s = [] then Inr None
     else (case compileCondition s of
         CompOk c \<Rightarrow> Inr (Some c)
       | CompErr e \<Rightarrow> Inl (FeCondition (trim_space s) e)
       | CompPanic \<Rightarrow> Inl FePanic
       | CompFuel \<Rightarrow> Inl FePanic))"

fun bind_ref :: "FieldBind \<Rightarrow> flow_error + FieldBind" where
  "bind_ref (FieldBind f cond p es) = (case cond_ref cond of Inl e \<Rightarrow> Inl e
     | Inr c \<Rightarrow> (case traverse (\<lambda>b. bind_ref b) es of Inl e \<Rightarrow> Inl e | Inr es \<Rightarrow> Inr (FieldBind f cond c es)))"

definition action_ref :: "string \<times> ActionDef option \<Rightarrow> flow_error + string \<times> ActionDef option" where
  "action_ref na = (case na of
     (name, None) \<Rightarrow> Inr na
   | (name, Some def) \<Rightarrow>
       (case (if Pattern def = PatternClearState then ValidateClearStateKeys name (Keys def) else None) of
          Some e \<Rightarrow> Inl e
        | None \<Rightarrow> (case traverse bind_ref (Bindings def) of
            Inl e \<Rightarrow> Inl e | Inr bs \<Rightarrow> Inr (name, Some (def\<lparr>Bindings := bs\<rparr>)))))"

definition case_ref :: "SwitchCase \<Rightarrow> flow_error + SwitchCase" where
  "case_ref sc = (case cond_ref (scCondition sc) of Inl e \<Rightarrow> Inl e | Inr c \<Rightarrow> Inr (sc\<lparr>scCompiled := c\<rparr>))"

definition node_ref :: "string list \<Rightarrow> string \<times> Node option \<Rightarrow> flow_error + string \<times> Node option" where
  "node_ref listens nn = (case nn of
     (nid, None) \<Rightarrow> Inr nn
   | (nid, Some node) \<Rightarrow> (case cond_ref (Condition node) of Inl e \<Rightarrow> Inl e
     | Inr c \<Rightarrow> (case cond_ref (BreakCondition node) of Inl e \<Rightarrow> Inl e
       | Inr bc \<Rightarrow> (case traverse case_ref (Cases node) of Inl e \<Rightarrow> Inl e
         | Inr cs \<Rightarrow> (case check_listens listens nid 0 (ListenRefs node) of
             Some e \<Rightarrow> Inl e
           | None \<Rightarrow> Inr (nid, Some (node\<lparr>compiledCondition := c, compiledBreakCondition := bc,
                Cases := cs\<rparr>)))))))"

definition flow_ref :: "TaskFlow \<Rightarrow> flow_error + TaskFlow" where
  "flow_ref fl = (case traverse action_ref (Actions fl) of Inl e \<Rightarrow> Inl e
     | Inr as \<Rightarrow> (case traverse (node_ref (Listens fl)) (Nodes fl) of Inl e \<Rightarrow> Inl e
       | Inr ns \<Rightarrow> Inr (fl\<lparr>Actions := as, Nodes := ns\<rparr>)))"

definition cache_ok :: "cond_cache \<Rightarrow> bool" where
  "cache_ok cache \<longleftrightarrow> (\<forall>s c. cache s = Some c \<longrightarrow> trim_space s = s \<and> compileCondition s = CompOk c)"

text \<open>A step with a correct cache does what the step without a cache does, and keeps it correct.\<close>

definition agrees :: "flow_error + 'a \<times> cond_cache \<Rightarrow> flow_error + 'a \<Rightarrow> bool" where
  "agrees r r' \<longleftrightarrow> (case r of Inl e \<Rightarrow> r' = Inl e | Inr (y, cache) \<Rightarrow> r' = Inr y \<and> cache_ok cache)"

lemma agrees_simps [simp]:
  "agrees (Inl e) r \<longleftrightarrow> r = Inl e" "agrees (Inr (y, cache)) r \<longleftrightarrow> r = Inr y \<and> cache_ok cache"
  by (simp_all add: agrees_def)

lemma agrees_bind:
  assumes "agrees m m'" "\<And>y cache. cache_ok cache \<Longrightarrow> agrees (f y cache) (f' y)"
  shows "agrees (case m of Inl e \<Rightarrow> Inl e | Inr (y, cache) \<Rightarrow> f y cache)
    (case m' of Inl e \<Rightarrow> Inl e | Inr y \<Rightarrow> f' y)"
  using assms by (cases m) (auto simp: agrees_def [of m])

lemma compileCondition_trim: "compileCondition (trim_space s) = compileCondition s"
  by (simp add: compileCondition_def trim_space_idem)

lemma prepare_agrees:
  assumes "cache_ok cache"
  shows "agrees (prepare cache s) (cond_ref s)"
proof (cases "cache (trim_space s)")
  case None
  then show ?thesis
    using assms
    by (auto simp: prepare_def compile_def cond_ref_def cache_ok_def trim_space_idem
        compileCondition_trim Let_def split: compile_res.splits)
next
  case (Some c)
  then have "compileCondition s = CompOk c"
    using assms compileCondition_trim [of s] by (auto simp: cache_ok_def)
  then show ?thesis
    using Some assms by (simp add: prepare_def compile_def cond_ref_def trim_space_idem)
qed

lemma each_agrees:
  "cache_ok cache \<Longrightarrow> (\<And>x cache. x \<in> set xs \<Longrightarrow> cache_ok cache \<Longrightarrow> agrees (f cache x) (g x)) \<Longrightarrow>
   agrees (each f cache xs) (traverse g xs)"
proof (induction xs arbitrary: cache)
  case (Cons x xs)
  have "agrees (f cache x) (g x)" using Cons.prems by simp
  then show ?case
    unfolding each.simps traverse.simps by (rule agrees_bind) (auto intro!: agrees_bind Cons.IH Cons.prems(2))
qed simp

lemma prepareBinding_agrees: "cache_ok cache \<Longrightarrow> agrees (prepareBinding cache b) (bind_ref b)"
proof (induction b arbitrary: cache)
  case (FieldBind f cond p es)
  show ?case
    unfolding prepareBinding.simps bind_ref.simps
    by (rule agrees_bind [OF prepare_agrees [OF FieldBind.prems]])
       (auto intro!: agrees_bind each_agrees FieldBind.IH)
qed

lemma prepare_action_agrees: "cache_ok cache \<Longrightarrow> agrees (prepare_action cache na) (action_ref na)"
  unfolding prepare_action_def action_ref_def
  by (auto simp del: ValidateClearStateKeys.simps intro!: agrees_bind each_agrees prepareBinding_agrees
      split: prod.split option.split)

lemma prepare_case_agrees: "cache_ok cache \<Longrightarrow> agrees (prepare_case cache sc) (case_ref sc)"
  unfolding prepare_case_def case_ref_def by (rule agrees_bind [OF prepare_agrees]) auto

lemma prepare_node_agrees: "cache_ok cache \<Longrightarrow> agrees (prepare_node ls cache nn) (node_ref ls nn)"
proof (cases nn)
  case (Pair nid no)
  assume c: "cache_ok cache"
  show ?thesis
  proof (cases no)
    case None
    then show ?thesis using Pair c by (simp add: prepare_node_def node_ref_def)
  next
    case (Some node)
    have fin: "agrees
      (case check_listens ls nid 0 (ListenRefs node) of Some e \<Rightarrow> Inl e | None \<Rightarrow> Inr (x, cache))
      (case check_listens ls nid 0 (ListenRefs node) of Some e \<Rightarrow> Inl e | None \<Rightarrow> Inr x)"
      if "cache_ok cache" for x :: "string \<times> Node option" and cache
      using that by (cases "check_listens ls nid 0 (ListenRefs node)") auto
    show ?thesis
      unfolding prepare_node_def node_ref_def Pair Some prod.case option.case
      by (intro agrees_bind prepare_agrees each_agrees prepare_case_agrees fin c)
  qed
qed

lemma cache_ok_empty [simp]: "cache_ok Map.empty"
  by (simp add: cache_ok_def)

lemma PrepareTaskFlow_ref:
  "PrepareTaskFlow (Some fl) = (case flow_ref fl of Inl e \<Rightarrow> Inl e | Inr fl \<Rightarrow> Inr (Some fl))"
proof -
  have a: "agrees (each prepare_action Map.empty (Actions fl)) (traverse action_ref (Actions fl))"
    by (intro each_agrees prepare_action_agrees) simp_all
  show ?thesis
  proof (cases "each prepare_action Map.empty (Actions fl)")
    case (Inl e)
    then show ?thesis using a by (simp add: PrepareTaskFlow_def flow_ref_def)
  next
    case (Inr ac)
    obtain as cache where ac: "ac = (as, cache)" by (cases ac)
    then have c: "cache_ok cache" "traverse action_ref (Actions fl) = Inr as" using a Inr by auto
    have "agrees (each (prepare_node (Listens fl)) cache (Nodes fl)) (traverse (node_ref (Listens fl)) (Nodes fl))"
      by (intro each_agrees prepare_node_agrees c)
    then show ?thesis
      using Inr ac c by (auto simp: PrepareTaskFlow_def flow_ref_def agrees_def split: sum.splits)
  qed
qed

subsection \<open>What a successful load guarantees\<close>

definition cond_loads :: "string \<Rightarrow> bool" where
  "cond_loads s \<longleftrightarrow> trim_space s = [] \<or> (\<exists>c. compileCondition s = CompOk c)"

fun bind_loads :: "FieldBind \<Rightarrow> bool" where
  "bind_loads (FieldBind f cond p es) \<longleftrightarrow> cond_loads cond \<and> list_all (\<lambda>b. bind_loads b) es"

definition action_loads :: "string \<times> ActionDef option \<Rightarrow> bool" where
  "action_loads na \<longleftrightarrow> (case snd na of None \<Rightarrow> True
     | Some def \<Rightarrow> (Pattern def = PatternClearState \<longrightarrow> \<not> list_ex IsProtectedStateKey (Keys def)) \<and>
         list_all bind_loads (Bindings def))"

definition node_loads :: "string list \<Rightarrow> string \<times> Node option \<Rightarrow> bool" where
  "node_loads ls nn \<longleftrightarrow> (case snd nn of None \<Rightarrow> True
     | Some n \<Rightarrow> cond_loads (Condition n) \<and> cond_loads (BreakCondition n) \<and>
         list_all (\<lambda>c. cond_loads (scCondition c)) (Cases n) \<and>
         list_all (\<lambda>r. lrListen r = [] \<or> lrListen r \<in> set ls) (ListenRefs n))"

definition loadable :: "TaskFlow \<Rightarrow> bool" where
  "loadable fl \<longleftrightarrow> list_all action_loads (Actions fl) \<and> list_all (node_loads (Listens fl)) (Nodes fl)"

definition cond_prepared :: "string \<Rightarrow> CompiledCondition option \<Rightarrow> bool" where
  "cond_prepared s p \<longleftrightarrow> (case p of None \<Rightarrow> trim_space s = []
     | Some c \<Rightarrow> trim_space s \<noteq> [] \<and> compileCondition s = CompOk c)"

fun bind_prepared :: "FieldBind \<Rightarrow> bool" where
  "bind_prepared (FieldBind f cond p es) \<longleftrightarrow>
     cond_prepared cond (BindingPreparedCondition (FieldBind f cond p es)) \<and> list_all (\<lambda>b. bind_prepared b) es"

definition node_prepared :: "string list \<Rightarrow> Node \<Rightarrow> bool" where
  "node_prepared ls n \<longleftrightarrow>
     cond_prepared (Condition n) (PreparedCondition n) \<and>
     cond_prepared (BreakCondition n) (PreparedBreakCondition n) \<and>
     list_all (\<lambda>c. cond_prepared (scCondition c) (CasePreparedCondition c)) (Cases n) \<and>
     list_all (\<lambda>r. lrListen r = [] \<or> lrListen r \<in> set ls) (ListenRefs n)"

definition flow_prepared :: "TaskFlow \<Rightarrow> bool" where
  "flow_prepared fl \<longleftrightarrow>
     (\<forall>(nid, no) \<in> set (Nodes fl). case no of None \<Rightarrow> True | Some n \<Rightarrow> node_prepared (Listens fl) n) \<and>
     (\<forall>(name, ao) \<in> set (Actions fl). case ao of None \<Rightarrow> True | Some d \<Rightarrow>
        list_all bind_prepared (Bindings d) \<and>
        (Pattern d = PatternClearState \<longrightarrow> \<not> list_ex IsProtectedStateKey (Keys d)))"

lemma traverse_Inr: "traverse g xs = Inr ys \<Longrightarrow> list_all2 (\<lambda>x y. g x = Inr y) xs ys"
  by (induction xs arbitrary: ys) (auto simp: list_all2_Cons1 split: sum.splits)

lemma traverse_ok: "(\<exists>ys. traverse g xs = Inr ys) \<longleftrightarrow> list_all (\<lambda>x. \<exists>y. g x = Inr y) xs"
  by (induction xs) (auto split: sum.splits)

lemma clear_keys_ok: "ValidateClearStateKeys name ks = None \<longleftrightarrow> \<not> list_ex IsProtectedStateKey ks"
  by (induction ks) auto

lemma check_listens_ok:
  "check_listens ls nid i refs = None \<longleftrightarrow> list_all (\<lambda>r. lrListen r = [] \<or> lrListen r \<in> set ls) refs"
  by (induction refs arbitrary: i) auto

lemma cond_ref_ok: "(\<exists>c. cond_ref s = Inr c) \<longleftrightarrow> cond_loads s"
  using compile_cases [of s] by (auto simp: cond_ref_def cond_loads_def)

lemma bind_ref_ok: "(\<exists>b'. bind_ref b = Inr b') \<longleftrightarrow> bind_loads b"
proof (induction b)
  case (FieldBind f cond p es)
  have "(\<exists>ys. traverse bind_ref es = Inr ys) \<longleftrightarrow> list_all bind_loads es"
    using FieldBind.IH by (auto simp: traverse_ok list_all_iff)
  then show ?case
    using cond_ref_ok [of cond] by (auto split: sum.splits)
qed

lemma action_ref_ok: "(\<exists>y. action_ref na = Inr y) \<longleftrightarrow> action_loads na"
proof -
  have "(\<exists>ys. traverse bind_ref bs = Inr ys) \<longleftrightarrow> list_all bind_loads bs" for bs
    by (simp add: traverse_ok bind_ref_ok)
  then show ?thesis
    by (auto simp: action_ref_def action_loads_def clear_keys_ok [symmetric]
        split: prod.splits option.splits sum.splits)
       (metis option.distinct(1) clear_keys_ok sum.distinct(1))+
qed

lemma case_ref_ok: "(\<exists>y. case_ref c = Inr y) \<longleftrightarrow> cond_loads (scCondition c)"
  unfolding cond_ref_ok [symmetric] by (cases "cond_ref (scCondition c)") (simp_all add: case_ref_def)

lemma node_ref_ok: "(\<exists>y. node_ref ls nn = Inr y) \<longleftrightarrow> node_loads ls nn"
proof -
  have "(\<exists>ys. traverse case_ref cs = Inr ys) \<longleftrightarrow> list_all (\<lambda>c. cond_loads (scCondition c)) cs" for cs
    by (simp add: traverse_ok case_ref_ok)
  note eqs = this cond_ref_ok check_listens_ok
  show ?thesis
  proof (cases "snd nn")
    case None
    then show ?thesis by (cases nn) (simp add: node_ref_def node_loads_def)
  next
    case (Some n)
    obtain a b c where abc: "a = cond_ref (Condition n)" "b = cond_ref (BreakCondition n)"
      "c = traverse case_ref (Cases n)" by simp
    have nn: "nn = (fst nn, Some n)" using Some by (cases nn) simp
    have "node_loads ls nn \<longleftrightarrow> (\<exists>x. a = Inr x) \<and> (\<exists>x. b = Inr x) \<and> (\<exists>x. c = Inr x) \<and>
        check_listens ls (fst nn) 0 (ListenRefs n) = None"
      by (simp add: node_loads_def Some eqs abc)
    also have "\<dots> \<longleftrightarrow> (\<exists>y. node_ref ls (fst nn, Some n) = Inr y)"
      by (cases a; cases b; cases c; cases "check_listens ls (fst nn) 0 (ListenRefs n)")
         (simp_all add: node_ref_def abc [symmetric])
    finally show ?thesis using nn by simp
  qed
qed

lemma PrepareTaskFlow_ok: "(\<exists>fl'. PrepareTaskFlow (Some fl) = Inr fl') \<longleftrightarrow> loadable fl"
proof -
  have "(\<exists>fl'. PrepareTaskFlow (Some fl) = Inr fl') \<longleftrightarrow> (\<exists>fl'. flow_ref fl = Inr fl')"
    by (cases "flow_ref fl") (simp_all add: PrepareTaskFlow_ref)
  also have "\<dots> \<longleftrightarrow> (\<exists>as. traverse action_ref (Actions fl) = Inr as) \<and>
      (\<exists>ns. traverse (node_ref (Listens fl)) (Nodes fl) = Inr ns)"
    by (cases "traverse action_ref (Actions fl)"; cases "traverse (node_ref (Listens fl)) (Nodes fl)")
       (simp_all add: flow_ref_def)
  finally show ?thesis by (simp only: traverse_ok action_ref_ok node_ref_ok loadable_def)
qed

lemma cond_ref_prepared: "cond_ref s = Inr p \<Longrightarrow> matchingCondition s p = p \<and> cond_prepared s p"
  using compile_cases [of s]
  by (auto simp: cond_ref_def matchingCondition_def cond_prepared_def Source_def split: if_splits)

lemma bind_ref_prepared: "bind_ref b = Inr b' \<Longrightarrow> bind_prepared b'"
proof (induction b arbitrary: b')
  case (FieldBind f cond p es)
  obtain c es' where b': "cond_ref cond = Inr c" "traverse bind_ref es = Inr es'" "b' = FieldBind f cond c es'"
    using FieldBind.prems by (auto split: sum.splits)
  have "list_all bind_prepared es'"
    using traverse_Inr [OF b'(2)] FieldBind.IH
    by (auto simp: list_all_iff list_all2_conv_all_nth in_set_conv_nth) (metis nth_mem)
  then show ?case using cond_ref_prepared [OF b'(1)] b'(3) by (simp add: BindingPreparedCondition_def)
qed

lemma case_ref_prepared:
  "case_ref c = Inr c' \<Longrightarrow> cond_prepared (scCondition c') (CasePreparedCondition c')"
  using cond_ref_prepared [of "scCondition c"]
  by (auto simp: case_ref_def CasePreparedCondition_def split: sum.splits)

lemma traverse_all:
  assumes "traverse g xs = Inr ys" "\<And>x y. x \<in> set xs \<Longrightarrow> g x = Inr y \<Longrightarrow> P y"
  shows "list_all P ys"
  using traverse_Inr [OF assms(1)] assms(2)
  by (auto simp: list_all_iff list_all2_conv_all_nth in_set_conv_nth) (metis nth_mem)

lemma node_ref_prepared:
  "node_ref ls nn = Inr (nid, Some n) \<Longrightarrow> node_prepared ls n"
  by (auto simp: node_ref_def node_prepared_def PreparedCondition_def PreparedBreakCondition_def
      check_listens_ok dest!: cond_ref_prepared
      intro!: traverse_all [of case_ref] case_ref_prepared
      split: prod.splits option.splits sum.splits)

lemma action_ref_prepared:
  "action_ref na = Inr (name, Some d) \<Longrightarrow> list_all bind_prepared (Bindings d) \<and>
     (Pattern d = PatternClearState \<longrightarrow> \<not> list_ex IsProtectedStateKey (Keys d))"
  by (auto simp: action_ref_def clear_keys_ok intro!: traverse_all [of bind_ref] bind_ref_prepared
      split: prod.splits option.splits sum.splits if_splits)

lemma flow_ref_prepared:
  assumes "flow_ref fl = Inr fl'"
  shows "flow_prepared fl'"
proof -
  obtain as ns where r: "traverse action_ref (Actions fl) = Inr as"
      "traverse (node_ref (Listens fl)) (Nodes fl) = Inr ns" "fl' = fl\<lparr>Actions := as, Nodes := ns\<rparr>"
    using assms by (auto simp: flow_ref_def split: sum.splits)
  have "list_all (\<lambda>(nid, no). case no of None \<Rightarrow> True | Some n \<Rightarrow> node_prepared (Listens fl) n) ns"
    using r(2) by (rule traverse_all) (auto dest: node_ref_prepared split: option.splits)
  moreover have "list_all (\<lambda>(name, ao). case ao of None \<Rightarrow> True | Some d \<Rightarrow>
        list_all bind_prepared (Bindings d) \<and>
        (Pattern d = PatternClearState \<longrightarrow> \<not> list_ex IsProtectedStateKey (Keys d))) as"
    using r(1) by (rule traverse_all) (auto dest: action_ref_prepared split: option.splits)
  ultimately show ?thesis by (auto simp: flow_prepared_def r(3) list_all_iff split: option.splits)
qed

text \<open>
  After a successful load every non-blank condition of the flow (nodes, loop exits, switch
  cases, field bindings at any depth) carries the program its own text compiles to, every named
  listen exists, and no \<open>clearState\<close> action clears a built-in key.
\<close>

theorem PrepareTaskFlow_prepared:
  assumes "PrepareTaskFlow (Some fl) = Inr (Some fl')"
  shows "flow_prepared fl'"
  using assms flow_ref_prepared by (auto simp: PrepareTaskFlow_ref split: sum.splits)

definition node0 :: Node where
  "node0 = \<lparr>Type = NodeBreak, Next = [], Body = [], LoopCount = 0, Condition = [], BreakCondition = [],
     TrueNext = [], FalseNext = [], Cases = [], DefaultNext = [], Action = [], OnError = None,
     ListenRefs = [], Options = [], WaitMs = 0, WaitMin = 0, WaitMax = 0, Then = [], DelayMs = 0,
     compiledCondition = None, compiledBreakCondition = None\<rparr>"

definition sample_flow :: TaskFlow where
  "sample_flow = \<lparr>
     Nodes = [(''main'', Some (node0\<lparr>Type := NodeLoop, Body := ''login'', LoopCount := 2,
                 BreakCondition := '' state: hp > 1 ''\<rparr>)),
              (''login'', Some (node0\<lparr>Type := NodeAction, Action := ''hello'', DelayMs := -1\<rparr>))],
     Actions = [(''hello'', Some \<lparr>Pattern = ''lua'', Keys = [], Bindings = []\<rparr>)],
     Listens = []\<rparr>"

definition sample_prepared :: TaskFlow where
  "sample_prepared = (case PrepareTaskFlow (Some sample_flow) of Inr (Some fl) \<Rightarrow> fl | _ \<Rightarrow> sample_flow)"

lemma sample_loads: "PrepareTaskFlow (Some sample_flow) = Inr (Some sample_prepared)"
  by code_simp

theorem PrepareTaskFlow_prepared_witness: "flow_prepared sample_prepared"
  by (rule PrepareTaskFlow_prepared [OF sample_loads])

text \<open>
  Whether a flow loads does not depend on the order in which Go iterates its maps.
\<close>

theorem PrepareTaskFlow_order:
  assumes "set (Actions a) = set (Actions b)" "set (Nodes a) = set (Nodes b)"
    "set (Listens a) = set (Listens b)"
  shows "(\<exists>fl. PrepareTaskFlow (Some a) = Inr fl) \<longleftrightarrow> (\<exists>fl. PrepareTaskFlow (Some b) = Inr fl)"
proof -
  have "node_loads (Listens a) = node_loads (Listens b)"
    using assms(3) by (intro ext) (simp add: node_loads_def split: option.split)
  then show ?thesis
    unfolding PrepareTaskFlow_ok by (simp add: loadable_def list_all_iff assms(1,2))
qed

theorem PrepareTaskFlow_order_witness:
  "(\<exists>fl. PrepareTaskFlow (Some (sample_flow\<lparr>Nodes := rev (Nodes sample_flow)\<rparr>)) = Inr fl) \<longleftrightarrow>
   (\<exists>fl. PrepareTaskFlow (Some sample_flow) = Inr fl)"
  by (rule PrepareTaskFlow_order) simp_all

text \<open>
  The compiler's cache is invisible: preparing a flow gives what compiling every condition on
  its own gives, error for error.
\<close>

theorem PrepareTaskFlow_cache_transparent:
  "PrepareTaskFlow (Some fl) = (case flow_ref fl of Inl e \<Rightarrow> Inl e | Inr fl' \<Rightarrow> Inr (Some fl'))"
  by (rule PrepareTaskFlow_ref)

end
