(* ===== verification/Executor.thy ===== *)
theory Executor
  imports Flow
begin

text \<open>
  The flow executor (\<^verbatim>\<open>engine/executor.go\<close>).  Everything outside the executor is a world of type
  \<open>'w\<close> and the operations on it that the executor calls: the methods of \<open>ActionHandler\<close>, the read of
  the context's error, the random source and the monitor's pending-cancel counter.  A nil
  dereference is \<open>Panicked\<close>.  \<open>executeNode\<close> carries fuel, which bounds the depth of nested node
  calls and the iterations of a loop; \<open>NoFuel\<close> is exhaustion.  Log output and the wording of error
  texts are left out.
\<close>

datatype ctx_error = CtxCanceled | CtxDeadlineExceeded

fun ctx_go :: "ctx_error \<Rightarrow> go_error" where
  "ctx_go CtxCanceled = Sentinel ContextCanceled"
| "ctx_go CtxDeadlineExceeded = Sentinel ContextDeadlineExceeded"

record 'w ActionHandler =
  ExecuteAction :: "ActionDef option \<Rightarrow> 'w \<Rightarrow> go_error option \<times> 'w"
  ExecuteCondition :: "CompiledCondition \<Rightarrow> 'w \<Rightarrow> bool \<times> 'w"
  RegisterListen :: "ListenRef list \<Rightarrow> 'w \<Rightarrow> go_error option \<times> 'w"
  CooperativeSleep :: "int \<Rightarrow> 'w \<Rightarrow> go_error option \<times> 'w"
  CtxErr :: "'w \<Rightarrow> ctx_error option \<times> 'w"
  RandIntn :: "int \<Rightarrow> 'w \<Rightarrow> int \<times> 'w"
  RecordPendingCanceled :: "(string \<Rightarrow> 'w \<Rightarrow> 'w) option"

record 'w Executor =
  exFlow :: TaskFlow
  exHandler :: "'w ActionHandler"
  defaultDelayMs :: int

definition NewExecutor :: "TaskFlow \<Rightarrow> 'w ActionHandler \<Rightarrow> int \<Rightarrow> 'w Executor" where
  "NewExecutor fl h delay =
     \<lparr>exFlow = fl, exHandler = h, defaultDelayMs = (if delay = 0 then 1000 else delay)\<rparr>"

datatype 'w outcome = Done "go_error option" 'w | Panicked | NoFuel

definition obind :: "'w outcome \<Rightarrow> (go_error option \<Rightarrow> 'w \<Rightarrow> 'w outcome) \<Rightarrow> 'w outcome" where
  "obind m f = (case m of Done e w \<Rightarrow> f e w | Panicked \<Rightarrow> Panicked | NoFuel \<Rightarrow> NoFuel)"

text \<open>The early return on an error.\<close>

definition otry :: "'w outcome \<Rightarrow> ('w \<Rightarrow> 'w outcome) \<Rightarrow> 'w outcome" where
  "otry m f = obind m (\<lambda>e w. if e \<noteq> None then Done e w else f w)"

definition lift_op :: "go_error option \<times> 'w \<Rightarrow> 'w outcome" where
  "lift_op r = Done (fst r) (snd r)"

type_synonym 'w exec_table = "string \<Rightarrow> 'w \<Rightarrow> 'w outcome"

definition milliseconds :: "int \<Rightarrow> int" where
  "milliseconds ms = wrap64 (ms * 1000000)"

definition nodeDelay :: "'w Executor \<Rightarrow> Node \<Rightarrow> 'w \<Rightarrow> 'w outcome" where
  "nodeDelay e node w =
     (let ms = (if DelayMs node = 0 then defaultDelayMs e else DelayMs node) in
      if ms < 0 then Done None w else lift_op (CooperativeSleep (exHandler e) (milliseconds ms) w))"

definition retryDelay :: "'w Executor \<Rightarrow> RetryDef option \<Rightarrow> 'w \<Rightarrow> 'w outcome" where
  "retryDelay e retry w = (case retry of
     None \<Rightarrow> Done None w
   | Some r \<Rightarrow> if RetryDelayMs r \<le> 0 then Done None w
       else lift_op (CooperativeSleep (exHandler e) (milliseconds (RetryDelayMs r)) w))"

definition StrategyResume :: string where "StrategyResume = ''resume''"
definition StrategyAbort :: string where "StrategyAbort = ''abort''"
definition StrategySkip :: string where "StrategySkip = ''skip''"

definition onErrorStrategy :: "Node \<Rightarrow> string" where
  "onErrorStrategy node = (case OnError node of
     None \<Rightarrow> StrategyResume
   | Some oe \<Rightarrow> if Strategy oe = [] then StrategyResume else Strategy oe)"

definition onErrorMaxRetries :: "Node \<Rightarrow> int" where
  "onErrorMaxRetries node = (case OnError node of
     None \<Rightarrow> 0
   | Some oe \<Rightarrow> (case Retry oe of
       None \<Rightarrow> 0
     | Some r \<Rightarrow> if MaxRetries r \<le> 0 then 0 else MaxRetries r))"

definition actionErrorCode :: "go_error \<Rightarrow> ErrorCode option" where
  "actionErrorCode err = map_option fst (as_ActionError err)"

definition isIgnoredActionError :: "Node \<Rightarrow> go_error \<Rightarrow> bool" where
  "isIgnoredActionError node err = (case OnError node of
     None \<Rightarrow> False
   | Some oe \<Rightarrow> if IgnoreCodes oe = [] then False
       else (case actionErrorCode err of
         None \<Rightarrow> False
       | Some code \<Rightarrow> code \<in> set (IgnoreCodes oe)))"

definition normalizeActionCancel :: "go_error \<Rightarrow> go_error option" where
  "normalizeActionCancel err =
     (if is_ctx err then Some err
      else if isCanceledError (Some err) then Some (Sentinel ContextCanceled)
      else None)"

definition applyOnErrorStrategy :: "string \<Rightarrow> go_error \<Rightarrow> go_error option" where
  "applyOnErrorStrategy strategy abortErr =
     (if strategy = StrategyAbort then Some abortErr
      else if strategy = StrategySkip then Some (Sentinel ErrSkip)
      else None)"

definition registerActionListens :: "'w Executor \<Rightarrow> Node \<Rightarrow> 'w \<Rightarrow> 'w outcome" where
  "registerActionListens e node w =
     (if ListenRefs node = [] then Done None w
      else obind (lift_op (RegisterListen (exHandler e) (ListenRefs node) w)) (\<lambda>err w. case err of
          None \<Rightarrow> Done None w
        | Some er \<Rightarrow>
            if is_ctx er then Done (Some er) w
            else otry (nodeDelay e node w) (\<lambda>w.
              Done (applyOnErrorStrategy (onErrorStrategy node)
                (NewActionError ErrListenRegister (''action='' @ Action node) [er])) w)))"

definition finishActionSuccess :: "'w Executor \<Rightarrow> Node \<Rightarrow> ActionDef option \<Rightarrow> 'w \<Rightarrow> 'w outcome" where
  "finishActionSuccess e node ad w = (case ad of
     None \<Rightarrow> Panicked
   | Some _ \<Rightarrow> otry (registerActionListens e node w) (\<lambda>w. nodeDelay e node w))"

definition finishActionAccepted :: "'w Executor \<Rightarrow> Node \<Rightarrow> ActionDef option \<Rightarrow> 'w \<Rightarrow> 'w outcome" where
  "finishActionAccepted e node ad w = (case ad of
     None \<Rightarrow> Panicked
   | Some _ \<Rightarrow> otry (registerActionListens e node w) (\<lambda>w. nodeDelay e node w))"

definition executeListenOnly :: "'w Executor \<Rightarrow> Node \<Rightarrow> 'w \<Rightarrow> 'w outcome" where
  "executeListenOnly e node w =
     (if ListenRefs node = [] then Done None w
      else otry (registerActionListens e node w) (\<lambda>w. nodeDelay e node w))"

definition executeOnErrorHandler :: "'w exec_table \<Rightarrow> Node \<Rightarrow> 'w \<Rightarrow> 'w outcome" where
  "executeOnErrorHandler self node w = (case OnError node of
     None \<Rightarrow> Done None w
   | Some oe \<Rightarrow> if Handler oe = [] then Done None w else self (Handler oe) w)"

text \<open>One execution of the action; \<open>failed\<close> is what follows a failure that is to be handled.\<close>

definition action_attempt :: "'w Executor \<Rightarrow> 'w exec_table \<Rightarrow> Node \<Rightarrow> ActionDef option \<Rightarrow>
    (go_error \<Rightarrow> 'w \<Rightarrow> 'w outcome) \<Rightarrow> 'w \<Rightarrow> 'w outcome" where
  "action_attempt e self node ad failed w =
     obind (lift_op (ExecuteAction (exHandler e) ad w)) (\<lambda>r w. case r of
       None \<Rightarrow> finishActionSuccess e node ad w
     | Some err \<Rightarrow> (case normalizeActionCancel err of
         Some cancelErr \<Rightarrow> Done (Some cancelErr) w
       | None \<Rightarrow>
           if isIgnoredActionError node err then finishActionAccepted e node ad w
           else if ad = None then Panicked
           else obind (executeOnErrorHandler self node w) (\<lambda>herr w. case herr of
               None \<Rightarrow> failed err w
             | Some her \<Rightarrow> if errors_Is her ErrSkip then failed err w else Done (Some her) w)))"

definition action_give_up :: "'w Executor \<Rightarrow> Node \<Rightarrow> go_error \<Rightarrow> 'w \<Rightarrow> 'w outcome" where
  "action_give_up e node err w = otry (nodeDelay e node w) (\<lambda>w.
     Done (applyOnErrorStrategy (onErrorStrategy node)
       (NewActionError ErrExecFailed (''action='' @ Action node) [err])) w)"

definition action_retry :: "'w Executor \<Rightarrow> Node \<Rightarrow> 'w \<Rightarrow> ('w \<Rightarrow> 'w outcome) \<Rightarrow> 'w outcome" where
  "action_retry e node w again = (case OnError node of
     None \<Rightarrow> Panicked
   | Some oe \<Rightarrow> otry (retryDelay e (Retry oe) w) again)"

text \<open>The retry loop, on the number of retries left.\<close>

primrec action_loop :: "'w Executor \<Rightarrow> 'w exec_table \<Rightarrow> Node \<Rightarrow> ActionDef option \<Rightarrow> nat \<Rightarrow> 'w \<Rightarrow> 'w outcome" where
  "action_loop e self node ad 0 w = action_attempt e self node ad (action_give_up e node) w"
| "action_loop e self node ad (Suc left) w =
     action_attempt e self node ad (\<lambda>err w. action_retry e node w (action_loop e self node ad left)) w"

definition executeAction :: "'w Executor \<Rightarrow> 'w exec_table \<Rightarrow> Node \<Rightarrow> 'w \<Rightarrow> 'w outcome" where
  "executeAction e self node w =
     (if Action node = [] then executeListenOnly e node w
      else (case flow_action (exFlow e) (Action node) of
          None \<Rightarrow> Done (Some (Wrapped (Action node) (Sentinel ErrActionNotFound))) w
        | Some ad \<Rightarrow> action_loop e self node ad (nat (onErrorMaxRetries node)) w))"

text \<open>The samples for the actions a cancelled sequence did not reach; \<open>None\<close> is a nil node.\<close>

primrec reportRemainingCanceled :: "'w Executor \<Rightarrow> string list \<Rightarrow> 'w \<Rightarrow> 'w option" where
  "reportRemainingCanceled e [] w = Some w"
| "reportRemainingCanceled e (nid # ids) w =
     (case RecordPendingCanceled (exHandler e) of
        None \<Rightarrow> Some w
      | Some rec \<Rightarrow> (case flow_node (exFlow e) nid of
          None \<Rightarrow> reportRemainingCanceled e ids w
        | Some None \<Rightarrow> None
        | Some (Some n) \<Rightarrow>
            if Type n \<noteq> NodeAction \<or> Action n = [] then reportRemainingCanceled e ids w
            else reportRemainingCanceled e ids (rec (Action n) w)))"

definition canceled_with :: "'w Executor \<Rightarrow> string list \<Rightarrow> go_error \<Rightarrow> 'w \<Rightarrow> 'w outcome" where
  "canceled_with e ids err w = (case reportRemainingCanceled e ids w of
     None \<Rightarrow> Panicked | Some w \<Rightarrow> Done (Some err) w)"

primrec seq_loop :: "'w Executor \<Rightarrow> 'w exec_table \<Rightarrow> string list \<Rightarrow> 'w \<Rightarrow> 'w outcome" where
  "seq_loop e self [] w = Done None w"
| "seq_loop e self (c # cs) w = (case CtxErr (exHandler e) w of
     (Some ce, w) \<Rightarrow> canceled_with e (c # cs) (ctx_go ce) w
   | (None, w) \<Rightarrow> obind (self c w) (\<lambda>err w. case err of
       None \<Rightarrow> seq_loop e self cs w
     | Some er \<Rightarrow>
         if errors_Is er ErrSkip then Done None w
         else if is_ctx er then canceled_with e cs er w
         else Done (Some er) w))"

definition executeSequence :: "'w Executor \<Rightarrow> 'w exec_table \<Rightarrow> Node \<Rightarrow> 'w \<Rightarrow> 'w outcome" where
  "executeSequence e self node w = seq_loop e self (Next node) w"

definition evaluatePreparedCondition ::
    "'w Executor \<Rightarrow> string \<Rightarrow> CompiledCondition option \<Rightarrow> 'w \<Rightarrow> bool \<times> 'w" where
  "evaluatePreparedCondition e source condition w =
     (if trim_space source = [] then (True, w)
      else (case condition of
          None \<Rightarrow> (False, w)
        | Some c \<Rightarrow> ExecuteCondition (exHandler e) c w))"

definition checkBreak :: "'w Executor \<Rightarrow> Node \<Rightarrow> 'w \<Rightarrow> bool \<times> 'w" where
  "checkBreak e node w =
     (if BreakCondition node = [] then (False, w)
      else evaluatePreparedCondition e (BreakCondition node) (PreparedBreakCondition node) w)"

definition loop_pre :: "'w Executor \<Rightarrow> Node \<Rightarrow> 'w \<Rightarrow> bool \<times> 'w" where
  "loop_pre e node w =
     (if Condition node = [] then (True, w)
      else evaluatePreparedCondition e (Condition node) (PreparedCondition node) w)"

definition loop_post :: "'w Executor \<Rightarrow> Node \<Rightarrow> 'w \<Rightarrow> ('w \<Rightarrow> 'w outcome) \<Rightarrow> 'w outcome" where
  "loop_post e node w again = (case checkBreak e node w of (b, w) \<Rightarrow> if b then Done None w else again w)"

primrec loop_iter :: "'w Executor \<Rightarrow> 'w exec_table \<Rightarrow> Node \<Rightarrow> nat \<Rightarrow> int \<Rightarrow> 'w \<Rightarrow> 'w outcome" where
  "loop_iter e self node 0 i w = NoFuel"
| "loop_iter e self node (Suc k) i w =
     (if \<not> (LoopCount node < 0 \<or> i < LoopCount node) then Done None w
      else (case CtxErr (exHandler e) w of
        (Some ce, w) \<Rightarrow> Done (Some (ctx_go ce)) w
      | (None, w) \<Rightarrow> (case loop_pre e node w of (ok, w) \<Rightarrow>
          if \<not> ok then Done None w
          else obind (self (Body node) w) (\<lambda>err w. case err of
              None \<Rightarrow> loop_post e node w (loop_iter e self node k (i + 1))
            | Some er \<Rightarrow>
                if errors_Is er ErrBreak \<or> errors_Is er ErrSkip then Done None w
                else if errors_Is er ErrContinue then loop_post e node w (loop_iter e self node k (i + 1))
                else Done (Some er) w))))"

definition executeLoop :: "'w Executor \<Rightarrow> 'w exec_table \<Rightarrow> nat \<Rightarrow> Node \<Rightarrow> 'w \<Rightarrow> 'w outcome" where
  "executeLoop e self budget node w =
     (if LoopCount node = 0 then Done None w else loop_iter e self node budget 0 w)"

text \<open>Running a branch: a skip ends it, anything else is returned.\<close>

definition run_branch :: "'w exec_table \<Rightarrow> string \<Rightarrow> 'w \<Rightarrow> 'w outcome" where
  "run_branch self nid w = obind (self nid w) (\<lambda>err w. case err of
     None \<Rightarrow> Done None w
   | Some er \<Rightarrow> if errors_Is er ErrSkip then Done None w else Done (Some er) w)"

definition executeBoolean :: "'w Executor \<Rightarrow> 'w exec_table \<Rightarrow> Node \<Rightarrow> 'w \<Rightarrow> 'w outcome" where
  "executeBoolean e self node w =
     (case evaluatePreparedCondition e (Condition node) (PreparedCondition node) w of (result, w) \<Rightarrow>
        let targetID = (if result then TrueNext node else FalseNext node) in
        if targetID = [] then Done None w else run_branch self targetID w)"

primrec switch_loop :: "'w Executor \<Rightarrow> 'w exec_table \<Rightarrow> Node \<Rightarrow> SwitchCase list \<Rightarrow> 'w \<Rightarrow> 'w outcome" where
  "switch_loop e self node [] w =
     (if DefaultNext node = [] then Done None w else run_branch self (DefaultNext node) w)"
| "switch_loop e self node (c # cs) w = (case CtxErr (exHandler e) w of
     (Some ce, w) \<Rightarrow> Done (Some (ctx_go ce)) w
   | (None, w) \<Rightarrow> (case evaluatePreparedCondition e (scCondition c) (CasePreparedCondition c) w of (hit, w) \<Rightarrow>
       if \<not> hit then switch_loop e self node cs w
       else if scNext c = [] then Done None w
       else run_branch self (scNext c) w))"

definition executeSwitch :: "'w Executor \<Rightarrow> 'w exec_table \<Rightarrow> Node \<Rightarrow> 'w \<Rightarrow> 'w outcome" where
  "executeSwitch e self node w = switch_loop e self node (Cases node) w"

primrec weight_total :: "int \<Rightarrow> WeightedOption list \<Rightarrow> int" where
  "weight_total t [] = t"
| "weight_total t (opt # opts) =
     weight_total (wrap64 (t + (if woWeight opt < 0 then 0 else woWeight opt))) opts"

primrec weight_pick :: "int \<Rightarrow> int \<Rightarrow> WeightedOption list \<Rightarrow> WeightedOption option" where
  "weight_pick r cumulative [] = None"
| "weight_pick r cumulative (opt # opts) =
     (let cumulative = wrap64 (cumulative + max (woWeight opt) 0) in
      if r < cumulative then Some opt else weight_pick r cumulative opts)"

definition executeWeighted :: "'w Executor \<Rightarrow> 'w exec_table \<Rightarrow> Node \<Rightarrow> 'w \<Rightarrow> 'w outcome" where
  "executeWeighted e self node w =
     (if Options node = [] then Done None w
      else (let total = weight_total 0 (Options node) in
        if total \<le> 0 then Done (Some (Wrapped ''options'' (Sentinel ErrWeightedNoBranch))) w
        else (case RandIntn (exHandler e) total w of (r, w) \<Rightarrow>
          (case weight_pick r 0 (Options node) of
             Some opt \<Rightarrow> run_branch self (woNode opt) w
           | None \<Rightarrow> Done (Some (Wrapped ''no branch hit'' (Sentinel ErrWeightedNoBranch))) w))))"

definition wait_ms :: "'w Executor \<Rightarrow> Node \<Rightarrow> 'w \<Rightarrow> int \<times> 'w" where
  "wait_ms e node w =
     (if WaitMin node > 0 \<and> WaitMax node > 0 then
        (if WaitMin node \<ge> WaitMax node then (WaitMin node, w)
         else (case RandIntn (exHandler e) (WaitMax node - WaitMin node + 1) w of
             (r, w) \<Rightarrow> (r + WaitMin node, w)))
      else if WaitMin node > 0 \<or> WaitMax node > 0 then (0, w)
      else if WaitMs node > 0 then (WaitMs node, w)
      else (0, w))"

definition executeWait :: "'w Executor \<Rightarrow> 'w exec_table \<Rightarrow> Node \<Rightarrow> 'w \<Rightarrow> 'w outcome" where
  "executeWait e self node w = (case wait_ms e node w of (ms, w) \<Rightarrow>
     otry (if ms > 0 then lift_op (CooperativeSleep (exHandler e) (milliseconds ms) w) else Done None w)
       (\<lambda>w. if Then node = [] then Done None w else self (Then node) w))"

definition executeNode :: "'w Executor \<Rightarrow> 'w exec_table \<Rightarrow> nat \<Rightarrow> 'w exec_table" where
  "executeNode e self budget nid w = (case CtxErr (exHandler e) w of
     (Some ce, w) \<Rightarrow> Done (Some (ctx_go ce)) w
   | (None, w) \<Rightarrow> (case flow_node (exFlow e) nid of
       None \<Rightarrow> Done (Some (Wrapped nid (Sentinel ErrNodeNotFound))) w
     | Some None \<Rightarrow> Panicked
     | Some (Some node) \<Rightarrow> (case Type node of
         NodeSequence \<Rightarrow> executeSequence e self node w
       | NodeAction \<Rightarrow> executeAction e self node w
       | NodeLoop \<Rightarrow> executeLoop e self budget node w
       | NodeBoolean \<Rightarrow> executeBoolean e self node w
       | NodeSwitch \<Rightarrow> executeSwitch e self node w
       | NodeWeighted \<Rightarrow> executeWeighted e self node w
       | NodeWait \<Rightarrow> executeWait e self node w
       | NodeBreak \<Rightarrow> Done (Some (Sentinel ErrBreak)) w
       | NodeContinue \<Rightarrow> Done (Some (Sentinel ErrContinue)) w
       | NodeOther t \<Rightarrow> Done (Some (Wrapped t (Sentinel ErrUnknownNodeType))) w)))"

primrec exec_at :: "'w Executor \<Rightarrow> nat \<Rightarrow> 'w exec_table" where
  "exec_at e 0 = (\<lambda>nid w. NoFuel)"
| "exec_at e (Suc n) = executeNode e (exec_at e n) n"

definition Run :: "'w Executor \<Rightarrow> nat \<Rightarrow> 'w \<Rightarrow> 'w outcome" where
  "Run e fuel w = exec_at e fuel ''main'' w"

subsection \<open>Control signals stay inside the construct that handles them\<close>

definition escapes :: "sentinel \<Rightarrow> 'w outcome \<Rightarrow> bool" where
  "escapes s m \<longleftrightarrow> (\<exists>er w. m = Done (Some er) w \<and> errors_Is er s)"

lemma escapes_simps [simp]:
  "escapes s (Done None w) \<longleftrightarrow> False" "escapes s (Done (Some er) w) \<longleftrightarrow> errors_Is er s"
  "escapes s Panicked \<longleftrightarrow> False" "escapes s NoFuel \<longleftrightarrow> False"
  by (auto simp: escapes_def)

lemma escapes_obind:
  "(\<And>e w. m = Done e w \<Longrightarrow> \<not> escapes s (f e w)) \<Longrightarrow> \<not> escapes s (obind m f)"
  by (cases m) (auto simp: obind_def)

definition is_signal :: "sentinel \<Rightarrow> bool" where
  "is_signal s \<longleftrightarrow> s \<in> {ErrBreak, ErrContinue, ErrSkip}"

lemma ctx_go_no_signal [simp]: "is_signal s \<Longrightarrow> \<not> errors_Is (ctx_go ce) s"
  by (cases ce) (auto simp: is_signal_def)

lemma skip_signal [simp]: "is_signal ErrSkip" "is_signal ErrBreak" "is_signal ErrContinue"
  by (simp_all add: is_signal_def)

lemma canceled_with_escapes: "escapes s (canceled_with e ids err w) \<Longrightarrow> errors_Is err s"
  by (auto simp: canceled_with_def split: option.splits)

lemma seq_loop_skip: "\<not> escapes ErrSkip (seq_loop e self ids w)"
proof (induction ids arbitrary: w)
  case (Cons c cs)
  then show ?case
    by (auto dest: canceled_with_escapes intro!: escapes_obind split: prod.split option.splits if_splits)
qed simp

lemma run_branch_skip: "\<not> escapes ErrSkip (run_branch self nid w)"
  by (auto simp: run_branch_def intro!: escapes_obind split: option.splits if_splits)

lemma switch_loop_skip: "\<not> escapes ErrSkip (switch_loop e self node cs w)"
  by (induction cs arbitrary: w) (auto simp: run_branch_skip split: prod.split option.split)

lemma loop_iter_signal: "is_signal s \<Longrightarrow> \<not> escapes s (loop_iter e self node k i w)"
proof (induction k arbitrary: i w)
  case (Suc k)
  have post: "\<not> escapes s (loop_post e node w (loop_iter e self node k (i + 1)))" for w
    using Suc by (auto simp: loop_post_def split: prod.split)
  have body: "\<not> escapes s (obind (self (Body node) w) (\<lambda>err w. case err of
              None \<Rightarrow> loop_post e node w (loop_iter e self node k (i + 1))
            | Some er \<Rightarrow>
                if errors_Is er ErrBreak \<or> errors_Is er ErrSkip then Done None w
                else if errors_Is er ErrContinue then loop_post e node w (loop_iter e self node k (i + 1))
                else Done (Some er) w))" for w
    using Suc.prems by (intro escapes_obind) (auto simp: is_signal_def post split: option.split)
  show ?case
    using Suc.prems body by (auto split: prod.split option.split)
qed simp

lemma weighted_skip: "\<not> escapes ErrSkip (executeWeighted e self node w)"
  by (auto simp: executeWeighted_def run_branch_skip Let_def split: prod.split option.split)

lemma boolean_skip: "\<not> escapes ErrSkip (executeBoolean e self node w)"
  by (auto simp: executeBoolean_def run_branch_skip Let_def split: prod.split)

text \<open>
  C24. A skip never leaves the sequence, loop, boolean, switch or weighted node it occurs in, and
  break and continue never leave a loop, however deep the nodes below nest.
\<close>

theorem signals_contained:
  assumes "flow_node (exFlow e) nid = Some (Some node)"
  shows "(Type node \<in> {NodeSequence, NodeLoop, NodeBoolean, NodeSwitch, NodeWeighted} \<longrightarrow>
      \<not> escapes ErrSkip (exec_at e n nid w)) \<and>
    (Type node = NodeLoop \<longrightarrow>
      \<not> escapes ErrBreak (exec_at e n nid w) \<and> \<not> escapes ErrContinue (exec_at e n nid w))"
proof (cases n)
  case (Suc m)
  obtain ce w' where ctx: "CtxErr (exHandler e) w = (ce, w')" by fastforce
  show ?thesis
  proof (cases ce)
    case None
    have loop: "is_signal s \<Longrightarrow> \<not> escapes s (executeLoop e self m node w')" for s self
      by (simp add: executeLoop_def loop_iter_signal)
    show ?thesis
      using assms None
      by (auto simp: Suc ctx executeNode_def executeSequence_def executeSwitch_def
          seq_loop_skip switch_loop_skip loop weighted_skip boolean_skip)
  qed (simp add: Suc ctx executeNode_def)
qed simp

subsection \<open>Weighted choice\<close>

definition weights :: "WeightedOption list \<Rightarrow> int" where
  "weights opts = (\<Sum>opt\<leftarrow>opts. max (woWeight opt) 0)"

lemma weights_Cons [simp]: "weights (opt # opts) = max (woWeight opt) 0 + weights opts"
  "weights [] = 0"
  by (simp_all add: weights_def)

lemma weights_nonneg: "0 \<le> weights opts"
  by (induction opts) auto

lemma weight_total_sum:
  "0 \<le> t \<Longrightarrow> is_i64 (t + weights opts) \<Longrightarrow> weight_total t opts = t + weights opts"
proof (induction opts arbitrary: t)
  case (Cons opt opts)
  let ?t = "t + max (woWeight opt) 0"
  have "is_i64 ?t" "0 \<le> ?t" 
    using Cons.prems weights_nonneg [of opts] unfolding is_i64_def weights_Cons by linarith+
  then have "weight_total ?t opts = ?t + weights opts" using Cons by (simp add: algebra_simps)
  moreover have "t + (if woWeight opt < 0 then 0 else woWeight opt) = ?t" by (simp add: max_def)
  ultimately show ?case using \<open>is_i64 ?t\<close> by (simp add: wrap64_id)
qed simp

text \<open>The values of the random number that select a given option are exactly its weight many.\<close>

lemma weight_pick_card:
  assumes "0 \<le> c" "is_i64 (c + weights opts)"
  shows "(\<forall>r. c \<le> r \<and> r < c + weights opts \<longrightarrow>
      (\<exists>opt \<in> set opts. weight_pick r c opts = Some opt \<and> 0 < woWeight opt)) \<and>
    int (card {r. c \<le> r \<and> r < c + weights opts \<and> weight_pick r c opts = Some opt}) =
      weights (filter (\<lambda>x. x = opt) opts)"
  using assms
proof (induction opts arbitrary: c)
  case Nil
  have "{r. c \<le> r \<and> r < c + weights [] \<and> weight_pick r c [] = Some opt} = {}" by auto
  then show ?case by simp
next
  case (Cons x xs)
  let ?d = "c + max (woWeight x) 0"
  have d: "is_i64 ?d" "0 \<le> ?d" "is_i64 (?d + weights xs)"
    using Cons.prems weights_nonneg [of xs] unfolding is_i64_def weights_Cons by linarith+
  note IH = Cons.IH [OF d(2,3)]
  have pick: "weight_pick r c (x # xs) = (if r < ?d then Some x else weight_pick r ?d xs)" for r
    using d(1) by (simp add: wrap64_id)
  let ?A = "{r. c \<le> r \<and> r < ?d \<and> x = opt}"
  let ?B = "{r. ?d \<le> r \<and> r < ?d + weights xs \<and> weight_pick r ?d xs = Some opt}"
  have eq: "{r. c \<le> r \<and> r < c + weights (x # xs) \<and> weight_pick r c (x # xs) = Some opt} = ?A \<union> ?B"
    unfolding pick using weights_nonneg [of xs] by (auto simp: max_def split: if_splits)
  have "finite ?A" "finite ?B"
    by (rule finite_subset [of _ "{c..<?d}"]; force)
       (rule finite_subset [of _ "{?d..<?d + weights xs}"]; force)
  then have "card (?A \<union> ?B) = card ?A + card ?B" by (rule card_Un_disjoint) auto
  moreover have "?A = (if x = opt then {c..<?d} else {})" by auto
  then have "int (card ?A) = (if x = opt then max (woWeight x) 0 else 0)" by simp
  moreover have "int (card ?B) = weights (filter (\<lambda>x. x = opt) xs)" using IH by blast
  moreover have "weights (filter (\<lambda>x. x = opt) (x # xs)) =
      (if x = opt then max (woWeight x) 0 else 0) + weights (filter (\<lambda>x. x = opt) xs)" by simp
  ultimately have "int (card {r. c \<le> r \<and> r < c + weights (x # xs) \<and> weight_pick r c (x # xs) = Some opt}) =
      weights (filter (\<lambda>x. x = opt) (x # xs))"
    unfolding eq by (simp only: of_nat_add)
  moreover have "\<exists>opt \<in> set (x # xs). weight_pick r c (x # xs) = Some opt \<and> 0 < woWeight opt"
    if r: "c \<le> r" "r < c + weights (x # xs)" for r
  proof (cases "r < ?d")
    case True
    then show ?thesis unfolding pick using r(1) by (auto simp: max_def split: if_splits)
  next
    case False
    then show ?thesis unfolding pick using r IH by force
  qed
  ultimately show ?case by blast
qed

text \<open>
  A weighted node whose weights sum to a positive \<open>int\<close> always takes a branch with a positive
  weight, and each option is taken for exactly as many values of the random number as its weight:
  the shares of the traffic are the configured ones.
\<close>

theorem weighted_shares:
  assumes "0 < weights opts" "weights opts < 2 ^ 63"
  shows "weight_total 0 opts = weights opts \<and>
    (\<forall>r. 0 \<le> r \<and> r < weight_total 0 opts \<longrightarrow>
      (\<exists>opt \<in> set opts. weight_pick r 0 opts = Some opt \<and> 0 < woWeight opt)) \<and>
    int (card {r. 0 \<le> r \<and> r < weight_total 0 opts \<and> weight_pick r 0 opts = Some opt}) =
      weights (filter (\<lambda>x. x = opt) opts)"
proof -
  have i: "is_i64 (0 + weights opts)" using assms by (simp add: is_i64_def)
  have "weight_total 0 opts = weights opts" using weight_total_sum [OF _ i] by simp
  then show ?thesis using weight_pick_card [OF _ i, of opt] by simp
qed

definition sample_options :: "WeightedOption list" where
  "sample_options = [\<lparr>woNode = ''a'', woWeight = 3\<rparr>, \<lparr>woNode = ''b'', woWeight = -5\<rparr>,
     \<lparr>woNode = ''c'', woWeight = 7\<rparr>]"

theorem weighted_shares_witness:
  "int (card {r. 0 \<le> r \<and> r < weight_total 0 sample_options \<and>
      weight_pick r 0 sample_options = Some \<lparr>woNode = ''c'', woWeight = 7\<rparr>}) = 7"
proof -
  have w: "weights sample_options = 10"
      "weights (filter (\<lambda>x. x = \<lparr>woNode = ''c'', woWeight = 7\<rparr>) sample_options) = 7"
    by (simp_all add: sample_options_def)
  have "int (card {r. 0 \<le> r \<and> r < weight_total 0 sample_options \<and>
      weight_pick r 0 sample_options = Some \<lparr>woNode = ''c'', woWeight = 7\<rparr>}) =
      weights (filter (\<lambda>x. x = \<lparr>woNode = ''c'', woWeight = 7\<rparr>) sample_options)"
    by (intro weighted_shares [THEN conjunct2, THEN conjunct2]) (simp_all add: w(1))
  then show ?thesis by (simp only: w(2))
qed

subsection \<open>Acyclic flows run to completion\<close>

definition calls :: "Node \<Rightarrow> string list" where
  "calls n = (case Type n of
     NodeSequence \<Rightarrow> Next n
   | NodeAction \<Rightarrow> (case OnError n of None \<Rightarrow> [] | Some oe \<Rightarrow> [Handler oe])
   | NodeLoop \<Rightarrow> [Body n]
   | NodeBoolean \<Rightarrow> [TrueNext n, FalseNext n]
   | NodeSwitch \<Rightarrow> DefaultNext n # map scNext (Cases n)
   | NodeWeighted \<Rightarrow> map woNode (Options n)
   | NodeWait \<Rightarrow> [Then n]
   | _ \<Rightarrow> [])"

text \<open>Every call goes down in \<open>rank\<close>, loops have at most \<open>L\<close> iterations, no map entry is nil.\<close>

definition bounded_node :: "(string \<Rightarrow> nat) \<Rightarrow> nat \<Rightarrow> string \<times> Node option \<Rightarrow> bool" where
  "bounded_node rank L nn \<longleftrightarrow> (case snd nn of
     None \<Rightarrow> False
   | Some n \<Rightarrow> list_all (\<lambda>c. rank c < rank (fst nn)) (calls n) \<and>
       (Type n = NodeLoop \<longrightarrow> 0 \<le> LoopCount n \<and> LoopCount n \<le> int L))"

definition bounded_flow :: "(string \<Rightarrow> nat) \<Rightarrow> nat \<Rightarrow> TaskFlow \<Rightarrow> bool" where
  "bounded_flow rank L fl \<longleftrightarrow> list_all (bounded_node rank L) (Nodes fl) \<and>
     list_all (\<lambda>na. snd na \<noteq> None) (Actions fl)"

definition fine :: "'w outcome \<Rightarrow> bool" where
  "fine m \<longleftrightarrow> (case m of Done e w \<Rightarrow> True | _ \<Rightarrow> False)"

lemma fine_simps [simp]: "fine (Done e w)" "\<not> fine Panicked" "\<not> fine NoFuel" "fine (lift_op r)"
  by (simp_all add: fine_def lift_op_def)

lemma fine_obind: "fine m \<Longrightarrow> (\<And>e w. fine (f e w)) \<Longrightarrow> fine (obind m f)"
  by (cases m) (simp_all add: obind_def)

lemma fine_otry: "fine m \<Longrightarrow> (\<And>w. fine (f w)) \<Longrightarrow> fine (otry m f)"
  by (simp add: otry_def fine_obind)

lemma fine_nodeDelay [simp]: "fine (nodeDelay e node w)"
  by (simp add: nodeDelay_def Let_def)

lemma fine_retryDelay [simp]: "fine (retryDelay e r w)"
  by (simp add: retryDelay_def split: option.split)

lemma fine_register [simp]: "fine (registerActionListens e node w)"
  by (auto simp: registerActionListens_def intro!: fine_obind fine_otry split: option.split)

lemma fine_finish [simp]:
  "fine (finishActionSuccess e node (Some ad) w)" "fine (finishActionAccepted e node (Some ad) w)"
  "fine (executeListenOnly e node w)"
  by (auto simp: finishActionSuccess_def finishActionAccepted_def executeListenOnly_def intro!: fine_otry)

lemma fine_attempt:
  assumes "\<And>w. fine (executeOnErrorHandler self node w)" "\<And>err w. fine (failed err w)"
  shows "fine (action_attempt e self node (Some ad) failed w)"
  unfolding action_attempt_def
  by (intro fine_obind) (auto intro!: fine_obind assms split: option.split)

lemma fine_action_loop:
  assumes h: "\<And>w. fine (executeOnErrorHandler self node w)" and r: "left \<le> nat (onErrorMaxRetries node)"
  shows "fine (action_loop e self node (Some ad) left w)"
  using r
proof (induction left arbitrary: w)
  case 0
  then show ?case by (auto simp: action_give_up_def intro!: fine_attempt fine_otry h)
next
  case (Suc left)
  obtain oe where "OnError node = Some oe" using Suc.prems by (auto simp: onErrorMaxRetries_def split: option.splits)
  then show ?case
    using Suc by (auto simp: action_retry_def intro!: fine_attempt fine_otry h)
qed

lemma no_nil_action: "bounded_flow rank L fl \<Longrightarrow> flow_action fl a = Some ao \<Longrightarrow> \<exists>ad. ao = Some ad"
  by (auto simp: bounded_flow_def flow_action_def list_all_iff dest!: map_of_SomeD)

lemma bounded_flow_node:
  "bounded_flow rank L fl \<Longrightarrow> flow_node fl nid = Some no \<Longrightarrow> bounded_node rank L (nid, no)"
  by (auto simp: bounded_flow_def flow_node_def list_all_iff dest!: map_of_SomeD)

lemma fine_report: "bounded_flow rank L (exFlow e) \<Longrightarrow> fine (canceled_with e ids err w)"
proof -
  assume b: "bounded_flow rank L (exFlow e)"
  have "reportRemainingCanceled e ids w \<noteq> None"
  proof (induction ids arbitrary: w)
    case (Cons nid ids)
    then show ?case
      using bounded_flow_node [OF b, of nid]
      by (auto simp: bounded_node_def split: option.split)
  qed simp
  then show ?thesis by (auto simp: canceled_with_def)
qed

lemma fine_seq:
  "bounded_flow rank L (exFlow e) \<Longrightarrow> (\<And>c w. c \<in> set ids \<Longrightarrow> fine (self c w)) \<Longrightarrow> fine (seq_loop e self ids w)"
  by (induction ids arbitrary: w)
     (auto intro!: fine_obind fine_report simp del: fine_simps(4) split: prod.split option.split)

lemma fine_branch: "(\<And>w. fine (self nid w)) \<Longrightarrow> fine (run_branch self nid w)"
  by (auto simp: run_branch_def intro!: fine_obind split: option.split)

lemma fine_switch:
  "(\<And>c w. c \<in> set (map scNext cs) \<Longrightarrow> fine (self c w)) \<Longrightarrow> (\<And>w. fine (self (DefaultNext node) w)) \<Longrightarrow>
   fine (switch_loop e self node cs w)"
  by (induction cs arbitrary: w) (auto intro!: fine_branch split: prod.split option.split)

lemma weight_pick_mem: "weight_pick r c opts = Some opt \<Longrightarrow> opt \<in> set opts"
  by (induction opts arbitrary: c) (auto simp: Let_def split: if_splits)

lemma fine_weighted:
  assumes "\<And>c w. c \<in> set (map woNode (Options node)) \<Longrightarrow> fine (self c w)"
  shows "fine (executeWeighted e self node w)"
  using assms by (auto simp: executeWeighted_def Let_def dest!: weight_pick_mem intro!: fine_branch
      split: prod.split option.split)

lemma fine_loop:
  assumes "\<And>w. fine (self (Body node) w)" "0 \<le> i" "i \<le> LoopCount node" "LoopCount node - i < int k"
  shows "fine (loop_iter e self node k i w)"
  using assms(2-4)
proof (induction k arbitrary: i w)
  case (Suc k)
  have "fine (loop_iter e self node k (i + 1) w)" if "i < LoopCount node" for w
    using Suc that by auto
  then show ?case
    using assms(1) Suc.prems
    by (auto simp: loop_post_def intro!: fine_obind split: prod.split option.split)
qed simp

lemma fine_node:
  assumes b: "bounded_flow rank L (exFlow e)" and node: "flow_node (exFlow e) nid = Some (Some node)"
    and self: "\<And>c w. c \<in> set (calls node) \<Longrightarrow> fine (self c w)" and k: "L < budget"
  shows "fine (executeNode e self budget nid w)"
proof -
  obtain ce w' where ctx: "CtxErr (exHandler e) w = (ce, w')" by fastforce
  have bn: "bounded_node rank L (nid, Some node)" by (rule bounded_flow_node [OF b node])
  have act: "fine (executeAction e self node w')" if "Type node = NodeAction"
  proof -
    have "fine (executeOnErrorHandler self node w)" for w
      using self that by (auto simp: executeOnErrorHandler_def calls_def split: option.split)
    then show ?thesis
      using no_nil_action [OF b, of "Action node"]
      by (auto simp: executeAction_def intro!: fine_action_loop split: option.split)
  qed
  have lp: "fine (executeLoop e self budget node w')" if "Type node = NodeLoop"
    using self bn k that
    by (auto simp: executeLoop_def bounded_node_def calls_def intro!: fine_loop)
  have wt: "fine (executeWait e self node w')" if "Type node = NodeWait"
    using self that by (auto simp: executeWait_def calls_def intro!: fine_otry split: prod.split)
  have bl: "fine (executeBoolean e self node w')" if "Type node = NodeBoolean"
    using self that by (auto simp: executeBoolean_def calls_def Let_def intro!: fine_branch split: prod.split)
  have sw: "fine (executeSwitch e self node w')" if "Type node = NodeSwitch"
    using self that by (auto simp: executeSwitch_def calls_def intro!: fine_switch)
  have sq: "fine (executeSequence e self node w')" if "Type node = NodeSequence"
    using self that by (auto simp: executeSequence_def calls_def intro!: fine_seq [OF b])
  have we: "fine (executeWeighted e self node w')" if "Type node = NodeWeighted"
    using self that by (auto simp: calls_def intro!: fine_weighted)
  show ?thesis
    using act lp wt bl sw sq we
    by (cases ce; cases "Type node") (simp_all add: executeNode_def ctx node)
qed

lemma fine_exec:
  assumes b: "bounded_flow rank L (exFlow e)"
  shows "rank nid + L + 1 < n \<Longrightarrow> fine (exec_at e n nid w)"
proof (induction n arbitrary: nid w)
  case (Suc n)
  show ?case
  proof (cases "flow_node (exFlow e) nid")
    case None
    then show ?thesis by (auto simp: executeNode_def split: prod.split option.split)
  next
    case (Some no)
    then obtain node where node: "flow_node (exFlow e) nid = Some (Some node)"
      using bounded_flow_node [OF b Some] by (cases no) (auto simp: bounded_node_def)
    have "rank c < rank nid" if "c \<in> set (calls node)" for c
      using bounded_flow_node [OF b node] that by (simp add: bounded_node_def list_all_iff)
    then have "fine (exec_at e n c w)" if "c \<in> set (calls node)" for c w
      using Suc.IH [of c w] Suc.prems that by force
    then show ?thesis using fine_node [OF b node] Suc.prems by simp
  qed
qed simp

text \<open>
  C15. A flow whose node references form no cycle, whose loops are all finite and whose maps hold
  no null entry always runs to completion, whatever the actions, conditions, cancellations and
  random numbers do: no panic, and no unbounded recursion or loop.
\<close>

theorem Run_terminates:
  assumes "bounded_flow rank L (exFlow e)" "rank ''main'' + L + 1 < n"
  shows "\<exists>err w'. Run e n w = Done err w'"
proof -
  have "fine (Run e n w)" unfolding Run_def by (rule fine_exec [OF assms])
  then show ?thesis by (cases "Run e n w") auto
qed

definition null_handler :: "nat ActionHandler" where
  "null_handler = \<lparr>ExecuteAction = (\<lambda>a w. (None, w + 1)), ExecuteCondition = (\<lambda>c w. (False, w)),
     RegisterListen = (\<lambda>r w. (None, w)), CooperativeSleep = (\<lambda>d w. (None, w)),
     CtxErr = (\<lambda>w. (None, w)), RandIntn = (\<lambda>n w. (0, w)), RecordPendingCanceled = None\<rparr>"

theorem Run_terminates_witness:
  "\<exists>err w'. Run (NewExecutor sample_prepared null_handler 0) 7 0 = Done err w'"
proof (rule Run_terminates [where rank = "\<lambda>c. if c = ''main'' then 2 else if c = ''login'' then 1 else 0" and L = 2])
  show "bounded_flow (\<lambda>c. if c = ''main'' then 2 else if c = ''login'' then 1 else 0) 2
      (exFlow (NewExecutor sample_prepared null_handler 0))"
    unfolding NewExecutor_def by code_simp
qed simp

theorem signals_contained_witness:
  "\<not> escapes ErrSkip (exec_at (NewExecutor sample_prepared null_handler 0) 9 ''main'' 0)"
proof -
  let ?e = "NewExecutor sample_prepared null_handler 0"
  have "\<exists>node. flow_node (exFlow ?e) ''main'' = Some (Some node) \<and> Type node = NodeLoop"
    unfolding NewExecutor_def by (rule exI [of _ "the (the (flow_node sample_prepared ''main''))"]) code_simp
  then obtain node where node: "flow_node (exFlow ?e) ''main'' = Some (Some node)" "Type node = NodeLoop"
    by blast
  show ?thesis using signals_contained [OF node(1), of 9 0] node(2) by simp
qed

subsection \<open>Failures of actions\<close>

text \<open>
  C26. An action that reports a cancellation ends its node at once with a context error: the
  error handler, the retries, the delay and the error strategy are all bypassed, however the node
  is configured.
\<close>

theorem action_cancel_bypasses_onError:
  assumes "ExecuteAction (exHandler e) ad w = (Some err, w1)" "isCanceledError (Some err)"
  shows "\<exists>ce. action_loop e self node ad left w = Done (Some ce) w1 \<and> is_ctx ce"
proof -
  obtain ce where ce: "normalizeActionCancel err = Some ce" "is_ctx ce"
    using assms(2) by (cases "is_ctx err") (auto simp: normalizeActionCancel_def is_ctx_def)
  have "action_attempt e self node ad failed w = Done (Some ce) w1" for failed
    using assms(1) ce(1) by (simp add: action_attempt_def obind_def lift_op_def)
  then show ?thesis using ce(2) by (cases left) simp_all
qed

theorem action_cancel_bypasses_onError_witness:
  "\<exists>ce. action_loop (NewExecutor sample_prepared (null_handler\<lparr>ExecuteAction :=
        \<lambda>a w. (Some (Wrapped ''send'' (ActionError 6 [] None)), w)\<rparr>) 0)
      (\<lambda>c w. NoFuel) node0 None 5 0 = Done (Some ce) 0 \<and> is_ctx ce"
  by (rule action_cancel_bypasses_onError [of _ _ _ "Wrapped ''send'' (ActionError 6 [] None)"])
     (simp_all add: NewExecutor_def isCanceledError_def is_ctx_def ErrActionCanceled_def)

text \<open>How far each step may move a counter of action executions.\<close>

definition grows :: "('w \<Rightarrow> nat) \<Rightarrow> nat \<Rightarrow> nat \<Rightarrow> 'w outcome \<Rightarrow> bool" where
  "grows cnt c k m \<longleftrightarrow> (case m of Done err w \<Rightarrow> cnt w \<le> c + k | _ \<Rightarrow> True)"

lemma grows_simps [simp]:
  "grows cnt c k (Done err w) \<longleftrightarrow> cnt w \<le> c + k" "grows cnt c k Panicked" "grows cnt c k NoFuel"
  "grows cnt c k (lift_op r) \<longleftrightarrow> cnt (snd r) \<le> c + k"
  by (simp_all add: grows_def lift_op_def)

lemma grows_shift: "grows cnt (c + d) k m \<longleftrightarrow> grows cnt c (d + k) m"
  by (cases m) (simp_all add: add.assoc)

lemma grows_obind:
  "grows cnt c k m \<Longrightarrow> (\<And>err w. cnt w \<le> c + k \<Longrightarrow> grows cnt c k' (f err w)) \<Longrightarrow> grows cnt c k' (obind m f)"
  by (cases m) (auto simp: obind_def)

lemma grows_otry:
  "grows cnt c k m \<Longrightarrow> (\<And>w. cnt w \<le> c + k \<Longrightarrow> grows cnt c k (f w)) \<Longrightarrow> grows cnt c k (otry m f)"
  unfolding otry_def by (rule grows_obind) auto

text \<open>Of the operations an action node uses, only \<open>ExecuteAction\<close> moves the counter, by one.\<close>

definition counts_actions :: "'w Executor \<Rightarrow> ('w \<Rightarrow> nat) \<Rightarrow> bool" where
  "counts_actions e cnt \<longleftrightarrow>
     (\<forall>ad w. cnt (snd (ExecuteAction (exHandler e) ad w)) = cnt w + 1) \<and>
     (\<forall>rs w. cnt (snd (RegisterListen (exHandler e) rs w)) = cnt w) \<and>
     (\<forall>d w. cnt (snd (CooperativeSleep (exHandler e) d w)) = cnt w) \<and>
     (\<forall>w. cnt (snd (CtxErr (exHandler e) w)) = cnt w)"

lemma counts_delay:
  "counts_actions e cnt \<Longrightarrow> cnt w \<le> c + k \<Longrightarrow> grows cnt c k (nodeDelay e node w)"
  "counts_actions e cnt \<Longrightarrow> cnt w \<le> c + k \<Longrightarrow> grows cnt c k (retryDelay e r w)"
  by (auto simp: counts_actions_def nodeDelay_def retryDelay_def Let_def split: option.split)

lemma counts_register:
  assumes "counts_actions e cnt" "cnt w \<le> c + k"
  shows "grows cnt c k (registerActionListens e node w)"
  unfolding registerActionListens_def using assms counts_delay(1) [OF assms(1)]
  by (auto intro!: grows_obind [of cnt c k] grows_otry simp: counts_actions_def split: option.split)

lemma counts_finish:
  assumes "counts_actions e cnt" "cnt w \<le> c + k"
  shows "grows cnt c k (finishActionSuccess e node ad w)" "grows cnt c k (finishActionAccepted e node ad w)"
    "grows cnt c k (executeListenOnly e node w)"
  using counts_register [OF assms] counts_delay(1) [OF assms(1)] assms(2)
  by (auto simp: finishActionSuccess_def finishActionAccepted_def executeListenOnly_def
      intro!: grows_otry split: option.split)

text \<open>\<open>h\<close> bounds what one run of the error handler of the node adds.\<close>

lemma counts_attempt:
  assumes "counts_actions e cnt" "\<And>w c. cnt w \<le> c \<Longrightarrow> grows cnt c h (executeOnErrorHandler self node w)"
    and "cnt w \<le> c" "Suc h \<le> k" "\<And>err w. cnt w \<le> c + Suc h \<Longrightarrow> grows cnt c k (failed err w)"
  shows "grows cnt c k (action_attempt e self node ad failed w)"
proof -
  let ?a = "ExecuteAction (exHandler e) ad w"
  have a: "cnt (snd ?a) \<le> c + 1" using assms(1,3) by (simp add: counts_actions_def)
  have fin: "grows cnt c k (finishActionSuccess e node ad w)"
      "grows cnt c k (finishActionAccepted e node ad w)" if "cnt w \<le> c + 1" for w ad
    using counts_finish(1,2) [OF assms(1), of w c k] that assms(4) by simp_all
  have r: "grows cnt c (Suc h) (executeOnErrorHandler self node w)" if "cnt w \<le> c + 1" for w
    using assms(2) [OF that] grows_shift [of cnt c 1 h] by simp
  show ?thesis
    unfolding action_attempt_def
    by (rule grows_obind [of cnt c 1])
       (use a assms(4) in \<open>auto simp: fin intro!: grows_obind [OF r] assms(5) split: option.split\<close>)
qed

lemma counts_loop:
  assumes "counts_actions e cnt" "\<And>w c. cnt w \<le> c \<Longrightarrow> grows cnt c h (executeOnErrorHandler self node w)"
  shows "cnt w \<le> c \<Longrightarrow> grows cnt c (Suc left * Suc h) (action_loop e self node ad left w)"
proof (induction left arbitrary: w c)
  case 0
  have "grows cnt c (Suc 0 * Suc h) (action_give_up e node err w)" if "cnt w \<le> c + Suc h" for err w
    using that counts_delay(1) [OF assms(1), of w c "Suc h"]
    by (auto simp: action_give_up_def intro!: grows_otry)
  then show ?case unfolding action_loop.simps by (intro counts_attempt [OF assms 0]) simp_all
next
  case (Suc left)
  have "grows cnt c (Suc (Suc left) * Suc h) (action_retry e node w (action_loop e self node ad left))"
    if "cnt w \<le> c + Suc h" for w
  proof (cases "OnError node")
    case (Some oe)
    have d: "grows cnt (c + Suc h) 0 (retryDelay e (Retry oe) w)" using counts_delay(2) [OF assms(1)] that by simp
    have "grows cnt (c + Suc h) (Suc left * Suc h) (otry (retryDelay e (Retry oe) w) (action_loop e self node ad left))"
      unfolding otry_def by (rule grows_obind [OF d]) (use Suc.IH [of _ "c + Suc h"] in auto)
    then show ?thesis by (simp only: action_retry_def Some option.case grows_shift mult_Suc)
  qed (simp add: action_retry_def)
  then show ?case unfolding action_loop.simps by (intro counts_attempt [OF assms Suc.prems]) simp_all
qed

text \<open>
  C25. However deep the rest of the flow nests, one visit of an action node executes its action at most
  once more than its configured number of retries, each time followed by at most one run of its error
  handler: if a run of the handler executes at most \<open>h\<close> actions, the visit executes at most
  \<open>(1 + retries) * (1 + h)\<close>.
\<close>

theorem action_attempts_bounded:
  assumes "counts_actions e cnt" and "flow_node (exFlow e) nid = Some (Some node)" "Type node = NodeAction"
    and "\<And>w c. cnt w \<le> c \<Longrightarrow> grows cnt c h (executeOnErrorHandler (exec_at e n) node w)"
    and "exec_at e (Suc n) nid w = Done err w'"
  shows "cnt w' \<le> cnt w + (1 + nat (onErrorMaxRetries node)) * (1 + h)"
proof -
  let ?k = "Suc (nat (onErrorMaxRetries node)) * Suc h"
  obtain ce w1 where c: "CtxErr (exHandler e) w = (ce, w1)" by fastforce
  have w1: "cnt w1 = cnt w" using assms(1) c unfolding counts_actions_def by (metis snd_conv)
  have "grows cnt (cnt w) ?k (executeAction e (exec_at e n) node w1)"
    using counts_loop [OF assms(1,4), where w = w1 and c = "cnt w"]
      counts_finish(3) [OF assms(1), of w1 "cnt w" ?k] w1
    by (auto simp: executeAction_def split: option.split)
  then have "grows cnt (cnt w) ?k (exec_at e (Suc n) nid w)"
    by (simp add: executeNode_def c assms(2,3) w1 split: option.split)
  then show ?thesis by (simp add: assms(5) del: exec_at.simps)
qed

text \<open>A node whose action always fails, with two retries and a handler that waits.\<close>

definition retry_flow :: TaskFlow where
  "retry_flow = \<lparr>
     Nodes = [(''hit'', Some (node0\<lparr>Type := NodeAction, Action := ''hello'', DelayMs := -1,
                 OnError := Some \<lparr>IgnoreCodes = [], Handler = ''pause'', Retry = Some \<lparr>MaxRetries = 2, RetryDelayMs = 5\<rparr>,
                   Strategy = ''abort''\<rparr>\<rparr>)),
              (''pause'', Some (node0\<lparr>Type := NodeWait, WaitMs := 7\<rparr>))],
     Actions = [(''hello'', Some \<lparr>Pattern = ''lua'', Keys = [], Bindings = []\<rparr>)],
     Listens = []\<rparr>"

definition failing_handler :: "nat ActionHandler" where
  "failing_handler = null_handler\<lparr>ExecuteAction := \<lambda>a w. (Some (Opaque ''refused''), w + 1)\<rparr>"

theorem action_attempts_bounded_witness:
  "\<exists>err. exec_at (NewExecutor retry_flow failing_handler 0) 3 ''hit'' 4 = Done err 7 \<and>
     7 \<le> 4 + (1 + nat (onErrorMaxRetries (the (the (flow_node retry_flow ''hit''))))) * (1 + 0)"
proof -
  let ?e = "NewExecutor retry_flow failing_handler 0" and ?n = "the (the (flow_node retry_flow ''hit''))"
  have n: "flow_node (exFlow ?e) ''hit'' = Some (Some ?n)" "Type ?n = NodeAction"
    unfolding NewExecutor_def by (code_simp, code_simp)
  have h: "grows (\<lambda>w. w) c 0 (executeOnErrorHandler (exec_at ?e 2) ?n w)" if "w \<le> c" for w c
    using that
    by (simp add: retry_flow_def executeOnErrorHandler_def executeNode_def executeWait_def wait_ms_def node0_def
        NewExecutor_def failing_handler_def null_handler_def flow_node_def otry_def obind_def lift_op_def numeral_2_eq_2)
  have c: "counts_actions ?e (\<lambda>w. w)"
    by (simp add: counts_actions_def NewExecutor_def failing_handler_def null_handler_def)
  have "\<exists>err. exec_at ?e 3 ''hit'' 4 = Done err 7"
    by (rule exI [of _ "(case exec_at ?e 3 ''hit'' 4 of Done err w \<Rightarrow> err | _ \<Rightarrow> None)"]) code_simp
  then obtain err where r: "exec_at ?e (Suc 2) ''hit'' 4 = Done err 7" by (auto simp: numeral_3_eq_3 numeral_2_eq_2 simp del: exec_at.simps)
  have "7 \<le> 4 + (1 + nat (onErrorMaxRetries ?n)) * (1 + 0)"
    by (rule action_attempts_bounded [OF c n h r])
  then show ?thesis using r by (auto simp: numeral_3_eq_3 numeral_2_eq_2 simp del: exec_at.simps)
qed

text \<open>
  When registering the listens of a node fails and its strategy is resume, the node waits its
  delay twice: once on the error path and once more on the success path it then continues on.
\<close>

theorem failed_listen_delays_twice:
  assumes "ListenRefs node \<noteq> []" "RegisterListen (exHandler e) (ListenRefs node) w = (Some er, wl)"
    and "\<not> is_ctx er" "onErrorStrategy node = StrategyResume"
  shows "finishActionSuccess e node (Some ad) w = otry (nodeDelay e node wl) (\<lambda>w. nodeDelay e node w)"
proof -
  have "applyOnErrorStrategy StrategyResume x = None" for x
    by (simp add: applyOnErrorStrategy_def StrategyResume_def StrategyAbort_def StrategySkip_def)
  then show ?thesis
    using assms
    by (cases "nodeDelay e node wl")
       (simp_all add: finishActionSuccess_def registerActionListens_def otry_def obind_def lift_op_def)
qed

theorem failed_listen_delays_twice_witness:
  "finishActionSuccess (NewExecutor sample_prepared (null_handler\<lparr>RegisterListen := \<lambda>r w. (Some (Opaque ''busy''), w),
        CooperativeSleep := \<lambda>d w. (None, w + 1)\<rparr>) 0)
      (node0\<lparr>ListenRefs := [\<lparr>lrServer = [], lrListen = [], lrQueueSize = None\<rparr>]\<rparr>)
      (Some \<lparr>Pattern = [], Keys = [], Bindings = []\<rparr>) 0 = Done None 2"
  by (subst failed_listen_delays_twice [where er = "Opaque ''busy''" and wl = 0])
     (simp_all add: NewExecutor_def null_handler_def is_ctx_def onErrorStrategy_def node0_def
       otry_def obind_def nodeDelay_def lift_op_def)

end
