(* ===== verification/Cleanup.thy ===== *)
theory Cleanup
  imports Prelude
begin

text \<open>
  Clean-up summaries (\<^verbatim>\<open>robot/cleanup.go\<close>): what a robot, an agent and a whole task report about the
  resources they gave back.  The human-readable message is left out, since the status decides it.
  Counters are Go \<open>int\<close>s; the sums wrap.
\<close>

datatype CleanupState = CleanupOK | CleanupPartial | CleanupTimeout | CleanupUnknown

datatype CleanupReason =
    CleanupReasonNatural | CleanupReasonAdminStop | CleanupReasonAgentShutdown | CleanupReasonRampReset
  | CleanupReasonDurationStop | CleanupReasonOfflineSynthetic | CleanupReasonStopWaitTimeout

record CleanupIssue =
  ciRobotID :: int
  ciAccount :: string
  ciPhase :: string
  ciWaitDone :: bool
  ciCloseAllDone :: bool
  ciMessage :: string

record CleanupStatus =
  csStatus :: CleanupState
  csReason :: CleanupReason
  csDurationMs :: int
  csTotalRobots :: int
  csCleanedRobots :: int
  csTimeoutRobots :: int
  csLuaReturned :: int
  csLuaSkipped :: int
  csIssues :: "CleanupIssue list"

definition cleanupStatus0 :: "CleanupState \<Rightarrow> CleanupReason \<Rightarrow> CleanupStatus" where
  "cleanupStatus0 s r = \<lparr>csStatus = s, csReason = r, csDurationMs = 0, csTotalRobots = 0, csCleanedRobots = 0,
     csTimeoutRobots = 0, csLuaReturned = 0, csLuaSkipped = 0, csIssues = []\<rparr>"

definition cleanupOK :: "CleanupReason \<Rightarrow> int \<Rightarrow> CleanupStatus" where
  "cleanupOK reason durationMs = (cleanupStatus0 CleanupOK reason)\<lparr>csDurationMs := durationMs,
     csTotalRobots := 1, csCleanedRobots := 1, csLuaReturned := 1\<rparr>"

definition cleanupTimeout :: "CleanupReason \<Rightarrow> int \<Rightarrow> CleanupIssue \<Rightarrow> CleanupStatus" where
  "cleanupTimeout reason durationMs issue = (cleanupStatus0 CleanupTimeout reason)\<lparr>csDurationMs := durationMs,
     csTotalRobots := 1, csTimeoutRobots := 1, csLuaSkipped := 1, csIssues := [issue]\<rparr>"

definition emptyCleanupSummary :: "CleanupReason \<Rightarrow> CleanupStatus" where
  "emptyCleanupSummary reason = cleanupStatus0 CleanupOK reason"

definition UnknownCleanupStatus :: "CleanupReason \<Rightarrow> CleanupStatus" where
  "UnknownCleanupStatus reason = cleanupStatus0 CleanupUnknown reason"

definition merge_status :: "CleanupState \<Rightarrow> CleanupState \<Rightarrow> CleanupState" where
  "merge_status out s = (case s of
     CleanupTimeout \<Rightarrow> CleanupTimeout
   | CleanupPartial \<Rightarrow> if out = CleanupOK then CleanupPartial else out
   | CleanupUnknown \<Rightarrow> if out = CleanupOK then CleanupUnknown else out
   | CleanupOK \<Rightarrow> out)"

definition merge_step :: "CleanupStatus \<Rightarrow> CleanupStatus \<Rightarrow> CleanupStatus" where
  "merge_step s out = out\<lparr>
     csTotalRobots := wrap64 (csTotalRobots out + csTotalRobots s),
     csCleanedRobots := wrap64 (csCleanedRobots out + csCleanedRobots s),
     csTimeoutRobots := wrap64 (csTimeoutRobots out + csTimeoutRobots s),
     csLuaReturned := wrap64 (csLuaReturned out + csLuaReturned s),
     csLuaSkipped := wrap64 (csLuaSkipped out + csLuaSkipped s),
     csDurationMs := (if csDurationMs s > csDurationMs out then csDurationMs s else csDurationMs out),
     csIssues := (if length (csIssues out) < 20
        then csIssues out @ take (min (length (csIssues s)) (20 - length (csIssues out))) (csIssues s)
        else csIssues out),
     csStatus := merge_status (csStatus out) (csStatus s)\<rparr>"

definition MergeCleanupStatus :: "CleanupReason \<Rightarrow> CleanupStatus list \<Rightarrow> CleanupStatus" where
  "MergeCleanupStatus reason statuses =
     (let out = fold merge_step statuses (cleanupStatus0 CleanupOK reason) in
      if csTotalRobots out = 0 then emptyCleanupSummary reason else out)"

subsection \<open>Merging\<close>

lemma fold_status:
  "csStatus (fold merge_step ss out) =
     (if CleanupTimeout \<in> csStatus ` set ss then CleanupTimeout
      else if csStatus out \<noteq> CleanupOK then csStatus out
      else (case filter (\<lambda>s. csStatus s \<noteq> CleanupOK) ss of [] \<Rightarrow> CleanupOK | s # _ \<Rightarrow> csStatus s))"
  by (induction ss arbitrary: out)
     (auto simp: merge_step_def merge_status_def split: CleanupState.splits list.splits)

lemma fold_issues:
  "length (csIssues out) \<le> 20 \<Longrightarrow>
   csIssues (fold merge_step ss out) = take 20 (csIssues out @ concat (map csIssues ss))"
proof (induction ss arbitrary: out)
  case (Cons s ss)
  have i: "csIssues (merge_step s out) = take 20 (csIssues out @ csIssues s)"
    using Cons.prems by (auto simp: merge_step_def min_def)
  have "csIssues (fold merge_step (s # ss) out) = take 20 (take 20 (csIssues out @ csIssues s) @ concat (map csIssues ss))"
    using Cons.IH [of "merge_step s out"] i by simp
  also have "\<dots> = take 20 (csIssues out @ concat (map csIssues (s # ss)))"
    by (simp add: min_def)
  finally show ?case .
qed simp

definition sum_of :: "(CleanupStatus \<Rightarrow> int) \<Rightarrow> CleanupStatus list \<Rightarrow> int" where
  "sum_of f ss = (\<Sum>s\<leftarrow>ss. f s)"

lemma fold_sums:
  "wrap64 (csTotalRobots (fold merge_step ss out)) = wrap64 (csTotalRobots out + sum_of csTotalRobots ss)"
  "wrap64 (csCleanedRobots (fold merge_step ss out)) = wrap64 (csCleanedRobots out + sum_of csCleanedRobots ss)"
  "wrap64 (csTimeoutRobots (fold merge_step ss out)) = wrap64 (csTimeoutRobots out + sum_of csTimeoutRobots ss)"
  "wrap64 (csLuaReturned (fold merge_step ss out)) = wrap64 (csLuaReturned out + sum_of csLuaReturned ss)"
  "wrap64 (csLuaSkipped (fold merge_step ss out)) = wrap64 (csLuaSkipped out + sum_of csLuaSkipped ss)"
  by (induction ss arbitrary: out)
     (simp_all add: sum_of_def merge_step_def wrap64_add add.assoc)

definition counters_i64 :: "CleanupStatus \<Rightarrow> bool" where
  "counters_i64 s \<longleftrightarrow> is_i64 (csTotalRobots s) \<and> is_i64 (csCleanedRobots s) \<and> is_i64 (csTimeoutRobots s) \<and>
     is_i64 (csLuaReturned s) \<and> is_i64 (csLuaSkipped s)"

lemma fold_counters: "counters_i64 out \<Longrightarrow> counters_i64 (fold merge_step ss out)"
  by (induction ss arbitrary: out) (simp_all add: counters_i64_def merge_step_def)

lemma counters0: "counters_i64 (cleanupStatus0 s r)"
  by (simp add: counters_i64_def cleanupStatus0_def is_i64_def)

lemma fold_duration:
  "csDurationMs (fold merge_step ss out) = fold max (map csDurationMs ss) (csDurationMs out)"
  by (induction ss arbitrary: out) (simp_all add: merge_step_def max_def)

text \<open>
  When any robot was reported, the merged counters are the (wrapping) sums of the parts, the
  duration is the longest one, the samples are the first twenty of all, and the status is a timeout
  exactly when some part timed out and fine only if every part is.
\<close>

theorem MergeCleanupStatus_sums:
  assumes "wrap64 (sum_of csTotalRobots ss) \<noteq> 0" "m = MergeCleanupStatus reason ss"
  shows "csTotalRobots m = wrap64 (sum_of csTotalRobots ss) \<and>
    csCleanedRobots m = wrap64 (sum_of csCleanedRobots ss) \<and>
    csTimeoutRobots m = wrap64 (sum_of csTimeoutRobots ss) \<and>
    csLuaReturned m = wrap64 (sum_of csLuaReturned ss) \<and>
    csLuaSkipped m = wrap64 (sum_of csLuaSkipped ss) \<and>
    csDurationMs m = fold max (map csDurationMs ss) 0 \<and>
    csIssues m = take 20 (concat (map csIssues ss)) \<and>
    (csStatus m = CleanupTimeout \<longleftrightarrow> CleanupTimeout \<in> csStatus ` set ss) \<and>
    (csStatus m = CleanupOK \<longleftrightarrow> csStatus ` set ss \<subseteq> {CleanupOK})"
proof -
  let ?z = "cleanupStatus0 CleanupOK reason" and ?f = "fold merge_step ss (cleanupStatus0 CleanupOK reason)"
  have c: "counters_i64 ?f" by (simp add: fold_counters counters0)
  have z: "csTotalRobots ?z = 0" "csCleanedRobots ?z = 0" "csTimeoutRobots ?z = 0" "csLuaReturned ?z = 0"
    "csLuaSkipped ?z = 0" "csDurationMs ?z = 0" "csIssues ?z = []" "csStatus ?z = CleanupOK"
    by (simp_all add: cleanupStatus0_def)
  have sums: "csTotalRobots ?f = wrap64 (sum_of csTotalRobots ss)"
      "csCleanedRobots ?f = wrap64 (sum_of csCleanedRobots ss)"
      "csTimeoutRobots ?f = wrap64 (sum_of csTimeoutRobots ss)"
      "csLuaReturned ?f = wrap64 (sum_of csLuaReturned ss)" "csLuaSkipped ?f = wrap64 (sum_of csLuaSkipped ss)"
    using fold_sums [of ss ?z] c z by (simp_all add: counters_i64_def wrap64_id)
  have m: "m = ?f" using assms sums(1) by (simp add: MergeCleanupStatus_def Let_def)
  have st: "csStatus ?f = CleanupTimeout \<longleftrightarrow> CleanupTimeout \<in> csStatus ` set ss"
      "csStatus ?f = CleanupOK \<longleftrightarrow> csStatus ` set ss \<subseteq> {CleanupOK}"
    unfolding fold_status z(8)
    by (auto simp: filter_eq_Cons_iff filter_empty_conv split: list.splits)
  show ?thesis
    unfolding m using sums st fold_issues [of ?z ss] fold_duration [of ss ?z] z by simp
qed

theorem MergeCleanupStatus_sums_witness:
  "csTotalRobots (MergeCleanupStatus CleanupReasonAdminStop
     [cleanupOK CleanupReasonNatural 5, UnknownCleanupStatus CleanupReasonStopWaitTimeout]) = 1"
  using MergeCleanupStatus_sums [of "[cleanupOK CleanupReasonNatural 5, UnknownCleanupStatus CleanupReasonStopWaitTimeout]"
      _ CleanupReasonAdminStop, OF _ refl]
  by (simp add: sum_of_def cleanupOK_def UnknownCleanupStatus_def cleanupStatus0_def wrap64_def)

text \<open>
  If no part reports a robot, an unknown outcome is reported as a clean one: agents that
  never sent their clean-up result (recorded as unknown, with no robots) merge to the status OK.
\<close>

theorem merge_forgets_unknown:
  "csStatus (MergeCleanupStatus reason (replicate n (UnknownCleanupStatus r))) = CleanupOK"
proof -
  have "sum_of csTotalRobots (replicate n (UnknownCleanupStatus r)) = 0"
    by (simp add: sum_of_def UnknownCleanupStatus_def cleanupStatus0_def sum_list_replicate)
  then have "wrap64 (csTotalRobots (fold merge_step (replicate n (UnknownCleanupStatus r)) (cleanupStatus0 CleanupOK reason))) = 0"
    by (simp only: fold_sums) (simp add: cleanupStatus0_def wrap64_def)
  then have "csTotalRobots (fold merge_step (replicate n (UnknownCleanupStatus r)) (cleanupStatus0 CleanupOK reason)) = 0"
    using fold_counters [OF counters0, of "replicate n (UnknownCleanupStatus r)" CleanupOK reason]
    by (simp add: counters_i64_def wrap64_id)
  then show ?thesis by (simp add: MergeCleanupStatus_def emptyCleanupSummary_def cleanupStatus0_def Let_def)
qed

text \<open>
  The merged status depends on the order of the parts when one is partial and another unknown;
  the parts come from a Go map, whose iteration order is random.
\<close>

theorem merge_order_dependent:
  "csStatus (MergeCleanupStatus r [(cleanupOK r d)\<lparr>csStatus := CleanupPartial\<rparr>, UnknownCleanupStatus r]) = CleanupPartial \<and>
   csStatus (MergeCleanupStatus r [UnknownCleanupStatus r, (cleanupOK r d)\<lparr>csStatus := CleanupPartial\<rparr>]) = CleanupUnknown"
  by (simp add: MergeCleanupStatus_def merge_step_def merge_status_def cleanupOK_def UnknownCleanupStatus_def
      cleanupStatus0_def wrap64_def Let_def)

end
