(* ===== verification/TaskStore.thy ===== *)
theory TaskStore
  imports Cleanup
begin

text \<open>
  The task repository of the admin server (\<^verbatim>\<open>admin/task/store.go\<close>), generic in the task type as the
  source is, its instance for admin tasks (\<^verbatim>\<open>admin/task/admin_store.go\<close>, \<^verbatim>\<open>types.go\<close>) and the files it
  keeps (\<^verbatim>\<open>persist.go\<close>).  Every method body between Lock and Unlock is one step; \<open>Begin\<close> releases the
  lock between its check and its transition, so it is two steps, between which any other method may
  run.  The Go map of tasks is an association list with distinct keys.  A task is a value: the
  model does not distinguish the stored pointer from the copies handed out.
\<close>

subsection \<open>The adapter and its laws\<close>

record ('t, 's, 'fs) Adapter =
  aID :: "'t \<Rightarrow> string"
  aState :: "'t \<Rightarrow> 's"
  aSetState :: "'t \<Rightarrow> 's \<Rightarrow> 't"
  aIsActive :: "'s \<Rightarrow> bool"
  aRecover :: "'t \<Rightarrow> int \<Rightarrow> 't"
  aSetStartedAt :: "'t \<Rightarrow> int \<Rightarrow> 't"
  aSetStoppedAt :: "'t \<Rightarrow> int \<Rightarrow> 't"
  aClone :: "'t \<Rightarrow> 't"
  aTerminalClone :: "'t \<Rightarrow> 't"
  aLoad :: "'fs \<Rightarrow> string + 't list"
  aSave :: "'t \<Rightarrow> 'fs \<Rightarrow> string option \<times> 'fs"
  aRemove :: "string \<Rightarrow> 'fs \<Rightarrow> string option \<times> 'fs"
  aText :: "'s \<Rightarrow> string"

datatype repo_error =
    RDuplicate | RNotFound | RInvalidState string | RConflict string | RStorage string

record ('t, 'fs) Repository =
  tasks :: "(string \<times> 't) list"
  activeID :: string
  onTerminal :: bool
  recoveredIDs :: "string list"
  terminalLog :: "'t list"
  disk :: "'fs"

definition put_task :: "string \<Rightarrow> 't \<Rightarrow> (string \<times> 't) list \<Rightarrow> (string \<times> 't) list" where
  "put_task k v ts = (if k \<in> fst ` set ts then map (\<lambda>kv. if fst kv = k then (k, v) else kv) ts else ts @ [(k, v)])"

definition del_task :: "string \<Rightarrow> (string \<times> 't) list \<Rightarrow> (string \<times> 't) list" where
  "del_task k ts = filter (\<lambda>kv. fst kv \<noteq> k) ts"

definition recover_item :: "('t, 's, 'fs) Adapter \<Rightarrow> int \<Rightarrow> 't \<Rightarrow> ('t, 'fs) Repository \<Rightarrow> ('t, 'fs) Repository" where
  "recover_item A now item r =
     (if aIsActive A (aState A item)
      then (let item = aRecover A item now in
        r\<lparr>recoveredIDs := recoveredIDs r @ [aID A item], tasks := put_task (aID A item) item (tasks r)\<rparr>)
      else r\<lparr>tasks := put_task (aID A item) item (tasks r)\<rparr>)"

definition NewRepository :: "('t, 's, 'fs) Adapter \<Rightarrow> int \<Rightarrow> 'fs \<Rightarrow> repo_error + ('t, 'fs) Repository" where
  "NewRepository A now fs = (case aLoad A fs of
     Inl e \<Rightarrow> Inl (RStorage e)
   | Inr items \<Rightarrow> Inr (fold (recover_item A now) items
       \<lparr>tasks = [], activeID = [], onTerminal = False, recoveredIDs = [], terminalLog = [], disk = fs\<rparr>))"

definition SetOnTerminal :: "('t, 'fs) Repository \<Rightarrow> ('t, 'fs) Repository" where
  "SetOnTerminal r = r\<lparr>onTerminal := True, recoveredIDs := [],
     terminalLog := terminalLog r @ List.map_filter (\<lambda>i. map_of (tasks r) i) (recoveredIDs r)\<rparr>"

definition storage_result :: "string option \<times> 'fs \<Rightarrow> repo_error option" where
  "storage_result x = map_option RStorage (fst x)"

definition Create :: "('t, 's, 'fs) Adapter \<Rightarrow> 't \<Rightarrow> ('t, 'fs) Repository \<Rightarrow> repo_error option \<times> ('t, 'fs) Repository" where
  "Create A item r =
     (if map_of (tasks r) (aID A item) \<noteq> None then (Some RDuplicate, r)
      else (let r = r\<lparr>tasks := put_task (aID A item) item (tasks r)\<rparr>; res = aSave A item (disk r)
            in (storage_result res, r\<lparr>disk := snd res\<rparr>)))"

definition Get :: "('t, 's, 'fs) Adapter \<Rightarrow> string \<Rightarrow> ('t, 'fs) Repository \<Rightarrow> 't option" where
  "Get A i r = map_option (aClone A) (map_of (tasks r) i)"

definition ListTasks :: "('t, 's, 'fs) Adapter \<Rightarrow> ('t, 'fs) Repository \<Rightarrow> 't list" where
  "ListTasks A r = map (\<lambda>kv. aClone A (snd kv)) (tasks r)"

definition ListByState :: "('t, 's, 'fs) Adapter \<Rightarrow> 's \<Rightarrow> ('t, 'fs) Repository \<Rightarrow> 't list" where
  "ListByState A s r = map (\<lambda>kv. aClone A (snd kv)) (filter (\<lambda>kv. aState A (snd kv) = s) (tasks r))"

definition Update :: "('t, 's, 'fs) Adapter \<Rightarrow> string \<Rightarrow> ('t \<Rightarrow> 't) \<Rightarrow> ('t, 'fs) Repository \<Rightarrow>
    repo_error option \<times> ('t, 'fs) Repository" where
  "Update A i f r = (case map_of (tasks r) i of
     None \<Rightarrow> (Some RNotFound, r)
   | Some item \<Rightarrow> (let item = f item; res = aSave A item (disk r)
       in (storage_result res, r\<lparr>tasks := put_task i item (tasks r), disk := snd res\<rparr>)))"

definition Delete :: "('t, 's, 'fs) Adapter \<Rightarrow> string \<Rightarrow> ('t, 'fs) Repository \<Rightarrow> repo_error option \<times> ('t, 'fs) Repository" where
  "Delete A i r = (case map_of (tasks r) i of
     None \<Rightarrow> (Some RNotFound, r)
   | Some item \<Rightarrow>
       if aIsActive A (aState A item) then (Some (RInvalidState ''cannot delete active task''), r)
       else (let res = aRemove A i (disk r)
             in (storage_result res, r\<lparr>tasks := del_task i (tasks r), disk := snd res\<rparr>)))"

definition validTransition :: "string \<Rightarrow> string \<Rightarrow> bool" where
  "validTransition from to =
     (if from = ''pending'' then to = ''starting'' \<or> to = ''failed'' \<or> to = ''stopped''
      else if from = ''starting'' then to = ''running'' \<or> to = ''failed''
      else if from = ''running'' then to = ''stopping'' \<or> to = ''stopped'' \<or> to = ''failed''
      else if from = ''stopping'' then to = ''running'' \<or> to = ''stopped'' \<or> to = ''failed''
      else False)"

definition stamp :: "('t, 's, 'fs) Adapter \<Rightarrow> 's \<Rightarrow> int \<Rightarrow> 't \<Rightarrow> 't" where
  "stamp A to now item =
     (if aText A to = ''running'' then aSetStartedAt A item now
      else if aText A to = ''stopped'' \<or> aText A to = ''failed'' then aSetStoppedAt A item now
      else item)"

definition Transition :: "('t, 's, 'fs) Adapter \<Rightarrow> string \<Rightarrow> 's \<Rightarrow> 's \<Rightarrow> int \<Rightarrow> ('t, 'fs) Repository \<Rightarrow>
    (repo_error + 't) \<times> ('t, 'fs) Repository" where
  "Transition A i from to now r = (case map_of (tasks r) i of
     None \<Rightarrow> (Inl RNotFound, r)
   | Some item \<Rightarrow>
       if aState A item \<noteq> from then (Inl (RInvalidState ''unexpected state''), r)
       else if \<not> validTransition (aText A from) (aText A to) then (Inl (RInvalidState ''invalid transition''), r)
       else (let item = stamp A to now (aSetState A item to);
                 r = r\<lparr>tasks := put_task i item (tasks r), disk := snd (aSave A item (disk r))\<rparr>
             in if aIsActive A to then (Inr item, r\<lparr>activeID := i\<rparr>)
                else (Inr item, r\<lparr>activeID := (if activeID r = i then [] else activeID r),
                   terminalLog := (if onTerminal r then terminalLog r @ [aTerminalClone A item] else terminalLog r)\<rparr>)))"

definition ActiveTaskID :: "('t, 'fs) Repository \<Rightarrow> string" where
  "ActiveTaskID r = activeID r"

definition ActiveTask :: "('t, 's, 'fs) Adapter \<Rightarrow> ('t, 'fs) Repository \<Rightarrow> 't option" where
  "ActiveTask A r = (if activeID r \<noteq> [] then map_option (aClone A) (map_of (tasks r) (activeID r)) else None)"

definition HasActive :: "('t, 'fs) Repository \<Rightarrow> bool" where
  "HasActive r \<longleftrightarrow> activeID r \<noteq> []"

text \<open>The first half of \<open>Begin\<close>; \<open>None\<close> lets the caller go on to the transition.\<close>

definition begin_check :: "('t, 'fs) Repository \<Rightarrow> repo_error option" where
  "begin_check r = (if activeID r \<noteq> [] \<and> map_of (tasks r) (activeID r) \<noteq> None
     then Some (RConflict (activeID r)) else None)"

definition Begin :: "('t, 's, 'fs) Adapter \<Rightarrow> string \<Rightarrow> 's \<Rightarrow> 's \<Rightarrow> int \<Rightarrow> ('t, 'fs) Repository \<Rightarrow>
    (repo_error + 't) \<times> ('t, 'fs) Repository" where
  "Begin A i pending starting now r = (case begin_check r of
     Some e \<Rightarrow> (Inl e, r) | None \<Rightarrow> Transition A i pending starting now r)"

subsection \<open>Admin tasks\<close>

datatype State = Pending | Starting | Running | Stopping | Stopped | Failed

fun state_text :: "State \<Rightarrow> string" where
  "state_text Pending = ''pending''"
| "state_text Starting = ''starting''"
| "state_text Running = ''running''"
| "state_text Stopping = ''stopping''"
| "state_text Stopped = ''stopped''"
| "state_text Failed = ''failed''"

definition IsActiveState :: "State \<Rightarrow> bool" where
  "IsActiveState s \<longleftrightarrow> s = Starting \<or> s = Running \<or> s = Stopping"

datatype Result = ResultCompleted | ResultStopped | ResultFailed

record Assignment =
  asTaskID :: string
  asAgentID :: string
  asAgentName :: string
  asStartNumber :: int
  asTotalBots :: int

record CompletionReport =
  crAgentID :: string
  crTaskID :: string
  crResult :: Result
  crErrorMsg :: string
  crFinishedAt :: int
  crStageIndex :: int
  crCleanupStatus :: "CleanupStatus option"

record RampUpStage =
  rsCount :: int
  rsConcurrency :: int
  rsHoldSec :: int
  rsReset :: bool

record RobotConfig =
  rcConcurrency :: int
  rcTimeoutSec :: int
  rcAccountPrefix :: string
  rcStartNumber :: int
  rcDefaultDelayMs :: int
  rcDebugMode :: bool
  rcRampUp :: "RampUpStage list option"

record Task =
  tID :: string
  tName :: string
  tState :: State
  tTotalBots :: int
  tRobotConfig :: RobotConfig
  tAssignments :: "Assignment list"
  tSucceededAgents :: "string list"
  tReports :: "(string \<times> CompletionReport) list"
  tCleanupSummary :: "CleanupStatus option"
  tStageReports :: "CompletionReport list"
  tCreatedAt :: int
  tStartedAt :: "int option"
  tStoppedAt :: "int option"
  tErrorMsg :: string

text \<open>The task directory: the decoded files, and whether the next write fails.\<close>

record task_dir =
  files :: "(string \<times> Task) list"
  broken :: bool

definition saveTaskFile :: "Task \<Rightarrow> task_dir \<Rightarrow> string option \<times> task_dir" where
  "saveTaskFile t d = (if broken d then (Some ''write failed'', d)
     else (None, d\<lparr>files := put_task (tID t) t (files d)\<rparr>))"

definition removeTaskFile :: "string \<Rightarrow> task_dir \<Rightarrow> string option \<times> task_dir" where
  "removeTaskFile i d = (if broken d \<or> map_of (files d) i = None then (Some ''remove failed'', d)
     else (None, d\<lparr>files := del_task i (files d)\<rparr>))"

definition loadTaskFiles :: "task_dir \<Rightarrow> string + Task list" where
  "loadTaskFiles d = (if broken d then Inl ''read failed'' else Inr (map snd (files d)))"

definition task_adapter :: "(Task, State, task_dir) Adapter" where
  "task_adapter = \<lparr>
     aID = tID, aState = tState, aSetState = (\<lambda>t s. t\<lparr>tState := s\<rparr>), aIsActive = IsActiveState,
     aRecover = (\<lambda>t now. t\<lparr>tState := Failed, tErrorMsg := ''admin restart, task lost'', tStoppedAt := Some now\<rparr>),
     aSetStartedAt = (\<lambda>t now. t\<lparr>tStartedAt := Some now\<rparr>),
     aSetStoppedAt = (\<lambda>t now. t\<lparr>tStoppedAt := Some now\<rparr>),
     aClone = (\<lambda>t. t), aTerminalClone = (\<lambda>t. t),
     aLoad = loadTaskFiles, aSave = saveTaskFile, aRemove = removeTaskFile, aText = state_text\<rparr>"

definition NewStore :: "int \<Rightarrow> task_dir \<Rightarrow> repo_error + (Task, task_dir) Repository" where
  "NewStore now d = NewRepository task_adapter now d"

definition StartTask :: "string \<Rightarrow> int \<Rightarrow> (Task, task_dir) Repository \<Rightarrow>
    (repo_error + Task) \<times> (Task, task_dir) Repository" where
  "StartTask i now r = Begin task_adapter i Pending Starting now r"

subsection \<open>One active task\<close>

text \<open>
  The repository with the start lock: the identifier of the \<open>Begin\<close> that has passed its check and
  has not made its transition yet.
\<close>

type_synonym ('t, 'fs) repo_sys = "('t, 'fs) Repository \<times> string option"

datatype ('t, 's) repo_op =
    OpCreate 't
  | OpUpdate string "'t \<Rightarrow> 't"
  | OpDelete string
  | OpTransition string 's 's int
  | OpBeginCheck string
  | OpBeginFinish int
  | OpSetOnTerminal

fun repo_step :: "('t, 's, 'fs) Adapter \<Rightarrow> 's \<Rightarrow> 's \<Rightarrow> ('t, 's) repo_op \<Rightarrow> ('t, 'fs) repo_sys \<Rightarrow> ('t, 'fs) repo_sys" where
  "repo_step A p s (OpCreate t) (r, l) = (snd (Create A t r), l)"
| "repo_step A p s (OpUpdate i f) (r, l) = (snd (Update A i f r), l)"
| "repo_step A p s (OpDelete i) (r, l) = (snd (Delete A i r), l)"
| "repo_step A p s (OpTransition i a b now) (r, l) = (snd (Transition A i a b now r), l)"
| "repo_step A p s (OpBeginCheck i) (r, l) =
     (if l \<noteq> None then (r, l) else if begin_check r = None then (r, Some i) else (r, None))"
| "repo_step A p s (OpBeginFinish now) (r, l) = (case l of
     None \<Rightarrow> (r, None) | Some i \<Rightarrow> (snd (Transition A i p s now r), None))"
| "repo_step A p s OpSetOnTerminal (r, l) = (SetOnTerminal r, l)"

text \<open>
  What the callers of the repository keep to: a new task has an identifier and is not active, an
  update changes neither identifier nor state, and only \<open>Begin\<close> makes the transition from pending
  to starting.
\<close>

definition op_allowed :: "('t, 's, 'fs) Adapter \<Rightarrow> 's \<Rightarrow> 's \<Rightarrow> ('t, 's) repo_op \<Rightarrow> bool" where
  "op_allowed A p s op \<longleftrightarrow> (case op of
     OpCreate t \<Rightarrow> aID A t \<noteq> [] \<and> \<not> aIsActive A (aState A t)
   | OpUpdate i f \<Rightarrow> (\<forall>t. aID A (f t) = aID A t \<and> aState A (f t) = aState A t)
   | OpTransition i a b now \<Rightarrow> \<not> (a = p \<and> b = s)
   | _ \<Rightarrow> True)"

definition repo_inv :: "('t, 's, 'fs) Adapter \<Rightarrow> ('t, 'fs) Repository \<Rightarrow> bool" where
  "repo_inv A r \<longleftrightarrow> distinct (map fst (tasks r)) \<and>
     (\<forall>(k, t) \<in> set (tasks r). k \<noteq> [] \<and> aID A t = k \<and> (aIsActive A (aState A t) \<longleftrightarrow> activeID r = k)) \<and>
     (activeID r \<noteq> [] \<longrightarrow> activeID r \<in> fst ` set (tasks r))"

definition sys_inv :: "('t, 's, 'fs) Adapter \<Rightarrow> ('t, 'fs) repo_sys \<Rightarrow> bool" where
  "sys_inv A rl \<longleftrightarrow> repo_inv A (fst rl) \<and> (snd rl \<noteq> None \<longrightarrow> activeID (fst rl) = [])"

lemma keys_put_task:
  "map fst (put_task k v ts) = (if k \<in> fst ` set ts then map fst ts else map fst ts @ [k])"
  by (auto simp: put_task_def)

lemma fst_put_task: "fst ` set (put_task k v ts) = insert k (fst ` set ts)"
  using arg_cong [OF keys_put_task [of k v ts], of set] by (auto split: if_splits)

lemma distinct_put_task: "distinct (map fst ts) \<Longrightarrow> distinct (map fst (put_task k v ts))"
  by (simp add: keys_put_task)

lemma set_put_task:
  "distinct (map fst ts) \<Longrightarrow> set (put_task k v ts) = {kv \<in> set ts. fst kv \<noteq> k} \<union> {(k, v)}"
  by (auto simp: put_task_def split: if_splits)

lemma distinct_del_task: "distinct (map fst ts) \<Longrightarrow> distinct (map fst (del_task k ts))"
  by (simp add: del_task_def distinct_map_filter)

lemma set_del_task: "set (del_task k ts) = {kv \<in> set ts. fst kv \<noteq> k}"
  by (auto simp: del_task_def)

lemma map_of_put_task [simp]: "map_of (put_task k v ts) = (map_of ts)(k \<mapsto> v)"
proof -
  have "map_of (map (\<lambda>kv. if fst kv = k then (k, v) else kv) ts) = (map_of ts)(k \<mapsto> v)"
    if "k \<in> fst ` set ts"
  proof -
    have "map_of (map (\<lambda>kv. if fst kv = k then (k, v) else kv) ts) i =
        (if i = k then if map_of ts k = None then None else Some v else map_of ts i)" for i
      by (induction ts) auto
    then show ?thesis using that by (auto simp: fun_eq_iff map_of_eq_None_iff)
  qed
  moreover have "map_of ts k = None" if "k \<notin> fst ` set ts" using that by (simp add: map_of_eq_None_iff)
  ultimately show ?thesis by (auto simp: put_task_def map_add_def fun_eq_iff split: option.split)
qed

lemma map_of_del_task [simp]: "map_of (del_task k ts) = (map_of ts)(k := None)"
  by (induction ts) (auto simp: del_task_def)

text \<open>The invariant only reads the tasks and the active identifier.\<close>

lemma repo_inv_cong: "tasks r' = tasks r \<Longrightarrow> activeID r' = activeID r \<Longrightarrow> repo_inv A r' \<longleftrightarrow> repo_inv A r"
  by (simp add: repo_inv_def)

lemma repo_inv_put:
  assumes "repo_inv A r" "tasks r' = put_task k t (tasks r)" "k \<noteq> []" "aID A t = k"
    and "aIsActive A (aState A t) \<longleftrightarrow> activeID r' = k"
    and "\<And>k'. k' \<noteq> k \<Longrightarrow> k' \<noteq> [] \<Longrightarrow> activeID r' = k' \<longleftrightarrow> activeID r = k'"
  shows "repo_inv A r'"
proof -
  have d: "distinct (map fst (tasks r))" using assms(1) by (simp add: repo_inv_def)
  have "k' \<noteq> [] \<and> aID A t' = k' \<and> (aIsActive A (aState A t') \<longleftrightarrow> activeID r' = k')"
    if m: "(k', t') \<in> set (tasks r')" for k' t'
  proof (cases "k' = k")
    case True
    then have "t' = t" using m by (auto simp: assms(2) set_put_task [OF d])
    then show ?thesis using assms(3-5) True by simp
  next
    case False
    then have "(k', t') \<in> set (tasks r)" using m by (auto simp: assms(2) set_put_task [OF d])
    then have "k' \<noteq> [] \<and> aID A t' = k' \<and> (aIsActive A (aState A t') \<longleftrightarrow> activeID r = k')"
      using assms(1) by (auto simp: repo_inv_def)
    then show ?thesis using assms(6) [OF False] by blast
  qed
  moreover have "activeID r' \<in> fst ` set (tasks r')" if "activeID r' \<noteq> []"
  proof (cases "activeID r' = k")
    case False
    then have eq: "activeID r = activeID r'" using assms(6) that by blast
    have "activeID r \<in> fst ` set (tasks r)" using assms(1) that eq unfolding repo_inv_def by simp
    then show ?thesis unfolding assms(2) fst_put_task eq by blast
  qed (simp add: assms(2) fst_put_task)
  ultimately show ?thesis using distinct_put_task [OF d] by (auto simp: repo_inv_def assms(2))
qed

locale task_adapter_laws =
  fixes A :: "('t, 's, 'fs) Adapter" and pending starting :: 's
  assumes ID_SetState: "aID A (aSetState A t x) = aID A t"
    and State_SetState: "aState A (aSetState A t x) = x"
    and stamps: "aID A (aSetStartedAt A t n) = aID A t" "aState A (aSetStartedAt A t n) = aState A t"
      "aID A (aSetStoppedAt A t n) = aID A t" "aState A (aSetStoppedAt A t n) = aState A t"
    and recover: "aID A (aRecover A t n) = aID A t" "\<not> aIsActive A (aState A (aRecover A t n))"
    and activation: "validTransition (aText A a) (aText A b) \<Longrightarrow> aIsActive A b \<Longrightarrow> \<not> aIsActive A a \<Longrightarrow>
      a = pending \<and> b = starting"
    and starting_active: "aIsActive A starting"
begin

lemma stamp_laws: "aID A (stamp A b n t) = aID A t" "aState A (stamp A b n t) = aState A t"
  by (simp_all add: stamp_def stamps)

lemma inv_lookup:
  "repo_inv A r \<Longrightarrow> map_of (tasks r) i = Some t \<Longrightarrow>
     i \<noteq> [] \<and> aID A t = i \<and> (aIsActive A (aState A t) \<longleftrightarrow> activeID r = i)"
  by (fastforce simp: repo_inv_def dest: map_of_SomeD)

lemma inv_inactive: "repo_inv A r \<Longrightarrow> activeID r \<noteq> [] \<Longrightarrow> map_of (tasks r) (activeID r) \<noteq> None"
  by (auto simp: repo_inv_def map_of_eq_None_iff)

lemma Create_inv:
  assumes "repo_inv A r" "aID A t \<noteq> []" "\<not> aIsActive A (aState A t)"
  shows "repo_inv A (snd (Create A t r))" "activeID (snd (Create A t r)) = activeID r"
proof -
  have new: "aID A t \<noteq> activeID r" if "map_of (tasks r) (aID A t) = None"
    using inv_inactive [OF assms(1)] that assms(2) by auto
  show "repo_inv A (snd (Create A t r))"
  proof (cases "map_of (tasks r) (aID A t)")
    case None
    then show ?thesis
      using assms new by (intro repo_inv_put [OF assms(1)]) (auto simp: Create_def Let_def)
  qed (use assms(1) in \<open>simp add: Create_def\<close>)
  show "activeID (snd (Create A t r)) = activeID r" by (simp add: Create_def Let_def)
qed

lemma Update_inv:
  assumes "repo_inv A r" "\<And>t. aID A (f t) = aID A t \<and> aState A (f t) = aState A t"
  shows "repo_inv A (snd (Update A i f r))" "activeID (snd (Update A i f r)) = activeID r"
proof -
  show "activeID (snd (Update A i f r)) = activeID r" by (simp add: Update_def Let_def split: option.split)
  show "repo_inv A (snd (Update A i f r))"
  proof (cases "map_of (tasks r) i")
    case (Some t)
    then show ?thesis
      using inv_lookup [OF assms(1) Some] assms
      by (intro repo_inv_put [OF assms(1), of _ i "f t"]) (auto simp: Update_def Let_def)
  qed (use assms(1) in \<open>simp add: Update_def\<close>)
qed

lemma Delete_inv:
  assumes "repo_inv A r"
  shows "repo_inv A (snd (Delete A i r))" "activeID (snd (Delete A i r)) = activeID r"
proof -
  show "activeID (snd (Delete A i r)) = activeID r" by (simp add: Delete_def Let_def split: option.split)
  show "repo_inv A (snd (Delete A i r))"
  proof (cases "map_of (tasks r) i")
    case (Some t)
    then have "activeID r \<noteq> i" if "\<not> aIsActive A (aState A t)"
      using inv_lookup [OF assms Some] that by auto
    then show ?thesis
      using assms Some
      by (auto simp: Delete_def repo_inv_def Let_def distinct_del_task set_del_task)
  qed (use assms in \<open>simp add: Delete_def\<close>)
qed

lemma Transition_inv:
  assumes r: "repo_inv A r" and ok: "a = pending \<and> b = starting \<Longrightarrow> activeID r = []"
  shows "repo_inv A (snd (Transition A i a b now r))"
    and "activeID r = [] \<Longrightarrow> \<not> (a = pending \<and> b = starting) \<Longrightarrow> activeID (snd (Transition A i a b now r)) = []"
proof -
  have "repo_inv A (snd (Transition A i a b now r)) \<and>
      (activeID r = [] \<longrightarrow> \<not> (a = pending \<and> b = starting) \<longrightarrow> activeID (snd (Transition A i a b now r)) = [])"
  proof (cases "map_of (tasks r) i")
    case (Some t)
    note t = inv_lookup [OF r Some]
    show ?thesis
    proof (cases "aState A t = a \<and> validTransition (aText A a) (aText A b)")
      case True
      let ?t = "stamp A b now (aSetState A t b)"
      have t': "aID A ?t = i" "aState A ?t = b" using t by (simp_all add: stamp_laws ID_SetState State_SetState)
      have act: "activeID r = i \<or> activeID r = [] \<and> a = pending \<and> b = starting" if "aIsActive A b"
      proof (cases "aIsActive A a")
        case True
        then show ?thesis using t \<open>aState A t = a \<and> _\<close> by simp
      next
        case False
        then have "a = pending \<and> b = starting" using activation [of a b] that \<open>aState A t = a \<and> _\<close> by simp
        then show ?thesis using ok by simp
      qed
      let ?r = "snd (Transition A i a b now r)"
      have r': "tasks ?r = put_task i ?t (tasks r)"
          "activeID ?r = (if aIsActive A b then i else if activeID r = i then [] else activeID r)"
        using True Some by (auto simp: Transition_def Let_def)
      have "repo_inv A ?r"
        using t t' act by (intro repo_inv_put [OF r r'(1)]) (auto simp: r'(2))
      moreover have "activeID ?r = []" if "activeID r = []" "\<not> (a = pending \<and> b = starting)"
        using act t that by (auto simp: r'(2))
      ultimately show ?thesis by blast
    qed (use r Some in \<open>auto simp: Transition_def\<close>)
  qed (use r in \<open>auto simp: Transition_def\<close>)
  then show "repo_inv A (snd (Transition A i a b now r))"
    "activeID r = [] \<Longrightarrow> \<not> (a = pending \<and> b = starting) \<Longrightarrow> activeID (snd (Transition A i a b now r)) = []"
    by auto
qed

lemma begin_check_None: "repo_inv A r \<Longrightarrow> begin_check r = None \<Longrightarrow> activeID r = []"
  by (cases "activeID r = []") (auto simp: begin_check_def dest: inv_inactive split: if_splits)

lemma repo_step_inv:
  assumes "sys_inv A rl" "op_allowed A pending starting op"
  shows "sys_inv A (repo_step A pending starting op rl)"
proof (cases rl)
  case (Pair r l)
  have r: "repo_inv A r" "l \<noteq> None \<Longrightarrow> activeID r = []" using assms(1) Pair by (auto simp: sys_inv_def)
  show ?thesis
  proof (cases op)
    case (OpBeginFinish now)
    then show ?thesis
      using r Transition_inv(1) [OF r(1), of pending starting] by (cases l) (auto simp: Pair sys_inv_def)
  next
    case (OpTransition i a b now)
    then show ?thesis
      using assms(2) r Transition_inv [OF r(1), of a b i now]
      by (auto simp: Pair sys_inv_def op_allowed_def)
  next
    case OpSetOnTerminal
    then show ?thesis
      using r repo_inv_cong [of "SetOnTerminal r" r A] by (auto simp: Pair sys_inv_def SetOnTerminal_def)
  qed (use assms(2) r Create_inv [OF r(1)] Update_inv [OF r(1)] Delete_inv [OF r(1)] begin_check_None [OF r(1)]
       in \<open>auto simp: Pair sys_inv_def op_allowed_def\<close>)
qed

end

interpretation admin: task_adapter_laws task_adapter Pending Starting
proof
  fix a b
  assume "validTransition (aText task_adapter a) (aText task_adapter b)" "aIsActive task_adapter b"
    "\<not> aIsActive task_adapter a"
  then show "a = Pending \<and> b = Starting"
    by (cases a; cases b) (simp_all add: task_adapter_def validTransition_def IsActiveState_def)
qed (simp_all add: task_adapter_def IsActiveState_def)

interpretation admin_sys: op_system "repo_step task_adapter Pending Starting" "sys_inv task_adapter"
    "op_allowed task_adapter Pending Starting"
  by unfold_locales (rule admin.repo_step_inv)

text \<open>Loading: every task that was active is failed, and none is active.\<close>

definition loaded_inv :: "(Task, task_dir) Repository \<Rightarrow> bool" where
  "loaded_inv r \<longleftrightarrow> activeID r = [] \<and> distinct (map fst (tasks r)) \<and>
     (\<forall>(k, t) \<in> set (tasks r). k \<noteq> [] \<and> tID t = k \<and> \<not> IsActiveState (tState t))"

lemma recover_item_loaded:
  assumes "loaded_inv r" "tID t \<noteq> []"
  shows "loaded_inv (recover_item task_adapter now t r) \<and> disk (recover_item task_adapter now t r) = disk r"
proof -
  have d: "distinct (map fst (tasks r))" using assms(1) by (simp add: loaded_inv_def)
  show ?thesis
    using assms
    by (auto simp: loaded_inv_def recover_item_def task_adapter_def IsActiveState_def Let_def
        distinct_put_task set_put_task [OF d])
qed

lemma recover_fold_loaded:
  "loaded_inv r \<Longrightarrow> \<forall>t \<in> set ts. tID t \<noteq> [] \<Longrightarrow>
   loaded_inv (fold (recover_item task_adapter now) ts r) \<and> disk (fold (recover_item task_adapter now) ts r) = disk r"
  using recover_item_loaded by (induction ts arbitrary: r) auto

lemma NewStore_loaded:
  assumes "NewStore now d = Inr r" "\<forall>f \<in> set (files d). tID (snd f) \<noteq> []"
  shows "loaded_inv r \<and> disk r = d"
proof -
  let ?r0 = "\<lparr>tasks = [], activeID = [], onTerminal = False, recoveredIDs = [], terminalLog = [], disk = d\<rparr>
    :: (Task, task_dir) Repository"
  have "r = fold (recover_item task_adapter now) (map snd (files d)) ?r0"
    using assms(1)
    by (auto simp: NewStore_def NewRepository_def loadTaskFiles_def task_adapter_def split: sum.splits if_splits)
  then show ?thesis
    using recover_fold_loaded [of ?r0 "map snd (files d)" now] assms(2) by (auto simp: loaded_inv_def)
qed

lemma loaded_sys_inv: "loaded_inv r \<Longrightarrow> sys_inv task_adapter (r, None)"
  by (auto simp: loaded_inv_def sys_inv_def repo_inv_def task_adapter_def)

text \<open>
  C13. Starting from any readable task directory, and for every interleaving of the repository's
  methods in which \<open>Begin\<close>'s check and transition may be separated by other calls, at most one task
  is starting, running or stopping, and the recorded active identifier is exactly that task's: no
  start can slip past a running task, and no finished task keeps the slot.
\<close>

theorem single_active_task:
  assumes "NewStore now d = Inr r0" "\<forall>f \<in> set (files d). tID (snd f) \<noteq> []"
    and "list_all (op_allowed task_adapter Pending Starting) ops"
    and "(r, lock) = fold (repo_step task_adapter Pending Starting) ops (r0, None)"
    and "map_of (tasks r) i = Some t"
  shows "IsActiveState (tState t) \<longleftrightarrow> ActiveTaskID r = i"
proof -
  have "sys_inv task_adapter (r0, None)" using NewStore_loaded [OF assms(1,2)] loaded_sys_inv by blast
  then have "sys_inv task_adapter (r, lock)" unfolding assms(4) using assms(3) by (rule admin_sys.run_inv)
  then have "repo_inv task_adapter r" by (simp add: sys_inv_def)
  then show ?thesis using admin.inv_lookup [OF _ assms(5)] by (simp add: task_adapter_def ActiveTaskID_def)
qed

definition task0 :: Task where
  "task0 = \<lparr>tID = ''t1'', tName = ''demo'', tState = Pending, tTotalBots = 10,
     tRobotConfig = \<lparr>rcConcurrency = 0, rcTimeoutSec = 0, rcAccountPrefix = [], rcStartNumber = 0,
       rcDefaultDelayMs = 0, rcDebugMode = False, rcRampUp = None\<rparr>,
     tAssignments = [], tSucceededAgents = [], tReports = [], tCleanupSummary = None, tStageReports = [],
     tCreatedAt = 0, tStartedAt = None, tStoppedAt = None, tErrorMsg = []\<rparr>"

definition dir0 :: task_dir where
  "dir0 = \<lparr>files = [(''t0'', task0\<lparr>tID := ''t0'', tState := Running\<rparr>)], broken = False\<rparr>"

definition store0 :: "(Task, task_dir) Repository" where
  "store0 = (case NewStore 5 dir0 of Inr r \<Rightarrow> r
     | Inl e \<Rightarrow> \<lparr>tasks = [], activeID = [], onTerminal = False, recoveredIDs = [], terminalLog = [], disk = dir0\<rparr>)"

lemma store0_new: "NewStore 5 dir0 = Inr store0"
  by (simp add: store0_def NewStore_def NewRepository_def loadTaskFiles_def task_adapter_def dir0_def)

definition ops0 :: "(Task, State) repo_op list" where
  "ops0 = [OpCreate task0, OpBeginCheck ''t1'', OpTransition ''t0'' Failed Running 6, OpBeginFinish 7]"

definition final0 :: "(Task, task_dir) repo_sys" where
  "final0 = fold (repo_step task_adapter Pending Starting) ops0 (store0, None)"

theorem single_active_task_witness:
  "IsActiveState Starting \<longleftrightarrow> ActiveTaskID (fst final0) = ''t1''"
proof -
  have t: "map_of (tasks (fst final0)) ''t1'' = Some (task0\<lparr>tState := Starting\<rparr>)" by code_simp
  show ?thesis
    using single_active_task [of 5 dir0 store0 ops0 "fst final0" "snd final0" "''t1''", OF store0_new _ _ _ t]
    by (simp add: dir0_def task0_def final0_def ops0_def op_allowed_def task_adapter_def IsActiveState_def)
qed

text \<open>
  Recovery is not written back: after a restart the task files still say what they said
  before, so the next restart recovers the same tasks again (and replays their terminal callback).
\<close>

theorem recovery_not_persisted:
  assumes "NewStore now d = Inr r" "\<forall>f \<in> set (files d). tID (snd f) \<noteq> []"
  shows "disk r = d \<and> NewStore now (disk r) = Inr r"
  using NewStore_loaded [OF assms] assms(1) by simp

theorem recovery_not_persisted_witness:
  "disk store0 = dir0 \<and> NewStore 5 (disk store0) = Inr store0"
  by (rule recovery_not_persisted [OF store0_new]) (simp add: dir0_def task0_def)

text \<open>
  A task whose file cannot be written is reported as not created and yet stays in the
  repository: it is listed, it can be started, and creating it again reports a duplicate.
\<close>

theorem failed_create_keeps_task:
  assumes "map_of (tasks r) (tID t) = None" "broken (disk r)"
  shows "fst (Create task_adapter t r) = Some (RStorage ''write failed'') \<and>
    Get task_adapter (tID t) (snd (Create task_adapter t r)) = Some t \<and>
    fst (Create task_adapter t (snd (Create task_adapter t r))) = Some RDuplicate"
proof -
  have "tID t \<notin> fst ` set (tasks r)" using assms(1) by (simp add: map_of_eq_None_iff)
  then have "map_of (put_task (tID t) t (tasks r)) (tID t) = Some t"
    using assms(1) by (simp add: put_task_def map_add_def)
  then show ?thesis
    using assms by (simp add: Create_def Get_def task_adapter_def saveTaskFile_def storage_result_def Let_def)
qed

theorem failed_create_keeps_task_witness:
  "fst (Create task_adapter task0 (store0\<lparr>disk := dir0\<lparr>broken := True\<rparr>\<rparr>)) = Some (RStorage ''write failed'')"
proof -
  have "map_of (tasks (store0\<lparr>disk := dir0\<lparr>broken := True\<rparr>\<rparr>)) (tID task0) = None" by code_simp
  then show ?thesis using failed_create_keeps_task [of "store0\<lparr>disk := dir0\<lparr>broken := True\<rparr>\<rparr>" task0] by simp
qed

end
