(* ===== verification/Registry.thy ===== *)
theory Registry
  imports TaskStore
begin

text \<open>
  The admin server's registry of agents (\<^verbatim>\<open>admin/agent/registry.go\<close>, \<^verbatim>\<open>types.go\<close>).  Each method is one
  step under the registry's lock; the callbacks it fires after the lock are appended to logs in
  the order they run.  Times are integers, the zero time is 0.  Metric snapshots are opaque except
  for the sequence number of a system snapshot.
\<close>

datatype Status = Idle | Busy | Unhealthy | Offline

record Node =
  nID :: string
  nName :: string
  nAddress :: string
  nAppVersion :: string
  nMaxBots :: int
  nStartedAt :: int
  nStatus :: Status
  nLastHeartbeatAt :: int
  nCurrentTaskID :: string
  nCurrentBots :: int
  nLatestStress :: "nat option"
  nLatestSystem :: "nat option"
  nStressUpdatedAt :: int
  nSystemUpdatedAt :: int

record HeartbeatRequest =
  hStatus :: string
  hCurrentTaskID :: string
  hCurrentBots :: int
  hAppVersion :: string

record agentInstance =
  iStartedAt :: int
  iTaskID :: string

record Registry =
  agents :: "(string \<times> Node) list"
  instances :: "(string \<times> agentInstance) list"
  hasOnChange :: bool
  hasOnRestart :: bool
  unhealthyThreshold :: int
  offlineThreshold :: int
  changes :: "(string \<times> Status \<times> Status) list"
  restarts :: "(string \<times> string) list"

datatype reg_error = AgentNotFound | BusyWithoutTask | IdleWithTask | UnknownStatus string

definition NewRegistry :: "int \<Rightarrow> int \<Rightarrow> bool \<Rightarrow> Registry" where
  "NewRegistry u off cb = \<lparr>agents = [], instances = [], hasOnChange = cb, hasOnRestart = False,
     unhealthyThreshold = u, offlineThreshold = off, changes = [], restarts = []\<rparr>"

definition fireOnChange :: "(string \<times> Status \<times> Status) list \<Rightarrow> Registry \<Rightarrow> Registry" where
  "fireOnChange cs r = (if hasOnChange r then r\<lparr>changes := changes r @ cs\<rparr> else r)"

definition put_node :: "Node \<Rightarrow> string \<Rightarrow> Registry \<Rightarrow> Registry" where
  "put_node n i r = r\<lparr>agents := put_task i n (agents r)\<rparr>"

definition put_instance :: "string \<Rightarrow> agentInstance \<Rightarrow> Registry \<Rightarrow> Registry" where
  "put_instance i x r = r\<lparr>instances := put_task i x (instances r)\<rparr>"

definition restarted_task :: "agentInstance option \<Rightarrow> Node \<Rightarrow> string" where
  "restarted_task prev n = (case prev of
     None \<Rightarrow> []
   | Some p \<Rightarrow> if iStartedAt p \<noteq> 0 \<and> nStartedAt n \<noteq> 0 \<and> iStartedAt p \<noteq> nStartedAt n \<and> iTaskID p \<noteq> []
       then iTaskID p else [])"

definition Register :: "Node \<Rightarrow> Registry \<Rightarrow> Registry" where
  "Register n r =
     (let existing = map_of (agents r) (nID n);
          task = restarted_task (map_of (instances r) (nID n)) n;
          r = put_instance (nID n) \<lparr>iStartedAt = nStartedAt n, iTaskID = nCurrentTaskID n\<rparr> (put_node n (nID n) r);
          r = (case existing of
                 None \<Rightarrow> r
               | Some e \<Rightarrow> if nStatus e \<noteq> nStatus n then fireOnChange [(nID n, nStatus e, nStatus n)] r else r)
      in if task \<noteq> [] \<and> hasOnRestart r then r\<lparr>restarts := restarts r @ [(nID n, task)]\<rparr> else r)"

definition heartbeatAgentStatus :: "string \<Rightarrow> string \<Rightarrow> reg_error + Status" where
  "heartbeatAgentStatus v taskID =
     (if v = ''busy'' then (if taskID = [] then Inl BusyWithoutTask else Inr Busy)
      else if v = ''idle'' then (if taskID \<noteq> [] then Inl IdleWithTask else Inr Idle)
      else Inl (UnknownStatus v))"

definition touchLocked :: "int \<Rightarrow> string \<Rightarrow> Node \<Rightarrow> Node \<times> (string \<times> Status \<times> Status) option" where
  "touchLocked now appVersion n =
     (let n = n\<lparr>nLastHeartbeatAt := now, nAppVersion := (if appVersion \<noteq> [] then appVersion else nAppVersion n)\<rparr>
      in if nStatus n = Unhealthy \<or> nStatus n = Offline
         then (let to = (if nCurrentTaskID n \<noteq> [] then Busy else Idle)
               in (n\<lparr>nStatus := to\<rparr>, Some (nID n, nStatus n, to)))
         else (n, None))"

definition Heartbeat :: "int \<Rightarrow> string \<Rightarrow> HeartbeatRequest \<Rightarrow> Registry \<Rightarrow> reg_error option \<times> Registry" where
  "Heartbeat now i req r = (case map_of (agents r) i of
     None \<Rightarrow> (Some AgentNotFound, r)
   | Some n \<Rightarrow>
       (let n = (if nCurrentTaskID n \<noteq> hCurrentTaskID req
                 then n\<lparr>nLatestStress := None, nStressUpdatedAt := 0\<rparr> else n);
            n = n\<lparr>nCurrentTaskID := hCurrentTaskID req, nCurrentBots := hCurrentBots req\<rparr>
        in case heartbeatAgentStatus (hStatus req) (hCurrentTaskID req) of
             Inl e \<Rightarrow> (Some e, put_node n i r)
           | Inr requested \<Rightarrow>
               (let from = nStatus n;
                    res = touchLocked now (hAppVersion req) (n\<lparr>nStatus := requested\<rparr>);
                    r = put_instance i \<lparr>iStartedAt = nStartedAt n, iTaskID = hCurrentTaskID req\<rparr> (put_node (fst res) i r);
                    change = (case snd res of Some c \<Rightarrow> Some c
                       | None \<Rightarrow> if from \<noteq> nStatus (fst res) then Some (nID n, from, nStatus (fst res)) else None)
                in (None, case change of Some c \<Rightarrow> fireOnChange [c] r | None \<Rightarrow> r))))"

definition SetOnRestart :: "bool \<Rightarrow> Registry \<Rightarrow> Registry" where
  "SetOnRestart fn r = r\<lparr>hasOnRestart := fn\<rparr>"

definition RegStartTask :: "int \<Rightarrow> string \<Rightarrow> string \<Rightarrow> int \<Rightarrow> Registry \<Rightarrow> reg_error option \<times> Registry" where
  "RegStartTask now i taskID bots r = (case map_of (agents r) i of
     None \<Rightarrow> (Some AgentNotFound, r)
   | Some n \<Rightarrow>
       (let r' = put_instance i \<lparr>iStartedAt = nStartedAt n, iTaskID = taskID\<rparr>
              (put_node (n\<lparr>nStatus := Busy, nCurrentTaskID := taskID, nCurrentBots := bots, nLastHeartbeatAt := now\<rparr>) i r)
        in (None, if nStatus n \<noteq> Busy then fireOnChange [(i, nStatus n, Busy)] r' else r')))"

definition CompleteTask :: "string \<Rightarrow> string \<Rightarrow> Registry \<Rightarrow> (reg_error + bool) \<times> Registry" where
  "CompleteTask i taskID r = (case map_of (agents r) i of
     None \<Rightarrow> (Inl AgentNotFound, r)
   | Some n \<Rightarrow>
       if nCurrentTaskID n \<noteq> taskID then (Inr False, r)
       else (Inr True, put_instance i \<lparr>iStartedAt = nStartedAt n, iTaskID = []\<rparr>
          (put_node (n\<lparr>nCurrentTaskID := [], nCurrentBots := 0, nStatus := Idle, nLatestStress := None,
             nStressUpdatedAt := 0\<rparr>) i r)))"

definition Touch :: "int \<Rightarrow> string \<Rightarrow> string \<Rightarrow> Registry \<Rightarrow> Registry" where
  "Touch now i appVersion r = (case map_of (agents r) i of
     None \<Rightarrow> r
   | Some n \<Rightarrow> (case touchLocked now appVersion n of
       (n, None) \<Rightarrow> put_node n i r
     | (n, Some c) \<Rightarrow> fireOnChange [c] (put_node n i r)))"

definition Deregister :: "string \<Rightarrow> Registry \<Rightarrow> reg_error option \<times> Registry" where
  "Deregister i r = (case map_of (agents r) i of
     None \<Rightarrow> (Some AgentNotFound, r)
   | Some n \<Rightarrow>
       (let r' = r\<lparr>agents := del_task i (agents r)\<rparr>
        in (None, if nCurrentTaskID n \<noteq> [] then fireOnChange [(i, nStatus n, Offline)] r' else r')))"

definition RegGet :: "string \<Rightarrow> Registry \<Rightarrow> Node option" where
  "RegGet i r = map_of (agents r) i"

definition RegList :: "Registry \<Rightarrow> Node list" where
  "RegList r = map snd (agents r)"

definition ListByStatus :: "Status \<Rightarrow> Registry \<Rightarrow> Node list" where
  "ListByStatus s r = filter (\<lambda>n. nStatus n = s) (map snd (agents r))"

definition UpdateStress :: "string \<Rightarrow> nat option \<Rightarrow> int \<Rightarrow> Registry \<Rightarrow> Registry" where
  "UpdateStress i snap at r = (case map_of (agents r) i of
     None \<Rightarrow> r | Some n \<Rightarrow> put_node (n\<lparr>nLatestStress := snap, nStressUpdatedAt := at\<rparr>) i r)"

text \<open>A system snapshot is its sequence number.\<close>

definition UpdateSystem :: "string \<Rightarrow> nat option \<Rightarrow> int \<Rightarrow> Registry \<Rightarrow> Registry" where
  "UpdateSystem i snap at r = (case map_of (agents r) i of
     None \<Rightarrow> r
   | Some n \<Rightarrow> (case snap of
       None \<Rightarrow> r
     | Some sq \<Rightarrow> if (case nLatestSystem n of None \<Rightarrow> False | Some old \<Rightarrow> sq \<le> old) then r
         else put_node (n\<lparr>nLatestSystem := Some sq, nSystemUpdatedAt := at\<rparr>) i r))"

text \<open>One node of the health scan: what stays of it, and the change it reports.\<close>

definition scan_node :: "int \<Rightarrow> int \<Rightarrow> int \<Rightarrow> Node \<Rightarrow> Node option \<times> (string \<times> Status \<times> Status) list" where
  "scan_node u off now n =
     (let lag = now - nLastHeartbeatAt n in
      if lag \<ge> off \<or> lag \<ge> u then
        (let new = (if lag \<ge> off then Offline else Unhealthy);
             n' = (if nStatus n \<noteq> new then n\<lparr>nStatus := new\<rparr> else n);
             ev = (if nStatus n \<noteq> new then [(nID n, nStatus n, new)] else [])
         in (if nStatus n' = Offline then None else Some n', ev))
      else (Some n, []))"

definition scanAndMarkStatus :: "int \<Rightarrow> Registry \<Rightarrow> Registry" where
  "scanAndMarkStatus now r =
     (let res = map (\<lambda>kv. (fst kv, scan_node (unhealthyThreshold r) (offlineThreshold r) now (snd kv))) (agents r)
      in fireOnChange (concat (map (\<lambda>x. snd (snd x)) res))
           (r\<lparr>agents := List.map_filter (\<lambda>x. map_option (\<lambda>n. (fst x, n)) (fst (snd x))) res\<rparr>))"


subsection \<open>The registry as a system of operations\<close>

datatype reg_op =
    OpRegister Node
  | OpHeartbeat int string HeartbeatRequest
  | OpStartTask int string string int
  | OpCompleteTask string string
  | OpTouch int string string
  | OpDeregister string
  | OpUpdateStress string "nat option" int
  | OpUpdateSystem string "nat option" int
  | OpScan int
  | OpSetOnRestart bool

fun reg_step :: "reg_op \<Rightarrow> Registry \<Rightarrow> Registry" where
  "reg_step (OpRegister n) r = Register n r"
| "reg_step (OpHeartbeat now i req) r = snd (Heartbeat now i req r)"
| "reg_step (OpStartTask now i t b) r = snd (RegStartTask now i t b r)"
| "reg_step (OpCompleteTask i t) r = snd (CompleteTask i t r)"
| "reg_step (OpTouch now i v) r = Touch now i v r"
| "reg_step (OpDeregister i) r = snd (Deregister i r)"
| "reg_step (OpUpdateStress i x at) r = UpdateStress i x at r"
| "reg_step (OpUpdateSystem i x at) r = UpdateSystem i x at r"
| "reg_step (OpScan now) r = scanAndMarkStatus now r"
| "reg_step (OpSetOnRestart fn) r = SetOnRestart fn r"

text \<open>A node's status agrees with the task it runs, and a node that is offline is not kept.\<close>

definition node_ok :: "Node \<Rightarrow> bool" where
  "node_ok n \<longleftrightarrow> (nStatus n = Idle \<longrightarrow> nCurrentTaskID n = []) \<and>
     (nStatus n = Busy \<longrightarrow> nCurrentTaskID n \<noteq> []) \<and> nStatus n \<noteq> Offline"

definition node_instance :: "Node \<Rightarrow> agentInstance" where
  "node_instance n = \<lparr>iStartedAt = nStartedAt n, iTaskID = nCurrentTaskID n\<rparr>"

definition reg_ok :: "Registry \<Rightarrow> bool" where
  "reg_ok r \<longleftrightarrow> distinct (map fst (agents r)) \<and>
     (\<forall>i n. map_of (agents r) i = Some n \<longrightarrow>
        nID n = i \<and> node_ok n \<and> map_of (instances r) i = Some (node_instance n))"

text \<open>
  What the callers must respect: nodes register in a consistent state, a heartbeat's status and
  task agree, and a task has an identifier.
\<close>

fun reg_allowed :: "reg_op \<Rightarrow> bool" where
  "reg_allowed (OpRegister n) = node_ok n"
| "reg_allowed (OpHeartbeat now i req) =
     (case heartbeatAgentStatus (hStatus req) (hCurrentTaskID req) of Inl _ \<Rightarrow> False | Inr _ \<Rightarrow> True)"
| "reg_allowed (OpStartTask now i t b) = (t \<noteq> [])"
| "reg_allowed _ = True"

lemma fireOnChange_sel [simp]:
  "agents (fireOnChange cs r) = agents r" "instances (fireOnChange cs r) = instances r"
  "hasOnRestart (fireOnChange cs r) = hasOnRestart r" "restarts (fireOnChange cs r) = restarts r"
  "hasOnChange (fireOnChange cs r) = hasOnChange r"
  "unhealthyThreshold (fireOnChange cs r) = unhealthyThreshold r"
  "offlineThreshold (fireOnChange cs r) = offlineThreshold r"
  "changes (fireOnChange cs r) = (if hasOnChange r then changes r @ cs else changes r)"
  by (simp_all add: fireOnChange_def)

lemma put_sel [simp]:
  "agents (put_node n i r) = put_task i n (agents r)" "instances (put_node n i r) = instances r"
  "agents (put_instance i x r) = agents r" "instances (put_instance i x r) = put_task i x (instances r)"
  "hasOnRestart (put_node n i r) = hasOnRestart r" "hasOnRestart (put_instance i x r) = hasOnRestart r"
  "restarts (put_node n i r) = restarts r" "restarts (put_instance i x r) = restarts r"
  by (simp_all add: put_node_def put_instance_def)

lemma Register_sel [simp]:
  "agents (Register n r) = put_task (nID n) n (agents r)"
  "instances (Register n r) = put_task (nID n) (node_instance n) (instances r)"
  by (simp_all add: Register_def Let_def node_instance_def split: option.split)

lemma heartbeatAgentStatus_ok:
  "heartbeatAgentStatus v t = Inr s \<Longrightarrow> (s = Busy \<and> t \<noteq> []) \<or> (s = Idle \<and> t = [])"
  by (auto simp: heartbeatAgentStatus_def split: if_splits)

lemma reg_okD:
  assumes "reg_ok r" "map_of (agents r) i = Some n"
  shows "nID n = i" "node_ok n" "map_of (instances r) i = Some (node_instance n)"
  using assms by (simp_all add: reg_ok_def)

text \<open>The state of the two maps after one node was written, its instance with it or not.\<close>

lemma reg_ok_put:
  assumes "reg_ok r" "agents r' = put_task i n (agents r)"
    "map_of (instances r') = (map_of (instances r))(i \<mapsto> node_instance n)" "nID n = i" "node_ok n"
  shows "reg_ok r'"
  using assms distinct_put_task by (auto simp: reg_ok_def split: if_splits)

lemma reg_ok_keep:
  assumes "reg_ok r" "map_of (agents r) i = Some n" "agents r' = put_task i n' (agents r)"
    "instances r' = instances r" "node_instance n' = node_instance n" "nID n' = nID n" "node_ok n'"
  shows "reg_ok r'"
  using assms by (intro reg_ok_put [of r r' i n']) (auto simp: reg_ok_def fun_eq_iff)

lemma touchLocked_node:
  assumes "nStatus n = Unhealthy \<or> nStatus n = Offline \<or> node_ok n"
  shows "node_ok (fst (touchLocked now v n))" "nID (fst (touchLocked now v n)) = nID n"
    "node_instance (fst (touchLocked now v n)) = node_instance n"
  using assms by (auto simp: touchLocked_def node_ok_def Let_def node_instance_def)

lemma touchLocked_online:
  "s \<noteq> Unhealthy \<Longrightarrow> s \<noteq> Offline \<Longrightarrow> touchLocked now v (n\<lparr>nStatus := s\<rparr>) =
     (n\<lparr>nStatus := s, nLastHeartbeatAt := now, nAppVersion := (if v \<noteq> [] then v else nAppVersion n)\<rparr>, None)"
  by (simp add: touchLocked_def Let_def)

lemma Heartbeat_sel:
  assumes "map_of (agents r) i = Some n" "heartbeatAgentStatus (hStatus req) (hCurrentTaskID req) = Inr s"
  obtains n' where "agents (snd (Heartbeat now i req r)) = put_task i n' (agents r)"
    "instances (snd (Heartbeat now i req r)) = put_task i (node_instance n') (instances r)"
    "nID n' = nID n" "node_ok n'" "nStatus n' = s" "nCurrentTaskID n' = hCurrentTaskID req"
    "nStartedAt n' = nStartedAt n"
proof -
  define n1 where "n1 = (if nCurrentTaskID n \<noteq> hCurrentTaskID req
                 then n\<lparr>nLatestStress := None, nStressUpdatedAt := 0\<rparr> else n)"
  define n' where "n' = n1\<lparr>nCurrentTaskID := hCurrentTaskID req, nCurrentBots := hCurrentBots req,
     nStatus := s, nLastHeartbeatAt := now,
     nAppVersion := (if hAppVersion req \<noteq> [] then hAppVersion req else nAppVersion n1)\<rparr>"
  have s: "s \<noteq> Unhealthy" "s \<noteq> Offline" "s = Idle \<longrightarrow> hCurrentTaskID req = []" "s = Busy \<longrightarrow> hCurrentTaskID req \<noteq> []"
    using heartbeatAgentStatus_ok [OF assms(2)] by auto
  have n1: "nID n1 = nID n" "nStartedAt n1 = nStartedAt n" "nStatus n1 = nStatus n" by (simp_all add: n1_def)
  have n': "nID n' = nID n" "node_ok n'" "nStatus n' = s" "nStartedAt n' = nStartedAt n"
    "nCurrentTaskID n' = hCurrentTaskID req"
    using s n1 by (auto simp: n'_def node_ok_def)
  have "snd (Heartbeat now i req r) =
      (if nStatus n \<noteq> s then fireOnChange [(nID n, nStatus n, s)] else id)
        (put_instance i \<lparr>iStartedAt = nStartedAt n, iTaskID = hCurrentTaskID req\<rparr> (put_node n' i r))"
    using assms unfolding Heartbeat_def n1_def [symmetric] Let_def
    by (cases "nCurrentTaskID n = hCurrentTaskID req") (simp_all add: touchLocked_online s n1_def n'_def)
  then have "agents (snd (Heartbeat now i req r)) = put_task i n' (agents r)"
    "instances (snd (Heartbeat now i req r)) = put_task i (node_instance n') (instances r)"
    by (simp_all add: node_instance_def n')
  then show ?thesis using that n' by blast
qed

lemma scan_node_eq:
  "scan_node u off now n =
     (if now - nLastHeartbeatAt n \<ge> off then (None, if nStatus n \<noteq> Offline then [(nID n, nStatus n, Offline)] else [])
      else if now - nLastHeartbeatAt n \<ge> u
        then (Some (n\<lparr>nStatus := Unhealthy\<rparr>), if nStatus n \<noteq> Unhealthy then [(nID n, nStatus n, Unhealthy)] else [])
      else (Some n, []))"
  by (auto simp: scan_node_def Let_def)

lemma scan_agents:
  "agents (scanAndMarkStatus now r) = List.map_filter (\<lambda>kv. map_option (Pair (fst kv))
     (fst (scan_node (unhealthyThreshold r) (offlineThreshold r) now (snd kv)))) (agents r)"
  by (simp add: scanAndMarkStatus_def Let_def List.map_filter_def filter_map o_def)

lemma map_filter_keys:
  assumes "distinct (map fst xs)"
  shows "distinct (map fst (List.map_filter (\<lambda>kv. map_option (Pair (fst kv)) (f (snd kv))) xs)) \<and>
    map_of (List.map_filter (\<lambda>kv. map_option (Pair (fst kv)) (f (snd kv))) xs) i = Option.bind (map_of xs i) f"
proof -
  let ?g = "\<lambda>kv. map_option (Pair (fst kv)) (f (snd kv))"
  have keys: "fst ` set (List.map_filter ?g xs) \<subseteq> fst ` set xs" for xs
    by (force simp: List.map_filter_def)
  from assms show ?thesis
  proof (induction xs)
    case (Cons x xs)
    then have "fst x \<notin> fst ` set (List.map_filter ?g xs)" using keys [of xs] by auto
    moreover have "map_of xs (fst x) = None" using Cons.prems by (simp add: map_of_eq_None_iff)
    ultimately show ?case using Cons by (cases "f (snd x)") (auto simp: map_filter_simps)
  qed (simp add: map_filter_simps)
qed

lemma scan_map_of:
  assumes "distinct (map fst (agents r))"
  shows "map_of (agents (scanAndMarkStatus now r)) i = Option.bind (map_of (agents r) i)
     (\<lambda>n. fst (scan_node (unhealthyThreshold r) (offlineThreshold r) now n))"
    and "distinct (map fst (agents (scanAndMarkStatus now r)))"
  using map_filter_keys [OF assms, of "\<lambda>n. fst (scan_node (unhealthyThreshold r) (offlineThreshold r) now n)" i]
  by (simp_all add: scan_agents)

lemma scan_instances [simp]: "instances (scanAndMarkStatus now r) = instances r"
  by (simp add: scanAndMarkStatus_def Let_def)

lemma scan_ok [inv_intros]:
  assumes "reg_ok r"
  shows "reg_ok (scanAndMarkStatus now r)"
proof -
  have d: "distinct (map fst (agents r))" using assms by (simp add: reg_ok_def)
  show ?thesis using assms
    unfolding reg_ok_def scan_map_of(1) [OF d] scan_instances
    by (auto simp: scan_map_of(2) [OF d] bind_eq_Some_conv scan_node_eq node_ok_def node_instance_def split: if_splits)
qed

text \<open>One lemma per operation.\<close>

lemma Register_ok [inv_intros]: "reg_ok r \<Longrightarrow> node_ok n \<Longrightarrow> reg_ok (Register n r)"
  by (rule reg_ok_put [of r _ "nID n" n]) simp_all

lemma Heartbeat_ok [inv_intros]:
  assumes "reg_ok r" "heartbeatAgentStatus (hStatus req) (hCurrentTaskID req) = Inr s"
  shows "reg_ok (snd (Heartbeat now i req r))"
proof (cases "map_of (agents r) i")
  case None
  then show ?thesis using assms by (simp add: Heartbeat_def)
next
  case (Some n)
  then have "nID n = i" using assms(1) by (simp add: reg_ok_def)
  with Some show ?thesis
    by (metis Heartbeat_sel [OF Some assms(2)] assms(1) map_of_put_task reg_ok_put)
qed

lemma RegStartTask_ok [inv_intros]:
  assumes "reg_ok r" "t \<noteq> []"
  shows "reg_ok (snd (RegStartTask now i t b r))"
proof (cases "map_of (agents r) i")
  case (Some n)
  then have "nID n = i" using assms(1) by (simp add: reg_ok_def)
  with Some assms(2) show ?thesis
    by (intro reg_ok_put [OF assms(1), of _ i
        "n\<lparr>nStatus := Busy, nCurrentTaskID := t, nCurrentBots := b, nLastHeartbeatAt := now\<rparr>"])
      (simp_all add: RegStartTask_def Let_def node_instance_def node_ok_def)
qed (use assms in \<open>simp add: RegStartTask_def\<close>)

lemma CompleteTask_ok [inv_intros]:
  assumes "reg_ok r"
  shows "reg_ok (snd (CompleteTask i t r))"
proof (cases "\<exists>n. map_of (agents r) i = Some n \<and> nCurrentTaskID n = t")
  case True
  then obtain n where n: "map_of (agents r) i = Some n" "nCurrentTaskID n = t" by blast
  then have "nID n = i" using assms by (simp add: reg_ok_def)
  with n show ?thesis
    by (intro reg_ok_put [OF assms, of _ i
        "n\<lparr>nCurrentTaskID := [], nCurrentBots := 0, nStatus := Idle, nLatestStress := None, nStressUpdatedAt := 0\<rparr>"])
      (simp_all add: CompleteTask_def node_instance_def node_ok_def)
qed (use assms in \<open>auto simp: CompleteTask_def split: option.split\<close>)

lemma Touch_ok [inv_intros]:
  assumes "reg_ok r"
  shows "reg_ok (Touch now i v r)"
proof (cases "map_of (agents r) i")
  case (Some n)
  then have "nStatus n = Unhealthy \<or> nStatus n = Offline \<or> node_ok n" using assms by (simp add: reg_ok_def)
  from touchLocked_node [OF this, of now v] show ?thesis
    by (intro reg_ok_keep [OF assms Some, of _ "fst (touchLocked now v n)"])
      (simp_all add: Touch_def Some split: prod.split option.split)
qed (use assms in \<open>simp add: Touch_def\<close>)

lemma Deregister_ok [inv_intros]:
  assumes "reg_ok r"
  shows "reg_ok (snd (Deregister i r))"
proof (cases "map_of (agents r) i")
  case (Some n)
  then have "agents (snd (Deregister i r)) = del_task i (agents r)" "instances (snd (Deregister i r)) = instances r"
    by (simp_all add: Deregister_def Let_def)
  then show ?thesis
    using assms unfolding reg_ok_def by (metis distinct_del_task fun_upd_apply map_of_del_task option.distinct(1))
qed (use assms in \<open>simp add: Deregister_def\<close>)

lemma Update_ok [inv_intros]:
  assumes "reg_ok r"
  shows "reg_ok (UpdateStress i x at r)" "reg_ok (UpdateSystem i y at r)"
proof -
  have "reg_ok (put_node n' i r)"
    if "map_of (agents r) i = Some n" "nID n' = nID n" "nStatus n' = nStatus n"
      "nCurrentTaskID n' = nCurrentTaskID n" "nStartedAt n' = nStartedAt n" for n n'
    using that reg_okD(2) [OF assms that(1)]
    by (intro reg_ok_keep [OF assms that(1), of _ n']) (simp_all add: node_instance_def node_ok_def)
  then show "reg_ok (UpdateStress i x at r)" "reg_ok (UpdateSystem i y at r)"
    using assms by (auto simp: UpdateStress_def UpdateSystem_def split: option.split)
qed

lemma SetOnRestart_ok [inv_intros]: "reg_ok r \<Longrightarrow> reg_ok (SetOnRestart fn r)"
  unfolding SetOnRestart_def reg_ok_def by simp

interpretation reg: op_system reg_step reg_ok reg_allowed
proof
  fix r op
  assume "reg_ok r" "reg_allowed op"
  then show "reg_ok (reg_step op r)"
    by (cases op) (auto intro: inv_intros split: sum.splits)
qed


lemma NewRegistry_ok: "reg_ok (NewRegistry u off cb)"
  by (simp add: NewRegistry_def reg_ok_def)

definition sample_node :: Node where
  "sample_node = \<lparr>nID = ''a'', nName = ''n'', nAddress = [], nAppVersion = [], nMaxBots = 10, nStartedAt = 5,
     nStatus = Idle, nLastHeartbeatAt = 100, nCurrentTaskID = [], nCurrentBots = 0, nLatestStress = None,
     nLatestSystem = None, nStressUpdatedAt = 0, nSystemUpdatedAt = 0\<rparr>"

definition sample_beat :: HeartbeatRequest where
  "sample_beat = \<lparr>hStatus = ''busy'', hCurrentTaskID = [], hCurrentBots = 3, hAppVersion = []\<rparr>"

definition sample_reg :: Registry where
  "sample_reg = SetOnRestart True (Register sample_node (NewRegistry 15 60 True))"

lemmas sample_defs = sample_reg_def sample_node_def sample_beat_def NewRegistry_def SetOnRestart_def

lemma sample_reg_ok: "reg_ok sample_reg"
  unfolding sample_reg_def by (intro inv_intros NewRegistry_ok) (simp add: node_ok_def sample_node_def)

text \<open>
  C22. Whatever the order of the calls, the registry stays consistent as long as its callers
  follow the protocol: there is one node per identifier, an idle node has no task, a busy node has
  one, no offline node is kept, and the instance record that restart detection reads carries the
  node's process start time and its current task.
\<close>

theorem registry_consistent:
  assumes "list_all reg_allowed ops"
  shows "reg_ok (fold reg_step ops (NewRegistry u off cb))"
  using reg.run_inv [OF NewRegistry_ok assms] .

theorem registry_consistent_witness:
  "reg_ok (fold reg_step [OpRegister sample_node, OpStartTask 101 ''a'' ''t'' 4, OpScan 130, OpCompleteTask ''a'' ''t'']
     (NewRegistry 15 60 True))"
  using registry_consistent [of "[OpRegister sample_node, OpStartTask 101 ''a'' ''t'' 4, OpScan 130,
     OpCompleteTask ''a'' ''t'']"] by (simp add: node_ok_def sample_node_def)

text \<open>Calls that do not concern what the registry knows of agent \<open>i\<close>'s instance.\<close>

fun quiet :: "string \<Rightarrow> reg_op \<Rightarrow> bool" where
  "quiet i (OpRegister n) = (nID n \<noteq> i)"
| "quiet i (OpHeartbeat now j req) = (j \<noteq> i)"
| "quiet i (OpStartTask now j t b) = (j \<noteq> i)"
| "quiet i (OpCompleteTask j t) = (j \<noteq> i)"
| "quiet i _ = True"

lemma quiet_instance: "quiet i op \<Longrightarrow> map_of (instances (reg_step op r)) i = map_of (instances r) i"
  by (cases op) (auto simp: Heartbeat_def RegStartTask_def CompleteTask_def Touch_def Deregister_def UpdateStress_def
      UpdateSystem_def SetOnRestart_def Let_def split: option.split sum.split prod.split)

lemma quiet_instances:
  "list_all (quiet i) ops \<Longrightarrow> map_of (instances (fold reg_step ops r)) i = map_of (instances r) i"
  by (induction ops arbitrary: r) (simp_all add: quiet_instance)

lemma Register_restarts:
  "restarts (Register n r) = restarts r @
     (if restarted_task (map_of (instances r) (nID n)) n \<noteq> [] \<and> hasOnRestart r
      then [(nID n, restarted_task (map_of (instances r) (nID n)) n)] else [])"
  by (simp add: Register_def Let_def split: option.split)

text \<open>
  C21. A task that died with its agent process is reported.  After the start of task \<open>t\<close> on agent
  \<open>i\<close> is acknowledged, let any calls happen that are not for \<open>i\<close>'s instance: metrics, touches,
  health scans that drop \<open>i\<close> as offline, its deregistration, anything for other agents.  When
  \<open>i\<close> registers again, the restart callback runs with \<open>t\<close> once if the process start time differs,
  and not at all if it is the same process.
\<close>

theorem restart_reports_lost_task:
  assumes "map_of (agents r) i = Some n0" "nStartedAt n0 \<noteq> 0" "t \<noteq> []"
    and "list_all (quiet i) ops" "r' = fold reg_step ops (snd (RegStartTask now i t b r))"
    and "hasOnRestart r'" "nID n = i" "nStartedAt n \<noteq> 0"
  shows "restarts (Register n r') = restarts r' @ (if nStartedAt n = nStartedAt n0 then [] else [(i, t)])"
proof -
  have "map_of (instances r') i = Some \<lparr>iStartedAt = nStartedAt n0, iTaskID = t\<rparr>"
    using assms(1,4,5) by (simp add: quiet_instances RegStartTask_def Let_def)
  then show ?thesis using assms(2,3,6-8) by (simp add: Register_restarts restarted_task_def)
qed

theorem restart_reports_lost_task_witness:
  "let r' = fold reg_step [OpTouch 120 ''a'' [], OpScan 500] (snd (RegStartTask 101 ''a'' ''t'' 4 sample_reg))
   in RegGet ''a'' r' = None \<and>
      restarts (Register (sample_node\<lparr>nStartedAt := 6\<rparr>) r') = [(''a'', ''t'')]"
proof -
  define r' where "r' = fold reg_step [OpTouch 120 ''a'' [], OpScan 500] (snd (RegStartTask 101 ''a'' ''t'' 4 sample_reg))"
  have r': "agents r' = []" "hasOnRestart r'" "restarts r' = []"
    unfolding r'_def by code_simp+
  have "restarts (Register (sample_node\<lparr>nStartedAt := 6\<rparr>) r') = restarts r' @ [(''a'', ''t'')]"
    using restart_reports_lost_task [of sample_reg "''a''" sample_node "''t''" "[OpTouch 120 ''a'' [], OpScan 500]" r'
        101 4 "sample_node\<lparr>nStartedAt := 6\<rparr>"] r'
    by (simp add: r'_def sample_defs)
  then show ?thesis using r' unfolding r'_def [symmetric] Let_def by (simp add: RegGet_def)
qed

lemma scan_changes:
  "hasOnChange r \<Longrightarrow> changes (scanAndMarkStatus now r) = changes r @
     concat (map (\<lambda>kv. snd (scan_node (unhealthyThreshold r) (offlineThreshold r) now (snd kv))) (agents r))"
  by (simp add: scanAndMarkStatus_def Let_def o_def)

lemma concat_events:
  assumes "distinct (map fst xs)" "map_of xs i = Some n"
    "\<And>k v c. (k, v) \<in> set xs \<Longrightarrow> c \<in> set (f v) \<Longrightarrow> fst c = k"
  shows "filter (\<lambda>c. fst c = i) (concat (map (\<lambda>kv. f (snd kv)) xs)) = f n"
  using assms
proof (induction xs)
  case (Cons x xs)
  have other: "filter (\<lambda>c. fst c = i) (concat (map (\<lambda>kv. f (snd kv)) ys)) = []"
    if "\<forall>y \<in> set ys. fst y \<noteq> i \<and> y \<in> set (x # xs)" for ys
    using that Cons.prems(3) by (force simp: filter_empty_conv)
  show ?case
  proof (cases "fst x = i")
    case True
    have "filter (\<lambda>c. fst c = i) (f (snd x)) = f (snd x)"
      using Cons.prems(3) [of "fst x" "snd x"] True by (auto simp: filter_id_conv)
    moreover have "\<forall>y \<in> set xs. fst y \<noteq> i \<and> y \<in> set (x # xs)" using Cons.prems(1) True by (auto simp: rev_image_eqI)
    ultimately show ?thesis using True Cons.prems(2) other [of xs] by (cases x) simp
  next
    case False
    have "filter (\<lambda>c. fst c = i) (f (snd x)) = []"
      using Cons.prems(3) [of "fst x" "snd x"] False by (force simp: filter_empty_conv)
    moreover have "map_of xs i = Some n" using Cons.prems(2) False by (cases x) (simp split: if_splits)
    then have "filter (\<lambda>c. fst c = i) (concat (map (\<lambda>kv. f (snd kv)) xs)) = f n"
      using Cons.prems(1) by (intro Cons.IH) (auto intro: Cons.prems(3))
    ultimately show ?thesis by simp
  qed
qed simp

text \<open>
  A health scan decides each agent by the age of its last heartbeat alone: at or past the
  offline threshold the agent is dropped, at or past the unhealthy threshold it is marked, else
  left as it is; and the change callback runs exactly once for an agent whose status changed and
  not for the others.
\<close>

theorem scan_decides_by_lag:
  assumes "reg_ok r" "hasOnChange r" "map_of (agents r) i = Some n" "lag = now - nLastHeartbeatAt n"
  shows "map_of (agents (scanAndMarkStatus now r)) i =
      (if lag \<ge> offlineThreshold r then None
       else if lag \<ge> unhealthyThreshold r then Some (n\<lparr>nStatus := Unhealthy\<rparr>) else Some n) \<and>
    filter (\<lambda>c. fst c = i) (changes (scanAndMarkStatus now r)) =
      filter (\<lambda>c. fst c = i) (changes r) @
      (if lag \<ge> offlineThreshold r then [(i, nStatus n, Offline)]
       else if lag \<ge> unhealthyThreshold r \<and> nStatus n \<noteq> Unhealthy then [(i, nStatus n, Unhealthy)] else [])"
proof -
  let ?s = "\<lambda>n. scan_node (unhealthyThreshold r) (offlineThreshold r) now n"
  have d: "distinct (map fst (agents r))" using assms(1) by (simp add: reg_ok_def)
  have "fst c = k" if "(k, v) \<in> set (agents r)" "c \<in> set (snd (?s v))" for k v c
    using that reg_okD(1) [OF assms(1), of k v] d by (auto simp: scan_node_eq split: if_splits)
  from concat_events [OF d assms(3), of "\<lambda>n. snd (?s n)", OF this]
  have ev: "filter (\<lambda>c. fst c = i) (concat (map (\<lambda>kv. snd (?s (snd kv))) (agents r))) = snd (?s n)" .
  have "nID n = i" "nStatus n \<noteq> Offline" using reg_okD [OF assms(1,3)] by (auto simp: node_ok_def)
  then show ?thesis
    using assms(3,4) unfolding scan_changes [OF assms(2)] scan_map_of(1) [OF d] filter_append ev
    by (simp add: scan_node_eq)
qed

theorem scan_decides_by_lag_witness:
  "map_of (agents (scanAndMarkStatus 120 sample_reg)) ''a'' = Some (sample_node\<lparr>nStatus := Unhealthy\<rparr>) \<and>
   filter (\<lambda>c. fst c = ''a'') (changes (scanAndMarkStatus 120 sample_reg)) = [(''a'', Idle, Unhealthy)]"
  using scan_decides_by_lag [OF sample_reg_ok, of "''a''" sample_node 20 120]
  by (simp add: sample_defs Register_def Let_def put_node_def put_instance_def put_task_def restarted_task_def)

text \<open>
  A heartbeat the registry rejects is not without effect: a busy agent's heartbeat that lacks
  its task identifier is answered with an error, yet it has already cleared the node's current
  task, which leaves a busy node without a task, and the agent's genuine completion of that task is
  then turned away as late.
\<close>

theorem rejected_heartbeat_drops_task:
  assumes "map_of (agents r) i = Some n" "nCurrentTaskID n \<noteq> []" "nStatus n = Busy"
    and "hStatus req = ''busy''" "hCurrentTaskID req = []"
  shows "fst (Heartbeat now i req r) = Some BusyWithoutTask \<and>
    \<not> reg_ok (snd (Heartbeat now i req r)) \<and>
    CompleteTask i (nCurrentTaskID n) (snd (Heartbeat now i req r)) = (Inr False, snd (Heartbeat now i req r))"
  using assms
  by (auto simp: Heartbeat_def heartbeatAgentStatus_def Let_def CompleteTask_def reg_ok_def node_ok_def)

theorem rejected_heartbeat_drops_task_witness:
  "let r = snd (RegStartTask 101 ''a'' ''t'' 4 sample_reg)
   in fst (Heartbeat 102 ''a'' sample_beat r) = Some BusyWithoutTask \<and>
      fst (CompleteTask ''a'' ''t'' (snd (Heartbeat 102 ''a'' sample_beat r))) = Inr False"
  using rejected_heartbeat_drops_task [of "snd (RegStartTask 101 ''a'' ''t'' 4 sample_reg)" "''a''"
      "sample_node\<lparr>nStatus := Busy, nCurrentTaskID := ''t'', nCurrentBots := 4, nLastHeartbeatAt := 101\<rparr>" sample_beat 102]
  by (simp add: sample_defs RegStartTask_def Let_def)

end
