(* ===== verification/Assign.thy ===== *)
theory Assign
  imports Registry Float64
begin

text \<open>
  Distribution of a task over the agents: \<^verbatim>\<open>admin/task/assignment.go\<close> (how many robots each agent
  runs), \<^verbatim>\<open>distribution.go\<close> (each agent's share of a global concurrency and of the ramp-up stages)
  and \<^verbatim>\<open>stage_plan.go\<close> (the segments between resets).  Sums and products wrap at 64 bits, the
  fractions are float64 values.  The increments of single counters are unbounded: a counter never
  passes the total it is dealt from.
\<close>

subsection \<open>Sums and the choice of the largest fraction\<close>

definition exact_share :: "int \<Rightarrow> int \<Rightarrow> int \<Rightarrow> float64" where
  "exact_share a b c = fdiv (fmul (f64_of_int a) (f64_of_int b)) (f64_of_int c)"

text \<open>
  The scan the three distribution loops share: the first eligible index whose fraction is larger
  than all before it, starting from -1; None when no fraction is.
\<close>

fun best_fraction :: "nat \<Rightarrow> (bool \<times> float64) list \<Rightarrow> float64 \<Rightarrow> nat option \<Rightarrow> nat option" where
  "best_fraction j [] bestFraction bestIndex = bestIndex"
| "best_fraction j ((eligible, f) # fs) bestFraction bestIndex =
     (if eligible \<and> flt bestFraction f then best_fraction (Suc j) fs f (Some j)
      else best_fraction (Suc j) fs bestFraction bestIndex)"

text \<open>
  The loop that hands out a remainder one by one: the best index is bumped and leaves the
  competition; the loop ends early when no index is left.
\<close>

fun top_up :: "(nat \<Rightarrow> 's \<Rightarrow> 's) \<Rightarrow> nat \<Rightarrow> bool list \<Rightarrow> float64 list \<Rightarrow> 's \<Rightarrow> 's" where
  "top_up bump 0 eligible fractions s = s"
| "top_up bump (Suc remainder) eligible fractions s =
     (case best_fraction 0 (zip eligible fractions) (Fin (- 1)) None of
        None \<Rightarrow> s
      | Some best \<Rightarrow> top_up bump remainder eligible (fractions[best := Fin (- 1)]) (bump best s))"

subsection \<open>Assignment\<close>

datatype assign_error = NoIdleAgents | CapacityExceeded int int nat | AssignPanic

definition available_agents :: "Node list \<Rightarrow> Node list" where
  "available_agents ags = filter (\<lambda>ag. nStatus ag = Idle \<and> nMaxBots ag > 0) ags"

definition share_fracs :: "int \<Rightarrow> int \<Rightarrow> Node list \<Rightarrow> int list \<Rightarrow> float64 list" where
  "share_fracs totalBots cap ags bots =
     map2 (\<lambda>ag b. fsub (exact_share totalBots (nMaxBots ag) cap) (f64_of_int b)) ags bots"

definition give_one :: "int \<Rightarrow> int \<Rightarrow> Node list \<Rightarrow> int list \<Rightarrow> int list" where
  "give_one totalBots cap ags bots =
     (let best = (case best_fraction 0 (map (Pair True) (share_fracs totalBots cap ags bots)) (Fin (- 1)) None of
                    None \<Rightarrow> 0 | Some i \<Rightarrow> i)
      in bots[best := bots ! best + 1])"

fun lay_out :: "Task \<Rightarrow> (Node \<times> int) list \<Rightarrow> int \<Rightarrow> Assignment list" where
  "lay_out t [] cursor = []"
| "lay_out t ((ag, b) # rest) cursor =
     \<lparr>asTaskID = tID t, asAgentID = nID ag, asAgentName = nName ag, asStartNumber = cursor, asTotalBots = b\<rparr>
       # lay_out t rest (wrap64 (cursor + b))"

definition base_bots :: "int \<Rightarrow> int \<Rightarrow> Node list \<Rightarrow> int list" where
  "base_bots totalBots cap ags = map (\<lambda>ag. go_div (wrap64 (totalBots * nMaxBots ag)) cap) ags"

text \<open>A zero divisor and an index into no agents are run-time panics.\<close>

definition proportionalAssign :: "Task \<Rightarrow> Node list \<Rightarrow> int \<Rightarrow> assign_error + Assignment list" where
  "proportionalAssign t ags startNumber =
     (let totalCapacity = wsum (map nMaxBots ags);
          bots = base_bots (tTotalBots t) totalCapacity ags;
          assigned = wsum bots;
          remainder = nat (wrap64 (tTotalBots t - assigned))
      in if ags \<noteq> [] \<and> totalCapacity = 0 then Inl AssignPanic
         else if ags = [] \<and> 0 < remainder then Inl AssignPanic
         else Inr (lay_out t (zip ags ((give_one (tTotalBots t) totalCapacity ags ^^ remainder) bots)) startNumber))"

fun debug_best :: "int \<Rightarrow> Node list \<Rightarrow> Node option \<Rightarrow> Node option" where
  "debug_best totalBots [] best = best"
| "debug_best totalBots (ag # ags) best =
     debug_best totalBots ags
       (if nMaxBots ag \<ge> totalBots \<and> (case best of None \<Rightarrow> True | Some b \<Rightarrow> nMaxBots ag < nMaxBots b) then Some ag else best)"

definition Assign :: "Task \<Rightarrow> Node list \<Rightarrow> int \<Rightarrow> assign_error + Assignment list" where
  "Assign t ags startNumber =
     (let available = available_agents ags;
          totalCapacity = wsum (map nMaxBots available);
          startNumber = (if startNumber < 0 then 0 else startNumber)
      in if available = [] then Inl NoIdleAgents
         else if totalCapacity < tTotalBots t
           then Inl (CapacityExceeded (tTotalBots t) totalCapacity (length available))
         else if rcDebugMode (tRobotConfig t)
           then (case debug_best (tTotalBots t) available None of
                   Some best \<Rightarrow> Inr [\<lparr>asTaskID = tID t, asAgentID = nID best, asAgentName = nName best,
                     asStartNumber = startNumber, asTotalBots = tTotalBots t\<rparr>]
                 | None \<Rightarrow> proportionalAssign t available startNumber)
         else proportionalAssign t available startNumber)"

definition AssignmentStartIndex :: "Assignment \<Rightarrow> int \<Rightarrow> int" where
  "AssignmentStartIndex a taskStartNumber = wrap64 (asStartNumber a - taskStartNumber)"

subsection \<open>Distribution of concurrency and ramp-up\<close>

definition ExpectedAgents :: "Task option \<Rightarrow> string set" where
  "ExpectedAgents t = (case t of
     None \<Rightarrow> {}
   | Some t \<Rightarrow> if tSucceededAgents t \<noteq> [] then set (tSucceededAgents t) else set (map asAgentID (tAssignments t)))"

definition assignedAgentCount :: "Assignment list \<Rightarrow> int" where
  "assignedAgentCount as = int (length (filter (\<lambda>a. asTotalBots a > 0) as))"

datatype concurrency_error = ConcurrencyTooSmall int int | StageConcurrencyTooSmall nat int int

fun check_stages :: "nat \<Rightarrow> RampUpStage list \<Rightarrow> int \<Rightarrow> concurrency_error option" where
  "check_stages index [] agentCount = None"
| "check_stages index (stage # stages) agentCount =
     (if rsConcurrency stage > 0 \<and> rsConcurrency stage < agentCount
      then Some (StageConcurrencyTooSmall index (rsConcurrency stage) agentCount)
      else check_stages (Suc index) stages agentCount)"

definition ValidateDistributedConcurrency :: "RobotConfig \<Rightarrow> Assignment list \<Rightarrow> concurrency_error option" where
  "ValidateDistributedConcurrency cfg as =
     (let agentCount = assignedAgentCount as
      in if agentCount \<le> 1 then None
         else if rcConcurrency cfg > 0 \<and> rcConcurrency cfg < agentCount
           then Some (ConcurrencyTooSmall (rcConcurrency cfg) agentCount)
         else (case rcRampUp cfg of None \<Rightarrow> None | Some stages \<Rightarrow> check_stages 0 stages agentCount))"

definition out_get :: "(string \<rightharpoonup> int) \<Rightarrow> string \<Rightarrow> int" where
  "out_get out k = (case out k of None \<Rightarrow> 0 | Some v \<Rightarrow> v)"

definition out_add :: "int \<Rightarrow> string \<Rightarrow> (string \<rightharpoonup> int) \<Rightarrow> string \<rightharpoonup> int" where
  "out_add d k out = out(k \<mapsto> out_get out k + d)"

definition split_floor :: "int \<Rightarrow> int \<Rightarrow> Assignment \<Rightarrow> int" where
  "split_floor global totalBots a = max (int_of_f64 (ffloor (exact_share global (asTotalBots a) totalBots))) 1"

definition split_fraction :: "int \<Rightarrow> int \<Rightarrow> Assignment \<Rightarrow> float64" where
  "split_fraction global totalBots a =
     (if asTotalBots a \<le> 0 then Fin 0
      else fsub (exact_share global (asTotalBots a) totalBots) (ffloor (exact_share global (asTotalBots a) totalBots)))"

text \<open>The first of the richest active assignments with more than \<open>richest\<close>.\<close>

fun richest_index :: "(string \<rightharpoonup> int) \<Rightarrow> nat \<Rightarrow> Assignment list \<Rightarrow> int \<Rightarrow> nat option \<Rightarrow> nat option" where
  "richest_index out j [] richest richestIndex = richestIndex"
| "richest_index out j (a # as) richest richestIndex =
     (if asTotalBots a \<le> 0 then richest_index out (Suc j) as richest richestIndex
      else if out_get out (asAgentID a) > richest
        then richest_index out (Suc j) as (out_get out (asAgentID a)) (Some j)
      else richest_index out (Suc j) as richest richestIndex)"

fun reclaim :: "nat \<Rightarrow> Assignment list \<Rightarrow> (string \<rightharpoonup> int) \<Rightarrow> string \<rightharpoonup> int" where
  "reclaim 0 as out = out"
| "reclaim (Suc surplus) as out =
     (case richest_index out 0 as 1 None of
        None \<Rightarrow> out
      | Some i \<Rightarrow> reclaim surplus as (out_add (- 1) (asAgentID (as ! i)) out))"

definition SplitGlobalValues :: "int \<Rightarrow> int \<Rightarrow> Assignment list \<Rightarrow> string \<rightharpoonup> int" where
  "SplitGlobalValues global totalBots as =
     (if global \<le> 0 \<or> totalBots \<le> 0 \<or> as = [] then Map.empty
      else let active = filter (\<lambda>a. asTotalBots a > 0) as;
               out = foldl (\<lambda>out a. out(asAgentID a \<mapsto> split_floor global totalBots a)) Map.empty active;
               used = wsum (map (split_floor global totalBots) active);
               out = top_up (\<lambda>i. out_add 1 (asAgentID (as ! i))) (nat (wrap64 (global - used)))
                 (map (\<lambda>a. asTotalBots a > 0) as) (map (split_fraction global totalBots) as) out
           in reclaim (nat (wrap64 (used - global))) as out)"

definition stage_floor :: "int \<Rightarrow> int \<Rightarrow> RampUpStage \<Rightarrow> int" where
  "stage_floor totalBots assignedBots st = max (int_of_f64 (ffloor (exact_share (rsCount st) assignedBots totalBots))) 0"

definition stage_fraction :: "int \<Rightarrow> int \<Rightarrow> RampUpStage \<Rightarrow> float64" where
  "stage_fraction totalBots assignedBots st =
     fsub (exact_share (rsCount st) assignedBots totalBots) (f64_of_int (stage_floor totalBots assignedBots st))"

definition ScaleRampUp :: "RampUpStage list option \<Rightarrow> int \<Rightarrow> int \<Rightarrow> Assignment list \<Rightarrow> string \<Rightarrow> RampUpStage list option" where
  "ScaleRampUp cfg totalBots assignedBots as agentID = (case cfg of
     None \<Rightarrow> None
   | Some stages \<Rightarrow>
       if totalBots \<le> 0 \<or> assignedBots = totalBots \<or> stages = [] then Some stages
       else if assignedBots \<le> 0 then Some (map (\<lambda>st. st\<lparr>rsCount := 0\<rparr>) stages)
       else let counts = map (stage_floor totalBots assignedBots) stages;
                used = wsum counts;
                counts = top_up (\<lambda>i cs. cs[i := cs ! i + 1]) (nat (wrap64 (assignedBots - used)))
                  (map (\<lambda>st. True) stages) (map (stage_fraction totalBots assignedBots) stages) counts
            in Some (map2 (\<lambda>st c. st\<lparr>rsCount := c,
                 rsConcurrency := (if rsConcurrency st > 0
                   then out_get (SplitGlobalValues (rsConcurrency st) totalBots as) agentID
                   else rsConcurrency st)\<rparr>) stages counts))"

subsection \<open>Stage plan\<close>

record StageSegment =
  segNo :: nat
  segFromStage :: nat
  segToStage :: nat
  segPeakBots :: int
  segIsFinal :: bool

record StagePlan =
  HasRampUp :: bool
  HasReset :: bool
  StageCount :: nat
  Boundaries :: "nat list"
  Segments :: "StageSegment list"
  resetIndexToSegmentNo :: "(nat \<times> nat) list"

definition sumCounts :: "RampUpStage list \<Rightarrow> nat \<Rightarrow> nat \<Rightarrow> int" where
  "sumCounts stages from to = wsum (map rsCount (drop from (take to stages)))"

fun plan_segments :: "RampUpStage list \<Rightarrow> nat \<Rightarrow> nat \<Rightarrow> nat list \<Rightarrow> StageSegment list" where
  "plan_segments stages j prev [] =
     [\<lparr>segNo = j + 1, segFromStage = prev + 1, segToStage = length stages,
       segPeakBots = sumCounts stages prev (length stages), segIsFinal = True\<rparr>]"
| "plan_segments stages j prev (b # bs) =
     \<lparr>segNo = j + 1, segFromStage = prev + 1, segToStage = b, segPeakBots = sumCounts stages prev b, segIsFinal = False\<rparr>
       # plan_segments stages (j + 1) b bs"

definition empty_plan :: StagePlan where
  "empty_plan = \<lparr>HasRampUp = False, HasReset = False, StageCount = 0, Boundaries = [], Segments = [],
     resetIndexToSegmentNo = []\<rparr>"

definition BuildStagePlan :: "RampUpStage list option \<Rightarrow> StagePlan" where
  "BuildStagePlan cfg = (case cfg of
     None \<Rightarrow> empty_plan
   | Some stages \<Rightarrow>
       if stages = [] then empty_plan
       else let plan = empty_plan\<lparr>HasRampUp := True, StageCount := length stages,
                  Boundaries := filter (\<lambda>i. rsReset (stages ! i)) [1..<length stages]\<rparr>
            in if Boundaries plan = [] then plan
               else plan\<lparr>HasReset := True, Segments := plan_segments stages 0 0 (Boundaries plan),
                      resetIndexToSegmentNo := zip (Boundaries plan) [1..<Suc (length (Boundaries plan))]\<rparr>)"

definition SegmentNoForResetIndex :: "StagePlan \<Rightarrow> nat \<Rightarrow> nat" where
  "SegmentNoForResetIndex p resetIdx = (case map_of (resetIndexToSegmentNo p) resetIdx of None \<Rightarrow> 0 | Some n \<Rightarrow> n)"

definition FinalSegmentNo :: "StagePlan \<Rightarrow> nat" where
  "FinalSegmentNo p = (if \<not> HasReset p then 0 else length (Segments p))"


subsection \<open>Lemmas on sums, shares and the choice of an index\<close>

lemma is_i64_between: "0 \<le> x \<Longrightarrow> x \<le> 2 ^ 53 \<Longrightarrow> is_i64 x"
  by (simp add: is_i64_def)

lemma wsum_id: "0 \<le> sum_list xs \<Longrightarrow> sum_list xs \<le> 2 ^ 53 \<Longrightarrow> wsum xs = sum_list xs"
  by (simp add: wsum_eq wrap64_id is_i64_between)

text \<open>The range in which a share is computed exactly enough.\<close>

definition share_range :: "int \<Rightarrow> int \<Rightarrow> int \<Rightarrow> bool" where
  "share_range a b c \<longleftrightarrow> 0 \<le> a \<and> a \<le> 2 ^ 53 \<and> 0 \<le> b \<and> b \<le> 2 ^ 53 \<and> a * b < 2 ^ 53 \<and> 0 < c \<and> c \<le> 2 ^ 53"

lemma exact_share_eq:
  assumes "share_range a b c"
  shows "exact_share a b c = Fin (rnd (of_int (a * b) / of_int c))"
proof -
  have r: "0 \<le> a" "a \<le> 2 ^ 53" "0 \<le> b" "b \<le> 2 ^ 53" "a * b < 2 ^ 53" "0 < c" "c \<le> 2 ^ 53"
    using assms by (auto simp: share_range_def)
  have ab: "0 \<le> a * b" using r by simp
  have q: "\<bar>of_int (a * b) / of_int c :: rat\<bar> \<le> 2 ^ 63"
  proof -
    have "(of_int (a * b) / of_int c :: rat) \<le> of_int (a * b) / 1"
      using r ab by (intro divide_left_mono) simp_all
    also have "\<dots> \<le> 2 ^ 63" using of_int_le_rat [of "a * b" "2 ^ 63"] r(5) by simp
    moreover have "(0::rat) \<le> of_int (a * b) / of_int c" using r ab by (intro divide_nonneg_pos) (simp_all flip: of_int_mult)
    ultimately show ?thesis by simp
  qed
  have "f64_of_int a = Fin (of_int a)" "f64_of_int b = Fin (of_int b)" using r by (simp_all add: f64_of_int_small)
  then have "fmul (f64_of_int a) (f64_of_int b) = f64_of_int (a * b)" by (simp add: f64_of_int_def [of "a * b"])
  then have "fmul (f64_of_int a) (f64_of_int b) = Fin (of_int (a * b))"
    using r ab by (simp only: f64_of_int_small abs_of_nonneg less_imp_le)
  moreover have "f64_of_int c = Fin (of_int c)" using r by (simp add: f64_of_int_small)
  ultimately show ?thesis using r q by (simp add: exact_share_def round64_small)
qed

lemma share_floor:
  assumes "share_range a b c"
  shows "ffloor (exact_share a b c) = Fin (of_int (a * b div c))" "int_of_f64 (ffloor (exact_share a b c)) = a * b div c"
    "0 \<le> a * b div c" "a * b div c \<le> a * b"
proof -
  have r: "0 \<le> a * b" "a * b < 2 ^ 53" "0 < c" "c < 2 ^ 63" using assms by (auto simp: share_range_def)
  show f: "ffloor (exact_share a b c) = Fin (of_int (a * b div c))"
    using rnd_quotient_floor [OF r] by (simp add: exact_share_eq [OF assms])
  show d: "0 \<le> a * b div c" "a * b div c \<le> a * b"
    using r zdiv_mono2 [of "a * b" 1 c] by (simp_all add: pos_imp_zdiv_nonneg_iff)
  then have "is_i64 (a * b div c)" using r by (simp add: is_i64_def)
  then show "int_of_f64 (ffloor (exact_share a b c)) = a * b div c"
    using d(1) by (simp add: f Let_def)
qed

lemma share_fraction_nonneg:
  assumes "share_range a b c" "k \<le> a * b div c" "0 \<le> k"
  shows "\<exists>f \<ge> 0. fsub (exact_share a b c) (Fin (of_int k)) = Fin f"
proof -
  let ?x = "rnd (of_int (a * b) / of_int c) :: rat"
  have "ffloor (exact_share a b c) = Fin (of_int (a * b div c))" by (rule share_floor [OF assms(1)])
  then have fl: "\<lfloor>?x\<rfloor> = a * b div c" by (simp add: exact_share_eq [OF assms(1)])
  then have "of_int (a * b div c) \<le> ?x" "?x < of_int (a * b div c) + 1" by linarith+
  moreover have "(of_int k :: rat) \<le> of_int (a * b div c)" using assms(2) by (rule of_int_le_rat)
  moreover have "(of_int (a * b div c) :: rat) \<le> 2 ^ 53"
    using share_floor(4) [OF assms(1)] assms(1) of_int_le_rat [of "a * b div c" "2 ^ 53"] by (auto simp: share_range_def)
  moreover have "(0::rat) \<le> of_int k" using assms(3) by simp
  moreover have "(2::rat) ^ 53 + 1 \<le> 2 ^ 63" by simp
  ultimately have d: "0 \<le> ?x - of_int k" "?x - of_int k \<le> 2 ^ 63" by linarith+
  then have "fsub (exact_share a b c) (Fin (of_int k)) = Fin (rnd (?x - of_int k))"
    by (simp add: fsub_def exact_share_eq [OF assms(1)] round64_small)
  then show ?thesis using rnd_nonneg [OF d(1)] by blast
qed

lemma flt_step: "flt b b' \<Longrightarrow> \<not> flt b x \<Longrightarrow> \<not> flt b' x"
  by (cases b; cases b'; cases x) auto

text \<open>Of the scan: the index it returns is eligible and none eligible has a larger fraction.\<close>

lemma best_fraction_spec:
  assumes "best_fraction j fs bf bi = r" "bi = None \<Longrightarrow> bf = Fin (- 1)"
  shows "(r = bi \<and> (\<forall>k < length fs. fst (fs ! k) \<longrightarrow> \<not> flt bf (snd (fs ! k)))) \<or>
    (\<exists>k < length fs. r = Some (j + k) \<and> fst (fs ! k) \<and> flt bf (snd (fs ! k)) \<and>
       (\<forall>m < length fs. fst (fs ! m) \<longrightarrow> \<not> flt (snd (fs ! k)) (snd (fs ! m))))"
  using assms
proof (induction fs arbitrary: j bf bi)
  case (Cons p fs)
  obtain el f where p: "p = (el, f)" by (cases p)
  show ?case
  proof (cases "el \<and> flt bf f")
    case True
    then have "best_fraction (Suc j) fs f (Some j) = r" using Cons.prems(1) by (simp add: p)
    from Cons.IH [OF this] consider "r = Some j" "\<forall>k < length fs. fst (fs ! k) \<longrightarrow> \<not> flt f (snd (fs ! k))"
      | k where "k < length fs" "r = Some (Suc j + k)" "fst (fs ! k)" "flt f (snd (fs ! k))"
        "\<forall>m < length fs. fst (fs ! m) \<longrightarrow> \<not> flt (snd (fs ! k)) (snd (fs ! m))" by auto
    then show ?thesis
    proof cases
      case 1
      then show ?thesis using True
        by (intro disjI2 exI [of _ 0]) (auto simp: p nth_Cons' elim: flt.elims)
    next
      case 2
      have "flt bf (snd (fs ! k))" using True 2(4) flt_step by blast
      moreover have "\<not> flt (snd (fs ! k)) f" using 2(4) flt_step [of f "snd (fs ! k)" f] by (cases f) auto
      ultimately show ?thesis using 2
        by (intro disjI2 exI [of _ "Suc k"]) (auto simp: p nth_Cons')
    qed
  next
    case False
    then have "best_fraction (Suc j) fs bf bi = r" using Cons.prems(1) by (auto simp: p)
    from Cons.IH [OF this Cons.prems(2)] consider
        "r = bi" "\<forall>k < length fs. fst (fs ! k) \<longrightarrow> \<not> flt bf (snd (fs ! k))"
      | k where "k < length fs" "r = Some (Suc j + k)" "fst (fs ! k)" "flt bf (snd (fs ! k))"
        "\<forall>m < length fs. fst (fs ! m) \<longrightarrow> \<not> flt (snd (fs ! k)) (snd (fs ! m))" by auto
    then show ?thesis
    proof cases
      case 1
      then show ?thesis using False by (intro disjI1) (auto simp: p nth_Cons')
    next
      case 2
      have "el \<Longrightarrow> \<not> flt (snd (fs ! k)) f" using 2(4) False flt_step by blast
      then show ?thesis using 2 by (intro disjI2 exI [of _ "Suc k"]) (auto simp: p nth_Cons')
    qed
  qed
qed simp

text \<open>The indices a remainder can go to.\<close>

definition open_idx :: "bool list \<Rightarrow> float64 list \<Rightarrow> nat set" where
  "open_idx el fs = {k. k < length fs \<and> el ! k \<and> flt (Fin (- 1)) (fs ! k)}"

lemma finite_open_idx [simp]: "finite (open_idx el fs)"
  by (rule finite_subset [of _ "{..<length fs}"]) (auto simp: open_idx_def)

lemma best_open:
  assumes "length el = length fs" "open_idx el fs \<noteq> {}"
  obtains k where "best_fraction 0 (zip el fs) (Fin (- 1)) None = Some k" "k \<in> open_idx el fs"
    "\<And>m. m \<in> open_idx el fs \<Longrightarrow> \<not> flt (fs ! k) (fs ! m)"
  using best_fraction_spec [OF refl, of None "Fin (- 1)" 0 "zip el fs"] assms that
  by (auto simp: open_idx_def)

lemma open_idx_close: "k \<in> open_idx el fs \<Longrightarrow> open_idx el (fs[k := Fin (- 1)]) = open_idx el fs - {k}"
  by (auto simp: open_idx_def nth_list_update)

text \<open>
  The remainder goes to as many different open indices as it has units, if there are enough of
  them.
\<close>

lemma top_up_picks:
  assumes "length el = length fs" "n \<le> card (open_idx el fs)"
  shows "\<exists>ks. length ks = n \<and> distinct ks \<and> set ks \<subseteq> open_idx el fs \<and> top_up bump n el fs s = fold bump ks s"
  using assms
proof (induction n arbitrary: fs s)
  case (Suc n)
  then have "open_idx el fs \<noteq> {}" by auto
  then obtain k where k: "best_fraction 0 (zip el fs) (Fin (- 1)) None = Some k" "k \<in> open_idx el fs"
    using best_open Suc.prems(1) by blast
  have "n \<le> card (open_idx el (fs[k := Fin (- 1)]))"
    using Suc.prems(2) k(2) by (simp add: open_idx_close)
  then obtain ks where ks: "length ks = n" "distinct ks" "set ks \<subseteq> open_idx el fs - {k}"
    "top_up bump n el (fs[k := Fin (- 1)]) (bump k s) = fold bump ks (bump k s)"
    using Suc.IH [of "fs[k := Fin (- 1)]" "bump k s"] Suc.prems(1) open_idx_close [OF k(2)] by auto
  then show ?case using k by (intro exI [of _ "k # ks"]) auto
qed simp

lemma fold_bump_list:
  assumes "set ks \<subseteq> {..<length cs}" "distinct ks"
  shows "fold (\<lambda>i cs. cs[i := cs ! i + 1]) ks cs = map (\<lambda>i. cs ! i + (if i \<in> set ks then 1 else 0 :: int)) [0..<length cs]"
  using assms
proof (induction ks arbitrary: cs)
  case Nil
  then show ?case by (simp add: map_nth)
next
  case (Cons k ks)
  then show ?case by (auto simp: nth_list_update intro!: nth_equalityI)
qed

lemma sum_list_indicator:
  fixes cs :: "int list"
  assumes "set ks \<subseteq> {..<length cs}" "distinct ks"
  shows "sum_list (map (\<lambda>i. cs ! i + (if i \<in> set ks then 1 else 0)) [0..<length cs]) = sum_list cs + int (length ks)"
proof -
  have "sum_list (map (\<lambda>i. cs ! i + (if i \<in> set ks then 1 else 0)) [0..<length cs]) =
      (\<Sum>i < length cs. cs ! i) + (\<Sum>i < length cs. if i \<in> set ks then 1 else 0)"
    by (simp add: interv_sum_list_conv_sum_set_nat atLeast0LessThan sum.distrib)
  also have "(\<Sum>i < length cs. if i \<in> set ks then 1 else 0 :: int) = int (card ({..<length cs} \<inter> set ks))"
    by (simp add: sum.If_cases Collect_mem_eq)
  also have "{..<length cs} \<inter> set ks = set ks" using assms by blast
  finally show ?thesis using assms by (simp add: sum_list_sum_nth atLeast0LessThan distinct_card)
qed

text \<open>
  Dealing \<open>total\<close> in proportion to weights that sum to \<open>c\<close>: the whole parts do not exceed the
  total, and what is missing is at most the number of shares with a fraction.
\<close>

lemma quota_sums:
  fixes w :: "'a \<Rightarrow> int"
  assumes "0 < c" "sum_list (map w xs) = c"
  shows "sum_list (map (\<lambda>x. t * w x div c) xs) \<le> t"
    and "t - sum_list (map (\<lambda>x. t * w x div c) xs) \<le> int (length (filter (\<lambda>x. t * w x mod c \<noteq> 0) xs))"
proof -
  let ?m = "sum_list (map (\<lambda>x. t * w x mod c) xs)"
  have "sum_list (map (\<lambda>x. t * w x) xs) = t * c" using assms(2) by (simp add: sum_list_const_mult)
  moreover have "sum_list (map (\<lambda>x. t * w x) xs) = c * sum_list (map (\<lambda>x. t * w x div c) xs) + ?m"
    by (simp add: sum_list_addf [symmetric] sum_list_const_mult [symmetric])
  ultimately have eq: "c * (t - sum_list (map (\<lambda>x. t * w x div c) xs)) = ?m" by (simp add: algebra_simps)
  have nonneg: "0 \<le> ?m" using assms(1) by (intro sum_list_nonneg) auto
  then have "0 \<le> t - sum_list (map (\<lambda>x. t * w x div c) xs)"
    using eq assms(1) by (metis zero_le_mult_iff not_less)
  then show "sum_list (map (\<lambda>x. t * w x div c) xs) \<le> t" by simp
  have "?m \<le> c * int (length (filter (\<lambda>x. t * w x mod c \<noteq> 0) xs))"
  proof (induction xs)
    case (Cons x xs)
    have "t * w x mod c \<le> c" using assms(1) by (simp add: less_imp_le)
    with Cons show ?case by (auto simp: algebra_simps)
  qed simp
  then show "t - sum_list (map (\<lambda>x. t * w x div c) xs) \<le> int (length (filter (\<lambda>x. t * w x mod c \<noteq> 0) xs))"
    using eq assms(1) by (metis mult_le_cancel_left_pos)
qed

lemma quota_short:
  fixes w :: "'a \<Rightarrow> int"
  assumes "0 < c" "sum_list (map w xs) = c"
  shows "t - sum_list (map (\<lambda>x. t * w x div c) xs) \<le> int (length xs)"
  using quota_sums(2) [OF assms, of t] length_filter_le [of "\<lambda>x. t * w x mod c \<noteq> 0" xs] by linarith

subsection \<open>Ramp-up\<close>

lemma member_le_sum: "x \<in> set xs \<Longrightarrow> \<forall>y \<in> set xs. 0 \<le> w y \<Longrightarrow> w x \<le> (sum_list (map w xs) :: int)"
  using member_le_sum_list [of "w x" "map w xs"] by auto

lemma share_range_weight:
  assumes "x \<in> set xs" "\<forall>y \<in> set xs. 0 \<le> w y" "sum_list (map w xs) = c" "0 < c" "c \<le> 2 ^ 53" "0 \<le> t" "t \<le> 2 ^ 53" "t * c < 2 ^ 53"
  shows "share_range (w x) t c" "share_range t (w x) c"
proof -
  have "w x \<le> c" "0 \<le> w x" using assms(1-3) member_le_sum by fastforce+
  moreover from this have "t * w x \<le> t * c" using assms(6) by (simp add: mult_left_mono)
  ultimately show "share_range (w x) t c" "share_range t (w x) c"
    using assms by (simp_all add: share_range_def mult.commute)
qed

lemma flt_minus_one: "0 \<le> f \<Longrightarrow> flt (Fin (- 1)) (Fin f)"
  by simp

lemma top_up_sum:
  assumes "length fs = length cs" "\<And>k. k < length fs \<Longrightarrow> \<exists>f \<ge> 0. fs ! k = Fin f" "n \<le> length cs"
  shows "\<exists>ks. top_up (\<lambda>i cs. cs[i := cs ! i + 1]) n (map (\<lambda>_. True) cs) fs cs =
       map (\<lambda>i. cs ! i + (if i \<in> set ks then 1 else 0 :: int)) [0..<length cs] \<and>
    sum_list (map (\<lambda>i. cs ! i + (if i \<in> set ks then 1 else 0 :: int)) [0..<length cs]) = sum_list cs + int n"
proof -
  have "open_idx (map (\<lambda>_. True) cs) fs = {..<length cs}"
    using assms(1,2) by (fastforce simp: open_idx_def)
  then have "\<exists>ks. length ks = n \<and> distinct ks \<and> set ks \<subseteq> {..<length cs} \<and>
    top_up (\<lambda>i cs. cs[i := cs ! i + 1]) n (map (\<lambda>_. True) cs) fs cs = fold (\<lambda>i cs. cs[i := cs ! i + 1]) ks cs"
    using top_up_picks [of "map (\<lambda>_. True) cs" fs n "\<lambda>i cs. cs[i := cs ! i + 1]" cs] assms(1,3) by simp
  then obtain ks where ks: "length ks = n" "distinct ks" "set ks \<subseteq> {..<length cs}"
    "top_up (\<lambda>i cs. cs[i := cs ! i + 1]) n (map (\<lambda>_. True) cs) fs cs = fold (\<lambda>i cs. cs[i := cs ! i + 1]) ks cs"
    by blast
  show ?thesis
    unfolding ks(4) fold_bump_list [OF ks(3,2)] using sum_list_indicator [OF ks(3,2)] ks(1) by blast
qed

lemma stage_floor_eq:
  assumes "share_range (rsCount st) a T"
  shows "stage_floor T a st = a * rsCount st div T" "\<exists>f \<ge> 0. stage_fraction T a st = Fin f"
proof -
  note f = share_floor [OF assms]
  show e: "stage_floor T a st = a * rsCount st div T"
    using f by (simp add: stage_floor_def mult.commute)
  have "rsCount st * a < 2 ^ 53" using assms by (simp add: share_range_def)
  then have "f64_of_int (stage_floor T a st) = Fin (of_int (stage_floor T a st))"
    using f(3,4) unfolding e by (intro f64_of_int_small) (simp add: mult.commute)
  then show "\<exists>f \<ge> 0. stage_fraction T a st = Fin f"
    using share_fraction_nonneg [OF assms, of "stage_floor T a st"] f
    by (simp add: stage_fraction_def e mult.commute)
qed

definition sample_stages :: "RampUpStage list" where
  "sample_stages =
     [\<lparr>rsCount = 5, rsConcurrency = 0, rsHoldSec = 1, rsReset = False\<rparr>,
      \<lparr>rsCount = 3, rsConcurrency = 0, rsHoldSec = 1, rsReset = True\<rparr>,
      \<lparr>rsCount = 2, rsConcurrency = 0, rsHoldSec = 2, rsReset = False\<rparr>]"

text \<open>
  An agent's scaled ramp-up launches exactly the robots assigned to it: when the stage counts
  of the task add up to its total, the scaled counts add up to the agent's assignment, each is the
  stage's exact proportional share rounded down or up, and the number of stages, their holds and
  their resets are unchanged.
\<close>

theorem ScaleRampUp_preserves_total:
  assumes "sum_list (map rsCount stages) = T" "\<forall>st \<in> set stages. 0 \<le> rsCount st"
    and "0 < a" "a < T" "T \<le> 2 ^ 53" "a * T < 2 ^ 53"
  shows "\<exists>stages'. ScaleRampUp (Some stages) T a as agentID = Some stages' \<and>
    sum_list (map rsCount stages') = a \<and>
    map (\<lambda>st. (rsHoldSec st, rsReset st)) stages' = map (\<lambda>st. (rsHoldSec st, rsReset st)) stages \<and>
    list_all2 (\<lambda>st st'. rsCount st' = a * rsCount st div T \<or> rsCount st' = a * rsCount st div T + 1) stages stages'"
proof -
  define cs where "cs = map (stage_floor T a) stages"
  define fs where "fs = map (stage_fraction T a) stages"
  have r: "share_range (rsCount st) a T" if "st \<in> set stages" for st
    using share_range_weight(1) [OF that assms(2,1)] assms(3-6) by simp
  have cs: "cs = map (\<lambda>st. a * rsCount st div T) stages"
    using stage_floor_eq(1) [OF r] by (simp add: cs_def)
  have sums: "sum_list cs \<le> a" "a - sum_list cs \<le> int (length stages)"
    using quota_sums(1) [of T rsCount stages a] quota_short [of T rsCount stages a] assms(1,3,4) unfolding cs by simp_all
  have pos: "0 \<le> sum_list cs" unfolding cs using assms(2,3,4)
    by (intro sum_list_nonneg) (auto simp: pos_imp_zdiv_nonneg_iff)
  have used: "wsum cs = sum_list cs" using sums(1) pos assms(4,5) by (intro wsum_id) auto
  have rem: "nat (wrap64 (a - sum_list cs)) = nat (a - sum_list cs)"
    using sums(1) pos assms(3-5) by (subst wrap64_id) (auto simp: is_i64_def)
  have fs: "\<exists>f \<ge> 0. fs ! k = Fin f" if "k < length fs" for k
    using that stage_floor_eq(2) [OF r, of "stages ! k"] by (simp add: fs_def)
  have "length fs = length cs" "nat (a - sum_list cs) \<le> length cs"
    using sums by (simp_all add: fs_def cs_def)
  from top_up_sum [OF this(1) fs this(2)] obtain ks where ks:
    "top_up (\<lambda>i cs. cs[i := cs ! i + 1]) (nat (a - sum_list cs)) (map (\<lambda>_. True) cs) fs cs =
       map (\<lambda>i. cs ! i + (if i \<in> set ks then 1 else 0)) [0..<length cs]"
    "sum_list (map (\<lambda>i. cs ! i + (if i \<in> set ks then 1 else 0)) [0..<length cs]) = sum_list cs + int (nat (a - sum_list cs))"
    by blast
  define ds where "ds = map (\<lambda>i. cs ! i + (if i \<in> set ks then 1 else 0)) [0..<length cs]"
  have ds: "length ds = length stages" "sum_list ds = a"
    using ks(2) sums(1) by (simp_all only: ds_def [symmetric]) (simp_all add: ds_def cs_def)
  have el: "map (\<lambda>st. True) stages = map (\<lambda>_. True) cs" by (simp add: cs_def map_replicate_const)
  have eq: "top_up (\<lambda>i cs. cs[i := cs ! i + 1]) (nat (wrap64 (a - wsum (map (stage_floor T a) stages))))
      (map (\<lambda>st. True) stages) (map (stage_fraction T a) stages) (map (stage_floor T a) stages) = ds"
    unfolding cs_def [symmetric] fs_def [symmetric] el used rem ks(1) ds_def ..
  have "stages \<noteq> []" using assms(1,3,4) by auto
  then have "ScaleRampUp (Some stages) T a as agentID = Some (map2 (\<lambda>st c. st\<lparr>rsCount := c,
      rsConcurrency := (if rsConcurrency st > 0 then out_get (SplitGlobalValues (rsConcurrency st) T as) agentID
        else rsConcurrency st)\<rparr>) stages ds)" (is "_ = Some ?st'")
    using assms(3,4) eq by (simp add: ScaleRampUp_def Let_def)
  moreover have "map rsCount ?st' = ds" "map (\<lambda>st. (rsHoldSec st, rsReset st)) ?st' = map (\<lambda>st. (rsHoldSec st, rsReset st)) stages"
    using ds(1) by (auto simp: zip_map_fst_snd intro!: nth_equalityI)
  moreover have "list_all2 (\<lambda>st st'. rsCount st' = a * rsCount st div T \<or> rsCount st' = a * rsCount st div T + 1) stages ?st'"
    using ds(1) by (auto simp: list_all2_conv_all_nth ds_def cs)
  ultimately show ?thesis using ds(2) by auto
qed

theorem ScaleRampUp_preserves_total_witness:
  "\<exists>stages'. ScaleRampUp (Some sample_stages) 10 4 [] ''a'' = Some stages' \<and> sum_list (map rsCount stages') = 4"
  using ScaleRampUp_preserves_total [of sample_stages 10 4 "[]" "''a''"]
  by (auto simp: sample_stages_def)

subsection \<open>Splitting a global value\<close>

text \<open>What a list of agents holds together.\<close>

definition held :: "(string \<rightharpoonup> int) \<Rightarrow> string list \<Rightarrow> int" where
  "held out ids = sum_list (map (out_get out) ids)"

lemma out_get_add [simp]: "out_get (out_add d k out) j = out_get out j + (if j = k then d else 0)"
  by (simp add: out_get_def out_add_def)

lemma held_add: "distinct ids \<Longrightarrow> held (out_add d k out) ids = held out ids + (if k \<in> set ids then d else 0)"
  by (induction ids) (auto simp: held_def)

lemma held_fold_add:
  assumes "distinct ids" "\<And>i. i \<in> set ks \<Longrightarrow> key i \<in> set ids"
  shows "held (fold (\<lambda>i. out_add 1 (key i)) ks out) ids = held out ids + int (length ks) \<and>
    (\<forall>j. out_get out j \<le> out_get (fold (\<lambda>i. out_add 1 (key i)) ks out) j)"
  using assms(2)
proof (induction ks arbitrary: out)
  case (Cons k ks)
  let ?out = "out_add 1 (key k) out"
  have "out_get out j \<le> out_get ?out j" for j by simp
  with Cons.IH [of ?out] Cons.prems show ?case
    using held_add [OF assms(1), of 1 "key k" out] by (simp del: out_get_add) (meson order_trans)
qed simp

lemma held_init:
  assumes "distinct (map key as)"
  shows "\<forall>a \<in> set as. out_get (foldl (\<lambda>out a. out(key a \<mapsto> val a)) out as) (key a) = val a"
    and "\<forall>k. k \<notin> key ` set as \<longrightarrow> out_get (foldl (\<lambda>out a. out(key a \<mapsto> val a)) out as) k = out_get out k"
proof -
  have "(\<forall>a \<in> set as. out_get (foldl (\<lambda>out a. out(key a \<mapsto> val a)) out as) (key a) = val a) \<and>
    (\<forall>k. k \<notin> key ` set as \<longrightarrow> out_get (foldl (\<lambda>out a. out(key a \<mapsto> val a)) out as) k = out_get out k)"
    using assms by (induction as arbitrary: out) (auto simp: out_get_def)
  then show "\<forall>a \<in> set as. out_get (foldl (\<lambda>out a. out(key a \<mapsto> val a)) out as) (key a) = val a"
    and "\<forall>k. k \<notin> key ` set as \<longrightarrow> out_get (foldl (\<lambda>out a. out(key a \<mapsto> val a)) out as) k = out_get out k"
    by blast+
qed

lemma richest_index_spec:
  "(richest_index out j as rich ri = ri \<and> (\<forall>a \<in> set as. 0 < asTotalBots a \<longrightarrow> out_get out (asAgentID a) \<le> rich)) \<or>
   (\<exists>k < length as. richest_index out j as rich ri = Some (j + k) \<and> 0 < asTotalBots (as ! k) \<and>
      rich < out_get out (asAgentID (as ! k)))"
proof (induction as arbitrary: j rich ri)
  case (Cons a as)
  let ?v = "out_get out (asAgentID a)"
  show ?case
  proof (cases "0 < asTotalBots a \<and> rich < ?v")
    case True
    with Cons.IH [of "Suc j" ?v "Some j"] show ?thesis
      by (auto intro: exI [of _ 0] exI [of _ "Suc _"] dest: order.strict_trans)
  next
    case False
    then have "richest_index out j (a # as) rich ri = richest_index out (Suc j) as rich ri" by auto
    with False Cons.IH [of "Suc j" rich ri] show ?thesis by (fastforce intro: exI [of _ "Suc _"])
  qed
qed simp

definition active_ids :: "Assignment list \<Rightarrow> string list" where
  "active_ids as = map asAgentID (filter (\<lambda>a. asTotalBots a > 0) as)"

lemma held_all_one: "\<forall>k \<in> set ids. out_get out k = 1 \<Longrightarrow> held out ids = int (length ids)"
  by (induction ids) (auto simp: held_def)

lemma held_ge: "\<forall>k \<in> set ids. 1 \<le> out_get out k \<Longrightarrow> int (length ids) \<le> held out ids"
  by (induction ids) (auto simp: held_def)

lemma reclaim_held:
  assumes "distinct (active_ids as)" "\<forall>k \<in> set (active_ids as). 1 \<le> out_get out k"
  shows "(\<forall>k \<in> set (active_ids as). 1 \<le> out_get (reclaim n as out) k) \<and>
    held (reclaim n as out) (active_ids as) = max (held out (active_ids as) - int n) (int (length (active_ids as)))"
  using assms(2)
proof (induction n arbitrary: out)
  case 0
  then show ?case using held_ge by fastforce
next
  case (Suc n)
  show ?case
  proof (cases "richest_index out 0 as 1 None")
    case None
    then have "\<forall>k \<in> set (active_ids as). out_get out k = 1"
      using richest_index_spec [of out 0 as 1 None] Suc.prems by (force simp: active_ids_def)
    with held_all_one [of "active_ids as" out] None show ?thesis by simp
  next
    case (Some i)
    then have i: "i < length as" "0 < asTotalBots (as ! i)" "1 < out_get out (asAgentID (as ! i))"
      using richest_index_spec [of out 0 as 1 None] by auto
    then have mem: "asAgentID (as ! i) \<in> set (active_ids as)" by (auto simp: active_ids_def)
    let ?out = "out_add (- 1) (asAgentID (as ! i)) out"
    have "\<forall>k \<in> set (active_ids as). 1 \<le> out_get ?out k" using Suc.prems i(3) by auto
    moreover have "held ?out (active_ids as) = held out (active_ids as) - 1"
      using held_add [OF assms(1), of "- 1"] mem by simp
    ultimately show ?thesis using Suc.IH [of ?out] Some by simp
  qed
qed

lemma split_floor_eq:
  assumes "share_range g (asTotalBots a) T"
  shows "split_floor g T a = max (g * asTotalBots a div T) 1" "\<exists>f \<ge> 0. split_fraction g T a = Fin f"
  using share_floor [OF assms] share_fraction_nonneg [OF assms, of "g * asTotalBots a div T"]
  by (simp_all add: split_floor_def split_fraction_def)


definition sample_split :: "Assignment list" where
  "sample_split = map (\<lambda>(i, s, b). \<lparr>asTaskID = ''t'', asAgentID = i, asAgentName = i, asStartNumber = s, asTotalBots = b\<rparr>)
     [(''a'', 0, 91), (''b'', 91, 5), (''c'', 96, 4), (''d'', 100, 0)]"

lemma split_used:
  assumes "sum_list (map asTotalBots act) = T" "0 < T"
    and "\<And>a. a \<in> set act \<Longrightarrow> share_range g (asTotalBots a) T"
  shows "int (length act) \<le> sum_list (map (split_floor g T) act)"
    "g - sum_list (map (split_floor g T) act) \<le> int (length act)"
    "sum_list (map (split_floor g T) act) \<le> g + int (length act)"
proof -
  let ?fl = "\<lambda>a. g * asTotalBots a div T"
  have fl: "split_floor g T a = max (?fl a) 1" "0 \<le> ?fl a" if "a \<in> set act" for a
    using split_floor_eq(1) share_floor(3) assms(3) [OF that] by blast+
  then have "sum_list (map (split_floor g T) act) = sum_list (map (\<lambda>a. max (?fl a) 1) act)"
    by (auto intro!: arg_cong [of _ _ sum_list])
  moreover have "int (length act) \<le> sum_list (map (\<lambda>a. max (?fl a) 1) act)" by (induction act) auto
  moreover have "sum_list (map ?fl act) \<le> sum_list (map (\<lambda>a. max (?fl a) 1) act)" by (intro sum_list_mono) simp
  moreover have "sum_list (map (\<lambda>a. max (?fl a) 1) act) \<le> sum_list (map (\<lambda>a. ?fl a + 1) act)"
    by (intro sum_list_mono) (use fl(2) in auto)
  moreover have "sum_list (map (\<lambda>a. ?fl a + 1) act) = sum_list (map ?fl act) + int (length act)"
    by (simp add: sum_list_addf sum_list_triv)
  moreover note quota_sums(1) [OF assms(2,1), of g] quota_short [OF assms(2,1), of g]
  ultimately show "int (length act) \<le> sum_list (map (split_floor g T) act)"
    "g - sum_list (map (split_floor g T) act) \<le> int (length act)"
    "sum_list (map (split_floor g T) act) \<le> g + int (length act)" by linarith+
qed

lemma active_open:
  assumes "\<And>a. a \<in> set as \<Longrightarrow> \<exists>f \<ge> 0. fr a = Fin f"
  shows "open_idx (map (\<lambda>a. asTotalBots a > 0) as) (map fr as) = {k. k < length as \<and> asTotalBots (as ! k) > 0}"
    "card (open_idx (map (\<lambda>a. asTotalBots a > 0) as) (map fr as)) = length (filter (\<lambda>a. asTotalBots a > 0) as)"
proof -
  show "open_idx (map (\<lambda>a. asTotalBots a > 0) as) (map fr as) = {k. k < length as \<and> asTotalBots (as ! k) > 0}"
    using assms [OF nth_mem] by (fastforce simp: open_idx_def)
  then show "card (open_idx (map (\<lambda>a. asTotalBots a > 0) as) (map fr as)) = length (filter (\<lambda>a. asTotalBots a > 0) as)"
    by (simp add: length_filter_conv_card)
qed

text \<open>
  C27. Splitting a global concurrency conserves it: each agent with robots gets at least one, and the
  parts add up to the global value exactly, or to the number of such agents when that is larger.
\<close>

theorem SplitGlobalValues_conserves:
  assumes "distinct (map asAgentID as)" "\<forall>a \<in> set as. 0 \<le> asTotalBots a" "sum_list (map asTotalBots as) = T"
    and "0 < g" "g \<le> 2 ^ 53" "0 < T" "T \<le> 2 ^ 53" "g * T < 2 ^ 53" "length as \<le> 2 ^ 53"
  shows "(\<forall>k \<in> set (active_ids as). 1 \<le> out_get (SplitGlobalValues g T as) k) \<and>
    held (SplitGlobalValues g T as) (active_ids as) = max g (int (length (active_ids as)))"
proof -
  define act where "act = filter (\<lambda>a. asTotalBots a > 0) as"
  define out0 where "out0 = foldl (\<lambda>out a. out(asAgentID a \<mapsto> split_floor g T a)) Map.empty act"
  define used where "used = sum_list (map (split_floor g T) act)"
  define out1 where "out1 = top_up (\<lambda>i. out_add 1 (asAgentID (as ! i))) (nat (g - used))
    (map (\<lambda>a. asTotalBots a > 0) as) (map (split_fraction g T) as) out0"
  have ids: "active_ids as = map asAgentID act" "distinct (map asAgentID act)"
    using assms(1) by (simp_all add: active_ids_def act_def distinct_map_filter)
  have r: "share_range g (asTotalBots a) T" if "a \<in> set as" for a
    using share_range_weight(2) [OF that assms(2,3)] assms(4-8) by simp
  have "sum_list (map asTotalBots act) = T"
    using assms(2) unfolding assms(3) [symmetric] act_def by (intro sum_list_map_filter) auto
  from split_used [OF this assms(6) r] have u: "int (length act) \<le> used" "g - used \<le> int (length act)"
      "used \<le> g + int (length act)"
    by (auto simp: used_def act_def)
  have len: "length act \<le> length as" by (simp add: act_def)
  have used: "wsum (map (split_floor g T) act) = used" "wrap64 (g - used) = g - used" "wrap64 (used - g) = used - g"
    unfolding wsum_eq used_def [symmetric] using u len assms(4,5,9) by (auto intro!: wrap64_id simp: is_i64_def)
  have get0: "\<forall>a \<in> set act. out_get out0 (asAgentID a) = split_floor g T a"
    unfolding out0_def by (rule held_init [OF ids(2)])
  then have held0: "held out0 (active_ids as) = used"
    unfolding held_def used_def ids by (simp add: o_def cong: map_cong)
  have "\<exists>f \<ge> 0. split_fraction g T a = Fin f" if "a \<in> set as" for a using split_floor_eq(2) [OF r [OF that]] .
  note op = active_open [of as "split_fraction g T", OF this, simplified]
  have "nat (g - used) \<le> length (filter (\<lambda>a. asTotalBots a > 0) as)" using u(2) unfolding act_def by linarith
  then obtain ks where ks: "length ks = nat (g - used)" "set ks \<subseteq> {k. k < length as \<and> asTotalBots (as ! k) > 0}"
    "out1 = fold (\<lambda>i. out_add 1 (asAgentID (as ! i))) ks out0"
    using top_up_picks [of "map (\<lambda>a. asTotalBots a > 0) as" "map (split_fraction g T) as" "nat (g - used)"
        "\<lambda>i. out_add 1 (asAgentID (as ! i))" out0] op unfolding out1_def by auto
  have "held out1 (active_ids as) = held out0 (active_ids as) + int (length ks) \<and> (\<forall>j. out_get out0 j \<le> out_get out1 j)"
    unfolding ks(3) using ids ks(2) by (intro held_fold_add) (auto simp: act_def)
  with held0 ks(1) have h1: "held out1 (active_ids as) = max g used" "\<And>j. out_get out0 j \<le> out_get out1 j" by auto
  have "1 \<le> out_get out0 k" if "k \<in> set (active_ids as)" for k
    using that get0 by (auto simp: ids split_floor_def)
  then have "\<forall>k \<in> set (active_ids as). 1 \<le> out_get out1 k" using h1(2) order_trans by blast
  moreover have "SplitGlobalValues g T as = reclaim (nat (used - g)) as out1"
    using assms(3,4,6) used by (auto simp: SplitGlobalValues_def Let_def act_def [symmetric] out0_def [symmetric] out1_def)
  ultimately show ?thesis
    using reclaim_held [of as out1 "nat (used - g)"] ids u(1) h1(1) by (auto simp: max_def)
qed

theorem SplitGlobalValues_conserves_witness:
  "1 \<le> out_get (SplitGlobalValues 10 100 sample_split) ''c'' \<and>
   held (SplitGlobalValues 10 100 sample_split) (active_ids sample_split) = 10"
  using SplitGlobalValues_conserves [of sample_split 100 10] by (simp add: sample_split_def active_ids_def)

subsection \<open>Proportional assignment\<close>

text \<open>The agents whose exact share is not whole.\<close>

definition ragged :: "int \<Rightarrow> int \<Rightarrow> Node list \<Rightarrow> nat set" where
  "ragged t c ags = {k. k < length ags \<and> t * nMaxBots (ags ! k) mod c \<noteq> 0}"

definition quota_of :: "int \<Rightarrow> int \<Rightarrow> Node list \<Rightarrow> nat set \<Rightarrow> int list" where
  "quota_of t c ags S = map (\<lambda>k. t * nMaxBots (ags ! k) div c + (if k \<in> S then 1 else 0)) [0..<length ags]"

lemma fsub_Fin: "fsub (Fin x) (Fin y) = round64 (x - y)"
  by (simp add: fsub_def)

lemma share_difference_sign:
  assumes "share_range a b c" "e = 0 \<or> e = 1"
  shows "\<exists>f. fsub (exact_share a b c) (f64_of_int (a * b div c + e)) = Fin f \<and>
    (if e = 0 \<and> a * b mod c \<noteq> 0 then 0 < f else f \<le> 0) \<and> (e = 0 \<longrightarrow> 0 \<le> f)"
proof -
  let ?x = "rnd (of_int (a * b) / of_int c) :: rat" and ?k = "a * b div c + e"
  have r: "0 \<le> a * b" "a * b < 2 ^ 53" "0 < c" "c < 2 ^ 63" using assms by (auto simp: share_range_def)
  note d = share_floor(3,4) [OF assms(1)]
  have f64: "f64_of_int ?k = Fin (of_int ?k)"
    using d r(2) assms(2) by (intro f64_of_int_small) auto
  have fl: "\<lfloor>?x\<rfloor> = a * b div c" by (rule rnd_quotient_floor [OF r])
  then have x: "of_int (a * b div c) \<le> ?x" "?x < of_int (a * b div c) + 1" by linarith+
  have k: "(of_int ?k :: rat) = of_int (a * b div c) + of_int e" by simp
  have e: "of_int e = (0::rat) \<or> of_int e = (1::rat)" using assms(2) by auto
  then have "\<bar>?x - of_int ?k\<bar> \<le> 1" using x unfolding k by linarith
  then have "\<bar>?x - of_int ?k\<bar> \<le> 2 ^ 63" by (rule order_trans) simp
  then have eq: "fsub (exact_share a b c) (f64_of_int ?k) = Fin (rnd (?x - of_int ?k))"
    unfolding f64 exact_share_eq [OF assms(1)] fsub_Fin by (rule round64_small)
  have t: "(0::rat) < p2 (- 116)" by simp
  have "if e = 0 \<and> a * b mod c \<noteq> 0 then 0 < rnd (?x - of_int ?k) else rnd (?x - of_int ?k) \<le> 0"
  proof (cases "e = 0 \<and> a * b mod c \<noteq> 0")
    case True
    then have "p2 (- 116) \<le> ?x - of_int ?k" using rnd_quotient_strict(1) [OF r] unfolding k by simp
    then have "rnd (p2 (- 116)) \<le> rnd (?x - of_int ?k)" by (rule rnd_mono)
    then have "0 < rnd (?x - of_int ?k)" using t rnd_p2 [of "- 116"] by linarith
    then show ?thesis using True by simp
  next
    case False
    then have "?x - of_int ?k \<le> 0"
      using assms(2) x rnd_quotient_exact [OF r(1-3)] unfolding k by auto
    then show ?thesis using False rnd_nonpos by auto
  qed
  moreover have "e = 0 \<longrightarrow> 0 \<le> rnd (?x - of_int ?k)" using x(1) unfolding k by (auto intro: rnd_nonneg)
  ultimately show ?thesis using eq by blast
qed

lemma give_one_quota:
  assumes "\<And>k. k < length ags \<Longrightarrow> share_range t (nMaxBots (ags ! k)) c"
    and "S \<subset> ragged t c ags"
  shows "\<exists>k \<in> ragged t c ags - S. give_one t c ags (quota_of t c ags S) = quota_of t c ags (insert k S)"
proof -
  let ?q = "quota_of t c ags S"
  let ?f = "share_fracs t c ags ?q"
  have len: "length ?f = length ags" by (simp add: share_fracs_def quota_of_def)
  have f: "\<exists>f. ?f ! k = Fin f \<and> (if k \<notin> S \<and> k \<in> ragged t c ags then 0 < f else f \<le> 0) \<and> (k \<notin> S \<longrightarrow> 0 \<le> f)"
    if "k < length ags" for k
    using share_difference_sign [OF assms(1) [OF that], of "if k \<in> S then 1 else 0"] that assms(2)
    by (auto simp: share_fracs_def quota_of_def ragged_def split: if_splits)
  obtain m where m: "m \<in> ragged t c ags" "m \<notin> S" using assms(2) by blast
  then have "m < length ags" by (simp add: ragged_def)
  with f [of m] m obtain fm where fm: "?f ! m = Fin fm" "0 < fm" by auto
  have zip: "zip (replicate (length ags) True) ?f = map (Pair True) ?f"
    using len by (auto intro!: nth_equalityI)
  have mo: "m \<in> open_idx (replicate (length ags) True) ?f"
    using \<open>m < length ags\<close> fm len by (simp add: open_idx_def)
  with best_open [of "replicate (length ags) True" ?f] len
  obtain k where k: "best_fraction 0 (map (Pair True) ?f) (Fin (- 1)) None = Some k" "k < length ags"
    "\<not> flt (?f ! k) (?f ! m)"
    unfolding zip by (auto simp: open_idx_def)
  have "k \<in> ragged t c ags - S"
    using f [OF k(2)] k(3) fm by (auto split: if_splits)
  moreover have "give_one t c ags ?q = ?q[k := ?q ! k + 1]"
    by (simp add: give_one_def k(1))
  moreover have "?q[k := ?q ! k + 1] = quota_of t c ags (insert k S)" if "k \<notin> S"
    using that k(2) by (auto simp: quota_of_def nth_list_update intro!: nth_equalityI)
  ultimately show ?thesis by auto
qed

lemma give_many_quota:
  assumes "\<And>k. k < length ags \<Longrightarrow> share_range t (nMaxBots (ags ! k)) c" "n \<le> card (ragged t c ags)"
  shows "\<exists>S. S \<subseteq> ragged t c ags \<and> card S = n \<and> (give_one t c ags ^^ n) (quota_of t c ags {}) = quota_of t c ags S"
  using assms(2)
proof (induction n)
  case (Suc n)
  then obtain S where S: "S \<subseteq> ragged t c ags" "card S = n"
    "(give_one t c ags ^^ n) (quota_of t c ags {}) = quota_of t c ags S" by auto
  have fin: "finite (ragged t c ags)" by (simp add: ragged_def)
  have "S \<subset> ragged t c ags" using S Suc.prems by auto
  from give_one_quota [OF assms(1) this] obtain k where k: "k \<in> ragged t c ags - S"
    "give_one t c ags (quota_of t c ags S) = quota_of t c ags (insert k S)" by blast
  have "card (insert k S) = Suc n" using k S fin finite_subset by fastforce
  then show ?case using k S by (intro exI [of _ "insert k S"]) auto
qed (auto intro: exI [of _ "{}"])

lemma quota_bounds:
  fixes t m c :: int
  assumes "0 < c" "0 \<le> t" "t \<le> c" "0 \<le> m"
  shows "0 \<le> t * m div c" "t * m div c \<le> m" "t * m mod c \<noteq> 0 \<Longrightarrow> t * m div c + 1 \<le> m"
proof -
  have "0 \<le> t * m" using assms by simp
  then show "0 \<le> t * m div c" using assms(1) by (simp add: pos_imp_zdiv_nonneg_iff)
  have le: "t * m \<le> c * m" using assms by (simp add: mult_right_mono)
  then have "t * m div c \<le> c * m div c" using assms(1) by (rule zdiv_mono1)
  then show "t * m div c \<le> m" using assms(1) by simp
  then show "t * m div c + 1 \<le> m" if "t * m mod c \<noteq> 0"
  proof -
    have "t * m div c \<noteq> m"
    proof
      assume "t * m div c = m"
      then have "t * m = c * m + t * m mod c" using div_mult_mod_eq [of "t * m" c] by (simp add: mult.commute)
      moreover have "0 < t * m mod c" using that assms(1) pos_mod_sign [of c "t * m"] by linarith
      ultimately show False using le by linarith
    qed
    with \<open>t * m div c \<le> m\<close> show ?thesis by linarith
  qed
qed

lemma lay_out_nth:
  assumes "length bs = length ags" "k < length ags" "\<forall>b \<in> set bs. 0 \<le> b" "0 \<le> s" "s + sum_list bs < 2 ^ 63"
  shows "lay_out t (zip ags bs) s ! k = \<lparr>asTaskID = tID t, asAgentID = nID (ags ! k), asAgentName = nName (ags ! k),
     asStartNumber = s + sum_list (take k bs), asTotalBots = bs ! k\<rparr>"
  using assms
proof (induction ags arbitrary: bs s k)
  case (Cons ag ags)
  obtain b bs' where bs: "bs = b # bs'" using Cons.prems(1) by (cases bs) auto
  have nn: "0 \<le> sum_list bs'" using Cons.prems(3) bs by (auto intro: sum_list_nonneg)
  then have "wrap64 (s + b) = s + b" using Cons.prems bs by (intro wrap64_id) (auto simp: is_i64_def)
  then show ?case using Cons.prems bs nn Cons.IH [of bs' _ "s + b"] by (cases k) (auto simp: algebra_simps)
qed simp

lemma lay_out_length [simp]: "length (lay_out t xs s) = length xs"
  by (induction t xs s rule: lay_out.induct) simp_all

lemma lay_out_bots: "map asTotalBots (lay_out t xs s) = map snd xs"
  by (induction t xs s rule: lay_out.induct) simp_all

lemma debug_best_spec:
  "debug_best n ags best = Some b \<Longrightarrow> best = Some b \<or> (b \<in> set ags \<and> n \<le> nMaxBots b)"
  by (induction n ags best rule: debug_best.induct) (auto split: if_splits option.splits)

lemma quota_of_sum: "S \<subseteq> ragged t c ags \<Longrightarrow>
  sum_list (quota_of t c ags S) = sum_list (map (\<lambda>ag. t * nMaxBots ag div c) ags) + int (card S)"
proof -
  assume S: "S \<subseteq> ragged t c ags"
  then have fin: "finite S" by (rule finite_subset) (simp add: ragged_def)
  let ?cs = "map (\<lambda>ag. t * nMaxBots ag div c) ags"
  have "quota_of t c ags S = map (\<lambda>i. ?cs ! i + (if i \<in> set (sorted_list_of_set S) then 1 else 0)) [0..<length ?cs]"
    using fin by (auto simp: quota_of_def)
  also have "sum_list \<dots> = sum_list ?cs + int (length (sorted_list_of_set S))"
    using S fin by (intro sum_list_indicator) (auto simp: ragged_def)
  finally show ?thesis using fin by simp
qed

text \<open>
  Within the range in which floats are exact enough, proportional assignment deals every agent the
  whole part of its share, and one more to some of those whose share is not whole.
\<close>

lemma proportionalAssign_quota:
  assumes "ags \<noteq> []" "\<forall>ag \<in> set ags. 0 < nMaxBots ag" "sum_list (map nMaxBots ags) = c"
    and "tTotalBots t = T" "0 \<le> T" "T \<le> c" "c \<le> 2 ^ 53" "T * c < 2 ^ 53"
  obtains S where "S \<subseteq> ragged T c ags" "sum_list (quota_of T c ags S) = T"
    "proportionalAssign t ags s = Inr (lay_out t (zip ags (quota_of T c ags S)) s)"
proof -
  have nn: "\<forall>ag \<in> set ags. 0 \<le> nMaxBots ag" using assms(2) by (auto intro: less_imp_le)
  have "0 < nMaxBots (hd ags)" using assms(1,2) by simp
  also have "\<dots> \<le> c" using member_le_sum [of "hd ags" ags nMaxBots] nn assms(1,3) by simp
  finally have c: "0 < c" .
  have r: "share_range T (nMaxBots ag) c" if "ag \<in> set ags" for ag
    using share_range_weight(2) [OF that nn assms(3) c] assms(5-8) by simp
  let ?fl = "\<lambda>ag. T * nMaxBots ag div c"
  have "go_div (wrap64 (T * nMaxBots ag)) c = ?fl ag" if "ag \<in> set ags" for ag
  proof -
    have "0 \<le> T * nMaxBots ag" "is_i64 (T * nMaxBots ag)"
      using r [OF that] by (auto simp: share_range_def intro: is_i64_small)
    then show ?thesis using c by (simp add: wrap64_id go_div_nonneg)
  qed
  then have base: "base_bots T c ags = quota_of T c ags {}"
    by (auto simp: base_bots_def quota_of_def intro!: nth_equalityI)
  have sum: "sum_list (quota_of T c ags {}) = sum_list (map ?fl ags)" by (simp add: quota_of_sum)
  have "card (ragged T c ags) = length (filter (\<lambda>ag. T * nMaxBots ag mod c \<noteq> 0) ags)"
    by (simp add: ragged_def length_filter_conv_card)
  then have q: "sum_list (map ?fl ags) \<le> T" "nat (T - sum_list (map ?fl ags)) \<le> card (ragged T c ags)"
    using quota_sums [OF c assms(3), of T] by linarith+
  have "0 \<le> sum_list (map ?fl ags)" using r share_floor(3) by (intro sum_list_nonneg) auto
  then have w: "wsum (map nMaxBots ags) = c" "wsum (quota_of T c ags {}) = sum_list (map ?fl ags)"
    "nat (wrap64 (T - sum_list (map ?fl ags))) = nat (T - sum_list (map ?fl ags))"
    using assms(3,5-7) c q(1) sum by (auto simp: wsum_id wrap64_id is_i64_def)
  obtain S where S: "S \<subseteq> ragged T c ags" "card S = nat (T - sum_list (map ?fl ags))"
    "(give_one T c ags ^^ nat (T - sum_list (map ?fl ags))) (quota_of T c ags {}) = quota_of T c ags S"
    using give_many_quota [of ags T c, OF r [OF nth_mem] q(2)] by auto
  show ?thesis
  proof (rule that [OF S(1)])
    show "sum_list (quota_of T c ags S) = T" using S(1,2) q(1) by (simp add: quota_of_sum)
    show "proportionalAssign t ags s = Inr (lay_out t (zip ags (quota_of T c ags S)) s)"
      using assms(1,4) c w base S(3) by (simp add: proportionalAssign_def Let_def)
  qed
qed

lemma quota_of_nth:
  assumes "S \<subseteq> ragged t c ags" "k < length ags"
  shows "quota_of t c ags S ! k = t * nMaxBots (ags ! k) div c \<or>
    (t * nMaxBots (ags ! k) mod c \<noteq> 0 \<and> quota_of t c ags S ! k = t * nMaxBots (ags ! k) div c + 1)"
  using assms by (auto simp: quota_of_def ragged_def)

lemma quota_of_capacity:
  assumes "S \<subseteq> ragged t c ags" "0 < c" "0 \<le> t" "t \<le> c" "\<forall>ag \<in> set ags. 0 \<le> nMaxBots ag" "k < length ags"
  shows "0 \<le> quota_of t c ags S ! k" "quota_of t c ags S ! k \<le> nMaxBots (ags ! k)"
  using quota_of_nth [OF assms(1,6)] quota_bounds [OF assms(2-4), of "nMaxBots (ags ! k)"] assms(5,6) by auto

lemma available_pos: "\<forall>ag \<in> set (available_agents ags). 0 < nMaxBots ag \<and> nStatus ag = Idle"
  by (simp add: available_agents_def)

lemma cap_pos: "ags \<noteq> [] \<Longrightarrow> \<forall>ag \<in> set ags. 0 < nMaxBots ag \<Longrightarrow> 0 < sum_list (map nMaxBots ags)"
  using member_le_sum [of "hd ags" ags nMaxBots] by (force simp: less_imp_le intro: less_le_trans)

definition sample_agents :: "Node list" where
  "sample_agents = [sample_node, sample_node\<lparr>nID := ''b'', nMaxBots := 7\<rparr>, sample_node\<lparr>nID := ''c'', nStatus := Busy\<rparr>]"

definition sample_task :: Task where
  "sample_task = task0\<lparr>tTotalBots := 12\<rparr>"

text \<open>
  C14. Assignment hands out exactly the robots of the task.  When the idle agents have the capacity
  for the task, the assignment succeeds, the parts add up to the task's total, no agent gets
  more than its capacity, and the account numbers of consecutive agents follow one another without
  gap or overlap from the task's start number.
\<close>

theorem Assign_exact:
  assumes "available_agents ags \<noteq> []" "sum_list (map nMaxBots (available_agents ags)) = c"
    and "0 \<le> tTotalBots t" "tTotalBots t \<le> c" "c \<le> 2 ^ 53" "tTotalBots t * c < 2 ^ 53" "max s 0 + tTotalBots t < 2 ^ 63"
  shows "\<exists>as. Assign t ags s = Inr as \<and> sum_list (map asTotalBots as) = tTotalBots t \<and>
    (\<forall>k < length as. asStartNumber (as ! k) = max s 0 + sum_list (map asTotalBots (take k as))) \<and>
    (\<forall>a \<in> set as. \<exists>ag \<in> set (available_agents ags).
       asAgentID a = nID ag \<and> 0 \<le> asTotalBots a \<and> asTotalBots a \<le> nMaxBots ag)"
proof -
  let ?av = "available_agents ags" and ?T = "tTotalBots t" and ?s = "if s < 0 then 0 else s"
  have pos: "\<forall>ag \<in> set ?av. 0 < nMaxBots ag" using available_pos by blast
  have c: "0 < c" using cap_pos [OF assms(1) pos] assms(2) by simp
  obtain S where S: "S \<subseteq> ragged ?T c ?av" "sum_list (quota_of ?T c ?av S) = ?T"
    "proportionalAssign t ?av ?s = Inr (lay_out t (zip ?av (quota_of ?T c ?av S)) ?s)"
    by (rule proportionalAssign_quota [OF assms(1) pos assms(2) refl assms(3-6)])
  let ?q = "quota_of ?T c ?av S" and ?as = "lay_out t (zip ?av (quota_of ?T c ?av S)) ?s"
  have len: "length ?q = length ?av" by (simp add: quota_of_def)
  have cap: "0 \<le> ?q ! k \<and> ?q ! k \<le> nMaxBots (?av ! k)" if "k < length ?av" for k
    using quota_of_capacity [OF S(1) c assms(3,4) _ that] pos by (auto simp: less_imp_le)
  then have nn: "\<forall>b \<in> set ?q. 0 \<le> b" using len by (auto simp: in_set_conv_nth)
  have bots: "map asTotalBots ?as = ?q" using len by (simp add: lay_out_bots)
  have nth: "?as ! k = \<lparr>asTaskID = tID t, asAgentID = nID (?av ! k), asAgentName = nName (?av ! k),
     asStartNumber = max s 0 + sum_list (take k ?q), asTotalBots = ?q ! k\<rparr>" if "k < length ?av" for k
    using lay_out_nth [OF len that nn, of ?s t] assms(7) S(2) by (auto simp: max_def split: if_splits)
  have agent: "\<exists>ag \<in> set ?av. asAgentID a = nID ag \<and> 0 \<le> asTotalBots a \<and> asTotalBots a \<le> nMaxBots ag" if a: "a \<in> set ?as" for a
  proof -
    from a len obtain k where k: "k < length ?av" "a = ?as ! k" by (auto simp: in_set_conv_nth)
    with nth cap show ?thesis by (intro bexI [of _ "?av ! k"]) auto
  qed
  have goal: "sum_list (map asTotalBots ?as) = ?T \<and>
    (\<forall>k < length ?as. asStartNumber (?as ! k) = max s 0 + sum_list (map asTotalBots (take k ?as))) \<and>
    (\<forall>a \<in> set ?as. \<exists>ag \<in> set ?av. asAgentID a = nID ag \<and> 0 \<le> asTotalBots a \<and> asTotalBots a \<le> nMaxBots ag)"
    unfolding take_map [symmetric] bots using S(2) nth len agent by simp
  have w: "wsum (map nMaxBots ?av) = c" using assms(2,5) c by (simp add: wsum_id)
  show ?thesis
  proof (cases "rcDebugMode (tRobotConfig t) \<and> debug_best ?T ?av None \<noteq> None")
    case True
    then obtain b where b: "debug_best ?T ?av None = Some b" by auto
    with debug_best_spec [OF b] True w assms show ?thesis
      by (auto simp: Assign_def Let_def max_def intro!: bexI [of _ b])
  next
    case False
    then have "Assign t ags s = Inr ?as" using w S(3) assms(1,4) by (auto simp: Assign_def Let_def split: option.split)
    with goal show ?thesis by blast
  qed
qed

theorem Assign_exact_witness:
  "\<exists>as. Assign sample_task sample_agents 1000 = Inr as \<and> sum_list (map asTotalBots as) = 12"
  using Assign_exact [of sample_agents 17 sample_task 1000]
  by (auto simp: available_agents_def sample_agents_def sample_node_def sample_task_def)

text \<open>
  Proportional assignment is fair: outside debug mode the agents are dealt in order, and each
  gets its exact proportional share of the robots rounded down or, if the share is not whole, up.
\<close>

theorem Assign_fair:
  assumes "available_agents ags \<noteq> []" "sum_list (map nMaxBots (available_agents ags)) = c" "\<not> rcDebugMode (tRobotConfig t)"
    and "0 \<le> tTotalBots t" "tTotalBots t \<le> c" "c \<le> 2 ^ 53" "tTotalBots t * c < 2 ^ 53"
  shows "\<exists>as. Assign t ags s = Inr as \<and>
    list_all2 (\<lambda>ag b. b = tTotalBots t * nMaxBots ag div c \<or>
        (tTotalBots t * nMaxBots ag mod c \<noteq> 0 \<and> b = tTotalBots t * nMaxBots ag div c + 1))
      (available_agents ags) (map asTotalBots as)"
proof -
  let ?av = "available_agents ags" and ?T = "tTotalBots t" and ?s = "if s < 0 then 0 else s"
  have pos: "\<forall>ag \<in> set ?av. 0 < nMaxBots ag" using available_pos by blast
  have c: "0 < c" using cap_pos [OF assms(1) pos] assms(2) by simp
  obtain S where S: "S \<subseteq> ragged ?T c ?av"
    "proportionalAssign t ?av ?s = Inr (lay_out t (zip ?av (quota_of ?T c ?av S)) ?s)"
    by (rule proportionalAssign_quota [OF assms(1) pos assms(2) refl assms(4-7)])
  have "wsum (map nMaxBots ?av) = c" using assms(2,6) c by (simp add: wsum_id)
  then have "Assign t ags s = Inr (lay_out t (zip ?av (quota_of ?T c ?av S)) ?s)"
    using assms(1,3,5) S(2) by (simp add: Assign_def Let_def)
  moreover have "length (quota_of ?T c ?av S) = length ?av" by (simp add: quota_of_def)
  ultimately show ?thesis
    using quota_of_nth [OF S(1)] by (auto simp: lay_out_bots list_all2_conv_all_nth)
qed

theorem Assign_fair_witness:
  "\<exists>as. Assign sample_task sample_agents 1000 = Inr as \<and>
     list_all2 (\<lambda>ag b. b = 12 * nMaxBots ag div 17 \<or> (12 * nMaxBots ag mod 17 \<noteq> 0 \<and> b = 12 * nMaxBots ag div 17 + 1))
       (available_agents sample_agents) (map asTotalBots as)"
  using Assign_fair [of sample_agents 17 sample_task 1000]
  by (auto simp: available_agents_def sample_agents_def sample_node_def sample_task_def task0_def)

subsection \<open>Segments\<close>

lemma plan_segments_cover:
  assumes "sorted_wrt (<) (prev # bs)" "\<forall>b \<in> set bs. b < length stages" "prev < length stages"
  shows "concat (map (\<lambda>seg. [segFromStage seg..<Suc (segToStage seg)]) (plan_segments stages j prev bs)) =
    [Suc prev..<Suc (length stages)]"
  using assms
proof (induction bs arbitrary: j prev)
  case (Cons b bs)
  then have "[Suc prev..<Suc b] @ [Suc b..<Suc (length stages)] = [Suc prev..<Suc (length stages)]"
    using upt_add_eq_append [of "Suc prev" "Suc b" "length stages - b"] by simp
  with Cons show ?case by simp
qed simp

lemma plan_segments_nth:
  assumes "k < Suc (length bs)"
  shows "segNo (plan_segments stages j prev bs ! k) = j + k + 1 \<and>
    (segIsFinal (plan_segments stages j prev bs ! k) \<longleftrightarrow> k = length bs) \<and>
    (k < length bs \<longrightarrow> segToStage (plan_segments stages j prev bs ! k) = bs ! k)"
  using assms
proof (induction bs arbitrary: j prev k)
  case (Cons b bs)
  then show ?case by (cases k) auto
qed simp

lemma plan_segments_length [simp]: "length (plan_segments stages j prev bs) = Suc (length bs)"
  by (induction bs arbitrary: j prev) simp_all

definition resets :: "RampUpStage list \<Rightarrow> nat list" where
  "resets stages = filter (\<lambda>i. rsReset (stages ! i)) [1..<length stages]"

lemma BuildStagePlan_reset:
  assumes "HasReset (BuildStagePlan (Some stages))"
  shows "stages \<noteq> []" "resets stages \<noteq> []" "Segments (BuildStagePlan (Some stages)) = plan_segments stages 0 0 (resets stages)"
    "resetIndexToSegmentNo (BuildStagePlan (Some stages)) = zip (resets stages) [1..<Suc (length (resets stages))]"
  using assms by (auto simp: BuildStagePlan_def Let_def empty_plan_def resets_def split: if_splits)

text \<open>
  The segments of a ramp-up partition its stages: they cover every stage once and in order, are
  numbered from 1, exactly the last is final and carries the final segment number, and a reset
  reported at a configured stage index is filed under the segment that ends just before that stage,
  while an index that is no reset is filed under none.
\<close>

theorem BuildStagePlan_partitions:
  assumes "HasReset p" "p = BuildStagePlan (Some stages)"
  shows "concat (map (\<lambda>seg. [segFromStage seg..<Suc (segToStage seg)]) (Segments p)) = [1..<Suc (length stages)] \<and>
    (\<forall>k < length (Segments p). segNo (Segments p ! k) = k + 1 \<and>
       (segIsFinal (Segments p ! k) \<longleftrightarrow> segNo (Segments p ! k) = FinalSegmentNo p)) \<and>
    (\<forall>i. if 1 \<le> i \<and> i < length stages \<and> rsReset (stages ! i)
       then 0 < SegmentNoForResetIndex p i \<and> segToStage (Segments p ! (SegmentNoForResetIndex p i - 1)) = i
       else SegmentNoForResetIndex p i = 0)"
proof -
  let ?bs = "resets stages"
  note p = BuildStagePlan_reset [of stages, folded assms(2), OF assms(1)]
  have sorted: "sorted_wrt (<) (0 # ?bs)" "distinct ?bs"
    by (auto simp: resets_def sorted_wrt_filter strict_sorted_iff)
  have cover: "concat (map (\<lambda>seg. [segFromStage seg..<Suc (segToStage seg)]) (Segments p)) = [1..<Suc (length stages)]"
    using plan_segments_cover [OF sorted(1), of stages 0] p(1,3) by (auto simp: resets_def)
  have final: "FinalSegmentNo p = Suc (length ?bs)" using assms(1) p(3) by (simp add: FinalSegmentNo_def)
  have no: "\<forall>k < length (Segments p). segNo (Segments p ! k) = k + 1 \<and>
       (segIsFinal (Segments p ! k) \<longleftrightarrow> segNo (Segments p ! k) = FinalSegmentNo p)"
    unfolding final unfolding p(3) using plan_segments_nth [of _ ?bs stages 0 0] by simp
  have "if i \<in> set ?bs then 0 < SegmentNoForResetIndex p i \<and> segToStage (Segments p ! (SegmentNoForResetIndex p i - 1)) = i
       else SegmentNoForResetIndex p i = 0" for i
  proof (cases "i \<in> set ?bs")
    case True
    then obtain k where k: "k < length ?bs" "i = ?bs ! k" by (auto simp: in_set_conv_nth)
    then have "map_of (zip ?bs [1..<Suc (length ?bs)]) i = Some (Suc k)"
      using map_of_zip_nth [OF _ sorted(2), of "[1..<Suc (length ?bs)]" k] by (simp del: upt_Suc)
    then show ?thesis
      using True k plan_segments_nth [of k ?bs stages 0 0] by (simp add: SegmentNoForResetIndex_def p(3,4) del: upt_Suc)
  next
    case False
    then have none: "map_of (zip ?bs [1..<Suc (length ?bs)]) i = None"
      by (subst map_of_zip_is_None) (simp_all del: upt_Suc)
    show ?thesis unfolding SegmentNoForResetIndex_def p(4) none using False by simp
  qed
  moreover have "i \<in> set ?bs \<longleftrightarrow> 1 \<le> i \<and> i < length stages \<and> rsReset (stages ! i)" for i by (auto simp: resets_def)
  ultimately show ?thesis using cover no by presburger
qed

theorem BuildStagePlan_partitions_witness:
  "HasReset (BuildStagePlan (Some sample_stages)) \<and> SegmentNoForResetIndex (BuildStagePlan (Some sample_stages)) 1 \<noteq> 0 \<and>
   concat (map (\<lambda>seg. [segFromStage seg..<Suc (segToStage seg)]) (Segments (BuildStagePlan (Some sample_stages)))) = [1, 2, 3]"
proof -
  have h: "HasReset (BuildStagePlan (Some sample_stages))" by code_simp
  have "length sample_stages = 3" "rsReset (sample_stages ! 1)" by (simp_all add: sample_stages_def)
  moreover have "[1..<Suc 3] = [1, 2, 3]" by (simp add: upt_rec)
  ultimately show ?thesis using h BuildStagePlan_partitions [OF h refl] by (auto dest: spec [of _ 1])
qed

end
