(* ===== verification/Completion.thy ===== *)
theory Completion
  imports Assign
begin

text \<open>
  The completion service of the admin server (\<^verbatim>\<open>admin/task/completion.go\<close>): it files the reports of
  the agents, sums up their clean-up and ends the task when all of them have reported.  Its state is
  the task store and the agent registry; a call is the sequence of store and registry operations
  the method makes.  A Go map of reports is an association list in iteration order.
\<close>

record CompletionService =
  svTasks :: "(Task, task_dir) Repository"
  svAgents :: Registry

datatype report_error = ReportRepo repo_error | PermanentReportError string

definition IsPermanentReportError :: "report_error \<Rightarrow> bool" where
  "IsPermanentReportError e = (case e of PermanentReportError _ \<Rightarrow> True | ReportRepo x \<Rightarrow> x = RNotFound)"

definition OwnsActiveTask :: "string \<Rightarrow> string \<Rightarrow> CompletionService \<Rightarrow> bool" where
  "OwnsActiveTask agentID taskID s =
     (if taskID = [] then False
      else case ActiveTask task_adapter (svTasks s) of
        None \<Rightarrow> False
      | Some t \<Rightarrow> if tID t \<noteq> taskID then False
          else if map_of (tReports t) agentID \<noteq> None then False
          else agentID \<in> ExpectedAgents (Some t))"

definition report_cleanup :: "CompletionReport \<Rightarrow> CleanupStatus" where
  "report_cleanup rep = (case crCleanupStatus rep of
     Some c \<Rightarrow> c | None \<Rightarrow> UnknownCleanupStatus CleanupReasonStopWaitTimeout)"

definition AggregateCleanup :: "Task \<Rightarrow> CleanupStatus option" where
  "AggregateCleanup t = (if tReports t = [] then None
     else Some (MergeCleanupStatus CleanupReasonAdminStop (map (\<lambda>kr. report_cleanup (snd kr)) (tReports t))))"

fun put_stage_report :: "CompletionReport \<Rightarrow> CompletionReport list \<Rightarrow> CompletionReport list" where
  "put_stage_report rep [] = [rep]"
| "put_stage_report rep (x # xs) =
     (if crAgentID x = crAgentID rep \<and> crStageIndex x = crStageIndex rep then rep # xs
      else x # put_stage_report rep xs)"

text \<open>
  The update function \<open>Accept\<close> passes to the store, with the two variables it captures: whether the
  reporter is a member, and the state to leave once all have reported.
\<close>

definition accept_update :: "CompletionReport \<Rightarrow> Task \<Rightarrow> Task \<times> bool \<times> State option" where
  "accept_update rep t =
     (let expected = ExpectedAgents (Some t) in
      if crAgentID rep \<notin> expected then (t, False, None)
      else if crStageIndex rep > 0 then (t\<lparr>tStageReports := put_stage_report rep (tStageReports t)\<rparr>, True, None)
      else let t = t\<lparr>tReports := put_task (crAgentID rep) rep (tReports t)\<rparr>;
               completed = length (filter (\<lambda>kr. fst kr \<in> expected) (tReports t))
           in if card expected > 0 \<and> completed \<ge> card expected
              then (t\<lparr>tCleanupSummary := AggregateCleanup t\<rparr>, True,
                    if tState t = Running \<or> tState t = Stopping then Some (tState t) else None)
              else (t, True, None))"

definition accept_transition :: "int \<Rightarrow> string \<Rightarrow> State option \<Rightarrow> CompletionService \<Rightarrow>
    report_error option \<times> CompletionService" where
  "accept_transition now i transition s = (case transition of
     None \<Rightarrow> (None, s)
   | Some from \<Rightarrow> (let res = Transition task_adapter i from Stopped now (svTasks s)
       in (case fst res of Inl e \<Rightarrow> Some (ReportRepo e) | Inr _ \<Rightarrow> None, s\<lparr>svTasks := snd res\<rparr>)))"

definition Accept :: "int \<Rightarrow> CompletionReport \<Rightarrow> CompletionService \<Rightarrow> report_error option \<times> CompletionService" where
  "Accept now rep s =
     (let s = s\<lparr>svAgents := Touch now (crAgentID rep) [] (svAgents s)\<rparr>;
          captured = (case map_of (tasks (svTasks s)) (crTaskID rep) of
                        None \<Rightarrow> (False, None) | Some t \<Rightarrow> snd (accept_update rep t));
          res = Update task_adapter (crTaskID rep) (\<lambda>t. fst (accept_update rep t)) (svTasks s);
          s = s\<lparr>svTasks := snd res\<rparr>
      in case fst res of
           Some e \<Rightarrow> (Some (ReportRepo e), s)
         | None \<Rightarrow>
             if \<not> fst captured then (Some (PermanentReportError (crTaskID rep)), s)
             else let s = (if crStageIndex rep \<le> 0
                     then s\<lparr>svAgents := snd (CompleteTask (crAgentID rep) (crTaskID rep) (svAgents s))\<rparr> else s)
                  in accept_transition now (crTaskID rep) (snd captured) s)"

definition FinishIfFullyReported :: "int \<Rightarrow> string \<Rightarrow> CompletionService \<Rightarrow> CompletionService" where
  "FinishIfFullyReported now i s = (case Get task_adapter i (svTasks s) of
     None \<Rightarrow> s
   | Some t \<Rightarrow>
       if tState t \<noteq> Running then s
       else if ExpectedAgents (Some t) = {} then s
       else if (\<exists>a \<in> ExpectedAgents (Some t). map_of (tReports t) a = None) then s
       else let r = snd (Update task_adapter i (\<lambda>t. t\<lparr>tCleanupSummary := AggregateCleanup t\<rparr>) (svTasks s))
            in s\<lparr>svTasks := snd (Transition task_adapter i Running Stopped now r)\<rparr>)"

subsection \<open>Counting reports\<close>

lemma finite_ExpectedAgents [simp]: "finite (ExpectedAgents t)"
  by (simp add: ExpectedAgents_def split: option.split)

lemma ExpectedAgents_cong:
  "tSucceededAgents t' = tSucceededAgents t \<Longrightarrow> tAssignments t' = tAssignments t \<Longrightarrow>
     ExpectedAgents (Some t') = ExpectedAgents (Some t)"
  by (simp add: ExpectedAgents_def)

lemma all_reported:
  assumes "distinct (map fst reps)" "finite E"
  shows "length (filter (\<lambda>kr. fst kr \<in> E) reps) \<ge> card E \<longleftrightarrow> E \<subseteq> fst ` set reps"
proof -
  have "length (filter (\<lambda>kr. fst kr \<in> E) reps) = card (fst ` set (filter (\<lambda>kr. fst kr \<in> E) reps))"
    using distinct_card [of "map fst (filter (\<lambda>kr. fst kr \<in> E) reps)"] assms(1) by (simp add: distinct_map_filter)
  also have "fst ` set (filter (\<lambda>kr. fst kr \<in> E) reps) = fst ` set reps \<inter> E" by auto
  finally have len: "length (filter (\<lambda>kr. fst kr \<in> E) reps) = card (fst ` set reps \<inter> E)" .
  have "card E \<le> card (fst ` set reps \<inter> E) \<longleftrightarrow> E \<subseteq> fst ` set reps"
    using card_seteq [OF assms(2), of "fst ` set reps \<inter> E"] by (auto simp: Int_absorb1)
  then show ?thesis by (simp add: len)
qed

text \<open>The final report of a member, filed.\<close>

definition filed :: "CompletionReport \<Rightarrow> Task \<Rightarrow> Task" where
  "filed rep t = t\<lparr>tReports := put_task (crAgentID rep) rep (tReports t)\<rparr>"

lemma filed_sel [simp]:
  "tReports (filed rep t) = put_task (crAgentID rep) rep (tReports t)" "tState (filed rep t) = tState t"
  "tID (filed rep t) = tID t" "ExpectedAgents (Some (filed rep t)) = ExpectedAgents (Some t)"
  by (simp_all add: filed_def ExpectedAgents_def)

lemma AggregateCleanup_cong: "tReports t' = tReports t \<Longrightarrow> AggregateCleanup t' = AggregateCleanup t"
  by (simp add: AggregateCleanup_def)

lemma accept_update_final:
  assumes "crStageIndex rep \<le> 0" "crAgentID rep \<in> ExpectedAgents (Some t)" "distinct (map fst (tReports t))"
  shows "accept_update rep t =
      (if ExpectedAgents (Some t) \<subseteq> insert (crAgentID rep) (fst ` set (tReports t))
       then ((filed rep t)\<lparr>tCleanupSummary := AggregateCleanup (filed rep t)\<rparr>, True,
         if tState t = Running \<or> tState t = Stopping then Some (tState t) else None)
       else (filed rep t, True, None))"
proof -
  have "card (ExpectedAgents (Some t)) > 0" using assms(2) by (auto simp: card_gt_0_iff)
  moreover have "length (filter (\<lambda>kr. fst kr \<in> ExpectedAgents (Some t)) (tReports (filed rep t))) \<ge> card (ExpectedAgents (Some t)) \<longleftrightarrow>
      ExpectedAgents (Some t) \<subseteq> insert (crAgentID rep) (fst ` set (tReports t))"
    using all_reported [of "tReports (filed rep t)" "ExpectedAgents (Some t)"] assms(3)
    by (simp add: distinct_put_task fst_put_task)
  ultimately show ?thesis
    using assms(1,2) by (simp add: accept_update_def Let_def filed_def [symmetric])
qed

text \<open>
  The state of task \<open>i\<close> while its agents \<open>E\<close> report: those in \<open>R\<close> have, the task runs until all have,
  and then it is stopped with the summary of all reports.
\<close>

definition reporting :: "string \<Rightarrow> string set \<Rightarrow> string set \<Rightarrow> CompletionService \<Rightarrow> bool" where
  "reporting i E R s \<longleftrightarrow> \<not> broken (disk (svTasks s)) \<and> (\<exists>t. map_of (tasks (svTasks s)) i = Some t \<and>
     distinct (map fst (tReports t)) \<and> fst ` set (tReports t) = R \<and> ExpectedAgents (Some t) = E \<and>
     (if E \<subseteq> R then tState t = Stopped \<and> tCleanupSummary t = AggregateCleanup t else tState t = Running))"

lemma save_ok: "\<not> broken d \<Longrightarrow> saveTaskFile t d = (None, d\<lparr>files := put_task (tID t) t (files d)\<rparr>)"
  by (simp add: saveTaskFile_def)

lemma adapter_simps [simp]:
  "aSave task_adapter = saveTaskFile" "aState task_adapter = tState" "aText task_adapter = state_text"
  "aIsActive task_adapter = IsActiveState" "aSetState task_adapter t x = t\<lparr>tState := x\<rparr>"
  "aClone task_adapter = (\<lambda>t. t)" "aSetStoppedAt task_adapter t n = t\<lparr>tStoppedAt := Some n\<rparr>"
  by (simp_all add: task_adapter_def)

lemma Transition_stop:
  assumes "map_of (tasks r) i = Some t" "tState t = a" "a = Running \<or> a = Stopping" "\<not> broken (disk r)"
  shows "\<exists>x. fst (Transition task_adapter i a Stopped now r) = Inr x"
    "map_of (tasks (snd (Transition task_adapter i a Stopped now r))) i = Some (t\<lparr>tState := Stopped, tStoppedAt := Some now\<rparr>)"
    "\<not> broken (disk (snd (Transition task_adapter i a Stopped now r)))"
proof -
  have v: "validTransition (state_text a) (state_text Stopped)" "\<not> IsActiveState Stopped"
    "stamp task_adapter Stopped now u = u\<lparr>tStoppedAt := Some now\<rparr>" for u
    using assms(3) by (auto simp: validTransition_def IsActiveState_def stamp_def)
  show "\<exists>x. fst (Transition task_adapter i a Stopped now r) = Inr x"
    "map_of (tasks (snd (Transition task_adapter i a Stopped now r))) i = Some (t\<lparr>tState := Stopped, tStoppedAt := Some now\<rparr>)"
    "\<not> broken (disk (snd (Transition task_adapter i a Stopped now r)))"
    using assms(1,2,4) v by (simp_all add: Transition_def Let_def save_ok)
qed

lemma Accept_reporting:
  assumes "reporting i E R s" "crTaskID rep = i" "crStageIndex rep \<le> 0" "crAgentID rep \<in> E"
  shows "fst (Accept now rep s) = None" "reporting i E (insert (crAgentID rep) R) (snd (Accept now rep s))"
proof -
  obtain t where t: "map_of (tasks (svTasks s)) i = Some t" "distinct (map fst (tReports t))" "fst ` set (tReports t) = R"
    "ExpectedAgents (Some t) = E" and b: "\<not> broken (disk (svTasks s))"
    and st: "if E \<subseteq> R then tState t = Stopped \<and> tCleanupSummary t = AggregateCleanup t else tState t = Running"
    using assms(1) by (auto simp: reporting_def)
  note upd = accept_update_final [of rep t, unfolded t(3,4), OF assms(3,4) t(2)]
  let ?R = "insert (crAgentID rep) R" and ?u = "fst (accept_update rep t)"
  let ?r = "snd (Update task_adapter i (\<lambda>t. fst (accept_update rep t)) (svTasks s))"
  have r: "map_of (tasks ?r) i = Some ?u" "\<not> broken (disk ?r)"
      "fst (Update task_adapter i (\<lambda>t. fst (accept_update rep t)) (svTasks s)) = None"
    using t(1) b by (simp_all add: Update_def Let_def save_ok storage_result_def)
  have u: "distinct (map fst (tReports ?u))" "fst ` set (tReports ?u) = ?R" "ExpectedAgents (Some ?u) = E" "tState ?u = tState t"
    using t by (auto simp: upd distinct_put_task fst_put_task ExpectedAgents_def filed_def)
  have sum: "tCleanupSummary ?u = AggregateCleanup ?u" if "E \<subseteq> ?R"
    using that by (simp add: upd AggregateCleanup_def)
  define s1 where "s1 = s\<lparr>svTasks := ?r, svAgents := snd (CompleteTask (crAgentID rep) i (Touch now (crAgentID rep) [] (svAgents s)))\<rparr>"
  have acc: "Accept now rep s = accept_transition now i (snd (snd (accept_update rep t))) s1"
    using assms(2,3) t(1) r(3) by (simp add: Accept_def Let_def upd s1_def)
  have s1: "svTasks s1 = ?r" by (simp add: s1_def)
  have "fst (Accept now rep s) = None \<and> reporting i E ?R (snd (Accept now rep s))"
  proof (cases "E \<subseteq> ?R \<and> tState t = Running")
    case True
    then have tr: "snd (snd (accept_update rep t)) = Some Running" by (simp add: upd)
    note stop = Transition_stop [OF r(1), of Running, OF _ _ r(2), of now]
    show ?thesis unfolding acc tr using True u sum stop s1
      by (auto simp: accept_transition_def Let_def reporting_def ExpectedAgents_def AggregateCleanup_def)
  next
    case False
    then have "snd (snd (accept_update rep t)) = None" using st by (auto simp: upd split: if_splits)
    moreover have "if E \<subseteq> ?R then tState t = Stopped else tState t = Running" using st False by (auto split: if_splits)
    ultimately show ?thesis unfolding acc using r u sum s1
      by (auto simp: accept_transition_def reporting_def)
  qed
  then show "fst (Accept now rep s) = None" "reporting i E ?R (snd (Accept now rep s))" by auto
qed


lemma Accept_run:
  assumes "reporting i E R s"
    and "\<forall>(now, rep) \<in> set reps. crTaskID rep = i \<and> crStageIndex rep \<le> 0 \<and> crAgentID rep \<in> E"
  shows "reporting i E (R \<union> (\<lambda>(now, rep). crAgentID rep) ` set reps)
    (fold (\<lambda>(now, rep) s. snd (Accept now rep s)) reps s)"
  using assms
proof (induction reps arbitrary: R s)
  case (Cons nr reps)
  obtain now rep where nr: "nr = (now, rep)" by (cases nr)
  have "reporting i E (insert (crAgentID rep) R) (snd (Accept now rep s))"
    using Cons.prems nr by (intro Accept_reporting(2)) auto
  from Cons.IH [OF this] Cons.prems(2) show ?case by (simp add: nr)
qed simp

definition sample_report :: "string \<Rightarrow> CompletionReport" where
  "sample_report a = \<lparr>crAgentID = a, crTaskID = ''t1'', crResult = ResultCompleted, crErrorMsg = [], crFinishedAt = 9,
     crStageIndex = 0, crCleanupStatus = None\<rparr>"

definition sample_service :: "State \<Rightarrow> CompletionService" where
  "sample_service st = \<lparr>svTasks = \<lparr>tasks = [(''t1'', task0\<lparr>tState := st, tSucceededAgents := [''a'', ''b'']\<rparr>)],
     activeID = ''t1'', onTerminal = False, recoveredIDs = [], terminalLog = [], disk = \<lparr>files = [], broken = False\<rparr>\<rparr>,
     svAgents = sample_reg\<rparr>"

text \<open>
  C20. A running task stops exactly when its last agent has reported.  Let the final reports of the
  expected agents come in any order, with any repetitions: as long as one is missing the task stays
  running, and once all have reported it is stopped and carries the summary of all reports.
\<close>

theorem task_stops_with_last_report:
  assumes "map_of (tasks (svTasks s)) i = Some t" "\<not> broken (disk (svTasks s))" "tState t = Running" "tReports t = []"
    and "\<forall>(now, rep) \<in> set reps. crTaskID rep = i \<and> crStageIndex rep \<le> 0 \<and> crAgentID rep \<in> ExpectedAgents (Some t)"
    and "ExpectedAgents (Some t) \<noteq> {}"
    and "s' = fold (\<lambda>(now, rep) s. snd (Accept now rep s)) reps s"
  shows "\<exists>t'. map_of (tasks (svTasks s')) i = Some t' \<and> fst ` set (tReports t') = (\<lambda>(now, rep). crAgentID rep) ` set reps \<and>
    (if ExpectedAgents (Some t) \<subseteq> (\<lambda>(now, rep). crAgentID rep) ` set reps
     then tState t' = Stopped \<and> tCleanupSummary t' = AggregateCleanup t' else tState t' = Running)"
proof -
  have "reporting i (ExpectedAgents (Some t)) {} s" using assms(1-4,6) by (auto simp: reporting_def)
  from Accept_run [OF this assms(5)] show ?thesis unfolding assms(7) [symmetric] reporting_def by (simp only: Un_empty_left) blast
qed

theorem task_stops_with_last_report_witness:
  "\<exists>t'. map_of (tasks (svTasks (snd (Accept 8 (sample_report ''a'') (snd (Accept 7 (sample_report ''b'') (sample_service Running))))))) ''t1''
     = Some t' \<and> tState t' = Stopped"
proof -
  have e: "ExpectedAgents (Some (task0\<lparr>tState := Running, tSucceededAgents := [''a'', ''b'']\<rparr>)) = {''a'', ''b''}"
    by (simp add: ExpectedAgents_def)
  have "tReports (task0\<lparr>tState := Running, tSucceededAgents := [''a'', ''b'']\<rparr>) = []" by (simp add: task0_def)
  with task_stops_with_last_report [of "sample_service Running" "''t1''" "task0\<lparr>tState := Running, tSucceededAgents := [''a'', ''b'']\<rparr>"
      "[(7, sample_report ''b''), (8, sample_report ''a'')]", unfolded e, OF _ _ _ _ _ _ refl]
  show ?thesis by (auto simp: sample_service_def sample_report_def)
qed

text \<open>
  A report from an agent the task does not expect changes no task and is refused for good, so
  that the agent does not send it again.
\<close>

theorem nonmember_report_refused:
  assumes "map_of (tasks (svTasks s)) (crTaskID rep) = Some t" "\<not> broken (disk (svTasks s))"
    and "crAgentID rep \<notin> ExpectedAgents (Some t)"
  shows "(\<exists>e. fst (Accept now rep s) = Some e \<and> IsPermanentReportError e) \<and>
    map_of (tasks (svTasks (snd (Accept now rep s)))) = map_of (tasks (svTasks s)) \<and>
    activeID (svTasks (snd (Accept now rep s))) = activeID (svTasks s)"
  using assms
  by (auto simp: Accept_def Let_def Update_def save_ok storage_result_def accept_update_def IsPermanentReportError_def)

theorem nonmember_report_refused_witness:
  "\<exists>e. fst (Accept 7 (sample_report ''z'') (sample_service Running)) = Some e \<and> IsPermanentReportError e"
  using nonmember_report_refused [of "sample_service Running" "sample_report ''z''"
      "task0\<lparr>tState := Running, tSucceededAgents := [''a'', ''b'']\<rparr>" 7]
  by (auto simp: sample_service_def sample_report_def ExpectedAgents_def)

text \<open>
  Reports that arrive before the task runs are not lost: when every expected agent has reported
  while the task was still starting, the sweep that follows its transition to running stops it, with
  the summary of the reports.
\<close>

theorem early_reports_finish:
  assumes "map_of (tasks (svTasks s)) i = Some t" "\<not> broken (disk (svTasks s))" "tState t = Starting"
    and "ExpectedAgents (Some t) \<noteq> {}" "ExpectedAgents (Some t) \<subseteq> fst ` set (tReports t)"
    and "s' = s\<lparr>svTasks := snd (Transition task_adapter i Starting Running n1 (svTasks s))\<rparr>"
  shows "\<exists>t'. map_of (tasks (svTasks (FinishIfFullyReported n2 i s'))) i = Some t' \<and> tState t' = Stopped \<and>
    tReports t' = tReports t \<and> tCleanupSummary t' = AggregateCleanup t"
proof -
  define t1 where "t1 = stamp task_adapter Running n1 (t\<lparr>tState := Running\<rparr>)"
  have t1: "tState t1 = Running" "tReports t1 = tReports t" "ExpectedAgents (Some t1) = ExpectedAgents (Some t)"
    by (simp_all add: t1_def stamp_def task_adapter_def ExpectedAgents_def)
  have v: "validTransition ''starting'' ''running''" "IsActiveState Running"
    by (simp_all add: validTransition_def IsActiveState_def)
  have s': "map_of (tasks (svTasks s')) i = Some t1" "\<not> broken (disk (svTasks s'))"
    unfolding assms(6) using assms(1-3) v by (simp_all add: Transition_def Let_def save_ok t1_def)
  let ?u = "\<lambda>t. t\<lparr>tCleanupSummary := AggregateCleanup t\<rparr>"
  let ?r = "snd (Update task_adapter i ?u (svTasks s'))"
  have r: "map_of (tasks ?r) i = Some (?u t1)" "\<not> broken (disk ?r)"
    using s' by (simp_all add: Update_def Let_def save_ok)
  have "\<forall>a \<in> ExpectedAgents (Some t1). map_of (tReports t1) a \<noteq> None"
    using assms(5) t1 by (auto simp: map_of_eq_None_iff)
  then have "FinishIfFullyReported n2 i s' = s'\<lparr>svTasks := snd (Transition task_adapter i Running Stopped n2 ?r)\<rparr>"
    using s'(1) t1 assms(4) by (auto simp: FinishIfFullyReported_def Get_def Let_def)
  with Transition_stop(2) [OF r(1), of Running n2] r(2) t1 show ?thesis by (auto simp: AggregateCleanup_def)
qed

definition early_service :: CompletionService where
  "early_service = snd (Accept 8 (sample_report ''a'') (snd (Accept 7 (sample_report ''b'') (sample_service Starting))))"

theorem early_reports_finish_witness:
  "\<exists>t'. map_of (tasks (svTasks (FinishIfFullyReported 10 ''t1''
     (early_service\<lparr>svTasks := snd (Transition task_adapter ''t1'' Starting Running 9 (svTasks early_service))\<rparr>)))) ''t1'' = Some t' \<and>
     tState t' = Stopped"
proof -
  define t where "t = the (map_of (tasks (svTasks early_service)) ''t1'')"
  have "map_of (tasks (svTasks early_service)) ''t1'' \<noteq> None" "\<not> broken (disk (svTasks early_service))"
    "tState t = Starting" "ExpectedAgents (Some t) = {''a'', ''b''}" "fst ` set (tReports t) = {''b'', ''a''}"
    unfolding t_def by code_simp+
  with early_reports_finish [of early_service "''t1''" t, OF _ _ _ _ _ refl, of 10 9] show ?thesis
    by (auto simp: t_def)
qed

end
