(* ===== verification/CodecBytes.thy ===== *)
theory CodecBytes
  imports Prelude "HOL-Library.Word"
begin

text \<open>
  The byte level of the declarative codec (\<open>src/protocol/codec/engine.go\<close>, and the field reader
  of \<open>preview.go\<close>): bytes are \<open>8 word\<close>, Go's \<open>uint64\<close> is \<open>64 word\<close>, and a header field is
  written and read with the byte order and the kind its schema declares.  The lemmas give the
  value a field reads back after a write, for every kind.
\<close>

unbundle bit_operations_syntax

type_synonym byte = "8 word"
type_synonym bytes = "byte list"
type_synonym u64 = "64 word"

datatype fieldKind = kindUnknown | kindU8 | kindU16 | kindU24 | kindU32 | kindU64
  | kindI8 | kindI16 | kindI24 | kindI32 | kindI64 | kindF32 | kindF64 | kindBytes

datatype byteOrder = LittleEndian | BigEndian

fun width :: "fieldKind \<Rightarrow> nat" where
  "width kindU8 = 1" | "width kindI8 = 1"
| "width kindU16 = 2" | "width kindI16 = 2"
| "width kindU24 = 3" | "width kindI24 = 3"
| "width kindU32 = 4" | "width kindI32 = 4" | "width kindF32 = 4"
| "width kindU64 = 8" | "width kindI64 = 8" | "width kindF64 = 8"
| "width kindBytes = 0" | "width kindUnknown = 0"

subsection \<open>\<open>encoding/binary\<close>\<close>

text \<open>
  The \<open>n\<close> low bytes of a value, least significant first, and the value of a little-endian byte
  sequence: a byte at position 8 or later is shifted out of the \<open>uint64\<close>, as in Go.
\<close>

primrec le_bytes :: "nat \<Rightarrow> u64 \<Rightarrow> bytes" where
  "le_bytes 0 v = []"
| "le_bytes (Suc n) v = ucast v # le_bytes n (drop_bit 8 v)"

primrec le_value :: "bytes \<Rightarrow> u64" where
  "le_value [] = 0"
| "le_value (b # bs) = ucast b OR push_bit 8 (le_value bs)"

fun put_uint :: "byteOrder \<Rightarrow> nat \<Rightarrow> u64 \<Rightarrow> bytes" where
  "put_uint LittleEndian n v = le_bytes n v"
| "put_uint BigEndian n v = rev (le_bytes n v)"

fun get_uint :: "byteOrder \<Rightarrow> bytes \<Rightarrow> u64" where
  "get_uint LittleEndian bs = le_value bs"
| "get_uint BigEndian bs = le_value (rev bs)"

lemma length_le_bytes [simp]: "length (le_bytes n v) = n"
  by (induction n arbitrary: v) auto

lemma length_put_uint [simp]: "length (put_uint e n v) = n"
  by (cases e) auto

lemma take_bit_Suc_byte:
  "ucast (ucast v :: byte) OR push_bit 8 (take_bit n (drop_bit 8 v)) = take_bit (8 + n) (v :: u64)"
  by (rule bit_eqI) (auto simp: bit_simps bit_ucast_iff)

lemma le_value_le_bytes: "le_value (le_bytes n v) = take_bit (8 * n) v"
  by (induction n arbitrary: v) (auto simp: take_bit_Suc_byte [symmetric] algebra_simps)

lemma get_put_uint: "get_uint e (put_uint e n v) = take_bit (8 * n) v"
  by (cases e) (simp_all add: le_value_le_bytes)

lemma le_value_replicate_0 [simp]: "le_value (replicate n 0) = 0"
  by (induction n) auto

lemma le_value_append:
  "le_value (xs @ ys) = le_value xs OR push_bit (8 * length xs) (le_value ys)"
proof (induction xs)
  case (Cons x xs)
  show ?case
    by (rule bit_eqI) (auto simp: Cons bit_simps)
qed auto

lemma le_bytes_take_bit: "8 * n \<le> m \<Longrightarrow> le_bytes n (take_bit m v) = le_bytes n v"
proof (induction n arbitrary: m v)
  case (Suc n)
  have "ucast (take_bit m v) = (ucast v :: byte)"
    using Suc.prems by (intro bit_eqI) (auto simp: bit_simps bit_ucast_iff)
  moreover have "drop_bit 8 (take_bit m v) = take_bit (m - 8) (drop_bit 8 v)"
    by (simp add: drop_bit_take_bit)
  ultimately show ?case using Suc by simp
qed simp

lemma le_bytes_le_value: "length bs \<le> 8 \<Longrightarrow> le_bytes (length bs) (le_value bs) = bs"
proof (induction bs)
  case (Cons b bs)
  have "\<not> bit b (8 + k)" for k using bit_imp_le_length [of b "8 + k"] by auto
  then have "drop_bit 8 (le_value (b # bs)) = take_bit 56 (le_value bs)"
    by (intro bit_eqI) (auto simp: bit_simps bit_ucast_iff)
  moreover have "ucast (le_value (b # bs)) = b"
    by (rule bit_eqI) (auto simp: bit_simps bit_ucast_iff)
  ultimately show ?case using Cons by (simp add: le_bytes_take_bit del: le_value.simps)
qed simp

subsection \<open>Reading and writing one field\<close>

text \<open>
  \<open>writeUint\<close> gives the new contents of the bytes_at \<open>dst\<close>, which has the size of the field: for a
  kind of fixed width that is its width (checked when the schema is loaded), so no access is out
  of range.  For a 24-bit kind the code writes four bytes and copies the first three.
\<close>

definition writeUint :: "bytes \<Rightarrow> byteOrder \<Rightarrow> fieldKind \<Rightarrow> u64 \<Rightarrow> bytes" where
  "writeUint dst order kind v =
    (if kind \<in> {kindU8, kindI8} then ucast v # drop 1 dst
     else if kind \<in> {kindU16, kindI16} then put_uint order 2 v @ drop 2 dst
     else if kind \<in> {kindU24, kindI24} then take (length dst) (take 3 (put_uint order 4 v)) @ drop 3 dst
     else if kind \<in> {kindU32, kindI32, kindF32} then put_uint order 4 v @ drop 4 dst
     else if kind \<in> {kindU64, kindI64, kindF64} then put_uint order 8 v @ drop 8 dst
     else le_bytes (length dst) v)"

definition readUint :: "bytes \<Rightarrow> byteOrder \<Rightarrow> fieldKind \<Rightarrow> u64" where
  "readUint src order kind =
    (if kind \<in> {kindU8, kindI8} then ucast (src ! 0)
     else if kind \<in> {kindU16, kindI16} then get_uint order (take 2 src)
     else if kind \<in> {kindU24, kindI24} then get_uint order (take 3 src @ [0])
     else if kind \<in> {kindU32, kindI32} then get_uint order (take 4 src)
     else if kind \<in> {kindU64, kindI64} then get_uint order (take 8 src)
     else le_value src)"

definition truncateUintToSize :: "u64 \<Rightarrow> int \<Rightarrow> u64" where
  "truncateUintToSize v sz =
    (if sz \<le> 0 \<or> sz \<ge> 8 then v else v AND (push_bit (nat sz * 8) 1 - 1))"

definition bytesToUint64 :: "bytes \<Rightarrow> u64" where
  "bytesToUint64 b = le_value (take 8 b)"

text \<open>
  \<open>readFieldU64\<close> is the reader the preview endpoint uses for the same bytes; it dispatches on the
  type's name and assembles a big-endian 24-bit value itself.
\<close>

definition readFieldU64 :: "bytes \<Rightarrow> byteOrder \<Rightarrow> string \<Rightarrow> u64" where
  "readFieldU64 src order fieldType =
    (if fieldType \<in> {''u8'', ''i8''} then (if length src \<ge> 1 then ucast (src ! 0) else 0)
     else if fieldType \<in> {''u16'', ''i16''} then
       (if length src \<ge> 2 then get_uint order (take 2 src) else 0)
     else if fieldType \<in> {''u24'', ''i24''} then
       (if length src \<ge> 3 then
          (if order = BigEndian
           then push_bit 16 (ucast (src ! 0)) OR push_bit 8 (ucast (src ! 1)) OR ucast (src ! 2)
           else get_uint order (take 3 src @ [0]))
        else 0)
     else if fieldType \<in> {''u32'', ''i32'', ''f32''} then
       (if length src \<ge> 4 then get_uint order (take 4 src) else 0)
     else if fieldType \<in> {''u64'', ''i64'', ''f64''} then
       (if length src \<ge> 8 then get_uint order (take 8 src) else 0)
     else le_value src)"

subsection \<open>What a field reads back\<close>

text \<open>A big-endian 24-bit field is the one kind whose two directions do not match.\<close>

definition exact_kind :: "byteOrder \<Rightarrow> fieldKind \<Rightarrow> bool" where
  "exact_kind order kind \<longleftrightarrow>
     kind \<notin> {kindF32, kindF64} \<and> (order = BigEndian \<longrightarrow> kind \<notin> {kindU24, kindI24})"

definition sized :: "fieldKind \<Rightarrow> nat \<Rightarrow> bool" where
  "sized kind n \<longleftrightarrow> 0 < n \<and> (0 < width kind \<longrightarrow> n = width kind)"

lemma length_writeUint: "sized kind (length dst) \<Longrightarrow> length (writeUint dst order kind v) = length dst"
  by (cases kind) (auto simp: writeUint_def sized_def)

lemma take_bit_byte: "ucast (ucast v :: byte) = take_bit 8 (v :: u64)"
  by (rule bit_eqI) (auto simp: bit_simps bit_ucast_iff)

lemma take_le_bytes: "take m (le_bytes n v) = le_bytes (min m n) v"
  by (induction n arbitrary: m v) (auto simp: take_Cons' min_def gr0_conv_Suc split: nat.splits)

lemma drop_le_bytes: "drop m (le_bytes n v) = le_bytes (n - m) (drop_bit (8 * m) v)"
  by (induction n arbitrary: m v) (auto simp: drop_Cons' gr0_conv_Suc add.commute)

lemma le_value_padded: "le_value (le_bytes n v @ [0]) = take_bit (8 * n) v"
  by (simp add: le_value_append le_value_le_bytes)

lemma read_write_uint:
  assumes "sized kind (length dst)" and "exact_kind order kind"
  shows "readUint (writeUint dst order kind v) order kind = take_bit (8 * length dst) v"
proof -
  have w: "0 < width kind \<longrightarrow> length dst = width kind" using assms by (simp add: sized_def)
  show ?thesis
    using assms(2) w
    by (cases kind; cases order)
      (simp_all add: readUint_def writeUint_def exact_kind_def le_value_le_bytes
        take_bit_byte take_le_bytes le_value_padded)
qed

text \<open>
  Big-endian 24-bit fields: the writer stores bits 8 to 31 of the value and the reader shifts what
  it finds up by a byte, so a value loses its low byte; a peer that sends the 24-bit value \<open>n\<close> is
  read as \<open>256 * n\<close>.
\<close>

lemma read_write_be24:
  assumes "kind \<in> {kindU24, kindI24}" and "length dst = 3"
  shows "readUint (writeUint dst BigEndian kind v) BigEndian kind = take_bit 32 v AND NOT 255"
proof -
  have "drop (Suc 0) (le_bytes 4 v) = le_bytes 3 (drop_bit 8 v)"
    using drop_le_bytes [of 1 4 v] by simp
  then have "readUint (writeUint dst BigEndian kind v) BigEndian kind
      = push_bit 8 (le_value (le_bytes 3 (drop_bit 8 v)))"
    using assms by (auto simp: readUint_def writeUint_def take_rev take_le_bytes)
  also have "\<dots> = take_bit 32 v AND NOT (mask 8)"
    unfolding le_value_le_bytes by (rule bit_eqI) (auto simp: bit_simps)
  finally show ?thesis by (simp add: mask_eq_exp_minus_1)
qed

lemma read_be24_scaled:
  assumes "kind \<in> {kindU24, kindI24}" and "length src = 3"
  shows "readUint src BigEndian kind = push_bit 8 (get_uint BigEndian src)"
  using assms by (auto simp: readUint_def)

lemma truncate_take_bit:
  assumes "0 < n" shows "truncateUintToSize v (int n) = take_bit (8 * n) v"
proof (cases "n < 8")
  case True
  then show ?thesis using assms
    by (simp add: truncateUintToSize_def take_bit_eq_mask mask_eq_exp_minus_1 push_bit_eq_mult
        mult.commute)
next
  case False
  then have "take_bit (8 * n) v = v" by (simp add: take_bit_word_eq_self)
  then show ?thesis using False by (simp add: truncateUintToSize_def)
qed

subsection \<open>Slices of a buffer\<close>

text \<open>The buffer after the bytes from \<open>off\<close> on were overwritten by \<open>bs\<close>.\<close>

definition overwrite :: "bytes \<Rightarrow> nat \<Rightarrow> bytes \<Rightarrow> bytes" where
  "overwrite buf off bs = take off buf @ bs @ drop (off + length bs) buf"

definition bytes_at :: "bytes \<Rightarrow> nat \<Rightarrow> nat \<Rightarrow> bytes" where
  "bytes_at buf off n = take n (drop off buf)"

lemma length_overwrite [simp]: "off + length bs \<le> length buf \<Longrightarrow> length (overwrite buf off bs) = length buf"
  by (simp add: overwrite_def)

lemma bytes_at_overwrite_same [simp]:
  "off + length bs \<le> length buf \<Longrightarrow> bytes_at (overwrite buf off bs) off (length bs) = bs"
  by (simp add: overwrite_def bytes_at_def)

lemma nth_overwrite:
  assumes "off + length bs \<le> length buf" and "i < length buf" and "i < off \<or> off + length bs \<le> i"
  shows "overwrite buf off bs ! i = buf ! i"
  using assms(3)
proof
  assume "i < off"
  then show ?thesis using assms by (simp add: overwrite_def nth_append)
next
  assume i: "off + length bs \<le> i"
  then have "overwrite buf off bs ! i = drop (off + length bs) buf ! (i - off - length bs)"
    using assms by (auto simp: overwrite_def nth_append)
  then show ?thesis using i assms by simp
qed

lemma bytes_at_overwrite_other:
  assumes "off + length bs \<le> length buf" and "o' + n \<le> off \<or> off + length bs \<le> o'"
  shows "bytes_at (overwrite buf off bs) o' n = bytes_at buf o' n"
proof (rule nth_equalityI)
  show "length (bytes_at (overwrite buf off bs) o' n) = length (bytes_at buf o' n)"
    using assms by (simp add: bytes_at_def)
  fix i assume "i < length (bytes_at (overwrite buf off bs) o' n)"
  then have i: "i < n" "o' + i < length buf" using assms by (auto simp: bytes_at_def)
  then have "overwrite buf off bs ! (o' + i) = buf ! (o' + i)"
    using assms by (intro nth_overwrite) auto
  then show "bytes_at (overwrite buf off bs) o' n ! i = bytes_at buf o' n ! i"
    using i assms(1) by (simp add: bytes_at_def)
qed

lemma length_bytes_at [simp]: "off + n \<le> length buf \<Longrightarrow> length (bytes_at buf off n) = n"
  by (simp add: bytes_at_def)

end
