(* ===== verification/CodecCipher.thy ===== *)
theory CodecCipher
  imports CodecBytes GoValue
begin

text \<open>
  The ciphers of the codec (\<open>src/protocol/codec/ciphers.go\<close>).  The core transformations work on
  byte lists (\<open>xor\<close>, \<open>xor_carry_rol\<close>, PKCS#7) and on lists of \<open>32 word\<close> (XXTEA); RC4 is the
  standard library's algorithm, and AES is its block permutation, an argument (\<open>aes\<close>) of the
  definitions that use it, with the modes ECB, CBC and CTR written out.  Every cipher keeps the
  first \<open>offset\<close> bytes and fails with a value of \<open>cipherError\<close>.  The lemmas show that decryption
  inverts encryption for every cipher, and that the in-place decryption the receive path prefers
  is the copying one.
\<close>

datatype cipherError = InvalidKeySize nat | InvalidPadding | NotBlockAligned
  | MissingIV | BadIVType | BadIVLength nat | XXTEAKeyLength nat | XXTEADataLength

type_synonym 'a cres = "cipherError + 'a"
type_synonym params = "string \<rightharpoonup> gval"

subsection \<open>Byte rotation and offsets\<close>

definition rol8 :: "byte \<Rightarrow> nat \<Rightarrow> byte" where
  "rol8 b n = push_bit n b OR drop_bit (8 - n) b"

definition ror8 :: "byte \<Rightarrow> nat \<Rightarrow> byte" where
  "ror8 b n = drop_bit n b OR push_bit (8 - n) b"

definition clampOffset :: "int \<Rightarrow> nat \<Rightarrow> nat" where
  "clampOffset offset dataLen =
    (if offset < 0 then 0 else if offset > int dataLen then dataLen else nat offset)"

lemma ror8_rol8: "n \<le> 8 \<Longrightarrow> ror8 (rol8 b n) n = b"
proof (rule bit_eqI)
  fix i assume n: "n \<le> 8" and "possible_bit TYPE(byte) i"
  then have "i < 8" by simp
  then show "bit (ror8 (rol8 b n) n) i = bit b i"
    using n by (cases "n + i < 8") (auto simp: rol8_def ror8_def bit_simps)
qed

lemma clampOffset_le [simp]: "clampOffset off n \<le> n"
  by (auto simp: clampOffset_def)

lemma clampOffset_mono: "off \<le> int n \<Longrightarrow> n \<le> m \<Longrightarrow> clampOffset off m = clampOffset off n"
  by (simp add: clampOffset_def)

subsection \<open>Stream transformations\<close>

text \<open>The loops over the bytes carry the index (the key repeats) and, where the code has it, the
  carry.\<close>

fun xcr_enc :: "bytes \<Rightarrow> nat \<Rightarrow> nat \<Rightarrow> byte \<Rightarrow> bytes \<Rightarrow> bytes" where
  "xcr_enc key rol i carry [] = []"
| "xcr_enc key rol i carry (b # bs) =
     (let x = rol8 ((b XOR key ! (i mod length key)) + carry) rol
      in x # xcr_enc key rol (Suc i) x bs)"

fun xcr_dec :: "bytes \<Rightarrow> nat \<Rightarrow> nat \<Rightarrow> byte \<Rightarrow> bytes \<Rightarrow> bytes" where
  "xcr_dec key rol i carry [] = []"
| "xcr_dec key rol i carry (enc # bs) =
     ((ror8 enc rol - carry) XOR key ! (i mod length key)) # xcr_dec key rol (Suc i) enc bs"

definition encryptXorCarryRol :: "bytes \<Rightarrow> bytes \<Rightarrow> nat \<Rightarrow> bytes" where
  "encryptXorCarryRol data key rolBits = xcr_enc key rolBits 0 0 data"

definition decryptXorCarryRol :: "bytes \<Rightarrow> bytes \<Rightarrow> nat \<Rightarrow> bytes" where
  "decryptXorCarryRol data key rolBits = xcr_dec key rolBits 0 0 data"

fun xor_from :: "bytes \<Rightarrow> nat \<Rightarrow> bytes \<Rightarrow> bytes" where
  "xor_from key i [] = []"
| "xor_from key i (b # bs) = (b XOR key ! (i mod length key)) # xor_from key (Suc i) bs"

definition encryptXor :: "bytes \<Rightarrow> bytes \<Rightarrow> bytes" where
  "encryptXor data key = xor_from key 0 data"

lemma length_xcr_enc [simp]: "length (xcr_enc key rol i c bs) = length bs"
  by (induction bs arbitrary: i c) (auto simp: Let_def)

lemma length_xcr_dec [simp]: "length (xcr_dec key rol i c bs) = length bs"
  by (induction bs arbitrary: i c) auto

lemma length_xor_from [simp]: "length (xor_from key i bs) = length bs"
  by (induction bs arbitrary: i) auto

lemma xor_cancel [simp]: "(b XOR k) XOR k = (b :: 'a::len word)"
  by (simp add: xor.assoc)

lemma xcr_dec_enc: "rol \<le> 8 \<Longrightarrow> xcr_dec key rol i c (xcr_enc key rol i c bs) = bs"
  by (induction bs arbitrary: i c) (auto simp: Let_def ror8_rol8)

lemma decrypt_encrypt_xcr: "rol \<le> 8 \<Longrightarrow> decryptXorCarryRol (encryptXorCarryRol bs key rol) key rol = bs"
  by (simp add: decryptXorCarryRol_def encryptXorCarryRol_def xcr_dec_enc)

lemma xor_from_twice [simp]: "xor_from key i (xor_from key i bs) = bs"
  by (induction bs arbitrary: i) auto

lemma encryptXor_twice [simp]: "encryptXor (encryptXor bs key) key = bs"
  by (simp add: encryptXor_def)

subsection \<open>PKCS\#7\<close>

definition pkcs7Pad :: "bytes \<Rightarrow> nat \<Rightarrow> bytes" where
  "pkcs7Pad data blockSize =
    (let n = blockSize - length data mod blockSize in data @ replicate n (of_nat n))"

definition pkcs7Unpad :: "bytes \<Rightarrow> bytes cres" where
  "pkcs7Unpad data =
    (if data = [] then Inl InvalidPadding
     else let n = unat (last data) in
       if n = 0 \<or> n > length data then Inl InvalidPadding
       else if list_all (\<lambda>b. b = of_nat n) (drop (length data - n) data)
         then Inr (take (length data - n) data) else Inl InvalidPadding)"

lemma pkcs7_length: "0 < bs \<Longrightarrow> bs dvd length (pkcs7Pad data bs)"
proof -
  assume "0 < bs"
  then have "length data mod bs \<le> bs" by (simp add: less_imp_le)
  then have "length (pkcs7Pad data bs) = (length data - length data mod bs) + bs"
    by (simp add: pkcs7Pad_def Let_def)
  then show ?thesis by (simp only: dvd_add_triv_right_iff dvd_minus_mod)
qed

lemma pkcs7Unpad_Pad:
  assumes "0 < bs" "bs < 256" shows "pkcs7Unpad (pkcs7Pad data bs) = Inr data"
proof -
  define n where "n = bs - length data mod bs"
  have n: "0 < n" "n < 256" using assms by (auto simp: n_def less_imp_diff_less)
  then have u: "unat (of_nat n :: byte) = n" by (simp add: unat_of_nat)
  have "pkcs7Pad data bs = data @ replicate n (of_nat n)" by (simp add: pkcs7Pad_def n_def Let_def)
  then show ?thesis using n u by (simp add: pkcs7Unpad_def list_all_iff)
qed

subsection \<open>XXTEA\<close>

type_synonym u32 = "32 word"

definition xxteaDelta :: u32 where "xxteaDelta = 0x9E3779B9"

definition xxteaKeyLen :: nat where "xxteaKeyLen = 16"

text \<open>The mixing term of position \<open>p\<close>, from its two neighbours.\<close>

definition xxtea_mx :: "u32 list \<Rightarrow> u32 \<Rightarrow> nat \<Rightarrow> u32 \<Rightarrow> u32 \<Rightarrow> u32" where
  "xxtea_mx key sm p left right =
    (let e = drop_bit 2 sm AND 3 in
     ((drop_bit 5 right XOR push_bit 2 left) + (drop_bit 3 left XOR push_bit 4 right))
       XOR ((sm XOR right) + (key ! unat ((of_nat p AND 3) XOR e) XOR left)))"

definition xxtea_z :: "u32 list \<Rightarrow> u32 \<Rightarrow> nat \<Rightarrow> u32 list \<Rightarrow> u32" where
  "xxtea_z key sm p v =
    xxtea_mx key sm p (v ! ((p + length v - 1) mod length v)) (v ! ((p + 1) mod length v))"

definition enc_at :: "u32 list \<Rightarrow> u32 \<Rightarrow> nat \<Rightarrow> u32 list \<Rightarrow> u32 list" where
  "enc_at key sm p v = v[p := v ! p + xxtea_z key sm p v]"

definition dec_at :: "u32 list \<Rightarrow> u32 \<Rightarrow> nat \<Rightarrow> u32 list \<Rightarrow> u32 list" where
  "dec_at key sm p v = v[p := v ! p - xxtea_z key sm p v]"

primrec enc_rounds :: "u32 list \<Rightarrow> nat \<Rightarrow> u32 \<Rightarrow> u32 list \<Rightarrow> u32 list" where
  "enc_rounds key 0 sm v = v"
| "enc_rounds key (Suc r) sm v =
     enc_rounds key r (sm + xxteaDelta) (fold (enc_at key (sm + xxteaDelta)) [0..<length v] v)"

primrec dec_rounds :: "u32 list \<Rightarrow> nat \<Rightarrow> u32 \<Rightarrow> u32 list \<Rightarrow> u32 list" where
  "dec_rounds key 0 sm v = v"
| "dec_rounds key (Suc r) sm v =
     dec_rounds key r (sm - xxteaDelta) (fold (dec_at key sm) (rev [0..<length v]) v)"

fun bytesToUint32s :: "bytes \<Rightarrow> nat \<Rightarrow> u32 list" where
  "bytesToUint32s data 0 = []"
| "bytesToUint32s data (Suc n) = ucast (le_value (take 4 data)) # bytesToUint32s (drop 4 data) n"

definition uint32sToBytes :: "u32 list \<Rightarrow> bytes" where
  "uint32sToBytes v = concat (map (\<lambda>u. le_bytes 4 (ucast u)) v)"

definition encryptXXTEA :: "bytes \<Rightarrow> u32 list \<Rightarrow> bytes" where
  "encryptXXTEA data key =
    (let n = length data div 4 in
     if n < 2 then data
     else uint32sToBytes (enc_rounds key (6 + 52 div n) 0 (bytesToUint32s data n)))"

definition decryptXXTEA :: "bytes \<Rightarrow> u32 list \<Rightarrow> bytes" where
  "decryptXXTEA data key =
    (let n = length data div 4; rounds = 6 + 52 div n in
     if n < 2 then data
     else uint32sToBytes
       (dec_rounds key rounds (of_nat rounds * xxteaDelta) (bytesToUint32s data n)))"

lemma length_enc_at [simp]: "length (enc_at key sm p v) = length v"
  by (simp add: enc_at_def)

lemma length_fold_enc [simp]: "length (fold (enc_at key sm) ps v) = length v"
  by (induction ps arbitrary: v) auto

lemma neighbours:
  assumes "2 \<le> n" "p < n"
  shows "(p + n - 1) mod n \<noteq> p" and "(p + 1) mod n \<noteq> (p :: nat)"
proof -
  show "(p + 1) mod n \<noteq> p" using assms by (cases "p + 1 = n") auto
  show "(p + n - 1) mod n \<noteq> p"
  proof (cases "p = 0")
    case False
    then have "(p + n - 1) mod n = (p - 1 + n) mod n" by simp
    also have "\<dots> = p - 1" using assms by (simp only: mod_add_self2) simp
    finally show ?thesis using False by simp
  qed (use assms in auto)
qed

lemma dec_enc_at: "2 \<le> length v \<Longrightarrow> p < length v \<Longrightarrow> dec_at key sm p (enc_at key sm p v) = v"
  using neighbours [of "length v" p]
  by (simp add: dec_at_def enc_at_def xxtea_z_def nth_list_update_neq)

lemma dec_enc_pass:
  assumes "2 \<le> length v" "\<forall>p \<in> set ps. p < length v"
  shows "fold (dec_at key sm) (rev ps) (fold (enc_at key sm) ps v) = v"
  using assms by (induction ps arbitrary: v) (auto simp: dec_enc_at)

lemma length_enc_rounds [simp]: "length (enc_rounds key r sm v) = length v"
  by (induction r arbitrary: sm v) auto

lemma dec_enc_rounds:
  "2 \<le> length v \<Longrightarrow> dec_rounds key (r + k) (sm + of_nat r * xxteaDelta) (enc_rounds key r sm v)
     = dec_rounds key k sm v"
proof (induction r arbitrary: k sm v)
  case (Suc r)
  let ?s = "sm + xxteaDelta" and ?w = "fold (enc_at key (sm + xxteaDelta)) [0..<length v] v"
  have "dec_rounds key (r + Suc k) (?s + of_nat r * xxteaDelta) (enc_rounds key r ?s ?w)
      = dec_rounds key (Suc k) ?s ?w"
    using Suc.prems by (intro Suc.IH) simp
  also have "\<dots> = dec_rounds key k sm v"
    using dec_enc_pass [of v "[0..<length v]" key ?s] Suc.prems by simp
  finally show ?case by (simp add: algebra_simps)
qed simp

lemma bytesToUint32s_inverse:
  "bytesToUint32s (uint32sToBytes v) (length v) = v"
proof (induction v)
  case (Cons u v)
  have "ucast (take_bit 32 (ucast u :: u64)) = u"
    by (rule bit_eqI) (auto simp: bit_simps bit_ucast_iff)
  then show ?case using Cons by (simp add: uint32sToBytes_def le_value_le_bytes)
qed (simp add: uint32sToBytes_def)

lemma ucast32_64: "ucast (ucast x :: u32) = take_bit 32 (x :: u64)"
  by (rule bit_eqI) (auto simp: bit_simps bit_ucast_iff)

lemma uint32sToBytes_inverse: "length data = 4 * n \<Longrightarrow> uint32sToBytes (bytesToUint32s data n) = data"
proof (induction n arbitrary: data)
  case (Suc n)
  have "le_bytes 4 (le_value (take 4 data)) = take 4 data"
    using le_bytes_le_value [of "take 4 data"] Suc.prems by simp
  then show ?case using Suc by (simp add: uint32sToBytes_def ucast32_64 le_bytes_take_bit)
qed (simp add: uint32sToBytes_def)

lemma length_bytesToUint32s [simp]: "length (bytesToUint32s data n) = n"
  by (induction n arbitrary: data) auto

lemma length_uint32sToBytes [simp]: "length (uint32sToBytes v) = 4 * length v"
  by (induction v) (auto simp: uint32sToBytes_def)

lemma length_encryptXXTEA: "4 dvd length data \<Longrightarrow> length (encryptXXTEA data key) = length data"
  by (auto simp: encryptXXTEA_def Let_def)

lemma decrypt_encrypt_XXTEA:
  assumes "4 dvd length data"
  shows "decryptXXTEA (encryptXXTEA data key) key = data"
proof (cases "length data div 4 < 2")
  case True
  then show ?thesis by (simp add: decryptXXTEA_def encryptXXTEA_def)
next
  case False
  define n where "n = length data div 4"
  define w where "w = bytesToUint32s data n"
  define r where "r = 6 + 52 div n"
  have len: "length data = 4 * n" "2 \<le> n" "length w = n"
    using assms False by (auto simp: n_def w_def)
  have "encryptXXTEA data key = uint32sToBytes (enc_rounds key r 0 w)"
    using False by (simp add: encryptXXTEA_def Let_def n_def w_def r_def)
  moreover have "decryptXXTEA (uint32sToBytes (enc_rounds key r 0 w)) key
      = uint32sToBytes (dec_rounds key r (0 + of_nat r * xxteaDelta)
          (bytesToUint32s (uint32sToBytes (enc_rounds key r 0 w)) (length (enc_rounds key r 0 w))))"
    using len by (simp add: decryptXXTEA_def Let_def r_def)
  moreover have "dec_rounds key r (0 + of_nat r * xxteaDelta) (enc_rounds key r 0 w) = w"
    using dec_enc_rounds [of w key r 0 0] len by simp
  moreover have "uint32sToBytes w = data"
    using len by (simp add: w_def uint32sToBytes_inverse)
  ultimately show ?thesis by (simp only: bytesToUint32s_inverse)
qed

subsection \<open>RC4 (\<open>crypto/rc4\<close>)\<close>

text \<open>The state is the permutation of the 256 bytes and the two indices.\<close>

type_synonym rc4State = "bytes \<times> byte \<times> byte"

definition swap_at :: "bytes \<Rightarrow> byte \<Rightarrow> byte \<Rightarrow> bytes" where
  "swap_at s i j = s[unat i := s ! unat j, unat j := s ! unat i]"

definition rc4_key_step :: "bytes \<Rightarrow> nat \<Rightarrow> bytes \<times> byte \<Rightarrow> bytes \<times> byte" where
  "rc4_key_step key i sj =
    (let j = snd sj + fst sj ! i + key ! (i mod length key)
     in (swap_at (fst sj) (of_nat i) j, j))"

definition rc4_new :: "bytes \<Rightarrow> rc4State cres" where
  "rc4_new key =
    (if length key < 1 \<or> length key > 256 then Inl (InvalidKeySize (length key))
     else Inr (fst (fold (rc4_key_step key) [0..<256] (map of_nat [0..<256], 0)), 0, 0))"

fun xorKeyStream :: "rc4State \<Rightarrow> bytes \<Rightarrow> bytes" where
  "xorKeyStream st [] = []"
| "xorKeyStream (s, i, j) (b # bs) =
     (let i' = i + 1; x = s ! unat i'; j' = j + x; y = s ! unat j'; s' = swap_at s i' j'
      in (b XOR s' ! unat (x + y)) # xorKeyStream (s', i', j') bs)"

lemma xorKeyStream_twice [simp]: "xorKeyStream st (xorKeyStream st bs) = bs"
  by (induction st bs rule: xorKeyStream.induct) (auto simp: Let_def)

lemma length_xorKeyStream [simp]: "length (xorKeyStream st bs) = length bs"
  by (induction st bs rule: xorKeyStream.induct) (auto simp: Let_def)

subsection \<open>Block modes (\<open>crypto/cipher\<close>)\<close>

text \<open>
  AES is its block permutation: \<open>aesEncrypt\<close> and \<open>aesDecrypt\<close> take a key and a block of 16 bytes.
  \<open>aes_laws\<close> is what the standard library documents of them.
\<close>

record aes =
  aesEncrypt :: "bytes \<Rightarrow> bytes \<Rightarrow> bytes"
  aesDecrypt :: "bytes \<Rightarrow> bytes \<Rightarrow> bytes"

definition aes_laws :: "'a aes_scheme \<Rightarrow> bool" where
  "aes_laws a \<longleftrightarrow> (\<forall>k b. length k \<in> {16, 24, 32} \<longrightarrow> length b = 16 \<longrightarrow>
     length (aesEncrypt a k b) = 16 \<and> aesDecrypt a k (aesEncrypt a k b) = b)"

definition aes_new :: "bytes \<Rightarrow> bytes cres" where
  "aes_new key = (if length key \<in> {16, 24, 32} then Inr key else Inl (InvalidKeySize (length key)))"

function ecb :: "(bytes \<Rightarrow> bytes) \<Rightarrow> bytes \<Rightarrow> bytes" where
  "ecb f data = (if data = [] then [] else f (take 16 data) @ ecb f (drop 16 data))"
  by pat_completeness auto
termination by (relation "measure (\<lambda>(f, d). length d)") auto

definition xor_bytes :: "bytes \<Rightarrow> bytes \<Rightarrow> bytes" where
  "xor_bytes a b = map2 (\<lambda>x y. x XOR y) a b"

function cbc_encrypt :: "(bytes \<Rightarrow> bytes) \<Rightarrow> bytes \<Rightarrow> bytes \<Rightarrow> bytes" where
  "cbc_encrypt f prev data =
    (if data = [] then []
     else let c = f (xor_bytes (take 16 data) prev) in c @ cbc_encrypt f c (drop 16 data))"
  by pat_completeness auto
termination by (relation "measure (\<lambda>(f, p, d). length d)") auto

function cbc_decrypt :: "(bytes \<Rightarrow> bytes) \<Rightarrow> bytes \<Rightarrow> bytes \<Rightarrow> bytes" where
  "cbc_decrypt f prev data =
    (if data = [] then []
     else xor_bytes (f (take 16 data)) prev @ cbc_decrypt f (take 16 data) (drop 16 data))"
  by pat_completeness auto
termination by (relation "measure (\<lambda>(f, p, d). length d)") auto

text \<open>The counter block of CTR mode is incremented as one big-endian number.\<close>

fun inc_le :: "bytes \<Rightarrow> bytes" where
  "inc_le [] = []"
| "inc_le (b # bs) = (if b + 1 = 0 then 0 # inc_le bs else (b + 1) # bs)"

definition inc_counter :: "bytes \<Rightarrow> bytes" where
  "inc_counter c = rev (inc_le (rev c))"

function ctr_xor :: "(bytes \<Rightarrow> bytes) \<Rightarrow> bytes \<Rightarrow> bytes \<Rightarrow> bytes" where
  "ctr_xor f c data =
    (if data = [] then []
     else xor_bytes (take 16 data) (f c) @ ctr_xor f (inc_counter c) (drop 16 data))"
  by pat_completeness auto
termination by (relation "measure (\<lambda>(f, c, d). length d)") auto

declare ecb.simps [simp del] cbc_encrypt.simps [simp del] cbc_decrypt.simps [simp del]
  ctr_xor.simps [simp del]

lemma length_xor_bytes [simp]: "length (xor_bytes a b) = min (length a) (length b)"
  by (simp add: xor_bytes_def)

lemma xor_bytes_twice: "length a \<le> length b \<Longrightarrow> xor_bytes (xor_bytes a b) b = a"
  by (rule nth_equalityI) (auto simp: xor_bytes_def)

lemma blocks_induct [consumes 1, case_names nil block]:
  assumes "16 dvd length (data :: bytes)" and "P []"
    and "\<And>b bs. length b = 16 \<Longrightarrow> 16 dvd length bs \<Longrightarrow> P bs \<Longrightarrow> P (b @ bs)"
  shows "P data"
  using assms(1)
proof (induction "length data" arbitrary: data rule: less_induct)
  case less
  show ?case
  proof (cases "data = []")
    case False
    then have "16 \<le> length data" using less.prems by (auto dest: dvd_imp_le)
    then have "P (take 16 data @ drop 16 data)"
      using less by (intro assms(3)) (auto intro: less.hyps dvd_diff_nat)
    then show ?thesis by simp
  qed (simp add: assms(2))
qed

lemma ecb_block: "length b = 16 \<Longrightarrow> ecb f (b @ bs) = f b @ ecb f bs"
  by (subst ecb.simps) auto

lemma ecb_nil [simp]: "ecb f [] = []"
  by (simp add: ecb.simps)

lemma ecb_inverse:
  assumes "16 dvd length data"
    and "\<And>b. length b = 16 \<Longrightarrow> length (f b) = 16 \<and> g (f b) = b"
  shows "length (ecb f data) = length data \<and> ecb g (ecb f data) = data"
  using assms(1) by (induction data rule: blocks_induct) (auto simp: ecb_block assms(2))

lemma cbc_inverse:
  assumes "16 dvd length data" and "length prev = 16"
    and "\<And>b. length b = 16 \<Longrightarrow> length (f b) = 16 \<and> g (f b) = b"
  shows "length (cbc_encrypt f prev data) = length data
    \<and> cbc_decrypt g prev (cbc_encrypt f prev data) = data"
  using assms(1,2)
proof (induction data arbitrary: prev rule: blocks_induct)
  case nil
  then show ?case by (simp add: cbc_encrypt.simps cbc_decrypt.simps)
next
  case (block b bs)
  let ?c = "f (xor_bytes b prev)"
  have c: "length ?c = 16" "g ?c = xor_bytes b prev" using block by (auto simp: assms(3))
  have "cbc_encrypt f prev (b @ bs) = ?c @ cbc_encrypt f ?c bs"
    using block by (subst cbc_encrypt.simps) (auto simp: Let_def)
  moreover have "cbc_decrypt g prev (?c @ cs) = xor_bytes (g ?c) prev @ cbc_decrypt g ?c cs" for cs
    using c by (subst cbc_decrypt.simps) auto
  ultimately show ?case using block c by (auto simp: xor_bytes_twice)
qed

lemma length_inc_le [simp]: "length (inc_le b) = length b"
  by (induction b) auto

lemma length_inc_counter [simp]: "length (inc_counter c) = length c"
  by (simp add: inc_counter_def)

lemma ctr_inverse:
  assumes "\<And>b. length b = 16 \<Longrightarrow> length (f b) = 16" and "length c = 16"
  shows "length (ctr_xor f c data) = length data \<and> ctr_xor f c (ctr_xor f c data) = data"
  using assms
proof (induction f c data rule: ctr_xor.induct)
  case (1 f c data)
  show ?case
  proof (cases "data = []")
    case True
    then show ?thesis by (simp add: ctr_xor.simps)
  next
    case False
    define ct where "ct = xor_bytes (take 16 data) (f c)"
    define rest where "rest = ctr_xor f (inc_counter c) (drop 16 data)"
    have fc: "length (f c) = 16" using 1 by simp
    have enc: "ctr_xor f c data = ct @ rest"
      using False by (simp add: ctr_xor.simps [of f c data] ct_def rest_def)
    have ih: "length rest = length data - 16" "ctr_xor f (inc_counter c) rest = drop 16 data"
      using 1 False by (auto simp: rest_def)
    have len: "length ct = min 16 (length data)" using fc by (simp add: ct_def min.commute)
    have cut: "take 16 (ct @ rest) = ct" "drop 16 (ct @ rest) = rest"
      using len ih(1) by (auto simp: min_def split: if_splits)
    have "ctr_xor f c (ct @ rest) = xor_bytes ct (f c) @ drop 16 data"
    proof -
      have "ct @ rest \<noteq> []" using False len by (auto simp: min_def split: if_splits)
      then have "ctr_xor f c (ct @ rest)
          = xor_bytes (take 16 (ct @ rest)) (f c) @ ctr_xor f (inc_counter c) (drop 16 (ct @ rest))"
        by (simp only: ctr_xor.simps [of f c "ct @ rest"] if_False)
      then show ?thesis by (simp only: cut ih(2))
    qed
    moreover have "xor_bytes ct (f c) = take 16 data"
      unfolding ct_def using fc by (intro xor_bytes_twice) simp
    ultimately show ?thesis using enc len ih(1) by auto
  qed
qed

subsection \<open>The registered ciphers\<close>

datatype cipherImpl = noneCipher | xorCipher | xorCarryRolCipher | rc4Cipher
  | aesEcbCipher | aesCbcCipher | aesCtrCipher | xxteaCipher

text \<open>
  The rotation of \<open>xor_carry_rol\<close>: the parameter is converted to \<open>uint\<close> (a negative number wraps;
  JSON numbers are floats) and clamped to \<open>1..7\<close>.
\<close>

fun uint_of_f64 :: "float64 \<Rightarrow> int" where
  "uint_of_f64 (Fin x) =
     (let n = (if 0 \<le> x then \<lfloor>x\<rfloor> else \<lceil>x\<rceil>) in
      if is_u64 n then n else wrapu64 (int_of_f64 (Fin x)))"
| "uint_of_f64 x = wrapu64 (int_of_f64 x)"

fun rol_value :: "gval option \<Rightarrow> int" where
  "rol_value (Some (VInt KInt n)) = wrapu64 n"
| "rol_value (Some (VInt KInt64 n)) = wrapu64 n"
| "rol_value (Some (VF64 x)) = uint_of_f64 x"
| "rol_value (Some (VUint KUint n)) = n"
| "rol_value _ = 3"

definition rolFromParams :: "params \<Rightarrow> nat" where
  "rolFromParams ps =
    (let bits = rol_value (ps ''rol'') in
     if bits < 1 then 1 else if bits > 7 then 7 else nat bits)"

text \<open>A string or byte parameter as bytes.\<close>

definition bytes_of_string :: "string \<Rightarrow> bytes" where
  "bytes_of_string s = map (\<lambda>c. of_nat (of_char c)) s"

definition aes_iv :: "params \<Rightarrow> bytes cres" where
  "aes_iv ps =
    (case ps ''iv'' of
       None \<Rightarrow> Inl MissingIV
     | Some v \<Rightarrow>
        (case v of
           VBytes s \<Rightarrow> (if length s \<noteq> 16 then Inl (BadIVLength (length s)) else Inr (bytes_of_string s))
         | VStr s \<Rightarrow> (if length s \<noteq> 16 then Inl (BadIVLength (length s)) else Inr (bytes_of_string s))
         | _ \<Rightarrow> Inl BadIVType))"

text \<open>The transformed tail behind the prefix that stays as it is.\<close>

definition behind :: "nat \<Rightarrow> bytes \<Rightarrow> (bytes \<Rightarrow> bytes) \<Rightarrow> bytes" where
  "behind off data f = take off data @ f (drop off data)"

definition none_apply :: "bytes \<Rightarrow> bytes cres" where
  "none_apply data = Inr data"

definition xor_apply :: "bytes \<Rightarrow> bytes \<Rightarrow> int \<Rightarrow> bytes cres" where
  "xor_apply data key offset =
    (if key = [] \<or> data = [] then Inr data
     else Inr (behind (clampOffset offset (length data)) data (\<lambda>d. encryptXor d key)))"

definition xcr_apply :: "(bytes \<Rightarrow> bytes \<Rightarrow> nat \<Rightarrow> bytes) \<Rightarrow> bytes \<Rightarrow> bytes \<Rightarrow> int \<Rightarrow> params \<Rightarrow> bytes cres" where
  "xcr_apply core data key offset ps =
    (if length key \<noteq> 32 \<or> data = [] then Inr data
     else Inr (behind (clampOffset offset (length data)) data (\<lambda>d. core d key (rolFromParams ps))))"

definition rc4_apply :: "bytes \<Rightarrow> bytes \<Rightarrow> int \<Rightarrow> bytes cres" where
  "rc4_apply data key offset =
    (if key = [] \<or> data = [] then Inr data
     else case rc4_new key of
       Inl e \<Rightarrow> Inl e
     | Inr st \<Rightarrow> Inr (behind (clampOffset offset (length data)) data (xorKeyStream st)))"

definition ecb_encrypt_step :: "'a aes_scheme \<Rightarrow> bytes \<Rightarrow> bytes \<Rightarrow> int \<Rightarrow> bytes cres" where
  "ecb_encrypt_step a data key offset =
    (case aes_new key of
       Inl e \<Rightarrow> Inl e
     | Inr k \<Rightarrow> Inr (behind (clampOffset offset (length data)) data
         (\<lambda>d. ecb (aesEncrypt a k) (pkcs7Pad d 16))))"

definition unpad_behind :: "nat \<Rightarrow> bytes \<Rightarrow> (bytes \<Rightarrow> bytes) \<Rightarrow> bytes cres" where
  "unpad_behind off data f =
    (if length (drop off data) mod 16 \<noteq> 0 then Inl NotBlockAligned
     else case pkcs7Unpad (f (drop off data)) of
       Inl e \<Rightarrow> Inl e
     | Inr u \<Rightarrow> Inr (take off data @ u))"

definition ecb_decrypt_step :: "'a aes_scheme \<Rightarrow> bytes \<Rightarrow> bytes \<Rightarrow> int \<Rightarrow> bytes cres" where
  "ecb_decrypt_step a data key offset =
    (case aes_new key of
       Inl e \<Rightarrow> Inl e
     | Inr k \<Rightarrow> unpad_behind (clampOffset offset (length data)) data (ecb (aesDecrypt a k)))"

definition cbc_encrypt_step :: "'a aes_scheme \<Rightarrow> bytes \<Rightarrow> bytes \<Rightarrow> int \<Rightarrow> params \<Rightarrow> bytes cres" where
  "cbc_encrypt_step a data key offset ps =
    (case aes_iv ps of
       Inl e \<Rightarrow> Inl e
     | Inr iv \<Rightarrow> (case aes_new key of
         Inl e \<Rightarrow> Inl e
       | Inr k \<Rightarrow> Inr (behind (clampOffset offset (length data)) data
           (\<lambda>d. cbc_encrypt (aesEncrypt a k) iv (pkcs7Pad d 16)))))"

definition cbc_decrypt_step :: "'a aes_scheme \<Rightarrow> bytes \<Rightarrow> bytes \<Rightarrow> int \<Rightarrow> params \<Rightarrow> bytes cres" where
  "cbc_decrypt_step a data key offset ps =
    (case aes_iv ps of
       Inl e \<Rightarrow> Inl e
     | Inr iv \<Rightarrow> (case aes_new key of
         Inl e \<Rightarrow> Inl e
       | Inr k \<Rightarrow> unpad_behind (clampOffset offset (length data)) data (cbc_decrypt (aesDecrypt a k) iv)))"

definition ctr_step :: "'a aes_scheme \<Rightarrow> bytes \<Rightarrow> bytes \<Rightarrow> int \<Rightarrow> params \<Rightarrow> bytes cres" where
  "ctr_step a data key offset ps =
    (case aes_iv ps of
       Inl e \<Rightarrow> Inl e
     | Inr iv \<Rightarrow> (case aes_new key of
         Inl e \<Rightarrow> Inl e
       | Inr k \<Rightarrow> Inr (behind (clampOffset offset (length data)) data (ctr_xor (aesEncrypt a k) iv))))"

definition keyWords :: "bytes \<Rightarrow> u32 list" where
  "keyWords key =
    map (\<lambda>i. if i * 4 < length key then ucast (le_value (take 4 (drop (i * 4) key))) else 0) [0..<4]"

definition xxtea_encrypt_step :: "bytes \<Rightarrow> bytes \<Rightarrow> int \<Rightarrow> bytes cres" where
  "xxtea_encrypt_step data key offset =
    (if length key < xxteaKeyLen then Inl (XXTEAKeyLength (length key))
     else Inr (behind (clampOffset offset (length data)) data
       (\<lambda>body. let rem = length body mod 4;
                   padded = (if rem \<noteq> 0 then body @ replicate (4 - rem) 0 else body)
               in encryptXXTEA padded (keyWords key))))"

definition xxtea_decrypt_step :: "bytes \<Rightarrow> bytes \<Rightarrow> int \<Rightarrow> bytes cres" where
  "xxtea_decrypt_step data key offset =
    (if length key < xxteaKeyLen then Inl (XXTEAKeyLength (length key))
     else let off = clampOffset offset (length data); body = drop off data in
       if length body mod 4 \<noteq> 0 \<or> length body < 8 then Inl XXTEADataLength
       else Inr (take off data @ decryptXXTEA body (keyWords key)))"

fun Encrypt :: "'a aes_scheme \<Rightarrow> cipherImpl \<Rightarrow> bytes \<Rightarrow> bytes \<Rightarrow> int \<Rightarrow> params \<Rightarrow> bytes cres" where
  "Encrypt a noneCipher data key off ps = none_apply data"
| "Encrypt a xorCipher data key off ps = xor_apply data key off"
| "Encrypt a xorCarryRolCipher data key off ps = xcr_apply encryptXorCarryRol data key off ps"
| "Encrypt a rc4Cipher data key off ps = rc4_apply data key off"
| "Encrypt a aesEcbCipher data key off ps = ecb_encrypt_step a data key off"
| "Encrypt a aesCbcCipher data key off ps = cbc_encrypt_step a data key off ps"
| "Encrypt a aesCtrCipher data key off ps = ctr_step a data key off ps"
| "Encrypt a xxteaCipher data key off ps = xxtea_encrypt_step data key off"

fun Decrypt :: "'a aes_scheme \<Rightarrow> cipherImpl \<Rightarrow> bytes \<Rightarrow> bytes \<Rightarrow> int \<Rightarrow> params \<Rightarrow> bytes cres" where
  "Decrypt a noneCipher data key off ps = none_apply data"
| "Decrypt a xorCipher data key off ps = xor_apply data key off"
| "Decrypt a xorCarryRolCipher data key off ps = xcr_apply decryptXorCarryRol data key off ps"
| "Decrypt a rc4Cipher data key off ps = rc4_apply data key off"
| "Decrypt a aesEcbCipher data key off ps = ecb_decrypt_step a data key off"
| "Decrypt a aesCbcCipher data key off ps = cbc_decrypt_step a data key off ps"
| "Decrypt a aesCtrCipher data key off ps = ctr_step a data key off ps"
| "Decrypt a xxteaCipher data key off ps = xxtea_decrypt_step data key off"

text \<open>
  The in-place decryption of the stream ciphers: the new contents of the buffer, or the error
  with the buffer left alone.  \<open>None\<close>: the cipher does not implement the interface.
\<close>

fun DecryptInPlace :: "cipherImpl \<Rightarrow> bytes \<Rightarrow> bytes \<Rightarrow> int \<Rightarrow> params \<Rightarrow> bytes cres option" where
  "DecryptInPlace noneCipher data key off ps = Some (Inr data)"
| "DecryptInPlace xorCipher data key off ps =
     Some (if key = [] \<or> data = [] then Inr data
           else Inr (behind (clampOffset off (length data)) data (\<lambda>d. encryptXor d key)))"
| "DecryptInPlace xorCarryRolCipher data key off ps =
     Some (if length key \<noteq> 32 \<or> data = [] then Inr data
           else Inr (behind (clampOffset off (length data)) data
             (\<lambda>d. decryptXorCarryRol d key (rolFromParams ps))))"
| "DecryptInPlace rc4Cipher data key off ps =
     Some (if key = [] \<or> data = [] then Inr data
           else case rc4_new key of
             Inl e \<Rightarrow> Inl e
           | Inr st \<Rightarrow> Inr (behind (clampOffset off (length data)) data (xorKeyStream st)))"
| "DecryptInPlace _ data key off ps = None"

subsection \<open>Decryption inverts encryption\<close>

lemma in_place_agrees: "DecryptInPlace c data key off ps = Some r \<Longrightarrow> Decrypt a c data key off ps = r"
  by (cases c) (auto simp: none_apply_def xor_apply_def xcr_apply_def rc4_apply_def)

text \<open>A transformation that keeps the length of the tail is undone behind the same offset.\<close>

definition length_keeping :: "(bytes \<Rightarrow> bytes) \<Rightarrow> bool" where
  "length_keeping f \<longleftrightarrow> (\<forall>d. length (f d) = length d)"

lemma length_behind: "length_keeping f \<Longrightarrow> length (behind off data f) = length data"
  by (simp add: behind_def length_keeping_def)

lemma behind_Nil: "length_keeping f \<Longrightarrow> behind off data f = [] \<longleftrightarrow> data = []"
  using length_behind [of f off data] by auto

lemma behind_twice:
  "(\<And>d. g (f d) = d) \<Longrightarrow> off \<le> length data \<Longrightarrow> behind off (behind off data f) g = data"
  by (simp add: behind_def)

lemma length_keeping_cores [simp]:
  "length_keeping (\<lambda>d. encryptXor d key)" "length_keeping (\<lambda>d. encryptXorCarryRol d key n)"
  "length_keeping (xorKeyStream st)"
  by (simp_all add: length_keeping_def encryptXor_def encryptXorCarryRol_def)

text \<open>
  A block cipher lengthens the tail, so the offset must lie inside the data; XXTEA also needs a
  tail of at least eight bytes whose length is a multiple of four, since the zero bytes it adds
  are not taken off.
\<close>

definition cipher_fits :: "cipherImpl \<Rightarrow> bytes \<Rightarrow> int \<Rightarrow> bool" where
  "cipher_fits c data off \<longleftrightarrow>
    (c \<in> {aesEcbCipher, aesCbcCipher} \<longrightarrow> off \<le> int (length data)) \<and>
    (c = xxteaCipher \<longrightarrow>
       (let n = length data - clampOffset off (length data) in 8 \<le> n \<and> 4 dvd n))"

lemma rol_le: "rolFromParams ps \<le> 8"
  by (auto simp: rolFromParams_def Let_def)

lemmas behind_simps = length_behind behind_Nil behind_twice decrypt_encrypt_xcr rol_le

lemma xor_round: "xor_apply data key off = Inr ct \<Longrightarrow> xor_apply ct key off = Inr data"
  by (auto simp: xor_apply_def behind_simps split: if_splits)

lemma xcr_round:
  "xcr_apply encryptXorCarryRol data key off ps = Inr ct
   \<Longrightarrow> xcr_apply decryptXorCarryRol ct key off ps = Inr data"
  by (auto simp: xcr_apply_def behind_simps split: if_splits)

lemma rc4_round: "rc4_apply data key off = Inr ct \<Longrightarrow> rc4_apply ct key off = Inr data"
  by (auto simp: rc4_apply_def behind_simps split: if_splits sum.splits)

lemma aes_blocks:
  assumes "aes_laws a" "aes_new key = Inr k"
  shows "k = key" "length b = 16 \<Longrightarrow> length (aesEncrypt a k b) = 16 \<and> aesDecrypt a k (aesEncrypt a k b) = b"
  using assms by (auto simp: aes_new_def aes_laws_def split: if_splits)

lemma aes_iv_length: "aes_iv ps = Inr iv \<Longrightarrow> length iv = 16"
  by (auto simp: aes_iv_def bytes_of_string_def split: option.splits gval.splits if_splits)

lemma ctr_round:
  assumes "aes_laws a" "ctr_step a data key off ps = Inr ct"
  shows "ctr_step a ct key off ps = Inr data"
proof -
  obtain iv k where iv: "aes_iv ps = Inr iv" and k: "aes_new key = Inr k"
    and ct: "ct = behind (clampOffset off (length data)) data (ctr_xor (aesEncrypt a k) iv)"
    using assms(2) by (auto simp: ctr_step_def split: sum.splits)
  have inv: "length (ctr_xor (aesEncrypt a k) iv d) = length d
      \<and> ctr_xor (aesEncrypt a k) iv (ctr_xor (aesEncrypt a k) iv d) = d" for d
    using aes_blocks(2) [OF assms(1) k] aes_iv_length [OF iv] by (intro ctr_inverse) auto
  then have "length_keeping (ctr_xor (aesEncrypt a k) iv)" by (simp add: length_keeping_def)
  then show ?thesis using iv k inv by (simp add: ctr_step_def ct behind_simps)
qed

text \<open>The two padded modes share the argument: the core permutes whole blocks.\<close>

lemma padded_round:
  assumes core: "\<And>d. 16 dvd length d \<Longrightarrow> length (f d) = length d \<and> g (f d) = d"
    and off: "off \<le> int (length data)"
  defines "ct \<equiv> behind (clampOffset off (length data)) data (\<lambda>d. f (pkcs7Pad d 16))"
  shows "unpad_behind (clampOffset off (length ct)) ct g = Inr data"
proof -
  obtain o' where o': "o' = clampOffset off (length data)" and le: "o' \<le> length data" by simp
  obtain p where pdef: "p = pkcs7Pad (drop o' data) 16" by simp
  have p: "16 dvd length p" "pkcs7Unpad p = Inr (drop o' data)" "length data - o' \<le> length p"
    by (simp_all add: pdef pkcs7_length pkcs7Unpad_Pad) (simp add: pkcs7Pad_def Let_def)
  have fp: "length (f p) = length p" "g (f p) = p" using core [OF p(1)] by auto
  have ct: "ct = take o' data @ f p" by (simp add: ct_def behind_def pdef o')
  have "length ct = o' + length p" using le by (simp add: ct fp(1))
  then have "length data \<le> length ct" using p(3) by linarith
  then have o2: "clampOffset off (length ct) = o'" unfolding o' by (rule clampOffset_mono [OF off])
  have cut: "drop o' ct = f p" "take o' ct = take o' data" using le by (simp_all add: ct)
  have "length (f p) mod 16 = 0" using p(1) fp(1) by (simp add: mod_eq_0_iff_dvd)
  then show ?thesis unfolding o2 unpad_behind_def cut fp(2) p(2) by simp
qed

lemma ecb_round:
  assumes "aes_laws a" "ecb_encrypt_step a data key off = Inr ct" "off \<le> int (length data)"
  shows "ecb_decrypt_step a ct key off = Inr data"
proof -
  obtain k where k: "aes_new key = Inr k"
    and ct: "ct = behind (clampOffset off (length data)) data (\<lambda>d. ecb (aesEncrypt a k) (pkcs7Pad d 16))"
    using assms(2) by (auto simp: ecb_encrypt_step_def split: sum.splits)
  show ?thesis
    unfolding ecb_decrypt_step_def k sum.case ct
    using aes_blocks(2) [OF assms(1) k] assms(3) by (intro padded_round ecb_inverse) auto
qed

lemma cbc_round:
  assumes "aes_laws a" "cbc_encrypt_step a data key off ps = Inr ct" "off \<le> int (length data)"
  shows "cbc_decrypt_step a ct key off ps = Inr data"
proof -
  obtain iv k where iv: "aes_iv ps = Inr iv" and k: "aes_new key = Inr k"
    and ct: "ct = behind (clampOffset off (length data)) data
               (\<lambda>d. cbc_encrypt (aesEncrypt a k) iv (pkcs7Pad d 16))"
    using assms(2) by (auto simp: cbc_encrypt_step_def split: sum.splits)
  show ?thesis
    unfolding cbc_decrypt_step_def iv k sum.case ct
    using aes_blocks(2) [OF assms(1) k] aes_iv_length [OF iv] assms(3)
    by (intro padded_round cbc_inverse) auto
qed

lemma xxtea_round:
  assumes "xxtea_encrypt_step data key off = Inr ct" and "cipher_fits xxteaCipher data off"
  shows "xxtea_decrypt_step ct key off = Inr data"
proof -
  define body where "body = drop (clampOffset off (length data)) data"
  have body: "8 \<le> length body" "4 dvd length body"
    using assms(2) by (auto simp: cipher_fits_def body_def Let_def)
  have ct: "ct = take (clampOffset off (length data)) data @ encryptXXTEA body (keyWords key)"
    and k: "\<not> length key < xxteaKeyLen"
    using assms(1) body(2)
    by (auto simp: xxtea_encrypt_step_def behind_def body_def Let_def dvd_eq_mod_eq_0 split: if_splits)
  have len: "length (encryptXXTEA body (keyWords key)) = length body"
    using body by (simp add: length_encryptXXTEA)
  then have "length ct = length data" by (simp add: ct body_def)
  then show ?thesis
    using k len body by (simp add: xxtea_decrypt_step_def Let_def ct dvd_eq_mod_eq_0
        decrypt_encrypt_XXTEA body_def)
qed

lemma decrypt_encrypt:
  assumes "aes_laws a" and "Encrypt a c data key off ps = Inr ct" and "cipher_fits c data off"
  shows "Decrypt a c ct key off ps = Inr data"
  using assms by (cases c) (auto simp: none_apply_def cipher_fits_def [of aesEcbCipher]
      cipher_fits_def [of aesCbcCipher]
      intro: xor_round xcr_round rc4_round ecb_round cbc_round ctr_round xxtea_round)

subsection \<open>Properties\<close>

text \<open>
  C28. Decryption inverts encryption for every registered cipher: when \<open>Encrypt\<close> succeeds on data
  the cipher is made for, \<open>Decrypt\<close> with the same key, offset and parameters returns the data.
  The only thing asked of AES is that its block decryption inverts its block encryption.
\<close>

theorem decrypt_inverts_encrypt:
  assumes "aes_laws a" and "Encrypt a c data key off ps = Inr ct" and "cipher_fits c data off"
  shows "Decrypt a c ct key off ps = Inr data"
  by (rule decrypt_encrypt [OF assms])

text \<open>An instance of the block permutation, and a body behind two plain bytes in CBC mode.\<close>

definition sample_aes :: aes where
  "sample_aes = \<lparr>aesEncrypt = \<lambda>k b. rev b, aesDecrypt = \<lambda>k b. rev b\<rparr>"

definition sample_iv :: params where
  "sample_iv = [''iv'' \<mapsto> VStr ''0123456789abcdef'']"

lemma sample_aes_laws: "aes_laws sample_aes"
  by (simp add: aes_laws_def sample_aes_def)

lemma sample_cbc:
  "Encrypt sample_aes aesCbcCipher [1, 2, 3, 4] (replicate 16 7) 2 sample_iv
   = Inr [1, 2, 104, 107, 106, 109, 108, 111, 55, 54, 57, 56, 59, 58, 61, 60, 53, 51]"
  by code_simp

theorem decrypt_inverts_encrypt_witness:
  "Decrypt sample_aes aesCbcCipher
     [1, 2, 104, 107, 106, 109, 108, 111, 55, 54, 57, 56, 59, 58, 61, 60, 53, 51] (replicate 16 7) 2 sample_iv
   = Inr [1, 2, 3, 4]"
  by (rule decrypt_inverts_encrypt [OF sample_aes_laws sample_cbc]) (simp add: cipher_fits_def)

text \<open>
  The receive path decrypts in place where the cipher offers it; the buffer it leaves, or the
  error it reports, is exactly what the copying decryption returns.
\<close>

theorem DecryptInPlace_is_Decrypt:
  "DecryptInPlace c data key off ps \<in> {None, Some (Decrypt a c data key off ps)}"
  by (cases c) (auto simp: none_apply_def xor_apply_def xcr_apply_def rc4_apply_def)

text \<open>
  The mixing term of the published Corrected Block TEA, from the same two neighbours: the shift
  amounts of its first half belong to the other neighbour than in the code.
\<close>

definition btea_mx :: "u32 list \<Rightarrow> u32 \<Rightarrow> nat \<Rightarrow> u32 \<Rightarrow> u32 \<Rightarrow> u32" where
  "btea_mx key sm p left right =
    (let e = drop_bit 2 sm AND 3 in
     ((drop_bit 5 left XOR push_bit 2 right) + (drop_bit 3 right XOR push_bit 4 left))
       XOR ((sm XOR right) + (key ! unat ((of_nat p AND 3) XOR e) XOR left)))"

lemma xxtea_mx_swapped:
  "xxtea_mx key sm p x x = btea_mx key sm p x x \<and> xxtea_mx [0, 0, 0, 0] 0 0 1 0 \<noteq> btea_mx [0, 0, 0, 0] 0 0 1 0"
  by (simp add: xxtea_mx_def btea_mx_def)

text \<open>
  Three bytes under XXTEA: encryption pads them to one word, which the core leaves alone, and
  decryption refuses what encryption produced.
\<close>

lemma xxtea_short_body:
  "Encrypt a xxteaCipher [1, 2, 3] (replicate 16 k) 0 ps = Inr [1, 2, 3, 0]
   \<and> Decrypt a xxteaCipher [1, 2, 3, 0] (replicate 16 k) 0 ps = Inl XXTEADataLength"
  by (simp add: xxtea_encrypt_step_def xxtea_decrypt_step_def xxteaKeyLen_def behind_def
      clampOffset_def encryptXXTEA_def Let_def)

end
