(* ===== verification/CodecDigest.thy ===== *)
theory CodecDigest
  imports CodecCipher
begin

text \<open>
  Checksums, hashes, compressors and the algorithm registry of the codec
  (\<open>src/protocol/codec/checksums.go\<close>, \<open>hashes.go\<close>, \<open>compressors.go\<close>, \<open>registry.go\<close>).  The CRCs are
  the bitwise definitions of the algorithms the standard library tabulates; the hash functions
  and the gzip format are arguments of the model, fields of the record \<open>stdlib\<close>, which extends
  the record of the AES block permutation.
\<close>

subsection \<open>Checksums\<close>

datatype checksumImpl = noneChecksum | xor8Checksum | sum8Checksum | crc16Checksum
  | crc32Checksum | crc32cChecksum

definition crc16_bit :: "16 word \<Rightarrow> 16 word" where
  "crc16_bit crc =
    (if crc AND 0x8000 \<noteq> 0 then push_bit 1 crc XOR 0x1021 else push_bit 1 crc)"

definition crc16_byte :: "byte \<Rightarrow> 16 word \<Rightarrow> 16 word" where
  "crc16_byte b crc = (crc16_bit ^^ 8) (crc XOR push_bit 8 (ucast b))"

text \<open>\<open>hash/crc32\<close>: reflected, initial value and final exclusive-or all ones.\<close>

definition crc32_bit :: "u32 \<Rightarrow> u32 \<Rightarrow> u32" where
  "crc32_bit poly crc = (if crc AND 1 \<noteq> 0 then drop_bit 1 crc XOR poly else drop_bit 1 crc)"

definition crc32_sum :: "u32 \<Rightarrow> bytes \<Rightarrow> u32" where
  "crc32_sum poly data =
    NOT (fold (\<lambda>b crc. (crc32_bit poly ^^ 8) (crc XOR ucast b)) data (NOT 0))"

fun Sum :: "checksumImpl \<Rightarrow> bytes \<Rightarrow> u64" where
  "Sum noneChecksum data = 0"
| "Sum xor8Checksum data = ucast (fold (\<lambda>b bcc. bcc XOR b) data 0)"
| "Sum sum8Checksum data = ucast (fold (\<lambda>b sm. sm + b) data 0)"
| "Sum crc16Checksum data = ucast (fold crc16_byte data 0xFFFF)"
| "Sum crc32Checksum data = ucast (crc32_sum 0xEDB88320 data)"
| "Sum crc32cChecksum data = ucast (crc32_sum 0x82F63B78 data)"

text \<open>The published check values of the CRCs for the one-byte message \<open>a\<close>.\<close>

lemma crc16_check: "Sum crc16Checksum [0x61] = 0x9D77" by code_simp

lemma crc32_check: "Sum crc32Checksum [0x61] = 0xE8B7BE43" by code_simp

lemma crc32c_check: "Sum crc32cChecksum [0x61] = 0xC1D04330" by code_simp

subsection \<open>Hashes\<close>

text \<open>
  What the codec takes from the standard library: the digests, the gzip writer (all bytes it
  produces for a body) and the gzip reader.  The reader is \<open>None\<close> when the header is refused.
  Otherwise it delivers some bytes, ends in \<open>io.EOF\<close>, \<open>io.ErrUnexpectedEOF\<close> (the input was too
  short) or another error, and its \<open>Close\<close> fails or not.
\<close>

datatype readEnd = EndEOF | EndUnexpectedEOF | EndError

record reader =
  delivered :: bytes
  ending :: readEnd
  closeFails :: bool

record stdlib = aes +
  md5 :: "bytes \<Rightarrow> bytes"
  sha1 :: "bytes \<Rightarrow> bytes"
  sha256 :: "bytes \<Rightarrow> bytes"
  gzipWrite :: "bytes \<Rightarrow> bytes"
  gzipRead :: "bytes \<Rightarrow> reader option"

definition gzip_laws :: "stdlib \<Rightarrow> bool" where
  "gzip_laws lib \<longleftrightarrow> (\<forall>d. gzipRead lib (gzipWrite lib d) =
       Some \<lparr>delivered = d, ending = EndEOF, closeFails = False\<rparr>)"

datatype hasherImpl = md5Hasher | sha1Hasher | sha256Hasher

text \<open>\<open>crypto/hmac\<close> over a digest with blocks of 64 bytes.\<close>

definition hmac :: "(bytes \<Rightarrow> bytes) \<Rightarrow> bytes \<Rightarrow> bytes \<Rightarrow> bytes" where
  "hmac h key data =
    (let k = (if length key > 64 then h key else key);
         kp = k @ replicate (64 - length k) 0
     in h (map (\<lambda>b. b XOR 0x5C) kp @ h (map (\<lambda>b. b XOR 0x36) kp @ data)))"

definition newHash :: "(bytes \<Rightarrow> bytes) \<Rightarrow> bytes \<Rightarrow> bytes \<Rightarrow> bytes" where
  "newHash h key data = (if length key > 0 then hmac h key data else h data)"

fun Hash :: "stdlib \<Rightarrow> hasherImpl \<Rightarrow> bytes \<Rightarrow> bytes \<Rightarrow> bytes" where
  "Hash lib md5Hasher data key = newHash (md5 lib) key data"
| "Hash lib sha1Hasher data key = newHash (sha1 lib) key data"
| "Hash lib sha256Hasher data key = newHash (sha256 lib) key data"

subsection \<open>Compressors\<close>

datatype compressorImpl = noneCompressor | gzipCompressor

datatype compressError = GzipHeader | GzipData

definition gzipSizeHintMax :: nat where "gzipSizeHintMax = 16 * 2 ^ 20"

definition gzipSizeHint :: "bytes \<Rightarrow> nat" where
  "gzipSizeHint data =
    (let n = unat (le_value (drop (length data - 4) data)) in
     if 4 \<le> length data \<and> 0 < n then (if n > gzipSizeHintMax then gzipSizeHintMax else n)
     else length data * 3)"

text \<open>
  \<open>io.ReadFull\<close> into a buffer of the hinted length, a probe of one more byte, \<open>io.ReadAll\<close> for
  the rest.  \<open>io.ReadFull\<close> reports \<open>io.ErrUnexpectedEOF\<close> when the buffer is longer than the
  data, and hands on the same error when the reader itself ends in it: the code takes both for
  a short but complete read.
\<close>

definition readAllSized :: "reader \<Rightarrow> nat \<Rightarrow> compressError + bytes" where
  "readAllSized r hint =
    (let h = (if hint < 64 then 64 else hint); stream = delivered r in
     if length stream < h then (if ending r = EndError then Inl GzipData else Inr stream)
     else let out = take h stream; rest = drop h stream in
       if rest \<noteq> [] then
         (let out1 = out @ take 1 rest; rest1 = drop 1 rest
          in if ending r = EndEOF then Inr (out1 @ rest1) else Inl GzipData)
       else if ending r = EndEOF then Inr out else Inl GzipData)"

fun Compress :: "stdlib \<Rightarrow> compressorImpl \<Rightarrow> bytes \<Rightarrow> compressError + bytes" where
  "Compress lib noneCompressor data = Inr data"
| "Compress lib gzipCompressor data = Inr (gzipWrite lib data)"

fun Decompress :: "stdlib \<Rightarrow> compressorImpl \<Rightarrow> bytes \<Rightarrow> compressError + bytes" where
  "Decompress lib noneCompressor data = Inr data"
| "Decompress lib gzipCompressor data =
     (case gzipRead lib data of
        None \<Rightarrow> Inl GzipHeader
      | Some r \<Rightarrow>
         (case readAllSized r (gzipSizeHint data) of
            Inl e \<Rightarrow> Inl e
          | Inr out \<Rightarrow> if closeFails r then Inl GzipData else Inr out))"

text \<open>For a stream that ends properly the size hint has no effect on the result.\<close>

lemma readAllSized_eq: "ending r = EndEOF \<Longrightarrow> readAllSized r hint = Inr (delivered r)"
proof -
  assume r: "ending r = EndEOF"
  define h where "h = (if hint < 64 then 64 else hint)"
  have glue: "take h (delivered r) @ take 1 (drop h (delivered r)) @ drop 1 (drop h (delivered r)) = delivered r"
    by (simp only: append_take_drop_id)
  show ?thesis
  proof (cases "drop h (delivered r) = []")
    case True
    then show ?thesis using r by (simp add: readAllSized_def Let_def flip: h_def)
  next
    case False
    then show ?thesis using glue r
      by (simp only: readAllSized_def Let_def append_assoc flip: h_def) simp
  qed
qed

text \<open>
  A stream cut short decides by the hint: below it the bytes delivered so far pass for the whole
  body, from it on the error is reported.  The gzip reader ends in \<open>io.ErrUnexpectedEOF\<close> with a
  \<open>Close\<close> that succeeds when the trailer with checksum and length is cut off, so such a body
  is accepted without its checksum having been compared.
\<close>

lemma truncated_gzip_decided_by_hint:
  assumes "gzipRead lib data = Some r" "ending r = EndUnexpectedEOF" "\<not> closeFails r"
  shows "Decompress lib gzipCompressor data =
    (if length (delivered r) < max 64 (gzipSizeHint data) then Inr (delivered r) else Inl GzipData)"
  using assms by (auto simp: readAllSized_def Let_def max_def)

lemma decompress_compress:
  assumes "gzip_laws lib" and "Compress lib c data = Inr packed"
  shows "Decompress lib c packed = Inr data"
  using assms by (cases c) (auto simp: gzip_laws_def readAllSized_eq)

text \<open>
  Compression is lossless: what \<open>Compress\<close> returns decompresses to the body, whatever size
  hint the compressed bytes end in, given that the gzip reader delivers what the writer was given.
\<close>

theorem decompress_inverts_compress:
  assumes "gzip_laws lib" and "Compress lib c data = Inr packed"
  shows "Decompress lib c packed = Inr data"
  by (rule decompress_compress [OF assms])

text \<open>
  An instance of the library functions: a one-byte header for gzip, sums for the digests.
\<close>

definition sample_lib :: stdlib where
  "sample_lib = \<lparr>aesEncrypt = \<lambda>k b. rev b, aesDecrypt = \<lambda>k b. rev b,
     md5 = \<lambda>d. [sum_list d], sha1 = \<lambda>d. [sum_list d], sha256 = \<lambda>d. [sum_list d],
     gzipWrite = \<lambda>d. 31 # d,
     gzipRead = \<lambda>d. case d of [] \<Rightarrow> None | b # bs \<Rightarrow> if b = 31 then 
       Some \<lparr>delivered = bs, ending = EndEOF, closeFails = False\<rparr> else None\<rparr>"

lemma sample_gzip_laws: "gzip_laws sample_lib"
  by (simp add: gzip_laws_def sample_lib_def)

theorem decompress_inverts_compress_witness:
  "Decompress sample_lib gzipCompressor [31, 5, 6] = Inr [5, 6]"
  by (rule decompress_inverts_compress [OF sample_gzip_laws]) (simp add: sample_lib_def)

subsection \<open>The registry\<close>

text \<open>
  The tables the \<open>init\<close> functions fill; a name registered twice would keep the later entry.
\<close>

definition ciphers :: "string \<rightharpoonup> cipherImpl" where
  "ciphers = [''none'' \<mapsto> noneCipher, ''xor'' \<mapsto> xorCipher, ''xor_carry_rol'' \<mapsto> xorCarryRolCipher,
     ''rc4'' \<mapsto> rc4Cipher, ''aes_ecb'' \<mapsto> aesEcbCipher, ''aes_cbc'' \<mapsto> aesCbcCipher,
     ''aes_ctr'' \<mapsto> aesCtrCipher, ''xxtea'' \<mapsto> xxteaCipher]"

definition compressors :: "string \<rightharpoonup> compressorImpl" where
  "compressors = [''none'' \<mapsto> noneCompressor, ''gzip'' \<mapsto> gzipCompressor]"

definition checksums :: "string \<rightharpoonup> checksumImpl" where
  "checksums = [''none'' \<mapsto> noneChecksum, ''xor8'' \<mapsto> xor8Checksum, ''sum8'' \<mapsto> sum8Checksum,
     ''crc16'' \<mapsto> crc16Checksum, ''crc32'' \<mapsto> crc32Checksum, ''crc32c'' \<mapsto> crc32cChecksum]"

definition hashers :: "string \<rightharpoonup> hasherImpl" where
  "hashers = [''md5'' \<mapsto> md5Hasher, ''sha1'' \<mapsto> sha1Hasher, ''sha256'' \<mapsto> sha256Hasher]"

definition LookupCipher :: "string \<Rightarrow> cipherImpl option" where "LookupCipher n = ciphers n"
definition LookupCompressor :: "string \<Rightarrow> compressorImpl option" where "LookupCompressor n = compressors n"
definition LookupChecksum :: "string \<Rightarrow> checksumImpl option" where "LookupChecksum n = checksums n"
definition LookupHasher :: "string \<Rightarrow> hasherImpl option" where "LookupHasher n = hashers n"

end
