(* ===== verification/CodecSchema.thy ===== *)
theory CodecSchema
  imports CodecDigest "HOL-Library.AList"
begin

text \<open>
  The declarative codec's schema and its validation (\<open>src/protocol/codec/schema.go\<close>).  The records
  are the JSON objects after decoding; integers are Go's \<open>int\<close> as \<open>int\<close>, and the one sum the
  validation computes wraps.  \<open>Validate\<close> collects every violation in the order the code finds
  them, as values of \<open>violation\<close> (one constructor per message); an accepted schema has none.
  The heartbeat's bindings and fields are only counted by the validation: their names stand for
  them.
\<close>

subsection \<open>Schema records\<close>

record FlagBit =
  fbName :: string
  fbBit :: int

record ValueSource =
  vsKind :: string
  vsValue :: int
  vsKey :: string

record Field =
  Name :: string
  Type :: string
  Endian :: string
  Offset :: int
  Size :: int
  Role :: string
  Bits :: "FlagBit list"
  From :: string
  Source :: "ValueSource option"

record FrameSpec =
  HeaderSize :: int
  TrailerSize :: int
  LengthIncludesHeader :: bool
  LengthIncludesTrailer :: bool

record StepOffset =
  soEncode :: int
  soDecode :: int

record StepProduce =
  spName :: string
  spAlgo :: string
  spRegion :: string

record OverSpec =
  ovKind :: string
  ovRangeStart :: int
  ovRangeEnd :: int

record Guard =
  gField :: string
  gOp :: string
  gValue :: int

record StepCond =
  MinBodyLen :: int
  OnlySmaller :: bool
  RequireKey :: bool
  AppliesWith :: string
  Guards :: "Guard list"

record PipelineStep =
  stOp :: string
  stName :: string
  stAlgo :: string
  stFlag :: string
  stParams :: params
  stKeyLen :: int
  stOffset :: "StepOffset option"
  stProduces :: "StepProduce list"
  stOver :: "OverSpec option"
  stOnError :: string
  stWhen :: "StepCond option"

record HeartbeatConfigDef =
  IntervalMs :: int
  C2SProto :: string
  hbBindings :: "string list"
  HeartbeatFields :: "string list"

record Schema =
  Version :: int
  EndianDefault :: string
  Frame :: FrameSpec
  Header :: "Field list"
  RouteKeyTmpl :: string
  Pipeline :: "PipelineStep list"
  Heartbeat :: "HeartbeatConfigDef option"

subsection \<open>Violations\<close>

datatype violation =
    VersionNot1 int | EndianDefaultBad string | HeaderSizeBad int | TrailerSizeNeg int | RouteKeyEmpty
  | FieldNameEmpty nat | FieldNameDup string nat
  | OffsetNeg nat int | SizeNotPos nat int | OutOfHeader nat int int int
  | TypeUnknown nat string | WidthBad nat string int int | BytesSize nat
  | EndianBad nat string | RoleUnknown nat string
  | Overlap string int int string int int
  | BitRange string int int | BitDup string int string | BitNameEmpty string int
  | BitNameDup string string int
  | ChecksumNoFrom string | ChecksumFromBad string string
  | SourceUnknown string string | SourceUnsupported string string
  | NoLength | ManyLength nat | NoRoute
  | FlagUndeclared string string | FlagRebound string string string | WhenWithoutFlag string
  | FromStepMissing string string string | FromProduceMissing string string string string
  | PlaceholderUnknown string
  | HeartbeatInterval int | HeartbeatTwoBodies | HeartbeatBindingsOnly
  | StepNameEmpty nat | StepNameDup string nat
  | OpUnknown string string | AlgoEmpty string | OnErrorBad string string
  | ProduceDup string string | RegionBad string string string
  | EncodeOffsetNeg string int | DecodeOffsetNeg string int
  | OverKindBad string string | OverRangeBad string int int
  | AppliesWithMissing string string | GuardOpBad string string string

subsection \<open>Value sets and patterns\<close>

definition validFieldTypes :: "string \<rightharpoonup> int" where
  "validFieldTypes = [''u8'' \<mapsto> 1, ''u16'' \<mapsto> 2, ''u24'' \<mapsto> 3, ''u32'' \<mapsto> 4, ''u64'' \<mapsto> 8,
     ''i8'' \<mapsto> 1, ''i16'' \<mapsto> 2, ''i24'' \<mapsto> 3, ''i32'' \<mapsto> 4, ''i64'' \<mapsto> 8,
     ''f32'' \<mapsto> 4, ''f64'' \<mapsto> 8, ''bytes'' \<mapsto> -1]"

definition validRoles :: "string list" where
  "validRoles = [''length'', ''route'', ''errorCode'', ''flags'', ''checksumOut'', ''value'', ''reserved'']"

definition validOps :: "string list" where
  "validOps = [''compress'', ''encrypt'', ''checksum'', ''hash'']"

definition validProduceRegions :: "string list" where
  "validProduceRegions = [''ciphered'', ''bodyPlain'', ''bodyFinal'', ''header'', ''frame'']"

definition validOverKinds :: "string list" where
  "validOverKinds = [''bodyPlain'', ''bodyFinal'', ''header'', ''frame'', ''range'']"

definition validGuardOps :: "string list" where
  "validGuardOps = [''eq'', ''neq'', ''gt'', ''gte'', ''lt'', ''lte'']"

definition validOnError :: "string list" where
  "validOnError = [''fail'', ''keep'']"

definition validValueSourceKinds :: "string \<rightharpoonup> bool" where
  "validValueSourceKinds = [''const'' \<mapsto> True, ''route'' \<mapsto> True,
     ''state'' \<mapsto> False, ''counter'' \<mapsto> False, ''timestamp'' \<mapsto> False]"

text \<open>The identifiers of the two regular expressions.\<close>

definition id_start :: "char \<Rightarrow> bool" where
  "id_start c \<longleftrightarrow> (CHR ''A'' \<le> c \<and> c \<le> CHR ''Z'') \<or> (CHR ''a'' \<le> c \<and> c \<le> CHR ''z'') \<or> c = CHR ''_''"

definition id_cont :: "char \<Rightarrow> bool" where
  "id_cont c \<longleftrightarrow> id_start c \<or> (CHR ''0'' \<le> c \<and> c \<le> CHR ''9'')"

definition is_ident :: "string \<Rightarrow> bool" where
  "is_ident s \<longleftrightarrow> s \<noteq> [] \<and> id_start (hd s) \<and> list_all id_cont s"

definition checksumFromRe :: "string \<Rightarrow> (string \<times> string) option" where
  "checksumFromRe s =
    (let a = takeWhile (\<lambda>c. c \<noteq> CHR ''.'') s; r = drop (length a) s in
     if r \<noteq> [] \<and> is_ident a \<and> is_ident (tl r) then Some (a, tl r) else None)"

text \<open>All leftmost matches of a braced identifier.\<close>

function placeholders :: "string \<Rightarrow> string list" where
  "placeholders [] = []"
| "placeholders (c # cs) =
    (let name = takeWhile id_cont cs; r = drop (length name) cs in
     if c = CHR ''{'' \<and> is_ident name \<and> r \<noteq> [] \<and> hd r = CHR ''}''
     then name # placeholders (tl r) else placeholders cs)"
  by pat_completeness auto
termination by (relation "measure length") (auto simp: Let_def)

subsection \<open>The header\<close>

definition validateBase :: "Schema \<Rightarrow> violation list" where
  "validateBase s =
    (if Version s \<noteq> 1 then [VersionNot1 (Version s)] else []) @
    (if EndianDefault s \<noteq> ''le'' \<and> EndianDefault s \<noteq> ''be''
     then [EndianDefaultBad (EndianDefault s)] else []) @
    (if HeaderSize (Frame s) \<le> 0 then [HeaderSizeBad (HeaderSize (Frame s))] else []) @
    (if TrailerSize (Frame s) < 0 then [TrailerSizeNeg (TrailerSize (Frame s))] else []) @
    (if trim_space (RouteKeyTmpl s) = [] then [RouteKeyEmpty] else [])"

text \<open>The loop over the fields carries the names seen with their first index.\<close>

definition field_name_check :: "(string \<rightharpoonup> nat) \<Rightarrow> nat \<Rightarrow> Field \<Rightarrow> violation list \<times> (string \<rightharpoonup> nat)" where
  "field_name_check names i f =
    (if trim_space (Name f) = [] then ([FieldNameEmpty i], names)
     else case names (Name f) of
       Some prev \<Rightarrow> ([FieldNameDup (Name f) prev], names)
     | None \<Rightarrow> ([], names(Name f \<mapsto> i)))"

definition field_check :: "int \<Rightarrow> nat \<Rightarrow> Field \<Rightarrow> violation list" where
  "field_check headerSize i f =
    (if Offset f < 0 then [OffsetNeg i (Offset f)] else []) @
    (if Size f \<le> 0 then [SizeNotPos i (Size f)] else []) @
    (if Offset f < 0 \<or> wrap64 (Offset f + Size f) > headerSize
     then [OutOfHeader i (Offset f) (wrap64 (Offset f + Size f)) headerSize] else []) @
    (case validFieldTypes (Type f) of
       None \<Rightarrow> [TypeUnknown i (Type f)]
     | Some w \<Rightarrow>
        if w > 0 then (if Size f \<noteq> w then [WidthBad i (Type f) w (Size f)] else [])
        else (if Size f \<le> 0 then [BytesSize i] else [])) @
    (if Endian f \<noteq> '''' \<and> Endian f \<noteq> ''le'' \<and> Endian f \<noteq> ''be'' then [EndianBad i (Endian f)] else []) @
    (if Role f \<notin> set validRoles then [RoleUnknown i (Role f)] else [])"

fun fields_check :: "int \<Rightarrow> (string \<rightharpoonup> nat) \<Rightarrow> nat \<Rightarrow> Field list \<Rightarrow> violation list" where
  "fields_check hs names i [] = []"
| "fields_check hs names i (f # fs) =
     (let (v, names') = field_name_check names i f
      in v @ field_check hs i f @ fields_check hs names' (Suc i) fs)"

type_synonym span = "string \<times> int \<times> int"

definition header_spans :: "Field list \<Rightarrow> span list" where
  "header_spans fs = map (\<lambda>f. (Name f, Offset f, wrap64 (Offset f + Size f)))
     (filter (\<lambda>f. \<not> (Offset f < 0 \<or> Size f \<le> 0)) fs)"

fun overlap_check :: "span list \<Rightarrow> violation list" where
  "overlap_check ((n1, s1, e1) # (n2, s2, e2) # rest) =
     (if s2 < e1 then [Overlap n1 s1 (wrap64 (e1 - s1)) n2 s2 (wrap64 (e2 - s2))] else [])
       @ overlap_check ((n2, s2, e2) # rest)"
| "overlap_check _ = []"

fun flag_bits_check :: "string \<Rightarrow> int \<Rightarrow> (int \<rightharpoonup> string) \<Rightarrow> (string \<rightharpoonup> int) \<Rightarrow> FlagBit list \<Rightarrow> violation list" where
  "flag_bits_check fname w seenBit seenName [] = []"
| "flag_bits_check fname w seenBit seenName (b # bs) =
    (let v1 = (if fbBit b < 0 \<or> fbBit b \<ge> w then [BitRange fname (fbBit b) w] else []);
         (v2, seenBit') = (case seenBit (fbBit b) of
            Some prev \<Rightarrow> ([BitDup fname (fbBit b) prev], seenBit)
          | None \<Rightarrow> ([], seenBit(fbBit b \<mapsto> fbName b)));
         (v3, seenName') = (if trim_space (fbName b) = [] then ([BitNameEmpty fname (fbBit b)], seenName)
            else case seenName (fbName b) of
              Some prev \<Rightarrow> ([BitNameDup fname (fbName b) prev], seenName)
            | None \<Rightarrow> ([], seenName(fbName b \<mapsto> fbBit b)))
     in v1 @ v2 @ v3 @ flag_bits_check fname w seenBit' seenName' bs)"

definition validateFlagBits :: "Field \<Rightarrow> violation list" where
  "validateFlagBits f = flag_bits_check (Name f) (wrap64 (Size f * 8)) Map.empty Map.empty (Bits f)"

definition validateChecksumOut :: "Field \<Rightarrow> violation list" where
  "validateChecksumOut f =
    (if From f = '''' then [ChecksumNoFrom (Name f)]
     else if checksumFromRe (From f) = None then [ChecksumFromBad (Name f) (From f)] else [])"

definition validateValueSource :: "Field \<Rightarrow> violation list" where
  "validateValueSource f =
    (case Source f of
       None \<Rightarrow> []
     | Some src \<Rightarrow>
        (case validValueSourceKinds (vsKind src) of
           None \<Rightarrow> [SourceUnknown (Name f) (vsKind src)]
         | Some supported \<Rightarrow> if supported then [] else [SourceUnsupported (Name f) (vsKind src)]))"

definition role_check :: "Field \<Rightarrow> violation list" where
  "role_check f =
    (if Role f = ''flags'' then validateFlagBits f
     else if Role f = ''checksumOut'' then validateChecksumOut f
     else if Role f = ''value'' then validateValueSource f
     else [])"

definition role_count :: "string \<Rightarrow> Field list \<Rightarrow> nat" where
  "role_count r fs = length (filter (\<lambda>f. Role f = r) fs)"

subsection \<open>References between header and pipeline\<close>

text \<open>The named bits of every flags field; a field name used twice keeps the later bits.\<close>

definition flagsBits :: "Field list \<Rightarrow> (string \<times> FlagBit list) list" where
  "flagsBits fs = fold (\<lambda>f m. if Role f = ''flags'' then AList.update (Name f) (Bits f) m else m) fs []"

definition flagNames :: "(string \<times> FlagBit list) list \<Rightarrow> string list" where
  "flagNames m = concat (map (\<lambda>(n, bits). map fbName bits) m)"

fun flag_refs :: "string list \<Rightarrow> (string \<rightharpoonup> string) \<Rightarrow> PipelineStep list \<Rightarrow> violation list" where
  "flag_refs names bound [] = []"
| "flag_refs names bound (st # sts) =
    (if stFlag st = '''' then flag_refs names bound sts
     else if stFlag st \<notin> set names then FlagUndeclared (stName st) (stFlag st) # flag_refs names bound sts
     else case bound (stFlag st) of
       Some prev \<Rightarrow> FlagRebound (stName st) (stFlag st) prev # flag_refs names bound sts
     | None \<Rightarrow> flag_refs names (bound(stFlag st \<mapsto> stName st)) sts)"

definition when_flags :: "PipelineStep list \<Rightarrow> violation list" where
  "when_flags sts =
    map (\<lambda>st. WhenWithoutFlag (stName st)) (filter (\<lambda>st. stWhen st \<noteq> None \<and> stFlag st = '''') sts)"

definition stepProduces :: "PipelineStep list \<Rightarrow> (string \<rightharpoonup> string list)" where
  "stepProduces sts = fold (\<lambda>st m. m(stName st \<mapsto> map spName (stProduces st))) sts Map.empty"

definition from_ref :: "PipelineStep list \<Rightarrow> Field \<Rightarrow> violation list" where
  "from_ref sts f =
    (if Role f \<noteq> ''checksumOut'' \<or> From f = '''' then []
     else case checksumFromRe (From f) of
       None \<Rightarrow> []
     | Some (stepName, produceName) \<Rightarrow>
        (case stepProduces sts stepName of
           None \<Rightarrow> [FromStepMissing (Name f) (From f) stepName]
         | Some ps \<Rightarrow>
            if produceName \<in> set ps then [] else [FromProduceMissing (Name f) (From f) stepName produceName]))"

definition validatePipelineRefs :: "Schema \<Rightarrow> (string \<times> FlagBit list) list \<Rightarrow> violation list" where
  "validatePipelineRefs s fb =
    flag_refs (flagNames fb) Map.empty (Pipeline s) @ when_flags (Pipeline s) @
    concat (map (from_ref (Pipeline s)) (Header s))"

definition validateHeader :: "Schema \<Rightarrow> violation list" where
  "validateHeader s =
    fields_check (HeaderSize (Frame s)) Map.empty 0 (Header s) @
    overlap_check (sort_key (\<lambda>(n, a, b). a) (header_spans (Header s))) @
    concat (map role_check (Header s)) @
    (let n = role_count ''length'' (Header s) in
     if n = 0 then [NoLength] else if n > 1 then [ManyLength n] else []) @
    (if role_count ''route'' (Header s) = 0 then [NoRoute] else []) @
    validatePipelineRefs s (flagsBits (Header s))"

definition isRouteField :: "Schema \<Rightarrow> string \<Rightarrow> bool" where
  "isRouteField s n \<longleftrightarrow> list_ex (\<lambda>f. Role f = ''route'' \<and> Name f = n) (Header s)"

definition validateRouteKeyTemplate :: "Schema \<Rightarrow> violation list" where
  "validateRouteKeyTemplate s =
    (if RouteKeyTmpl s = '''' then []
     else map PlaceholderUnknown (filter (\<lambda>n. \<not> isRouteField s n) (placeholders (RouteKeyTmpl s))))"

subsection \<open>Pipeline and heartbeat\<close>

fun step_names :: "(string \<rightharpoonup> nat) \<Rightarrow> nat \<Rightarrow> PipelineStep list \<Rightarrow> violation list \<times> (string \<rightharpoonup> nat)" where
  "step_names names i [] = ([], names)"
| "step_names names i (st # sts) =
    (let (v, names') =
       (if trim_space (stName st) = [] then ([StepNameEmpty i], names)
        else case names (stName st) of
          Some prev \<Rightarrow> ([StepNameDup (stName st) prev], names)
        | None \<Rightarrow> ([], names(stName st \<mapsto> i)));
       (v', names'') = step_names names' (Suc i) sts
     in (v @ v', names''))"

fun produces_check :: "string \<Rightarrow> string set \<Rightarrow> StepProduce list \<Rightarrow> violation list" where
  "produces_check sn seen [] = []"
| "produces_check sn seen (p # ps) =
    (if spName p \<in> seen then [ProduceDup sn (spName p)] else []) @
    (if spRegion p \<notin> set validProduceRegions then [RegionBad sn (spName p) (spRegion p)] else []) @
    produces_check sn (insert (spName p) seen) ps"

definition validateOver :: "string \<Rightarrow> OverSpec \<Rightarrow> violation list" where
  "validateOver sn ov =
    (if ovKind ov \<notin> set validOverKinds then [OverKindBad sn (ovKind ov)]
     else if ovKind ov = ''range'' \<and>
       (ovRangeStart ov < 0 \<or> ovRangeEnd ov < 0 \<or> ovRangeEnd ov < ovRangeStart ov)
     then [OverRangeBad sn (ovRangeStart ov) (ovRangeEnd ov)] else [])"

definition validateWhen :: "string \<Rightarrow> StepCond \<Rightarrow> (string \<rightharpoonup> nat) \<Rightarrow> violation list" where
  "validateWhen sn w names =
    (if AppliesWith w \<noteq> '''' \<and> names (AppliesWith w) = None
     then [AppliesWithMissing sn (AppliesWith w)] else []) @
    map (\<lambda>g. GuardOpBad sn (gField g) (gOp g)) (filter (\<lambda>g. gOp g \<notin> set validGuardOps) (Guards w))"

definition step_check :: "(string \<rightharpoonup> nat) \<Rightarrow> PipelineStep \<Rightarrow> violation list" where
  "step_check names st =
    (if stOp st \<notin> set validOps then [OpUnknown (stName st) (stOp st)] else []) @
    (if trim_space (stAlgo st) = [] then [AlgoEmpty (stName st)] else []) @
    (if stOnError st \<noteq> '''' \<and> stOnError st \<notin> set validOnError
     then [OnErrorBad (stName st) (stOnError st)] else []) @
    produces_check (stName st) {} (stProduces st) @
    (case stOffset st of
       None \<Rightarrow> []
     | Some off \<Rightarrow>
        if stOp st = ''encrypt'' then
          (if soEncode off < 0 then [EncodeOffsetNeg (stName st) (soEncode off)] else []) @
          (if soDecode off < 0 then [DecodeOffsetNeg (stName st) (soDecode off)] else [])
        else []) @
    (case stOver st of None \<Rightarrow> [] | Some ov \<Rightarrow> validateOver (stName st) ov) @
    (case stWhen st of None \<Rightarrow> [] | Some w \<Rightarrow> validateWhen (stName st) w names)"

definition validatePipeline :: "Schema \<Rightarrow> violation list" where
  "validatePipeline s =
    (let (v, names) = step_names Map.empty 0 (Pipeline s)
     in v @ concat (map (step_check names) (Pipeline s)))"

definition validateHeartbeat :: "Schema \<Rightarrow> violation list" where
  "validateHeartbeat s =
    (case Heartbeat s of
       None \<Rightarrow> []
     | Some hb \<Rightarrow>
        (if IntervalMs hb \<le> 0 then [HeartbeatInterval (IntervalMs hb)] else []) @
        (if C2SProto hb \<noteq> '''' \<and> length (HeartbeatFields hb) > 0 then [HeartbeatTwoBodies] else []) @
        (if C2SProto hb = '''' \<and> length (hbBindings hb) > 0 then [HeartbeatBindingsOnly] else []))"

definition Validate :: "Schema \<Rightarrow> violation list" where
  "Validate s = validateBase s @ validateHeader s @ validateRouteKeyTemplate s @
     validatePipeline s @ validateHeartbeat s"

subsection \<open>What an accepted schema guarantees\<close>

text \<open>
  The header check adds offset and size in \<open>int64\<close>; the guarantees need the sum not to wrap.
\<close>

definition small_ints :: "Schema \<Rightarrow> bool" where
  "small_ints s \<longleftrightarrow> list_all (\<lambda>f. Offset f < 2 ^ 62 \<and> Size f < 2 ^ 62) (Header s)"

lemma fields_checked:
  "fields_check hs names i fs = [] \<Longrightarrow> f \<in> set fs \<Longrightarrow> \<exists>j. field_check hs j f = []"
proof (induction fs arbitrary: names i)
  case (Cons g gs)
  obtain v names' where "field_name_check names i g = (v, names')" by fastforce
  then show ?case using Cons by auto
qed simp

lemma names_distinct:
  "fields_check hs names i fs = [] \<Longrightarrow> distinct (map Name fs) \<and> Name ` set fs \<inter> dom names = {}"
proof (induction fs arbitrary: names i)
  case (Cons g gs)
  then have n: "field_name_check names i g = ([], names(Name g \<mapsto> i))" "names (Name g) = None"
    by (auto simp: field_name_check_def split: if_splits option.splits)
  then have "fields_check hs (names(Name g \<mapsto> i)) (Suc i) gs = []" using Cons.prems by simp
  from Cons.IH [OF this] have
    "distinct (map Name gs) \<and> Name ` set gs \<inter> dom (names(Name g \<mapsto> i)) = {}" .
  then show ?case using n(2) by auto
qed simp

lemma field_check_bounds:
  assumes "field_check hs j f = []" and "Offset f < 2 ^ 62" and "Size f < 2 ^ 62"
  shows "0 \<le> Offset f" "0 < Size f" "Offset f + Size f \<le> hs"
    and "\<exists>w. validFieldTypes (Type f) = Some w \<and> (0 < w \<longrightarrow> Size f = w)" and "Role f \<in> set validRoles"
proof -
  show p: "0 \<le> Offset f" "0 < Size f"
    using assms(1) by (auto simp: field_check_def split: if_splits)
  have "wrap64 (Offset f + Size f) = Offset f + Size f"
    using p assms by (intro wrap64_id) (simp add: is_i64_def)
  then show "Offset f + Size f \<le> hs" using assms(1) by (auto simp: field_check_def split: if_splits)
  show "\<exists>w. validFieldTypes (Type f) = Some w \<and> (0 < w \<longrightarrow> Size f = w)" and "Role f \<in> set validRoles"
    using assms(1) by (auto simp: field_check_def split: if_splits option.splits)
qed

lemma overlap_sorted:
  "overlap_check sp = [] \<Longrightarrow> sorted (map (\<lambda>(n, a, b). a) sp) \<Longrightarrow> \<forall>(n, a, b) \<in> set sp. a < b \<Longrightarrow>
   sorted_wrt (\<lambda>(n1, s1, e1) (n2, s2, e2). e1 \<le> s2) sp"
proof (induction sp rule: overlap_check.induct)
  case (1 n1 s1 e1 n2 s2 e2 rest)
  then have w: "sorted_wrt (\<lambda>(n1, s1, e1) (n2, s2, e2). e1 \<le> s2) ((n2, s2, e2) # rest)" and "e1 \<le> s2"
    by (auto split: if_splits)
  moreover have "s2 \<le> a" if "(n, a, b) \<in> set rest" for n a b
    using 1(3) that by (force simp: image_iff)
  ultimately have "\<forall>(n, a, b) \<in> set ((n2, s2, e2) # rest). e1 \<le> a" by fastforce
  then show ?case using w unfolding sorted_wrt.simps(2) [of _ "(n1, s1, e1)"] by (simp add: split_beta)
qed auto

lemma Validate_parts:
  assumes "Validate s = []"
  shows "validateBase s = []" "fields_check (HeaderSize (Frame s)) Map.empty 0 (Header s) = []"
    "overlap_check (sort_key (\<lambda>(n, a, b). a) (header_spans (Header s))) = []"
    "\<And>f. f \<in> set (Header s) \<Longrightarrow> role_check f = []"
    "role_count ''length'' (Header s) = 1"
    "validatePipelineRefs s (flagsBits (Header s)) = []" "validateRouteKeyTemplate s = []"
    "validatePipeline s = []"
  using assms by (auto simp: Validate_def validateHeader_def Let_def split: if_splits)

lemma sorted_wrt_pair:
  "sorted_wrt R xs \<Longrightarrow> x \<in> set xs \<Longrightarrow> y \<in> set xs \<Longrightarrow> x \<noteq> y \<Longrightarrow> R x y \<or> R y x"
  by (induction xs) auto

definition apart :: "Field \<Rightarrow> Field \<Rightarrow> bool" where
  "apart f g \<longleftrightarrow> Offset f + Size f \<le> Offset g \<or> Offset g + Size g \<le> Offset f"

definition well_placed :: "Schema \<Rightarrow> Field \<Rightarrow> bool" where
  "well_placed s f \<longleftrightarrow> 0 \<le> Offset f \<and> 0 < Size f \<and> Offset f + Size f \<le> HeaderSize (Frame s) \<and>
     (\<exists>w. validFieldTypes (Type f) = Some w \<and> (0 < w \<longrightarrow> Size f = w)) \<and> Role f \<in> set validRoles"

lemma accepted_placed:
  assumes "Validate s = []" "small_ints s" "f \<in> set (Header s)"
  shows "well_placed s f"
proof -
  obtain j where "field_check (HeaderSize (Frame s)) j f = []"
    using fields_checked [OF Validate_parts(2) [OF assms(1)] assms(3)] by auto
  moreover have "Offset f < 2 ^ 62" "Size f < 2 ^ 62"
    using assms by (auto simp: small_ints_def list_all_iff)
  ultimately show ?thesis using field_check_bounds unfolding well_placed_def by blast
qed

lemma accepted_apart:
  assumes "Validate s = []" "small_ints s" "f \<in> set (Header s)" "g \<in> set (Header s)" "f \<noteq> g"
  shows "apart f g"
proof -
  let ?sp = "sort_key (\<lambda>(n, a, b). a) (header_spans (Header s))"
  let ?span = "\<lambda>f. (Name f, Offset f, wrap64 (Offset f + Size f))"
  have placed: "well_placed s h" if "h \<in> set (Header s)" for h
    using accepted_placed assms that by blast
  have nowrap: "wrap64 (Offset h + Size h) = Offset h + Size h" if "h \<in> set (Header s)" for h
    using placed [OF that] assms(2) that
    by (intro wrap64_id) (auto simp: well_placed_def small_ints_def list_all_iff is_i64_def)
  have sp: "set ?sp = ?span ` set (Header s)"
    using placed by (force simp: header_spans_def well_placed_def)
  have "sorted_wrt (\<lambda>(n1, s1, e1) (n2, s2, e2). e1 \<le> s2) ?sp"
  proof (rule overlap_sorted)
    show "overlap_check ?sp = []" by (rule Validate_parts(3) [OF assms(1)])
    show "\<forall>(n, a, b) \<in> set ?sp. a < b"
      unfolding sp using placed nowrap by (auto simp: well_placed_def)
  qed (rule sorted_sort_key)
  moreover have "distinct (map Name (Header s))"
    using names_distinct [OF Validate_parts(2) [OF assms(1)]] by simp
  then have "Name f \<noteq> Name g" using assms by (auto simp: distinct_map inj_on_def)
  moreover have "?span f \<in> set ?sp" "?span g \<in> set ?sp" using assms sp by auto
  ultimately have "wrap64 (Offset f + Size f) \<le> Offset g \<or> wrap64 (Offset g + Size g) \<le> Offset f"
    using sorted_wrt_pair by fastforce
  then show ?thesis using nowrap assms(3,4) by (simp add: apart_def)
qed

text \<open>The bits of the accepted flags fields lie inside their field.\<close>

lemma flag_bits_ok:
  "flag_bits_check n w sb sn bs = [] \<Longrightarrow> b \<in> set bs \<Longrightarrow> 0 \<le> fbBit b \<and> fbBit b < w"
proof (induction bs arbitrary: sb sn)
  case (Cons x xs)
  then show ?case by (auto simp: Let_def split: if_splits option.splits)
qed simp

lemma flagsBits_mem:
  assumes "(n, bits) \<in> set (flagsBits fs)"
  shows "\<exists>f \<in> set fs. Role f = ''flags'' \<and> Bits f = bits"
proof -
  have "(n, bits) \<in> set (fold (\<lambda>f m. if Role f = ''flags'' then AList.update (Name f) (Bits f) m else m) fs m)
      \<Longrightarrow> (n, bits) \<in> set m \<or> (\<exists>f \<in> set fs. Role f = ''flags'' \<and> Bits f = bits)" for m
  proof (induction fs arbitrary: m)
    case (Cons f fs)
    have "set (AList.update (Name f) (Bits f) m) \<subseteq> insert (Name f, Bits f) (set m)"
      by (induction m) auto
    then show ?case using Cons by (fastforce split: if_splits)
  qed simp
  from this [of "[]"] show ?thesis using assms by (auto simp: flagsBits_def)
qed

lemma flag_refs_ok:
  "flag_refs names bound sts = [] \<Longrightarrow>
   (\<forall>st \<in> set sts. stFlag st \<noteq> '''' \<longrightarrow> stFlag st \<in> set names \<and> bound (stFlag st) = None) \<and>
   distinct (filter (\<lambda>n. n \<noteq> '''') (map stFlag sts))"
proof (induction sts arbitrary: bound)
  case (Cons st sts)
  show ?case
  proof (cases "stFlag st = ''''")
    case False
    then have "flag_refs names (bound(stFlag st \<mapsto> stName st)) sts = []"
      and "stFlag st \<in> set names" "bound (stFlag st) = None"
      using Cons.prems by (auto split: if_splits option.splits)
    then show ?thesis using Cons.IH by (fastforce split: if_splits)
  qed (use Cons in simp)
qed simp

end
