(* ===== verification/CodecCompile.thy ===== *)
theory CodecCompile
  imports CodecSchema
begin

text \<open>
  Compilation of a schema (\<open>src/protocol/codec/compile.go\<close>): names become indices, masks and
  implementations.  \<open>NewSchemaCodec\<close> validates, resolves every reference and looks every algorithm
  up; each way it can fail is a value of \<open>compileError\<close>.  Go's zero values matter here: a step
  without a condition keeps the zero \<open>compiledWhen\<close>.  Offsets and sizes are natural numbers in the
  compiled form, which only an accepted schema reaches.
\<close>

subsection \<open>Compiled forms\<close>

datatype roleKind = roleUnknown | roleLength | roleRoute | roleErrorCode | roleFlags
  | roleChecksumOut | roleValue | roleReserved

datatype stepOp = opUnknown | opCompress | opEncrypt | opChecksum | opHash

datatype onErrorPolicy = onErrorFail | onErrorKeep

datatype produceRegion = regionUnknown | regionCiphered | regionBodyPlain | regionBodyFinal
  | regionHeader | regionFrame

record stepProduceRef =
  refStepIdx :: int
  refProduceName :: string

record compiledValueSource =
  cvKind :: string
  cvValue :: int
  cvKey :: string

record compiledField =
  offset :: nat
  fsize :: nat
  kind :: fieldKind
  endian :: byteOrder
  role :: roleKind
  flagBits :: "int list"
  checksumRef :: stepProduceRef
  source :: compiledValueSource
  fname :: string

datatype routeSeg = segLiteral string | segField nat

record compiledGuard =
  cgFieldIdx :: nat
  cgFieldName :: string
  cgOp :: string
  cgValue :: int

record compiledWhen =
  enabled :: bool
  minBodyLen :: int
  onlySmaller :: bool
  requireKey :: bool
  appliesWithIdx :: int
  guards :: "compiledGuard list"

datatype digestImpl = ChecksumOf checksumImpl | HasherOf hasherImpl

record compiledProduce =
  pname :: string
  palgo :: string
  pimpl :: digestImpl
  region :: produceRegion

datatype stepImpl = CompressorImpl compressorImpl | CipherImpl cipherImpl
  | ChecksumImpl checksumImpl | HasherImpl hasherImpl

record compiledStep =
  sop :: stepOp
  impl :: stepImpl
  flagMask :: u64
  encodeWhen :: compiledWhen
  encOffset :: int
  decOffset :: int
  produces :: "compiledProduce list"
  onError :: onErrorPolicy
  sname :: string
  sparams :: params
  keyLen :: int

record SchemaCodec =
  headerSize :: nat
  trailerSize :: nat
  lengthIncludesHeader :: bool
  lengthIncludesTrailer :: bool
  lengthField :: compiledField
  cfields :: "compiledField list"
  routeKeySegs :: "routeSeg list"
  steps :: "compiledStep list"
  errorMap :: "u64 \<rightharpoonup> string"

text \<open>Go's zero values.\<close>

definition zeroSource :: compiledValueSource where
  "zeroSource = \<lparr>cvKind = '''', cvValue = 0, cvKey = ''''\<rparr>"

definition zeroRef :: stepProduceRef where
  "zeroRef = \<lparr>refStepIdx = 0, refProduceName = ''''\<rparr>"

definition zeroField :: compiledField where
  "zeroField = \<lparr>offset = 0, fsize = 0, kind = kindUnknown, endian = LittleEndian, role = roleUnknown,
     flagBits = [], checksumRef = zeroRef, source = zeroSource, fname = ''''\<rparr>"

definition zeroWhen :: compiledWhen where
  "zeroWhen = \<lparr>enabled = False, minBodyLen = 0, onlySmaller = False, requireKey = False,
     appliesWithIdx = 0, guards = []\<rparr>"

subsection \<open>Parsing of the names\<close>

definition parseFieldKind :: "string \<Rightarrow> fieldKind" where
  "parseFieldKind t =
    (case map_of [(''u8'', kindU8), (''u16'', kindU16), (''u24'', kindU24), (''u32'', kindU32),
        (''u64'', kindU64), (''i8'', kindI8), (''i16'', kindI16), (''i24'', kindI24),
        (''i32'', kindI32), (''i64'', kindI64), (''f32'', kindF32), (''f64'', kindF64),
        (''bytes'', kindBytes)] t of
       Some k \<Rightarrow> k | None \<Rightarrow> kindUnknown)"

definition parseRole :: "string \<Rightarrow> roleKind" where
  "parseRole r =
    (case map_of [(''length'', roleLength), (''route'', roleRoute), (''errorCode'', roleErrorCode),
        (''flags'', roleFlags), (''checksumOut'', roleChecksumOut), (''value'', roleValue),
        (''reserved'', roleReserved)] r of
       Some k \<Rightarrow> k | None \<Rightarrow> roleUnknown)"

definition parseOp :: "string \<Rightarrow> stepOp" where
  "parseOp op =
    (case map_of [(''compress'', opCompress), (''encrypt'', opEncrypt), (''checksum'', opChecksum),
        (''hash'', opHash)] op of
       Some k \<Rightarrow> k | None \<Rightarrow> opUnknown)"

definition parseOnError :: "string \<Rightarrow> onErrorPolicy" where
  "parseOnError v = (if v = ''keep'' then onErrorKeep else onErrorFail)"

definition parseProduceRegion :: "string \<Rightarrow> produceRegion" where
  "parseProduceRegion r =
    (case map_of [(''ciphered'', regionCiphered), (''bodyPlain'', regionBodyPlain),
        (''bodyFinal'', regionBodyFinal), (''header'', regionHeader), (''frame'', regionFrame)] r of
       Some k \<Rightarrow> k | None \<Rightarrow> regionUnknown)"

subsection \<open>Errors\<close>

datatype compileError =
    SchemaNil | SchemaInvalid "violation list" | EndianInvalid string
  | FloatField string string
  | RefFormat string string | RefStepMissing string string string
  | RefProduceMissing string string string string
  | PlaceholderOpen string | PlaceholderNotRoute string
  | OverUnsupported string string | StepFlagUndeclared string string
  | UnknownAlgo string string | UnknownOp string string | ProduceAlgoUnknown string string string

type_synonym 'a compiled = "compileError + 'a"

definition resolveEndian :: "string \<Rightarrow> byteOrder compiled" where
  "resolveEndian s =
    (if s = ''le'' then Inr LittleEndian else if s = ''be'' then Inr BigEndian else Inl (EndianInvalid s))"

subsection \<open>Conditions\<close>

definition compileGuard :: "(string \<rightharpoonup> nat) \<Rightarrow> Guard \<Rightarrow> compiledGuard" where
  "compileGuard routeFieldIdx g =
    \<lparr>cgFieldIdx = (case routeFieldIdx (gField g) of Some i \<Rightarrow> i | None \<Rightarrow> 0),
     cgFieldName = gField g, cgOp = gOp g, cgValue = gValue g\<rparr>"

definition compileWhen :: "StepCond \<Rightarrow> (string \<rightharpoonup> nat) \<Rightarrow> (string \<rightharpoonup> nat) \<Rightarrow> compiledWhen" where
  "compileWhen w routeFieldIdx stepIdx =
    \<lparr>enabled = True, minBodyLen = MinBodyLen w, onlySmaller = OnlySmaller w, requireKey = RequireKey w,
     appliesWithIdx =
       (if AppliesWith w = '''' then -1
        else case stepIdx (AppliesWith w) of Some i \<Rightarrow> int i | None \<Rightarrow> -1),
     guards = map (compileGuard routeFieldIdx) (Guards w)\<rparr>"

text \<open>
  Route values: the conversions to \<open>int64\<close> of the guards truncate floats, those of the header
  (\<open>routeMapFloorInt\<close>) round them down.
\<close>

type_synonym route = "string \<rightharpoonup> gval"

definition routeValue :: "compiledGuard \<Rightarrow> route \<Rightarrow> int option" where
  "routeValue g r =
    (if cgFieldName g = '''' then None
     else case r (cgFieldName g) of
       None \<Rightarrow> None
     | Some (VInt k n) \<Rightarrow> Some n
     | Some (VUint k n) \<Rightarrow> Some (wrap64 n)
     | Some (VF64 x) \<Rightarrow> Some (int_of_f64 x)
     | Some (VF32 x) \<Rightarrow> Some (int_of_f64 x)
     | Some _ \<Rightarrow> None)"

definition satisfied :: "compiledGuard \<Rightarrow> route option \<Rightarrow> bool" where
  "satisfied g r =
    (case r of
       None \<Rightarrow> False
     | Some m \<Rightarrow>
        (case routeValue g m of
           None \<Rightarrow> False
         | Some v \<Rightarrow>
            if cgOp g = ''eq'' then v = cgValue g
            else if cgOp g = ''neq'' then v \<noteq> cgValue g
            else if cgOp g = ''gt'' then v > cgValue g
            else if cgOp g = ''gte'' then v \<ge> cgValue g
            else if cgOp g = ''lt'' then v < cgValue g
            else if cgOp g = ''lte'' then v \<le> cgValue g
            else False))"

definition applies :: "compiledWhen \<Rightarrow> int \<Rightarrow> bool \<Rightarrow> route option \<Rightarrow> bool" where
  "applies w bodyLen hasKey r \<longleftrightarrow>
     \<not> enabled w \<or>
     (\<not> bodyLen < minBodyLen w \<and> \<not> (requireKey w \<and> \<not> hasKey) \<and> list_all (\<lambda>g. satisfied g r) (guards w))"

subsection \<open>References\<close>

definition stepIdxOf :: "PipelineStep list \<Rightarrow> (string \<rightharpoonup> nat)" where
  "stepIdxOf sts = fold (\<lambda>i m. m(stName (sts ! i) \<mapsto> i)) [0..<length sts] Map.empty"

definition resolveProduceRef ::
  "string \<Rightarrow> string \<Rightarrow> (string \<rightharpoonup> nat) \<Rightarrow> (string \<rightharpoonup> string list) \<Rightarrow> stepProduceRef compiled" where
  "resolveProduceRef from fieldName stepIdx produceLoc =
    (case checksumFromRe from of
       None \<Rightarrow> Inl (RefFormat fieldName from)
     | Some (stepName, produceName) \<Rightarrow>
        (case stepIdx stepName of
           None \<Rightarrow> Inl (RefStepMissing fieldName from stepName)
         | Some si \<Rightarrow>
            (case produceLoc stepName of
               None \<Rightarrow> Inl (RefStepMissing fieldName from stepName)
             | Some ps \<Rightarrow>
                if produceName \<in> set ps
                then Inr \<lparr>refStepIdx = int si, refProduceName = produceName\<rparr>
                else Inl (RefProduceMissing fieldName from stepName produceName))))"

text \<open>The template: literals in a buffer that is flushed at every placeholder.\<close>

definition flushLiteral :: "string \<Rightarrow> routeSeg list" where
  "flushLiteral buf = (if buf = '''' then [] else [segLiteral buf])"

function template_segs :: "(string \<rightharpoonup> nat) \<Rightarrow> string \<Rightarrow> string \<Rightarrow> routeSeg list compiled" where
  "template_segs idx buf [] = Inr (flushLiteral buf)"
| "template_segs idx buf (ch # rest) =
    (if ch = CHR ''{'' then
       (let name = takeWhile (\<lambda>c. c \<noteq> CHR ''}'') rest; after = drop (length name) rest in
        if after = [] then Inl (PlaceholderOpen (ch # rest))
        else case idx name of
          None \<Rightarrow> Inl (PlaceholderNotRoute name)
        | Some i \<Rightarrow>
           (case template_segs idx '''' (tl after) of
              Inl e \<Rightarrow> Inl e
            | Inr segs \<Rightarrow> Inr (flushLiteral buf @ segField i # segs)))
     else template_segs idx (buf @ [ch]) rest)"
  by pat_completeness auto
termination by (relation "measure (\<lambda>(i, b, s). length s)") (auto simp: Let_def)

definition parseRouteKeyTemplate :: "string \<Rightarrow> (string \<rightharpoonup> nat) \<Rightarrow> routeSeg list compiled" where
  "parseRouteKeyTemplate tmpl routeFieldIdx = template_segs routeFieldIdx '''' tmpl"

subsection \<open>Steps\<close>

definition compileProduce :: "string \<Rightarrow> StepProduce \<Rightarrow> compiledProduce compiled" where
  "compileProduce stepName p =
    (case LookupChecksum (spAlgo p) of
       Some chk \<Rightarrow> Inr \<lparr>pname = spName p, palgo = spAlgo p, pimpl = ChecksumOf chk,
         region = parseProduceRegion (spRegion p)\<rparr>
     | None \<Rightarrow>
        (case LookupHasher (spAlgo p) of
           Some h \<Rightarrow> Inr \<lparr>pname = spName p, palgo = spAlgo p, pimpl = HasherOf h,
             region = parseProduceRegion (spRegion p)\<rparr>
         | None \<Rightarrow> Inl (ProduceAlgoUnknown stepName (spName p) (spAlgo p))))"

text \<open>The first error of a list of compilations, or all results.\<close>

fun all_compiled :: "'a compiled list \<Rightarrow> 'a list compiled" where
  "all_compiled [] = Inr []"
| "all_compiled (Inl e # rs) = Inl e"
| "all_compiled (Inr x # rs) =
     (case all_compiled rs of Inl e \<Rightarrow> Inl e | Inr xs \<Rightarrow> Inr (x # xs))"

definition lookupImpl :: "stepOp \<Rightarrow> PipelineStep \<Rightarrow> stepImpl compiled" where
  "lookupImpl op st =
    (let missing = Inl (UnknownAlgo (stName st) (stAlgo st)) in
     case op of
       opCompress \<Rightarrow> (case LookupCompressor (stAlgo st) of None \<Rightarrow> missing | Some c \<Rightarrow> Inr (CompressorImpl c))
     | opEncrypt \<Rightarrow> (case LookupCipher (stAlgo st) of None \<Rightarrow> missing | Some c \<Rightarrow> Inr (CipherImpl c))
     | opChecksum \<Rightarrow> (case LookupChecksum (stAlgo st) of None \<Rightarrow> missing | Some c \<Rightarrow> Inr (ChecksumImpl c))
     | opHash \<Rightarrow> (case LookupHasher (stAlgo st) of None \<Rightarrow> missing | Some h \<Rightarrow> Inr (HasherImpl h))
     | opUnknown \<Rightarrow> Inl (UnknownOp (stName st) (stOp st)))"

definition stepFlagMask :: "(string \<rightharpoonup> u64) \<Rightarrow> PipelineStep \<Rightarrow> u64 compiled" where
  "stepFlagMask masks st =
    (if stFlag st = '''' then Inr 0
     else case masks (stFlag st) of
       None \<Rightarrow> Inl (StepFlagUndeclared (stName st) (stFlag st))
     | Some m \<Rightarrow> Inr m)"

definition compileStep ::
  "PipelineStep \<Rightarrow> (string \<rightharpoonup> u64) \<Rightarrow> (string \<rightharpoonup> nat) \<Rightarrow> (string \<rightharpoonup> nat) \<Rightarrow> compiledStep compiled" where
  "compileStep st masks routeFieldIdx stepIdx =
    (case stOver st of
       Some ov \<Rightarrow> Inl (OverUnsupported (stName st) (ovKind ov))
     | None \<Rightarrow>
    (case stepFlagMask masks st of
       Inl e \<Rightarrow> Inl e
     | Inr fm \<Rightarrow>
    (case lookupImpl (parseOp (stOp st)) st of
       Inl e \<Rightarrow> Inl e
     | Inr im \<Rightarrow>
    (case all_compiled (map (compileProduce (stName st)) (stProduces st)) of
       Inl e \<Rightarrow> Inl e
     | Inr ps \<Rightarrow>
        let (eo, d) = (if parseOp (stOp st) = opEncrypt
                       then (case stOffset st of None \<Rightarrow> (0, 0) | Some so \<Rightarrow> (soEncode so, soDecode so))
                       else (0, 0))
        in Inr \<lparr>sop = parseOp (stOp st), impl = im, flagMask = fm,
             encodeWhen = (case stWhen st of None \<Rightarrow> zeroWhen
                           | Some w \<Rightarrow> compileWhen w routeFieldIdx stepIdx),
             encOffset = eo, decOffset = d, produces = ps, onError = parseOnError (stOnError st),
             sname = stName st, sparams = stParams st, keyLen = stKeyLen st\<rparr>))))"

subsection \<open>Fields\<close>

definition flagMaskByName :: "Field list \<Rightarrow> (string \<rightharpoonup> u64)" where
  "flagMaskByName fs =
    fold (\<lambda>b m. m(fbName b \<mapsto> push_bit (nat (fbBit b)) 1))
      (concat (map Bits (filter (\<lambda>f. Role f = ''flags'') fs))) Map.empty"

definition compileField ::
  "byteOrder \<Rightarrow> (string \<rightharpoonup> nat) \<Rightarrow> (string \<rightharpoonup> string list) \<Rightarrow> Field \<Rightarrow> compiledField compiled" where
  "compileField defaultEndian stepIdx produceLoc f =
    (let k = parseFieldKind (Type f); r = parseRole (Role f);
         e = (if Endian f = ''be'' then BigEndian else if Endian f = ''le'' then LittleEndian
              else defaultEndian);
         bits = (if r = roleFlags then map fbBit (Bits f) else []);
         src = (case Source f of
            Some vs \<Rightarrow> if r = roleValue
              then \<lparr>cvKind = vsKind vs, cvValue = vsValue vs, cvKey = vsKey vs\<rparr> else zeroSource
          | None \<Rightarrow> zeroSource);
         cf = (\<lambda>ref. \<lparr>offset = nat (Offset f), fsize = nat (Size f), kind = k, endian = e, role = r,
            flagBits = bits, checksumRef = ref, source = src, fname = Name f\<rparr>)
     in if k = kindF32 \<or> k = kindF64 then Inl (FloatField (Name f) (Type f))
        else if r = roleChecksumOut \<and> From f \<noteq> '''' then
          (case resolveProduceRef (From f) (Name f) stepIdx produceLoc of
             Inl err \<Rightarrow> Inl err | Inr ref \<Rightarrow> Inr (cf ref))
        else Inr (cf zeroRef))"

text \<open>The length field apart, the others in order; the route fields by name.\<close>

definition lengthFieldOf :: "compiledField list \<Rightarrow> compiledField" where
  "lengthFieldOf cfs = fold (\<lambda>cf l. if role cf = roleLength then cf else l) cfs zeroField"

definition otherFields :: "compiledField list \<Rightarrow> compiledField list" where
  "otherFields cfs = filter (\<lambda>cf. role cf \<noteq> roleLength) cfs"

definition routeFieldIdxOf :: "compiledField list \<Rightarrow> (string \<rightharpoonup> nat)" where
  "routeFieldIdxOf cfs =
    fold (\<lambda>i m. if role (cfs ! i) = roleRoute then m(fname (cfs ! i) \<mapsto> i) else m)
      [0..<length cfs] Map.empty"

subsection \<open>The codec\<close>

definition NewSchemaCodec :: "Schema option \<Rightarrow> (u64 \<rightharpoonup> string) option \<Rightarrow> SchemaCodec compiled" where
  "NewSchemaCodec schema em =
    (case schema of
       None \<Rightarrow> Inl SchemaNil
     | Some s \<Rightarrow>
    (if Validate s \<noteq> [] then Inl (SchemaInvalid (Validate s))
     else case resolveEndian (EndianDefault s) of
       Inl e \<Rightarrow> Inl e
     | Inr defaultEndian \<Rightarrow>
    (let stepIdx = stepIdxOf (Pipeline s); produceLoc = stepProduces (Pipeline s);
         masks = flagMaskByName (Header s) in
     case all_compiled (map (compileField defaultEndian stepIdx produceLoc) (Header s)) of
       Inl e \<Rightarrow> Inl e
     | Inr cfs \<Rightarrow>
    (let fs = otherFields cfs; routeFieldIdx = routeFieldIdxOf fs in
     case parseRouteKeyTemplate (RouteKeyTmpl s) routeFieldIdx of
       Inl e \<Rightarrow> Inl e
     | Inr segs \<Rightarrow>
    (case all_compiled (map (\<lambda>st. compileStep st masks routeFieldIdx stepIdx) (Pipeline s)) of
       Inl e \<Rightarrow> Inl e
     | Inr css \<Rightarrow>
        Inr \<lparr>headerSize = nat (HeaderSize (Frame s)), trailerSize = nat (TrailerSize (Frame s)),
          lengthIncludesHeader = LengthIncludesHeader (Frame s),
          lengthIncludesTrailer = LengthIncludesTrailer (Frame s),
          lengthField = lengthFieldOf cfs, cfields = fs, routeKeySegs = segs, steps = css,
          errorMap = (case em of None \<Rightarrow> Map.empty | Some m \<Rightarrow> m)\<rparr>)))))"

record FrameSignature =
  sigHeaderSize :: nat
  sigTrailerSize :: nat
  sigLengthIncludesHeader :: bool
  sigLengthIncludesTrailer :: bool
  sigLenOffset :: nat
  sigLenSize :: nat
  sigLenEndian :: string
  sigLenKind :: fieldKind

definition FrameSignature :: "SchemaCodec \<Rightarrow> FrameSignature" where
  "FrameSignature c =
    \<lparr>sigHeaderSize = headerSize c, sigTrailerSize = trailerSize c,
     sigLengthIncludesHeader = lengthIncludesHeader c, sigLengthIncludesTrailer = lengthIncludesTrailer c,
     sigLenOffset = offset (lengthField c), sigLenSize = fsize (lengthField c),
     sigLenEndian = (if endian (lengthField c) = BigEndian then ''be'' else ''le''),
     sigLenKind = kind (lengthField c)\<rparr>"

subsection \<open>Well-formed codecs\<close>

text \<open>
  What the engine relies on: every field lies in the header and has the width of its kind, two
  fields never share a byte, every index points to a field or step of the right sort, and every
  step has an implementation of its operation.
\<close>

definition field_wf :: "SchemaCodec \<Rightarrow> compiledField \<Rightarrow> bool" where
  "field_wf c f \<longleftrightarrow> sized (kind f) (fsize f) \<and> offset f + fsize f \<le> headerSize c \<and>
     kind f \<notin> {kindUnknown, kindF32, kindF64}"

definition fapart :: "compiledField \<Rightarrow> compiledField \<Rightarrow> bool" where
  "fapart f g \<longleftrightarrow> offset f + fsize f \<le> offset g \<or> offset g + fsize g \<le> offset f"

definition seg_wf :: "SchemaCodec \<Rightarrow> routeSeg \<Rightarrow> bool" where
  "seg_wf c seg = (case seg of
     segLiteral s \<Rightarrow> s \<noteq> '''' | segField i \<Rightarrow> i < length (cfields c) \<and> role (cfields c ! i) = roleRoute)"

definition impl_wf :: "compiledStep \<Rightarrow> bool" where
  "impl_wf st = (case (sop st, impl st) of
     (opCompress, CompressorImpl _) \<Rightarrow> True | (opEncrypt, CipherImpl _) \<Rightarrow> True
   | (opChecksum, ChecksumImpl _) \<Rightarrow> True | (opHash, HasherImpl _) \<Rightarrow> True | _ \<Rightarrow> False)"

definition ref_wf :: "SchemaCodec \<Rightarrow> compiledField \<Rightarrow> bool" where
  "ref_wf c f \<longleftrightarrow> (role f = roleChecksumOut \<longrightarrow>
     (let i = refStepIdx (checksumRef f) in
      0 \<le> i \<and> nat i < length (steps c) \<and>
      refProduceName (checksumRef f) \<in> set (map pname (produces (steps c ! nat i)))))"

definition flag_wf :: "SchemaCodec \<Rightarrow> compiledStep \<Rightarrow> bool" where
  "flag_wf c st \<longleftrightarrow> flagMask st \<noteq> 0 \<longrightarrow>
     list_ex (\<lambda>f. role f = roleFlags \<and> take_bit (8 * fsize f) (flagMask st) = flagMask st) (cfields c)"

definition codec_wf :: "SchemaCodec \<Rightarrow> bool" where
  "codec_wf c \<longleftrightarrow>
     0 < headerSize c \<and> role (lengthField c) = roleLength \<and>
     roleLength \<notin> role ` set (cfields c) \<and>
     distinct (map fname (lengthField c # cfields c)) \<and>
     (\<forall>f \<in> set (lengthField c # cfields c). field_wf c f \<and>
        (\<forall>g \<in> set (lengthField c # cfields c). f \<noteq> g \<longrightarrow> fapart f g)) \<and>
     list_all (seg_wf c) (routeKeySegs c) \<and> list_all impl_wf (steps c) \<and>
     list_all (ref_wf c) (cfields c) \<and> list_all (flag_wf c) (steps c) \<and>
     list_all (\<lambda>st. distinct (map pname (produces st))) (steps c) \<and>
     list_all (\<lambda>st. appliesWithIdx (encodeWhen st) < int (length (steps c))) (steps c)"

lemma all_compiled_Inr: "all_compiled rs = Inr xs \<longleftrightarrow> rs = map Inr xs"
proof (induction rs arbitrary: xs rule: all_compiled.induct)
  case (3 x rs)
  show ?case
  proof (cases "all_compiled rs")
    case (Inl e)
    then have "rs \<noteq> map Inr ys" for ys using 3 by fastforce
    then show ?thesis using Inl by (auto simp: map_eq_Cons_conv)
  next
    case (Inr ys)
    then have "rs = map Inr ys" using 3 by simp
    then show ?thesis using Inr by (cases xs) (auto simp: inj_map_eq_map)
  qed
qed auto

lemma all_compiled_map: "all_compiled (map f xs) = Inr ys \<Longrightarrow> list_all2 (\<lambda>x y. f x = Inr y) xs ys"
  by (auto simp: all_compiled_Inr list_all2_conv_all_nth map_equality_iff list_eq_iff_nth_eq)

lemma parseRole_eqs:
  "parseRole r = roleLength \<longleftrightarrow> r = ''length''" "parseRole r = roleRoute \<longleftrightarrow> r = ''route''"
  "parseRole r = roleFlags \<longleftrightarrow> r = ''flags''" "parseRole r = roleChecksumOut \<longleftrightarrow> r = ''checksumOut''"
  "parseRole r = roleErrorCode \<longleftrightarrow> r = ''errorCode''"
  by (auto simp: parseRole_def)

lemma compileField_shape:
  assumes "compileField e si pl f = Inr cf"
  shows "offset cf = nat (Offset f)" "fsize cf = nat (Size f)" "kind cf = parseFieldKind (Type f)"
    "role cf = parseRole (Role f)" "fname cf = Name f" "kind cf \<notin> {kindF32, kindF64}"
    "role cf = roleFlags \<Longrightarrow> flagBits cf = map fbBit (Bits f)"
    "role cf = roleChecksumOut \<Longrightarrow> From f \<noteq> '''' \<Longrightarrow>
       resolveProduceRef (From f) (Name f) si pl = Inr (checksumRef cf)"
  using assms by (auto simp: compileField_def Let_def split: if_splits sum.splits)

lemma kind_width:
  assumes "validFieldTypes t = Some w"
  shows "parseFieldKind t \<noteq> kindUnknown \<and> (0 < w \<longrightarrow> int (width (parseFieldKind t)) = w)
    \<and> (w \<le> 0 \<longrightarrow> width (parseFieldKind t) = 0)"
  using assms by (auto simp: validFieldTypes_def parseFieldKind_def split: if_splits)

lemma length_field_found:
  assumes "\<exists>cf \<in> set cfs. role cf = roleLength"
  shows "lengthFieldOf cfs \<in> set cfs \<and> role (lengthFieldOf cfs) = roleLength"
proof -
  have "(\<exists>cf \<in> set cfs. role cf = roleLength) \<or> l \<in> S \<and> role l = roleLength \<Longrightarrow>
     fold (\<lambda>cf l. if role cf = roleLength then cf else l) cfs l \<in> set cfs \<union> S
       \<and> role (fold (\<lambda>cf l. if role cf = roleLength then cf else l) cfs l) = roleLength" for l S
  proof (induction cfs arbitrary: l S)
    case (Cons cf cfs)
    then show ?case
      using Cons.IH [of cf "{cf}"] Cons.IH [of l S] by (cases "role cf = roleLength") auto
  qed auto
  from this [of zeroField "{}"] show ?thesis using assms by (simp add: lengthFieldOf_def)
qed

lemma routeFieldIdx_ok:
  assumes "routeFieldIdxOf cfs n = Some i"
  shows "i < length cfs \<and> role (cfs ! i) = roleRoute \<and> fname (cfs ! i) = n"
  using fold_upd_Some [OF assms [unfolded routeFieldIdxOf_def]] by auto

lemma template_segs_wf:
  assumes "template_segs idx buf tmpl = Inr segs"
    and "\<And>n i. idx n = Some i \<Longrightarrow> i < length (cfields c) \<and> role (cfields c ! i) = roleRoute"
  shows "list_all (seg_wf c) segs"
  using assms
proof (induction idx buf tmpl arbitrary: segs rule: template_segs.induct)
  case (1 idx buf)
  then show ?case by (auto simp: flushLiteral_def seg_wf_def)
next
  case (2 idx buf ch rest)
  show ?case
  proof (cases "ch = CHR ''{''")
    case True
    define name where "name = takeWhile (\<lambda>c. c \<noteq> CHR ''}'') rest"
    define after where "after = drop (length name) rest"
    have na: "after \<noteq> []" using 2(3) True by (auto simp: name_def after_def Let_def split: if_splits)
    then obtain i segs' where i: "idx name = Some i" and t: "template_segs idx '''' (tl after) = Inr segs'"
      and segs: "segs = flushLiteral buf @ segField i # segs'"
      using 2(3) True unfolding template_segs.simps Let_def name_def [symmetric] after_def [symmetric]
      by (auto split: option.splits sum.splits)
    have "list_all (seg_wf c) segs'"
      using 2(1) [OF True name_def after_def na i t] 2(4) by blast
    then show ?thesis using 2(4) [OF i] by (auto simp: segs list_all_iff seg_wf_def [of c "segField i"]
          seg_wf_def [of c "segLiteral buf"] flushLiteral_def)
  next
    case False
    then show ?thesis using 2 by simp
  qed
qed

lemma NewSchemaCodec_parts:
  assumes "NewSchemaCodec (Some s) em = Inr c"
  obtains de cfs where "Validate s = []" "resolveEndian (EndianDefault s) = Inr de"
    "list_all2 (\<lambda>f cf. compileField de (stepIdxOf (Pipeline s)) (stepProduces (Pipeline s)) f = Inr cf)
       (Header s) cfs"
    "headerSize c = nat (HeaderSize (Frame s))" "trailerSize c = nat (TrailerSize (Frame s))"
    "lengthField c = lengthFieldOf cfs" "cfields c = otherFields cfs"
    "parseRouteKeyTemplate (RouteKeyTmpl s) (routeFieldIdxOf (cfields c)) = Inr (routeKeySegs c)"
    "list_all2 (\<lambda>st cs. compileStep st (flagMaskByName (Header s)) (routeFieldIdxOf (cfields c))
       (stepIdxOf (Pipeline s)) = Inr cs) (Pipeline s) (steps c)"
proof -
  have V: "Validate s = []" using assms by (auto simp: NewSchemaCodec_def split: if_splits)
  obtain de where de: "resolveEndian (EndianDefault s) = Inr de"
    using assms V by (auto simp: NewSchemaCodec_def split: sum.splits)
  obtain cfs where cfs: "all_compiled (map (compileField de (stepIdxOf (Pipeline s)) (stepProduces (Pipeline s)))
      (Header s)) = Inr cfs"
    using assms V de by (auto simp: NewSchemaCodec_def Let_def split: sum.splits)
  obtain segs where segs: "parseRouteKeyTemplate (RouteKeyTmpl s) (routeFieldIdxOf (otherFields cfs)) = Inr segs"
    using assms V de cfs by (auto simp: NewSchemaCodec_def Let_def split: sum.splits)
  obtain css where css: "all_compiled (map (\<lambda>st. compileStep st (flagMaskByName (Header s))
      (routeFieldIdxOf (otherFields cfs)) (stepIdxOf (Pipeline s))) (Pipeline s)) = Inr css"
    using assms V de cfs segs by (auto simp: NewSchemaCodec_def Let_def split: sum.splits)
  show thesis
    using assms V de cfs segs css all_compiled_map [OF cfs] all_compiled_map [OF css]
    by (intro that [of de cfs]) (auto simp: NewSchemaCodec_def Let_def)
qed

lemma list_all2_mem2: "list_all2 R xs ys \<Longrightarrow> y \<in> set ys \<Longrightarrow> \<exists>x \<in> set xs. R x y"
  by (induction xs ys rule: list_all2_induct) auto

lemma list_all2_mem1: "list_all2 R xs ys \<Longrightarrow> x \<in> set xs \<Longrightarrow> \<exists>y \<in> set ys. R x y"
  by (induction xs ys rule: list_all2_induct) auto

lemma list_all2_maps: "list_all2 (\<lambda>x y. g y = h x) xs ys \<Longrightarrow> map g ys = map h xs"
  by (induction xs ys rule: list_all2_induct) auto

text \<open>The fields.\<close>

lemma compiled_field_wf:
  assumes "well_placed s f" "compileField e si pl f = Inr cf" "headerSize c = nat (HeaderSize (Frame s))"
  shows "field_wf c cf"
proof -
  obtain w where w: "validFieldTypes (Type f) = Some w" "0 < w \<longrightarrow> Size f = w"
    using assms(1) by (auto simp: well_placed_def)
  note sh = compileField_shape [OF assms(2)]
  have "sized (kind cf) (fsize cf)"
    using kind_width [OF w(1)] w(2) assms(1) sh by (cases "0 < w") (auto simp: sized_def well_placed_def)
  moreover have "offset cf + fsize cf \<le> headerSize c"
    using assms(1,3) sh(1,2) by (auto simp: well_placed_def)
  ultimately show ?thesis using kind_width [OF w(1)] sh by (simp add: field_wf_def)
qed

lemma compiled_apart:
  assumes "well_placed s f" "well_placed s g" "apart f g"
    "compileField e si pl f = Inr cf" "compileField e si pl g = Inr cg"
  shows "fapart cf cg"
proof -
  have "int (offset cf) = Offset f" "int (fsize cf) = Size f" "int (offset cg) = Offset g"
    "int (fsize cg) = Size g"
    using compileField_shape(1,2) [OF assms(4)] compileField_shape(1,2) [OF assms(5)] assms(1,2)
    by (auto simp: well_placed_def)
  then show ?thesis using assms(3) unfolding fapart_def apart_def by linarith
qed

text \<open>The steps.\<close>

lemma compileStep_shape:
  assumes "compileStep st masks rf si = Inr cs"
  shows "sop cs = parseOp (stOp st)" "lookupImpl (parseOp (stOp st)) st = Inr (impl cs)"
    "stepFlagMask masks st = Inr (flagMask cs)"
    "encodeWhen cs = (case stWhen st of None \<Rightarrow> zeroWhen | Some w \<Rightarrow> compileWhen w rf si)"
    "list_all2 (\<lambda>p cp. compileProduce (stName st) p = Inr cp) (stProduces st) (produces cs)"
    "onError cs = parseOnError (stOnError st)"
proof -
  obtain ps where ps: "all_compiled (map (compileProduce (stName st)) (stProduces st)) = Inr ps" "produces cs = ps"
    using assms by (auto simp: compileStep_def split: option.splits sum.splits if_splits)
  show "list_all2 (\<lambda>p cp. compileProduce (stName st) p = Inr cp) (stProduces st) (produces cs)"
    using all_compiled_map [OF ps(1)] ps(2) by simp
qed (use assms in \<open>auto simp: compileStep_def split: option.splits sum.splits if_splits\<close>)

lemma produce_names:
  "list_all2 (\<lambda>p cp. compileProduce n p = Inr cp) ps cps \<Longrightarrow> map pname cps = map spName ps"
  by (rule list_all2_maps, erule list_all2_mono) (auto simp: compileProduce_def split: option.splits)

lemma lookupImpl_wf: "lookupImpl (sop cs) st = Inr (impl cs) \<Longrightarrow> impl_wf cs"
  by (cases "impl cs") (auto simp: lookupImpl_def impl_wf_def Let_def split: stepOp.splits option.splits)

lemma step_names_distinct:
  "fst (step_names names i sts) = [] \<Longrightarrow> distinct (map stName sts) \<and> stName ` set sts \<inter> dom names = {}"
proof (induction sts arbitrary: names i)
  case (Cons st sts)
  have n: "names (stName st) = None" "fst (step_names (names(stName st \<mapsto> i)) (Suc i) sts) = []"
    using Cons.prems by (auto simp: split_beta Let_def split: if_splits option.splits)
  from Cons.IH [OF n(2)] n(1) show ?case by auto
qed simp

lemma stepIdxOf_ok: "stepIdxOf sts n = Some i \<Longrightarrow> i < length sts \<and> stName (sts ! i) = n"
  unfolding stepIdxOf_def by (drule fold_upd_True_Some) auto

lemma stepProduces_ok:
  "stepProduces sts n = Some ps \<Longrightarrow> \<exists>st \<in> set sts. stName st = n \<and> ps = map spName (stProduces st)"
  unfolding stepProduces_def by (drule fold_upd_True_Some) auto

lemma resolved_ref:
  assumes "resolveProduceRef from n (stepIdxOf sts) (stepProduces sts) = Inr ref"
    and "distinct (map stName sts)"
  shows "0 \<le> refStepIdx ref" "nat (refStepIdx ref) < length sts"
    "refProduceName ref \<in> set (map spName (stProduces (sts ! nat (refStepIdx ref))))"
proof -
  obtain sn pn i ps where i: "stepIdxOf sts sn = Some i" and ps: "stepProduces sts sn = Some ps" "pn \<in> set ps"
    and ref: "ref = \<lparr>refStepIdx = int i, refProduceName = pn\<rparr>"
    using assms(1) by (auto simp: resolveProduceRef_def split: option.splits if_splits)
  obtain st where "st \<in> set sts" "stName st = sn" "ps = map spName (stProduces st)"
    using stepProduces_ok [OF ps(1)] by auto
  moreover from this have "sts ! i = st"
    using stepIdxOf_ok [OF i] assms(2) by (auto simp: distinct_map inj_on_def)
  ultimately show "0 \<le> refStepIdx ref" "nat (refStepIdx ref) < length sts"
    "refProduceName ref \<in> set (map spName (stProduces (sts ! nat (refStepIdx ref))))"
    using stepIdxOf_ok [OF i] ps(2) ref by auto
qed

lemma compiled_ref_wf:
  assumes "compileField e (stepIdxOf sts) (stepProduces sts) f = Inr cf" "role_check f = []"
    and "distinct (map stName sts)"
    and "list_all2 (\<lambda>st cs. compileStep st m rf si = Inr cs) sts (steps c)"
  shows "ref_wf c cf"
  unfolding ref_wf_def Let_def
proof
  assume r: "role cf = roleChecksumOut"
  then have "Role f = ''checksumOut''" using compileField_shape(4) [OF assms(1)] parseRole_eqs(4) by simp
  then have "From f \<noteq> ''''" using assms(2) by (auto simp: role_check_def validateChecksumOut_def)
  from resolved_ref [OF compileField_shape(8) [OF assms(1) r this] assms(3)]
  have ref: "0 \<le> refStepIdx (checksumRef cf)" "nat (refStepIdx (checksumRef cf)) < length sts"
    "refProduceName (checksumRef cf)
      \<in> set (map spName (stProduces (sts ! nat (refStepIdx (checksumRef cf)))))" .
  moreover have "length (steps c) = length sts" using assms(4) by (simp add: list_all2_lengthD)
  moreover have "map pname (produces (steps c ! k)) = map spName (stProduces (sts ! k))" if "k < length sts" for k
    using list_all2_nthD [OF assms(4) that] compileStep_shape(5) produce_names by blast
  ultimately show "0 \<le> refStepIdx (checksumRef cf) \<and> nat (refStepIdx (checksumRef cf)) < length (steps c)
      \<and> refProduceName (checksumRef cf)
        \<in> set (map pname (produces (steps c ! nat (refStepIdx (checksumRef cf)))))"
    by metis
qed

lemma compiled_applies_idx:
  assumes "compileStep st m rf (stepIdxOf sts) = Inr cs" and "sts \<noteq> []"
  shows "appliesWithIdx (encodeWhen cs) < int (length sts)"
  using compileStep_shape(4) [OF assms(1)] assms(2) stepIdxOf_ok
  by (fastforce simp: zeroWhen_def compileWhen_def split: option.splits)

lemma flagMask_ok:
  assumes "flagMaskByName fs n = Some m"
  shows "\<exists>f \<in> set fs. Role f = ''flags'' \<and> (\<exists>b \<in> set (Bits f). m = push_bit (nat (fbBit b)) 1)"
  using assms unfolding flagMaskByName_def by (drule_tac fold_upd_True_Some) auto

lemma mask_fits: "nat b < n \<Longrightarrow> take_bit n (push_bit (nat b) 1 :: u64) = push_bit (nat b) 1"
  by (rule bit_eqI) (auto simp: bit_simps bit_1_iff)

lemma compiled_flag_wf:
  assumes "compileStep st (flagMaskByName (Header s)) rf si = Inr cs" and V: "Validate s = []"
    and fs: "list_all2 (\<lambda>f cf. compileField de six pl f = Inr cf) (Header s) cfs"
    and "cfields c = otherFields cfs"
  shows "flag_wf c cs"
  unfolding flag_wf_def
proof
  assume nz: "flagMask cs \<noteq> 0"
  then have "flagMaskByName (Header s) (stFlag st) = Some (flagMask cs)"
    using compileStep_shape(3) [OF assms(1)] by (auto simp: stepFlagMask_def split: if_splits option.splits)
  from flagMask_ok [OF this] obtain f b where f: "f \<in> set (Header s)" "Role f = ''flags''"
    "b \<in> set (Bits f)" "flagMask cs = push_bit (nat (fbBit b)) 1" by auto
  then have "0 \<le> fbBit b \<and> fbBit b < wrap64 (Size f * 8)"
    using Validate_parts(4) [OF V f(1)] flag_bits_ok by (auto simp: role_check_def validateFlagBits_def)
  moreover have "0 < Size f"
    using fields_checked [OF Validate_parts(2) [OF V] f(1)] by (auto simp: field_check_def split: if_splits)
  ultimately have b: "0 \<le> fbBit b \<and> fbBit b < Size f * 8" using wrap64_le [of "Size f * 8"] by linarith
  obtain cf where cf: "cf \<in> set cfs" "compileField de six pl f = Inr cf"
    using list_all2_mem1 [OF fs f(1)] by auto
  have "nat (fbBit b) < 8 * fsize cf" using compileField_shape(2) [OF cf(2)] b by auto
  then have "take_bit (8 * fsize cf) (flagMask cs) = flagMask cs" unfolding f(4) by (rule mask_fits)
  moreover have "role cf = roleFlags" using compileField_shape(4) [OF cf(2)] f(2) by (simp add: parseRole_eqs)
  ultimately have "role cf = roleFlags" "take_bit (8 * fsize cf) (flagMask cs) = flagMask cs" by auto
  then show "list_ex (\<lambda>f. role f = roleFlags \<and> take_bit (8 * fsize f) (flagMask cs) = flagMask cs) (cfields c)"
    using cf(1) assms(4) by (auto simp: list_ex_iff otherFields_def)
qed

lemma produces_distinct:
  "produces_check sn seen ps = [] \<Longrightarrow> distinct (map spName ps) \<and> spName ` set ps \<inter> seen = {}"
proof (induction ps arbitrary: seen)
  case (Cons p ps)
  have "produces_check sn (insert (spName p) seen) ps = []" "spName p \<notin> seen"
    using Cons.prems by (auto split: if_splits)
  from Cons.IH [OF this(1)] this(2) show ?case by auto
qed simp

lemma compiled_produces_distinct:
  assumes "compileStep st m rf si = Inr cs" "st \<in> set (Pipeline s)" "Validate s = []"
  shows "distinct (map pname (produces cs))"
proof -
  have "produces_check (stName st) {} (stProduces st) = []"
    using Validate_parts(8) [OF assms(3)] assms(2)
    by (auto simp: validatePipeline_def step_check_def split_beta Let_def)
  then show ?thesis using produces_distinct produce_names [OF compileStep_shape(5) [OF assms(1)]] by simp
qed

text \<open>The fields of a compiled codec are the compiled fields of the header.\<close>

lemma compiled_fields_wf:
  assumes V: "Validate s = []" and "small_ints s"
    and fs: "list_all2 (\<lambda>f cf. compileField de si pl f = Inr cf) (Header s) cfs"
    and c: "headerSize c = nat (HeaderSize (Frame s))" "lengthField c = lengthFieldOf cfs"
      "cfields c = otherFields cfs"
  shows "lengthField c \<in> set cfs \<and> role (lengthField c) = roleLength \<and>
    distinct (map fname (lengthField c # cfields c)) \<and>
    (\<forall>f \<in> set cfs. field_wf c f \<and> (\<forall>g \<in> set cfs. f \<noteq> g \<longrightarrow> fapart f g))"
proof -
  note src = list_all2_mem2 [OF fs]
  obtain f where "f \<in> set (Header s)" "Role f = ''length''"
  proof -
    have "filter (\<lambda>f. Role f = ''length'') (Header s) \<noteq> []"
      using Validate_parts(5) [OF V] by (auto simp: role_count_def)
    then show thesis using that by (auto simp: filter_empty_conv)
  qed
  then have "\<exists>cf \<in> set cfs. role cf = roleLength"
    using list_all2_mem1 [OF fs] compileField_shape(4) parseRole_eqs(1) by metis
  from length_field_found [OF this] c have len: "lengthField c \<in> set cfs" "role (lengthField c) = roleLength"
    by auto
  have names: "distinct (map fname cfs)"
    using names_distinct [OF Validate_parts(2) [OF V]] list_all2_maps [OF list_all2_mono [OF fs]]
    by (metis compileField_shape(5))
  have "distinct (map fname (lengthField c # cfields c))"
    using names len c by (auto simp: otherFields_def distinct_map inj_on_def)
  moreover have "field_wf c f" if "f \<in> set cfs" for f
    using src [OF that] accepted_placed [OF V assms(2)] compiled_field_wf c(1) by blast
  moreover have "fapart f g" if "f \<in> set cfs" "g \<in> set cfs" "f \<noteq> g" for f g
    using src [OF that(1)] src [OF that(2)] that(3) accepted_placed [OF V assms(2)]
      accepted_apart [OF V assms(2)] compiled_apart by (metis Inr_inject)
  ultimately show ?thesis using len by blast
qed

text \<open>Its steps are the compiled steps of the pipeline.\<close>

lemma compiled_steps_wf:
  assumes V: "Validate s = []"
    and fs: "list_all2 (\<lambda>f cf. compileField de six pl f = Inr cf) (Header s) cfs"
    and c: "cfields c = otherFields cfs"
    and st: "list_all2 (\<lambda>st cs. compileStep st (flagMaskByName (Header s)) rf (stepIdxOf (Pipeline s)) = Inr cs)
       (Pipeline s) (steps c)"
  shows "\<forall>cs \<in> set (steps c). impl_wf cs \<and> flag_wf c cs \<and> distinct (map pname (produces cs))
    \<and> appliesWithIdx (encodeWhen cs) < int (length (steps c))"
proof
  fix cs assume cs: "cs \<in> set (steps c)"
  then obtain st where st': "st \<in> set (Pipeline s)"
    "compileStep st (flagMaskByName (Header s)) rf (stepIdxOf (Pipeline s)) = Inr cs"
    using list_all2_mem2 [OF st] by blast
  have "Pipeline s \<noteq> []" "length (Pipeline s) = length (steps c)"
    using st'(1) list_all2_lengthD [OF st] by auto
  then show "impl_wf cs \<and> flag_wf c cs \<and> distinct (map pname (produces cs))
      \<and> appliesWithIdx (encodeWhen cs) < int (length (steps c))"
    using compiled_applies_idx [OF st'(2)] compileStep_shape(1,2) [OF st'(2)] lookupImpl_wf
      compiled_flag_wf [OF st'(2) V fs c] compiled_produces_distinct [OF st'(2,1) V] by simp
qed

lemma NewSchemaCodec_wf:
  assumes "NewSchemaCodec (Some s) em = Inr c" and "small_ints s"
  shows "codec_wf c"
proof -
  obtain de cfs where V: "Validate s = []"
    and fs: "list_all2 (\<lambda>f cf. compileField de (stepIdxOf (Pipeline s)) (stepProduces (Pipeline s)) f = Inr cf)
       (Header s) cfs"
    and hs: "headerSize c = nat (HeaderSize (Frame s))"
    and lf: "lengthField c = lengthFieldOf cfs" and cf: "cfields c = otherFields cfs"
    and seg: "parseRouteKeyTemplate (RouteKeyTmpl s) (routeFieldIdxOf (cfields c)) = Inr (routeKeySegs c)"
    and st: "list_all2 (\<lambda>st cs. compileStep st (flagMaskByName (Header s)) (routeFieldIdxOf (cfields c))
       (stepIdxOf (Pipeline s)) = Inr cs) (Pipeline s) (steps c)"
    by (rule NewSchemaCodec_parts [OF assms(1)])
  note F = compiled_fields_wf [OF V assms(2) fs hs lf cf]
  note S = compiled_steps_wf [OF V fs cf st]
  have mem: "set (lengthField c # cfields c) \<subseteq> set cfs" using F cf by (auto simp: otherFields_def)
  have "distinct (map stName (Pipeline s))"
    using step_names_distinct [of Map.empty 0 "Pipeline s"] Validate_parts(8) [OF V]
    by (auto simp: validatePipeline_def split_beta Let_def)
  then have "ref_wf c f" if "f \<in> set cfs" for f
    using list_all2_mem2 [OF fs that] compiled_ref_wf [OF _ Validate_parts(4) [OF V] _ st] by blast
  moreover have "list_all (seg_wf c) (routeKeySegs c)"
    using seg routeFieldIdx_ok unfolding parseRouteKeyTemplate_def by (blast intro: template_segs_wf)
  moreover have "0 < headerSize c"
    using Validate_parts(1) [OF V] hs by (auto simp: validateBase_def split: if_splits)
  ultimately show ?thesis using F S mem cf unfolding codec_wf_def list_all_iff
    by (auto simp: otherFields_def)
qed

text \<open>
  The repository's own TCP codec (\<open>src/protocol/codec/testdata/tcp_logic_codec.json\<close>), and the
  codec it compiles to.
\<close>

definition plain_field :: "string \<Rightarrow> string \<Rightarrow> int \<Rightarrow> int \<Rightarrow> string \<Rightarrow> Field" where
  "plain_field n t off sz r = \<lparr>Name = n, Type = t, Endian = '''', Offset = off, Size = sz, Role = r,
     Bits = [], From = '''', Source = None\<rparr>"

definition tcp_logic_schema :: Schema where
  "tcp_logic_schema =
    \<lparr>Version = 1, EndianDefault = ''le'',
     Frame = \<lparr>HeaderSize = 12, TrailerSize = 0, LengthIncludesHeader = False, LengthIncludesTrailer = False\<rparr>,
     Header = [
       (plain_field ''bodyLen'' ''u32'' 0 4 ''length'')\<lparr>Endian := ''le''\<rparr>,
       plain_field ''errCode'' ''u16'' 4 2 ''errorCode'',
       plain_field ''cmd'' ''u8'' 6 1 ''route'',
       plain_field ''act'' ''u8'' 7 1 ''route'',
       (plain_field ''index'' ''u16'' 8 2 ''value'')\<lparr>Source := Some \<lparr>vsKind = ''const'', vsValue = 0, vsKey = ''''\<rparr>\<rparr>,
       (plain_field ''flags'' ''u8'' 10 1 ''flags'')\<lparr>Bits := [\<lparr>fbName = ''encrypted'', fbBit = 0\<rparr>,
          \<lparr>fbName = ''compressed'', fbBit = 1\<rparr>]\<rparr>,
       (plain_field ''bcc'' ''u8'' 11 1 ''checksumOut'')\<lparr>From := ''enc.bcc''\<rparr>],
     RouteKeyTmpl = ''{cmd}:{act}'',
     Pipeline = [
       \<lparr>stOp = ''compress'', stName = ''gz'', stAlgo = ''gzip'', stFlag = ''compressed'', stParams = Map.empty,
        stKeyLen = 0, stOffset = None, stProduces = [], stOver = None, stOnError = ''fail'',
        stWhen = Some \<lparr>MinBodyLen = 2048, OnlySmaller = True, RequireKey = False, AppliesWith = '''', Guards = []\<rparr>\<rparr>,
       \<lparr>stOp = ''encrypt'', stName = ''enc'', stAlgo = ''xor_carry_rol'', stFlag = ''encrypted'',
        stParams = [''rol'' \<mapsto> VF64 (Fin 3)], stKeyLen = 32,
        stOffset = Some \<lparr>soEncode = 0, soDecode = 0\<rparr>,
        stProduces = [\<lparr>spName = ''bcc'', spAlgo = ''xor8'', spRegion = ''ciphered''\<rparr>], stOver = None,
        stOnError = ''fail'',
        stWhen = Some \<lparr>MinBodyLen = 1, OnlySmaller = False, RequireKey = True, AppliesWith = '''',
          Guards = [\<lparr>gField = ''cmd'', gOp = ''neq'', gValue = 0\<rparr>]\<rparr>\<rparr>],
     Heartbeat = None\<rparr>"

definition tcp_logic :: SchemaCodec where
  "tcp_logic = projr (NewSchemaCodec (Some tcp_logic_schema) None)"

lemma tcp_logic_valid: "Validate tcp_logic_schema = []"
  by code_simp

lemma tcp_logic_compiles: "NewSchemaCodec (Some tcp_logic_schema) None = Inr tcp_logic"
proof -
  have "\<not> isl (NewSchemaCodec (Some tcp_logic_schema) None)" by code_simp
  then show ?thesis by (cases "NewSchemaCodec (Some tcp_logic_schema) None") (auto simp: tcp_logic_def)
qed

lemma tcp_logic_small: "small_ints tcp_logic_schema"
  by code_simp

text \<open>
  C23. A codec that compiles is well formed: whatever the schema, as long as its offsets and sizes
  do not overflow when added, an accepted schema compiles to a codec whose fields lie inside the
  header without sharing a byte, whose route key refers to route fields only, whose checksum
  references point to products of existing steps, whose flag bits fit a flags field and whose
  steps all have an implementation of their own operation.
\<close>

theorem compiled_codec_wf:
  assumes "NewSchemaCodec (Some s) em = Inr c" and "small_ints s"
  shows "codec_wf c"
  by (rule NewSchemaCodec_wf [OF assms])

theorem compiled_codec_wf_witness: "codec_wf tcp_logic"
  by (rule compiled_codec_wf [OF tcp_logic_compiles tcp_logic_small])

end
