(* ===== verification/ContentLRU.thy ===== *)
theory ContentLRU
  imports CodecBytes "HOL-Library.Multiset"
begin

text \<open>
  The content-addressed store behind the caches of decoded data
  (\<open>src/internal/lru/content_lru.go\<close>): hash buckets for the search and one list in order of use,
  bounded by the number of entries and by their total cost.  An entry is shared by its bucket
  and by the list: \<open>eid\<close> is its identity (the pointer).  The invariant ties the two structures
  together; the locale \<open>content_cache\<close> states what the store promises to the caches built on it.
\<close>

record ('k, 'v) lruEntry =
  eid :: nat
  ekey :: 'k
  ehash :: u64
  evalue :: 'v
  ecost :: int

record ('k, 'v) contentLRU =
  buckets :: "u64 \<rightharpoonup> ('k, 'v) lruEntry list"
  lru :: "('k, 'v) lruEntry list"
  curCost :: int
  maxEntries :: int
  maxCost :: int
  hits :: nat
  misses :: nat
  evictions :: nat
  nextId :: nat

definition New :: "int \<Rightarrow> int \<Rightarrow> ('k, 'v) contentLRU" where
  "New maxE maxC = \<lparr>buckets = Map.empty, lru = [], curCost = 0, maxEntries = maxE, maxCost = maxC,
     hits = 0, misses = 0, evictions = 0, nextId = 0\<rparr>"

definition bucket :: "('k, 'v) contentLRU \<Rightarrow> u64 \<Rightarrow> ('k, 'v) lruEntry list" where
  "bucket c h = (case buckets c h of None \<Rightarrow> [] | Some es \<Rightarrow> es)"

lemma bucket_update [simp]:
  "bucket (c\<lparr>lru := l\<rparr>) h = bucket c h" "bucket (c\<lparr>hits := n\<rparr>) h = bucket c h"
  "bucket (c\<lparr>misses := n\<rparr>) h = bucket c h"
  by (simp_all add: bucket_def)

definition MoveToFront :: "('k, 'v) lruEntry \<Rightarrow> ('k, 'v) lruEntry list \<Rightarrow> ('k, 'v) lruEntry list" where
  "MoveToFront e es = e # filter (\<lambda>x. eid x \<noteq> eid e) es"

text \<open>
  The equality test injected at construction is an argument; the codec and the wire cache both
  inject full equality of the keys.
\<close>

definition Lookup ::
  "('k \<Rightarrow> 'k \<Rightarrow> bool) \<Rightarrow> ('k, 'v) contentLRU \<Rightarrow> u64 \<Rightarrow> 'k \<Rightarrow> 'v option \<times> ('k, 'v) contentLRU" where
  "Lookup equalFn c h key =
    (case find (\<lambda>e. equalFn (ekey e) key) (bucket c h) of
       Some e \<Rightarrow> (Some (evalue e), c\<lparr>lru := MoveToFront e (lru c), hits := hits c + 1\<rparr>)
     | None \<Rightarrow> (None, c\<lparr>misses := misses c + 1\<rparr>))"

text \<open>A bucket gives up an entry by overwriting it with its last one.\<close>

definition swap_remove :: "nat \<Rightarrow> ('k, 'v) lruEntry list \<Rightarrow> ('k, 'v) lruEntry list" where
  "swap_remove v es =
    (case find (\<lambda>i. eid (es ! i) = v) [0..<length es] of
       None \<Rightarrow> es
     | Some i \<Rightarrow> butlast (es[i := last es]))"

definition evictOldest :: "('k, 'v) contentLRU \<Rightarrow> ('k, 'v) contentLRU" where
  "evictOldest c =
    (if lru c = [] then c
     else let victim = last (lru c); b = swap_remove (eid victim) (bucket c (ehash victim))
       in c\<lparr>lru := butlast (lru c), evictions := evictions c + 1, curCost := curCost c - ecost victim,
            buckets := (buckets c)(ehash victim := if b = [] then None else Some b)\<rparr>)"

definition over_bounds :: "('k, 'v) contentLRU \<Rightarrow> bool" where
  "over_bounds c \<longleftrightarrow>
     (int (length (lru c)) > maxEntries c \<or> curCost c > maxCost c) \<and> length (lru c) > 1"

function evict_loop :: "('k, 'v) contentLRU \<Rightarrow> ('k, 'v) contentLRU" where
  "evict_loop c = (if over_bounds c then evict_loop (evictOldest c) else c)"
  by pat_completeness auto
termination
  by (relation "measure (\<lambda>c. length (lru c))") (auto simp: over_bounds_def evictOldest_def Let_def)

declare evict_loop.simps [simp del]

definition Insert ::
  "('k \<Rightarrow> 'k \<Rightarrow> bool) \<Rightarrow> ('k, 'v) contentLRU \<Rightarrow> 'k \<Rightarrow> u64 \<Rightarrow> 'v \<Rightarrow> int \<Rightarrow> 'v \<times> ('k, 'v) contentLRU" where
  "Insert equalFn c key h value cost =
    (case find (\<lambda>e. equalFn (ekey e) key) (bucket c h) of
       Some e \<Rightarrow> (evalue e, c\<lparr>lru := MoveToFront e (lru c)\<rparr>)
     | None \<Rightarrow>
        (let e = \<lparr>eid = nextId c, ekey = key, ehash = h, evalue = value, ecost = cost\<rparr>;
             c1 = c\<lparr>lru := e # lru c, buckets := (buckets c)(h \<mapsto> bucket c h @ [e]),
                    curCost := curCost c + cost, nextId := nextId c + 1\<rparr>
         in (value, evict_loop c1)))"

definition Purge :: "('k, 'v) contentLRU \<Rightarrow> ('k, 'v) contentLRU" where
  "Purge c = c\<lparr>buckets := Map.empty, lru := [], curCost := 0\<rparr>"

record lruStats =
  sHits :: nat  sMisses :: nat  sEvictions :: nat  sEntries :: nat  sCost :: int

definition Stats :: "('k, 'v) contentLRU \<Rightarrow> lruStats" where
  "Stats c = \<lparr>sHits = hits c, sMisses = misses c, sEvictions = evictions c,
     sEntries = length (lru c), sCost = curCost c\<rparr>"

subsection \<open>The invariant\<close>

text \<open>
  The list and the buckets hold the same entries, each once; the cost is the sum; an empty bucket
  is not kept; the bounds hold unless a single entry is left; no two entries have equal keys.
\<close>

definition linked :: "('k, 'v) contentLRU \<Rightarrow> bool" where
  "linked c \<longleftrightarrow>
     distinct (map eid (lru c)) \<and>
     (\<forall>h. distinct (map eid (bucket c h)) \<and> set (bucket c h) = {e \<in> set (lru c). ehash e = h}) \<and>
     (\<forall>h. buckets c h \<noteq> Some []) \<and>
     curCost c = (\<Sum>e\<leftarrow>lru c. ecost e) \<and>
     (\<forall>e \<in> set (lru c). eid e < nextId c)"

definition within_bounds :: "('k, 'v) contentLRU \<Rightarrow> bool" where
  "within_bounds c \<longleftrightarrow>
     (int (length (lru c)) \<le> maxEntries c \<and> curCost c \<le> maxCost c) \<or> length (lru c) \<le> 1"

definition one_per_key :: "('k, 'v) contentLRU \<Rightarrow> bool" where
  "one_per_key c \<longleftrightarrow> distinct (map (\<lambda>e. (ehash e, ekey e)) (lru c))"

definition lru_inv :: "('k, 'v) contentLRU \<Rightarrow> bool" where
  "lru_inv c \<longleftrightarrow> linked c \<and> within_bounds c \<and> one_per_key c"

lemma lru_inv_New: "0 \<le> maxE \<Longrightarrow> 0 \<le> maxC \<Longrightarrow> lru_inv (New maxE maxC)"
  by (simp add: lru_inv_def linked_def within_bounds_def one_per_key_def New_def bucket_def)

lemma lru_inv_Purge: "lru_inv c \<Longrightarrow> lru_inv (Purge c)"
  by (simp add: lru_inv_def linked_def within_bounds_def one_per_key_def Purge_def bucket_def)

subsection \<open>Every operation keeps it\<close>

lemma distinct_map_mset: "mset xs = mset ys \<Longrightarrow> distinct (map f xs) = distinct (map f ys)"
  using mset_eq_imp_distinct_iff [of "map f xs" "map f ys"] by simp

lemma mset_swap_remove:
  assumes "e \<in> set es" and "distinct (map eid es)"
  shows "mset (swap_remove (eid e) es) = mset es - {#e#}"
proof -
  obtain k where k: "k < length es" "es ! k = e" using assms(1) by (auto simp: in_set_conv_nth)
  have "find (\<lambda>i. eid (es ! i) = eid e) [0..<length es] \<noteq> None"
    using k by (auto simp: find_None_iff)
  then obtain i where i: "find (\<lambda>i. eid (es ! i) = eid e) [0..<length es] = Some i" by auto
  then have lt: "i < length es" and "eid (es ! i) = eid e" by (auto simp: find_Some_iff)
  then have ie: "es ! i = e"
    using assms k by (metis distinct_conv_nth length_map nth_map)
  obtain xs y where es: "es = xs @ [y]" using lt by (cases es rule: rev_cases) auto
  have "mset (butlast (es[i := last es])) = mset es - {#e#}"
  proof (cases "i = length xs")
    case True
    then show ?thesis using ie by (simp add: es nth_append)
  next
    case False
    then have "i < length xs" "xs ! i = e" using lt ie by (simp_all add: es nth_append)
    then have "mset (xs[i := y]) = mset xs - {#e#} + {#y#}" and "e \<in># mset xs"
      by (auto simp: mset_update)
    then show ?thesis using \<open>i < length xs\<close> by (simp add: es list_update_append butlast_append)
  qed
  then show ?thesis by (simp add: swap_remove_def i)
qed

lemma swap_remove_set:
  assumes "e \<in> set es" and "distinct (map eid es)"
  shows "distinct (map eid (swap_remove (eid e) es)) \<and> set (swap_remove (eid e) es) = set es - {e}"
proof -
  have "distinct es" using assms(2) by (simp add: distinct_map)
  have m: "mset (swap_remove (eid e) es) = mset (remove1 e es)"
    using mset_swap_remove [OF assms] by simp
  have "distinct (map eid (remove1 e es))"
    using assms(2) notin_set_remove1 by (fastforce simp: distinct_map inj_on_def)
  then have "distinct (map eid (swap_remove (eid e) es))" using distinct_map_mset [OF m, of eid] by simp
  then show ?thesis using \<open>distinct es\<close> mset_eq_setD [OF m] by simp
qed

lemma linked_evict:
  assumes "linked c" and "lru c \<noteq> []"
  shows "linked (evictOldest c)"
proof -
  obtain ls v where ls: "lru c = ls @ [v]" using assms(2) by (cases "lru c" rule: rev_cases) auto
  let ?c = "evictOldest c"
  have d: "distinct (map eid (ls @ [v]))" and vc: "v \<in> set (bucket c (ehash v))"
    and b: "distinct (map eid (bucket c h))" "set (bucket c h) = {e \<in> set (ls @ [v]). ehash e = h}" for h
    using assms(1) by (auto simp: linked_def ls)
  have vls: "v \<notin> set ls" using d by auto
  note sr = swap_remove_set [OF vc b(1)]
  have lru: "lru ?c = ls" by (simp add: evictOldest_def Let_def ls)
  have bu: "bucket ?c h = (if h = ehash v then swap_remove (eid v) (bucket c h) else bucket c h)" for h
    by (auto simp: evictOldest_def Let_def ls bucket_def)
  have "buckets ?c h \<noteq> Some []" for h
    using assms(1) by (auto simp: evictOldest_def Let_def ls linked_def)
  moreover have "distinct (map eid (bucket ?c h)) \<and> set (bucket ?c h) = {e \<in> set ls. ehash e = h}" for h
    using sr b [of h] vls by (auto simp: bu)
  moreover have "curCost ?c = (\<Sum>e\<leftarrow>ls. ecost e)" and "nextId ?c = nextId c"
    using assms(1) by (auto simp: evictOldest_def Let_def ls linked_def)
  ultimately show ?thesis using assms(1) d unfolding linked_def lru by (auto simp: ls)
qed

lemma evict_loop_induct:
  assumes "P c" and "\<And>c. P c \<Longrightarrow> over_bounds c \<Longrightarrow> P (evictOldest c)"
  shows "P (evict_loop c) \<and> \<not> over_bounds (evict_loop c)"
  using assms(1)
proof (induction c rule: evict_loop.induct)
  case (1 c)
  then show ?case
    by (cases "over_bounds c") (auto simp: evict_loop.simps [of c] intro: assms(2))
qed

lemma evictOldest_fields [simp]:
  "maxEntries (evictOldest c) = maxEntries c" "maxCost (evictOldest c) = maxCost c"
  "set (lru (evictOldest c)) \<subseteq> set (lru c)"
  by (auto simp: evictOldest_def Let_def dest: in_set_butlastD)

lemma one_per_key_evict: "one_per_key c \<Longrightarrow> one_per_key (evictOldest c)"
  by (auto simp: one_per_key_def evictOldest_def Let_def map_butlast distinct_butlast)

lemma evict_loop_inv:
  assumes "linked c" and "one_per_key c"
  shows "lru_inv (evict_loop c) \<and> set (lru (evict_loop c)) \<subseteq> set (lru c)"
proof -
  let ?P = "\<lambda>d. linked d \<and> one_per_key d \<and> set (lru d) \<subseteq> set (lru c)"
  have "?P (evict_loop c) \<and> \<not> over_bounds (evict_loop c)"
  proof (rule evict_loop_induct [where P = ?P])
    fix d assume "?P d" "over_bounds d"
    moreover from \<open>over_bounds d\<close> have "lru d \<noteq> []" by (auto simp: over_bounds_def)
    ultimately show "?P (evictOldest d)"
      using linked_evict [of d] one_per_key_evict [of d] evictOldest_fields(3) [of d]
      by (meson order_trans)
  qed (use assms in auto)
  then show ?thesis by (auto simp: lru_inv_def within_bounds_def over_bounds_def)
qed

lemma mset_MoveToFront:
  assumes "e \<in> set es" and "distinct (map eid es)"
  shows "mset (MoveToFront e es) = mset es"
proof -
  have "filter (\<lambda>x. eid x \<noteq> eid e) es = remove1 e es"
    using assms
  proof (induction es)
    case (Cons x es)
    then show ?case
      by (cases "x = e") (auto simp: filter_id_conv, metis image_eqI)
  qed simp
  then show ?thesis using assms(1) by (simp add: MoveToFront_def)
qed

lemma lru_inv_touch:
  assumes "lru_inv c" and "e \<in> set (bucket c h)"
  shows "lru_inv (c\<lparr>lru := MoveToFront e (lru c)\<rparr>) \<and> lru_inv (c\<lparr>lru := MoveToFront e (lru c), hits := n\<rparr>)
    \<and> set (MoveToFront e (lru c)) = set (lru c)"
proof -
  have e: "e \<in> set (lru c)" and d: "distinct (map eid (lru c))"
    using assms by (auto simp: lru_inv_def linked_def)
  have m: "mset (MoveToFront e (lru c)) = mset (lru c)" by (rule mset_MoveToFront [OF e d])
  have st: "set (MoveToFront e (lru c)) = set (lru c)" by (rule mset_eq_setD [OF m])
  have ln: "length (MoveToFront e (lru c)) = length (lru c)" by (rule mset_eq_length [OF m])
  have dd: "distinct (map eid (MoveToFront e (lru c))) = distinct (map eid (lru c))"
    "distinct (map (\<lambda>e. (ehash e, ekey e)) (MoveToFront e (lru c)))
     = distinct (map (\<lambda>e. (ehash e, ekey e)) (lru c))"
    by (rule distinct_map_mset [OF m])+
  have sm: "(\<Sum>x\<leftarrow>MoveToFront e (lru c). ecost x) = (\<Sum>x\<leftarrow>lru c. ecost x)"
    using m by (metis mset_map sum_mset_sum_list)
  show ?thesis
    using assms(1) d dd sm ln st
    by (auto simp: lru_inv_def linked_def within_bounds_def one_per_key_def)
qed

lemma lru_inv_Lookup:
  assumes "lru_inv c" and "Lookup eq c h key = (r, c')"
  shows "lru_inv c' \<and> set (lru c') = set (lru c)"
proof (cases "find (\<lambda>e. eq (ekey e) key) (bucket c h)")
  case None
  then show ?thesis using assms
    by (auto simp: Lookup_def lru_inv_def linked_def within_bounds_def one_per_key_def)
next
  case (Some e)
  then have "e \<in> set (bucket c h)" by (auto simp: find_Some_iff)
  then show ?thesis using lru_inv_touch [OF assms(1)] assms(2) Some by (auto simp: Lookup_def)
qed

text \<open>With full equality of the keys as the test, a hit is the value stored for that key.\<close>

lemma Lookup_hit:
  assumes "lru_inv c" and "Lookup (=) c h key = (Some v, c')"
  shows "\<exists>e \<in> set (lru c). ekey e = key \<and> ehash e = h \<and> evalue e = v"
proof -
  obtain e where "find (\<lambda>e. ekey e = key) (bucket c h) = Some e" "v = evalue e"
    using assms(2) by (auto simp: Lookup_def split: option.splits)
  then have "e \<in> set (bucket c h)" "ekey e = key" "v = evalue e" by (auto simp: find_Some_iff)
  then show ?thesis using assms(1) by (auto simp: lru_inv_def linked_def)
qed

lemma Insert_spec:
  assumes "lru_inv c" and "Insert (=) c key h v n = (w, c')"
  shows "lru_inv c' \<and>
    (\<forall>e \<in> set (lru c'). e \<in> set (lru c) \<or> (ekey e = key \<and> ehash e = h \<and> evalue e = v)) \<and>
    (w = v \<or> (\<exists>e \<in> set (lru c). ekey e = key \<and> ehash e = h \<and> evalue e = w))"
proof (cases "find (\<lambda>e. ekey e = key) (bucket c h)")
  case (Some e)
  then have e: "e \<in> set (bucket c h)" "ekey e = key" by (auto simp: find_Some_iff)
  then have "e \<in> set (lru c)" "ehash e = h" using assms(1) by (auto simp: lru_inv_def linked_def)
  moreover have "w = evalue e" "c' = c\<lparr>lru := MoveToFront e (lru c)\<rparr>"
    using assms(2) Some by (auto simp: Insert_def)
  moreover have "lru_inv (c\<lparr>lru := MoveToFront e (lru c)\<rparr>)" "set (MoveToFront e (lru c)) = set (lru c)"
    using lru_inv_touch [OF assms(1) e(1)] by auto
  ultimately show ?thesis using e(2) by auto
next
  case None
  define e where "e = \<lparr>eid = nextId c, ekey = key, ehash = h, evalue = v, ecost = n\<rparr>"
  define c1 where "c1 = c\<lparr>lru := e # lru c, buckets := (buckets c)(h \<mapsto> bucket c h @ [e]),
                    curCost := curCost c + n, nextId := nextId c + 1\<rparr>"
  have c': "w = v" "c' = evict_loop c1"
    using assms(2) None by (auto simp: Insert_def c1_def e_def Let_def)
  have bu: "bucket c1 g = (if g = h then bucket c h @ [e] else bucket c g)" for g
    by (simp add: c1_def bucket_def)
  have e: "lru c1 = e # lru c" "ehash e = h" by (simp_all add: c1_def e_def)
  have L: "linked c" "one_per_key c" using assms(1) by (auto simp: lru_inv_def)
  have fresh: "eid e \<notin> eid ` set (lru c)"
    using L(1) by (auto simp: linked_def e_def)
  have "linked c1"
    unfolding linked_def
  proof (intro conjI allI)
    show "distinct (map eid (lru c1))" using L(1) fresh by (auto simp: linked_def c1_def)
    show "distinct (map eid (bucket c1 g))" for g using L(1) fresh by (auto simp: bu linked_def)
    show "set (bucket c1 g) = {x \<in> set (lru c1). ehash x = g}" for g
      using L(1) e by (auto simp: bu linked_def)
    show "buckets c1 g \<noteq> Some []" for g using L(1) by (simp add: c1_def linked_def)
    show "curCost c1 = (\<Sum>x\<leftarrow>lru c1. ecost x)" using L(1) by (simp add: c1_def e_def linked_def)
    show "\<forall>x \<in> set (lru c1). eid x < nextId c1" using L(1) by (auto simp: c1_def e_def linked_def)
  qed
  moreover have "one_per_key c1"
  proof -
    have "\<not> (ehash x = h \<and> ekey x = key)" if "x \<in> set (lru c)" for x
      using L(1) that None by (auto simp: linked_def find_None_iff)
    then show ?thesis using L(2) by (auto simp: one_per_key_def c1_def e_def)
  qed
  ultimately have "lru_inv (evict_loop c1)" "set (lru (evict_loop c1)) \<subseteq> set (lru c1)"
    using evict_loop_inv by blast+
  then show ?thesis using c' by (auto simp: c1_def e_def)
qed

subsection \<open>What the store promises to a cache\<close>

text \<open>
  A cache is told apart by what it holds: a hit returns a value held for that very key, and an
  insertion adds at most the pair it was given (others may be evicted).  \<open>P\<close> is any relation
  between keys and values the cache's client maintains, such as ``the value was computed from the
  key''.
\<close>

locale content_cache =
  fixes lookup :: "'c \<Rightarrow> 'k \<Rightarrow> 'v option \<times> 'c"
    and insert_new :: "'c \<Rightarrow> 'k \<Rightarrow> 'v \<Rightarrow> 'v \<times> 'c"
    and holds :: "'c \<Rightarrow> ('k \<times> 'v) set"
    and inv :: "'c \<Rightarrow> bool"
  assumes lookup_keeps: "inv c \<Longrightarrow> lookup c k = (r, c') \<Longrightarrow> inv c' \<and> holds c' = holds c"
    and lookup_hit: "inv c \<Longrightarrow> lookup c k = (Some v, c') \<Longrightarrow> (k, v) \<in> holds c"
    and insert_keeps: "inv c \<Longrightarrow> insert_new c k v = (w, c') \<Longrightarrow>
      inv c' \<and> holds c' \<subseteq> insert (k, v) (holds c)"
    and insert_value: "inv c \<Longrightarrow> insert_new c k v = (w, c') \<Longrightarrow> w = v \<or> (k, w) \<in> holds c"
begin

lemma sound_lookup:
  assumes "inv c" and "\<forall>(k, v) \<in> holds c. P k v" and "lookup c k = (r, c')"
  shows "inv c' \<and> (\<forall>(k, v) \<in> holds c'. P k v) \<and> (\<forall>v. r = Some v \<longrightarrow> P k v)"
  using lookup_keeps [OF assms(1,3)] lookup_hit [OF assms(1)] assms by blast

lemma sound_insert:
  assumes "inv c" and "\<forall>(k, v) \<in> holds c. P k v" and "P k v" and "insert_new c k v = (w, c')"
  shows "inv c' \<and> (\<forall>(k, v) \<in> holds c'. P k v) \<and> P k w"
  using insert_keeps [OF assms(1,4)] insert_value [OF assms(1,4)] assms by blast

end

definition lru_holds :: "('k \<Rightarrow> u64) \<Rightarrow> ('k, 'v) contentLRU \<Rightarrow> ('k \<times> 'v) set" where
  "lru_holds hash c = {(ekey e, evalue e) | e. e \<in> set (lru c) \<and> ehash e = hash (ekey e)}"

interpretation clru: content_cache
  "\<lambda>c k. Lookup (=) c (hash k) k" "\<lambda>c k v. Insert (=) c k (hash k) v (cost k v)"
  "lru_holds hash" lru_inv
  for hash :: "'k \<Rightarrow> u64" and cost :: "'k \<Rightarrow> 'v \<Rightarrow> int"
proof
  fix c :: "('k, 'v) contentLRU" and k :: 'k and r c'
  assume a: "lru_inv c" "Lookup (=) c (hash k) k = (r, c')"
  show "lru_inv c' \<and> lru_holds hash c' = lru_holds hash c"
    using lru_inv_Lookup [OF a] by (auto simp: lru_holds_def)
next
  fix c :: "('k, 'v) contentLRU" and k :: 'k and v c'
  assume "lru_inv c" "Lookup (=) c (hash k) k = (Some v, c')"
  then show "(k, v) \<in> lru_holds hash c"
    using Lookup_hit by (fastforce simp: lru_holds_def)
next
  fix c :: "('k, 'v) contentLRU" and k :: 'k and v w c'
  assume a: "lru_inv c" "Insert (=) c k (hash k) v (cost k v) = (w, c')"
  show "lru_inv c' \<and> lru_holds hash c' \<subseteq> insert (k, v) (lru_holds hash c)"
    using Insert_spec [OF a] by (auto simp: lru_holds_def)
  show "w = v \<or> (k, w) \<in> lru_holds hash c"
    using Insert_spec [OF a] by (auto simp: lru_holds_def)
qed

subsection \<open>Properties\<close>

text \<open>
  The calls a client makes, in the order the mutex serialises them.
\<close>

datatype ('k, 'v) lruOp = OpLookup 'k | OpInsert 'k 'v int | OpPurge

fun lru_step :: "('k \<Rightarrow> u64) \<Rightarrow> ('k, 'v) lruOp \<Rightarrow> ('k, 'v) contentLRU \<Rightarrow> ('k, 'v) contentLRU" where
  "lru_step hash (OpLookup k) c = snd (Lookup (=) c (hash k) k)"
| "lru_step hash (OpInsert k v n) c = snd (Insert (=) c k (hash k) v n)"
| "lru_step hash OpPurge c = Purge c"

interpretation lrus: op_system "lru_step hash" lru_inv "\<lambda>_. True"
  for hash :: "'k \<Rightarrow> u64"
proof
  fix c :: "('k, 'v) contentLRU" and op assume c: "lru_inv c"
  show "lru_inv (lru_step hash op c)"
  proof (cases op)
    case (OpLookup k)
    then show ?thesis using lru_inv_Lookup [OF c surjective_pairing] by simp
  next
    case (OpInsert k v n)
    then show ?thesis using Insert_spec [OF c surjective_pairing] by simp
  qed (simp add: lru_inv_Purge c)
qed

text \<open>
  C29. Through any sequence of lookups, insertions and purges the store keeps its invariant: list
  and buckets hold the same entries, each once and at most one per key, the recorded cost is the
  sum of the entries' costs, and both bounds hold unless a single oversized entry is left.
\<close>

theorem lru_consistent:
  assumes "0 \<le> maxE" and "0 \<le> maxC"
  shows "lru_inv (fold (lru_step hash) ops (New maxE maxC))"
  by (rule lrus.run_inv) (use assms in \<open>auto simp: lru_inv_New list_all_iff\<close>)

theorem lru_consistent_witness:
  "lru_inv (fold (lru_step (\<lambda>k. k)) [OpInsert 7 ''a'' 3, OpInsert 8 ''b'' 3, OpLookup 7] (New 2 5))"
  by (rule lru_consistent) simp_all

end
