(* ===== verification/DedupCaches.thy ===== *)
theory DedupCaches
  imports ContentLRU CodecDigest
begin

text \<open>
  The caches built on the content-addressed store: the shared decompression results
  (\<open>src/protocol/codec/inflate_cache.go\<close>), the shared wire values of broadcasts
  (\<open>src/protocol/protox/dedup.go\<close>), and the table of interned route keys
  (\<open>src/protocol/codec/intern.go\<close>).  The hash functions are seeded at random when the process
  starts and are arguments here: nothing depends on them.  The lemmas show that a cached answer
  is the answer the computation would give.
\<close>

subsection \<open>Decompression results\<close>

definition inflateDedupMinBytes :: nat where "inflateDedupMinBytes = 1024"
definition inflateCacheMaxEntries :: int where "inflateCacheMaxEntries = 1024"
definition inflateCacheMaxBytes :: int where "inflateCacheMaxBytes = 48 * 2 ^ 20"
definition inflateMarkerCap :: nat where "inflateMarkerCap = 8192"

text \<open>\<open>markers\<close> is the set of hashes seen once, without repetition.\<close>

record inflateCache =
  store :: "(bytes, bytes) contentLRU"
  markers :: "u64 list"

definition newInflateCache :: "int \<Rightarrow> int \<Rightarrow> inflateCache" where
  "newInflateCache maxE maxB = \<lparr>store = New maxE maxB, markers = []\<rparr>"

definition sharedInflateCache :: inflateCache where
  "sharedInflateCache = newInflateCache inflateCacheMaxEntries inflateCacheMaxBytes"

definition inflate_get :: "(bytes \<Rightarrow> u64) \<Rightarrow> inflateCache \<Rightarrow> bytes \<Rightarrow> bytes option \<times> inflateCache" where
  "inflate_get hash c packed =
    (let (r, s) = Lookup (=) (store c) (hash packed) packed in (r, c\<lparr>store := s\<rparr>))"

definition inflate_put :: "(bytes \<Rightarrow> u64) \<Rightarrow> inflateCache \<Rightarrow> bytes \<Rightarrow> bytes \<Rightarrow> inflateCache" where
  "inflate_put hash c packed out =
    (let h = hash packed in
     if h \<notin> set (markers c) then
       c\<lparr>markers := h # (if length (markers c) \<ge> inflateMarkerCap then [] else markers c)\<rparr>
     else c\<lparr>markers := removeAll h (markers c),
            store := snd (Insert (=) (store c) packed h out (int (length packed) + int (length out)))\<rparr>)"

text \<open>Every pair the cache holds was computed by the decompressor \<open>D\<close>.\<close>

definition inflate_sound :: "(bytes \<Rightarrow> u64) \<Rightarrow> (bytes \<Rightarrow> bytes option) \<Rightarrow> inflateCache \<Rightarrow> bool" where
  "inflate_sound hash D c \<longleftrightarrow>
     lru_inv (store c) \<and> (\<forall>(k, v) \<in> lru_holds hash (store c). D k = Some v) \<and>
     distinct (markers c) \<and> length (markers c) \<le> inflateMarkerCap"

lemma inflate_sound_new: "0 \<le> e \<Longrightarrow> 0 \<le> b \<Longrightarrow> inflate_sound hash D (newInflateCache e b)"
  by (simp add: inflate_sound_def newInflateCache_def lru_inv_New) (simp add: lru_holds_def New_def)

lemma inflate_sound_get:
  assumes "inflate_sound hash D c" and "inflate_get hash c packed = (r, c')"
  shows "inflate_sound hash D c' \<and> (\<forall>out. r = Some out \<longrightarrow> D packed = Some out)"
proof -
  obtain s where s: "Lookup (=) (store c) (hash packed) packed = (r, s)" "c' = c\<lparr>store := s\<rparr>"
    using assms(2) by (auto simp: inflate_get_def split: prod.splits)
  show ?thesis
    using clru.sound_lookup [of "store c" hash "\<lambda>k v. D k = Some v", OF _ _ s(1)] assms(1) s(2)
    by (auto simp: inflate_sound_def)
qed

lemma inflate_sound_put:
  assumes "inflate_sound hash D c" and "D packed = Some out"
  shows "inflate_sound hash D (inflate_put hash c packed out)"
proof (cases "hash packed \<in> set (markers c)")
  case False
  then show ?thesis using assms(1)
    by (auto simp: inflate_sound_def inflate_put_def Let_def inflateMarkerCap_def)
next
  case True
  obtain w s where s:
    "Insert (=) (store c) packed (hash packed) out (int (length packed) + int (length out)) = (w, s)"
    by fastforce
  have "lru_inv s \<and> (\<forall>(k, v) \<in> lru_holds hash s. D k = Some v)"
    using clru.sound_insert [of "store c" hash "\<lambda>k v. D k = Some v" packed out
        "\<lambda>k v. int (length k) + int (length v)", OF _ _ _ s] assms
    by (auto simp: inflate_sound_def)
  moreover have "length (removeAll (hash packed) (markers c)) \<le> inflateMarkerCap"
    using assms(1) by (meson inflate_sound_def le_trans length_removeAll_less_eq)
  ultimately show ?thesis using True assms(1) s
    by (auto simp: inflate_sound_def inflate_put_def Let_def distinct_removeAll)
qed

subsection \<open>Shared wire values\<close>

type_synonym wireKey = "string \<times> bytes"

text \<open>
  A wire value is the message descriptor and the snapshot of the bytes.  The descriptor registry
  and the structural validation are arguments (\<open>lookup\<close>, \<open>validate\<close>).
\<close>

record 'md wireValue =
  wvDesc :: 'md
  wvBytes :: bytes

datatype 'e wireErr = MessageNotFound string | WireInvalid string 'e

definition dedupMaxEntries :: int where "dedupMaxEntries = 4096"
definition dedupMaxBytes :: int where "dedupMaxBytes = 64 * 2 ^ 20"

definition wireShared ::
  "(string \<rightharpoonup> 'md) \<Rightarrow> ('md \<Rightarrow> bytes \<Rightarrow> 'e option) \<Rightarrow> (wireKey \<Rightarrow> u64) \<Rightarrow>
   (wireKey, 'md wireValue) contentLRU \<Rightarrow> string \<Rightarrow> bytes \<Rightarrow>
   ('e wireErr + 'md wireValue) \<times> (wireKey, 'md wireValue) contentLRU" where
  "wireShared lookup validate hash c protoName data =
    (case lookup protoName of
       None \<Rightarrow> (Inl (MessageNotFound protoName), c)
     | Some md \<Rightarrow>
        (case Lookup (=) c (hash (protoName, data)) (protoName, data) of
           (Some wv, c1) \<Rightarrow> (Inr wv, c1)
         | (None, c1) \<Rightarrow>
            (case validate md data of
               Some e \<Rightarrow> (Inl (WireInvalid protoName e), c1)
             | None \<Rightarrow>
                (let (w, c2) = Insert (=) c1 (protoName, data) (hash (protoName, data))
                                 \<lparr>wvDesc = md, wvBytes = data\<rparr> (int (length data))
                 in (Inr w, c2)))))"

text \<open>The same without a cache: what one receiver would compute on its own.\<close>

definition wireFresh ::
  "(string \<rightharpoonup> 'md) \<Rightarrow> ('md \<Rightarrow> bytes \<Rightarrow> 'e option) \<Rightarrow> string \<Rightarrow> bytes \<Rightarrow> 'e wireErr + 'md wireValue" where
  "wireFresh lookup validate protoName data =
    (case lookup protoName of
       None \<Rightarrow> Inl (MessageNotFound protoName)
     | Some md \<Rightarrow>
        (case validate md data of
           Some e \<Rightarrow> Inl (WireInvalid protoName e)
         | None \<Rightarrow> Inr \<lparr>wvDesc = md, wvBytes = data\<rparr>))"

definition wire_sound ::
  "(string \<rightharpoonup> 'md) \<Rightarrow> ('md \<Rightarrow> bytes \<Rightarrow> 'e option) \<Rightarrow> (wireKey \<Rightarrow> u64) \<Rightarrow>
   (wireKey, 'md wireValue) contentLRU \<Rightarrow> bool" where
  "wire_sound lookup validate hash c \<longleftrightarrow>
     lru_inv c \<and> (\<forall>(k, v) \<in> lru_holds hash c. wireFresh lookup validate (fst k) (snd k) = Inr v)"

lemma wire_step:
  assumes sound: "wire_sound lookup validate hash c"
    and call: "wireShared lookup validate hash c name data = (r, c')"
  shows "wire_sound lookup validate hash c' \<and> r = wireFresh lookup validate name data"
proof (cases "lookup name")
  case None
  then show ?thesis using assms by (simp add: wireShared_def wireFresh_def)
next
  case (Some md)
  let ?P = "\<lambda>k v. wireFresh lookup validate (fst k) (snd k) = Inr v"
  obtain q c1 where l: "Lookup (=) c (hash (name, data)) (name, data) = (q, c1)" by fastforce
  have l': "lru_inv c1" "\<forall>(k, v) \<in> lru_holds hash c1. ?P k v" "\<And>v. q = Some v \<Longrightarrow> ?P (name, data) v"
    using clru.sound_lookup [of c hash ?P, OF _ _ l] sound by (auto simp: wire_sound_def)
  show ?thesis
  proof (cases q)
    case q: (Some v)
    then show ?thesis using call l l' Some by (auto simp: wireShared_def wire_sound_def)
  next
    case q: None
    show ?thesis
    proof (cases "validate md data")
      case (Some e)
      then show ?thesis using call l l' q \<open>lookup name = Some md\<close>
        by (auto simp: wireShared_def wireFresh_def wire_sound_def)
    next
      case None
      let ?v = "\<lparr>wvDesc = md, wvBytes = data\<rparr>"
      have fresh: "?P (name, data) ?v" using None Some by (simp add: wireFresh_def)
      obtain w c2 where i: "Insert (=) c1 (name, data) (hash (name, data)) ?v (int (length data)) = (w, c2)"
        by fastforce
      have "lru_inv c2 \<and> (\<forall>(k, v) \<in> lru_holds hash c2. ?P k v) \<and> ?P (name, data) w"
        using clru.sound_insert [of c1 hash ?P "(name, data)" ?v "\<lambda>k v. int (length (snd k))"] l' fresh i
        by auto
      then show ?thesis using call l q i Some None by (auto simp: wireShared_def wire_sound_def)
    qed
  qed
qed

text \<open>
  C30. Sharing is transparent: a receiver that goes through the shared cache gets exactly the wire
  value, or the error, it would have computed alone, and the cache stays sound for the next one.
\<close>

theorem wireShared_transparent:
  assumes "wire_sound lookup validate hash c"
  shows "fst (wireShared lookup validate hash c name data) = wireFresh lookup validate name data
    \<and> wire_sound lookup validate hash (snd (wireShared lookup validate hash c name data))"
  using wire_step [OF assms surjective_pairing] by simp

definition sample_registry :: "string \<rightharpoonup> nat" where "sample_registry = [''Shop'' \<mapsto> 1]"

lemma wire_sound_new: "0 \<le> e \<Longrightarrow> 0 \<le> b \<Longrightarrow> wire_sound lookup validate hash (New e b)"
  by (simp add: wire_sound_def lru_inv_New) (simp add: lru_holds_def New_def)

theorem wireShared_transparent_witness:
  "fst (wireShared sample_registry (\<lambda>_ _. None :: nat option) (\<lambda>_. 0) (New 4096 67108864) ''Shop'' [1, 2])
   = Inr \<lparr>wvDesc = 1, wvBytes = [1, 2]\<rparr>"
  using wireShared_transparent [OF wire_sound_new [of 4096 67108864], of sample_registry
      "\<lambda>_ _. None :: nat option" "\<lambda>_. 0" "''Shop''" "[1, 2]"]
  by (simp add: wireFresh_def sample_registry_def)

subsection \<open>Interned route keys\<close>

definition internMaxEntries :: nat where "internMaxEntries = 4096"

definition internRouteKey :: "string \<Rightarrow> (string \<times> string) list \<Rightarrow> string \<times> (string \<times> string) list" where
  "internRouteKey b tbl =
    (case map_of tbl b of
       Some s \<Rightarrow> (s, tbl)
     | None \<Rightarrow> if length tbl \<ge> internMaxEntries then (b, tbl) else (b, (b, b) # tbl))"

definition intern_inv :: "(string \<times> string) list \<Rightarrow> bool" where
  "intern_inv tbl \<longleftrightarrow> distinct (map fst tbl) \<and> list_all (\<lambda>(k, v). k = v) tbl
     \<and> length tbl \<le> internMaxEntries"

text \<open>The canonical string is always equal to the bytes asked for, and the table stays bounded.\<close>

lemma intern_identity:
  "intern_inv tbl \<Longrightarrow> fst (internRouteKey b tbl) = b \<and> intern_inv (snd (internRouteKey b tbl))"
  by (auto simp: internRouteKey_def intern_inv_def list_all_iff map_of_eq_None_iff
      split: option.splits dest!: map_of_SomeD)

end
