(* ===== verification/CodecEngine.thy ===== *)
theory CodecEngine
  imports CodecCompile DedupCaches
begin

text \<open>
  Execution of a compiled codec (\<open>src/protocol/codec/engine.go\<close>): the frame accessors, \<open>encode\<close>
  and \<open>decode\<close>.  The encode loop is a fold over the steps on a record of the loop's variables;
  the decode loop runs over the steps in reverse and threads the process-wide decompression
  cache.  Failure reasons are values of \<open>decodeReason\<close>.  Buffers are values: the pool the decoder
  borrows its scratch buffer from, and the interning of the route key, do not show in the results
  (\<open>DedupCaches.intern_identity\<close>).
\<close>

subsection \<open>Routes\<close>

datatype routeArg = RouteNil | RouteMap route | RouteOther

fun routeAsMap :: "routeArg \<Rightarrow> route option" where
  "routeAsMap RouteNil = None"
| "routeAsMap (RouteMap m) = Some m"
| "routeAsMap RouteOther = Some Map.empty"

definition routeMapValue :: "route option \<Rightarrow> string \<Rightarrow> gval option" where
  "routeMapValue rmap n = (case rmap of None \<Rightarrow> None | Some m \<Rightarrow> m n)"

definition routeMapFloorInt :: "route option \<Rightarrow> string \<Rightarrow> int" where
  "routeMapFloorInt rmap n =
    (case routeMapValue rmap n of
       Some (VF64 x) \<Rightarrow> int_of_f64 (ffloor x)
     | Some (VF32 x) \<Rightarrow> int_of_f64 (ffloor x)
     | Some (VInt k i) \<Rightarrow> i
     | Some (VUint k u) \<Rightarrow> wrap64 u
     | _ \<Rightarrow> 0)"

text \<open>\<open>strconv.AppendInt\<close> in base ten.\<close>

fun dec_nat :: "nat \<Rightarrow> string" where
  "dec_nat n = (if n < 10 then [char_of (48 + n)] else dec_nat (n div 10) @ [char_of (48 + n mod 10)])"

definition dec_int :: "int \<Rightarrow> string" where
  "dec_int i = (if i < 0 then CHR ''-'' # dec_nat (nat (- i)) else dec_nat (nat i))"

definition ExpectedRouteKey :: "SchemaCodec \<Rightarrow> routeArg \<Rightarrow> string" where
  "ExpectedRouteKey c route =
    (let rmap = routeAsMap route in
     concat (map (\<lambda>seg. case seg of
         segLiteral s \<Rightarrow> s
       | segField i \<Rightarrow> if i < length (cfields c)
           then dec_int (routeMapFloorInt rmap (fname (cfields c ! i))) else ''0'') (routeKeySegs c)))"

definition buildDecodeRouteKey :: "SchemaCodec \<Rightarrow> (nat \<Rightarrow> u64) \<Rightarrow> string" where
  "buildDecodeRouteKey c routeVals =
    concat (map (\<lambda>seg. case seg of
        segLiteral s \<Rightarrow> s
      | segField i \<Rightarrow> if i < length (cfields c) then dec_int (sint (routeVals i)) else ''0'')
      (routeKeySegs c))"

subsection \<open>Fields\<close>

definition writeFieldUint :: "bytes \<Rightarrow> compiledField \<Rightarrow> u64 \<Rightarrow> bytes" where
  "writeFieldUint buf f v =
    (if offset f + fsize f > length buf then buf
     else if kind f = kindBytes then overwrite buf (offset f) (le_bytes (fsize f) v)
     else overwrite buf (offset f) (writeUint (bytes_at buf (offset f) (fsize f)) (endian f) (kind f) v))"

definition readField :: "bytes \<Rightarrow> compiledField \<Rightarrow> u64 option" where
  "readField header f =
    (if offset f + fsize f > length header then None
     else Some (readUint (bytes_at header (offset f) (fsize f)) (endian f) (kind f)))"

definition BodyLength :: "SchemaCodec \<Rightarrow> bytes \<Rightarrow> int" where
  "BodyLength c header =
    (case readField header (lengthField c) of
       None \<Rightarrow> 0
     | Some raw \<Rightarrow>
        (let n = (if lengthIncludesHeader c then wrap64 (sint raw - int (headerSize c)) else sint raw)
         in if n < 0 then 0 else n))"

definition evalValueSource :: "compiledField \<Rightarrow> route option \<Rightarrow> u64" where
  "evalValueSource f rmap =
    (if cvKind (source f) = ''route'' then word_of_int (routeMapFloorInt rmap (cvKey (source f)))
     else word_of_int (cvValue (source f)))"

subsection \<open>Encoding\<close>

type_synonym stash = "nat \<rightharpoonup> (string \<rightharpoonup> u64)"

record encState =
  work :: bytes
  flags :: u64
  applied :: "bool list"
  produced :: stash

definition keySatisfies :: "bytes \<Rightarrow> bool" where
  "keySatisfies key \<longleftrightarrow> length key > 0"

definition keyLenSatisfied :: "compiledStep \<Rightarrow> bytes \<Rightarrow> bool" where
  "keyLenSatisfied step key \<longleftrightarrow> keyLen step \<le> 0 \<or> int (length key) \<ge> keyLen step"

definition digest :: "stdlib \<Rightarrow> digestImpl \<Rightarrow> bytes \<Rightarrow> u64" where
  "digest lib d reg = (case d of
     ChecksumOf c \<Rightarrow> Sum c reg | HasherOf h \<Rightarrow> bytesToUint64 (Hash lib h reg []))"

definition stash_region :: "compiledStep \<Rightarrow> compiledProduce \<Rightarrow> bytes \<Rightarrow> bytes \<Rightarrow> bytes" where
  "stash_region step p w bodyPlain = (case region p of
     regionCiphered \<Rightarrow> drop (min (nat (encOffset step)) (length w)) w
   | regionBodyPlain \<Rightarrow> bodyPlain
   | regionBodyFinal \<Rightarrow> w
   | _ \<Rightarrow> [])"

definition stash_of :: "stash \<Rightarrow> nat \<Rightarrow> (string \<rightharpoonup> u64)" where
  "stash_of sh i = (case sh i of None \<Rightarrow> Map.empty | Some m \<Rightarrow> m)"

definition stashStep :: "stdlib \<Rightarrow> stash \<Rightarrow> nat \<Rightarrow> compiledStep \<Rightarrow> bytes \<Rightarrow> bytes \<Rightarrow> stash" where
  "stashStep lib sh i step w bodyPlain =
    (if produces step = [] then sh
     else sh(i \<mapsto> fold (\<lambda>p m. m(pname p \<mapsto> digest lib (pimpl p) (stash_region step p w bodyPlain)))
                   (produces step) (stash_of sh i)))"

definition stashSingle :: "stash \<Rightarrow> nat \<Rightarrow> compiledStep \<Rightarrow> u64 \<Rightarrow> stash" where
  "stashSingle sh i step v =
    sh(i \<mapsto> (case produces step of [] \<Rightarrow> stash_of sh i | p # ps \<Rightarrow> (stash_of sh i)(pname p \<mapsto> v)))"

definition stashSingleBytes :: "stash \<Rightarrow> nat \<Rightarrow> compiledStep \<Rightarrow> bytes \<Rightarrow> stash" where
  "stashSingleBytes sh i step hb = stashSingle sh i step (bytesToUint64 hb)"

definition candidate :: "compiledStep \<Rightarrow> bytes \<Rightarrow> route option \<Rightarrow> encState \<Rightarrow> bool" where
  "candidate step key rmap st \<longleftrightarrow>
     applies (encodeWhen step) (int (length (work st))) (keySatisfies key) rmap \<and>
     (appliesWithIdx (encodeWhen step) \<ge> 0 \<longrightarrow>
        nat (appliesWithIdx (encodeWhen step)) < length (applied st) \<and>
        applied st ! nat (appliesWithIdx (encodeWhen step)))"

definition encode_step ::
  "stdlib \<Rightarrow> route option \<Rightarrow> bytes \<Rightarrow> bytes \<Rightarrow> nat \<times> compiledStep \<Rightarrow> encState \<Rightarrow> encState" where
  "encode_step lib rmap bodyPlain key istep st =
    (let (i, step) = istep in
     if \<not> candidate step key rmap st then st
     else case (sop step, impl step) of
       (opCompress, CompressorImpl c) \<Rightarrow>
         (case Compress lib c (work st) of
            Inl e \<Rightarrow> st
          | Inr out \<Rightarrow>
             if onlySmaller (encodeWhen step) \<and> length out \<ge> length (work st) then st
             else st\<lparr>work := out, flags := flags st OR flagMask step, applied := (applied st)[i := True],
                     produced := stashStep lib (produced st) i step out bodyPlain\<rparr>)
     | (opEncrypt, CipherImpl c) \<Rightarrow>
         if requireKey (encodeWhen step) \<and> \<not> keyLenSatisfied step key then st
         else
           (let sh = stashStep lib (produced st) i step (work st) bodyPlain in
            case Encrypt lib c (work st) key (encOffset step) (sparams step) of
              Inl e \<Rightarrow> st\<lparr>produced := sh(i := None)\<rparr>
            | Inr out \<Rightarrow> st\<lparr>work := out, flags := flags st OR flagMask step,
                applied := (applied st)[i := True], produced := sh\<rparr>)
     | (opChecksum, ChecksumImpl c) \<Rightarrow>
         st\<lparr>produced := stashSingle (produced st) i step (Sum c (work st))\<rparr>
     | (opHash, HasherImpl h) \<Rightarrow>
         st\<lparr>produced := stashSingleBytes (produced st) i step (Hash lib h (work st) key)\<rparr>
     | _ \<Rightarrow> st)"

definition encode_init :: "SchemaCodec \<Rightarrow> bytes \<Rightarrow> encState" where
  "encode_init c body = \<lparr>work = body, flags = 0, applied = replicate (length (steps c)) False,
     produced = Map.empty\<rparr>"

definition run_pipeline :: "stdlib \<Rightarrow> SchemaCodec \<Rightarrow> route option \<Rightarrow> bytes \<Rightarrow> bytes \<Rightarrow> encState" where
  "run_pipeline lib c rmap body key =
    fold (encode_step lib rmap body key) (enumerate 0 (steps c)) (encode_init c body)"

definition lengthVal :: "SchemaCodec \<Rightarrow> nat \<Rightarrow> nat" where
  "lengthVal c wireBodyLen =
    wireBodyLen + (if lengthIncludesHeader c then headerSize c else 0)
      + (if lengthIncludesTrailer c then trailerSize c else 0)"

definition checksum_value :: "stash \<Rightarrow> stepProduceRef \<Rightarrow> u64" where
  "checksum_value sh ref =
    (if refStepIdx ref \<ge> 0
     then case stash_of sh (nat (refStepIdx ref)) (refProduceName ref) of None \<Rightarrow> 0 | Some v \<Rightarrow> v
     else 0)"

definition field_value :: "encState \<Rightarrow> route option \<Rightarrow> compiledField \<Rightarrow> u64 option" where
  "field_value st rmap f = (case role f of
     roleRoute \<Rightarrow> Some (word_of_int (routeMapFloorInt rmap (fname f)))
   | roleErrorCode \<Rightarrow> Some 0
   | roleFlags \<Rightarrow> Some (flags st)
   | roleChecksumOut \<Rightarrow> Some (checksum_value (produced st) (checksumRef f))
   | roleValue \<Rightarrow> Some (evalValueSource f rmap)
   | _ \<Rightarrow> None)"

definition write_field :: "encState \<Rightarrow> route option \<Rightarrow> compiledField \<Rightarrow> bytes \<Rightarrow> bytes" where
  "write_field st rmap f header =
    (case field_value st rmap f of None \<Rightarrow> header | Some v \<Rightarrow> writeFieldUint header f v)"

definition build_header :: "SchemaCodec \<Rightarrow> encState \<Rightarrow> route option \<Rightarrow> bytes" where
  "build_header c st rmap =
    fold (write_field st rmap) (cfields c)
      (writeFieldUint (replicate (headerSize c) 0) (lengthField c) (of_nat (lengthVal c (length (work st)))))"

definition encode :: "stdlib \<Rightarrow> SchemaCodec \<Rightarrow> routeArg \<Rightarrow> bytes \<Rightarrow> bytes \<Rightarrow> bytes" where
  "encode lib c route body key =
    (let rmap = routeAsMap route; st = run_pipeline lib c rmap body key
     in build_header c st rmap @ work st @ replicate (trailerSize c) 0)"

definition EncodeTCP :: "stdlib \<Rightarrow> SchemaCodec \<Rightarrow> routeArg \<Rightarrow> bytes \<Rightarrow> bytes \<Rightarrow> bytes" where
  "EncodeTCP lib c route body key = encode lib c route body key"

definition EncodeUDP :: "stdlib \<Rightarrow> SchemaCodec \<Rightarrow> routeArg \<Rightarrow> bytes \<Rightarrow> bytes \<Rightarrow> bytes" where
  "EncodeUDP lib c route body key = encode lib c route body key"

subsection \<open>Decoding\<close>

datatype decodeReason = ReasonNone | KeyTooShort nat int nat | DecryptFailed nat cipherError
  | BccMismatch nat | DecompressFailed nat compressError

text \<open>What the header loop collects: error code, flags, route values and checksums by index.\<close>

record headerVals =
  hErr :: u64
  hFlags :: u64
  hRoute :: "nat \<Rightarrow> u64"
  hChk :: "nat \<rightharpoonup> u64"
  hChkCount :: nat

definition read_header_field :: "bytes \<Rightarrow> nat \<times> compiledField \<Rightarrow> headerVals \<Rightarrow> headerVals" where
  "read_header_field header ifld h =
    (let (i, f) = ifld in
     case readField header f of
       None \<Rightarrow> h
     | Some raw \<Rightarrow>
        (case role f of
           roleErrorCode \<Rightarrow> h\<lparr>hErr := raw\<rparr>
         | roleRoute \<Rightarrow> h\<lparr>hRoute := (hRoute h)(i := raw)\<rparr>
         | roleFlags \<Rightarrow> h\<lparr>hFlags := hFlags h OR raw\<rparr>
         | roleChecksumOut \<Rightarrow> h\<lparr>hChk := (hChk h)(i \<mapsto> raw), hChkCount := hChkCount h + 1\<rparr>
         | _ \<Rightarrow> h))"

definition read_header :: "SchemaCodec \<Rightarrow> bytes \<Rightarrow> headerVals" where
  "read_header c header =
    fold (read_header_field header) (enumerate 0 (cfields c))
      \<lparr>hErr = 0, hFlags = 0, hRoute = (\<lambda>_. 0), hChk = Map.empty, hChkCount = 0\<rparr>"

definition step_runs :: "u64 \<Rightarrow> compiledStep \<Rightarrow> bool" where
  "step_runs fl step \<longleftrightarrow> \<not> (flagMask step \<noteq> 0 \<and> fl AND flagMask step = 0)"

definition willInflate :: "SchemaCodec \<Rightarrow> u64 \<Rightarrow> bool" where
  "willInflate c fl \<longleftrightarrow> list_ex (\<lambda>st. sop st = opCompress \<and> step_runs fl st) (steps c)"

definition inflateShareSafe :: "SchemaCodec \<Rightarrow> nat \<Rightarrow> u64 \<Rightarrow> bool" where
  "inflateShareSafe c i fl \<longleftrightarrow>
     list_all (\<lambda>st. step_runs fl st \<longrightarrow> sop st \<noteq> opEncrypt \<and> sop st \<noteq> opCompress) (take i (steps c))"

definition decodeCipheredRegion :: "compiledStep \<Rightarrow> bytes \<Rightarrow> bytes" where
  "decodeCipheredRegion step w = drop (min (nat (decOffset step)) (length w)) w"

definition chk_mismatch :: "stdlib \<Rightarrow> nat \<Rightarrow> compiledStep \<Rightarrow> bytes \<Rightarrow> headerVals \<Rightarrow> nat \<times> compiledField \<Rightarrow> bool" where
  "chk_mismatch lib i step w h ifld =
    (let (k, f) = ifld in
     role f = roleChecksumOut \<and> refStepIdx (checksumRef f) = int i \<and>
     (case hChk h k of
        None \<Rightarrow> False
      | Some want \<Rightarrow>
         (case find (\<lambda>p. pname p = refProduceName (checksumRef f)) (produces step) of
            None \<Rightarrow> False
          | Some p \<Rightarrow>
             truncateUintToSize (digest lib (pimpl p) (decodeCipheredRegion step w)) (int (fsize f)) \<noteq> want)))"

definition verifyProducesAfterDecrypt ::
  "stdlib \<Rightarrow> SchemaCodec \<Rightarrow> nat \<Rightarrow> compiledStep \<Rightarrow> bytes \<Rightarrow> headerVals \<Rightarrow> bool" where
  "verifyProducesAfterDecrypt lib c i step w h \<longleftrightarrow>
     hChkCount h \<noteq> 0 \<and> produces step \<noteq> [] \<and> encOffset step = decOffset step \<and>
     list_ex (chk_mismatch lib i step w h) (enumerate 0 (cfields c))"

definition decrypt_with :: "stdlib \<Rightarrow> cipherImpl \<Rightarrow> compiledStep \<Rightarrow> bytes \<Rightarrow> bytes \<Rightarrow> bytes cres" where
  "decrypt_with lib ci step w key =
    (case DecryptInPlace ci w key (decOffset step) (sparams step) of
       Some r \<Rightarrow> r
     | None \<Rightarrow> Decrypt lib ci w key (decOffset step) (sparams step))"

definition decrypt_step ::
  "stdlib \<Rightarrow> SchemaCodec \<Rightarrow> bytes \<Rightarrow> headerVals \<Rightarrow> nat \<Rightarrow> compiledStep \<Rightarrow> cipherImpl \<Rightarrow> bytes \<Rightarrow> decodeReason + bytes" where
  "decrypt_step lib c key h i step ci w =
    (if requireKey (encodeWhen step) \<and> \<not> keyLenSatisfied step key then
       (if onError step = onErrorFail then Inl (KeyTooShort i (keyLen step) (length key)) else Inr w)
     else case decrypt_with lib ci step w key of
       Inl e \<Rightarrow> if onError step = onErrorFail then Inl (DecryptFailed i e) else Inr w
     | Inr out \<Rightarrow>
        if verifyProducesAfterDecrypt lib c i step out h \<and> onError step = onErrorFail
        then Inl (BccMismatch i) else Inr out)"

definition inflate_step ::
  "stdlib \<Rightarrow> (bytes \<Rightarrow> u64) \<Rightarrow> SchemaCodec \<Rightarrow> u64 \<Rightarrow> nat \<Rightarrow> compiledStep \<Rightarrow> compressorImpl \<Rightarrow> bytes \<Rightarrow>
   inflateCache \<Rightarrow> (decodeReason + bytes) \<times> inflateCache" where
  "inflate_step lib hash c fl i step co w cache =
    (let shareable = (length w \<ge> inflateDedupMinBytes \<and> inflateShareSafe c i fl);
         (hit, cache1) = (if shareable then inflate_get hash cache w else (None, cache)) in
     case hit of
       Some out \<Rightarrow> (Inr out, cache1)
     | None \<Rightarrow>
        (case Decompress lib co w of
           Inl e \<Rightarrow> (if onError step = onErrorFail then Inl (DecompressFailed i e) else Inr w, cache1)
         | Inr out \<Rightarrow> (Inr out, if shareable then inflate_put hash cache1 w out else cache1)))"

definition decode_one ::
  "stdlib \<Rightarrow> (bytes \<Rightarrow> u64) \<Rightarrow> SchemaCodec \<Rightarrow> bytes \<Rightarrow> headerVals \<Rightarrow> nat \<Rightarrow> compiledStep \<Rightarrow> bytes \<Rightarrow>
   inflateCache \<Rightarrow> (decodeReason + bytes) \<times> inflateCache" where
  "decode_one lib hash c key h i step w cache =
    (if \<not> step_runs (hFlags h) step then (Inr w, cache)
     else case (sop step, impl step) of
       (opEncrypt, CipherImpl ci) \<Rightarrow> (decrypt_step lib c key h i step ci w, cache)
     | (opCompress, CompressorImpl co) \<Rightarrow> inflate_step lib hash c (hFlags h) i step co w cache
     | _ \<Rightarrow> (Inr w, cache))"

fun decode_steps ::
  "stdlib \<Rightarrow> (bytes \<Rightarrow> u64) \<Rightarrow> SchemaCodec \<Rightarrow> bytes \<Rightarrow> headerVals \<Rightarrow> (nat \<times> compiledStep) list \<Rightarrow> bytes \<Rightarrow>
   inflateCache \<Rightarrow> (decodeReason + bytes) \<times> inflateCache" where
  "decode_steps lib hash c key h [] w cache = (Inr w, cache)"
| "decode_steps lib hash c key h ((i, step) # rest) w cache =
    (case decode_one lib hash c key h i step w cache of
       (Inl reason, cache') \<Rightarrow> (Inl reason, cache')
     | (Inr w', cache') \<Rightarrow> decode_steps lib hash c key h rest w' cache')"

record decoded =
  dRouteKey :: string
  dBody :: "bytes option"
  dHeaderErr :: u64
  dReason :: decodeReason

definition decode ::
  "stdlib \<Rightarrow> (bytes \<Rightarrow> u64) \<Rightarrow> SchemaCodec \<Rightarrow> inflateCache \<Rightarrow> bytes \<Rightarrow> bytes \<Rightarrow> decoded \<times> inflateCache" where
  "decode lib hash c cache data key =
    (if length data < headerSize c + trailerSize c
     then (\<lparr>dRouteKey = '''', dBody = None, dHeaderErr = 0, dReason = ReasonNone\<rparr>, cache)
     else
       let h = read_header c (take (headerSize c) data);
           w = bytes_at data (headerSize c) (length data - trailerSize c - headerSize c);
           (r, cache') = decode_steps lib hash c key h (rev (enumerate 0 (steps c))) w cache
       in case r of
            Inl reason \<Rightarrow> (\<lparr>dRouteKey = '''', dBody = None, dHeaderErr = hErr h, dReason = reason\<rparr>, cache')
          | Inr w' \<Rightarrow> (\<lparr>dRouteKey = buildDecodeRouteKey c (hRoute h), dBody = Some w',
               dHeaderErr = hErr h, dReason = ReasonNone\<rparr>, cache'))"

text \<open>The codec interface: one pipeline for both transports, with and without the reason.\<close>

definition DecodeTCPWithReason ::
  "stdlib \<Rightarrow> (bytes \<Rightarrow> u64) \<Rightarrow> SchemaCodec \<Rightarrow> inflateCache \<Rightarrow> bytes \<Rightarrow> bytes \<Rightarrow> decoded \<times> inflateCache" where
  "DecodeTCPWithReason lib hash c cache data key = decode lib hash c cache data key"

definition DecodeUDPWithReason ::
  "stdlib \<Rightarrow> (bytes \<Rightarrow> u64) \<Rightarrow> SchemaCodec \<Rightarrow> inflateCache \<Rightarrow> bytes \<Rightarrow> bytes \<Rightarrow> decoded \<times> inflateCache" where
  "DecodeUDPWithReason lib hash c cache data key = decode lib hash c cache data key"

definition DecodeTCP ::
  "stdlib \<Rightarrow> (bytes \<Rightarrow> u64) \<Rightarrow> SchemaCodec \<Rightarrow> inflateCache \<Rightarrow> bytes \<Rightarrow> bytes \<Rightarrow>
   (string \<times> bytes option \<times> u64) \<times> inflateCache" where
  "DecodeTCP lib hash c cache data key =
    (let (d, cache') = decode lib hash c cache data key
     in ((dRouteKey d, dBody d, dHeaderErr d), cache'))"

definition DecodeUDP ::
  "stdlib \<Rightarrow> (bytes \<Rightarrow> u64) \<Rightarrow> SchemaCodec \<Rightarrow> inflateCache \<Rightarrow> bytes \<Rightarrow> bytes \<Rightarrow>
   (string \<times> bytes option \<times> u64) \<times> inflateCache" where
  "DecodeUDP lib hash c cache data key =
    (let (d, cache') = decode lib hash c cache data key
     in ((dRouteKey d, dBody d, dHeaderErr d), cache'))"

definition DescribeError :: "(u64 \<rightharpoonup> string) \<Rightarrow> u64 \<Rightarrow> string" where
  "DescribeError m code = (case m code of None \<Rightarrow> '''' | Some s \<Rightarrow> s)"

end
