(* ===== verification/CodecRoundTrip.thy ===== *)
theory CodecRoundTrip
  imports CodecEngine
begin

text \<open>
  Decoding inverts encoding: for a well-formed codec whose steps are symmetric, decoding an
  encoded frame gives back the body, the route key of the request and no error, whatever the
  conditions of the steps decided.  The proof goes through the header (every field reads back
  what was written, truncated to its width), the flags (a step's bit is set exactly when it was
  applied) and the pipeline (undoing the steps in reverse order).  The second part shows what the
  asymmetric cases do.
\<close>

subsection \<open>The header\<close>

lemma length_writeField: "field_wf c f \<Longrightarrow> length buf = headerSize c \<Longrightarrow> length (writeFieldUint buf f v) = headerSize c"
  by (auto simp: writeFieldUint_def field_wf_def length_writeUint)

lemma read_write_same:
  assumes "field_wf c f" "exact_kind (endian f) (kind f)" "length buf = headerSize c"
  shows "readField (writeFieldUint buf f v) f = Some (take_bit (8 * fsize f) v)"
proof -
  have in_range: "offset f + fsize f \<le> length buf" and sz: "sized (kind f) (fsize f)"
    using assms by (auto simp: field_wf_def)
  define bs where "bs = (if kind f = kindBytes then le_bytes (fsize f) v
    else writeUint (bytes_at buf (offset f) (fsize f)) (endian f) (kind f) v)"
  have w: "writeFieldUint buf f v = overwrite buf (offset f) bs" and lb: "length bs = fsize f"
    using in_range sz by (auto simp: writeFieldUint_def bs_def length_writeUint)
  have "readUint bs (endian f) (kind f) = take_bit (8 * fsize f) v"
  proof (cases "kind f = kindBytes")
    case True
    then show ?thesis by (simp add: bs_def readUint_def le_value_le_bytes)
  next
    case False
    then show ?thesis
      using read_write_uint [of "kind f" "bytes_at buf (offset f) (fsize f)"] sz assms(2) in_range
      by (simp add: bs_def)
  qed
  moreover have "bytes_at (overwrite buf (offset f) bs) (offset f) (fsize f) = bs"
    using bytes_at_overwrite_same [of "offset f" bs buf] in_range lb by simp
  ultimately show ?thesis using w in_range lb by (simp add: readField_def)
qed

lemma read_write_other:
  assumes "field_wf c f" "length buf = headerSize c" "fapart f g"
  shows "readField (writeFieldUint buf f v) g = readField buf g"
proof -
  have in_range: "offset f + fsize f \<le> length buf" and sz: "sized (kind f) (fsize f)"
    using assms by (auto simp: field_wf_def)
  obtain bs where w: "writeFieldUint buf f v = overwrite buf (offset f) bs" and lb: "length bs = fsize f"
    using in_range sz by (cases "kind f = kindBytes") (auto simp: writeFieldUint_def length_writeUint)
  have "bytes_at (overwrite buf (offset f) bs) (offset g) (fsize g) = bytes_at buf (offset g) (fsize g)"
    using assms(3) in_range lb by (intro bytes_at_overwrite_other) (auto simp: fapart_def)
  then show ?thesis using w in_range lb by (simp add: readField_def)
qed

text \<open>Writing all fields of a list: each reads back its own value.\<close>

definition fields_apart :: "SchemaCodec \<Rightarrow> compiledField list \<Rightarrow> bool" where
  "fields_apart c fs \<longleftrightarrow> distinct fs \<and> (\<forall>f \<in> set fs. field_wf c f \<and> (\<forall>g \<in> set fs. f \<noteq> g \<longrightarrow> fapart f g))"

lemma length_write_field: "field_wf c f \<Longrightarrow> length buf = headerSize c \<Longrightarrow> length (write_field st r f buf) = headerSize c"
  by (auto simp: write_field_def length_writeField split: option.splits)

lemma write_fields:
  assumes "fields_apart c (g # fs)" "length buf = headerSize c"
  shows "length (fold (write_field st r) fs buf) = headerSize c \<and>
    readField (fold (write_field st r) fs buf) g = readField buf g"
  using assms
proof (induction fs arbitrary: buf)
  case (Cons f fs)
  have wf: "field_wf c f" "fapart f g" "fields_apart c (g # fs)"
    using Cons.prems(1) by (auto simp: fields_apart_def)
  have "length (write_field st r f buf) = headerSize c"
    using wf Cons.prems(2) by (simp add: length_write_field)
  moreover have "readField (write_field st r f buf) g = readField buf g"
    using read_write_other [OF wf(1) Cons.prems(2) wf(2)]
    by (simp add: write_field_def split: option.splits)
  ultimately show ?case using Cons.IH [OF wf(3)] by simp
qed simp

lemma written_field:
  assumes "fields_apart c fs" "length buf = headerSize c" "f \<in> set fs"
    and "field_value st r f = Some v" "exact_kind (endian f) (kind f)"
  shows "readField (fold (write_field st r) fs buf) f = Some (take_bit (8 * fsize f) v)"
  using assms(1-3)
proof (induction fs arbitrary: buf)
  case (Cons g fs)
  have wf: "field_wf c g" "fields_apart c fs" using Cons.prems(1) by (auto simp: fields_apart_def)
  have l: "length (write_field st r g buf) = headerSize c"
    using wf Cons.prems(2) by (simp add: length_write_field)
  show ?case
  proof (cases "f = g")
    case True
    then show ?thesis
      using write_fields [OF Cons.prems(1) l, of st r] read_write_same [OF wf(1) _ Cons.prems(2)] assms(4,5)
      by (simp add: write_field_def [of st r g])
  next
    case False
    then show ?thesis using Cons.IH [OF wf(2) l] Cons.prems(3) by simp
  qed
qed simp

lemma codec_fields_apart:
  assumes "codec_wf c" shows "fields_apart c (lengthField c # cfields c)" "fields_apart c (cfields c)"
proof -
  have "distinct (lengthField c # cfields c)"
    using assms by (auto simp: codec_wf_def distinct_map)
  then show "fields_apart c (lengthField c # cfields c)" "fields_apart c (cfields c)"
    using assms by (auto simp: fields_apart_def codec_wf_def)
qed

lemma header_field:
  assumes "codec_wf c" "f \<in> set (cfields c)" "field_value st r f = Some v" "exact_kind (endian f) (kind f)"
  shows "readField (build_header c st r) f = Some (take_bit (8 * fsize f) v)"
  unfolding build_header_def
  using assms codec_fields_apart [OF assms(1)]
  by (intro written_field) (auto simp: length_writeField fields_apart_def)

lemma length_header [simp]: "codec_wf c \<Longrightarrow> length (build_header c st r) = headerSize c"
  unfolding build_header_def using codec_fields_apart [of c]
  by (intro write_fields [THEN conjunct1]) (auto simp: length_writeField fields_apart_def)

lemma header_length_field:
  assumes "codec_wf c" "exact_kind (endian (lengthField c)) (kind (lengthField c))"
  shows "readField (build_header c st r) (lengthField c)
    = Some (take_bit (8 * fsize (lengthField c)) (of_nat (lengthVal c (length (work st)))))"
proof -
  have wf: "field_wf c (lengthField c)" using assms(1) by (simp add: codec_wf_def)
  show ?thesis
    unfolding build_header_def
    using write_fields [OF codec_fields_apart(1) [OF assms(1)]] read_write_same [OF wf assms(2)] wf
    by (simp add: length_writeField)
qed

subsection \<open>What the decoder reads\<close>

text \<open>One field's contribution, projection by projection.\<close>

lemma read_one:
  "hErr (read_header_field hdr (i, f) h) =
     (if role f = roleErrorCode then case readField hdr f of None \<Rightarrow> hErr h | Some raw \<Rightarrow> raw else hErr h)"
  "hFlags (read_header_field hdr (i, f) h) =
     (if role f = roleFlags then case readField hdr f of None \<Rightarrow> hFlags h | Some raw \<Rightarrow> hFlags h OR raw
      else hFlags h)"
  "hRoute (read_header_field hdr (i, f) h) =
     (if role f = roleRoute then case readField hdr f of None \<Rightarrow> hRoute h | Some raw \<Rightarrow> (hRoute h)(i := raw)
      else hRoute h)"
  "hChk (read_header_field hdr (i, f) h) =
     (if role f = roleChecksumOut then case readField hdr f of None \<Rightarrow> hChk h | Some raw \<Rightarrow> (hChk h)(i \<mapsto> raw)
      else hChk h)"
  by (auto simp: read_header_field_def split: option.splits roleKind.splits)

lemma read_err:
  "hErr h = 0 \<Longrightarrow> \<forall>f \<in> set fs. role f = roleErrorCode \<longrightarrow> readField hdr f = Some 0 \<Longrightarrow>
   hErr (fold (read_header_field hdr) (enumerate k fs) h) = 0"
  by (induction fs arbitrary: k h) (auto simp: read_one split: option.splits)

lemma read_flags:
  "bit (hFlags (fold (read_header_field hdr) (enumerate k fs) h)) n \<longleftrightarrow>
   bit (hFlags h) n \<or> (\<exists>f \<in> set fs. role f = roleFlags \<and> (\<exists>raw. readField hdr f = Some raw \<and> bit raw n))"
  by (induction fs arbitrary: k h) (auto simp: read_one bit_or_iff split: option.splits)

lemma read_low_index:
  "i < k \<Longrightarrow> hRoute (fold (read_header_field hdr) (enumerate k fs) h) i = hRoute h i"
  "i < k \<Longrightarrow> hChk (fold (read_header_field hdr) (enumerate k fs) h) i = hChk h i"
  by (induction fs arbitrary: k h) (auto simp: read_one split: option.splits)

lemma read_route:
  "i < length fs \<Longrightarrow> role (fs ! i) = roleRoute \<Longrightarrow> readField hdr (fs ! i) = Some raw \<Longrightarrow>
   hRoute (fold (read_header_field hdr) (enumerate k fs) h) (k + i) = raw"
proof (induction fs arbitrary: k h i)
  case (Cons f fs)
  show ?case
  proof (cases i)
    case 0
    then show ?thesis using Cons.prems by (simp add: read_low_index read_one)
  next
    case (Suc j)
    then show ?thesis using Cons.IH [of j "Suc k"] Cons.prems by simp
  qed
qed simp

lemma read_chk:
  "i < length fs \<Longrightarrow> role (fs ! i) = roleChecksumOut \<Longrightarrow> readField hdr (fs ! i) = Some raw \<Longrightarrow>
   hChk (fold (read_header_field hdr) (enumerate k fs) h) (k + i) = Some raw"
proof (induction fs arbitrary: k h i)
  case (Cons f fs)
  show ?case
  proof (cases i)
    case 0
    then show ?thesis using Cons.prems by (simp add: read_low_index read_one)
  next
    case (Suc j)
    then show ?thesis using Cons.IH [of j "Suc k"] Cons.prems by simp
  qed
qed simp

text \<open>The codecs whose fields read back what was written.\<close>

definition exact_fields :: "SchemaCodec \<Rightarrow> bool" where
  "exact_fields c \<longleftrightarrow> list_all (\<lambda>f. exact_kind (endian f) (kind f)) (cfields c)"

lemma decoded_header:
  assumes "codec_wf c" "exact_fields c"
  defines "h st r \<equiv> read_header c (build_header c st r)"
  shows "hErr (h st r) = 0"
    and "bit (hFlags (h st r)) n \<longleftrightarrow>
      bit (flags st) n \<and> (\<exists>f \<in> set (cfields c). role f = roleFlags \<and> n < 8 * fsize f)"
    and "i < length (cfields c) \<Longrightarrow> role (cfields c ! i) = roleRoute \<Longrightarrow>
      hRoute (h st r) i = take_bit (8 * fsize (cfields c ! i)) (word_of_int (routeMapFloorInt r (fname (cfields c ! i))))"
    and "i < length (cfields c) \<Longrightarrow> role (cfields c ! i) = roleChecksumOut \<Longrightarrow>
      hChk (h st r) i = Some (take_bit (8 * fsize (cfields c ! i))
        (checksum_value (produced st) (checksumRef (cfields c ! i))))"
proof -
  have hf: "readField (build_header c st r) f = Some (take_bit (8 * fsize f) v)"
    if "f \<in> set (cfields c)" "field_value st r f = Some v" for f v
    using header_field [OF assms(1) that] assms(2) that(1) by (auto simp: exact_fields_def list_all_iff)
  show "hErr (h st r) = 0"
    unfolding h_def read_header_def by (rule read_err) (auto simp: hf field_value_def)
  show "bit (hFlags (h st r)) n \<longleftrightarrow>
      bit (flags st) n \<and> (\<exists>f \<in> set (cfields c). role f = roleFlags \<and> n < 8 * fsize f)"
    unfolding h_def read_header_def read_flags by (auto simp: hf field_value_def bit_take_bit_iff) blast+
  show "hRoute (h st r) i = take_bit (8 * fsize (cfields c ! i)) (word_of_int (routeMapFloorInt r (fname (cfields c ! i))))"
    if "i < length (cfields c)" "role (cfields c ! i) = roleRoute"
    unfolding h_def read_header_def
    using read_route [OF that, of _ _ 0] hf [OF nth_mem [OF that(1)]] that by (simp add: field_value_def)
  show "hChk (h st r) i = Some (take_bit (8 * fsize (cfields c ! i))
        (checksum_value (produced st) (checksumRef (cfields c ! i))))"
    if "i < length (cfields c)" "role (cfields c ! i) = roleChecksumOut"
    unfolding h_def read_header_def
    using read_chk [OF that, of _ _ 0] hf [OF nth_mem [OF that(1)]] that by (simp add: field_value_def)
qed

text \<open>The route key: a value that fits its field is printed the same on both sides.\<close>

definition route_fits :: "SchemaCodec \<Rightarrow> routeArg \<Rightarrow> bool" where
  "route_fits c route \<longleftrightarrow> list_all (\<lambda>f. role f = roleRoute \<longrightarrow>
     (let v = routeMapFloorInt (routeAsMap route) (fname f) in
      is_i64 v \<and> (fsize f < 8 \<longrightarrow> 0 \<le> v \<and> v < 2 ^ (8 * fsize f)))) (cfields c)"

lemma sint_of_i64: "is_i64 v \<Longrightarrow> sint (word_of_int v :: u64) = v"
  by (simp add: is_i64_def sint_sbintrunc' signed_take_bit_int_eq_self)

lemma route_value_back:
  assumes "is_i64 v" "n < 8 \<longrightarrow> 0 \<le> v \<and> v < 2 ^ (8 * n)"
  shows "sint (take_bit (8 * n) (word_of_int v :: u64)) = v"
proof -
  have "take_bit (8 * n) (word_of_int v :: u64) = word_of_int v"
  proof (cases "n < 8")
    case True
    then have "take_bit (8 * n) v = v" using assms(2) by (simp add: take_bit_int_eq_self)
    then show ?thesis by (simp add: take_bit_of_int)
  next
    case False
    then show ?thesis by (simp add: take_bit_word_eq_self)
  qed
  then show ?thesis using assms(1) by (simp add: sint_of_i64)
qed

lemma route_key_back:
  assumes "codec_wf c" "exact_fields c" "route_fits c route"
  shows "buildDecodeRouteKey c (hRoute (read_header c (build_header c st (routeAsMap route))))
    = ExpectedRouteKey c route"
proof -
  have "(case seg of segLiteral s \<Rightarrow> s
      | segField i \<Rightarrow> if i < length (cfields c)
          then dec_int (sint (hRoute (read_header c (build_header c st (routeAsMap route))) i)) else ''0'')
    = (case seg of segLiteral s \<Rightarrow> s
      | segField i \<Rightarrow> if i < length (cfields c)
          then dec_int (routeMapFloorInt (routeAsMap route) (fname (cfields c ! i))) else ''0'')"
    if "seg \<in> set (routeKeySegs c)" for seg
  proof (cases seg)
    case (segField i)
    then have i: "i < length (cfields c)" "role (cfields c ! i) = roleRoute"
      using assms(1) that by (auto simp: codec_wf_def list_all_iff seg_wf_def)
    then have "is_i64 (routeMapFloorInt (routeAsMap route) (fname (cfields c ! i))) \<and>
        (fsize (cfields c ! i) < 8 \<longrightarrow> 0 \<le> routeMapFloorInt (routeAsMap route) (fname (cfields c ! i))
         \<and> routeMapFloorInt (routeAsMap route) (fname (cfields c ! i)) < 2 ^ (8 * fsize (cfields c ! i)))"
      using assms(3) nth_mem [OF i(1)] by (auto simp: route_fits_def list_all_iff Let_def)
    then show ?thesis using decoded_header(3) [OF assms(1,2) i] segField i by (simp add: route_value_back)
  qed simp
  then show ?thesis by (simp add: buildDecodeRouteKey_def ExpectedRouteKey_def Let_def cong: map_cong)
qed

subsection \<open>The pipeline\<close>

text \<open>
  What one step of the encoder does to the variables: it leaves body, flags and record of
  application alone, or it compressed, or it encrypted.
\<close>

definition coding_step :: "compiledStep \<Rightarrow> bool" where
  "coding_step step \<longleftrightarrow> sop step = opCompress \<or> sop step = opEncrypt"

lemma encode_step_cases:
  fixes lib rmap body key i step st
  defines "st' \<equiv> encode_step lib rmap body key (i, step) st"
  obtains (skip) "work st' = work st" "flags st' = flags st" "applied st' = applied st"
  | (compress) co where "sop step = opCompress" "impl step = CompressorImpl co"
      "Compress lib co (work st) = Inr (work st')" "flags st' = flags st OR flagMask step"
      "applied st' = (applied st)[i := True]"
  | (encrypt) ci where "sop step = opEncrypt" "impl step = CipherImpl ci"
      "\<not> (requireKey (encodeWhen step) \<and> \<not> keyLenSatisfied step key)"
      "Encrypt lib ci (work st) key (encOffset step) (sparams step) = Inr (work st')"
      "flags st' = flags st OR flagMask step" "applied st' = (applied st)[i := True]"
      "produced st' = stashStep lib (produced st) i step (work st) body"
proof (cases "candidate step key rmap st")
  case False
  then show thesis by (intro skip) (auto simp: st'_def encode_step_def)
next
  case True
  show thesis
  proof (cases "sop step"; cases "impl step")
    fix co assume op: "sop step = opCompress" "impl step = CompressorImpl co"
    then show thesis using True compress [OF op] skip
      by (cases "Compress lib co (work st)";
          cases "onlySmaller (encodeWhen step) \<and> length (projr (Compress lib co (work st))) \<ge> length (work st)")
        (auto simp: st'_def encode_step_def)
  next
    fix ci assume op: "sop step = opEncrypt" "impl step = CipherImpl ci"
    then show thesis using True encrypt [OF op] skip
      by (cases "Encrypt lib ci (work st) key (encOffset step) (sparams step)";
          cases "requireKey (encodeWhen step) \<and> \<not> keyLenSatisfied step key")
        (auto simp: st'_def encode_step_def Let_def)
  qed (use True skip in \<open>auto simp: st'_def encode_step_def\<close>)
qed

lemma stash_other:
  "j \<noteq> i \<Longrightarrow> stashStep lib sh i step w b j = sh j" "j \<noteq> i \<Longrightarrow> stashSingle sh i step v j = sh j"
  "j \<noteq> i \<Longrightarrow> stashSingleBytes sh i step hb j = sh j"
  by (auto simp: stashStep_def stashSingle_def stashSingleBytes_def)

lemma encode_step_other:
  assumes "j \<noteq> i"
  shows "applied (encode_step lib r b key (i, step) st) ! j = applied st ! j"
    and "produced (encode_step lib r b key (i, step) st) j = produced st j"
  using assms
  by (auto simp: encode_step_def Let_def stash_other split: stepOp.splits stepImpl.splits sum.splits if_splits)

lemma encode_fold_other:
  assumes "j \<notin> fst ` set xs"
  shows "applied (fold (encode_step lib r b key) xs st) ! j = applied st ! j"
    and "produced (fold (encode_step lib r b key) xs st) j = produced st j"
  using assms by (induction xs arbitrary: st) (auto simp: encode_step_other)

lemma length_applied [simp]:
  "length (applied (encode_step lib r b key x st)) = length (applied st)"
  by (cases x) (auto simp: encode_step_def Let_def split: stepOp.splits stepImpl.splits sum.splits if_splits)

lemma length_applied_fold [simp]:
  "length (applied (fold (encode_step lib r b key) xs st)) = length (applied st)"
  by (induction xs arbitrary: st) auto

text \<open>The flags are the masks of the steps that were applied, and only coding steps are.\<close>

definition steps_known :: "encState \<Rightarrow> (nat \<times> compiledStep) list \<Rightarrow> bool" where
  "steps_known st xs \<longleftrightarrow> distinct (map fst xs) \<and> (\<forall>(i, s) \<in> set xs. i < length (applied st))"

lemma flags_applied:
  fixes lib r b key
  assumes "steps_known st xs" "flags st = 0" "\<forall>i. i < length (applied st) \<longrightarrow> \<not> applied st ! i"
  defines "st' \<equiv> fold (encode_step lib r b key) xs st"
  shows "bit (flags st') n \<longleftrightarrow> (\<exists>(i, s) \<in> set xs. applied st' ! i \<and> bit (flagMask s) n)"
    and "(i, s) \<in> set xs \<Longrightarrow> applied st' ! i \<Longrightarrow> coding_step s"
proof -
  have "(\<forall>n. bit (flags st') n \<longleftrightarrow> (\<exists>(i, s) \<in> set xs. applied st' ! i \<and> bit (flagMask s) n))
      \<and> (\<forall>(i, s) \<in> set xs. applied st' ! i \<longrightarrow> coding_step s)"
    using assms(1) unfolding st'_def
  proof (induction xs rule: rev_induct)
    case Nil
    then show ?case by (simp add: assms(2))
  next
    case (snoc x xs)
    obtain i s where x: "x = (i, s)" by fastforce
    let ?st = "fold (encode_step lib r b key) xs st"
    let ?st' = "encode_step lib r b key (i, s) ?st"
    have i: "i < length (applied st)" "i \<notin> fst ` set xs" and sk: "steps_known st xs"
      using snoc.prems by (auto simp: steps_known_def x)
    have na: "\<not> applied ?st ! i" using encode_fold_other(1) [OF i(2)] assms(3) i(1) by simp
    have ne: "j \<noteq> i" if "(j, t) \<in> set xs" for j t using that i(2) by force
    have same: "applied ?st' ! j = applied ?st ! j" if "(j, t) \<in> set xs" for j t
      using encode_step_other(1) [OF ne [OF that]] .
    note IH = snoc.IH [OF sk]
    have old: "(\<exists>(j, t) \<in> set xs. applied ?st' ! j \<and> bit (flagMask t) n) \<longleftrightarrow> bit (flags ?st) n" for n
      using IH same by fastforce
    have coding: "\<forall>(j, t) \<in> set xs. applied ?st' ! j \<longrightarrow> coding_step t" using IH same by fastforce
    show ?case
    proof (rule encode_step_cases [where lib = lib and rmap = r and body = b and key = key and i = i
          and step = s and st = ?st])
      assume "work ?st' = work ?st" "flags ?st' = flags ?st" "applied ?st' = applied ?st"
      then show ?thesis using old coding na by (auto simp: x)
    next
      fix co assume "sop s = opCompress" "flags ?st' = flags ?st OR flagMask s"
        "applied ?st' = (applied ?st)[i := True]"
      then show ?thesis using old coding i(1) by (auto simp: x bit_or_iff coding_step_def)
    next
      fix ci assume "sop s = opEncrypt" "flags ?st' = flags ?st OR flagMask s"
        "applied ?st' = (applied ?st)[i := True]"
      then show ?thesis using old coding i(1) by (auto simp: x bit_or_iff coding_step_def)
    qed
  qed
  then show "bit (flags st') n \<longleftrightarrow> (\<exists>(i, s) \<in> set xs. applied st' ! i \<and> bit (flagMask s) n)"
    and "(i, s) \<in> set xs \<Longrightarrow> applied st' ! i \<Longrightarrow> coding_step s"
    by auto
qed

text \<open>The codecs whose pipeline can be run backwards.\<close>

definition symmetric_step :: "compiledStep \<Rightarrow> bool" where
  "symmetric_step s \<longleftrightarrow>
     (coding_step s \<longrightarrow> flagMask s \<noteq> 0) \<and>
     (case impl s of
        CipherImpl ci \<Rightarrow> encOffset s = decOffset s \<and> ci \<noteq> xxteaCipher \<and>
          (ci \<in> {aesEcbCipher, aesCbcCipher} \<longrightarrow> encOffset s \<le> 0) \<and>
          list_all (\<lambda>p. region p = regionCiphered) (produces s)
      | _ \<Rightarrow> True)"

definition masks_apart :: "SchemaCodec \<Rightarrow> bool" where
  "masks_apart c \<longleftrightarrow> sorted_wrt (\<lambda>a b. coding_step a \<and> coding_step b \<longrightarrow> flagMask a AND flagMask b = 0) (steps c)"

definition symmetric_codec :: "SchemaCodec \<Rightarrow> bool" where
  "symmetric_codec c \<longleftrightarrow> exact_fields c \<and> masks_apart c \<and> list_all symmetric_step (steps c)"

lemma masks_apart_nth:
  assumes "masks_apart c" "i < length (steps c)" "j < length (steps c)" "i \<noteq> j"
    "coding_step (steps c ! i)" "coding_step (steps c ! j)"
  shows "flagMask (steps c ! i) AND flagMask (steps c ! j) = 0"
proof (cases "i < j")
  case True
  then show ?thesis using assms by (auto simp: masks_apart_def sorted_wrt_iff_nth_less)
next
  case False
  then have "flagMask (steps c ! j) AND flagMask (steps c ! i) = 0"
    using assms by (auto simp: masks_apart_def sorted_wrt_iff_nth_less)
  then show ?thesis by (simp add: and.commute)
qed

lemma enumerate_mem: "(i, s) \<in> set (enumerate 0 xs) \<longleftrightarrow> i < length xs \<and> s = xs ! i"
  by (auto simp: in_set_enumerate_eq)

text \<open>A coding step runs in the decoder exactly when the encoder applied it.\<close>

lemma runs_iff_applied:
  fixes lib r body key
  assumes wf: "codec_wf c" and sym: "symmetric_codec c"
    and i: "i < length (steps c)" "coding_step (steps c ! i)"
  defines "st \<equiv> run_pipeline lib c r body key"
  shows "step_runs (hFlags (read_header c (build_header c st r))) (steps c ! i) \<longleftrightarrow> applied st ! i"
proof -
  let ?h = "hFlags (read_header c (build_header c st r))" and ?m = "flagMask (steps c ! i)"
  have ef: "exact_fields c" and nz: "?m \<noteq> 0"
    using sym i by (auto simp: symmetric_codec_def list_all_iff symmetric_step_def)
  have F: "bit (flags st) n \<longleftrightarrow> (\<exists>(i, s) \<in> set (enumerate 0 (steps c)). applied st ! i \<and> bit (flagMask s) n)"
    and C: "(i, s) \<in> set (enumerate 0 (steps c)) \<Longrightarrow> applied st ! i \<Longrightarrow> coding_step s" for n i s
    unfolding st_def run_pipeline_def
    by (rule flags_applied; auto simp: steps_known_def encode_init_def enumerate_mem distinct_map)+
  have H: "bit ?h n \<longleftrightarrow> bit (flags st) n \<and> (\<exists>f \<in> set (cfields c). role f = roleFlags \<and> n < 8 * fsize f)" for n
    by (rule decoded_header(2) [OF wf ef])
  have fits: "\<exists>f \<in> set (cfields c). role f = roleFlags \<and> n < 8 * fsize f" if "bit ?m n" for n
  proof -
    obtain f where f: "f \<in> set (cfields c)" "role f = roleFlags" "take_bit (8 * fsize f) ?m = ?m"
      using wf i(1) nz by (auto simp: codec_wf_def list_all_iff flag_wf_def list_ex_iff)
    have "bit (take_bit (8 * fsize f) ?m) n" unfolding f(3) by (rule that)
    then have "n < 8 * fsize f" by (simp add: bit_take_bit_iff)
    then show ?thesis using f(1,2) by blast
  qed
  show ?thesis
  proof
    assume ap: "applied st ! i"
    obtain n where n: "bit ?m n" using nz bit_eqI [of ?m 0] by auto
    have "(i, steps c ! i) \<in> set (enumerate 0 (steps c))" using i(1) by (simp add: enumerate_mem)
    then have "bit (flags st) n" using F [of n] ap n by blast
    then have "bit ?h n" using H fits [OF n] by blast
    then have "bit (?h AND ?m) n" using n by (simp add: bit_and_iff)
    then show "step_runs ?h (steps c ! i)" by (auto simp: step_runs_def)
  next
    assume "step_runs ?h (steps c ! i)"
    then have "?h AND ?m \<noteq> 0" using nz by (simp add: step_runs_def)
    then obtain n where n: "bit ?h n" "bit ?m n"
      using bit_eqI [of "?h AND ?m" 0] by (auto simp: bit_and_iff)
    then obtain j where j: "j < length (steps c)" "applied st ! j" "bit (flagMask (steps c ! j)) n"
      using H F by (auto simp: enumerate_mem)
    then have "coding_step (steps c ! j)" using C by (auto simp: enumerate_mem)
    moreover have "bit (?m AND flagMask (steps c ! j)) n" using n j by (simp add: bit_and_iff)
    then have "?m AND flagMask (steps c ! j) \<noteq> 0" by (metis bit_0_eq bot_apply bot_bool_def)
    ultimately have "i = j"
      using masks_apart_nth [of c i j] sym i j(1) by (auto simp: symmetric_codec_def)
    then show "applied st ! i" using j by simp
  qed
qed

subsection \<open>Undoing the pipeline\<close>

definition inflates_to :: "stdlib \<Rightarrow> compressorImpl \<Rightarrow> bytes \<Rightarrow> bytes option" where
  "inflates_to lib co w = (case Decompress lib co w of Inl e \<Rightarrow> None | Inr out \<Rightarrow> Some out)"

lemma inflate_step_ok:
  assumes "inflate_sound hash (inflates_to lib co) cache" "Decompress lib co w = Inr out"
  shows "\<exists>cache'. inflate_step lib hash c fl i step co w cache = (Inr out, cache')
    \<and> inflate_sound hash (inflates_to lib co) cache'"
proof -
  have D: "inflates_to lib co w = Some out" using assms(2) by (simp add: inflates_to_def)
  show ?thesis
  proof (cases "length w \<ge> inflateDedupMinBytes \<and> inflateShareSafe c i fl")
    case False
    then show ?thesis using assms by (auto simp: inflate_step_def)
  next
    case True
    obtain hit cache1 where g: "inflate_get hash cache w = (hit, cache1)" by fastforce
    have s: "inflate_sound hash (inflates_to lib co) cache1"
      and h: "hit = Some x \<Longrightarrow> x = out" for x
      using inflate_sound_get [OF assms(1) g] D by auto
    show ?thesis
      using True g assms(2) h s inflate_sound_put [OF s D]
      by (cases hit) (auto simp: inflate_step_def)
  qed
qed

text \<open>The checksums the decoder recomputes are those the encoder put into the header.\<close>

lemma stashed_digest:
  assumes "distinct (map pname (produces step))" "p \<in> set (produces step)"
  shows "stash_of (stashStep lib sh i step w b) i (pname p)
    = Some (digest lib (pimpl p) (stash_region step p w b))"
  using fold_upd_distinct [OF assms, of "\<lambda>p. digest lib (pimpl p) (stash_region step p w b)"] assms(2)
  by (auto simp: stashStep_def stash_of_def)

definition chk_consistent :: "SchemaCodec \<Rightarrow> headerVals \<Rightarrow> stash \<Rightarrow> nat \<Rightarrow> bool" where
  "chk_consistent c h sh i \<longleftrightarrow> (\<forall>k < length (cfields c). role (cfields c ! k) = roleChecksumOut \<longrightarrow>
     refStepIdx (checksumRef (cfields c ! k)) = int i \<longrightarrow>
     hChk h k = Some (take_bit (8 * fsize (cfields c ! k)) (checksum_value sh (checksumRef (cfields c ! k)))))"

lemma verify_passes:
  assumes wf: "codec_wf c" and i: "step = steps c ! i" "i < length (steps c)"
    and sym: "symmetric_step step" "impl step = CipherImpl ci"
    and chk: "chk_consistent c h (stashStep lib sh i step w b) i"
  shows "\<not> verifyProducesAfterDecrypt lib c i step w h"
proof -
  have "\<not> chk_mismatch lib i step w h (k, f)" if kf: "(k, f) \<in> set (enumerate 0 (cfields c))" for k f
  proof
    assume bad: "chk_mismatch lib i step w h (k, f)"
    have k: "k < length (cfields c)" "f = cfields c ! k" using kf by (auto simp: enumerate_mem)
    obtain want p where role: "role f = roleChecksumOut" "refStepIdx (checksumRef f) = int i"
      and want: "hChk h k = Some want"
      and p: "find (\<lambda>p. pname p = refProduceName (checksumRef f)) (produces step) = Some p"
      and ne: "truncateUintToSize (digest lib (pimpl p) (decodeCipheredRegion step w)) (int (fsize f)) \<noteq> want"
      using bad by (auto simp: chk_mismatch_def split: option.splits)
    have p': "p \<in> set (produces step)" "pname p = refProduceName (checksumRef f)"
      using p by (auto simp: find_Some_iff)
    have d: "distinct (map pname (produces step))" and sz: "0 < fsize f"
      using wf i k by (auto simp: codec_wf_def list_all_iff field_wf_def sized_def)
    have "stash_region step p w b = decodeCipheredRegion step w"
      using sym p'(1) by (auto simp: symmetric_step_def list_all_iff stash_region_def decodeCipheredRegion_def)
    then have "checksum_value (stashStep lib sh i step w b) (checksumRef f)
        = digest lib (pimpl p) (decodeCipheredRegion step w)"
      using stashed_digest [OF d p'(1), of lib sh i w b] p'(2) role(2) by (simp add: checksum_value_def)
    then have "want = take_bit (8 * fsize f) (digest lib (pimpl p) (decodeCipheredRegion step w))"
      using chk k role want by (auto simp: chk_consistent_def)
    then show False using ne truncate_take_bit [OF sz] by simp
  qed
  then show ?thesis by (auto simp: verifyProducesAfterDecrypt_def list_ex_iff)
qed

text \<open>One step of the decoder takes back one step of the encoder.\<close>

lemma decode_one_undoes:
  fixes lib r body key i step st
  defines "st' \<equiv> encode_step lib r body key (i, step) st"
  assumes wf: "codec_wf c" and i: "step = steps c ! i" "i < length (steps c)" "i < length (applied st)"
    and na: "\<not> applied st ! i" and sym: "symmetric_step step"
    and laws: "aes_laws lib" "gzip_laws lib"
    and co: "\<And>co'. impl step = CompressorImpl co' \<Longrightarrow> co' = co"
    and sound: "inflate_sound hash (inflates_to lib co) cache"
    and runs: "coding_step step \<Longrightarrow> step_runs (hFlags h) step \<longleftrightarrow> applied st' ! i"
    and chk: "chk_consistent c h (produced st') i"
  shows "\<exists>cache'. decode_one lib hash c key h i step (work st') cache = (Inr (work st), cache')
    \<and> inflate_sound hash (inflates_to lib co) cache'"
proof (rule encode_step_cases [where lib = lib and rmap = r and body = body and key = key and i = i
        and step = step and st = st, folded st'_def])
  assume "work st' = work st" "applied st' = applied st"
  moreover from this na runs have "coding_step step \<Longrightarrow> \<not> step_runs (hFlags h) step" by simp
  ultimately show ?thesis
    using sound by (auto simp: decode_one_def coding_step_def split: stepOp.splits stepImpl.splits)
next
  fix co' assume op: "sop step = opCompress" "impl step = CompressorImpl co'"
    "Compress lib co' (work st) = Inr (work st')" "applied st' = (applied st)[i := True]"
  then have "step_runs (hFlags h) step" using runs i(3) by (simp add: coding_step_def)
  moreover have "Decompress lib co (work st') = Inr (work st)"
    using decompress_compress [OF laws(2) op(3)] co op(2) by simp
  ultimately show ?thesis
    using inflate_step_ok [OF sound, of "work st'" "work st"] op co by (simp add: decode_one_def)
next
  fix ci assume op: "sop step = opEncrypt" "impl step = CipherImpl ci"
    "\<not> (requireKey (encodeWhen step) \<and> \<not> keyLenSatisfied step key)"
    "Encrypt lib ci (work st) key (encOffset step) (sparams step) = Inr (work st')"
    "applied st' = (applied st)[i := True]"
    "produced st' = stashStep lib (produced st) i step (work st) body"
  then have run: "step_runs (hFlags h) step" using runs i(3) by (simp add: coding_step_def)
  have "cipher_fits ci (work st) (encOffset step)" and eo: "encOffset step = decOffset step"
    using sym op(2) by (auto simp: cipher_fits_def symmetric_step_def)
  then have "Decrypt lib ci (work st') key (decOffset step) (sparams step) = Inr (work st)"
    using decrypt_encrypt [OF laws(1) op(4)] by simp
  then have "decrypt_with lib ci step (work st') key = Inr (work st)"
    using in_place_agrees [of ci "work st'" key "decOffset step" "sparams step" _ lib]
    by (cases "DecryptInPlace ci (work st') key (decOffset step) (sparams step)")
      (auto simp: decrypt_with_def)
  moreover have "\<not> verifyProducesAfterDecrypt lib c i step (work st) h"
    using verify_passes [OF wf i(1,2) sym op(2)] chk op(6) by simp
  ultimately show ?thesis using run op sound by (auto simp: decode_one_def decrypt_step_def)
qed

text \<open>The encoder's state after the first \<open>k\<close> steps, and what later steps leave of it.\<close>

definition after_steps :: "stdlib \<Rightarrow> SchemaCodec \<Rightarrow> route option \<Rightarrow> bytes \<Rightarrow> bytes \<Rightarrow> nat \<Rightarrow> encState" where
  "after_steps lib c r body key k =
    fold (encode_step lib r body key) (enumerate 0 (take k (steps c))) (encode_init c body)"

lemma enumerate_take_Suc:
  "k < length xs \<Longrightarrow> enumerate 0 (take (Suc k) xs) = enumerate 0 (take k xs) @ [(k, xs ! k)]"
  by (simp add: take_Suc_conv_app_nth enumerate_append_eq)

lemma after_Suc:
  "k < length (steps c) \<Longrightarrow> after_steps lib c r body key (Suc k)
    = encode_step lib r body key (k, steps c ! k) (after_steps lib c r body key k)"
  by (simp add: after_steps_def enumerate_take_Suc)

lemma after_all: "run_pipeline lib c r body key = after_steps lib c r body key (length (steps c))"
  by (simp add: after_steps_def run_pipeline_def)

lemma length_after [simp]: "length (applied (after_steps lib c r body key k)) = length (steps c)"
  by (simp add: after_steps_def encode_init_def)

lemma final_agrees:
  assumes "k < length (steps c)"
  shows "applied (run_pipeline lib c r body key) ! k = applied (after_steps lib c r body key (Suc k)) ! k"
    and "produced (run_pipeline lib c r body key) k = produced (after_steps lib c r body key (Suc k)) k"
proof -
  have "enumerate 0 (steps c) = enumerate 0 (take (Suc k) (steps c)) @ enumerate (Suc k) (drop (Suc k) (steps c))"
    using enumerate_append_eq [of 0 "take (Suc k) (steps c)" "drop (Suc k) (steps c)"] assms
    by (simp add: min_def)
  then have f: "run_pipeline lib c r body key
      = fold (encode_step lib r body key) (enumerate (Suc k) (drop (Suc k) (steps c)))
          (after_steps lib c r body key (Suc k))"
    by (simp add: run_pipeline_def after_steps_def)
  have "k \<notin> fst ` set (enumerate (Suc k) (drop (Suc k) (steps c)))" by (auto simp: in_set_enumerate_eq)
  from encode_fold_other [OF this] f
  show "applied (run_pipeline lib c r body key) ! k = applied (after_steps lib c r body key (Suc k)) ! k"
    and "produced (run_pipeline lib c r body key) k = produced (after_steps lib c r body key (Suc k)) k"
    by simp_all
qed

lemma not_yet_applied:
  assumes "k < length (steps c)" shows "\<not> applied (after_steps lib c r body key k) ! k"
proof -
  have "k \<notin> fst ` set (enumerate 0 (take k (steps c)))" by (auto simp: in_set_enumerate_eq)
  from encode_fold_other(1) [OF this] show ?thesis
    using assms by (simp add: after_steps_def encode_init_def)
qed

text \<open>All compression steps of a codec use one algorithm (the cache is keyed by content only).\<close>

definition one_compressor :: "compressorImpl \<Rightarrow> SchemaCodec \<Rightarrow> bool" where
  "one_compressor co c \<longleftrightarrow> list_all (\<lambda>s. case impl s of CompressorImpl co' \<Rightarrow> co' = co | _ \<Rightarrow> True) (steps c)"

lemma pipeline_undone:
  fixes lib c r body key
  defines "h \<equiv> read_header c (build_header c (run_pipeline lib c r body key) r)"
  assumes wf: "codec_wf c" and sym: "symmetric_codec c" and co: "one_compressor co c"
    and laws: "aes_laws lib" "gzip_laws lib"
    and k: "k \<le> length (steps c)" and sound: "inflate_sound hash (inflates_to lib co) cache"
  shows "\<exists>cache'. decode_steps lib hash c key h (rev (enumerate 0 (take k (steps c))))
      (work (after_steps lib c r body key k)) cache = (Inr body, cache')
    \<and> inflate_sound hash (inflates_to lib co) cache'"
  using k sound
proof (induction k arbitrary: cache)
  case 0
  then show ?case by (simp add: after_steps_def encode_init_def)
next
  case (Suc k)
  let ?st = "after_steps lib c r body key k"
  have k: "k < length (steps c)" using Suc.prems(1) by simp
  have ef: "exact_fields c" and ss: "symmetric_step (steps c ! k)"
    using sym k by (auto simp: symmetric_codec_def list_all_iff)
  have one: "co' = co" if "impl (steps c ! k) = CompressorImpl co'" for co'
    using co that nth_mem [OF k] by (auto simp: one_compressor_def list_all_iff)
  have runs: "coding_step (steps c ! k) \<Longrightarrow> step_runs (hFlags h) (steps c ! k)
      \<longleftrightarrow> applied (encode_step lib r body key (k, steps c ! k) ?st) ! k"
    using runs_iff_applied [OF wf sym k] final_agrees(1) [OF k] after_Suc [OF k] by (simp add: h_def)
  have chk: "chk_consistent c h (produced (encode_step lib r body key (k, steps c ! k) ?st)) k"
    using decoded_header(4) [OF wf ef] final_agrees(2) [OF k] after_Suc [OF k]
    by (auto simp: chk_consistent_def h_def checksum_value_def stash_of_def)
  obtain cache1 where one_step: "decode_one lib hash c key h k (steps c ! k)
      (work (encode_step lib r body key (k, steps c ! k) ?st)) cache = (Inr (work ?st), cache1)"
    and s1: "inflate_sound hash (inflates_to lib co) cache1"
    using decode_one_undoes [OF wf refl k _ not_yet_applied [OF k] ss laws one Suc.prems(2) runs chk] k
    by auto
  then show ?case
    using Suc.IH [OF _ s1] k by (simp add: enumerate_take_Suc after_Suc)
qed

lemma decode_encode:
  assumes "codec_wf c" "symmetric_codec c" "one_compressor co c" "aes_laws lib" "gzip_laws lib"
    and "route_fits c route" and "inflate_sound hash (inflates_to lib co) cache"
  shows "fst (decode lib hash c cache (encode lib c route body key) key)
      = \<lparr>dRouteKey = ExpectedRouteKey c route, dBody = Some body, dHeaderErr = 0, dReason = ReasonNone\<rparr>
    \<and> inflate_sound hash (inflates_to lib co) (snd (decode lib hash c cache (encode lib c route body key) key))"
proof -
  define r where "r = routeAsMap route"
  define st where "st = run_pipeline lib c r body key"
  have enc: "encode lib c route body key = build_header c st r @ work st @ replicate (trailerSize c) 0"
    by (simp add: encode_def r_def st_def Let_def)
  have lh: "length (build_header c st r) = headerSize c" using assms(1) by simp
  have ef: "exact_fields c" using assms(2) by (simp add: symmetric_codec_def)
  obtain cache' where d: "decode_steps lib hash c key (read_header c (build_header c st r))
      (rev (enumerate 0 (steps c))) (work st) cache = (Inr body, cache')"
    and s: "inflate_sound hash (inflates_to lib co) cache'"
    using pipeline_undone [where r = r and body = body and key = key, OF assms(1-5) order.refl assms(7)]
    by (auto simp: st_def after_all)
  have "bytes_at (encode lib c route body key) (headerSize c)
      (length (encode lib c route body key) - trailerSize c - headerSize c) = work st"
    unfolding enc using lh by (simp add: bytes_at_def)
  moreover have "take (headerSize c) (encode lib c route body key) = build_header c st r"
    unfolding enc using lh by simp
  moreover have "\<not> length (encode lib c route body key) < headerSize c + trailerSize c"
    unfolding enc using lh by simp
  ultimately have "decode lib hash c cache (encode lib c route body key) key =
      (\<lparr>dRouteKey = buildDecodeRouteKey c (hRoute (read_header c (build_header c st r))), dBody = Some body,
        dHeaderErr = hErr (read_header c (build_header c st r)), dReason = ReasonNone\<rparr>, cache')"
    unfolding decode_def by (simp add: d Let_def)
  then show ?thesis
    using s decoded_header(1) [OF assms(1) ef] route_key_back [OF assms(1) ef assms(6)] by (simp add: r_def)
qed

subsection \<open>Properties\<close>

text \<open>
  C2. Decoding inverts encoding.  Take any accepted schema that compiles to a symmetric codec:
  every coding step has a flag of its own, encrypts and decrypts from the same offset with a cipher
  that keeps the body's length recoverable and checks only products over the ciphered region, and
  no field is a big-endian 24-bit one.  Then, whatever each step's condition decides for this body,
  key and route, decoding the encoded frame returns the body, the very route key the sender
  computed from the request, error code 0 and no failure reason, also when the decompression is
  answered by the shared cache, which stays sound.
\<close>

theorem decode_inverts_encode:
  assumes "NewSchemaCodec (Some s) em = Inr c" and "small_ints s"
    and "symmetric_codec c" and "one_compressor co c" and "aes_laws lib" and "gzip_laws lib"
    and "route_fits c route" and "inflate_sound hash (inflates_to lib co) cache"
  shows "fst (decode lib hash c cache (encode lib c route body key) key)
      = \<lparr>dRouteKey = ExpectedRouteKey c route, dBody = Some body, dHeaderErr = 0, dReason = ReasonNone\<rparr>
    \<and> inflate_sound hash (inflates_to lib co) (snd (decode lib hash c cache (encode lib c route body key) key))"
  by (rule decode_encode [OF NewSchemaCodec_wf [OF assms(1,2)] assms(3-8)])

definition sample_route :: routeArg where
  "sample_route = RouteMap [''cmd'' \<mapsto> VF64 (Fin 1), ''act'' \<mapsto> VInt KInt 2]"

lemma sample_lib_laws: "aes_laws sample_lib"
  by (simp add: aes_laws_def sample_lib_def)

lemma shared_cache_sound: "inflate_sound hash D sharedInflateCache"
  by (simp add: sharedInflateCache_def inflate_sound_new inflateCacheMaxEntries_def inflateCacheMaxBytes_def)

lemma tcp_logic_symmetric:
  "symmetric_codec tcp_logic" "one_compressor gzipCompressor tcp_logic" "route_fits tcp_logic sample_route"
  "ExpectedRouteKey tcp_logic sample_route = ''1:2''"
  by code_simp+

theorem decode_inverts_encode_witness:
  "fst (decode sample_lib (\<lambda>_. 0) tcp_logic sharedInflateCache
      (encode sample_lib tcp_logic sample_route [9, 8, 7] (replicate 32 5)) (replicate 32 5))
   = \<lparr>dRouteKey = ''1:2'', dBody = Some [9, 8, 7], dHeaderErr = 0, dReason = ReasonNone\<rparr>"
  using decode_inverts_encode [OF tcp_logic_compiles tcp_logic_small tcp_logic_symmetric(1,2)
      sample_lib_laws sample_gzip_laws tcp_logic_symmetric(3) shared_cache_sound,
      of "\<lambda>_. 0" "[9, 8, 7]" "replicate 32 5"]
  by (simp add: tcp_logic_symmetric(4))

text \<open>On the wire that body is not the plaintext: the frame of the encrypted request.\<close>

lemma tcp_logic_frame:
  "encode sample_lib tcp_logic sample_route [9, 8, 7] (replicate 32 5)
   = [3, 0, 0, 0, 0, 0, 1, 2, 0, 0, 1, 6, 96, 107, 107]"
  by code_simp

subsection \<open>Where the two directions differ\<close>

text \<open>
  A step without a condition gets the zero \<open>compiledWhen\<close>, whose \<open>appliesWithIdx\<close> is 0: it only
  runs after step 0 was applied, so as the first step it never runs.  The decoder, which finds no
  flag to ask for, always runs it.
\<close>

lemma unconditional_first_step_skipped:
  assumes "steps c = [step]" "encodeWhen step = zeroWhen"
  shows "work (run_pipeline lib c r body key) = body"
  using assms by (simp add: run_pipeline_def encode_step_def candidate_def zeroWhen_def encode_init_def)

definition unconditional_schema :: Schema where
  "unconditional_schema = tcp_logic_schema\<lparr>
     Header := map (\<lambda>f. if Role f = ''checksumOut'' then f\<lparr>Role := ''reserved'', From := ''''\<rparr> else f)
       (Header tcp_logic_schema),
     Pipeline := [\<lparr>stOp = ''encrypt'', stName = ''enc'', stAlgo = ''xor'', stFlag = '''', stParams = Map.empty,
        stKeyLen = 0, stOffset = None, stProduces = [], stOver = None, stOnError = '''', stWhen = None\<rparr>]\<rparr>"

lemma unconditional_step_garbles:
  "Validate unconditional_schema = []"
  "dBody (fst (decode sample_lib (\<lambda>_. 0) (projr (NewSchemaCodec (Some unconditional_schema) None)) sharedInflateCache
     (encode sample_lib (projr (NewSchemaCodec (Some unconditional_schema) None)) sample_route [9, 8, 7] [5]) [5]))
   = Some [12, 13, 2]"
  by code_simp+

text \<open>
  The decompression cache is keyed by the compressed bytes alone: what a codec without compression
  registered is handed to a codec that compresses with gzip.
\<close>

lemma cache_ignores_algorithm:
  "fst (inflate_get (\<lambda>_. 0) (inflate_put (\<lambda>_. 0) (inflate_put (\<lambda>_. 0) sharedInflateCache [31, 5] [31, 5])
     [31, 5] [31, 5]) [31, 5]) = Some [31, 5]
   \<and> Decompress sample_lib gzipCompressor [31, 5] = Inr [5]"
  by code_simp

text \<open>
  A key longer than 32 bytes passes the length test of a step that asks for 32, but the cipher
  works with exactly 32: the body goes out in clear with the flag set.
\<close>

lemma long_key_sent_in_clear:
  "encode sample_lib tcp_logic sample_route [9, 8, 7] (replicate 33 5)
   = [3, 0, 0, 0, 0, 0, 1, 2, 0, 0, 1, 6, 9, 8, 7]"
  by code_simp

text \<open>A guard truncates a fractional route value, the header rounds it down.\<close>

lemma guard_truncates_header_floors:
  "routeValue \<lparr>cgFieldIdx = 0, cgFieldName = ''cmd'', cgOp = ''eq'', cgValue = 0\<rparr>
     [''cmd'' \<mapsto> VF64 (Fin (- 1 / 2))] = Some 0
   \<and> routeMapFloorInt (Some [''cmd'' \<mapsto> VF64 (Fin (- 1 / 2))]) ''cmd'' = - 1"
  by code_simp

text \<open>An offset next to the largest \<open>int64\<close> passes the bounds check, whose sum wraps.\<close>

lemma overflowing_offset_accepted:
  "Validate (tcp_logic_schema\<lparr>Header := Header tcp_logic_schema @
     [plain_field ''pad'' ''u8'' (2 ^ 63 - 1) 1 ''reserved'']\<rparr>) = []"
  by code_simp

end
