(* ===== verification/Framing.thy ===== *)
theory Framing
  imports CodecRoundTrip
begin

text \<open>
  Cutting the byte stream of a connection into frames (\<^verbatim>\<open>network/gnet.go\<close>, \<open>OnTraffic\<close>, and the
  engine limits of \<^verbatim>\<open>engine_config.go\<close>).  The event loop's inbound buffer is a list of bytes; the
  connection the frames are handed to is any state with an enqueue operation, or absent when the
  descriptor is not registered.  The loop is a partial function, because nothing in it forces
  progress when the header size is 0; \<open>OnTraffic_returns\<close> shows that it returns for every accepted
  schema.
\<close>

subsection \<open>Limits\<close>

record EngineConfig =
  ReadBufferCap :: int
  WriteBufferCap :: int
  NumEventLoop :: int
  MaxConcurrentDials :: int
  MaxBodyLen :: int

definition defaultReadBufferCap :: int where "defaultReadBufferCap = 32 * 1024"
definition defaultWriteBufferCap :: int where "defaultWriteBufferCap = 32 * 1024"
definition defaultMaxDials :: int where "defaultMaxDials = 512"
definition defaultMaxBodyLen :: int where "defaultMaxBodyLen = 16 * 1024 * 1024"

definition engineOrDefault :: "int \<Rightarrow> int \<Rightarrow> int" where
  "engineOrDefault value def = (if value > 0 then value else def)"

text \<open>The number of processors is an argument.\<close>

definition normalize :: "int \<Rightarrow> EngineConfig \<Rightarrow> EngineConfig" where
  "normalize numCPU c =
    \<lparr>ReadBufferCap = engineOrDefault (ReadBufferCap c) defaultReadBufferCap,
     WriteBufferCap = engineOrDefault (WriteBufferCap c) defaultWriteBufferCap,
     NumEventLoop = engineOrDefault (NumEventLoop c) numCPU,
     MaxConcurrentDials = engineOrDefault (MaxConcurrentDials c) defaultMaxDials,
     MaxBodyLen = engineOrDefault (MaxBodyLen c) defaultMaxBodyLen\<rparr>"

subsection \<open>The loop\<close>

datatype gnetAction = ActionNone | ActionClose

datatype enqueueResult = EnqueueOK | EnqueueClosed | EnqueueChFull

text \<open>
  \<open>Peek\<close> and \<open>Read\<close> of the gnet connection: they fail when fewer bytes are buffered than asked for.
\<close>

definition Peek :: "nat \<Rightarrow> bytes \<Rightarrow> bytes option" where
  "Peek n buf = (if length buf < n then None else Some (take n buf))"

definition Read :: "nat \<Rightarrow> bytes \<Rightarrow> (bytes \<times> bytes) option" where
  "Read n buf = (if length buf < n then None else Some (take n buf, drop n buf))"

partial_function (option) OnTraffic ::
  "SchemaCodec \<Rightarrow> int \<Rightarrow> (bytes \<Rightarrow> 's \<Rightarrow> enqueueResult \<times> 's) option \<Rightarrow> bytes \<Rightarrow> 's \<Rightarrow>
   (gnetAction \<times> bytes \<times> 's) option" where
  "OnTraffic c maxBodyLen conn buf s =
    (if length buf < headerSize c then Some (ActionNone, buf, s)
     else case Peek (headerSize c) buf of
       None \<Rightarrow> Some (ActionNone, buf, s)
     | Some headBuf \<Rightarrow>
        (let bodyLen = BodyLength c headBuf; totalLen = headerSize c + nat bodyLen in
         if bodyLen < 0 \<or> bodyLen > maxBodyLen then Some (ActionClose, buf, s)
         else if length buf < totalLen then Some (ActionNone, buf, s)
         else case Read totalLen buf of
           None \<Rightarrow> Some (ActionNone, buf, s)
         | Some (msgBuf, rest) \<Rightarrow>
            (case conn of
               None \<Rightarrow> OnTraffic c maxBodyLen conn rest s
             | Some enq \<Rightarrow>
                (if fst (enq msgBuf s) = EnqueueChFull then Some (ActionClose, rest, snd (enq msgBuf s))
                 else OnTraffic c maxBodyLen conn rest (snd (enq msgBuf s))))))"

declare OnTraffic.simps [code]

subsection \<open>One frame at a time\<close>

text \<open>
  What the loop finds at the front of the buffer: too few bytes, a length it refuses, or a frame.
\<close>

datatype front = Short | Refused | Whole nat

definition front_of :: "SchemaCodec \<Rightarrow> int \<Rightarrow> bytes \<Rightarrow> front" where
  "front_of c maxBodyLen buf =
    (if length buf < headerSize c then Short
     else let bodyLen = BodyLength c (take (headerSize c) buf); totalLen = headerSize c + nat bodyLen in
       if bodyLen < 0 \<or> bodyLen > maxBodyLen then Refused
       else if length buf < totalLen then Short else Whole totalLen)"

lemma OnTraffic_front:
  "OnTraffic c m conn buf s =
    (case front_of c m buf of
       Short \<Rightarrow> Some (ActionNone, buf, s)
     | Refused \<Rightarrow> Some (ActionClose, buf, s)
     | Whole n \<Rightarrow>
        (case conn of
           None \<Rightarrow> OnTraffic c m conn (drop n buf) s
         | Some enq \<Rightarrow>
            (if fst (enq (take n buf) s) = EnqueueChFull
             then Some (ActionClose, drop n buf, snd (enq (take n buf) s))
             else OnTraffic c m conn (drop n buf) (snd (enq (take n buf) s)))))"
  by (subst OnTraffic.simps) (auto simp: front_of_def Peek_def Read_def Let_def split: option.splits)

lemma front_frame:
  assumes "front_of c m buf = Whole n"
  shows "headerSize c \<le> n" "n \<le> length buf" "front_of c m (buf @ xs) = Whole n"
  using assms by (auto simp: front_of_def Let_def split: if_splits)

lemma front_refused: "front_of c m buf = Refused \<Longrightarrow> front_of c m (buf @ xs) = Refused"
  by (auto simp: front_of_def Let_def split: if_splits)

lemma take_frame: "front_of c m buf = Whole n \<Longrightarrow> take n (buf @ xs) = take n buf \<and> drop n (buf @ xs) = drop n buf @ xs"
  using front_frame(2) [of c m buf n] by simp

text \<open>The loop returns whenever a header has at least one byte.\<close>

lemma OnTraffic_defined: "0 < headerSize c \<Longrightarrow> \<exists>r. OnTraffic c m conn buf s = Some r"
proof (induction "length buf" arbitrary: buf s rule: less_induct)
  case less
  show ?case
  proof (cases "front_of c m buf")
    case (Whole n)
    then have "length (drop n buf) < length buf"
      using front_frame [OF Whole] less.prems by simp
    then have "\<exists>r. OnTraffic c m conn (drop n buf) s' = Some r" for s'
      using less.hyps less.prems by blast
    then show ?thesis
      using Whole by (subst OnTraffic_front) (auto split: option.splits)
  qed (subst OnTraffic_front, simp)+
qed

text \<open>When it returns without closing, nothing complete is left in the buffer.\<close>

lemma OnTraffic_idle:
  assumes "0 < headerSize c" "OnTraffic c m conn buf s = Some (ActionNone, rest, s')"
  shows "OnTraffic c m conn rest s' = Some (ActionNone, rest, s')"
  using assms
proof (induction "length buf" arbitrary: buf s rule: less_induct)
  case less
  show ?case
  proof (cases "front_of c m buf")
    case Short
    then show ?thesis using less.prems by (subst (asm) OnTraffic_front) (auto simp: OnTraffic_front)
  next
    case Refused
    then show ?thesis using less.prems by (subst (asm) OnTraffic_front) simp
  next
    case (Whole n)
    have sh: "length (drop n buf) < length buf" using front_frame [OF Whole] less.prems(1) by simp
    have "\<exists>s1. OnTraffic c m conn (drop n buf) s1 = Some (ActionNone, rest, s')"
      using less.prems(2) Whole by (subst (asm) OnTraffic_front) (auto split: option.splits if_splits)
    then show ?thesis using less.hyps [OF sh less.prems(1)] by blast
  qed
qed

subsection \<open>Segmentation of the stream\<close>

lemma OnTraffic_append:
  assumes "0 < headerSize c" "OnTraffic c m conn b1 s = Some (a, rest, s')"
  shows "OnTraffic c m conn (b1 @ b2) s =
    (if a = ActionNone then OnTraffic c m conn (rest @ b2) s' else Some (ActionClose, rest @ b2, s'))"
  using assms
proof (induction "length b1" arbitrary: b1 s rule: less_induct)
  case less
  show ?case
  proof (cases "front_of c m b1")
    case Short
    then have "OnTraffic c m conn b1 s = Some (ActionNone, b1, s)" by (subst OnTraffic_front) simp
    then show ?thesis using less.prems by simp
  next
    case Refused
    then have "OnTraffic c m conn (b1 @ b2) s = Some (ActionClose, b1 @ b2, s)" for b2
      using front_refused [of c m b1 b2] by (subst OnTraffic_front) simp
    from this [of "[]"] this [of b2] show ?thesis using less.prems by simp
  next
    case (Whole n)
    have sh: "length (drop n b1) < length b1" using front_frame [OF Whole] less.prems(1) by simp
    show ?thesis
    proof (cases conn)
      case None
      have "OnTraffic c m conn (drop n b1) s = Some (a, rest, s')"
        using less.prems(2) Whole None by (subst (asm) OnTraffic_front) simp
      from less.hyps [OF sh less.prems(1) this] show ?thesis
        using front_frame(3) [OF Whole] take_frame [OF Whole] None
        by (subst OnTraffic_front) simp
    next
      case (Some enq)
      show ?thesis
      proof (cases "fst (enq (take n b1) s) = EnqueueChFull")
        case True
        then have "OnTraffic c m conn (b1 @ b2) s = Some (ActionClose, drop n b1 @ b2, snd (enq (take n b1) s))" for b2
          using front_frame(2,3) [OF Whole] Some by (subst OnTraffic_front) simp
        from this [of "[]"] this [of b2] show ?thesis using less.prems by simp
      next
        case False
        then have "OnTraffic c m conn (drop n b1) (snd (enq (take n b1) s)) = Some (a, rest, s')"
          using less.prems(2) Whole Some by (subst (asm) OnTraffic_front) simp
        from less.hyps [OF sh less.prems(1) this] show ?thesis
          using front_frame(2,3) [OF Whole] Some False by (subst OnTraffic_front) simp
      qed
    qed
  qed
qed

text \<open>
  The bytes of a connection arrive in segments of any size; gnet keeps what a callback left in
  the buffer, and a closed connection reads no further.
\<close>

fun feed ::
  "SchemaCodec \<Rightarrow> int \<Rightarrow> (bytes \<Rightarrow> 's \<Rightarrow> enqueueResult \<times> 's) option \<Rightarrow> bytes \<Rightarrow> 's \<Rightarrow> bytes list \<Rightarrow>
   (gnetAction \<times> bytes \<times> 's) option" where
  "feed c m conn buf s [] = Some (ActionNone, buf, s)"
| "feed c m conn buf s (seg # segs) =
    (case OnTraffic c m conn (buf @ seg) s of
       Some (ActionNone, rest, s') \<Rightarrow> feed c m conn rest s' segs
     | r \<Rightarrow> r)"

lemma feed_concat:
  assumes "0 < headerSize c" "segs \<noteq> []"
  shows "map_option (\<lambda>(a, rest, s'). (a, s')) (feed c m conn buf s segs) =
    map_option (\<lambda>(a, rest, s'). (a, s')) (OnTraffic c m conn (buf @ concat segs) s)"
  using assms
proof (induction segs arbitrary: buf s)
  case (Cons seg segs)
  obtain a rest s' where one: "OnTraffic c m conn (buf @ seg) s = Some (a, rest, s')"
    using OnTraffic_defined [OF Cons.prems(1), of m conn "buf @ seg" s] by auto
  have all: "OnTraffic c m conn (buf @ concat (seg # segs)) s =
      (if a = ActionNone then OnTraffic c m conn (rest @ concat segs) s'
       else Some (ActionClose, rest @ concat segs, s'))"
    using OnTraffic_append [OF Cons.prems(1) one, of "concat segs"] by simp
  show ?case
  proof (cases "a = ActionNone \<and> segs \<noteq> []")
    case True
    then show ?thesis using one all Cons.IH [OF Cons.prems(1), of rest s'] by simp
  next
    case False
    then have "a = ActionClose \<or> segs = []" by (cases a) auto
    moreover have "OnTraffic c m conn rest s' = Some (ActionNone, rest, s')" if "a = ActionNone"
      using OnTraffic_idle [OF Cons.prems(1) one [unfolded that]] .
    ultimately show ?thesis using one all by (cases a) auto
  qed
qed simp

subsection \<open>Frames of a codec\<close>

text \<open>
  A frame is well cut when its header announces exactly the bytes behind it.  Handing the frames
  to the connection in order, as long as it never reports a full channel:
\<close>

definition well_cut :: "SchemaCodec \<Rightarrow> int \<Rightarrow> bytes \<Rightarrow> bool" where
  "well_cut c maxBodyLen f \<longleftrightarrow>
     headerSize c \<le> length f \<and>
     BodyLength c (take (headerSize c) f) = int (length f - headerSize c) \<and>
     int (length f - headerSize c) \<le> maxBodyLen"

fun deliver :: "(bytes \<Rightarrow> 's \<Rightarrow> enqueueResult \<times> 's) \<Rightarrow> bytes list \<Rightarrow> 's \<Rightarrow> 's option" where
  "deliver enq [] s = Some s"
| "deliver enq (f # fs) s =
     (if fst (enq f s) = EnqueueChFull then None else deliver enq fs (snd (enq f s)))"

lemma front_well_cut:
  assumes "well_cut c m f"
  shows "front_of c m (f @ xs) = Whole (length f)"
  using assms by (auto simp: front_of_def well_cut_def Let_def)

lemma OnTraffic_frames:
  assumes "list_all (well_cut c m) fs" "deliver enq fs s = Some s'"
  shows "OnTraffic c m (Some enq) (concat fs @ xs) s = OnTraffic c m (Some enq) xs s'"
  using assms
proof (induction fs arbitrary: s)
  case (Cons f fs)
  then show ?case
    using front_well_cut [of c m f "concat fs @ xs"]
    by (subst OnTraffic_front) (auto split: if_splits)
qed simp

text \<open>Encoded frames are well cut when the length field counts the trailer or there is none.\<close>

definition counts_trailer :: "SchemaCodec \<Rightarrow> bool" where
  "counts_trailer c \<longleftrightarrow> trailerSize c = 0 \<or> lengthIncludesTrailer c"

definition length_fits :: "stdlib \<Rightarrow> SchemaCodec \<Rightarrow> int \<Rightarrow> routeArg \<times> bytes \<times> bytes \<Rightarrow> bool" where
  "length_fits lib c maxBodyLen req =
    (let (route, body, key) = req; n = length (encode lib c route body key) in
     int n \<le> maxBodyLen \<and> int n < 2 ^ 63 \<and> int n < 2 ^ (8 * fsize (lengthField c)))"

lemma body_length_encoded:
  assumes "codec_wf c" "exact_kind (endian (lengthField c)) (kind (lengthField c))" "counts_trailer c"
    and "length_fits lib c m (route, body, key)"
  shows "well_cut c m (encode lib c route body key)"
proof -
  define st where "st = run_pipeline lib c (routeAsMap route) body key"
  define h where "h = build_header c st (routeAsMap route)"
  define n where "n = length (work st) + trailerSize c"
  have enc: "encode lib c route body key = h @ work st @ replicate (trailerSize c) 0"
    by (simp add: encode_def st_def h_def Let_def)
  have lh: "length h = headerSize c" using assms(1) by (simp add: h_def)
  have "length (encode lib c route body key) = headerSize c + n" using lh by (simp add: enc n_def)
  then have "int (headerSize c + n) < 2 ^ 63" "int (headerSize c + n) < 2 ^ (8 * fsize (lengthField c))"
    and le: "int (headerSize c + n) \<le> m"
    using assms(4) by (simp_all only: length_fits_def Let_def prod.case)
  then have small: "headerSize c + n < 2 ^ 63" "headerSize c + n < 2 ^ (8 * fsize (lengthField c))"
    by (simp_all only: of_nat_less_numeral_power_cancel_iff)
  define v where "v = (if lengthIncludesHeader c then headerSize c + n else n)"
  have v: "lengthVal c (length (work st)) = v"
    using assms(3) by (auto simp: lengthVal_def n_def v_def counts_trailer_def)
  have vb: "v < 2 ^ 63" "v < 2 ^ (8 * fsize (lengthField c))" using small by (auto simp: v_def)
  have "take_bit (8 * fsize (lengthField c)) (of_nat v :: u64) = of_nat v"
    using vb by (simp add: take_bit_of_nat take_bit_nat_eq_self)
  moreover have "sint (of_nat v :: u64) = int v"
    using sint_of_i64 [of "int v"] vb by (simp add: is_i64_def)
  ultimately have rd: "readField h (lengthField c) = Some (of_nat v)" "sint (of_nat v :: u64) = int v"
    using header_length_field [OF assms(1,2), of st "routeAsMap route"] v by (simp_all add: h_def)
  have "wrap64 (int v - int (headerSize c)) = int v - int (headerSize c)"
    using vb small by (intro wrap64_id) (auto simp: is_i64_def)
  then have "BodyLength c h = int n"
    using rd by (auto simp: BodyLength_def v_def Let_def)
  then show ?thesis
    using lh le by (simp add: well_cut_def enc n_def)
qed


subsection \<open>Properties\<close>

text \<open>
  The event loop's handler returns on every buffer, whatever the connection answers, for every
  codec compiled from an accepted schema: a header has at least one byte.
\<close>

theorem OnTraffic_returns:
  assumes "NewSchemaCodec (Some s) em = Inr c" "small_ints s"
  shows "\<exists>action rest st'. OnTraffic c maxBodyLen conn buf st = Some (action, rest, st')"
  using OnTraffic_defined [of c maxBodyLen conn buf st] NewSchemaCodec_wf [OF assms]
  by (auto simp: codec_wf_def)

text \<open>
  C17. How the network splits the stream into segments does not matter: feeding any segments one
  after the other delivers the same frames to the connection, ends in the same connection state and
  closes it in the same cases as one call on the whole stream.
\<close>

theorem segmentation_irrelevant:
  assumes "NewSchemaCodec (Some s) em = Inr c" "small_ints s" "segs \<noteq> []"
  shows "map_option (\<lambda>(action, rest, st'). (action, st')) (feed c maxBodyLen conn [] st segs) =
    map_option (\<lambda>(action, rest, st'). (action, st')) (OnTraffic c maxBodyLen conn (concat segs) st)"
  using feed_concat [of c segs maxBodyLen conn "[]" st] NewSchemaCodec_wf [OF assms(1,2)] assms(3)
  by (simp add: codec_wf_def)

text \<open>
  A stream of encoded frames is cut back into exactly these frames, in order, with a started
  frame left in the buffer, if the length field counts the trailer (or there is none) and every
  frame fits the field and the limit.
\<close>

theorem encoded_stream_cut:
  assumes "NewSchemaCodec (Some s) em = Inr c" "small_ints s"
    and "exact_kind (endian (lengthField c)) (kind (lengthField c))" "counts_trailer c"
    and "list_all (length_fits lib c maxBodyLen) reqs" "front_of c maxBodyLen started = Short"
    and "deliver enq (map (\<lambda>(route, body, key). encode lib c route body key) reqs) st = Some st'"
  shows "OnTraffic c maxBodyLen (Some enq)
      (concat (map (\<lambda>(route, body, key). encode lib c route body key) reqs) @ started) st
    = Some (ActionNone, started, st')"
proof -
  have wf: "codec_wf c" by (rule NewSchemaCodec_wf [OF assms(1,2)])
  have "list_all (well_cut c maxBodyLen) (map (\<lambda>(route, body, key). encode lib c route body key) reqs)"
    using body_length_encoded [OF wf assms(3,4)] assms(5) by (auto simp: list_all_iff)
  from OnTraffic_frames [OF this assms(7)] show ?thesis
    using assms(6) by (simp add: OnTraffic_front [of c maxBodyLen _ started])
qed

definition collect :: "bytes \<Rightarrow> bytes list \<Rightarrow> enqueueResult \<times> bytes list" where
  "collect f fs = (EnqueueOK, fs @ [f])"

lemma tcp_logic_cut:
  "exact_kind (endian (lengthField tcp_logic)) (kind (lengthField tcp_logic))" "counts_trailer tcp_logic"
  "list_all (length_fits sample_lib tcp_logic 100)
     [(sample_route, [9, 8, 7], replicate 32 5), (sample_route, [], [])]"
  "front_of tcp_logic 100 [7, 0] = Short"
  "deliver collect (map (\<lambda>(route, body, key). encode sample_lib tcp_logic route body key)
     [(sample_route, [9, 8, 7], replicate 32 5), (sample_route, [], [])]) []
   = Some [[3, 0, 0, 0, 0, 0, 1, 2, 0, 0, 1, 6, 96, 107, 107], [0, 0, 0, 0, 0, 0, 1, 2, 0, 0, 0, 0]]"
  by code_simp+

theorem encoded_stream_cut_witness:
  "OnTraffic tcp_logic 100 (Some collect)
     (concat (map (\<lambda>(route, body, key). encode sample_lib tcp_logic route body key)
        [(sample_route, [9, 8, 7], replicate 32 5), (sample_route, [], [])]) @ [7, 0]) []
   = Some (ActionNone, [7, 0],
      [[3, 0, 0, 0, 0, 0, 1, 2, 0, 0, 1, 6, 96, 107, 107], [0, 0, 0, 0, 0, 0, 1, 2, 0, 0, 0, 0]])"
  using encoded_stream_cut [where lib = sample_lib and maxBodyLen = 100 and started = "[7, 0]"
      and reqs = "[(sample_route, [9, 8, 7], replicate 32 5), (sample_route, [], [])]" and enq = collect and st = "[]",
      OF tcp_logic_compiles tcp_logic_small tcp_logic_cut] .

theorem OnTraffic_returns_witness:
  "\<exists>action rest st'. OnTraffic tcp_logic 100 (Some collect) [1, 2, 3] [] = Some (action, rest, st')"
  by (rule OnTraffic_returns [OF tcp_logic_compiles tcp_logic_small])

theorem segmentation_irrelevant_witness:
  "map_option (\<lambda>(action, rest, st'). (action, st')) (feed tcp_logic 100 (Some collect) [] [] [[3, 0], [0, 0, 0]]) =
   map_option (\<lambda>(action, rest, st'). (action, st')) (OnTraffic tcp_logic 100 (Some collect) [3, 0, 0, 0, 0] [])"
  using segmentation_irrelevant [OF tcp_logic_compiles tcp_logic_small, of "[[3, 0], [0, 0, 0]]" 100 "Some collect" "[]"]
  by simp

text \<open>
  A trailer that the length field does not count stays behind: the frame is handed over without it
  and its bytes are taken for the start of the next header.
\<close>

definition trailer_schema :: Schema where
  "trailer_schema = tcp_logic_schema\<lparr>Frame := (Frame tcp_logic_schema)\<lparr>TrailerSize := 2\<rparr>\<rparr>"

lemma uncounted_trailer_left:
  "Validate trailer_schema = []"
  "OnTraffic (projr (NewSchemaCodec (Some trailer_schema) None)) 100 (Some collect)
     (encode sample_lib (projr (NewSchemaCodec (Some trailer_schema) None)) sample_route [9] []) []
   = Some (ActionNone, [0, 0], [[1, 0, 0, 0, 0, 0, 1, 2, 0, 0, 0, 0, 9]])"
  by code_simp+

end
