(* ===== verification/ListenQueue.thy ===== *)
theory ListenQueue
  imports Prelude
begin

text \<open>
  The bounded queue of received messages per route (\<^verbatim>\<open>network/listen_queue.go\<close>).  Each operation
  runs under the queue's mutex, so it is one step.  The locale \<open>bounded_fifo\<close> is what the
  connection relies on: a first-in-first-out queue that drops its oldest element when it is full.
  The ring buffer is an interpretation of it.
\<close>

subsection \<open>The contract\<close>

text \<open>Pushing a sequence of messages, the number of drops it reports, and popping several.\<close>

definition push_all :: "('m \<Rightarrow> 'q \<Rightarrow> bool \<times> 'q) \<Rightarrow> 'm list \<Rightarrow> 'q \<Rightarrow> 'q" where
  "push_all push ms q = fold (\<lambda>m q. snd (push m q)) ms q"

primrec drops :: "('m \<Rightarrow> 'q \<Rightarrow> bool \<times> 'q) \<Rightarrow> 'm list \<Rightarrow> 'q \<Rightarrow> nat" where
  "drops push [] q = 0"
| "drops push (m # ms) q = (if fst (push m q) then 1 else 0) + drops push ms (snd (push m q))"

primrec pop_n :: "('q \<Rightarrow> 'm option \<times> 'q) \<Rightarrow> nat \<Rightarrow> 'q \<Rightarrow> 'm list" where
  "pop_n pop 0 q = []"
| "pop_n pop (Suc k) q = (case pop q of (None, q) \<Rightarrow> [] | (Some m, q) \<Rightarrow> m # pop_n pop k q)"

locale bounded_fifo =
  fixes push :: "'m \<Rightarrow> 'q \<Rightarrow> bool \<times> 'q"
    and pop :: "'q \<Rightarrow> 'm option \<times> 'q"
    and elems :: "'q \<Rightarrow> 'm list"
    and bound :: "'q \<Rightarrow> nat"
    and ok :: "'q \<Rightarrow> bool"
  assumes push_ok: "ok q \<Longrightarrow> ok (snd (push m q)) \<and> bound (snd (push m q)) = bound q"
    and push_elems: "ok q \<Longrightarrow> elems (snd (push m q)) =
          (if length (elems q) < bound q then elems q @ [m] else tl (elems q) @ [m])"
    and push_dropped: "ok q \<Longrightarrow> fst (push m q) \<longleftrightarrow> length (elems q) = bound q"
    and pop_ok: "ok q \<Longrightarrow> ok (snd (pop q)) \<and> bound (snd (pop q)) = bound q"
    and pop_elems: "ok q \<Longrightarrow> (case elems q of [] \<Rightarrow> pop q = (None, q)
          | m # ms \<Rightarrow> fst (pop q) = Some m \<and> elems (snd (pop q)) = ms)"
    and bounded: "ok q \<Longrightarrow> length (elems q) \<le> bound q \<and> 0 < bound q"
begin

lemma push_all_ok: "ok q \<Longrightarrow> ok (push_all push ms q) \<and> bound (push_all push ms q) = bound q"
  by (induction ms arbitrary: q) (auto simp: push_all_def push_ok)

text \<open>What remains is the newest part of everything pushed.\<close>

lemma push_all_newest:
  "ok q \<Longrightarrow> elems (push_all push ms q) =
     drop (length (elems q) + length ms - bound q) (elems q @ ms)"
proof (induction ms arbitrary: q)
  case Nil
  then show ?case using bounded [of q] by (simp add: push_all_def)
next
  case (Cons m ms)
  let ?q = "snd (push m q)"
  have b: "length (elems q) \<le> bound q" "0 < bound q" using bounded [OF Cons.prems] by auto
  have "elems (push_all push (m # ms) q) = drop (length (elems ?q) + length ms - bound q) (elems ?q @ ms)"
    using Cons.IH [of ?q] push_ok [OF Cons.prems] by (simp add: push_all_def)
  also have "\<dots> = drop (length (elems q) + length (m # ms) - bound q) (elems q @ m # ms)"
  proof (cases "length (elems q) < bound q")
    case True
    then show ?thesis using push_elems [OF Cons.prems] by simp
  next
    case False
    then obtain x xs where x: "elems q = x # xs" "bound q = Suc (length xs)" using b by (cases "elems q") auto
    then show ?thesis using push_elems [OF Cons.prems, of m] by simp
  qed
  finally show ?case .
qed

text \<open>Every message pushed is either still held or counted as dropped.\<close>

lemma drops_count:
  "ok q \<Longrightarrow> length (elems (push_all push ms q)) + drops push ms q = length (elems q) + length ms"
proof (induction ms arbitrary: q)
  case Nil
  then show ?case by (simp add: push_all_def)
next
  case (Cons m ms)
  let ?q = "snd (push m q)"
  have "push_all push (m # ms) q = push_all push ms ?q" by (simp add: push_all_def)
  moreover have "length (elems (push_all push ms ?q)) + drops push ms ?q = length (elems ?q) + length ms"
    using Cons.IH [of ?q] push_ok [OF Cons.prems] by simp
  moreover have "length (elems ?q) + (if fst (push m q) then 1 else 0) = Suc (length (elems q))"
    using push_elems [OF Cons.prems, of m] push_dropped [OF Cons.prems, of m] bounded [OF Cons.prems] by auto
  ultimately show ?case by simp
qed

lemma pop_n_elems: "ok q \<Longrightarrow> pop_n pop k q = take k (elems q)"
proof (induction k arbitrary: q)
  case (Suc k)
  show ?case
  proof (cases "elems q")
    case Nil
    then show ?thesis using pop_elems [OF Suc.prems] by simp
  next
    case (Cons m ms)
    then have p: "fst (pop q) = Some m" "elems (snd (pop q)) = ms" using pop_elems [OF Suc.prems] by auto
    then obtain q' where q': "pop q = (Some m, q')" by (cases "pop q") auto
    then have "pop_n pop k q' = take k ms" using Suc.IH [of q'] pop_ok [OF Suc.prems] p by simp
    then show ?thesis using Cons q' by simp
  qed
qed simp

end

subsection \<open>The ring buffer\<close>

record 'm listenQueue =
  buf :: "'m option list"
  head :: nat
  qsize :: nat
  capacity :: nat
  dropped :: int
  notify :: bool

definition newListenQueue :: "int \<Rightarrow> 'm listenQueue option" where
  "newListenQueue cap = (if cap < 1 then None
     else Some \<lparr>buf = replicate (nat cap) None, head = 0, qsize = 0, capacity = nat cap, dropped = 0,
       notify = False\<rparr>)"

definition signalLocked :: "'m listenQueue \<Rightarrow> 'm listenQueue" where
  "signalLocked q = q\<lparr>notify := True\<rparr>"

definition clearSignalLocked :: "'m listenQueue \<Rightarrow> 'm listenQueue" where
  "clearSignalLocked q = q\<lparr>notify := False\<rparr>"

definition Push :: "'m option \<Rightarrow> 'm listenQueue \<Rightarrow> bool \<times> 'm listenQueue" where
  "Push m q =
     (if qsize q < capacity q
      then (False, signalLocked (q\<lparr>buf := (buf q)[(head q + qsize q) mod capacity q := m], qsize := qsize q + 1\<rparr>))
      else (True, signalLocked (q\<lparr>buf := (buf q)[head q := m], head := (head q + 1) mod capacity q,
              dropped := wrapu64 (dropped q + 1)\<rparr>)))"

definition Pop :: "'m listenQueue \<Rightarrow> 'm option option \<times> 'm listenQueue" where
  "Pop q =
     (if qsize q = 0 then (None, q)
      else (let m = buf q ! head q;
                q' = q\<lparr>buf := (buf q)[head q := None], head := (head q + 1) mod capacity q, qsize := qsize q - 1\<rparr>
            in (Some m, if qsize q' = 0 then clearSignalLocked q' else q')))"

definition Dropped :: "'m listenQueue \<Rightarrow> int" where
  "Dropped q = dropped q"

definition Clear :: "'m listenQueue \<Rightarrow> 'm listenQueue" where
  "Clear q = clearSignalLocked (q\<lparr>buf := map (\<lambda>_. None) (buf q), head := 0, qsize := 0\<rparr>)"

text \<open>A consumer that receives from the channel returned by \<open>Notify\<close> takes the token.\<close>

definition TakeNotify :: "'m listenQueue \<Rightarrow> bool \<times> 'm listenQueue" where
  "TakeNotify q = (notify q, q\<lparr>notify := False\<rparr>)"

definition queue_elems :: "'m listenQueue \<Rightarrow> 'm option list" where
  "queue_elems q = map (\<lambda>i. buf q ! ((head q + i) mod capacity q)) [0..<qsize q]"

definition queue_ok :: "'m listenQueue \<Rightarrow> bool" where
  "queue_ok q \<longleftrightarrow> 0 < capacity q \<and> length (buf q) = capacity q \<and> head q < capacity q \<and>
     qsize q \<le> capacity q \<and> (notify q \<longrightarrow> 0 < qsize q)"

lemma length_queue_elems [simp]: "length (queue_elems q) = qsize q"
  by (simp add: queue_elems_def)

lemma ring_index:
  "h < c \<Longrightarrow> i \<le> c \<Longrightarrow> (h + i) mod c = (if h + i < c then h + i else h + i - (c :: nat))"
  by (simp add: mod_if)

lemma ring_next: "((h + Suc 0) mod c + i) mod c = (h + Suc i) mod (c :: nat)"
  by (simp add: mod_add_left_eq)

lemma ring_eq_head: "h < c \<Longrightarrow> i < c \<Longrightarrow> (h + Suc i) mod c = h \<longleftrightarrow> Suc i = (c :: nat)"
  using ring_index [of h c "Suc i"] by (auto split: if_splits)

lemma Push_elems:
  assumes "queue_ok q"
  shows "queue_elems (snd (Push m q)) =
    (if length (queue_elems q) < capacity q then queue_elems q @ [m] else tl (queue_elems q) @ [m])"
proof (cases "qsize q < capacity q")
  case True
  have "buf (snd (Push m q)) ! ((head q + i) mod capacity q) = buf q ! ((head q + i) mod capacity q)"
    if "i < qsize q" for i
    using assms that True
    by (auto simp: Push_def signalLocked_def queue_ok_def ring_index nth_list_update split: if_splits)
  moreover have "buf (snd (Push m q)) ! ((head q + qsize q) mod capacity q) = m"
    using assms True by (simp add: Push_def signalLocked_def queue_ok_def)
  ultimately show ?thesis
    using True by (simp add: queue_elems_def) (simp add: Push_def signalLocked_def)
next
  case False
  let ?c = "capacity q"
  have c: "qsize q = ?c" "0 < ?c" "head q < ?c" "length (buf q) = ?c" using assms False by (auto simp: queue_ok_def)
  have "queue_elems (snd (Push m q)) ! i = (tl (queue_elems q) @ [m]) ! i" if "i < ?c" for i
    using that c ring_eq_head [of "head q" ?c i]
    by (auto simp: queue_elems_def Push_def signalLocked_def nth_append nth_tl ring_next nth_list_update
        less_Suc_eq simp del: add_Suc_right)
  then show ?thesis
    using c by (intro nth_equalityI) (auto simp: Push_def signalLocked_def)
qed

lemma Pop_elems:
  assumes "queue_ok q"
  shows "case queue_elems q of [] \<Rightarrow> Pop q = (None, q)
    | m # ms \<Rightarrow> fst (Pop q) = Some m \<and> queue_elems (snd (Pop q)) = ms"
proof (cases "qsize q")
  case 0
  then show ?thesis by (simp add: queue_elems_def Pop_def)
next
  case (Suc k)
  let ?c = "capacity q"
  have c: "0 < ?c" "head q < ?c" "length (buf q) = ?c" "Suc k \<le> ?c" using assms Suc by (auto simp: queue_ok_def)
  have q: "queue_elems q = buf q ! head q # map (\<lambda>i. buf q ! ((head q + Suc i) mod ?c)) [0..<k]"
    using c by (simp add: queue_elems_def Suc upt_conv_Cons map_Suc_upt [symmetric] del: upt_Suc)
  have "queue_elems (snd (Pop q)) ! i = map (\<lambda>i. buf q ! ((head q + Suc i) mod ?c)) [0..<k] ! i"
    if "i < k" for i
    using that c ring_eq_head [of "head q" ?c i]
    by (auto simp: queue_elems_def Pop_def clearSignalLocked_def Suc ring_next nth_list_update Let_def
        simp del: add_Suc_right)
  then have "queue_elems (snd (Pop q)) = map (\<lambda>i. buf q ! ((head q + Suc i) mod ?c)) [0..<k]"
    by (intro nth_equalityI) (auto simp: Pop_def clearSignalLocked_def Suc Let_def)
  moreover have "fst (Pop q) = Some (buf q ! head q)" by (simp add: Pop_def Suc Let_def)
  ultimately show ?thesis by (simp add: q)
qed

interpretation lq: bounded_fifo Push Pop queue_elems capacity queue_ok
proof
  fix q :: "'m listenQueue" and m
  assume q: "queue_ok q"
  show "queue_ok (snd (Push m q)) \<and> capacity (snd (Push m q)) = capacity q"
    using q by (auto simp: queue_ok_def Push_def signalLocked_def)
  show "queue_elems (snd (Push m q)) =
      (if length (queue_elems q) < capacity q then queue_elems q @ [m] else tl (queue_elems q) @ [m])"
    by (rule Push_elems [OF q])
  show "fst (Push m q) \<longleftrightarrow> length (queue_elems q) = capacity q"
    using q by (auto simp: Push_def queue_ok_def)
  show "queue_ok (snd (Pop q)) \<and> capacity (snd (Pop q)) = capacity q"
    using q by (auto simp: queue_ok_def Pop_def clearSignalLocked_def Let_def)
  show "case queue_elems q of [] \<Rightarrow> Pop q = (None, q)
      | m # ms \<Rightarrow> fst (Pop q) = Some m \<and> queue_elems (snd (Pop q)) = ms"
    by (rule Pop_elems [OF q])
  show "length (queue_elems q) \<le> capacity q \<and> 0 < capacity q"
    using q by (simp add: queue_ok_def)
qed

lemma newListenQueue_ok:
  "newListenQueue cap = Some q \<Longrightarrow> queue_ok q \<and> queue_elems q = [] \<and> int (capacity q) = cap \<and> dropped q = 0"
  by (auto simp: newListenQueue_def queue_ok_def queue_elems_def split: if_splits)

lemma push_all_dropped:
  "dropped (push_all Push ms q) = wrapu64 (dropped q + int (drops Push ms q)) \<or> drops Push ms q = 0 \<and>
     dropped (push_all Push ms q) = dropped q"
proof (induction ms arbitrary: q)
  case (Cons m ms)
  have "dropped (snd (Push m q)) = (if fst (Push m q) then wrapu64 (dropped q + 1) else dropped q)"
    by (auto simp: Push_def signalLocked_def)
  then show ?case
    using Cons [of "snd (Push m q)"]
    by (auto simp: push_all_def wrapu64_def mod_add_left_eq add.assoc algebra_simps mod_add_right_eq)
qed (simp add: push_all_def)

text \<open>
  C31. Whatever is pushed on a new queue of a valid capacity, popping returns the newest messages
  that fit, in the order they arrived, and the drop counter tells how many older ones were lost.
\<close>

theorem listenQueue_newest:
  assumes "newListenQueue cap = Some q" "length ms < 2 ^ 64"
  shows "pop_n Pop k (push_all Push ms q) = take k (drop (length ms - nat cap) ms) \<and>
    Dropped (push_all Push ms q) = int (length ms - nat cap)"
proof -
  have q: "queue_ok q" "queue_elems q = []" "nat cap = capacity q" "dropped q = 0"
    using newListenQueue_ok [OF assms(1)] by auto
  have e: "queue_elems (push_all Push ms q) = drop (length ms - nat cap) ms"
    using lq.push_all_newest [OF q(1), of ms] q(2,3) by simp
  have "length (queue_elems (push_all Push ms q)) + drops Push ms q = length ms"
    using lq.drops_count [OF q(1), of ms] q(2) by simp
  then have d: "drops Push ms q = length ms - nat cap" unfolding e by simp
  then have "Dropped (push_all Push ms q) = int (length ms - nat cap)"
    using push_all_dropped [of ms q] q(4) assms(2) by (auto simp: Dropped_def wrapu64_def)
  then show ?thesis
    using lq.pop_n_elems [of "push_all Push ms q" k] lq.push_all_ok [OF q(1), of ms] e by simp
qed

theorem listenQueue_newest_witness:
  "pop_n Pop 5 (push_all Push [Some 1, Some 2, Some 3, Some (4::nat)] (the (newListenQueue 3))) = [Some 2, Some 3, Some 4]"
  using listenQueue_newest [of 3 "the (newListenQueue 3)" "[Some 1, Some 2, Some 3, Some (4::nat)]" 5]
  by (simp add: newListenQueue_def)

subsection \<open>Notifications\<close>

datatype 'm queue_op = QPush "'m option" | QPop | QClear | QTakeNotify

primrec queue_step :: "'m queue_op \<Rightarrow> 'm listenQueue \<Rightarrow> 'm listenQueue" where
  "queue_step (QPush m) q = snd (Push m q)"
| "queue_step QPop q = snd (Pop q)"
| "queue_step QClear q = Clear q"
| "queue_step QTakeNotify q = snd (TakeNotify q)"

interpretation lq_sys: op_system queue_step queue_ok "\<lambda>_. True"
proof
  fix q :: "'m listenQueue" and op
  assume "queue_ok q"
  then show "queue_ok (queue_step op q)"
    using lq.push_ok lq.pop_ok
    by (cases op) (auto simp: queue_ok_def Clear_def clearSignalLocked_def TakeNotify_def)
qed

text \<open>
  No wake-up is lost and none is spurious: a push always leaves the notification set, and
  whatever mixture of pushes, pops, clears and receives from the channel runs, a set notification
  means that the queue holds a message.
\<close>

theorem listenQueue_notify:
  assumes "newListenQueue cap = Some q0" "q = fold queue_step ops q0"
  shows "notify (snd (Push m q)) \<and> (notify q \<longrightarrow> queue_elems q \<noteq> [])"
proof -
  have "queue_ok q" unfolding assms(2) using newListenQueue_ok [OF assms(1)] by (intro lq_sys.run_inv) (simp_all add: list_all_iff)
  then have "notify q \<longrightarrow> queue_elems q \<noteq> []" by (auto simp: queue_ok_def queue_elems_def)
  then show ?thesis by (auto simp: Push_def signalLocked_def)
qed

theorem listenQueue_notify_witness:
  "\<exists>q. fold queue_step [QPush (Some (1::nat)), QTakeNotify, QPop, QPush (Some 2)] (the (newListenQueue 1)) = q \<and>
     notify q \<and> queue_elems q \<noteq> []"
  using listenQueue_notify [of 1 "the (newListenQueue 1)"
      "fold queue_step [QPush (Some (1::nat)), QTakeNotify, QPop, QPush (Some 2)] (the (newListenQueue 1))"
      "[QPush (Some (1::nat)), QTakeNotify, QPop, QPush (Some 2)]"]
  by (simp add: newListenQueue_def Push_def signalLocked_def Pop_def TakeNotify_def clearSignalLocked_def)

end
