(* ===== verification/Connection.thy ===== *)
theory Connection
  imports Framing ListenQueue Errcode
begin

text \<open>
  A network connection (\<^verbatim>\<open>network/connection.go\<close>, \<^verbatim>\<open>heartbeat.go\<close>, \<^verbatim>\<open>message.go\<close>): requests and their response
  channels, listeners, the inbound queue, the pump that owns the connection, and the two ways of
  closing it.  The state is one record; response channels live in a table indexed by their
  identity, and everything the connection does to its surroundings (bytes sent, callbacks called,
  frames decoded) is appended to \<open>effects\<close>.  A critical section of \<open>c.mu\<close> is one step, and so are the
  two ways of closing, which a compare-and-swap on \<open>isClose\<close> keeps apart; \<open>PendingRequest.Close\<close>, which
  closes the channel outside of the lock, is two.  A Go run-time panic is the flag \<open>panicked\<close>.

  What the surroundings decide is an argument: the error of the injected send function, the packet
  a heartbeat builder returns, the branch a \<open>select\<close> takes, the decompression cache shared with the
  other connections.  Timestamps, logging and the byte counter of the monitor are left out; waiting
  for the pump is not a step, and neither channel is ever closed.
\<close>

definition ErrConnNotFound :: ErrorCode where "ErrConnNotFound = 1"
definition ErrConnClosed :: ErrorCode where "ErrConnClosed = 2"
definition ErrSendFailed :: ErrorCode where "ErrSendFailed = 3"

subsection \<open>State\<close>

record Message =
  RouteKey :: string
  Data :: "bytes option"
  HeaderErr :: u64
  msgWireBytes :: nat

definition NewMessage :: "string \<Rightarrow> bytes option \<Rightarrow> u64 \<Rightarrow> nat \<Rightarrow> Message" where
  "NewMessage routeKey data headerErr n =
     \<lparr>RouteKey = routeKey, Data = data, HeaderErr = headerErr, msgWireBytes = n\<rparr>"

record inboundFrame =
  frameData :: bytes
  frameWireBytes :: nat

record lifecycleEvent =
  occurred :: bool
  delivered :: bool

text \<open>A callback is known by a number; \<open>None\<close> is the cached mode.\<close>

record listenBinding =
  bindCb :: "nat option"
  bindQueue :: "Message listenQueue"

text \<open>
  A response channel has room for one message.  Its phase follows \<open>PendingRequest.Close\<close>: open,
  taken out of the map, closed.
\<close>

datatype reqPhase = ReqOpen | ReqUnregistered | ReqClosed

record PendingRequest =
  prRoute :: string
  prBuf :: "Message option"
  prPhase :: reqPhase
  prTimeout :: int

record HeartbeatConfig =
  Interval :: int
  Builder :: "nat option"

text \<open>The timer is absent, or running with its channel empty or holding one tick.\<close>

record heartbeatRuntime =
  hbCfg :: HeartbeatConfig
  hbTimer :: "bool option"

datatype pumpCmd = CmdHeartbeat HeartbeatConfig | CmdStopHeartbeat | CmdStop

datatype pumpPos = AtTop | AtSelect | InBatch nat

datatype effect = Sent bytes | Decoded inboundFrame | CalledClose
  | CalledDisconnect nat | CalledClosed nat | CalledListen nat Message

record Connection =
  serviceName :: string
  robotName :: string
  secretKey :: "bytes option"
  responseMap :: "string \<rightharpoonup> nat"
  requests :: "nat \<rightharpoonup> PendingRequest"
  nextReq :: nat
  listenRoutes :: "string \<rightharpoonup> listenBinding"
  isClose :: bool
  intentionalClose :: bool
  requestTimeout :: int
  sendFunc :: bool
  closeFunc :: bool
  onDisconnect :: "nat option"
  onClosed :: "nat option"
  disconnectEvent :: lifecycleEvent
  closedEvent :: lifecycleEvent
  ctxDone :: bool
  adp :: "SchemaCodec option"
  isUDP :: bool
  inboundCh :: "inboundFrame list option"
  controlCh :: "pumpCmd list option"
  pumpDone :: "bool option"
  pumpRun :: bool
  pumpPos :: pumpPos
  hb :: "heartbeatRuntime option"
  effects :: "effect list"
  panicked :: bool

definition pumpInboundBatchSize :: nat where "pumpInboundBatchSize = 16"
definition controlChSize :: nat where "controlChSize = 16"
definition inboundChSize :: nat where "inboundChSize = 256"

definition noEvent :: lifecycleEvent where
  "noEvent = \<lparr>occurred = False, delivered = False\<rparr>"

definition NewConnection :: "string \<Rightarrow> string \<Rightarrow> int \<Rightarrow> Connection" where
  "NewConnection service robot timeout =
    \<lparr>serviceName = service, robotName = robot, secretKey = None, responseMap = Map.empty,
     requests = Map.empty, nextReq = 0, listenRoutes = Map.empty, isClose = False,
     intentionalClose = False, requestTimeout = timeout, sendFunc = False, closeFunc = False,
     onDisconnect = None, onClosed = None, disconnectEvent = noEvent, closedEvent = noEvent,
     ctxDone = False, adp = None, isUDP = False, inboundCh = None, controlCh = None, pumpDone = None,
     pumpRun = False, pumpPos = AtTop, hb = None, effects = [], panicked = False\<rparr>"

definition emit :: "effect \<Rightarrow> Connection \<Rightarrow> Connection" where
  "emit e c = c\<lparr>effects := effects c @ [e]\<rparr>"

text \<open>\<open>bindConn\<close> injects both functions when the connection is opened.\<close>

definition bindConn :: "Connection \<Rightarrow> Connection" where
  "bindConn c = c\<lparr>sendFunc := True, closeFunc := True\<rparr>"

subsection \<open>Life-cycle callbacks\<close>

definition SetOnDisconnect :: "nat option \<Rightarrow> Connection \<Rightarrow> Connection" where
  "SetOnDisconnect fn c =
    (let c1 = c\<lparr>onDisconnect := fn\<rparr> in
     case fn of
       Some f \<Rightarrow>
         if occurred (disconnectEvent c) \<and> \<not> delivered (disconnectEvent c)
         then emit (CalledDisconnect f) (c1\<lparr>disconnectEvent := (disconnectEvent c)\<lparr>delivered := True\<rparr>\<rparr>)
         else c1
     | None \<Rightarrow> c1)"

definition SetOnClosed :: "nat option \<Rightarrow> Connection \<Rightarrow> Connection" where
  "SetOnClosed fn c =
    (let c1 = c\<lparr>onClosed := fn\<rparr> in
     case fn of
       Some f \<Rightarrow>
         if occurred (closedEvent c) \<and> \<not> delivered (closedEvent c)
         then emit (CalledClosed f) (c1\<lparr>closedEvent := (closedEvent c)\<lparr>delivered := True\<rparr>\<rparr>)
         else c1
     | None \<Rightarrow> c1)"

definition publishDisconnected :: "Connection \<Rightarrow> Connection" where
  "publishDisconnected c =
    (let c1 = c\<lparr>disconnectEvent := (disconnectEvent c)\<lparr>occurred := True\<rparr>\<rparr> in
     case onDisconnect c of
       Some f \<Rightarrow>
         if \<not> delivered (disconnectEvent c)
         then emit (CalledDisconnect f) (c1\<lparr>disconnectEvent := (disconnectEvent c1)\<lparr>delivered := True\<rparr>\<rparr>)
         else c1
     | None \<Rightarrow> c1)"

definition publishClosed :: "Connection \<Rightarrow> Connection" where
  "publishClosed c =
    (let c1 = c\<lparr>closedEvent := (closedEvent c)\<lparr>occurred := True\<rparr>\<rparr> in
     case onClosed c of
       Some f \<Rightarrow>
         if \<not> delivered (closedEvent c)
         then emit (CalledClosed f) (c1\<lparr>closedEvent := (closedEvent c1)\<lparr>delivered := True\<rparr>\<rparr>)
         else c1
     | None \<Rightarrow> c1)"

subsection \<open>Sending and requests\<close>

definition SetSecretKey :: "bytes \<Rightarrow> Connection \<Rightarrow> Connection" where
  "SetSecretKey key c = (if isClose c \<or> key = [] then c else c\<lparr>secretKey := Some key\<rparr>)"

definition GetSecretKey :: "Connection \<Rightarrow> bytes" where
  "GetSecretKey c = (case secretKey c of None \<Rightarrow> [] | Some k \<Rightarrow> k)"

text \<open>
  The context of the caller: absent, or with its error.  The detail texts are built as in the code.
\<close>

definition canceledError :: "go_error option option \<Rightarrow> string \<Rightarrow> string \<Rightarrow> go_error" where
  "canceledError ctx service routeKey =
    (let detail = service @ '' routeKey='' @ routeKey @ '' (caller canceled)'' in
     case ctx of
       None \<Rightarrow> NewActionError ErrActionCanceled detail []
     | Some cause \<Rightarrow> NewActionError ErrActionCanceled detail (case cause of None \<Rightarrow> [] | Some e \<Rightarrow> [e]))"

definition callerCanceled :: "go_error option option \<Rightarrow> string \<Rightarrow> string \<Rightarrow> go_error option" where
  "callerCanceled ctx service routeKey =
    (case ctx of
       None \<Rightarrow> None
     | Some None \<Rightarrow> None
     | Some (Some e) \<Rightarrow> Some (canceledError ctx service routeKey))"

text \<open>\<open>err\<close> is what the injected send function returns when it is called.\<close>

definition send :: "go_error option \<Rightarrow> bytes \<Rightarrow> Connection \<Rightarrow> (go_error + nat) \<times> Connection" where
  "send err data c =
    (if isClose c then (Inl (NewActionError ErrConnClosed (serviceName c) []), c)
     else if \<not> sendFunc c then (Inl (NewActionError ErrSendFailed (serviceName c) []), c)
     else case err of
       Some e \<Rightarrow> (Inl (NewActionError ErrSendFailed (serviceName c) [e]), c)
     | None \<Rightarrow> (Inr (length data), emit (Sent data) c))"

definition Send :: "go_error option \<Rightarrow> bytes \<Rightarrow> Connection \<Rightarrow> (go_error + nat) \<times> Connection" where
  "Send err data c = send err data c"

definition registerResponseChan :: "string \<Rightarrow> nat \<Rightarrow> Connection \<Rightarrow> bool \<times> Connection" where
  "registerResponseChan routeKey ch c =
    (responseMap c routeKey \<noteq> None, c\<lparr>responseMap := (responseMap c)(routeKey \<mapsto> ch)\<rparr>)"

text \<open>\<open>PendingRequest.Close\<close>: the section under the lock and the closing of the channel, once.\<close>

definition unregister :: "nat \<Rightarrow> Connection \<Rightarrow> Connection" where
  "unregister ch c =
    (case requests c ch of
       None \<Rightarrow> c
     | Some r \<Rightarrow>
         if prPhase r \<noteq> ReqOpen then c
         else c\<lparr>responseMap := (if responseMap c (prRoute r) = Some ch
                               then (responseMap c)(prRoute r := None) else responseMap c),
                requests := (requests c)(ch \<mapsto> r\<lparr>prPhase := ReqUnregistered\<rparr>)\<rparr>)"

definition close_chan :: "nat \<Rightarrow> Connection \<Rightarrow> Connection" where
  "close_chan ch c =
    (case requests c ch of
       None \<Rightarrow> c
     | Some r \<Rightarrow>
         if prPhase r \<noteq> ReqUnregistered then c
         else c\<lparr>requests := (requests c)(ch \<mapsto> r\<lparr>prPhase := ReqClosed\<rparr>)\<rparr>)"

definition CloseRequest :: "nat \<Rightarrow> Connection \<Rightarrow> Connection" where
  "CloseRequest ch c = close_chan ch (unregister ch c)"

text \<open>The channel is made and registered before the request goes out.\<close>

definition make_chan :: "string \<Rightarrow> int \<Rightarrow> Connection \<Rightarrow> nat \<times> Connection" where
  "make_chan routeKey timeout c =
    (nextReq c, c\<lparr>nextReq := nextReq c + 1,
       requests := (requests c)(nextReq c \<mapsto> \<lparr>prRoute = routeKey, prBuf = None, prPhase = ReqOpen,
         prTimeout = (if timeout \<le> 0 then requestTimeout c else timeout)\<rparr>)\<rparr>)"

definition SendRequest ::
  "go_error option option \<Rightarrow> go_error option \<Rightarrow> bytes \<Rightarrow> string \<Rightarrow> int \<Rightarrow> Connection \<Rightarrow>
   (go_error + nat) \<times> Connection" where
  "SendRequest ctx err sendData routeKey timeout c =
    (if isClose c
     then (Inl (NewActionError ErrConnClosed (serviceName c @ '' routeKey='' @ routeKey) []), c)
     else case callerCanceled ctx (serviceName c) routeKey of
       Some e \<Rightarrow> (Inl e, c)
     | None \<Rightarrow>
        (let (ch, c1) = make_chan routeKey timeout c;
             c2 = snd (registerResponseChan routeKey ch c1)
         in case send err sendData c2 of
              (Inl e, c3) \<Rightarrow> (Inl e, CloseRequest ch c3)
            | (Inr n, c3) \<Rightarrow> (Inr ch, c3)))"

text \<open>The waiter receives from the channel: the buffered message, if any.\<close>

definition receive :: "nat \<Rightarrow> Connection \<Rightarrow> Message option \<times> Connection" where
  "receive ch c =
    (case requests c ch of
       None \<Rightarrow> (None, c)
     | Some r \<Rightarrow> (prBuf r, c\<lparr>requests := (requests c)(ch \<mapsto> r\<lparr>prBuf := None\<rparr>)\<rparr>))"

subsection \<open>Listeners\<close>

datatype listenError = ListenClosed string string
  | QueueSizeConflict string string int int | ModeConflict string string bool bool

definition RegisterListen :: "string \<Rightarrow> nat option \<Rightarrow> int \<Rightarrow> Connection \<Rightarrow> listenError option \<times> Connection" where
  "RegisterListen routeKey cb queueSize c =
    (if isClose c then (Some (ListenClosed (serviceName c) routeKey), c)
     else case listenRoutes c routeKey of
       Some b \<Rightarrow>
         if int (capacity (bindQueue b)) \<noteq> queueSize
         then (Some (QueueSizeConflict (serviceName c) routeKey (int (capacity (bindQueue b))) queueSize), c)
         else if (bindCb b = None) \<noteq> (cb = None)
         then (Some (ModeConflict (serviceName c) routeKey (bindCb b \<noteq> None) (cb \<noteq> None)), c)
         else (None, c\<lparr>listenRoutes := (listenRoutes c)(routeKey \<mapsto> b\<lparr>bindCb := cb\<rparr>)\<rparr>)
     | None \<Rightarrow>
        (case newListenQueue queueSize of
           None \<Rightarrow> (None, c\<lparr>panicked := True\<rparr>)
         | Some q \<Rightarrow>
             (None, c\<lparr>listenRoutes := (listenRoutes c)(routeKey \<mapsto> \<lparr>bindCb = cb, bindQueue = q\<rparr>)\<rparr>)))"

definition dispatchListen :: "Message \<Rightarrow> string \<Rightarrow> listenBinding \<Rightarrow> Connection \<Rightarrow> Connection" where
  "dispatchListen resp routeKey b c =
    (case bindCb b of
       Some cb \<Rightarrow> emit (CalledListen cb resp) c
     | None \<Rightarrow> c\<lparr>listenRoutes := (listenRoutes c)
         (routeKey \<mapsto> b\<lparr>bindQueue := snd (Push (Some resp) (bindQueue b))\<rparr>)\<rparr>)"

definition GetListenResp :: "string \<Rightarrow> Connection \<Rightarrow> Message option \<times> Connection" where
  "GetListenResp routeKey c =
    (if isClose c then (None, c)
     else case listenRoutes c routeKey of
       None \<Rightarrow> (None, c)
     | Some b \<Rightarrow>
        (let (m, q) = Pop (bindQueue b) in
         (case m of None \<Rightarrow> None | Some x \<Rightarrow> x,
          c\<lparr>listenRoutes := (listenRoutes c)(routeKey \<mapsto> b\<lparr>bindQueue := q\<rparr>)\<rparr>)))"

definition ListenNotify :: "string \<Rightarrow> Connection \<Rightarrow> bool option" where
  "ListenNotify routeKey c =
    (if isClose c then None
     else case listenRoutes c routeKey of
       None \<Rightarrow> None
     | Some b \<Rightarrow> if bindCb b \<noteq> None then None else Some (notify (bindQueue b)))"

subsection \<open>Dispatch\<close>

text \<open>A send on a closed channel panics; a full channel drops the message.\<close>

definition chan_send :: "nat \<Rightarrow> Message \<Rightarrow> Connection \<Rightarrow> Connection" where
  "chan_send ch m c =
    (case requests c ch of
       None \<Rightarrow> c
     | Some r \<Rightarrow>
         if prPhase r = ReqClosed then c\<lparr>panicked := True\<rparr>
         else if prBuf r = None then c\<lparr>requests := (requests c)(ch \<mapsto> r\<lparr>prBuf := Some m\<rparr>)\<rparr>
         else c)"

definition OnReceive :: "string \<Rightarrow> bytes option \<Rightarrow> u64 \<Rightarrow> nat \<Rightarrow> Connection \<Rightarrow> Connection" where
  "OnReceive routeKey body headerErr n c =
    (if isClose c then c
     else case responseMap c routeKey of
       Some ch \<Rightarrow> chan_send ch (NewMessage routeKey body headerErr n) c
     | None \<Rightarrow>
        (case listenRoutes c routeKey of
           Some b \<Rightarrow> dispatchListen (NewMessage routeKey body headerErr n) routeKey b c
         | None \<Rightarrow> c))"

definition decodeAndDispatch ::
  "stdlib \<Rightarrow> (bytes \<Rightarrow> u64) \<Rightarrow> inflateCache \<Rightarrow> inboundFrame \<Rightarrow> Connection \<Rightarrow> Connection" where
  "decodeAndDispatch lib hash cache frame c =
    (let c1 = emit (Decoded frame) c in
     case adp c of
       None \<Rightarrow> c1\<lparr>panicked := True\<rparr>
     | Some a \<Rightarrow>
        (let (routeKey, body, headerErr) =
           (if isUDP c then fst (DecodeUDP lib hash a cache (frameData frame) (GetSecretKey c))
            else fst (DecodeTCP lib hash a cache (frameData frame) (GetSecretKey c)))
         in if routeKey = '''' then c1 else OnReceive routeKey body headerErr (frameWireBytes frame) c1))"

definition EnqueueRaw :: "bytes \<Rightarrow> Connection \<Rightarrow> enqueueResult \<times> Connection" where
  "EnqueueRaw msgBuf c =
    (if isClose c then (EnqueueClosed, c)
     else case inboundCh c of
       None \<Rightarrow> (EnqueueClosed, c)
     | Some fs \<Rightarrow>
         if length fs < inboundChSize
         then (EnqueueOK, c\<lparr>inboundCh := Some (fs @ [\<lparr>frameData = msgBuf, frameWireBytes = length msgBuf\<rparr>])\<rparr>)
         else (EnqueueChFull, c))"

subsection \<open>Heartbeat\<close>

definition RegisterHeartbeat :: "HeartbeatConfig \<Rightarrow> Connection \<Rightarrow> Connection" where
  "RegisterHeartbeat hcfg c =
    (if isClose c \<or> Interval hcfg \<le> 0 \<or> Builder hcfg = None then c
     else case controlCh c of
       None \<Rightarrow> c
     | Some cmds \<Rightarrow> if length cmds < controlChSize
                    then c\<lparr>controlCh := Some (cmds @ [CmdHeartbeat hcfg])\<rparr> else c)"

definition StopHeartbeat :: "Connection \<Rightarrow> Connection" where
  "StopHeartbeat c =
    (case controlCh c of
       None \<Rightarrow> c
     | Some cmds \<Rightarrow> if length cmds < controlChSize
                    then c\<lparr>controlCh := Some (cmds @ [CmdStopHeartbeat])\<rparr> else c)"

definition set_timer :: "bool option \<Rightarrow> Connection \<Rightarrow> Connection" where
  "set_timer t c = (case hb c of None \<Rightarrow> c | Some h \<Rightarrow> c\<lparr>hb := Some (h\<lparr>hbTimer := t\<rparr>)\<rparr>)"

text \<open>Whether a tick can be taken from the timer; taking it empties the timer's channel.\<close>

definition heartbeatDue :: "Connection \<Rightarrow> bool" where
  "heartbeatDue c \<longleftrightarrow> (case hb c of None \<Rightarrow> False | Some h \<Rightarrow> hbTimer h = Some True)"

definition resetHeartbeatTimer :: "Connection \<Rightarrow> Connection" where
  "resetHeartbeatTimer c = set_timer (Some False) c"

definition stopHeartbeatTimer :: "Connection \<Rightarrow> Connection" where
  "stopHeartbeatTimer c = c\<lparr>hb := None\<rparr>"

text \<open>\<open>packet\<close> is what the builder returns, \<open>err\<close> what the send function returns.\<close>

definition sendHeartbeat :: "bytes option \<Rightarrow> go_error option \<Rightarrow> Connection \<Rightarrow> Connection" where
  "sendHeartbeat packet err c =
    (if hb c = None \<or> isClose c then c
     else case packet of None \<Rightarrow> c | Some p \<Rightarrow> snd (Send err p c))"

definition heartbeat :: "bytes option \<Rightarrow> go_error option \<Rightarrow> Connection \<Rightarrow> Connection" where
  "heartbeat packet err c = resetHeartbeatTimer (sendHeartbeat packet err (set_timer (Some False) c))"

text \<open>The clock: a running timer gets its tick.\<close>

definition timer_tick :: "Connection \<Rightarrow> Connection" where
  "timer_tick c =
    (case hb c of
       Some h \<Rightarrow> if hbTimer h \<noteq> None then set_timer (Some True) c else c
     | None \<Rightarrow> c)"

subsection \<open>Closing\<close>

definition doClose :: "Connection \<Rightarrow> Connection" where
  "doClose c = StopHeartbeat (c\<lparr>ctxDone := True\<rparr>)"

definition onClose :: "Connection \<Rightarrow> Connection" where
  "onClose c =
    (if isClose c then c
     else let c1 = doClose (c\<lparr>isClose := True\<rparr>);
              c2 = (if \<not> intentionalClose c1 then publishDisconnected c1 else c1)
          in publishClosed c2)"

definition Close :: "Connection \<Rightarrow> Connection" where
  "Close c =
    (if isClose c then c
     else let c1 = c\<lparr>isClose := True, intentionalClose := True\<rparr>;
              c2 = (if closeFunc c1 then emit CalledClose c1 else c1)
          in publishClosed (doClose c2))"

subsection \<open>The pump\<close>

datatype pumpStartError = NilAdapter | SubmitFailed

definition startPumpWithSubmit :: "bool \<Rightarrow> SchemaCodec option \<Rightarrow> bool \<Rightarrow> Connection \<Rightarrow> pumpStartError option \<times> Connection" where
  "startPumpWithSubmit submitOK a udp c =
    (case a of
       None \<Rightarrow> (Some NilAdapter, c)
     | Some _ \<Rightarrow>
        if pumpRun c then (None, c)
        else if submitOK
        then (None, c\<lparr>pumpRun := True, adp := a, isUDP := udp, inboundCh := Some [], controlCh := Some [],
               pumpDone := Some False, pumpPos := AtTop\<rparr>)
        else (Some SubmitFailed, c\<lparr>adp := None, isUDP := udp, inboundCh := None, controlCh := None,
               pumpDone := None, pumpRun := False\<rparr>))"

definition drainInbound :: "Connection \<Rightarrow> Connection" where
  "drainInbound c = c\<lparr>inboundCh := map_option (\<lambda>_. []) (inboundCh c)\<rparr>"

definition handleControl :: "pumpCmd \<Rightarrow> Connection \<Rightarrow> Connection" where
  "handleControl cmd c =
    (case cmd of
       CmdHeartbeat hcfg \<Rightarrow>
         (let c1 = stopHeartbeatTimer c
          in resetHeartbeatTimer (c1\<lparr>hb := Some \<lparr>hbCfg = hcfg, hbTimer = None\<rparr>\<rparr>))
     | CmdStopHeartbeat \<Rightarrow> (stopHeartbeatTimer c)\<lparr>hb := None\<rparr>
     | CmdStop \<Rightarrow> c\<lparr>ctxDone := True\<rparr>)"

text \<open>The surroundings of one pump step.\<close>

record pumpEnv =
  envLib :: stdlib
  envHash :: "bytes \<Rightarrow> u64"
  envCache :: inflateCache
  envPacket :: "bytes option"
  envSendErr :: "go_error option"

datatype selectBranch = ChooseCtx | ChooseTimer | ChooseControl | ChooseInbound

definition take_frame_step :: "pumpEnv \<Rightarrow> pumpPos \<Rightarrow> Connection \<Rightarrow> Connection option" where
  "take_frame_step env pos c =
    (case inboundCh c of
       Some (f # fs) \<Rightarrow>
         Some (decodeAndDispatch (envLib env) (envHash env) (envCache env) f (c\<lparr>inboundCh := Some fs, pumpPos := pos\<rparr>))
     | _ \<Rightarrow> None)"

definition pump_exit :: "Connection \<Rightarrow> Connection" where
  "pump_exit c = (stopHeartbeatTimer (drainInbound c))\<lparr>pumpDone := Some True\<rparr>"

text \<open>
  One step of the pump loop.  At the top the heartbeat goes first when it is due; the \<open>select\<close>
  takes any branch that is ready; a batch goes on with frames that are there, up to its bound.
  \<open>None\<close>: the branch is not ready, the pump waits.
\<close>

definition connectionPump :: "pumpEnv \<Rightarrow> selectBranch \<Rightarrow> Connection \<Rightarrow> Connection option" where
  "connectionPump env branch c =
    (if pumpDone c \<noteq> Some False then None
     else case pumpPos c of
       AtTop \<Rightarrow>
         if heartbeatDue c then Some (heartbeat (envPacket env) (envSendErr env) c)
         else Some (c\<lparr>pumpPos := AtSelect\<rparr>)
     | AtSelect \<Rightarrow>
        (case branch of
           ChooseCtx \<Rightarrow> if ctxDone c then Some (pump_exit c) else None
         | ChooseTimer \<Rightarrow>
             if heartbeatDue c
             then Some ((heartbeat (envPacket env) (envSendErr env) c)\<lparr>pumpPos := AtTop\<rparr>) else None
         | ChooseControl \<Rightarrow>
            (case controlCh c of
               Some (cmd # cmds) \<Rightarrow> Some ((handleControl cmd (c\<lparr>controlCh := Some cmds\<rparr>))\<lparr>pumpPos := AtTop\<rparr>)
             | _ \<Rightarrow> None)
         | ChooseInbound \<Rightarrow> take_frame_step env (InBatch 1) c)
     | InBatch n \<Rightarrow>
         if n < pumpInboundBatchSize then
           (case take_frame_step env (InBatch (n + 1)) c of
              Some c' \<Rightarrow> Some c'
            | None \<Rightarrow> Some (c\<lparr>pumpPos := AtTop\<rparr>))
         else Some (c\<lparr>pumpPos := AtTop\<rparr>))"

subsection \<open>All steps\<close>

text \<open>
  What can happen to a connection, in any order: calls of its users, callbacks of the event loop,
  the clock, the pump.  A listener queue is registered with a valid capacity, as the flow checker
  demands.
\<close>

inductive conn_step :: "Connection \<Rightarrow> Connection \<Rightarrow> bool" where
  bind: "conn_step c (bindConn c)"
| start: "conn_step c (snd (startPumpWithSubmit ok a udp c))"
| set_disconnect: "conn_step c (SetOnDisconnect fn c)"
| set_closed: "conn_step c (SetOnClosed fn c)"
| set_key: "conn_step c (SetSecretKey key c)"
| send_step: "conn_step c (snd (Send err data c))"
| request: "conn_step c (snd (SendRequest ctx err data routeKey timeout c))"
| open_request: "conn_step c (snd (registerResponseChan routeKey (nextReq c) (snd (make_chan routeKey timeout c))))"
| receive: "conn_step c (snd (receive ch c))"
| unregister: "conn_step c (unregister ch c)"
| close_chan: "conn_step c (close_chan ch c)"
| listen: "1 \<le> queueSize \<Longrightarrow> conn_step c (snd (RegisterListen routeKey cb queueSize c))"
| get_listen: "conn_step c (snd (GetListenResp routeKey c))"
| enqueue: "conn_step c (snd (EnqueueRaw msg c))"
| register_hb: "conn_step c (RegisterHeartbeat hcfg c)"
| stop_hb: "conn_step c (StopHeartbeat c)"
| tick: "conn_step c (timer_tick c)"
| pump: "connectionPump env branch c = Some c' \<Longrightarrow> conn_step c c'"
| on_close: "conn_step c (onClose c)"
| close: "conn_step c (Close c)"

inductive reachable :: "Connection \<Rightarrow> bool" where
  new: "reachable (NewConnection service robot timeout)"
| step: "reachable c \<Longrightarrow> conn_step c c' \<Longrightarrow> reachable c'"

end
