(* ===== verification/ConnInv.thy ===== *)
theory ConnInv
  imports Connection
begin

text \<open>
  The invariants of a connection, over every interleaving of the steps of \<open>Connection\<close>: requests
  and their channels, listeners, life-cycle events, the pump.  The locale \<open>conn_invariant\<close> is the
  contract a predicate has to meet at each elementary change of state; inside it the composite
  operations and all reachable states follow once.
\<close>

locale conn_invariant =
  fixes I :: "Connection \<Rightarrow> bool"
  assumes I_new: "I (NewConnection service robot timeout)"
    and I_bind: "I c \<Longrightarrow> I (bindConn c)"
    and I_start: "I c \<Longrightarrow> I (snd (startPumpWithSubmit ok a udp c))"
    and I_disconnect: "I c \<Longrightarrow> I (SetOnDisconnect fn c)"
    and I_closed: "I c \<Longrightarrow> I (SetOnClosed fn c)"
    and I_key: "I c \<Longrightarrow> I (SetSecretKey key c)"
    and I_send: "I c \<Longrightarrow> I (snd (send err data c))"
    and I_open: "I c \<Longrightarrow> I (snd (registerResponseChan k (nextReq c) (snd (make_chan k t c))))"
    and I_receive: "I c \<Longrightarrow> I (snd (receive ch c))"
    and I_unregister: "I c \<Longrightarrow> I (unregister ch c)"
    and I_close_chan: "I c \<Longrightarrow> I (close_chan ch c)"
    and I_listen: "I c \<Longrightarrow> 1 \<le> n \<Longrightarrow> I (snd (RegisterListen k cb n c))"
    and I_get: "I c \<Longrightarrow> I (snd (GetListenResp k c))"
    and I_receive_msg: "I c \<Longrightarrow> I (OnReceive k body e w c)"
    and I_enqueue: "I c \<Longrightarrow> I (snd (EnqueueRaw msg c))"
    and I_register_hb: "I c \<Longrightarrow> I (RegisterHeartbeat hcfg c)"
    and I_stop_hb: "I c \<Longrightarrow> I (StopHeartbeat c)"
    and I_hb: "I c \<Longrightarrow> I (c\<lparr>hb := h\<rparr>)"
    and I_pos: "I c \<Longrightarrow> I (c\<lparr>pumpPos := p\<rparr>)"
    and I_take: "I c \<Longrightarrow> inboundCh c = Some (f # fs) \<Longrightarrow>
        I (emit (Decoded f) (c\<lparr>inboundCh := Some fs, pumpPos := p\<rparr>))"
    and I_adp: "I c \<Longrightarrow> pumpDone c = Some False \<Longrightarrow> adp c \<noteq> None"
    and I_cmd: "I c \<Longrightarrow> controlCh c = Some (cmd # cmds) \<Longrightarrow> I (c\<lparr>controlCh := Some cmds\<rparr>)"
    and I_ctx: "I c \<Longrightarrow> I (c\<lparr>ctxDone := True\<rparr>)"
    and I_exit: "I c \<Longrightarrow> pumpDone c = Some False \<Longrightarrow> I (pump_exit c)"
    and I_on_close: "I c \<Longrightarrow> I (onClose c)"
    and I_close: "I c \<Longrightarrow> I (Close c)"
begin

lemma I_set_timer: "I c \<Longrightarrow> I (set_timer t c)"
  by (simp add: set_timer_def I_hb split: option.split)

lemma I_heartbeat: "I c \<Longrightarrow> I (heartbeat packet err c)"
  by (auto simp: heartbeat_def resetHeartbeatTimer_def sendHeartbeat_def Send_def
      intro!: I_set_timer I_send split: option.split)

lemma I_request: "I c \<Longrightarrow> I (snd (SendRequest ctx err data k t c))"
  using I_open [of c k t] I_send
  by (auto simp: SendRequest_def CloseRequest_def make_chan_def intro!: I_close_chan I_unregister
      split: option.split prod.split sum.split dest: arg_cong [where f = snd])
     (metis snd_conv)+

lemma I_control: "I c \<Longrightarrow> I (handleControl cmd c)"
  by (cases cmd) (auto simp: handleControl_def stopHeartbeatTimer_def resetHeartbeatTimer_def Let_def
      intro!: I_hb I_ctx I_set_timer)

lemma I_frame:
  assumes "I c" "pumpDone c = Some False" "take_frame_step env p c = Some c'"
  shows "I c'"
proof -
  obtain f fs a where f: "inboundCh c = Some (f # fs)" "adp c = Some a"
    and c': "c' = decodeAndDispatch (envLib env) (envHash env) (envCache env) f (c\<lparr>inboundCh := Some fs, pumpPos := p\<rparr>)"
    using assms I_adp [OF assms(1,2)] by (auto simp: take_frame_step_def split: option.splits list.splits)
  show ?thesis
    using I_take [OF assms(1) f(1), of p] f(2)
    by (auto simp: c' decodeAndDispatch_def emit_def Let_def split: prod.split intro!: I_receive_msg)
qed

lemma I_pump:
  assumes "I c" "connectionPump env branch c = Some c'"
  shows "I c'"
proof -
  have run: "pumpDone c = Some False" using assms(2) by (auto simp: connectionPump_def split: if_splits)
  show ?thesis
    using assms(2) run I_frame [OF assms(1) run] I_heartbeat [OF assms(1)] I_exit [OF assms(1) run]
      I_control [OF I_cmd [OF assms(1)]] I_pos assms(1)
    by (auto simp: connectionPump_def split: pumpPos.splits selectBranch.splits if_splits option.splits list.splits)
qed

lemma I_step: "conn_step c c' \<Longrightarrow> I c \<Longrightarrow> I c'"
proof (induction rule: conn_step.induct)
  case (tick c)
  then show ?case by (auto simp: timer_tick_def intro: I_set_timer split: option.split)
next
  case (pump env branch c c')
  then show ?case by (rule I_pump [rotated])
qed (simp_all add: Send_def I_bind I_start I_disconnect I_closed I_key I_send I_request I_open I_receive I_unregister
    I_close_chan I_listen I_get I_enqueue I_register_hb I_stop_hb I_on_close I_close)

lemma reachable_I: "reachable c \<Longrightarrow> I c"
  by (induction rule: reachable.induct) (auto intro: I_new I_step)

end


subsection \<open>Requests and their channels\<close>

text \<open>
  Every registered channel exists, belongs to its route and is open; identities are fresh; a
  buffered response carries the route key of its request.
\<close>

definition req_inv :: "(string \<rightharpoonup> nat) \<Rightarrow> (nat \<rightharpoonup> PendingRequest) \<Rightarrow> nat \<Rightarrow> bool" where
  "req_inv rm rq n \<longleftrightarrow>
     (\<forall>k ch. rm k = Some ch \<longrightarrow> (\<exists>r. rq ch = Some r \<and> prRoute r = k \<and> prPhase r = ReqOpen)) \<and>
     (\<forall>ch r. rq ch = Some r \<longrightarrow> ch < n \<and> (\<forall>m. prBuf r = Some m \<longrightarrow> RouteKey m = prRoute r))"

lemma req_invD:
  assumes "req_inv rm rq n" "rq ch = Some r" "rm k = Some ch"
  shows "prRoute r = k" "prPhase r = ReqOpen"
proof -
  from assms(1,3) obtain r' where "rq ch = Some r'" "prRoute r' = k" "prPhase r' = ReqOpen"
    unfolding req_inv_def by blast
  with assms(2) show "prRoute r = k" "prPhase r = ReqOpen" by simp_all
qed

lemma req_inv_fresh: "req_inv rm rq n \<Longrightarrow> rm k \<noteq> Some n"
  unfolding req_inv_def by blast

lemma req_inv_open:
  assumes "req_inv rm rq n" "prRoute r = k" "prPhase r = ReqOpen" "prBuf r = None"
  shows "req_inv (rm(k \<mapsto> n)) (rq(n \<mapsto> r)) (Suc n)"
  using assms req_inv_fresh [OF assms(1)] unfolding req_inv_def by (auto simp: less_Suc_eq)

lemma req_inv_upd:
  assumes "req_inv rm rq n" "rq ch = Some r" "prRoute r' = prRoute r"
    "\<And>k. rm' k = Some ch \<Longrightarrow> prPhase r' = ReqOpen"
    "\<And>m. prBuf r' = Some m \<Longrightarrow> RouteKey m = prRoute r"
    "\<And>k d. rm' k = Some d \<Longrightarrow> rm k = Some d"
  shows "req_inv rm' (rq(ch \<mapsto> r')) n"
proof -
  have "\<exists>r''. (rq(ch \<mapsto> r')) d = Some r'' \<and> prRoute r'' = k \<and> prPhase r'' = ReqOpen" if "rm' k = Some d" for k d
  proof (cases "d = ch")
    case True
    with that show ?thesis using req_invD(1) [OF assms(1,2)] assms(3,4,6) by simp
  next
    case False
    then show ?thesis using that assms(1,6) unfolding req_inv_def by simp
  qed
  moreover have "d < n \<and> (\<forall>m. prBuf r'' = Some m \<longrightarrow> RouteKey m = prRoute r'')" if "(rq(ch \<mapsto> r')) d = Some r''" for d r''
    using that assms(1,2,3,5) unfolding req_inv_def by (cases "d = ch") auto
  ultimately show ?thesis unfolding req_inv_def by blast
qed

lemma req_inv_buf: "req_inv rm rq n \<Longrightarrow> rq ch = Some r \<Longrightarrow> prBuf r = Some m \<Longrightarrow> RouteKey m = prRoute r"
  unfolding req_inv_def by blast

lemma req_inv_unregister:
  assumes "req_inv rm rq n" "rq ch = Some r"
  shows "req_inv (if rm (prRoute r) = Some ch then rm(prRoute r := None) else rm)
    (rq(ch \<mapsto> r\<lparr>prPhase := ReqUnregistered\<rparr>)) n" (is "req_inv ?rm _ _")
proof (rule req_inv_upd [OF assms])
  show "prRoute (r\<lparr>prPhase := ReqUnregistered\<rparr>) = prRoute r" by simp
  show "\<And>m. prBuf (r\<lparr>prPhase := ReqUnregistered\<rparr>) = Some m \<Longrightarrow> RouteKey m = prRoute r"
    using req_inv_buf [OF assms] by simp
  show sub: "\<And>k d. ?rm k = Some d \<Longrightarrow> rm k = Some d" by (simp split: if_splits)
  show "prPhase (r\<lparr>prPhase := ReqUnregistered\<rparr>) = ReqOpen" if k: "?rm k = Some ch" for k
  proof -
    have "prRoute r = k" by (rule req_invD(1) [OF assms sub [OF k]])
    with k show ?thesis by (simp split: if_splits)
  qed
qed

lemma req_inv_close:
  assumes "req_inv rm rq n" "rq ch = Some r" "prPhase r = ReqUnregistered"
  shows "req_inv rm (rq(ch \<mapsto> r\<lparr>prPhase := ReqClosed\<rparr>)) n"
proof (rule req_inv_upd [OF assms(1,2)])
  show "\<And>m. prBuf (r\<lparr>prPhase := ReqClosed\<rparr>) = Some m \<Longrightarrow> RouteKey m = prRoute r"
    using req_inv_buf [OF assms(1,2)] by simp
  show "prPhase (r\<lparr>prPhase := ReqClosed\<rparr>) = ReqOpen" if "rm k = Some ch" for k
    using req_invD(2) [OF assms(1,2) that] assms(3) by simp
qed simp_all

subsection \<open>Listeners\<close>

definition listen_inv :: "(string \<rightharpoonup> listenBinding) \<Rightarrow> bool" where
  "listen_inv lr \<longleftrightarrow>
     (\<forall>k b. lr k = Some b \<longrightarrow> queue_ok (bindQueue b) \<and>
        (\<forall>m \<in> set (queue_elems (bindQueue b)). \<exists>x. m = Some x \<and> RouteKey x = k))"

lemma listen_inv_upd:
  "listen_inv lr \<Longrightarrow> queue_ok (bindQueue b) \<Longrightarrow>
   (\<forall>m \<in> set (queue_elems (bindQueue b)). \<exists>x. m = Some x \<and> RouteKey x = k) \<Longrightarrow> listen_inv (lr(k \<mapsto> b))"
  by (auto simp: listen_inv_def)

lemma listen_inv_push:
  assumes "listen_inv lr" "lr k = Some b" "RouteKey m = k"
  shows "listen_inv (lr(k \<mapsto> b\<lparr>bindQueue := snd (Push (Some m) (bindQueue b))\<rparr>))"
proof (rule listen_inv_upd [OF assms(1)])
  have q: "queue_ok (bindQueue b)" using assms by (auto simp: listen_inv_def)
  show "queue_ok (bindQueue (b\<lparr>bindQueue := snd (Push (Some m) (bindQueue b))\<rparr>))" using lq.push_ok [OF q] by simp
  have "set (queue_elems (snd (Push (Some m) (bindQueue b)))) \<subseteq> insert (Some m) (set (queue_elems (bindQueue b)))"
    using lq.push_elems [OF q, of "Some m"] by (cases "queue_elems (bindQueue b)") (auto split: if_splits)
  then show "\<forall>m' \<in> set (queue_elems (bindQueue (b\<lparr>bindQueue := snd (Push (Some m) (bindQueue b))\<rparr>))).
      \<exists>x. m' = Some x \<and> RouteKey x = k"
    using assms by (auto simp: listen_inv_def)
qed

lemma listen_inv_pop:
  assumes "listen_inv lr" "lr k = Some b"
  shows "listen_inv (lr(k \<mapsto> b\<lparr>bindQueue := snd (Pop (bindQueue b))\<rparr>))"
proof (rule listen_inv_upd [OF assms(1)])
  have q: "queue_ok (bindQueue b)" using assms by (auto simp: listen_inv_def)
  show "queue_ok (bindQueue (b\<lparr>bindQueue := snd (Pop (bindQueue b))\<rparr>))" using lq.pop_ok [OF q] by simp
  have "set (queue_elems (snd (Pop (bindQueue b)))) \<subseteq> set (queue_elems (bindQueue b))"
    using lq.pop_elems [OF q] by (cases "queue_elems (bindQueue b)") auto
  then show "\<forall>m \<in> set (queue_elems (bindQueue (b\<lparr>bindQueue := snd (Pop (bindQueue b))\<rparr>))).
      \<exists>x. m = Some x \<and> RouteKey x = k"
    using assms by (auto simp: listen_inv_def)
qed

subsection \<open>Life-cycle events\<close>

text \<open>
  An event is delivered at most once, and at once when it has occurred and a callback is there; the
  calls made are the deliveries.
\<close>

definition calls :: "(effect \<Rightarrow> bool) \<Rightarrow> effect list \<Rightarrow> nat" where
  "calls P es = length (filter P es)"

fun is_disconnect :: "effect \<Rightarrow> bool" where
  "is_disconnect (CalledDisconnect f) = True" | "is_disconnect _ = False"

fun is_closed_call :: "effect \<Rightarrow> bool" where
  "is_closed_call (CalledClosed f) = True" | "is_closed_call _ = False"

lemma calls_snoc [simp]: "calls P (es @ [e]) = calls P es + (if P e then 1 else 0)"
  by (simp add: calls_def)

lemma calls_Nil [simp]: "calls P [] = 0"
  by (simp add: calls_def)

definition once :: "lifecycleEvent \<Rightarrow> nat option \<Rightarrow> nat \<Rightarrow> bool" where
  "once ev fn n \<longleftrightarrow>
     n = (if delivered ev then 1 else 0) \<and> (delivered ev \<longrightarrow> occurred ev) \<and>
     (occurred ev \<and> fn \<noteq> None \<longrightarrow> delivered ev)"

definition event_inv :: "Connection \<Rightarrow> bool" where
  "event_inv c \<longleftrightarrow>
     once (disconnectEvent c) (onDisconnect c) (calls is_disconnect (effects c)) \<and>
     once (closedEvent c) (onClosed c) (calls is_closed_call (effects c)) \<and>
     (occurred (disconnectEvent c) \<longrightarrow> isClose c \<and> \<not> intentionalClose c) \<and>
     occurred (closedEvent c) = isClose c \<and> (intentionalClose c \<longrightarrow> isClose c)"

subsection \<open>The pump\<close>

definition pump_inv :: "Connection \<Rightarrow> bool" where
  "pump_inv c \<longleftrightarrow>
     (pumpDone c \<noteq> None \<longrightarrow> pumpRun c) \<and>
     (pumpDone c = Some False \<longrightarrow> adp c \<noteq> None \<and> inboundCh c \<noteq> None \<and> controlCh c \<noteq> None) \<and>
     (\<forall>fs. inboundCh c = Some fs \<longrightarrow> length fs \<le> inboundChSize) \<and>
     (\<forall>cmds. controlCh c = Some cmds \<longrightarrow> length cmds \<le> controlChSize) \<and>
     (isClose c \<longrightarrow> ctxDone c)"

definition conn_inv :: "Connection \<Rightarrow> bool" where
  "conn_inv c \<longleftrightarrow> req_inv (responseMap c) (requests c) (nextReq c) \<and> listen_inv (listenRoutes c) \<and>
     event_inv c \<and> pump_inv c \<and> \<not> panicked c"

lemmas inv_defs = conn_inv_def event_inv_def pump_inv_def
lemmas small_ops = bindConn_def SetSecretKey_def send_def emit_def RegisterHeartbeat_def StopHeartbeat_def
  pump_exit_def stopHeartbeatTimer_def drainInbound_def EnqueueRaw_def controlChSize_def inboundChSize_def

text \<open>The invariant by parts; most operations touch one part only.\<close>

lemma conn_invI:
  "req_inv (responseMap c) (requests c) (nextReq c) \<Longrightarrow> listen_inv (listenRoutes c) \<Longrightarrow>
   event_inv c \<Longrightarrow> pump_inv c \<Longrightarrow> \<not> panicked c \<Longrightarrow> conn_inv c"
  by (simp add: conn_inv_def)

lemma conn_invD:
  assumes "conn_inv c"
  shows "req_inv (responseMap c) (requests c) (nextReq c)" "listen_inv (listenRoutes c)"
    "event_inv c" "pump_inv c" "\<not> panicked c"
  using assms by (simp_all add: conn_inv_def)

lemma conn_inv_requests:
  "conn_inv c \<Longrightarrow> req_inv rm rq n \<Longrightarrow> conn_inv (c\<lparr>responseMap := rm, requests := rq, nextReq := n\<rparr>)"
  by (simp add: inv_defs)

lemma conn_inv_req_buf:
  "conn_inv c \<Longrightarrow> req_inv (responseMap c) rq (nextReq c) \<Longrightarrow> conn_inv (c\<lparr>requests := rq\<rparr>)"
  by (simp add: inv_defs)

lemma conn_inv_listeners:
  "conn_inv c \<Longrightarrow> listen_inv lr \<Longrightarrow> conn_inv (c\<lparr>listenRoutes := lr\<rparr>)"
  by (simp add: inv_defs)

lemma conn_inv_emit:
  "conn_inv c \<Longrightarrow> \<not> is_disconnect e \<Longrightarrow> \<not> is_closed_call e \<Longrightarrow> conn_inv (emit e c)"
  by (simp add: inv_defs emit_def)

lemma conn_inv_receive:
  assumes c: "conn_inv c"
  shows "conn_inv (OnReceive k body e w c)"
proof (cases "isClose c")
  case False
  let ?m = "NewMessage k body e w"
  have k: "RouteKey ?m = k" by (simp add: NewMessage_def)
  show ?thesis
  proof (cases "responseMap c k")
    case None
    then show ?thesis
      using c False listen_inv_push [OF conn_invD(2) [OF c] _ k]
      by (auto simp: OnReceive_def dispatchListen_def split: option.split intro!: conn_inv_emit conn_inv_listeners)
  next
    case (Some ch)
    note req = conn_invD(1) [OF c]
    from req Some obtain r where r: "requests c ch = Some r" unfolding req_inv_def by blast
    note rk = req_invD [OF req r Some]
    have "req_inv (responseMap c) ((requests c)(ch \<mapsto> r\<lparr>prBuf := Some ?m\<rparr>)) (nextReq c)"
      by (rule req_inv_upd [OF req r]) (simp_all add: rk k)
    then show ?thesis
      using c False Some r rk by (simp add: OnReceive_def chan_send_def conn_inv_req_buf)
  qed
qed (use assms in \<open>simp add: OnReceive_def\<close>)

lemma conn_inv_listen:
  assumes c: "conn_inv c" and n: "1 \<le> n"
  shows "conn_inv (snd (RegisterListen k cb n c))"
proof -
  have old: "listen_inv ((listenRoutes c)(k \<mapsto> b\<lparr>bindCb := cb\<rparr>))" if "listenRoutes c k = Some b" for b
    using conn_invD(2) [OF c] that by (intro listen_inv_upd) (auto simp: listen_inv_def)
  obtain q :: "Message listenQueue" where q: "newListenQueue n = Some q"
    using n by (simp add: newListenQueue_def)
  have "listen_inv ((listenRoutes c)(k \<mapsto> \<lparr>bindCb = cb, bindQueue = q\<rparr>))"
    using conn_invD(2) [OF c] newListenQueue_ok [OF q] by (intro listen_inv_upd) simp_all
  with old q show ?thesis
    using c by (simp add: RegisterListen_def conn_inv_listeners split: option.split)
qed

text \<open>An event is published, and a callback set, in the same way for both events.\<close>

lemma once_set: "once ev fn n \<Longrightarrow> \<not> (occurred ev \<and> \<not> delivered ev) \<Longrightarrow> once ev fn' n"
  by (simp add: once_def)

lemma once_none: "once ev fn n \<Longrightarrow> once ev None n"
  by (simp add: once_def)

lemma once_deliver: "once ev fn n \<Longrightarrow> \<not> delivered ev \<Longrightarrow>
    once (ev\<lparr>occurred := True, delivered := True\<rparr>) fn' (Suc n)"
  "once ev fn n \<Longrightarrow> \<not> delivered ev \<Longrightarrow> occurred ev \<Longrightarrow> once (ev\<lparr>delivered := True\<rparr>) fn' (Suc n)"
  by (simp_all add: once_def)

lemma once_occur: "once ev fn n \<Longrightarrow> delivered ev \<or> fn = None \<Longrightarrow> once (ev\<lparr>occurred := True\<rparr>) fn n"
  by (auto simp: once_def)

lemma once_disconnectEvent:
  "conn_inv c \<Longrightarrow> once (disconnectEvent c) (onDisconnect c) (calls is_disconnect (effects c))"
  by (simp add: inv_defs)

lemma once_closedEvent:
  "conn_inv c \<Longrightarrow> once (closedEvent c) (onClosed c) (calls is_closed_call (effects c))"
  by (simp add: inv_defs)

lemma conn_inv_SetOnDisconnect:
  assumes c: "conn_inv c"
  shows "conn_inv (SetOnDisconnect fn c)"
proof (cases "fn \<noteq> None \<and> occurred (disconnectEvent c) \<and> \<not> delivered (disconnectEvent c)")
  case True
  then show ?thesis
    using c once_deliver(2) [OF once_disconnectEvent [OF c]] by (auto simp: SetOnDisconnect_def inv_defs emit_def)
next
  case False
  have "once (disconnectEvent c) fn (calls is_disconnect (effects c))"
    using False once_disconnectEvent [OF c] by (auto simp: once_def)
  moreover have "SetOnDisconnect fn c = c\<lparr>onDisconnect := fn\<rparr>" using False by (auto simp: SetOnDisconnect_def Let_def split: option.split)
  ultimately show ?thesis using c by (simp add: inv_defs)
qed

lemma conn_inv_SetOnClosed:
  assumes c: "conn_inv c"
  shows "conn_inv (SetOnClosed fn c)"
proof (cases "fn \<noteq> None \<and> occurred (closedEvent c) \<and> \<not> delivered (closedEvent c)")
  case True
  then show ?thesis
    using c once_deliver(2) [OF once_closedEvent [OF c]] by (auto simp: SetOnClosed_def inv_defs emit_def)
next
  case False
  have "once (closedEvent c) fn (calls is_closed_call (effects c))"
    using False once_closedEvent [OF c] by (auto simp: once_def)
  moreover have "SetOnClosed fn c = c\<lparr>onClosed := fn\<rparr>" using False by (auto simp: SetOnClosed_def Let_def split: option.split)
  ultimately show ?thesis using c by (simp add: inv_defs)
qed

text \<open>The invariant as long as the closing of a connection has not published its second event.\<close>

definition closing_inv :: "Connection \<Rightarrow> bool" where
  "closing_inv c \<longleftrightarrow> req_inv (responseMap c) (requests c) (nextReq c) \<and> listen_inv (listenRoutes c) \<and>
     once (disconnectEvent c) (onDisconnect c) (calls is_disconnect (effects c)) \<and>
     once (closedEvent c) (onClosed c) (calls is_closed_call (effects c)) \<and>
     (occurred (disconnectEvent c) \<longrightarrow> \<not> intentionalClose c) \<and> isClose c \<and> ctxDone c \<and>
     pump_inv c \<and> \<not> panicked c"

lemma closing_publishClosed: "closing_inv c \<Longrightarrow> conn_inv (publishClosed c)"
  by (cases "onClosed c") (auto simp: publishClosed_def closing_inv_def inv_defs emit_def Let_def
      intro: once_occur once_deliver)

lemma closing_publishDisconnected:
  "closing_inv c \<Longrightarrow> \<not> intentionalClose c \<Longrightarrow> closing_inv (publishDisconnected c)"
  by (cases "onDisconnect c") (auto simp: publishDisconnected_def closing_inv_def pump_inv_def emit_def Let_def
      intro: once_occur once_deliver)

lemma closing_start:
  "conn_inv c \<Longrightarrow> \<not> isClose c \<Longrightarrow> closing_inv (doClose (c\<lparr>isClose := True, intentionalClose := i\<rparr>))"
  by (auto simp: doClose_def StopHeartbeat_def closing_inv_def inv_defs controlChSize_def split: option.split)

lemma closing_emit: "closing_inv (emit CalledClose c) = closing_inv c"
  by (simp add: closing_inv_def emit_def pump_inv_def)

lemma doClose_emit: "doClose (emit e c) = emit e (doClose c)"
  by (simp add: doClose_def StopHeartbeat_def emit_def split: option.split)

lemma conn_inv_close:
  assumes "conn_inv c"
  shows "conn_inv (onClose c)" "conn_inv (Close c)"
proof -
  have i: "c\<lparr>isClose := True\<rparr> = c\<lparr>isClose := True, intentionalClose := intentionalClose c\<rparr>" by simp
  have n: "intentionalClose (doClose x) = intentionalClose x" for x
    by (simp add: doClose_def StopHeartbeat_def split: option.split)
  have disc: "closing_inv (publishDisconnected (doClose x))"
    if "closing_inv (doClose x)" "\<not> intentionalClose x" for x
    using closing_publishDisconnected [OF that(1)] that(2) by (simp add: n)
  show "conn_inv (onClose c)"
  proof (cases "isClose c")
    case False
    then have "closing_inv (doClose (c\<lparr>isClose := True\<rparr>))"
      using assms closing_start [of c "intentionalClose c"] by (simp flip: i)
    then show ?thesis
      using False disc [of "c\<lparr>isClose := True\<rparr>"] by (simp add: onClose_def n Let_def closing_publishClosed)
  qed (use assms in \<open>simp add: onClose_def\<close>)
  show "conn_inv (Close c)"
    using assms closing_start [of c True]
    by (auto simp: Close_def Let_def doClose_emit closing_emit intro: closing_publishClosed)
qed

lemma conn_inv_open:
  "conn_inv c \<Longrightarrow> conn_inv (snd (registerResponseChan k (nextReq c) (snd (make_chan k t c))))"
  by (auto simp: inv_defs registerResponseChan_def make_chan_def intro!: req_inv_open)

lemma conn_inv_take:
  assumes c: "conn_inv c"
  shows "conn_inv (snd (receive ch c))"
proof (cases "requests c ch")
  case (Some r)
  have "req_inv (responseMap c) ((requests c)(ch \<mapsto> r\<lparr>prBuf := None\<rparr>)) (nextReq c)"
    by (rule req_inv_upd [OF conn_invD(1) [OF c] Some])
       (simp_all add: req_invD(2) [OF conn_invD(1) [OF c] Some])
  then show ?thesis using c Some by (simp add: receive_def conn_inv_req_buf)
qed (use c in \<open>simp add: receive_def\<close>)

lemma conn_inv_unregister: "conn_inv c \<Longrightarrow> conn_inv (unregister ch c)"
  using req_inv_unregister [OF conn_invD(1), of c ch]
  by (auto simp: unregister_def inv_defs split: option.split)

lemma conn_inv_close_chan: "conn_inv c \<Longrightarrow> conn_inv (close_chan ch c)"
  by (auto simp: close_chan_def intro!: conn_inv_req_buf req_inv_close conn_invD split: option.split)

lemma conn_inv_get: "conn_inv c \<Longrightarrow> conn_inv (snd (GetListenResp k c))"
  by (auto simp: GetListenResp_def case_prod_beta intro!: conn_inv_listeners listen_inv_pop conn_invD split: option.split)

interpretation conn: conn_invariant conn_inv
proof
  fix c :: Connection and ok a udp fn key err data k t ch n cb body e w msg hcfg h p f fs cmd cmds
  assume c: "conn_inv c"
  show "conn_inv (bindConn c)" "conn_inv (SetSecretKey key c)" "conn_inv (RegisterHeartbeat hcfg c)"
    "conn_inv (StopHeartbeat c)" "conn_inv (c\<lparr>hb := h\<rparr>)" "conn_inv (c\<lparr>pumpPos := p\<rparr>)"
    "conn_inv (c\<lparr>ctxDone := True\<rparr>)" "conn_inv (snd (EnqueueRaw msg c))"
    using c by (auto simp: inv_defs small_ops split: option.split)
  show "conn_inv (snd (send err data c))"
    using c by (simp add: send_def conn_inv_emit split: option.split)
  show "conn_inv (snd (startPumpWithSubmit ok a udp c))"
    using c by (auto simp: inv_defs startPumpWithSubmit_def split: option.split)
  show "inboundCh c = Some (f # fs) \<Longrightarrow> conn_inv (emit (Decoded f) (c\<lparr>inboundCh := Some fs, pumpPos := p\<rparr>))"
    using c by (intro conn_inv_emit) (simp_all add: inv_defs)
  show "pumpDone c = Some False \<Longrightarrow> adp c \<noteq> None" using c by (simp add: inv_defs)
  show "controlCh c = Some (cmd # cmds) \<Longrightarrow> conn_inv (c\<lparr>controlCh := Some cmds\<rparr>)"
    using c by (simp add: inv_defs)
  show "pumpDone c = Some False \<Longrightarrow> conn_inv (pump_exit c)"
    using c by (simp add: inv_defs small_ops)
next
  show "conn_inv (NewConnection service robot timeout)" for service robot timeout
    by (simp add: inv_defs once_def NewConnection_def noEvent_def req_inv_def listen_inv_def)
qed (simp_all add: conn_inv_SetOnDisconnect conn_inv_SetOnClosed conn_inv_open conn_inv_take conn_inv_unregister
    conn_inv_close_chan conn_inv_listen conn_inv_get conn_inv_receive conn_inv_close)

subsection \<open>The heartbeat is not starved\<close>

fun is_decoded :: "effect \<Rightarrow> bool" where
  "is_decoded (Decoded f) = True" | "is_decoded _ = False"

definition frames_decoded :: "Connection \<Rightarrow> nat" where
  "frames_decoded c = calls is_decoded (effects c)"

text \<open>Any steps whatever, as long as the timer's tick stays untaken.\<close>

inductive while_due :: "Connection \<Rightarrow> Connection \<Rightarrow> bool" where
  start: "heartbeatDue c \<Longrightarrow> while_due c c"
| step: "while_due c c' \<Longrightarrow> conn_step c' c'' \<Longrightarrow> heartbeatDue c'' \<Longrightarrow> while_due c c''"

text \<open>The frames the pump may still decode before it is back at the top, where the heartbeat goes first.\<close>

definition budget :: "Connection \<Rightarrow> nat" where
  "budget c = (case pumpPos c of AtTop \<Rightarrow> 0 | AtSelect \<Rightarrow> pumpInboundBatchSize
     | InBatch n \<Rightarrow> pumpInboundBatchSize - n)"

definition same_work :: "Connection \<Rightarrow> Connection \<Rightarrow> bool" where
  "same_work c c' \<longleftrightarrow> pumpPos c' = pumpPos c \<and> frames_decoded c' = frames_decoded c"

lemma same_workI [simp]:
  "same_work c c"
  "same_work c (bindConn c)" "same_work c (SetSecretKey key c)"
  "same_work c (RegisterHeartbeat hcfg c)" "same_work c (StopHeartbeat c)" "same_work c (timer_tick c)"
  "same_work c (unregister ch c)" "same_work c (close_chan ch c)" "same_work c (snd (receive ch c))"
  "same_work c (snd (EnqueueRaw msg c))" "same_work c (doClose c)" "same_work c (drainInbound c)"
  "same_work c (snd (make_chan k t c))" "same_work c (snd (registerResponseChan k ch c))"
  "same_work c (chan_send ch m c)"
  "same_work c (snd (RegisterListen k cb n c))" "same_work c (snd (GetListenResp k c))"
  by (auto simp: same_work_def frames_decoded_def small_ops unregister_def close_chan_def receive_def timer_tick_def
      set_timer_def doClose_def make_chan_def registerResponseChan_def chan_send_def RegisterListen_def
      GetListenResp_def case_prod_beta Let_def split: option.split)

lemma same_work_emit [simp]: "\<not> is_decoded e \<Longrightarrow> same_work c (emit e c)"
  by (simp add: same_work_def frames_decoded_def emit_def)

lemma same_work_trans: "same_work c c' \<Longrightarrow> same_work c' c'' \<Longrightarrow> same_work c c''"
  by (simp add: same_work_def)

lemma same_work_send [simp]: "same_work c (snd (send err data c))"
  by (simp add: send_def split: option.split)

lemma same_work_callbacks [simp]:
  "same_work c (SetOnDisconnect fn c)" "same_work c (SetOnClosed fn c)"
  "same_work c (publishDisconnected c)" "same_work c (publishClosed c)"
  by (simp_all add: same_work_def frames_decoded_def SetOnDisconnect_def SetOnClosed_def publishDisconnected_def
      publishClosed_def emit_def Let_def split: option.split)

lemma same_work_close [simp]: "same_work c (onClose c)" "same_work c (Close c)"
proof -
  have 1: "same_work c (doClose c')" if "same_work c c'" for c'
    by (rule same_work_trans [OF that]) simp
  have 2: "same_work c (publishClosed c')" "same_work c (publishDisconnected c')" if "same_work c c'" for c'
    by (rule same_work_trans [OF that]; simp)+
  have "same_work c (doClose (c\<lparr>isClose := True\<rparr>))"
    "same_work c (doClose (c\<lparr>isClose := True, intentionalClose := True\<rparr>))"
    "same_work c (doClose (emit CalledClose (c\<lparr>isClose := True, intentionalClose := True\<rparr>)))"
    by (intro 1; simp add: same_work_def frames_decoded_def emit_def)+
  then show "same_work c (onClose c)" "same_work c (Close c)"
    by (simp_all add: onClose_def Close_def Let_def 2)
qed

definition opened :: "string \<Rightarrow> int \<Rightarrow> Connection \<Rightarrow> Connection" where
  "opened k t c = snd (registerResponseChan k (nextReq c) (snd (make_chan k t c)))"

lemma SendRequest_opened:
  "SendRequest ctx err data k t c =
    (if isClose c
     then (Inl (NewActionError ErrConnClosed (serviceName c @ '' routeKey='' @ k) []), c)
     else case callerCanceled ctx (serviceName c) k of
       Some e \<Rightarrow> (Inl e, c)
     | None \<Rightarrow> (case send err data (opened k t c) of
          (Inl e, c') \<Rightarrow> (Inl e, CloseRequest (nextReq c) c')
        | (Inr n, c') \<Rightarrow> (Inr (nextReq c), c')))"
  unfolding SendRequest_def opened_def make_chan_def Let_def prod.case snd_conv ..

lemma same_work_opened [simp]: "same_work c (opened k t c)"
  unfolding opened_def by (rule same_work_trans [of _ "snd (make_chan k t c)"]) simp_all

lemma same_work_request [simp]: "same_work c (snd (SendRequest ctx err data k t c))"
proof -
  have 1: "same_work c (snd (send err data (opened k t c)))"
    by (rule same_work_trans [of _ "opened k t c"]) simp_all
  have 2: "same_work c (CloseRequest ch (snd (send err data (opened k t c))))" for ch
    unfolding CloseRequest_def
    by (rule same_work_trans [OF 1], rule same_work_trans [of _ "unregister ch (snd (send err data (opened k t c)))"])
       simp_all
  show ?thesis using 1 2 by (simp add: SendRequest_opened case_prod_beta split: option.split sum.split)
qed

lemma same_work_receive [simp]: "same_work c (OnReceive k body e w c)"
  by (auto simp: OnReceive_def dispatchListen_def split: option.split) (simp add: same_work_def frames_decoded_def)

lemma decode_work:
  "pumpPos (decodeAndDispatch lib hash cache f c) = pumpPos c"
  "frames_decoded (decodeAndDispatch lib hash cache f c) = Suc (frames_decoded c)"
proof -
  have "frames_decoded (emit (Decoded f) c) = Suc (frames_decoded c)" "pumpPos (emit (Decoded f) c) = pumpPos c"
    by (simp_all add: frames_decoded_def emit_def)
  then show "pumpPos (decodeAndDispatch lib hash cache f c) = pumpPos c"
    "frames_decoded (decodeAndDispatch lib hash cache f c) = Suc (frames_decoded c)"
    using same_work_receive [of "emit (Decoded f) c"]
    by (auto simp: decodeAndDispatch_def case_prod_beta Let_def same_work_def frames_decoded_def split: option.split)
qed

lemma take_frame_work:
  assumes "take_frame_step env p c = Some c'"
  shows "pumpPos c' = p" "frames_decoded c' = Suc (frames_decoded c)"
  using assms by (auto simp: take_frame_step_def decode_work split: option.splits list.splits)
     (simp add: frames_decoded_def)

lemma heartbeat_not_due: "heartbeatDue c \<Longrightarrow> \<not> heartbeatDue (heartbeat packet err c)"
  by (auto simp: heartbeat_def resetHeartbeatTimer_def heartbeatDue_def set_timer_def split: option.splits)

lemma handleControl_work: "frames_decoded (handleControl cmd c) = frames_decoded c"
  by (cases cmd) (simp_all add: handleControl_def stopHeartbeatTimer_def resetHeartbeatTimer_def set_timer_def
      frames_decoded_def Let_def)

lemma pump_budget:
  assumes "connectionPump env branch c = Some c'" "heartbeatDue c" "heartbeatDue c'"
  shows "frames_decoded c' + budget c' \<le> frames_decoded c + budget c"
proof (cases "pumpPos c")
  case AtTop
  then show ?thesis using assms heartbeat_not_due by (auto simp: connectionPump_def split: if_splits)
next
  case AtSelect
  show ?thesis
  proof (cases branch)
    case ChooseInbound
    then show ?thesis
      using assms(1) AtSelect take_frame_work [of env "InBatch 1" c c']
      by (simp add: connectionPump_def budget_def pumpInboundBatchSize_def split: if_splits)
  next
    case ChooseTimer
    then show ?thesis
      using assms AtSelect heartbeat_not_due [OF assms(2)]
      by (auto simp: connectionPump_def heartbeatDue_def split: if_splits)
  next
    case ChooseControl
    then show ?thesis
      using assms(1) AtSelect
      by (auto simp: connectionPump_def budget_def frames_decoded_def handleControl_work [unfolded frames_decoded_def]
          split: if_splits option.splits list.splits)
  next
    case ChooseCtx
    then show ?thesis
      using assms(1) AtSelect
      by (auto simp: connectionPump_def budget_def frames_decoded_def pump_exit_def stopHeartbeatTimer_def
          drainInbound_def split: if_splits)
  qed
next
  case (InBatch n)
  then show ?thesis
    using assms(1) take_frame_work [of env "InBatch (Suc n)" c]
    by (auto simp: connectionPump_def budget_def frames_decoded_def pumpInboundBatchSize_def
        split: if_splits option.splits)
qed

lemma step_budget:
  "conn_step c c' \<Longrightarrow> heartbeatDue c \<Longrightarrow> heartbeatDue c' \<Longrightarrow>
   frames_decoded c' + budget c' \<le> frames_decoded c + budget c"
proof (induction rule: conn_step.induct)
  case (start c ok a udp)
  then show ?case
    by (auto simp: startPumpWithSubmit_def frames_decoded_def budget_def split: option.split)
next
  case (pump env branch c c')
  then show ?case by (rule pump_budget)
next
  case (open_request c k t)
  show ?case using same_work_opened [of c k t] by (simp add: same_work_def budget_def opened_def)
qed (use same_workI same_work_send same_work_close same_work_request same_work_callbacks in
    \<open>simp_all add: same_work_def budget_def Send_def\<close>)

subsection \<open>A request and its response\<close>

lemma send_ok:
  "send err data c = (Inr n, c') \<Longrightarrow> c' = emit (Sent data) c"
  by (auto simp: send_def split: if_splits option.splits)

lemma SendRequest_ok:
  assumes "SendRequest ctx err data k t c = (Inr ch, c')"
  shows "c' = emit (Sent data) (opened k t c)" "ch = nextReq c" "\<not> isClose c"
  using assms send_ok by (auto simp: SendRequest_opened split: if_splits option.splits sum.splits prod.splits)

lemma decoded_response:
  assumes "codec_wf a" "symmetric_codec a" "one_compressor co a" "aes_laws lib" "gzip_laws lib"
    and "route_fits a route" "inflate_sound hash (inflates_to lib co) cache"
    and "adp c = Some a" "\<not> isClose c" "ExpectedRouteKey a route = k" "k \<noteq> ''''"
    and "responseMap c k = Some ch" "requests c ch = Some r" "prPhase r = ReqOpen" "prBuf r = None"
  shows "fst (receive ch (decodeAndDispatch lib hash cache
      \<lparr>frameData = encode lib a route body (GetSecretKey c), frameWireBytes = w\<rparr> c)) = Some (NewMessage k (Some body) 0 w)"
proof -
  let ?f = "\<lparr>frameData = encode lib a route body (GetSecretKey c), frameWireBytes = w\<rparr>"
  obtain cache' where d: "decode lib hash a cache (encode lib a route body (GetSecretKey c)) (GetSecretKey c)
      = (\<lparr>dRouteKey = k, dBody = Some body, dHeaderErr = 0, dReason = ReasonNone\<rparr>, cache')"
    using decode_encode [OF assms(1-7), of body "GetSecretKey c"] assms(10)
    by (metis prod.collapse)
  have e: "GetSecretKey (emit x c) = GetSecretKey c" "adp (emit x c) = adp c" "isClose (emit x c) = isClose c"
    "responseMap (emit x c) = responseMap c" "requests (emit x c) = requests c" for x
    by (simp_all add: emit_def GetSecretKey_def)
  have "decodeAndDispatch lib hash cache ?f c = OnReceive k (Some body) 0 w (emit (Decoded ?f) c)"
    using assms(8,11) by (simp add: decodeAndDispatch_def DecodeTCP_def DecodeUDP_def e d Let_def)
  then show ?thesis
    using assms(9,12-15) by (simp add: OnReceive_def chan_send_def receive_def e)
qed

subsection \<open>Properties\<close>

text \<open>
  C16. Whatever the users, the event loop, the clock and the pump do to a connection and in whatever
  order, nothing is ever sent on a closed response channel (nor does any other panic happen): every
  channel registered under a route key is that of an open request for this key.
\<close>

theorem no_send_on_closed_channel:
  assumes "reachable c"
  shows "\<not> panicked c \<and> (case responseMap c routeKey of None \<Rightarrow> True | Some ch \<Rightarrow>
     \<exists>r. requests c ch = Some r \<and> prRoute r = routeKey \<and> prPhase r = ReqOpen)"
  using conn.reachable_I [OF assms] by (auto simp: conn_inv_def req_inv_def split: option.split)

text \<open>
  C19. In every reachable state each life-cycle callback has been called at most once, and the calls
  recorded are exactly the deliveries: the closed event is delivered as soon as the connection is
  closed and a callback is set, in either order; the disconnect callback is never called for an
  intentional close; and a closed connection has asked its pump to stop.
\<close>

theorem lifecycle_once:
  assumes "reachable c"
  shows "calls is_closed_call (effects c) = (if delivered (closedEvent c) then 1 else 0) \<and>
    calls is_disconnect (effects c) = (if delivered (disconnectEvent c) then 1 else 0) \<and>
    (isClose c \<and> onClosed c \<noteq> None \<longrightarrow> delivered (closedEvent c)) \<and>
    (delivered (closedEvent c) \<longrightarrow> isClose c) \<and>
    (delivered (disconnectEvent c) \<longrightarrow> isClose c \<and> \<not> intentionalClose c) \<and>
    (isClose c \<longrightarrow> ctxDone c)"
  using conn.reachable_I [OF assms] by (auto simp: conn_inv_def event_inv_def once_def pump_inv_def)

text \<open>
  C18. Inbound traffic cannot starve the heartbeat: from the moment its timer has fired until the
  pump takes the tick, at most one batch (16 frames) is decoded, however many frames arrive and
  whatever else happens to the connection meanwhile.
\<close>

theorem heartbeat_not_starved:
  assumes "while_due c c'"
  shows "frames_decoded c' \<le> frames_decoded c + pumpInboundBatchSize"
proof -
  have "frames_decoded c' + budget c' \<le> frames_decoded c + budget c \<and> heartbeatDue c'"
    using assms
  proof (induction rule: while_due.induct)
    case (step c c' c'')
    then show ?case using step_budget [of c' c''] by auto
  qed simp
  moreover have "budget c \<le> pumpInboundBatchSize" by (simp add: budget_def split: pumpPos.split)
  ultimately show ?thesis by simp
qed

text \<open>
  C3. A response finds its request, end to end: after a request for a route has gone out, the frame
  that the peer's codec encodes for this route is cut by the event loop, queued, decoded by the pump
  with the connection's key, and its body is what the waiter of that request receives, under the
  route key and without a header error.
\<close>

theorem request_response:
  assumes "NewSchemaCodec (Some s) em = Inr a" "small_ints s" "symmetric_codec a" "one_compressor co a"
    and "aes_laws (envLib env)" "gzip_laws (envLib env)" "route_fits a route"
    and "inflate_sound (envHash env) (inflates_to (envLib env) co) (envCache env)"
    and "exact_kind (endian (lengthField a)) (kind (lengthField a))" "counts_trailer a"
    and "length_fits (envLib env) a maxBodyLen (route, body, GetSecretKey c)"
    and "pumpDone c = Some False" "pumpPos c = AtSelect" "adp c = Some a" "inboundCh c = Some []"
    and "ExpectedRouteKey a route \<noteq> ''''"
    and "SendRequest ctx err sendData (ExpectedRouteKey a route) timeout c = (Inr ch, c1)"
  shows "\<exists>c2 c3. OnTraffic a maxBodyLen (Some EnqueueRaw) (encode (envLib env) a route body (GetSecretKey c)) c1
       = Some (ActionNone, [], c2) \<and>
     connectionPump env ChooseInbound c2 = Some c3 \<and>
     fst (receive ch c3) = Some (NewMessage (ExpectedRouteKey a route) (Some body) 0
       (length (encode (envLib env) a route body (GetSecretKey c))))"
proof -
  let ?k = "ExpectedRouteKey a route" and ?m = "encode (envLib env) a route body (GetSecretKey c)"
  let ?f = "\<lparr>frameData = ?m, frameWireBytes = length ?m\<rparr>"
  note wf = NewSchemaCodec_wf [OF assms(1,2)] and c1 = SendRequest_ok [OF assms(17)]
  define c2 where "c2 = c1\<lparr>inboundCh := Some [?f]\<rparr>"
  have c1': "isClose c1 = False" "inboundCh c1 = Some []" "GetSecretKey c1 = GetSecretKey c" "adp c1 = Some a"
    "pumpDone c1 = Some False" "pumpPos c1 = AtSelect" "responseMap c1 ?k = Some ch"
    "\<exists>r. requests c1 ch = Some r \<and> prPhase r = ReqOpen \<and> prBuf r = None"
    using c1 assms(12-15) by (simp_all add: opened_def registerResponseChan_def make_chan_def emit_def GetSecretKey_def)
  have "EnqueueRaw ?m c1 = (EnqueueOK, c2)"
    using c1' by (simp add: EnqueueRaw_def c2_def inboundChSize_def)
  moreover have "list_all (well_cut a maxBodyLen) [?m]" using body_length_encoded [OF wf assms(9-11)] by simp
  ultimately have "OnTraffic a maxBodyLen (Some EnqueueRaw) ?m c1 = OnTraffic a maxBodyLen (Some EnqueueRaw) [] c2"
    using OnTraffic_frames [of a maxBodyLen "[?m]" EnqueueRaw c1 c2 "[]"] by simp
  moreover have "0 < headerSize a" using wf by (simp add: codec_wf_def)
  then have "OnTraffic a maxBodyLen (Some EnqueueRaw) [] c2 = Some (ActionNone, [], c2)"
    by (subst OnTraffic_front) (simp add: front_of_def)
  moreover define c3 where
    "c3 = decodeAndDispatch (envLib env) (envHash env) (envCache env) ?f (c2\<lparr>inboundCh := Some [], pumpPos := InBatch 1\<rparr>)"
  have "connectionPump env ChooseInbound c2 = Some c3"
    using c1' by (simp add: connectionPump_def take_frame_step_def c2_def c3_def)
  moreover have "fst (receive ch c3) = Some (NewMessage ?k (Some body) 0 (length ?m))"
    using decoded_response [OF wf assms(3-8), of "c2\<lparr>inboundCh := Some [], pumpPos := InBatch 1\<rparr>" ?k ch _ body "length ?m"]
      c1' assms(16) by (auto simp: c2_def c3_def GetSecretKey_def)
  ultimately show ?thesis by auto
qed

subsection \<open>Witnesses\<close>

definition sample_env :: pumpEnv where
  "sample_env = \<lparr>envLib = sample_lib, envHash = (\<lambda>_. 0), envCache = sharedInflateCache, envPacket = None,
     envSendErr = None\<rparr>"

definition sample_conn :: Connection where
  "sample_conn = SetSecretKey (replicate 32 5) (snd (startPumpWithSubmit True (Some tcp_logic) False
     (bindConn (NewConnection ''logic'' ''robot'' 5000))))"

definition waiting_conn :: Connection where
  "waiting_conn = the (connectionPump sample_env ChooseInbound sample_conn)"

lemmas sample_defs = waiting_conn_def sample_conn_def sample_env_def connectionPump_def heartbeatDue_def
  startPumpWithSubmit_def SetSecretKey_def bindConn_def NewConnection_def GetSecretKey_def

lemma waiting_facts:
  "pumpDone waiting_conn = Some False" "pumpPos waiting_conn = AtSelect" "adp waiting_conn = Some tcp_logic"
  "inboundCh waiting_conn = Some []" "GetSecretKey waiting_conn = replicate 32 5" "isClose waiting_conn = False"
  "sendFunc waiting_conn" "nextReq waiting_conn = 0" "hb waiting_conn = None"
  by (simp_all add: sample_defs replicate_eq_replicate flip: replicate_Suc)

lemma waiting_request:
  "SendRequest None None [1, 2] ''1:2'' 0 waiting_conn = (Inr 0, emit (Sent [1, 2]) (opened ''1:2'' 0 waiting_conn))"
proof -
  have "\<not> isClose (opened ''1:2'' 0 waiting_conn)" "sendFunc (opened ''1:2'' 0 waiting_conn)"
    using waiting_facts(6,7) by (simp_all add: opened_def registerResponseChan_def make_chan_def)
  then show ?thesis
    using waiting_facts(6,8) by (simp add: SendRequest_opened callerCanceled_def send_def)
qed

lemma sample_fits: "length_fits sample_lib tcp_logic 100 (sample_route, [9, 8, 7], replicate 32 5)"
  using tcp_logic_cut(3) by simp

theorem request_response_witness:
  "\<exists>c2 c3. OnTraffic tcp_logic 100 (Some EnqueueRaw) (encode sample_lib tcp_logic sample_route [9, 8, 7] (replicate 32 5))
       (snd (SendRequest None None [1, 2] ''1:2'' 0 waiting_conn)) = Some (ActionNone, [], c2) \<and>
     connectionPump sample_env ChooseInbound c2 = Some c3 \<and>
     fst (receive 0 c3) = Some (NewMessage ''1:2'' (Some [9, 8, 7]) 0
       (length (encode sample_lib tcp_logic sample_route [9, 8, 7] (replicate 32 5))))"
  using request_response [where env = sample_env and c = waiting_conn and route = sample_route and maxBodyLen = 100
      and body = "[9, 8, 7]" and ctx = None and err = None and sendData = "[1, 2]" and timeout = 0
      and ch = 0 and ?c1.0 = "emit (Sent [1, 2]) (opened ''1:2'' 0 waiting_conn)",
      OF tcp_logic_compiles tcp_logic_small tcp_logic_symmetric(1,2) _ _ tcp_logic_symmetric(3) _ tcp_logic_cut(1,2)]
    sample_lib_laws sample_gzip_laws shared_cache_sound sample_fits waiting_facts waiting_request
  by (simp add: tcp_logic_symmetric(4) sample_env_def)

lemma waiting_reachable: "reachable waiting_conn"
proof -
  have "reachable sample_conn"
    unfolding sample_conn_def by (intro reachable.step [OF _ set_key] reachable.step [OF _ conn_step.start] reachable.step [OF _ bind] reachable.new)
  moreover have "connectionPump sample_env ChooseInbound sample_conn = Some waiting_conn"
    by (simp add: sample_defs)
  ultimately show ?thesis by (blast intro: reachable.step pump)
qed

theorem no_send_on_closed_channel_witness:
  "\<not> panicked (snd (SendRequest None None [1, 2] ''1:2'' 0 waiting_conn))"
  using no_send_on_closed_channel [OF reachable.step [OF waiting_reachable request]] by blast

theorem lifecycle_once_witness:
  "calls is_closed_call (effects (Close (SetOnClosed (Some 4) waiting_conn))) = 1 \<and>
   calls is_disconnect (effects (Close (SetOnClosed (Some 4) waiting_conn))) = 0"
proof -
  have r: "reachable (Close (SetOnClosed (Some 4) waiting_conn))"
    by (intro reachable.step [OF _ close] reachable.step [OF _ set_closed] waiting_reachable)
  have "isClose (Close (SetOnClosed (Some 4) waiting_conn))" "onClosed (Close (SetOnClosed (Some 4) waiting_conn)) \<noteq> None"
    "intentionalClose (Close (SetOnClosed (Some 4) waiting_conn))"
    by (simp_all add: Close_def SetOnClosed_def publishClosed_def doClose_def StopHeartbeat_def emit_def waiting_facts
        Let_def split: option.split)
  then show ?thesis using lifecycle_once [OF r] by auto
qed

definition due_conn :: Connection where
  "due_conn = waiting_conn\<lparr>hb := Some \<lparr>hbCfg = \<lparr>Interval = 1000, Builder = Some 0\<rparr>, hbTimer = Some True\<rparr>,
     inboundCh := Some [\<lparr>frameData = [], frameWireBytes = 0\<rparr>]\<rparr>"

lemma due_step:
  "case connectionPump sample_env ChooseInbound due_conn of
     None \<Rightarrow> False | Some c' \<Rightarrow> heartbeatDue c' \<and> frames_decoded c' = 1"
  by code_simp

theorem heartbeat_not_starved_witness:
  "\<exists>c'. while_due due_conn c' \<and> frames_decoded c' = 1 \<and> frames_decoded c' \<le> frames_decoded due_conn + 16"
proof -
  obtain c' where c': "connectionPump sample_env ChooseInbound due_conn = Some c'" "heartbeatDue c'" "frames_decoded c' = 1"
    using due_step by (auto split: option.splits)
  have "while_due due_conn c'"
    by (rule while_due.step [OF while_due.start pump [OF c'(1)] c'(2)]) (simp add: due_conn_def heartbeatDue_def)
  then show ?thesis using c'(3) heartbeat_not_starved [of due_conn c'] by (auto simp: pumpInboundBatchSize_def)
qed

end
