(* ===== verification/CommandStore.thy ===== *)
theory CommandStore
  imports Prelude Errcode "HOL-Library.AList"
begin

text \<open>
  The command log of the admin server (\<^verbatim>\<open>admin/command/store.go\<close>, \<^verbatim>\<open>memory.go\<close>) and the parts of the
  control protocol it stores.  A stored record is shared by the index of all commands, the queue of
  its agent and the list of finished commands: records live in \<open>records\<close> under an address, and the
  other three hold addresses.  The address of a record is the sequence number it is given when it
  is created.  Sequence numbers are natural numbers: a process that creates a command every
  nanosecond exhausts \<open>uint64\<close> after 584 years.
\<close>

subsection \<open>Control messages\<close>

text \<open>The fields of a task assignment that the code between store and agent looks at.\<close>

record TaskAssignment =
  taTaskId :: string
  taStartNumber :: int
  taStartIndex :: int
  taTotalBots :: int
  taConcurrentNum :: int

record BundleDescriptor =
  Sha256 :: "nat list"
  bdSize :: int

datatype commandBody =
    NoBody
  | StartTask "TaskAssignment option" "BundleDescriptor option"
  | StopTask string
  | Shutdown string

record Command =
  CommandId :: string
  Sequence :: nat
  cmdAgentId :: string
  cmdTaskId :: string
  CreatedAtUnixNano :: int
  DeliveryGeneration :: nat
  Body :: commandBody

datatype CommandAckStatus = AckUnspecified | AckApplied | AckDuplicate | AckRejected

record CommandAck =
  ackCommandId :: string
  ackSequence :: nat
  ackAgentId :: string
  ackTaskId :: string
  ackStatus :: CommandAckStatus
  ackReason :: string

record CommandReceipt =
  rcCommandId :: string
  rcSequence :: nat

subsection \<open>Errors and kinds\<close>

datatype storeError = CtxError go_error | BadIdentity | MissingBody | DuplicateId string
  | BatchDuplicateId string | ErrCommandStoreFull | ErrCommandNotFound | BadAckStatus
  | AckWithoutId | AckMismatch

datatype commandKindName = KindStart | KindStop | KindShutdown

fun commandKind :: "commandBody \<Rightarrow> storeError + commandKindName" where
  "commandKind (StartTask a b) = Inr KindStart"
| "commandKind (StopTask r) = Inr KindStop"
| "commandKind (Shutdown r) = Inr KindShutdown"
| "commandKind NoBody = Inl MissingBody"

datatype recordState = StPending | StAcked | StRejected

fun commandState :: "CommandAckStatus \<Rightarrow> storeError + recordState" where
  "commandState AckApplied = Inr StAcked"
| "commandState AckDuplicate = Inr StAcked"
| "commandState AckRejected = Inr StRejected"
| "commandState AckUnspecified = Inl BadAckStatus"

definition commandReplayBatchSize :: int where "commandReplayBatchSize = 256"

subsection \<open>The store\<close>

record memoryCommand =
  mcCommand :: Command
  mcState :: recordState

record MemoryStore =
  records :: "nat \<rightharpoonup> memoryCommand"
  commands :: "(string \<times> nat) list"
  pendingByAgent :: "string \<rightharpoonup> nat list"
  terminalCommands :: "nat list"
  storeNext :: nat
  storeCapacity :: int

definition NewMemoryStore :: "int \<Rightarrow> MemoryStore" where
  "NewMemoryStore capacity =
    \<lparr>records = Map.empty, commands = [], pendingByAgent = Map.empty, terminalCommands = [],
     storeNext = 0, storeCapacity = (if capacity \<le> 0 then 100000 else capacity)\<rparr>"

fun check_batch :: "(string \<times> nat) list \<Rightarrow> string list \<Rightarrow> Command list \<Rightarrow> storeError option" where
  "check_batch cs seen [] = None"
| "check_batch cs seen (c # rest) =
    (if CommandId c = '''' \<or> cmdAgentId c = '''' then Some BadIdentity
     else case commandKind (Body c) of
       Inl e \<Rightarrow> Some e
     | Inr _ \<Rightarrow>
        if map_of cs (CommandId c) \<noteq> None then Some (DuplicateId (CommandId c))
        else if CommandId c \<in> set seen then Some (BatchDuplicateId (CommandId c))
        else check_batch cs (CommandId c # seen) rest)"

text \<open>The id under which the record at an address was stored.\<close>

definition record_id :: "MemoryStore \<Rightarrow> nat \<Rightarrow> string" where
  "record_id s q = (case records s q of None \<Rightarrow> '''' | Some r \<Rightarrow> CommandId (mcCommand r))"

fun drop_oldest :: "nat \<Rightarrow> MemoryStore \<Rightarrow> MemoryStore" where
  "drop_oldest 0 s = s"
| "drop_oldest (Suc n) s =
    (case terminalCommands s of
       [] \<Rightarrow> s
     | q # qs \<Rightarrow> drop_oldest n (s\<lparr>commands := AList.delete (record_id s q) (commands s), terminalCommands := qs\<rparr>))"

definition makeRoom :: "nat \<Rightarrow> MemoryStore \<Rightarrow> bool \<times> MemoryStore" where
  "makeRoom needed s =
    (let overflow = int (length (commands s)) + int needed - storeCapacity s in
     if overflow \<le> 0 then (True, s)
     else if overflow > int (length (terminalCommands s)) then (False, s)
     else (True, drop_oldest (nat overflow) s))"

definition pending_of :: "MemoryStore \<Rightarrow> string \<Rightarrow> nat list" where
  "pending_of s a = (case pendingByAgent s a of None \<Rightarrow> [] | Some qs \<Rightarrow> qs)"

definition create_one :: "int \<Rightarrow> Command \<Rightarrow> MemoryStore \<Rightarrow> Command \<times> MemoryStore" where
  "create_one now c s =
    (let q = storeNext s + 1;
         c' = c\<lparr>Sequence := q, CreatedAtUnixNano := (if CreatedAtUnixNano c = 0 then now else CreatedAtUnixNano c)\<rparr>
     in (c', s\<lparr>storeNext := q,
          records := (records s)(q \<mapsto> \<lparr>mcCommand = c', mcState = StPending\<rparr>),
          commands := AList.update (CommandId c) q (commands s),
          pendingByAgent := (pendingByAgent s)(cmdAgentId c \<mapsto> pending_of s (cmdAgentId c) @ [q])\<rparr>))"

fun create_all :: "int \<Rightarrow> Command list \<Rightarrow> MemoryStore \<Rightarrow> Command list \<times> MemoryStore" where
  "create_all now [] s = ([], s)"
| "create_all now (c # cs) s =
    (let (c', s1) = create_one now c s; (cs', s2) = create_all now cs s1 in (c' # cs', s2))"

text \<open>The caller's commands are numbered in place: the batch is returned as the call leaves it.\<close>

definition CreateBatch ::
  "go_error option \<Rightarrow> int \<Rightarrow> Command list \<Rightarrow> MemoryStore \<Rightarrow> storeError option \<times> Command list \<times> MemoryStore" where
  "CreateBatch ctx now cs s =
    (case ctx of
       Some e \<Rightarrow> (Some (CtxError e), cs, s)
     | None \<Rightarrow>
        (case check_batch (commands s) [] cs of
           Some e \<Rightarrow> (Some e, cs, s)
         | None \<Rightarrow>
            (case makeRoom (length cs) s of
               (False, s1) \<Rightarrow> (Some ErrCommandStoreFull, cs, s1)
             | (True, s1) \<Rightarrow> (let (cs', s2) = create_all now cs s1 in (None, cs', s2)))))"

definition Get :: "go_error option \<Rightarrow> string \<Rightarrow> MemoryStore \<Rightarrow> storeError + Command" where
  "Get ctx cid s =
    (case ctx of
       Some e \<Rightarrow> Inl (CtxError e)
     | None \<Rightarrow>
        (case map_of (commands s) cid of
           None \<Rightarrow> Inl ErrCommandNotFound
         | Some q \<Rightarrow> (case records s q of None \<Rightarrow> Inl ErrCommandNotFound | Some r \<Rightarrow> Inr (mcCommand r))))"

text \<open>\<open>sort.Search\<close>: the least index from which on the predicate holds, by bisection.\<close>

function bisect :: "(nat \<Rightarrow> bool) \<Rightarrow> nat \<Rightarrow> nat \<Rightarrow> nat" where
  "bisect f i j =
    (if i < j then let h = (i + j) div 2 in if \<not> f h then bisect f (h + 1) j else bisect f i h else i)"
  by auto
termination by (relation "measure (\<lambda>(f, i, j). j - i)") auto

declare bisect.simps [simp del]

definition record_at :: "MemoryStore \<Rightarrow> nat \<Rightarrow> Command list" where
  "record_at s q = (case records s q of None \<Rightarrow> [] | Some r \<Rightarrow> [mcCommand r])"

definition record_seq :: "MemoryStore \<Rightarrow> nat \<Rightarrow> nat" where
  "record_seq s q = (case records s q of None \<Rightarrow> 0 | Some r \<Rightarrow> Sequence (mcCommand r))"

definition Pending ::
  "go_error option \<Rightarrow> string \<Rightarrow> nat \<Rightarrow> int \<Rightarrow> MemoryStore \<Rightarrow> storeError + Command list" where
  "Pending ctx a after limit s =
    (case ctx of
       Some e \<Rightarrow> Inl (CtxError e)
     | None \<Rightarrow>
        (let lim = (if limit \<le> 0 \<or> limit > commandReplayBatchSize then commandReplayBatchSize else limit);
             qs = pending_of s a;
             start = bisect (\<lambda>i. record_seq s (qs ! i) > after) 0 (length qs);
             count = min (nat lim) (length qs - start)
         in Inr (concat (map (record_at s) (take count (drop start qs))))))"

text \<open>The queue of an agent is removed with its last command.\<close>

definition removePending :: "nat \<Rightarrow> MemoryStore \<Rightarrow> MemoryStore" where
  "removePending q s =
    (case records s q of
       None \<Rightarrow> s
     | Some r \<Rightarrow>
        (let a = cmdAgentId (mcCommand r); qs = pending_of s a in
         if q \<notin> set qs then s
         else s\<lparr>pendingByAgent := (pendingByAgent s)
                (a := (if remove1 q qs = [] then None else Some (remove1 q qs)))\<rparr>))"

definition Acknowledge ::
  "go_error option \<Rightarrow> string \<Rightarrow> CommandAckStatus \<Rightarrow> MemoryStore \<Rightarrow> storeError option \<times> MemoryStore" where
  "Acknowledge ctx cid status s =
    (case ctx of
       Some e \<Rightarrow> (Some (CtxError e), s)
     | None \<Rightarrow>
        (case commandState status of
           Inl e \<Rightarrow> (Some e, s)
         | Inr st \<Rightarrow>
            (case map_of (commands s) cid of
               None \<Rightarrow> (Some ErrCommandNotFound, s)
             | Some q \<Rightarrow>
                (case records s q of
                   None \<Rightarrow> (Some ErrCommandNotFound, s)
                 | Some r \<Rightarrow>
                    if mcState r = StPending
                    then let s1 = removePending q (s\<lparr>records := (records s)(q \<mapsto> r\<lparr>mcState := st\<rparr>)\<rparr>)
                         in (None, s1\<lparr>terminalCommands := terminalCommands s1 @ [q]\<rparr>)
                    else (None, s)))))"

subsection \<open>The invariant\<close>

text \<open>
  Every indexed command has its record, numbered with its address; each agent's queue holds exactly
  the agent's pending commands, in the order of their numbers; the list of finished commands holds
  exactly the others.
\<close>

definition live :: "MemoryStore \<Rightarrow> nat \<Rightarrow> memoryCommand \<Rightarrow> bool" where
  "live s q r \<longleftrightarrow> records s q = Some r \<and> (CommandId (mcCommand r), q) \<in> set (commands s)"

definition shape :: "MemoryStore \<Rightarrow> bool" where
  "shape s \<longleftrightarrow>
     distinct (map fst (commands s)) \<and>
     (\<forall>cid q. (cid, q) \<in> set (commands s) \<longrightarrow>
        q \<le> storeNext s \<and>
        (\<exists>r. records s q = Some r \<and> CommandId (mcCommand r) = cid \<and> Sequence (mcCommand r) = q)) \<and>
     (\<forall>a. pendingByAgent s a \<noteq> Some [] \<and> sorted_wrt (<) (pending_of s a) \<and>
        set (pending_of s a) = {q. \<exists>r. live s q r \<and> mcState r = StPending \<and> cmdAgentId (mcCommand r) = a}) \<and>
     distinct (terminalCommands s) \<and>
     set (terminalCommands s) = {q. \<exists>r. live s q r \<and> mcState r \<noteq> StPending}"

definition store_inv :: "MemoryStore \<Rightarrow> bool" where
  "store_inv s \<longleftrightarrow> shape s \<and> 0 < storeCapacity s \<and> int (length (commands s)) \<le> storeCapacity s"

lemma shapeD:
  assumes "shape s"
  shows "distinct (map fst (commands s))"
    and "(cid, q) \<in> set (commands s) \<Longrightarrow> q \<le> storeNext s"
    and "(cid, q) \<in> set (commands s) \<Longrightarrow>
      \<exists>r. records s q = Some r \<and> CommandId (mcCommand r) = cid \<and> Sequence (mcCommand r) = q"
    and "pendingByAgent s a \<noteq> Some []" "sorted_wrt (<) (pending_of s a)"
    and "set (pending_of s a) = {q. \<exists>r. live s q r \<and> mcState r = StPending \<and> cmdAgentId (mcCommand r) = a}"
    and "distinct (terminalCommands s)" "set (terminalCommands s) = {q. \<exists>r. live s q r \<and> mcState r \<noteq> StPending}"
  using assms unfolding shape_def by blast+

lemma live_seq: "shape s \<Longrightarrow> live s q r \<Longrightarrow> Sequence (mcCommand r) = q \<and> q \<le> storeNext s"
  using shapeD(2,3) [of s "CommandId (mcCommand r)" q] unfolding live_def by fastforce

lemma live_indexed: "shape s \<Longrightarrow> (cid, q) \<in> set (commands s) \<Longrightarrow> \<exists>r. live s q r \<and> CommandId (mcCommand r) = cid"
  using shapeD(3) [of s cid q] unfolding live_def by auto

lemma shape_new: "store_inv (NewMemoryStore cap)"
  by (simp add: store_inv_def shape_def NewMemoryStore_def pending_of_def live_def)

text \<open>A finished command is dropped from the index.\<close>

lemma live_drop:
  assumes "shape s" "live s q0 r0"
  shows "live (s\<lparr>commands := AList.delete (CommandId (mcCommand r0)) (commands s), terminalCommands := qs\<rparr>) q r
    \<longleftrightarrow> live s q r \<and> q \<noteq> q0"
proof -
  have "CommandId (mcCommand r) \<noteq> CommandId (mcCommand r0) \<longleftrightarrow> q \<noteq> q0" if l: "live s q r"
  proof
    assume "q \<noteq> q0"
    then show "CommandId (mcCommand r) \<noteq> CommandId (mcCommand r0)"
      using l assms(2) shapeD(1) [OF assms(1)] by (auto simp: live_def eq_key_imp_eq_value)
  qed (use l assms(2) in \<open>auto simp: live_def\<close>)
  then show ?thesis by (auto simp: live_def AList.delete_eq)
qed

lemma length_delete:
  "distinct (map fst xs) \<Longrightarrow> k \<in> fst ` set xs \<Longrightarrow> Suc (length (AList.delete k xs)) = length xs"
  by (induction xs) (auto simp: AList.delete_idem)

lemma drop_shape:
  assumes s: "shape s" and q0: "terminalCommands s = q0 # qs"
  defines "s' \<equiv> s\<lparr>commands := AList.delete (record_id s q0) (commands s), terminalCommands := qs\<rparr>"
  shows "shape s'" "Suc (length (commands s')) = length (commands s)"
proof -
  obtain r0 where r0: "live s q0 r0" "mcState r0 \<noteq> StPending" using shapeD(8) [OF s] q0 by force
  then have cid: "record_id s q0 = CommandId (mcCommand r0)" by (simp add: record_id_def live_def)
  have l: "live s' q r \<longleftrightarrow> live s q r \<and> q \<noteq> q0" for q r
    using live_drop [OF s r0(1)] by (simp add: s'_def cid)
  have p: "pending_of s' a = pending_of s a" for a by (simp add: s'_def pending_of_def)
  have np: "\<not> (live s q0 r \<and> mcState r = StPending)" for r using r0 by (auto simp: live_def)
  have sub: "set (commands s') \<subseteq> set (commands s)" by (auto simp: s'_def AList.delete_eq)
  have t: "distinct (q0 # qs)" "set (q0 # qs) = {q. \<exists>r. live s q r \<and> mcState r \<noteq> StPending}"
    using shapeD(7,8) [OF s] q0 by auto
  show "shape s'"
    unfolding shape_def
  proof (intro conjI allI impI)
    show "distinct (map fst (commands s'))" using shapeD(1) [OF s] by (simp add: s'_def AList.distinct_delete)
    show "pendingByAgent s' a \<noteq> Some []" for a using shapeD(4) [OF s] by (simp add: s'_def)
    show "sorted_wrt (<) (pending_of s' a)" for a using shapeD(5) [OF s] by (simp add: p)
    show "set (pending_of s' a) = {q. \<exists>r. live s' q r \<and> mcState r = StPending \<and> cmdAgentId (mcCommand r) = a}" for a
      using shapeD(6) [OF s, of a] np unfolding p l by blast
    show "distinct (terminalCommands s')" using t by (simp add: s'_def)
    show "set (terminalCommands s') = {q. \<exists>r. live s' q r \<and> mcState r \<noteq> StPending}"
      using t unfolding l by (auto simp: s'_def)
  next
    fix cid q assume "(cid, q) \<in> set (commands s')"
    then show "q \<le> storeNext s'" "\<exists>r. records s' q = Some r \<and> CommandId (mcCommand r) = cid \<and> Sequence (mcCommand r) = q"
      using shapeD(2,3) [OF s] sub by (auto simp: s'_def)
  qed
  have "record_id s q0 \<in> fst ` set (commands s)" using r0(1) by (force simp: cid live_def)
  from length_delete [OF shapeD(1) [OF s] this] show "Suc (length (commands s')) = length (commands s)"
    by (simp add: s'_def)
qed

lemma drop_oldest_shape:
  fixes s :: MemoryStore
  assumes "shape s" "n \<le> length (terminalCommands s)"
  shows "shape (drop_oldest n s) \<and> length (commands (drop_oldest n s)) + n = length (commands s) \<and>
    set (commands (drop_oldest n s)) \<subseteq> set (commands s) \<and> storeNext (drop_oldest n s) = storeNext s \<and>
    storeCapacity (drop_oldest n s) = storeCapacity s \<and>
    pendingByAgent (drop_oldest n s) = pendingByAgent s \<and> records (drop_oldest n s) = records s"
  using assms
proof (induction n arbitrary: s)
  case (Suc n)
  obtain q qs where q: "terminalCommands s = q # qs" using Suc.prems(2) by (cases "terminalCommands s") auto
  define t where "t = s\<lparr>commands := AList.delete (record_id s q) (commands s), terminalCommands := qs\<rparr>"
  have "shape t" "Suc (length (commands t)) = length (commands s)"
    using drop_shape [OF Suc.prems(1) q] by (simp_all add: t_def)
  moreover have "set (commands t) \<subseteq> set (commands s)" by (auto simp: t_def AList.delete_eq)
  moreover have "drop_oldest (Suc n) s = drop_oldest n t" by (simp add: q t_def)
  moreover have "n \<le> length (terminalCommands t)" "storeNext t = storeNext s" "storeCapacity t = storeCapacity s"
    "pendingByAgent t = pendingByAgent s" "records t = records s"
    using Suc.prems(2) q by (simp_all add: t_def)
  ultimately show ?case using Suc.IH [of t] by auto
qed simp

lemma makeRoom_ok:
  assumes "store_inv s" "makeRoom n s = (True, s')"
  shows "shape s' \<and> int (length (commands s') + n) \<le> storeCapacity s' \<and> set (commands s') \<subseteq> set (commands s) \<and>
    storeCapacity s' = storeCapacity s \<and> storeNext s' = storeNext s \<and>
    pendingByAgent s' = pendingByAgent s \<and> records s' = records s"
proof (cases "int (length (commands s)) + int n \<le> storeCapacity s")
  case True
  then show ?thesis using assms by (simp add: makeRoom_def store_inv_def)
next
  case False
  define k where "k = nat (int (length (commands s)) + int n - storeCapacity s)"
  have k: "k \<le> length (terminalCommands s)" "s' = drop_oldest k s" "int (length (commands s)) + int n = storeCapacity s + int k"
    using False assms(2) by (auto simp: makeRoom_def k_def Let_def split: if_splits)
  have sh: "shape s" using assms(1) by (simp add: store_inv_def)
  note d = drop_oldest_shape [OF sh k(1)]
  show ?thesis using d k(3) unfolding k(2) by auto
qed

lemma makeRoom_full: "makeRoom n s = (False, s') \<Longrightarrow> s' = s"
  by (auto simp: makeRoom_def Let_def split: if_splits)

lemma update_new: "k \<notin> fst ` set xs \<Longrightarrow> AList.update k v xs = xs @ [(k, v)]"
  by (induction xs) auto

lemma create_one_eqs:
  assumes "create_one now c s = (c', s')" "map_of (commands s) (CommandId c) = None"
  shows "commands s' = commands s @ [(CommandId c, Suc (storeNext s))]" "storeNext s' = Suc (storeNext s)"
    "storeCapacity s' = storeCapacity s" "terminalCommands s' = terminalCommands s"
    "records s' = (records s)(Suc (storeNext s) \<mapsto> \<lparr>mcCommand = c', mcState = StPending\<rparr>)"
    "pending_of s' a = pending_of s a @ (if cmdAgentId c = a then [Suc (storeNext s)] else [])"
    "pendingByAgent s' a \<noteq> Some [] \<or> pendingByAgent s a = Some []"
    "CommandId c' = CommandId c" "Sequence c' = Suc (storeNext s)" "cmdAgentId c' = cmdAgentId c" "Body c' = Body c"
  using assms by (auto simp: create_one_def pending_of_def update_new map_of_eq_None_iff Let_def split: if_splits)

lemma create_one_shape:
  assumes s: "shape s" and c: "create_one now c s = (c', s')" and new: "map_of (commands s) (CommandId c) = None"
  shows "shape s'" "live s' q r \<longleftrightarrow> live s q r \<or> q = Suc (storeNext s) \<and> r = \<lparr>mcCommand = c', mcState = StPending\<rparr>"
proof -
  note e = create_one_eqs [OF c new]
  have fresh: "q \<le> storeNext s" if "live s q r" for q r using live_seq [OF s that] by simp
  show l: "live s' q r \<longleftrightarrow> live s q r \<or> q = Suc (storeNext s) \<and> r = \<lparr>mcCommand = c', mcState = StPending\<rparr>" for q r
    using fresh [of q r] shapeD(2) [OF s, of _ "Suc (storeNext s)"] not_less_eq_eq [of "storeNext s" "storeNext s"]
    by (auto simp: live_def e(1,5,8) split: if_splits)
  show "shape s'"
    unfolding shape_def
  proof (intro conjI allI impI)
    show "distinct (map fst (commands s'))" using shapeD(1) [OF s] new by (auto simp: e(1) map_of_eq_None_iff)
    show "pendingByAgent s' a \<noteq> Some []" for a using e(7) [of a] shapeD(4) [OF s] by blast
    have "q \<le> storeNext s" if "q \<in> set (pending_of s a)" for q a
      using that shapeD(6) [OF s, of a] fresh by auto
    then show "sorted_wrt (<) (pending_of s' a)" for a
      using shapeD(5) [OF s, of a] by (auto simp: e(6) sorted_wrt_append less_Suc_eq_le)
    show "set (pending_of s' a) = {q. \<exists>r. live s' q r \<and> mcState r = StPending \<and> cmdAgentId (mcCommand r) = a}" for a
      using shapeD(6) [OF s, of a] unfolding e(6) l by (auto simp: e(10))
    show "distinct (terminalCommands s')" using shapeD(7) [OF s] by (simp add: e(4))
    show "set (terminalCommands s') = {q. \<exists>r. live s' q r \<and> mcState r \<noteq> StPending}"
      using shapeD(8) [OF s] unfolding l e(4) by auto
  next
    fix cid q assume "(cid, q) \<in> set (commands s')"
    then have "(cid, q) \<in> set (commands s) \<or> cid = CommandId c \<and> q = Suc (storeNext s)" by (auto simp: e(1))
    moreover have "q \<noteq> Suc (storeNext s)" if "(cid, q) \<in> set (commands s)" using shapeD(2) [OF s that] by simp
    ultimately show "q \<le> storeNext s'" "\<exists>r. records s' q = Some r \<and> CommandId (mcCommand r) = cid \<and> Sequence (mcCommand r) = q"
      using shapeD(2,3) [OF s, of cid q] by (auto simp: e(2,5,8,9))
  qed
qed

lemma create_all_shape:
  assumes "shape s" "create_all now cs s = (cs', s')" "distinct (map CommandId cs)"
    "list_all (\<lambda>c. map_of (commands s) (CommandId c) = None) cs"
  shows "shape s' \<and> length (commands s') = length (commands s) + length cs \<and> storeCapacity s' = storeCapacity s"
  using assms
proof (induction cs arbitrary: s cs')
  case (Cons c cs)
  obtain c1 s1 where 1: "create_one now c s = (c1, s1)" by fastforce
  obtain cs2 where 2: "create_all now cs s1 = (cs2, s')" using Cons.prems(2) 1 by (auto split: prod.splits)
  have new: "map_of (commands s) (CommandId c) = None" using Cons.prems(4) by simp
  note e = create_one_eqs [OF 1 new] and sh = create_one_shape [OF Cons.prems(1) 1 new]
  have "list_all (\<lambda>c. map_of (commands s1) (CommandId c) = None) cs"
    using Cons.prems(3,4) by (auto simp: e(1) list_all_iff map_add_def image_iff split: option.split)
  then show ?case using Cons.IH [OF sh(1) 2] Cons.prems(3) e(1,3) by simp
qed simp

lemma check_batch_ok:
  "check_batch cm seen cs = None \<Longrightarrow>
   distinct (map CommandId cs) \<and> list_all (\<lambda>c. map_of cm (CommandId c) = None) cs \<and>
   set (map CommandId cs) \<inter> set seen = {} \<and> list_all (\<lambda>c. CommandId c \<noteq> [] \<and> cmdAgentId c \<noteq> []) cs"
proof (induction cs arbitrary: seen)
  case (Cons c cs)
  then show ?case
    using Cons.IH [of "CommandId c # seen"] by (auto split: if_splits sum.splits)
qed simp

lemma map_of_subset_None: "map_of xs k = None \<Longrightarrow> set ys \<subseteq> set xs \<Longrightarrow> map_of ys k = None"
  by (force simp: map_of_eq_None_iff)

lemma CreateBatch_inv:
  assumes "store_inv s"
  shows "store_inv (snd (snd (CreateBatch ctx now cs s)))"
proof (cases "ctx = None \<and> check_batch (commands s) [] cs = None")
  case True
  then show ?thesis
  proof (cases "makeRoom (length cs) s")
    case (Pair ok s1)
    show ?thesis
    proof (cases ok)
      case ok: True
      have mr: "makeRoom (length cs) s = (True, s1)" using Pair ok by simp
      note m = makeRoom_ok [OF assms mr]
      obtain cs2 s2 where 2: "create_all now cs s1 = (cs2, s2)" by fastforce
      have "distinct (map CommandId cs)" "list_all (\<lambda>c. map_of (commands s) (CommandId c) = None) cs"
        using check_batch_ok [of "commands s" "[]" cs] True by simp_all
      then have cb: "distinct (map CommandId cs)" "list_all (\<lambda>c. map_of (commands s1) (CommandId c) = None) cs"
        using map_of_subset_None [of "commands s" _ "commands s1"] m by (simp_all add: list_all_iff)
      have sh: "shape s1" using m by simp
      note c = create_all_shape [OF sh 2 cb]
      have e: "snd (snd (CreateBatch ctx now cs s)) = s2" using True mr 2 by (simp add: CreateBatch_def)
      have "0 < storeCapacity s" using assms by (simp add: store_inv_def)
      then show ?thesis unfolding e using c m by (simp add: store_inv_def)
    next
      case False
      then show ?thesis using True Pair assms makeRoom_full [of "length cs" s s1] by (simp add: CreateBatch_def)
    qed
  qed
qed (use assms in \<open>auto simp: CreateBatch_def split: option.split\<close>)

lemma pending_of_remove:
  assumes "records s q = Some r" "q \<in> set (pending_of s (cmdAgentId (mcCommand r)))"
  shows "pending_of (removePending q s) a =
      (if a = cmdAgentId (mcCommand r) then remove1 q (pending_of s a) else pending_of s a)"
    "pendingByAgent s b \<noteq> Some [] \<Longrightarrow> pendingByAgent (removePending q s) b \<noteq> Some []"
  using assms by (auto simp: removePending_def pending_of_def Let_def split: if_splits)

lemma removePending_fields [simp]:
  "records (removePending q s) = records s" "commands (removePending q s) = commands s"
  "terminalCommands (removePending q s) = terminalCommands s" "storeNext (removePending q s) = storeNext s"
  "storeCapacity (removePending q s) = storeCapacity s"
  by (simp_all add: removePending_def Let_def split: option.split)

lemma sorted_wrt_remove1: "sorted_wrt P xs \<Longrightarrow> sorted_wrt P (remove1 x xs)"
  by (induction xs) (auto dest: set_mp [OF set_remove1_subset])

lemma settle_shape:
  assumes s: "shape s" and l: "live s q r" and p: "mcState r = StPending" and st: "st \<noteq> StPending"
  defines "t \<equiv> removePending q (s\<lparr>records := (records s)(q \<mapsto> r\<lparr>mcState := st\<rparr>)\<rparr>)"
  defines "s' \<equiv> t\<lparr>terminalCommands := terminalCommands t @ [q]\<rparr>"
  shows "shape s'" "live s' q' r' \<longleftrightarrow> (if q' = q then r' = r\<lparr>mcState := st\<rparr> else live s q' r')"
    "pending_of s' a = remove1 q (pending_of s a)" "commands s' = commands s" "storeCapacity s' = storeCapacity s"
proof -
  let ?a = "cmdAgentId (mcCommand r)"
  have rq: "records s q = Some r" "(CommandId (mcCommand r), q) \<in> set (commands s)" using l by (auto simp: live_def)
  have pe: "pending_of (s\<lparr>records := R\<rparr>) a = pending_of s a" for R a by (simp add: pending_of_def)
  have mem: "q \<in> set (pending_of s ?a)" using shapeD(6) [OF s] l p by blast
  have only: "q \<notin> set (pending_of s a)" if "a \<noteq> ?a" for a
    using shapeD(6) [OF s, of a] l that by (auto simp: live_def)
  show pq: "pending_of s' a = remove1 q (pending_of s a)" for a
  proof -
    have "pending_of s' a = pending_of t a" by (simp add: s'_def pending_of_def)
    also have "\<dots> = (if a = ?a then remove1 q (pending_of s a) else pending_of s a)"
      using pending_of_remove(1) [of "s\<lparr>records := (records s)(q \<mapsto> r\<lparr>mcState := st\<rparr>)\<rparr>" q "r\<lparr>mcState := st\<rparr>" a] mem
      by (simp add: t_def pe)
    also have "\<dots> = remove1 q (pending_of s a)" using only [of a] by (simp add: remove1_idem)
    finally show ?thesis .
  qed
  show "commands s' = commands s" "storeCapacity s' = storeCapacity s" by (simp_all add: s'_def t_def)
  show lv: "live s' q' r' \<longleftrightarrow> (if q' = q then r' = r\<lparr>mcState := st\<rparr> else live s q' r')" for q' r'
    using rq by (auto simp: s'_def t_def live_def)
  have t: "q \<notin> set (terminalCommands s)" using shapeD(8) [OF s] rq p by (auto simp: live_def)
  show "shape s'"
    unfolding shape_def
  proof (intro conjI allI impI)
    show "distinct (map fst (commands s'))" using shapeD(1) [OF s] by (simp add: s'_def t_def)
    show "pendingByAgent s' a \<noteq> Some []" for a
      using pending_of_remove(2) [of "s\<lparr>records := (records s)(q \<mapsto> r\<lparr>mcState := st\<rparr>)\<rparr>" q "r\<lparr>mcState := st\<rparr>" a]
        mem shapeD(4) [OF s] by (simp add: s'_def t_def pe)
    show "sorted_wrt (<) (pending_of s' a)" for a
      unfolding pq using shapeD(5) [OF s, of a] by (rule sorted_wrt_remove1)
    show "set (pending_of s' a) = {x. \<exists>r. live s' x r \<and> mcState r = StPending \<and> cmdAgentId (mcCommand r) = a}" for a
    proof -
      have "distinct (pending_of s a)" using shapeD(5) [OF s, of a] by (simp add: strict_sorted_iff)
      then have "set (pending_of s' a) = set (pending_of s a) - {q}" unfolding pq by (rule set_remove1_eq)
      then show ?thesis using shapeD(6) [OF s, of a] st unfolding lv by (auto split: if_splits)
    qed
    show "distinct (terminalCommands s')" using shapeD(7) [OF s] t by (simp add: s'_def t_def)
    show "set (terminalCommands s') = {x. \<exists>r. live s' x r \<and> mcState r \<noteq> StPending}"
      using shapeD(8) [OF s] st p rq unfolding lv by (auto simp: s'_def t_def live_def)
  next
    fix cid x assume "(cid, x) \<in> set (commands s')"
    then have "(cid, x) \<in> set (commands s)" by (simp add: s'_def t_def)
    then show "x \<le> storeNext s'" "\<exists>r. records s' x = Some r \<and> CommandId (mcCommand r) = cid \<and> Sequence (mcCommand r) = x"
      using shapeD(2,3) [OF s, of cid x] rq(1) by (auto simp: s'_def t_def)
  qed
qed

lemma commandState_final: "commandState st = Inr x \<Longrightarrow> x \<noteq> StPending"
  by (cases st) auto

lemma indexed_live: "shape s \<Longrightarrow> map_of (commands s) cid = Some q \<Longrightarrow> \<exists>r. live s q r \<and> CommandId (mcCommand r) = cid"
  by (auto intro: live_indexed dest: map_of_SomeD)

lemma Acknowledge_inv:
  assumes "store_inv s"
  shows "store_inv (snd (Acknowledge ctx cid status s))"
proof -
  have s: "shape s" using assms by (simp add: store_inv_def)
  consider (same) "snd (Acknowledge ctx cid status s) = s"
    | (settled) q r st where "live s q r" "mcState r = StPending" "st \<noteq> StPending"
      "snd (Acknowledge ctx cid status s) =
        (let s1 = removePending q (s\<lparr>records := (records s)(q \<mapsto> r\<lparr>mcState := st\<rparr>)\<rparr>)
         in s1\<lparr>terminalCommands := terminalCommands s1 @ [q]\<rparr>)"
    using indexed_live [OF s, of cid] commandState_final [of status]
    by (fastforce simp: Acknowledge_def live_def Let_def split: option.splits sum.splits if_splits)
  then show ?thesis
  proof cases
    case settled
    then show ?thesis
      using settle_shape(1,4,5) [OF s settled(1-3)] assms by (simp add: store_inv_def Let_def)
  qed (use assms in simp)
qed

text \<open>The operations that change the store, in the order its lock serialises them.\<close>

datatype store_op = OpCreate "go_error option" int "Command list"
  | OpAck "go_error option" string CommandAckStatus

fun store_step :: "store_op \<Rightarrow> MemoryStore \<Rightarrow> MemoryStore" where
  "store_step (OpCreate ctx now cs) s = snd (snd (CreateBatch ctx now cs s))"
| "store_step (OpAck ctx cid status) s = snd (Acknowledge ctx cid status s)"

interpretation cstore: op_system store_step store_inv "\<lambda>_. True"
  by unfold_locales (metis CreateBatch_inv Acknowledge_inv store_op.exhaust store_step.simps)

subsection \<open>Reading the pending commands\<close>

definition rising :: "(nat \<Rightarrow> bool) \<Rightarrow> nat \<Rightarrow> bool" where
  "rising f n \<longleftrightarrow> (\<forall>x y. x \<le> y \<and> y < n \<and> f x \<longrightarrow> f y)"

lemma risingD: "rising f n \<Longrightarrow> f x \<Longrightarrow> x \<le> y \<Longrightarrow> y < n \<Longrightarrow> f y"
  by (auto simp: rising_def)

definition splits_at :: "(nat \<Rightarrow> bool) \<Rightarrow> nat \<Rightarrow> nat \<Rightarrow> bool" where
  "splits_at f n k \<longleftrightarrow> k \<le> n \<and> (\<forall>x < k. \<not> f x) \<and> (\<forall>x. k \<le> x \<and> x < n \<longrightarrow> f x)"

lemma bisect_spec:
  assumes "rising f n" "i \<le> j" "j \<le> n" "\<forall>x < i. \<not> f x" "\<forall>x. j \<le> x \<and> x < n \<longrightarrow> f x"
  shows "splits_at f n (bisect f i j)"
  using assms
proof (induction f i j rule: bisect.induct)
  case (1 f i j)
  show ?case
  proof (cases "i < j")
    case True
    define h where "h = (i + j) div 2"
    have h: "i \<le> h" "h < j" using True by (simp_all add: h_def)
    have hn: "h + 1 \<le> j" "h \<le> n" "h < n" using h "1.prems"(3) by simp_all
    show ?thesis
    proof (cases "f h")
      case t: True
      have e: "bisect f i j = bisect f i h" using True t by (subst bisect.simps) (simp add: h_def)
      have "\<forall>x. h \<le> x \<and> x < n \<longrightarrow> f x" using t risingD [OF "1.prems"(1)] by blast
      then show ?thesis
        unfolding e using "1.IH"(2) [OF True h_def _ "1.prems"(1) h(1) hn(2) "1.prems"(4)] t by blast
    next
      case f: False
      have e: "bisect f i j = bisect f (h + 1) j" using True f by (subst bisect.simps) (simp add: h_def)
      have "\<not> f x" if "x < h + 1" for x
      proof
        assume "f x"
        moreover have "x \<le> h" using that by simp
        ultimately show False using f hn(3) risingD [OF "1.prems"(1)] by blast
      qed
      then show ?thesis
        unfolding e using "1.IH"(1) [OF True h_def f "1.prems"(1) hn(1) "1.prems"(3)] "1.prems"(5) by blast
    qed
  next
    case False
    then have "bisect f i j = i" by (subst bisect.simps) simp
    moreover have "i = j" using False "1.prems"(2) by simp
    ultimately show ?thesis using "1.prems"(3-5) by (simp add: splits_at_def)
  qed
qed

lemma drop_splits:
  assumes "splits_at (\<lambda>i. P (xs ! i)) (length xs) k"
  shows "drop k xs = filter P xs"
proof -
  have k: "k \<le> length xs" "\<And>x. x < k \<Longrightarrow> \<not> P (xs ! x)" "\<And>x. k \<le> x \<Longrightarrow> x < length xs \<Longrightarrow> P (xs ! x)"
    using assms by (simp_all add: splits_at_def)
  have "\<not> P y" if y: "y \<in> set (take k xs)" for y
  proof -
    from y obtain i where "i < length (take k xs)" "y = take k xs ! i" unfolding in_set_conv_nth by blast
    then show ?thesis using k(2) [of i] by simp
  qed
  then have "filter P (take k xs) = []" by (simp add: filter_empty_conv)
  moreover have "P y" if y: "y \<in> set (drop k xs)" for y
  proof -
    from y obtain i where "i < length (drop k xs)" "y = drop k xs ! i" unfolding in_set_conv_nth by blast
    then show ?thesis using k(1) k(3) [of "k + i"] by simp
  qed
  then have "filter P (drop k xs) = drop k xs" by (simp add: filter_id_conv)
  ultimately have "filter P (take k xs @ drop k xs) = drop k xs" unfolding filter_append by simp
  then show ?thesis by simp
qed

lemma drop_bisect:
  assumes "rising (\<lambda>i. P (xs ! i)) (length xs)"
  shows "drop (bisect (\<lambda>i. P (xs ! i)) 0 (length xs)) xs = filter P xs"
  by (rule drop_splits, rule bisect_spec [OF assms]) auto

text \<open>The reference: all pending commands of an agent, found in the index and ordered by their numbers.\<close>

definition is_pending_for :: "MemoryStore \<Rightarrow> string \<Rightarrow> nat \<Rightarrow> bool" where
  "is_pending_for s a q \<longleftrightarrow>
    (case records s q of None \<Rightarrow> False | Some r \<Rightarrow> mcState r = StPending \<and> cmdAgentId (mcCommand r) = a)"

definition pending_commands :: "MemoryStore \<Rightarrow> string \<Rightarrow> Command list" where
  "pending_commands s a =
    concat (map (record_at s) (sort (map snd (filter (\<lambda>(cid, q). is_pending_for s a q) (commands s)))))"

lemma queue_is_pending:
  assumes "shape s"
  shows "sort (map snd (filter (\<lambda>(cid, q). is_pending_for s a q) (commands s))) = pending_of s a"
proof -
  have "x = y" if "x \<in> set (commands s)" "y \<in> set (commands s)" "snd x = snd y" for x y
    using that shapeD(3) [OF assms, of "fst x" "snd x"] shapeD(3) [OF assms, of "fst y" "snd y"]
    by (cases x; cases y) auto
  then have inj: "inj_on snd (set (commands s))" by (simp add: inj_on_def)
  have "distinct (map snd (filter (\<lambda>(cid, q). is_pending_for s a q) (commands s)))"
    using shapeD(1) [OF assms] inj by (simp add: distinct_map inj_on_def)
  moreover have "set (map snd (filter (\<lambda>(cid, q). is_pending_for s a q) (commands s))) = set (pending_of s a)"
    unfolding shapeD(6) [OF assms] using shapeD(3) [OF assms]
    by (force simp: is_pending_for_def live_def image_iff split: option.splits)
  moreover have "sorted (pending_of s a)" "distinct (pending_of s a)"
    using shapeD(5) [OF assms, of a] by (auto simp: strict_sorted_iff)
  ultimately show ?thesis by (intro sorted_distinct_set_unique) simp_all
qed

lemma filter_records:
  assumes "list_all (\<lambda>q. records s q \<noteq> None) qs"
  shows "concat (map (record_at s) (filter (\<lambda>q. after < record_seq s q) qs)) =
    filter (\<lambda>c. after < Sequence c) (concat (map (record_at s) qs))"
    "concat (map (record_at s) (take n qs)) = take n (concat (map (record_at s) qs))"
  using assms by (induction qs arbitrary: n) (auto simp: record_at_def record_seq_def take_Cons' split: option.splits)

lemma Pending_filter:
  assumes "store_inv s"
  shows "Pending None a after limit s =
    Inr (take (nat (if limit \<le> 0 \<or> limit > commandReplayBatchSize then commandReplayBatchSize else limit))
      (filter (\<lambda>c. after < Sequence c) (pending_commands s a)))"
proof -
  let ?qs = "pending_of s a"
  have s: "shape s" using assms by (simp add: store_inv_def)
  have seq: "record_seq s q = q \<and> records s q \<noteq> None" if "q \<in> set ?qs" for q
    using that shapeD(6) [OF s, of a] live_seq [OF s] by (auto simp: record_seq_def live_def)
  have "rising (\<lambda>i. after < record_seq s (?qs ! i)) (length ?qs)"
    using shapeD(5) [OF s, of a] seq unfolding rising_def sorted_wrt_iff_nth_less
    by (metis le_less_trans le_neq_implies_less less_imp_le nth_mem order.strict_trans)
  from drop_bisect [OF this] have d: "drop (bisect (\<lambda>i. after < record_seq s (?qs ! i)) 0 (length ?qs)) ?qs =
      filter (\<lambda>q. after < record_seq s q) ?qs" .
  have all: "list_all (\<lambda>q. records s q \<noteq> None) ?qs" using seq by (simp add: list_all_iff)
  then have part: "list_all (\<lambda>q. records s q \<noteq> None) (filter (\<lambda>q. after < record_seq s q) ?qs)"
    by (simp add: list_all_iff)
  have c: "concat (map (record_at s) (take n (filter (\<lambda>q. after < record_seq s q) ?qs))) =
      take n (filter (\<lambda>c. after < Sequence c) (pending_commands s a))" for n
    unfolding filter_records(2) [OF part] filter_records(1) [OF all]
    by (simp add: pending_commands_def queue_is_pending [OF s])
  have m: "take (min n (length ?qs - k)) (drop k ?qs) = take n (drop k ?qs)" for n k
    by (simp add: min_def)
  show ?thesis unfolding Pending_def option.case Let_def m unfolding d c ..
qed

subsection \<open>What an operation changes\<close>

lemma create_all_pending:
  assumes "shape s" "create_all now cs s = (cs', s')" "distinct (map CommandId cs)"
    "list_all (\<lambda>c. map_of (commands s) (CommandId c) = None) cs"
  shows "(\<forall>a. pending_of s' a = pending_of s a @ map Sequence (filter (\<lambda>c. cmdAgentId c = a) cs')) \<and>
    list_all (\<lambda>c. storeNext s < Sequence c \<and> Sequence c \<le> storeNext s') cs' \<and> storeNext s \<le> storeNext s' \<and>
    map CommandId cs' = map CommandId cs \<and>
    (\<forall>q r. live s' q r \<longrightarrow> live s q r \<or> (\<exists>c \<in> set cs'. r = \<lparr>mcCommand = c, mcState = StPending\<rparr> \<and> q = Sequence c))"
  using assms
proof (induction cs arbitrary: s cs')
  case (Cons c cs)
  obtain c1 s1 where 1: "create_one now c s = (c1, s1)" by fastforce
  obtain cs2 where 2: "create_all now cs s1 = (cs2, s')" "cs' = c1 # cs2"
    using Cons.prems(2) 1 by (auto split: prod.splits)
  have new: "map_of (commands s) (CommandId c) = None" using Cons.prems(4) by simp
  note e = create_one_eqs [OF 1 new] and sh = create_one_shape [OF Cons.prems(1) 1 new]
  have p: "distinct (map CommandId cs)" "list_all (\<lambda>c. map_of (commands s1) (CommandId c) = None) cs"
    using Cons.prems(3,4) by (auto simp: e(1) list_all_iff map_add_def image_iff split: option.split)
  note ih = Cons.IH [OF sh(1) 2(1) p]
  have "live s q r \<or> (\<exists>c \<in> set cs'. r = \<lparr>mcCommand = c, mcState = StPending\<rparr> \<and> q = Sequence c)" if "live s' q r" for q r
    using that ih sh(2) [of q r] e(9) unfolding 2(2) by auto
  moreover have "list_all (\<lambda>c. storeNext s < Sequence c \<and> Sequence c \<le> storeNext s') cs'"
    using ih e(2,9) by (auto simp: 2(2) list_all_iff)
  ultimately show ?case using ih e by (auto simp: 2(2))
qed simp

text \<open>A batch adds its commands behind the pending ones of their agents, or changes nothing there.\<close>

lemma CreateBatch_cases:
  assumes s: "store_inv s" and c: "CreateBatch ctx now cs s = (e, cs', s')"
  obtains (failed) err where "e = Some err" "\<And>a. pending_of s' a = pending_of s a" "storeNext s' = storeNext s"
      "\<And>q r. live s' q r \<Longrightarrow> live s q r"
  | (created) "e = None" "\<And>a. pending_of s' a = pending_of s a @ map Sequence (filter (\<lambda>c. cmdAgentId c = a) cs')"
      "list_all (\<lambda>c. storeNext s < Sequence c \<and> Sequence c \<le> storeNext s') cs'" "storeNext s \<le> storeNext s'"
      "map CommandId cs' = map CommandId cs" "distinct (map CommandId cs')"
      "\<And>q r. live s' q r \<Longrightarrow> live s q r \<or> (\<exists>c \<in> set cs'. r = \<lparr>mcCommand = c, mcState = StPending\<rparr> \<and> q = Sequence c)"
proof (cases "ctx = None \<and> check_batch (commands s) [] cs = None \<and> fst (makeRoom (length cs) s)")
  case True
  obtain s1 where mr: "makeRoom (length cs) s = (True, s1)" using True by (cases "makeRoom (length cs) s") auto
  note m = makeRoom_ok [OF s mr]
  obtain cs2 s2 where 2: "create_all now cs s1 = (cs2, s2)" by fastforce
  have eq: "e = None" "cs' = cs2" "s' = s2" using True c mr 2 by (simp_all add: CreateBatch_def)
  have cb: "distinct (map CommandId cs)" "list_all (\<lambda>c. map_of (commands s) (CommandId c) = None) cs"
    using check_batch_ok [of "commands s" "[]" cs] True by simp_all
  then have cb1: "list_all (\<lambda>c. map_of (commands s1) (CommandId c) = None) cs"
    using map_of_subset_None [of "commands s" _ "commands s1"] m by (simp add: list_all_iff)
  have sh: "shape s1" using m by simp
  note a = create_all_pending [OF sh 2 cb(1) cb1]
  have p: "pending_of s1 b = pending_of s b" for b using m by (simp add: pending_of_def)
  have l: "live s q r" if "live s1 q r" for q r using that m by (auto simp: live_def)
  show ?thesis
  proof (rule created)
    show "\<And>q r. live s' q r \<Longrightarrow> live s q r \<or> (\<exists>c \<in> set cs'. r = \<lparr>mcCommand = c, mcState = StPending\<rparr> \<and> q = Sequence c)"
      using a l unfolding eq by blast
  qed (use a m cb p eq in auto)
next
  case False
  have "fst (CreateBatch ctx now cs s) \<noteq> None \<and> snd (snd (CreateBatch ctx now cs s)) = s"
  proof (cases "ctx = None \<and> check_batch (commands s) [] cs = None")
    case t: True
    then obtain s1 where mr: "makeRoom (length cs) s = (False, s1)"
      using False by (cases "makeRoom (length cs) s") auto
    then show ?thesis using t makeRoom_full [OF mr] by (simp add: CreateBatch_def)
  qed (auto simp: CreateBatch_def split: option.split)
  then have "e \<noteq> None \<and> s' = s" unfolding c by simp
  then show ?thesis using failed by auto
qed

lemma Acknowledge_cases:
  assumes s: "store_inv s" and a: "Acknowledge ctx cid status s = (e, s')"
  shows "storeNext s' = storeNext s" "set (pending_of s' b) \<subseteq> set (pending_of s b)"
    "live s' q r \<Longrightarrow> \<exists>r'. live s q r' \<and> mcCommand r' = mcCommand r"
proof -
  have sh: "shape s" using s by (simp add: store_inv_def)
  consider (same) "s' = s"
    | (settled) q r st where "live s q r" "mcState r = StPending" "st \<noteq> StPending"
      "s' = (let s1 = removePending q (s\<lparr>records := (records s)(q \<mapsto> r\<lparr>mcState := st\<rparr>)\<rparr>)
         in s1\<lparr>terminalCommands := terminalCommands s1 @ [q]\<rparr>)"
    using indexed_live [OF sh, of cid] commandState_final [of status] a
    by (fastforce simp: Acknowledge_def live_def Let_def split: option.splits sum.splits if_splits)
  then show "storeNext s' = storeNext s" "set (pending_of s' b) \<subseteq> set (pending_of s b)"
    "live s' q r \<Longrightarrow> \<exists>r'. live s q r' \<and> mcCommand r' = mcCommand r"
  proof (atomize (full), cases)
    case (settled q0 r0 st)
    note t = settle_shape [OF sh settled(1-3), folded settled(4)[unfolded Let_def]]
    show "storeNext s' = storeNext s \<and> set (pending_of s' b) \<subseteq> set (pending_of s b) \<and>
        (live s' q r \<longrightarrow> (\<exists>r'. live s q r' \<and> mcCommand r' = mcCommand r))"
      using t(2) [of q r] t(3) [of b] settled(1) set_remove1_subset [of q0 "pending_of s b"]
      by (auto simp: settled(4) Let_def split: if_splits)
  qed auto
qed

subsection \<open>Properties\<close>

text \<open>
  C10. The command log stays consistent under any sequence of batches and acknowledgements, failing
  ones included: it never holds more commands than its capacity; the queue of each agent is in the
  order of the sequence numbers and holds exactly the agent's pending commands; the list from which
  room is made holds exactly the finished ones, so that a pending command is never dropped.
\<close>

theorem command_store_consistent:
  fixes ops capacity
  defines "s \<equiv> fold store_step ops (NewMemoryStore capacity)"
  shows "int (length (commands s)) \<le> storeCapacity s \<and>
    sorted_wrt (<) (pending_of s a) \<and>
    (q \<in> set (pending_of s a) \<longleftrightarrow> (\<exists>r. live s q r \<and> mcState r = StPending \<and> cmdAgentId (mcCommand r) = a)) \<and>
    (q \<in> set (terminalCommands s) \<longleftrightarrow> (\<exists>r. live s q r \<and> mcState r \<noteq> StPending))"
proof -
  have "store_inv s" unfolding s_def by (rule cstore.run_inv [OF shape_new]) (simp add: list_all_iff)
  then show ?thesis using shapeD(5,6,8) [of s] by (auto simp: store_inv_def)
qed

text \<open>
  Reading the pending commands by bisection is the same as filtering the whole log: the answer
  is the first commands, at most the limit or the batch size, of all pending commands of the agent
  with a number above the cursor, in the order of their numbers.
\<close>

theorem Pending_is_filter:
  "Pending None a after limit (fold store_step ops (NewMemoryStore capacity)) =
    Inr (take (nat (if limit \<le> 0 \<or> limit > commandReplayBatchSize then commandReplayBatchSize else limit))
      (filter (\<lambda>c. after < Sequence c) (pending_commands (fold store_step ops (NewMemoryStore capacity)) a)))"
  by (rule Pending_filter, rule cstore.run_inv [OF shape_new]) (simp add: list_all_iff)



end
