(* ===== verification/CommandSession.thy ===== *)
theory CommandSession
  imports CommandStore
begin

text \<open>
  Delivery of the commands by the admin server: the command bus (\<^verbatim>\<open>admin/command/bus.go\<close>), the sessions of
  the agents and their registry (\<^verbatim>\<open>admin/grpcapi/session.go\<close>) and the loops that serve a session
  (\<^verbatim>\<open>admin/grpcapi/control_service.go\<close>).  A session is known by its agent and its generation.  The state
  changes in small steps, one per critical section or channel operation, so that the steps of the
  callers, the send loop and the receive loop of a session interleave in any order.
\<close>

subsection \<open>Sessions\<close>

definition CommandDispatchWindow :: int where "CommandDispatchWindow = 16"
definition sessionQueueCapacity :: nat where "sessionQueueCapacity = 64"

text \<open>What the admin sends on a session's stream.\<close>

record HeartbeatAck =
  hkGeneration :: nat
  hkServerTime :: int
  hkLeaseDeadline :: int

record ReportAck =
  rkReportId :: string
  rkTaskId :: string
  rkStageIndex :: int
  rkAccepted :: bool
  rkReason :: string

datatype AdminEvent = EvCommand Command | EvHeartbeatAck HeartbeatAck | EvReportAck ReportAck
  | EvCommandReceipt CommandReceipt | EvServerClosing string

text \<open>Where the send loop is: waiting, about to read the store, or with commands to send.\<close>

datatype sendPos = SendWaits | SendReads | SendBatch "Command list"

record Session =
  sessionAgent :: string
  sessionGeneration :: nat
  canceled :: bool
  wakeSignal :: bool
  control :: "AdminEvent list"
  heartbeatAck :: "HeartbeatAck option"
  lastSent :: nat
  inflight :: "string list"
  orphanStop :: bool
  replayed :: bool
  sendPos :: sendPos
  fetched :: "Command list"
  stream :: "AdminEvent list"

definition newSession :: "string \<Rightarrow> nat \<Rightarrow> Session" where
  "newSession agentID generation =
    \<lparr>sessionAgent = agentID, sessionGeneration = generation, canceled = False, wakeSignal = False,
     control = [], heartbeatAck = None, lastSent = 0, inflight = [], orphanStop = False,
     replayed = False, sendPos = SendWaits, fetched = [], stream = []\<rparr>"

definition CommandCapacity :: "Session \<Rightarrow> int" where
  "CommandCapacity x = CommandDispatchWindow - int (length (inflight x))"

definition MarkCommandSent :: "string \<Rightarrow> Session \<Rightarrow> Session" where
  "MarkCommandSent cid x = x\<lparr>inflight := List.insert cid (inflight x)\<rparr>"

definition WakeCommands :: "Session \<Rightarrow> Session" where
  "WakeCommands x = x\<lparr>wakeSignal := True\<rparr>"

definition MarkCommandAcknowledged :: "string \<Rightarrow> Session \<Rightarrow> Session" where
  "MarkCommandAcknowledged cid x = WakeCommands (x\<lparr>inflight := removeAll cid (inflight x)\<rparr>)"

definition OfferControl :: "AdminEvent \<Rightarrow> Session \<Rightarrow> bool \<times> Session" where
  "OfferControl e x =
    (if length (control x) < sessionQueueCapacity then (True, x\<lparr>control := control x @ [e]\<rparr>) else (False, x))"

definition OfferHeartbeat :: "HeartbeatAck \<Rightarrow> Session \<Rightarrow> Session" where
  "OfferHeartbeat a x = x\<lparr>heartbeatAck := Some a\<rparr>"

definition Cancel :: "Session \<Rightarrow> Session" where
  "Cancel x = x\<lparr>canceled := True\<rparr>"

definition TryMarkOrphanStop :: "Session \<Rightarrow> bool \<times> Session" where
  "TryMarkOrphanStop x = (\<not> orphanStop x, x\<lparr>orphanStop := True\<rparr>)"

definition ClearOrphanStop :: "Session \<Rightarrow> Session" where
  "ClearOrphanStop x = x\<lparr>orphanStop := False\<rparr>"

subsection \<open>Registry of sessions\<close>

record SessionRegistry =
  sessionOf :: "string \<times> nat \<rightharpoonup> Session"
  currentGen :: "(string \<times> nat) list"
  generation :: "string \<Rightarrow> nat"
  closing :: bool

definition NewSessionRegistry :: SessionRegistry where
  "NewSessionRegistry = \<lparr>sessionOf = Map.empty, currentGen = [], generation = (\<lambda>_. 0), closing = False\<rparr>"

definition on_session :: "string \<times> nat \<Rightarrow> (Session \<Rightarrow> Session) \<Rightarrow> SessionRegistry \<Rightarrow> SessionRegistry" where
  "on_session key f r = r\<lparr>sessionOf := (sessionOf r)(key := map_option f (sessionOf r key))\<rparr>"

definition Current :: "string \<Rightarrow> nat \<Rightarrow> SessionRegistry \<Rightarrow> bool" where
  "Current agentID g r \<longleftrightarrow> map_of (currentGen r) agentID = Some g"

text \<open>\<open>None\<close>: the registry is closed.\<close>

definition Attach :: "string \<Rightarrow> SessionRegistry \<Rightarrow> nat option \<times> SessionRegistry" where
  "Attach agentID r =
    (if closing r then (None, r)
     else let g = generation r agentID + 1;
              r1 = (case map_of (currentGen r) agentID of
                      Some old \<Rightarrow> on_session (agentID, old) Cancel r | None \<Rightarrow> r)
          in (Some g, r1\<lparr>generation := (generation r)(agentID := g),
                sessionOf := (sessionOf r1)((agentID, g) \<mapsto> newSession agentID g),
                currentGen := AList.update agentID g (currentGen r)\<rparr>))"

definition Detach :: "string \<Rightarrow> nat \<Rightarrow> SessionRegistry \<Rightarrow> SessionRegistry" where
  "Detach agentID g r =
    (if Current agentID g r then r\<lparr>currentGen := AList.delete agentID (currentGen r)\<rparr> else r)"

definition WakeAgent :: "string \<Rightarrow> SessionRegistry \<Rightarrow> SessionRegistry" where
  "WakeAgent agentID r =
    (case map_of (currentGen r) agentID of
       Some g \<Rightarrow> on_session (agentID, g) WakeCommands r | None \<Rightarrow> r)"

text \<open>Every current session is told, as long as its queue has room, and canceled.\<close>

definition close_session :: "string \<Rightarrow> string \<times> nat \<Rightarrow> SessionRegistry \<Rightarrow> SessionRegistry" where
  "close_session reason key r = on_session key (\<lambda>x. Cancel (snd (OfferControl (EvServerClosing reason) x))) r"

definition CloseSessions :: "string \<Rightarrow> SessionRegistry \<Rightarrow> SessionRegistry" where
  "CloseSessions reason r = fold (close_session reason) (currentGen r) (r\<lparr>closing := True\<rparr>)"

subsection \<open>The bus\<close>

text \<open>The cache of resolved commands, most recently used first.\<close>

record Bus =
  busStore :: MemoryStore
  busCapacity :: nat
  busItems :: "(string \<times> Command) list"

definition NewBus :: "MemoryStore \<Rightarrow> int \<Rightarrow> Bus" where
  "NewBus s capacity = \<lparr>busStore = s, busCapacity = (if capacity \<le> 0 then 8192 else nat capacity), busItems = []\<rparr>"

definition cache :: "Command \<Rightarrow> Bus \<Rightarrow> Bus" where
  "cache c b =
    (let cid = CommandId c in
     if map_of (busItems b) cid \<noteq> None
     then b\<lparr>busItems := (cid, c) # AList.delete cid (busItems b)\<rparr>
     else let items = (cid, c) # busItems b
          in b\<lparr>busItems := (if length items > busCapacity b then butlast items else items)\<rparr>)"

definition Resolve :: "go_error option \<Rightarrow> string \<Rightarrow> Bus \<Rightarrow> (storeError + Command) \<times> Bus" where
  "Resolve ctx cid b =
    (case map_of (busItems b) cid of
       Some c \<Rightarrow> (Inr c, b\<lparr>busItems := (cid, c) # AList.delete cid (busItems b)\<rparr>)
     | None \<Rightarrow>
        (case Get ctx cid (busStore b) of
           Inl e \<Rightarrow> (Inl e, b)
         | Inr c \<Rightarrow> (Inr c, cache c b)))"

text \<open>Missing ids come from the generator: \<open>ids\<close> are the values it returns, in order.\<close>

fun prepare_batch :: "string list \<Rightarrow> int \<Rightarrow> Command list \<Rightarrow> Command list" where
  "prepare_batch ids now [] = []"
| "prepare_batch ids now (c # cs) =
    (let c1 = (if CommandId c = [] then c\<lparr>CommandId := (case ids of [] \<Rightarrow> [] | i # _ \<Rightarrow> i)\<rparr> else c);
         c2 = (if CreatedAtUnixNano c1 = 0 then c1\<lparr>CreatedAtUnixNano := now\<rparr> else c1)
     in c2 # prepare_batch (if CommandId c = [] then tl ids else ids) now cs)"

text \<open>The first half of \<open>CreateBatch\<close>: the commands are in the log, the wake-ups are still to come.\<close>

definition log_batch ::
  "go_error option \<Rightarrow> string list \<Rightarrow> int \<Rightarrow> int \<Rightarrow> Command list \<Rightarrow> Bus \<Rightarrow> storeError option \<times> Command list \<times> Bus" where
  "log_batch ctx ids now storeNow cs b =
    (let (e, cs', s) = CreateBatch ctx storeNow (prepare_batch ids now cs) (busStore b)
     in (e, cs', b\<lparr>busStore := s\<rparr>))"

fun announce :: "Command list \<Rightarrow> Bus \<times> SessionRegistry \<Rightarrow> Bus \<times> SessionRegistry" where
  "announce [] br = br"
| "announce (c # cs) br = announce cs (cache c (fst br), WakeAgent (cmdAgentId c) (snd br))"

definition BusCreateBatch ::
  "go_error option \<Rightarrow> string list \<Rightarrow> int \<Rightarrow> int \<Rightarrow> Command list \<Rightarrow> Bus \<times> SessionRegistry \<Rightarrow>
   storeError option \<times> Bus \<times> SessionRegistry" where
  "BusCreateBatch ctx ids now storeNow cs br =
    (let (e, cs', b) = log_batch ctx ids now storeNow cs (fst br)
     in case e of Some err \<Rightarrow> (Some err, b, snd br)
        | None \<Rightarrow> (None, announce cs' (b, snd br)))"

text \<open>The cursor and the window of the session advance with every command of the batch.\<close>

definition deliver_one :: "Command \<Rightarrow> Session \<Rightarrow> Session" where
  "deliver_one c x = MarkCommandSent (CommandId c) (x\<lparr>lastSent := Sequence c\<rparr>)"

definition PendingBatch :: "go_error option \<Rightarrow> Session \<Rightarrow> Bus \<Rightarrow> (storeError + Command list) \<times> Session \<times> Bus" where
  "PendingBatch ctx x b =
    (if CommandCapacity x \<le> 0 then (Inr [], x, b)
     else case Pending ctx (sessionAgent x) (lastSent x) (CommandCapacity x) (busStore b) of
       Inl e \<Rightarrow> (Inl e, x, b)
     | Inr cs \<Rightarrow> (Inr cs, fold deliver_one cs x, fold cache cs b))"

definition BusAcknowledge :: "go_error option \<Rightarrow> CommandAck \<Rightarrow> Bus \<Rightarrow> (storeError + Command) \<times> Bus" where
  "BusAcknowledge ctx ack b =
    (if ackCommandId ack = [] then (Inl AckWithoutId, b)
     else case Resolve ctx (ackCommandId ack) b of
       (Inl e, b1) \<Rightarrow> (Inl e, b1)
     | (Inr c, b1) \<Rightarrow>
        if cmdAgentId c \<noteq> ackAgentId ack \<or> Sequence c \<noteq> ackSequence ack \<or> cmdTaskId c \<noteq> ackTaskId ack
        then (Inl AckMismatch, b1)
        else (let (e, s) = Acknowledge ctx (ackCommandId ack) (ackStatus ack) (busStore b1)
              in case e of Some err \<Rightarrow> (Inl err, b1\<lparr>busStore := s\<rparr>) | None \<Rightarrow> (Inr c, b1\<lparr>busStore := s\<rparr>)))"

end
