(* ===== verification/CommandDelivery.thy ===== *)
theory CommandDelivery
  imports CommandSession GoValue
begin

text \<open>
  The loops that serve the sessions (\<^verbatim>\<open>admin/grpcapi/control_service.go\<close>) as steps over the bus and the
  registry of sessions, in any interleaving, and what they guarantee: no pending command is lost
  between its creation and a session's stream, and none is delivered twice in a session.
\<close>

subsection \<open>Events of the agents\<close>

datatype runtimeStatus = StatusIdle | StatusBusy

record Heartbeat =
  hbAgentId :: string
  hbGeneration :: nat
  hbStatus :: runtimeStatus
  hbTaskId :: string
  hbBots :: int

record FinalReport =
  frReportId :: string
  frAgentId :: string
  frTaskId :: string
  frStageIndex :: int

datatype AgentEvent = EvHello | EvHeartbeat Heartbeat | EvCommandAck CommandAck | EvFinalReport FinalReport | EvUnknown

text \<open>How the handling of an event ends: the session goes on, or its stream is closed with a status.\<close>

datatype grpcCode = PermissionDenied | InvalidArgument | Unavailable | ResourceExhausted | FailedPrecondition | NotFound

text \<open>
  What the transport asks of the rest of the admin server, injected as functions: the results of the
  calls are arguments, the calls are recorded.
\<close>

datatype adminCall = CallHeartbeat string runtimeStatus string int | CallStartTask string string int
  | CallScheduleStop string string | CallRejectedReport string string string | CallFinalReport string

record adminDeps =
  ownsActiveTask :: "string \<Rightarrow> string \<Rightarrow> bool"
  heartbeatErr :: bool
  startTaskErr :: bool
  reportErr :: "(string \<times> bool) option"
  clockNow :: int
  leaseDuration :: int

definition permanent_or_none :: "adminDeps \<Rightarrow> bool" where
  "permanent_or_none d \<longleftrightarrow> (case reportErr d of None \<Rightarrow> True | Some (msg, permanent) \<Rightarrow> permanent)"

definition handleHeartbeat :: "adminDeps \<Rightarrow> Heartbeat \<Rightarrow> Session \<Rightarrow> grpcCode option \<times> Session \<times> adminCall list" where
  "handleHeartbeat d h x =
    (if hbAgentId h \<noteq> sessionAgent x \<or> hbGeneration h \<noteq> sessionGeneration x then (Some PermissionDenied, x, [])
     else let calls = [CallHeartbeat (sessionAgent x) (hbStatus h) (hbTaskId h) (hbBots h)] in
       if heartbeatErr d then (Some NotFound, x, calls)
       else if ownsActiveTask d (sessionAgent x) (hbTaskId h) \<or> hbTaskId h = []
       then (None, OfferHeartbeat \<lparr>hkGeneration = sessionGeneration x, hkServerTime = clockNow d,
               hkLeaseDeadline = clockNow d + leaseDuration d\<rparr> x, calls)
       else let (first, x1) = TryMarkOrphanStop x
            in (None, x1, if first then calls @ [CallScheduleStop (hbTaskId h) (sessionAgent x)] else calls))"

definition is_start :: "Command \<Rightarrow> bool" where
  "is_start c \<longleftrightarrow> (case Body c of StartTask a b \<Rightarrow> True | _ \<Rightarrow> False)"

definition is_stop :: "Command \<Rightarrow> bool" where
  "is_stop c \<longleftrightarrow> (case Body c of StopTask r \<Rightarrow> True | _ \<Rightarrow> False)"

definition start_bots :: "Command \<Rightarrow> int" where
  "start_bots c = (case Body c of StartTask (Some a) b \<Rightarrow> taTotalBots a | _ \<Rightarrow> 0)"

text \<open>What follows once the log has taken the acknowledgement.\<close>

definition after_ack :: "adminDeps \<Rightarrow> CommandAck \<Rightarrow> Command \<Rightarrow> Session \<Rightarrow> grpcCode option \<times> Session \<times> adminCall list" where
  "after_ack d ack c x =
    (let started = ackStatus ack = AckApplied \<and> is_start c \<and> ownsActiveTask d (sessionAgent x) (cmdTaskId c);
         rejected = ackStatus ack = AckRejected \<and> (is_start c \<or> is_stop c);
         calls = (if started then [CallStartTask (sessionAgent x) (cmdTaskId c) (start_bots c)] else []) @
                 (if rejected then [CallRejectedReport (ackAgentId ack) (cmdTaskId c) (ackReason ack)] else [])
     in if started \<and> startTaskErr d then (Some Unavailable, x, calls)
        else if rejected \<and> \<not> permanent_or_none d then (Some Unavailable, x, calls)
        else case OfferControl (EvCommandReceipt \<lparr>rcCommandId = ackCommandId ack, rcSequence = ackSequence ack\<rparr>) x of
          (True, x1) \<Rightarrow> (None, x1, calls)
        | (False, x1) \<Rightarrow> (Some ResourceExhausted, x1, calls))"

definition handleCommandAck ::
  "adminDeps \<Rightarrow> go_error option \<Rightarrow> CommandAck \<Rightarrow> Session \<Rightarrow> Bus \<Rightarrow>
   grpcCode option \<times> Session \<times> Bus \<times> adminCall list" where
  "handleCommandAck d ctx ack x b =
    (if ackAgentId ack \<noteq> sessionAgent x then (Some PermissionDenied, x, b, [])
     else case BusAcknowledge ctx ack b of
       (Inl e, b1) \<Rightarrow> (Some InvalidArgument, x, b1, [])
     | (Inr c, b1) \<Rightarrow>
        (let (code, x1, calls) = after_ack d ack c (MarkCommandAcknowledged (ackCommandId ack) x)
         in (code, x1, b1, calls)))"

text \<open>\<open>convErr\<close>: the report cannot be converted, which refuses it for good.\<close>

definition handleFinalReport ::
  "adminDeps \<Rightarrow> string option \<Rightarrow> FinalReport \<Rightarrow> Session \<Rightarrow> grpcCode option \<times> Session \<times> adminCall list" where
  "handleFinalReport d convErr rep x =
    (if frAgentId rep \<noteq> sessionAgent x then (Some PermissionDenied, x, [])
     else let calls = (case convErr of None \<Rightarrow> [CallFinalReport (frReportId rep)] | Some e \<Rightarrow> []);
              failure = (case convErr of Some e \<Rightarrow> Some e | None \<Rightarrow> map_option fst (reportErr d));
              ack = \<lparr>rkReportId = frReportId rep, rkTaskId = frTaskId rep, rkStageIndex = frStageIndex rep,
                     rkAccepted = (failure = None), rkReason = (case failure of None \<Rightarrow> [] | Some e \<Rightarrow> e)\<rparr>
          in if convErr = None \<and> \<not> permanent_or_none d then (Some Unavailable, x, calls)
             else case OfferControl (EvReportAck ack) x of
               (True, x1) \<Rightarrow> (None, x1, calls)
             | (False, x1) \<Rightarrow> (Some ResourceExhausted, x1, calls))"

definition handleEvent ::
  "adminDeps \<Rightarrow> go_error option \<Rightarrow> string option \<Rightarrow> AgentEvent \<Rightarrow> Session \<Rightarrow> Bus \<Rightarrow>
   grpcCode option \<times> Session \<times> Bus \<times> adminCall list" where
  "handleEvent d ctx convErr ev x b =
    (case ev of
       EvHeartbeat h \<Rightarrow> (let (code, x1, calls) = handleHeartbeat d h x in (code, x1, b, calls))
     | EvCommandAck ack \<Rightarrow> handleCommandAck d ctx ack x b
     | EvFinalReport rep \<Rightarrow> (let (code, x1, calls) = handleFinalReport d convErr rep x in (code, x1, b, calls))
     | EvHello \<Rightarrow> (Some FailedPrecondition, x, b, [])
     | EvUnknown \<Rightarrow> (Some InvalidArgument, x, b, []))"

text \<open>
  The opening of a session: its first event has to be a greeting of the protocol's version from a
  named agent.  \<open>registerErr\<close> and \<open>stopErr\<close> say whether the registration and the stop command for a
  task the admin does not own fail.  A session that is not established is canceled and detached.
\<close>

record Hello =
  protocolVersion :: nat
  helloAgentId :: string
  helloTaskId :: string

definition controlProtocolVersion :: nat where "controlProtocolVersion = 1"

definition requireAgentID :: "string \<Rightarrow> bool" where
  "requireAgentID agentID \<longleftrightarrow> trim_space agentID \<noteq> []"

definition abandon :: "string \<times> nat \<Rightarrow> SessionRegistry \<Rightarrow> SessionRegistry" where
  "abandon key r = Detach (fst key) (snd key) (on_session key Cancel r)"

definition openSession ::
  "adminDeps \<Rightarrow> bool \<Rightarrow> bool \<Rightarrow> Hello option \<Rightarrow> SessionRegistry \<Rightarrow>
   (grpcCode + string \<times> nat) \<times> SessionRegistry \<times> adminCall list" where
  "openSession d registerErr stopErr hello r =
    (case hello of
       None \<Rightarrow> (Inl FailedPrecondition, r, [])
     | Some h \<Rightarrow>
        if protocolVersion h \<noteq> controlProtocolVersion then (Inl FailedPrecondition, r, [])
        else if \<not> requireAgentID (helloAgentId h) then (Inl InvalidArgument, r, [])
        else case Attach (helloAgentId h) r of
          (None, r1) \<Rightarrow> (Inl Unavailable, r1, [])
        | (Some g, r1) \<Rightarrow>
           (let key = (helloAgentId h, g); orphan = helloTaskId h \<noteq> [] \<and> \<not> ownsActiveTask d (helloAgentId h) (helloTaskId h)
            in if \<not> Current (helloAgentId h) g r1 \<or> registerErr then (Inl Unavailable, abandon key r1, [])
               else if \<not> orphan then (Inr key, r1, [])
               else if stopErr then (Inl Unavailable, abandon key r1, [CallScheduleStop (helloTaskId h) (helloAgentId h)])
               else (Inr key, on_session key (\<lambda>x. snd (TryMarkOrphanStop x)) r1,
                     [CallScheduleStop (helloTaskId h) (helloAgentId h)])))"

subsection \<open>The send loop\<close>

text \<open>
  One iteration once the signal is taken: the batch is read, then its commands go out one by one.
  A start command of a task that is no longer active is refused on behalf of the agent.
\<close>

definition read_batch :: "go_error option \<Rightarrow> Session \<Rightarrow> Bus \<Rightarrow> Session \<times> Bus" where
  "read_batch ctx x b =
    (case PendingBatch ctx x b of
       (Inl e, x1, b1) \<Rightarrow> (Cancel x1, b1)
     | (Inr cs, x1, b1) \<Rightarrow> (x1\<lparr>sendPos := SendBatch cs, fetched := fetched x1 @ cs\<rparr>, b1))"

definition refuse_stale :: "go_error option \<Rightarrow> Command \<Rightarrow> Session \<Rightarrow> Bus \<Rightarrow> Session \<times> Bus" where
  "refuse_stale ctx c x b =
    (case BusAcknowledge ctx \<lparr>ackCommandId = CommandId c, ackSequence = Sequence c, ackAgentId = cmdAgentId c,
         ackTaskId = cmdTaskId c, ackStatus = AckRejected, ackReason = ''task no longer active''\<rparr> b of
       (Inl e, b1) \<Rightarrow> (Cancel x, b1)
     | (Inr _, b1) \<Rightarrow> (MarkCommandAcknowledged (CommandId c) x, b1))"

definition send_command ::
  "(string \<Rightarrow> string \<Rightarrow> bool) \<Rightarrow> go_error option \<Rightarrow> Command \<Rightarrow> Session \<Rightarrow> Bus \<Rightarrow> Session \<times> Bus" where
  "send_command owns ctx c x b =
    (if is_start c \<and> \<not> owns (sessionAgent x) (cmdTaskId c) then refuse_stale ctx c x b
     else (x\<lparr>stream := stream x @ [EvCommand (c\<lparr>DeliveryGeneration := sessionGeneration x\<rparr>)]\<rparr>, b))"

subsection \<open>All steps\<close>

text \<open>
  \<open>owed\<close> are the commands that are in the log and whose announcement is still to come.  \<open>history\<close>
  remembers the number of every id ever logged: the generator of ids does not repeat itself.
\<close>

record Admin =
  adminBus :: Bus
  sessions :: SessionRegistry
  owed :: "Command list"
  history :: "string \<rightharpoonup> nat"

definition put_session :: "string \<times> nat \<Rightarrow> Session \<Rightarrow> SessionRegistry \<Rightarrow> SessionRegistry" where
  "put_session key x r = r\<lparr>sessionOf := (sessionOf r)(key \<mapsto> x)\<rparr>"

definition NewAdmin :: "int \<Rightarrow> int \<Rightarrow> Admin" where
  "NewAdmin storeCap busCap =
    \<lparr>adminBus = NewBus (NewMemoryStore storeCap) busCap, sessions = NewSessionRegistry, owed = [], history = Map.empty\<rparr>"

inductive ctl_step :: "Admin \<Rightarrow> Admin \<Rightarrow> bool" where
  log: "log_batch ctx ids now storeNow cs (adminBus w) = (e, cs', b) \<Longrightarrow>
    list_all (\<lambda>c. history w (CommandId c) = None) cs' \<Longrightarrow>
    ctl_step w (w\<lparr>adminBus := b, owed := (if e = None then owed w @ cs' else owed w),
      history := (if e = None then fold (\<lambda>c h. h(CommandId c \<mapsto> Sequence c)) cs' (history w) else history w)\<rparr>)"
| announce: "owed w = xs @ c # ys \<Longrightarrow> announce [c] (adminBus w, sessions w) = (b, r) \<Longrightarrow>
    ctl_step w (w\<lparr>adminBus := b, sessions := r, owed := xs @ ys\<rparr>)"
| open_session: "openSession d registerErr stopErr hello (sessions w) = (res, r, calls) \<Longrightarrow> ctl_step w (w\<lparr>sessions := r\<rparr>)"
| detach: "ctl_step w (w\<lparr>sessions := Detach a g (sessions w)\<rparr>)"
| close_all: "ctl_step w (w\<lparr>sessions := CloseSessions reason (sessions w)\<rparr>)"
| cancel: "ctl_step w (w\<lparr>sessions := on_session key Cancel (sessions w)\<rparr>)"
| replay: "sessionOf (sessions w) key = Some x \<Longrightarrow> \<not> canceled x \<Longrightarrow>
    ctl_step w (w\<lparr>sessions := put_session key ((WakeCommands x)\<lparr>replayed := True\<rparr>) (sessions w)\<rparr>)"
| take: "sessionOf (sessions w) key = Some x \<Longrightarrow> replayed x \<Longrightarrow> sendPos x = SendWaits \<Longrightarrow> wakeSignal x \<Longrightarrow>
    ctl_step w (w\<lparr>sessions := put_session key (x\<lparr>wakeSignal := False, sendPos := SendReads\<rparr>) (sessions w)\<rparr>)"
| read: "sessionOf (sessions w) key = Some x \<Longrightarrow> sendPos x = SendReads \<Longrightarrow>
    read_batch ctx x (adminBus w) = (x', b) \<Longrightarrow>
    ctl_step w (w\<lparr>adminBus := b, sessions := put_session key x' (sessions w)\<rparr>)"
| send_one: "sessionOf (sessions w) key = Some x \<Longrightarrow> sendPos x = SendBatch (c # cs) \<Longrightarrow>
    send_command owns ctx c (x\<lparr>sendPos := SendBatch cs\<rparr>) (adminBus w) = (x', b) \<Longrightarrow>
    ctl_step w (w\<lparr>adminBus := b, sessions := put_session key x' (sessions w)\<rparr>)"
| batch_sent: "sessionOf (sessions w) key = Some x \<Longrightarrow> sendPos x = SendBatch [] \<Longrightarrow>
    ctl_step w (w\<lparr>sessions := put_session key (x\<lparr>sendPos := SendWaits\<rparr>) (sessions w)\<rparr>)"
| event: "sessionOf (sessions w) key = Some x \<Longrightarrow> handleEvent d ctx convErr ev x (adminBus w) = (code, x', b, calls) \<Longrightarrow>
    ctl_step w (w\<lparr>adminBus := b, sessions := put_session key x' (sessions w)\<rparr>)"
| send_control: "sessionOf (sessions w) key = Some x \<Longrightarrow> control x = e # es \<Longrightarrow>
    ctl_step w (w\<lparr>sessions := put_session key (x\<lparr>control := es, stream := stream x @ [e]\<rparr>) (sessions w)\<rparr>)"
| send_heartbeat: "sessionOf (sessions w) key = Some x \<Longrightarrow> heartbeatAck x = Some h \<Longrightarrow>
    ctl_step w (w\<lparr>sessions := put_session key (x\<lparr>heartbeatAck := None, stream := stream x @ [EvHeartbeatAck h]\<rparr>) (sessions w)\<rparr>)"

inductive ctl_reachable :: "Admin \<Rightarrow> bool" where
  start: "ctl_reachable (NewAdmin storeCap busCap)"
| step: "ctl_reachable w \<Longrightarrow> ctl_step w w' \<Longrightarrow> ctl_reachable w'"

subsection \<open>The invariant\<close>

text \<open>
  A session has fetched, in order and once, every pending command up to its cursor; what is in flight
  was fetched, and never exceeds the window.
\<close>

definition session_ok :: "MemoryStore \<Rightarrow> (string \<rightharpoonup> nat) \<Rightarrow> string \<Rightarrow> Session \<Rightarrow> bool" where
  "session_ok s h a x \<longleftrightarrow>
     sessionAgent x = a \<and> lastSent x \<le> storeNext s \<and>
     distinct (inflight x) \<and> int (length (inflight x)) \<le> CommandDispatchWindow \<and>
     (\<forall>i \<in> set (inflight x). \<exists>c \<in> set (fetched x). CommandId c = i) \<and>
     sorted_wrt (<) (map Sequence (fetched x)) \<and>
     (\<forall>c \<in> set (fetched x). Sequence c \<le> lastSent x \<and> h (CommandId c) = Some (Sequence c)) \<and>
     (\<forall>q \<in> set (pending_of s a). q \<le> lastSent x \<longrightarrow> q \<in> Sequence ` set (fetched x))"

text \<open>No wake-up is lost: a session with room in its window that has not seen a command will look.\<close>

definition served :: "MemoryStore \<Rightarrow> Command list \<Rightarrow> string \<Rightarrow> Session \<Rightarrow> bool" where
  "served s ow a x \<longleftrightarrow>
     (replayed x \<and> \<not> canceled x \<longrightarrow>
        wakeSignal x \<or> sendPos x = SendReads \<or> CommandCapacity x \<le> 0 \<or>
        (\<forall>q \<in> set (pending_of s a). q \<le> lastSent x) \<or> (\<exists>c \<in> set ow. cmdAgentId c = a))"

definition numbered :: "MemoryStore \<Rightarrow> (string \<rightharpoonup> nat) \<Rightarrow> bool" where
  "numbered s h \<longleftrightarrow> (\<forall>q r. live s q r \<longrightarrow> 0 < q \<and> h (CommandId (mcCommand r)) = Some q)"

definition ctl_inv :: "Admin \<Rightarrow> bool" where
  "ctl_inv w \<longleftrightarrow>
     store_inv (busStore (adminBus w)) \<and> numbered (busStore (adminBus w)) (history w) \<and>
     (\<forall>a g x. sessionOf (sessions w) (a, g) = Some x \<longrightarrow>
        session_ok (busStore (adminBus w)) (history w) a x \<and>
        (Current a g (sessions w) \<longrightarrow> served (busStore (adminBus w)) (owed w) a x))"

subsection \<open>Changes of one session\<close>

text \<open>
  A change that leaves cursor and fetched commands alone, may take commands out of flight, and
  then wakes the session or leaves its attention as it is.
\<close>

definition calm :: "Session \<Rightarrow> Session \<Rightarrow> bool" where
  "calm x x' \<longleftrightarrow>
     sessionAgent x' = sessionAgent x \<and> lastSent x' = lastSent x \<and> fetched x' = fetched x \<and>
     set (inflight x') \<subseteq> set (inflight x) \<and> length (inflight x') \<le> length (inflight x) \<and>
     (distinct (inflight x) \<longrightarrow> distinct (inflight x')) \<and>
     (canceled x' \<or> wakeSignal x' \<or>
        canceled x' = canceled x \<and> replayed x' = replayed x \<and> (sendPos x = SendReads \<longrightarrow> sendPos x' = SendReads) \<and>
        \<not> wakeSignal x \<and> inflight x' = inflight x)"

lemma calm_session:
  assumes "session_ok s h a x" "calm x x'"
  shows "session_ok s h a x'"
  using assms unfolding session_ok_def calm_def by (elim conjE, intro conjI) (auto dest: subsetD)

lemma calm_served: "served s ow a x \<Longrightarrow> calm x x' \<Longrightarrow> served s ow a x'"
  by (auto simp: served_def calm_def CommandCapacity_def)

lemma length_removeAll_le: "length (removeAll y xs) \<le> length xs"
  by (simp add: removeAll_filter_not_eq)

lemma calmI [simp]:
  "calm x x" "calm x (Cancel x)" "calm x (WakeCommands x)" "calm x (snd (OfferControl e x))"
  "calm x (OfferHeartbeat a x)" "calm x (snd (TryMarkOrphanStop x))" "calm x (MarkCommandAcknowledged cid x)"
  by (auto simp: calm_def Cancel_def WakeCommands_def OfferControl_def OfferHeartbeat_def TryMarkOrphanStop_def
      MarkCommandAcknowledged_def distinct_removeAll length_removeAll_le)

lemma calm_trans: "calm x y \<Longrightarrow> calm y z \<Longrightarrow> calm x z"
  unfolding calm_def by auto

lemma calm_after_ack: "calm x (fst (snd (after_ack d ack c x)))"
  using calmI(4) [of x]
  by (simp add: after_ack_def Let_def split_beta' split: bool.split)

lemma calm_heartbeat: "calm x (fst (snd (handleHeartbeat d hb x)))"
  by (simp add: handleHeartbeat_def Let_def split_beta')

lemma calm_report: "calm x (fst (snd (handleFinalReport d e rep x)))"
  using calmI(4) [of x] by (simp add: handleFinalReport_def Let_def split_beta' split: bool.split)

text \<open>A change of the store that adds no pending command.\<close>

definition settled :: "MemoryStore \<Rightarrow> MemoryStore \<Rightarrow> bool" where
  "settled s s' \<longleftrightarrow> storeNext s' = storeNext s \<and> (\<forall>a. set (pending_of s' a) \<subseteq> set (pending_of s a)) \<and>
     (\<forall>q r. live s' q r \<longrightarrow> (\<exists>r'. live s q r' \<and> mcCommand r' = mcCommand r))"

lemma settled_refl [simp]: "settled s s"
  by (auto simp: settled_def)

lemma settled_session: "settled s s' \<Longrightarrow> session_ok s h a x \<Longrightarrow> session_ok s' h a x"
  unfolding settled_def session_ok_def by (elim conjE, intro conjI) (blast | simp)+

lemma settled_served: "settled s s' \<Longrightarrow> served s ow a x \<Longrightarrow> served s' ow a x"
  unfolding settled_def served_def by blast

lemma settled_numbered: "settled s s' \<Longrightarrow> numbered s h \<Longrightarrow> numbered s' h"
  unfolding settled_def numbered_def by metis

lemma cache_store [simp]: "busStore (cache c b) = busStore b" "busStore (fold cache cs b) = busStore b"
proof -
  show 1: "busStore (cache c b) = busStore b" for c b by (simp add: cache_def Let_def)
  show "busStore (fold cache cs b) = busStore b" by (induction cs arbitrary: b) (simp_all add: 1)
qed

lemma Resolve_store [simp]: "busStore (snd (Resolve ctx cid b)) = busStore b"
  by (simp add: Resolve_def split: option.split sum.split)

lemma BusAcknowledge_settled:
  assumes "store_inv (busStore b)"
  shows "store_inv (busStore (snd (BusAcknowledge ctx ack b))) \<and> settled (busStore b) (busStore (snd (BusAcknowledge ctx ack b)))"
proof -
  have a: "store_inv (snd (Acknowledge ctx cid st s)) \<and> settled s (snd (Acknowledge ctx cid st s))"
    if "store_inv s" for ctx cid st s
    using Acknowledge_inv [OF that] Acknowledge_cases [OF that prod.collapse [symmetric]] unfolding settled_def by blast
  obtain res b1 where r: "Resolve ctx (ackCommandId ack) b = (res, b1)" by fastforce
  then have "busStore b1 = busStore b" using Resolve_store [of ctx "ackCommandId ack" b] by simp
  then show ?thesis
    using assms a [of "busStore b1" ctx "ackCommandId ack" "ackStatus ack"]
    by (simp add: BusAcknowledge_def r split_beta' Let_def split: sum.split option.split)
qed

lemma handleEvent_effect:
  assumes "handleEvent d ctx convErr ev x b = (code, x', b', calls)" "store_inv (busStore b)"
  shows "calm x x' \<and> store_inv (busStore b') \<and> settled (busStore b) (busStore b')"
proof (cases ev)
  case (EvCommandAck ack)
  obtain res b1 where r: "BusAcknowledge ctx ack b = (res, b1)" by fastforce
  then have b1: "store_inv (busStore b1)" "settled (busStore b) (busStore b1)"
    using BusAcknowledge_settled [OF assms(2), of ctx ack] by simp_all
  have "calm x (fst (snd (after_ack d ack c (MarkCommandAcknowledged (ackCommandId ack) x))))" for c
    by (rule calm_trans [OF _ calm_after_ack]) simp
  then show ?thesis
    using assms EvCommandAck b1
    by (auto simp: handleEvent_def handleCommandAck_def r split_beta' Let_def split: if_splits sum.splits)
next
  case (EvHeartbeat h)
  then show ?thesis using assms calm_heartbeat [of x d h] by (auto simp: handleEvent_def split_beta' Let_def)
next
  case (EvFinalReport rep)
  then show ?thesis using assms calm_report [of x d convErr rep] by (auto simp: handleEvent_def split_beta' Let_def)
qed (use assms in \<open>auto simp: handleEvent_def\<close>)

subsection \<open>Reading a batch\<close>

lemma deliver_fold:
  assumes "sorted_wrt (<) (map Sequence cs)" "list_all (\<lambda>c. lastSent x < Sequence c) cs"
    and "distinct (inflight x)" "list_all (\<lambda>c. CommandId c \<notin> set (inflight x)) cs" "distinct (map CommandId cs)"
  shows "sessionAgent (fold deliver_one cs x) = sessionAgent x \<and> fetched (fold deliver_one cs x) = fetched x \<and>
    replayed (fold deliver_one cs x) = replayed x \<and> canceled (fold deliver_one cs x) = canceled x \<and>
    wakeSignal (fold deliver_one cs x) = wakeSignal x \<and>
    set (inflight (fold deliver_one cs x)) = CommandId ` set cs \<union> set (inflight x) \<and>
    distinct (inflight (fold deliver_one cs x)) \<and>
    length (inflight (fold deliver_one cs x)) = length cs + length (inflight x) \<and>
    lastSent (fold deliver_one cs x) = (if cs = [] then lastSent x else Sequence (last cs))"
  using assms
proof (induction cs arbitrary: x)
  case (Cons c cs)
  let ?y = "deliver_one c x"
  have y: "sessionAgent ?y = sessionAgent x" "fetched ?y = fetched x" "replayed ?y = replayed x" "canceled ?y = canceled x"
    "wakeSignal ?y = wakeSignal x" "inflight ?y = CommandId c # inflight x" "lastSent ?y = Sequence c"
    using Cons.prems(4) by (simp_all add: deliver_one_def MarkCommandSent_def)
  have "list_all (\<lambda>c. CommandId c \<notin> set (inflight ?y)) cs" "list_all (\<lambda>d. lastSent ?y < Sequence d) cs"
    "distinct (inflight ?y)"
    using Cons.prems by (auto simp: y list_all_iff image_iff)
  then show ?case using Cons.IH [of ?y] Cons.prems(1,5) by (auto simp: y)
qed simp

lemma pending_records:
  assumes "shape s"
  shows "map Sequence (pending_commands s a) = pending_of s a"
    "c \<in> set (pending_commands s a) \<Longrightarrow> \<exists>r. live s (Sequence c) r \<and> mcCommand r = c"
proof -
  have "map Sequence (concat (map (record_at s) qs)) = qs \<and>
      (\<forall>c \<in> set (concat (map (record_at s) qs)). \<exists>r. live s (Sequence c) r \<and> mcCommand r = c)"
    if "\<forall>q \<in> set qs. \<exists>r. live s q r" for qs
    using that
  proof (induction qs)
    case (Cons q qs)
    then obtain r where r: "live s q r" by auto
    then have "record_at s q = [mcCommand r]" "Sequence (mcCommand r) = q"
      using live_seq [OF assms r] by (simp_all add: record_at_def live_def)
    then show ?case using Cons r by auto
  qed simp
  moreover have "\<forall>q \<in> set (pending_of s a). \<exists>r. live s q r" using shapeD(6) [OF assms, of a] by blast
  ultimately show "map Sequence (pending_commands s a) = pending_of s a"
    "c \<in> set (pending_commands s a) \<Longrightarrow> \<exists>r. live s (Sequence c) r \<and> mcCommand r = c"
    unfolding pending_commands_def queue_is_pending [OF assms] by blast+
qed

lemma take_filter_split:
  assumes "sorted_wrt (<) (map f xs)" "x \<in> set (filter P xs)" "x \<notin> set (take n (filter P xs))" "y \<in> set (take n (filter P xs))"
  shows "f y < (f x :: nat)"
proof -
  have "sorted_wrt (<) (map f (filter P xs))" using assms(1) by (induction xs) auto
  then have "sorted_wrt (<) (map f (take n (filter P xs)) @ map f (drop n (filter P xs)))"
    by (metis append_take_drop_id map_append)
  moreover have "x \<in> set (drop n (filter P xs))"
    using assms(2,3) by (metis Un_iff append_take_drop_id set_append)
  ultimately show ?thesis using assms(4) unfolding sorted_wrt_append by auto
qed

lemma sorted_take_filter: "sorted_wrt (<) (map f xs) \<Longrightarrow> sorted_wrt (<) (map f (take n (filter P xs)))"
  by (simp add: sorted_wrt_map sorted_wrt_filter sorted_wrt_take)

lemma last_largest: "sorted_wrt (<) (map f xs) \<Longrightarrow> x \<in> set xs \<Longrightarrow> (f x :: nat) \<le> f (last xs)"
  by (induction xs) (auto intro: less_imp_le)

lemma read_session:
  assumes s: "store_inv (busStore b)" and h: "numbered (busStore b) h" and x: "session_ok (busStore b) h a x"
    and r: "read_batch ctx x b = (x', b')"
  shows "busStore b' = busStore b \<and> session_ok (busStore b) h a x' \<and> served (busStore b) ow a x'"
proof -
  let ?s = "busStore b"
  have sh: "shape ?s" using s by (simp add: store_inv_def)
  consider (full) "CommandCapacity x \<le> 0"
    | (bad) e where "0 < CommandCapacity x" "Pending ctx a (lastSent x) (CommandCapacity x) ?s = Inl e"
    | (ok) cs where "0 < CommandCapacity x" "Pending ctx a (lastSent x) (CommandCapacity x) ?s = Inr cs"
    by (cases "Pending ctx a (lastSent x) (CommandCapacity x) ?s") fastforce+
  then show ?thesis
  proof cases
    case full
    then show ?thesis using r x by (auto simp: read_batch_def PendingBatch_def session_ok_def served_def CommandCapacity_def)
  next
    case bad
    then show ?thesis
      using r x by (auto simp: read_batch_def PendingBatch_def session_ok_def served_def Cancel_def)
  next
    case (ok cs)
    define n where "n = nat (CommandCapacity x)"
    have ctx: "ctx = None" using ok(2) by (cases ctx) (simp_all add: Pending_def)
    have lim: "\<not> (CommandCapacity x \<le> 0 \<or> CommandCapacity x > commandReplayBatchSize)"
      using ok(1) by (simp add: CommandCapacity_def CommandDispatchWindow_def commandReplayBatchSize_def)
    have cs: "cs = take n (filter (\<lambda>c. lastSent x < Sequence c) (pending_commands ?s a))"
      using ok(2) Pending_filter [OF s, of a "lastSent x" "CommandCapacity x"] lim by (simp add: ctx n_def)
    have x': "x' = (fold deliver_one cs x)\<lparr>sendPos := SendBatch cs, fetched := fetched (fold deliver_one cs x) @ cs\<rparr>"
      "busStore b' = ?s"
      using r ok x by (auto simp: read_batch_def PendingBatch_def session_ok_def)
    note xs = x [unfolded session_ok_def]
    have pc: "map Sequence (pending_commands ?s a) = pending_of ?s a" by (rule pending_records(1) [OF sh])
    have sorted: "sorted_wrt (<) (map Sequence (pending_commands ?s a))" unfolding pc by (rule shapeD(5) [OF sh])
    have mem: "c \<in> set (pending_commands ?s a) \<and> lastSent x < Sequence c" if "c \<in> set cs" for c
      using that unfolding cs by (auto dest: in_set_takeD)
    have live: "h (CommandId c) = Some (Sequence c)" "Sequence c \<le> storeNext ?s" if c: "c \<in> set cs" for c
    proof -
      obtain rec where rec: "live ?s (Sequence c) rec" "mcCommand rec = c"
        using pending_records(2) [OF sh] mem [OF c] by blast
      then show "h (CommandId c) = Some (Sequence c)" using h unfolding numbered_def by blast
      show "Sequence c \<le> storeNext ?s" using live_seq [OF sh rec(1)] by simp
    qed
    have srt: "sorted_wrt (<) (map Sequence cs)"
      unfolding cs by (rule sorted_take_filter [OF sorted])
    have above: "list_all (\<lambda>c. lastSent x < Sequence c) cs" using mem by (simp add: list_all_iff)
    have fresh: "list_all (\<lambda>c. CommandId c \<notin> set (inflight x)) cs"
      unfolding list_all_iff
    proof (intro ballI notI)
      fix c assume c: "c \<in> set cs" "CommandId c \<in> set (inflight x)"
      then obtain d where "d \<in> set (fetched x)" "CommandId d = CommandId c" using xs by blast
      then have "Sequence c \<le> lastSent x" using xs live(1) [OF c(1)] by (metis option.inject)
      then show False using mem [OF c(1)] by simp
    qed
    have "distinct (map Sequence cs)" using srt by (simp add: strict_sorted_iff)
    then have ids: "distinct (map CommandId cs)"
      using live(1) unfolding distinct_map inj_on_def by (metis option.inject)
    note d = deliver_fold [OF srt above _ fresh ids]
    have dist: "distinct (inflight x)" using xs by blast
    have len: "length cs \<le> n" by (simp add: cs)
    have last: "Sequence c \<le> lastSent x'" if "c \<in> set cs" for c
      using last_largest [OF srt that] d [OF dist] that by (auto simp: x')
    have adv: "lastSent x \<le> lastSent x'"
    proof (cases cs)
      case (Cons c cs')
      then show ?thesis using last [of c] above by auto
    qed (use d [OF dist] in \<open>simp add: x'\<close>)
    have fit: "int (length (inflight x')) \<le> CommandDispatchWindow"
      using d [OF dist] len ok(1) by (simp add: x' n_def CommandCapacity_def)
    have seen: "q \<in> Sequence ` set (fetched x')" if q: "q \<in> set (pending_of ?s a)" "q \<le> lastSent x'" for q
    proof (cases "q \<le> lastSent x")
      case True
      then have "q \<in> Sequence ` set (fetched x)" using xs q(1) by blast
      then show ?thesis using d [OF dist] by (auto simp: x')
    next
      case False
      obtain c where c: "c \<in> set (pending_commands ?s a)" "Sequence c = q" using q(1) pc by (metis imageE list.set_map)
      then have f: "c \<in> set (filter (\<lambda>c. lastSent x < Sequence c) (pending_commands ?s a))" using False by simp
      have "cs \<noteq> []" using False q(2) d [OF dist] by (auto simp: x')
      then have "last cs \<in> set cs" "lastSent x' = Sequence (last cs)" using d [OF dist] by (simp_all add: x')
      then have "c \<in> set cs"
        using take_filter_split [OF sorted f, of n "last cs"] q(2) c(2) unfolding cs by fastforce
      then show ?thesis using c(2) by (auto simp: x')
    qed
    note f = d [OF dist]
    have "lastSent x' \<le> storeNext ?s"
      using f xs live(2) by (cases "cs = []") (auto simp: x')
    moreover have "sorted_wrt (<) (map Sequence (fetched x'))"
    proof -
      have "Sequence u < Sequence v" if "u \<in> set (fetched x)" "v \<in> set cs" for u v
        using that xs mem [of v] by (meson le_less_trans)
      then show ?thesis using xs srt f by (auto simp: x' sorted_wrt_append)
    qed
    moreover have "\<forall>c \<in> set (fetched x'). Sequence c \<le> lastSent x' \<and> h (CommandId c) = Some (Sequence c)"
      using xs last live(1) adv f by (auto simp: x')
    moreover have "sessionAgent x' = a" "distinct (inflight x')" "\<forall>i \<in> set (inflight x'). \<exists>c \<in> set (fetched x'). CommandId c = i"
      using xs f by (auto simp: x')
    ultimately have "session_ok ?s h a x'" using fit seen unfolding session_ok_def by blast
    moreover have "served ?s ow a x'"
    proof (cases "length cs = n")
      case True
      then have "CommandCapacity x' \<le> 0" using f ok(1) by (simp add: x' CommandCapacity_def n_def)
      then show ?thesis by (simp add: served_def)
    next
      case False
      then have all: "cs = filter (\<lambda>c. lastSent x < Sequence c) (pending_commands ?s a)"
        using len unfolding cs by simp
      have "q \<le> lastSent x'" if q: "q \<in> set (pending_of ?s a)" for q
      proof (cases "q \<le> lastSent x")
        case False
        obtain c where "c \<in> set (pending_commands ?s a)" "Sequence c = q" using q pc by (metis imageE list.set_map)
        then show ?thesis using False last [of c] unfolding all by auto
      qed (use adv in simp)
      then show ?thesis by (simp add: served_def)
    qed
    ultimately show ?thesis using x'(2) by simp
  qed
qed

subsection \<open>Changes of the registry\<close>

definition calm_reg :: "SessionRegistry \<Rightarrow> SessionRegistry \<Rightarrow> bool" where
  "calm_reg r r' \<longleftrightarrow> (\<forall>a g x'. sessionOf r' (a, g) = Some x' \<longrightarrow>
     (\<exists>x. calm x x' \<and>
        (sessionOf r (a, g) = Some x \<and> (Current a g r' \<longrightarrow> Current a g r) \<or> x = newSession a g)))"

lemma calm_regD:
  assumes "calm_reg r r'" "sessionOf r' (a, g) = Some x'"
  obtains (old) x where "sessionOf r (a, g) = Some x" "Current a g r' \<Longrightarrow> Current a g r" "calm x x'"
    | (new) "calm (newSession a g) x'"
  using assms unfolding calm_reg_def by blast

lemma calm_reg_trans:
  assumes "calm_reg r r'" "calm_reg r' r''"
  shows "calm_reg r r''"
  unfolding calm_reg_def
proof (intro allI impI)
  fix a g x'' assume x'': "sessionOf r'' (a, g) = Some x''"
  show "\<exists>x. calm x x'' \<and> (sessionOf r (a, g) = Some x \<and> (Current a g r'' \<longrightarrow> Current a g r) \<or> x = newSession a g)"
    using assms(2) x''
  proof (cases rule: calm_regD)
    case (old x')
    show ?thesis
      using assms(1) old(1)
    proof (cases rule: calm_regD)
      case (old x)
      then show ?thesis using \<open>calm x' x''\<close> \<open>Current a g r'' \<Longrightarrow> Current a g r'\<close> calm_trans by blast
    next
      case new
      then show ?thesis using \<open>calm x' x''\<close> calm_trans by blast
    qed
  next
    case new
    then show ?thesis by blast
  qed
qed

lemma calm_regI:
  assumes "\<And>a g x'. sessionOf r' (a, g) = Some x' \<Longrightarrow>
    (\<exists>x. sessionOf r (a, g) = Some x \<and> calm x x' \<and> (Current a g r' \<longrightarrow> Current a g r)) \<or> x' = newSession a g"
  shows "calm_reg r r'"
  unfolding calm_reg_def using assms calmI(1) by blast

lemma calm_reg_same:
  "sessionOf r' = sessionOf r \<Longrightarrow> (\<And>a g. Current a g r' \<Longrightarrow> Current a g r) \<Longrightarrow> calm_reg r r'"
  using calmI(1) by (intro calm_regI) auto

lemma calm_reg_refl [simp]: "calm_reg r r"
  by (rule calm_reg_same) simp_all

lemma calm_on_session: "(\<And>x. calm x (f x)) \<Longrightarrow> calm_reg r (on_session key f r)"
  using calmI(1) by (intro calm_regI) (auto simp: on_session_def Current_def split: if_splits)

lemma calm_detach: "calm_reg r (Detach a g r)"
  by (rule calm_reg_same) (auto simp: Detach_def Current_def AList.delete_conv' split: if_splits)

lemma calm_abandon: "calm_reg r (abandon key r)"
  unfolding abandon_def by (rule calm_reg_trans [OF calm_on_session calm_detach]) simp

lemma calm_close_all: "calm_reg r (CloseSessions reason r)"
proof -
  have "calm x (Cancel (snd (OfferControl e x)))" for x e by (rule calm_trans [OF calmI(4) calmI(2)])
  then have one: "calm_reg r (close_session reason key r)" for key r
    unfolding close_session_def by (intro calm_on_session)
  have all: "calm_reg r (fold (close_session reason) keys r)" for keys r
    by (induction keys arbitrary: r) (auto intro: calm_reg_trans [OF one])
  have "calm_reg r (r\<lparr>closing := True\<rparr>)" by (rule calm_reg_same) (simp_all add: Current_def)
  then show ?thesis unfolding CloseSessions_def using all calm_reg_trans by blast
qed

lemma calm_attach: "calm_reg r (snd (Attach a r))"
proof (cases "closing r")
  case False
  define r1 where "r1 = (case map_of (currentGen r) a of Some old \<Rightarrow> on_session (a, old) Cancel r | None \<Rightarrow> r)"
  have r1: "calm_reg r r1" "currentGen r1 = currentGen r"
    by (auto simp: r1_def on_session_def intro!: calm_on_session [unfolded on_session_def] split: option.split)
  define g where "g = generation r a + 1"
  have "calm_reg r1 (r1\<lparr>generation := (generation r)(a := g),
      sessionOf := (sessionOf r1)((a, g) \<mapsto> newSession a g), currentGen := AList.update a g (currentGen r)\<rparr>)"
    using calmI(1) r1(2) by (intro calm_regI) (auto simp: Current_def update_conv' split: if_splits)
  moreover have "snd (Attach a r) = r1\<lparr>generation := (generation r)(a := g),
      sessionOf := (sessionOf r1)((a, g) \<mapsto> newSession a g), currentGen := AList.update a g (currentGen r)\<rparr>"
    using False by (simp add: Attach_def r1_def g_def Let_def split: option.split)
  ultimately show ?thesis using calm_reg_trans [OF r1(1)] by simp
qed (simp add: Attach_def)

lemma calm_open: "calm_reg r (fst (snd (openSession d e1 e2 hello r)))"
proof -
  have "calm_reg r (abandon key r1)" "calm_reg r (on_session key (\<lambda>x. snd (TryMarkOrphanStop x)) r1)"
    if "calm_reg r r1" for key r1
    using calm_reg_trans [OF that calm_abandon] calm_reg_trans [OF that calm_on_session] by simp_all
  then show ?thesis
    using calm_attach [of r] by (auto simp: openSession_def Let_def split_beta' split: option.split)
qed

subsection \<open>Every step keeps the invariant\<close>

lemma ctl_invD:
  assumes "ctl_inv w"
  shows "store_inv (busStore (adminBus w))" "numbered (busStore (adminBus w)) (history w)"
    "sessionOf (sessions w) (a, g) = Some x \<Longrightarrow> session_ok (busStore (adminBus w)) (history w) a x"
    "sessionOf (sessions w) (a, g) = Some x \<Longrightarrow> Current a g (sessions w) \<Longrightarrow> served (busStore (adminBus w)) (owed w) a x"
  using assms unfolding ctl_inv_def by blast+

lemma new_session_ok:
  assumes "shape s" "numbered s h"
  shows "session_ok s h a (newSession a g)" "served s ow a (newSession a g)"
proof -
  have "\<not> q \<le> 0" if "q \<in> set (pending_of s a)" for q
    using that shapeD(6) [OF assms(1), of a] assms(2) by (auto simp: numbered_def)
  then show "session_ok s h a (newSession a g)"
    by (auto simp: session_ok_def newSession_def CommandDispatchWindow_def)
  show "served s ow a (newSession a g)" by (simp add: served_def newSession_def)
qed

lemma inv_calm_reg:
  assumes w: "ctl_inv w" and r: "calm_reg (sessions w) r"
  shows "ctl_inv (w\<lparr>sessions := r\<rparr>)"
proof -
  have sh: "shape (busStore (adminBus w))" using ctl_invD(1) [OF w] by (simp add: store_inv_def)
  have "session_ok (busStore (adminBus w)) (history w) a x' \<and> (Current a g r \<longrightarrow> served (busStore (adminBus w)) (owed w) a x')"
    if "sessionOf r (a, g) = Some x'" for a g x'
    using r that
  proof (cases rule: calm_regD)
    case (old x)
    then show ?thesis using ctl_invD(3,4) [OF w] calm_session calm_served by blast
  next
    case new
    then show ?thesis using new_session_ok [OF sh ctl_invD(2) [OF w]] calm_session calm_served by blast
  qed
  then show ?thesis using ctl_invD(1,2) [OF w] by (simp add: ctl_inv_def)
qed

text \<open>A step of one session that may also settle commands in the store.\<close>

lemma inv_put:
  assumes w: "ctl_inv w" and key: "sessionOf (sessions w) key = Some x"
    and b: "store_inv (busStore b)" "settled (busStore (adminBus w)) (busStore b)"
    and x': "session_ok (busStore b) (history w) (fst key) x'"
      "Current (fst key) (snd key) (sessions w) \<Longrightarrow> served (busStore b) (owed w) (fst key) x'"
  shows "ctl_inv (w\<lparr>adminBus := b, sessions := put_session key x' (sessions w)\<rparr>)"
proof -
  have "session_ok (busStore b) (history w) a y" "Current a g (sessions w) \<Longrightarrow> served (busStore b) (owed w) a y"
    if "sessionOf (sessions w) (a, g) = Some y" for a g y
    using ctl_invD(3,4) [OF w that] settled_session [OF b(2)] settled_served [OF b(2)] by blast+
  moreover have "numbered (busStore b) (history w)" by (rule settled_numbered [OF b(2) ctl_invD(2) [OF w]])
  moreover have "Current a g (put_session key x' (sessions w)) = Current a g (sessions w)" for a g
    by (simp add: put_session_def Current_def)
  ultimately show ?thesis using b(1) x' by (cases key) (auto simp: ctl_inv_def put_session_def)
qed

lemma inv_put_calm:
  assumes w: "ctl_inv w" and key: "sessionOf (sessions w) key = Some x"
    and b: "store_inv (busStore b)" "settled (busStore (adminBus w)) (busStore b)" and c: "calm x x'"
  shows "ctl_inv (w\<lparr>adminBus := b, sessions := put_session key x' (sessions w)\<rparr>)"
proof (rule inv_put [OF w key b])
  have k: "sessionOf (sessions w) (fst key, snd key) = Some x" using key by simp
  show "session_ok (busStore b) (history w) (fst key) x'"
    by (rule calm_session [OF settled_session [OF b(2) ctl_invD(3) [OF w k]] c])
  show "served (busStore b) (owed w) (fst key) x'" if "Current (fst key) (snd key) (sessions w)"
    by (rule calm_served [OF settled_served [OF b(2) ctl_invD(4) [OF w k that]] c])
qed

lemma inv_put_here:
  "ctl_inv w \<Longrightarrow> sessionOf (sessions w) key = Some x \<Longrightarrow> calm x x' \<Longrightarrow>
   ctl_inv (w\<lparr>sessions := put_session key x' (sessions w)\<rparr>)"
  using inv_put_calm [of w key x "adminBus w" x'] ctl_invD(1) [of w] by simp

lemma send_command_effect:
  assumes "store_inv (busStore b)" "send_command owns ctx c x b = (x', b')"
  shows "calm x x' \<and> store_inv (busStore b') \<and> settled (busStore b) (busStore b')"
proof (cases "is_start c \<and> \<not> owns (sessionAgent x) (cmdTaskId c)")
  case True
  then show ?thesis
    using assms BusAcknowledge_settled [OF assms(1)]
    by (auto simp: send_command_def refuse_stale_def split: prod.splits sum.splits) (metis snd_conv)+
next
  case False
  then show ?thesis using assms by (auto simp: send_command_def calm_def)
qed

lemma WakeAgent_session:
  "sessionOf (WakeAgent a0 r) (a, g) =
    (if Current a g r \<and> a = a0 then map_option WakeCommands (sessionOf r (a, g)) else sessionOf r (a, g))"
  by (auto simp: WakeAgent_def on_session_def Current_def split: option.split)

lemma inv_announce:
  assumes w: "ctl_inv w" and ow: "owed w = xs @ c # ys" and an: "announce [c] (adminBus w, sessions w) = (b, r)"
  shows "ctl_inv (w\<lparr>adminBus := b, sessions := r, owed := xs @ ys\<rparr>)"
proof -
  have b: "busStore b = busStore (adminBus w)" and r: "r = WakeAgent (cmdAgentId c) (sessions w)" using an by auto
  have "session_ok (busStore b) (history w) a y \<and> (Current a g r \<longrightarrow> served (busStore b) (xs @ ys) a y)"
    if y: "sessionOf r (a, g) = Some y" for a g y
  proof -
    have cur: "Current a g r = Current a g (sessions w)"
      by (simp add: r WakeAgent_def Current_def on_session_def split: option.split)
    have y': "(if Current a g (sessions w) \<and> a = cmdAgentId c then map_option WakeCommands (sessionOf (sessions w) (a, g))
        else sessionOf (sessions w) (a, g)) = Some y"
      using y unfolding r WakeAgent_session .
    obtain x where x: "sessionOf (sessions w) (a, g) = Some x" "calm x y"
      "Current a g (sessions w) \<and> a = cmdAgentId c \<longrightarrow> wakeSignal y"
    proof (cases "Current a g (sessions w) \<and> a = cmdAgentId c")
      case True
      then obtain x where "sessionOf (sessions w) (a, g) = Some x" "y = WakeCommands x" using y' by auto
      then show ?thesis using that [of x] calmI(3) [of x] by (simp add: WakeCommands_def)
    next
      case False
      then have "sessionOf (sessions w) (a, g) = Some y" using y' by auto
      then show ?thesis using that [of y] calmI(1) [of y] False by blast
    qed
    have "served (busStore b) (xs @ ys) a y" if c: "Current a g (sessions w)"
    proof (cases "a = cmdAgentId c")
      case True
      then show ?thesis using x(3) c by (simp add: served_def)
    next
      case False
      have "served (busStore b) (owed w) a y" using calm_served [OF ctl_invD(4) [OF w x(1) c] x(2)] by (simp add: b)
      then show ?thesis using False by (auto simp: served_def ow)
    qed
    then show ?thesis using calm_session [OF ctl_invD(3) [OF w x(1)] x(2)] cur by (simp add: b)
  qed
  then show ?thesis using ctl_invD(1,2) [OF w] by (simp add: ctl_inv_def b)
qed

lemma log_batch_ids:
  "fold (\<lambda>c h. h(CommandId c \<mapsto> Sequence c)) cs h (CommandId d) = h (CommandId d)"
  if "CommandId d \<notin> CommandId ` set cs"
  using fold_upd_other [OF that, of Sequence h] by simp

lemma inv_log:
  assumes w: "ctl_inv w" and l: "log_batch ctx ids now storeNow cs (adminBus w) = (e, cs', b)"
    and new: "list_all (\<lambda>c. history w (CommandId c) = None) cs'"
  shows "ctl_inv (w\<lparr>adminBus := b, owed := (if e = None then owed w @ cs' else owed w),
      history := (if e = None then fold (\<lambda>c h. h(CommandId c \<mapsto> Sequence c)) cs' (history w) else history w)\<rparr>)"
proof -
  let ?s = "busStore (adminBus w)"
  obtain s' where c: "CreateBatch ctx storeNow (prepare_batch ids now cs) ?s = (e, cs', s')" "busStore b = s'"
    using l by (auto simp: log_batch_def Let_def split: prod.splits)
  have s': "store_inv s'"
    using CreateBatch_inv [OF ctl_invD(1) [OF w], of ctx storeNow "prepare_batch ids now cs"] c(1) by simp
  show ?thesis
    using ctl_invD(1) [OF w] c(1)
  proof (cases rule: CreateBatch_cases)
    case (failed err)
    have set: "settled ?s s'" using failed(2-4) unfolding settled_def by auto
    have "session_ok s' (history w) a x" "Current a g (sessions w) \<Longrightarrow> served s' (owed w) a x"
      if "sessionOf (sessions w) (a, g) = Some x" for a g x
      using ctl_invD(3,4) [OF w that] settled_session [OF set] settled_served [OF set] by blast+
    then show ?thesis
      using s' settled_numbered [OF set ctl_invD(2) [OF w]] failed(1) by (simp add: ctl_inv_def c(2))
  next
    case created
    let ?h = "fold (\<lambda>c h. h(CommandId c \<mapsto> Sequence c)) cs' (history w)"
    have ids: "distinct (map CommandId cs')" using created(5,6) by simp
    have old: "?h i = Some q" if "history w i = Some q" for i q
    proof -
      have "i \<notin> CommandId ` set cs'" using new that by (force simp: list_all_iff)
      then show ?thesis using fold_upd_other [of i CommandId cs' Sequence "history w"] that by simp
    qed
    have num: "numbered s' ?h"
      unfolding numbered_def
    proof (intro allI impI)
      fix q r assume "live s' q r"
      then consider "live ?s q r" | d where "d \<in> set cs'" "r = \<lparr>mcCommand = d, mcState = StPending\<rparr>" "q = Sequence d"
        using created(7) by blast
      then show "0 < q \<and> ?h (CommandId (mcCommand r)) = Some q"
      proof cases
        case 1
        then show ?thesis using ctl_invD(2) [OF w] old unfolding numbered_def by blast
      next
        case 2
        then show ?thesis
          using fold_upd_distinct [OF ids 2(1), of Sequence "history w"] created(3) by (force simp: list_all_iff)
      qed
    qed
    have fresh: "storeNext ?s < q" "\<exists>d \<in> set cs'. cmdAgentId d = a"
      if "q \<in> set (pending_of s' a)" "q \<notin> set (pending_of ?s a)" for q a
      using that created(2) [of a] created(3) by (auto simp: list_all_iff)
    have "session_ok s' ?h a x \<and> (Current a g (sessions w) \<longrightarrow> served s' (owed w @ cs') a x)"
      if x: "sessionOf (sessions w) (a, g) = Some x" for a g x
    proof (intro conjI impI)
      have ok: "session_ok ?s (history w) a x" by (rule ctl_invD(3) [OF w x])
      have "q \<in> Sequence ` set (fetched x)" if "q \<in> set (pending_of s' a)" "q \<le> lastSent x" for q
        using that ok fresh(1) [of q a] unfolding session_ok_def by (meson leD le_trans)
      moreover have "lastSent x \<le> storeNext s'" using ok created(4) unfolding session_ok_def by simp
      ultimately show "session_ok s' ?h a x" using ok old unfolding session_ok_def by blast
      assume "Current a g (sessions w)"
      with x have "served ?s (owed w) a x" by (rule ctl_invD(4) [OF w])
      then show "served s' (owed w @ cs') a x"
        using fresh(2) [of _ a] unfolding served_def by (metis Un_iff set_append)
    qed
    then show ?thesis using s' num created(1) by (simp add: ctl_inv_def c(2))
  qed
qed

lemma ctl_step_inv: "ctl_step w w' \<Longrightarrow> ctl_inv w \<Longrightarrow> ctl_inv w'"
proof (induction rule: ctl_step.induct)
  case (log ctx ids now storeNow cs w e cs' b)
  then show ?case by (intro inv_log)
next
  case (announce w xs c ys b r)
  then show ?case by (intro inv_announce)
next
  case (open_session d e1 e2 hello w res r calls)
  then show ?case using calm_open [of "sessions w" d e1 e2 hello] by (intro inv_calm_reg) simp_all
next
  case (detach w a g)
  then show ?case by (intro inv_calm_reg calm_detach)
next
  case (close_all w reason)
  then show ?case by (intro inv_calm_reg calm_close_all)
next
  case (cancel w key)
  then show ?case by (intro inv_calm_reg calm_on_session) simp_all
next
  case (replay w key x)
  have "calm x ((WakeCommands x)\<lparr>replayed := True\<rparr>)" by (simp add: calm_def WakeCommands_def)
  then show ?case using replay by (intro inv_put_here)
next
  case (take w key x)
  have k: "sessionOf (sessions w) (fst key, snd key) = Some x" using take by simp
  have "session_ok (busStore (adminBus w)) (history w) (fst key) (x\<lparr>wakeSignal := False, sendPos := SendReads\<rparr>)"
    using ctl_invD(3) [OF take.prems k] by (simp add: session_ok_def)
  then show ?case
    using inv_put [OF take.prems take.hyps(1) ctl_invD(1) [OF take.prems] settled_refl] by (simp add: served_def)
next
  case (read w key x ctx x' b)
  have k: "sessionOf (sessions w) (fst key, snd key) = Some x" using read by simp
  note r = read_session [OF ctl_invD(1,2) [OF read.prems] ctl_invD(3) [OF read.prems k] read.hyps(3)]
  show ?case
    using r ctl_invD(1) [OF read.prems] by (intro inv_put [OF read.prems read.hyps(1)]) simp_all
next
  case (send_one w key x c cs owns ctx x' b)
  note s = send_command_effect [OF ctl_invD(1) [OF send_one.prems] send_one.hyps(3)]
  have "calm x (x\<lparr>sendPos := SendBatch cs\<rparr>)" using send_one.hyps(2) by (auto simp: calm_def)
  then show ?case using s calm_trans by (intro inv_put_calm [OF send_one.prems send_one.hyps(1)]) blast+
next
  case (batch_sent w key x)
  then have "calm x (x\<lparr>sendPos := SendWaits\<rparr>)" by (auto simp: calm_def)
  then show ?case using batch_sent by (intro inv_put_here)
next
  case (event w key x d ctx convErr ev code x' b calls)
  show ?case
    using handleEvent_effect [OF event.hyps(2) ctl_invD(1) [OF event.prems]]
    by (intro inv_put_calm [OF event.prems event.hyps(1)]) blast+
next
  case (send_control w key x e es)
  have "calm x (x\<lparr>control := es, stream := stream x @ [e]\<rparr>)" by (auto simp: calm_def)
  then show ?case using send_control by (intro inv_put_here)
next
  case (send_heartbeat w key x hb)
  have "calm x (x\<lparr>heartbeatAck := None, stream := stream x @ [EvHeartbeatAck hb]\<rparr>)" by (auto simp: calm_def)
  then show ?case using send_heartbeat by (intro inv_put_here)
qed

lemma ctl_reachable_inv: "ctl_reachable w \<Longrightarrow> ctl_inv w"
proof (induction rule: ctl_reachable.induct)
  case (start storeCap busCap)
  have "store_inv (NewMemoryStore storeCap)" by (rule shape_new)
  then show ?case
    by (simp add: ctl_inv_def NewAdmin_def NewBus_def NewSessionRegistry_def numbered_def live_def)
       (simp add: NewMemoryStore_def)
qed (rule ctl_step_inv)

subsection \<open>Properties\<close>

text \<open>
  C5. No command is lost on its way to a session.  In every reachable state of the control plane a
  pending command of an agent has been fetched by the agent's current session, or it is still ahead
  of the session's cursor and the session will look: its wake-up signal is set, its send loop is
  about to read, its window is full (an acknowledgement will wake it), or the creation of a command
  for this agent is about to wake it.
\<close>

theorem no_command_lost:
  assumes "ctl_reachable w" "Current a g (sessions w)" "sessionOf (sessions w) (a, g) = Some x"
    and "replayed x" "\<not> canceled x" "c \<in> set (pending_commands (busStore (adminBus w)) a)"
  shows "Sequence c \<in> Sequence ` set (fetched x) \<or>
    lastSent x < Sequence c \<and>
      (wakeSignal x \<or> sendPos x = SendReads \<or> CommandCapacity x \<le> 0 \<or> a \<in> cmdAgentId ` set (owed w))"
proof -
  note inv = ctl_reachable_inv [OF assms(1)]
  have sh: "shape (busStore (adminBus w))" using ctl_invD(1) [OF inv] by (simp add: store_inv_def)
  have q: "Sequence c \<in> set (pending_of (busStore (adminBus w)) a)"
    using assms(6) pending_records(1) [OF sh, of a] by (metis imageI list.set_map)
  have ok: "Sequence c \<le> lastSent x \<Longrightarrow> Sequence c \<in> Sequence ` set (fetched x)"
    using ctl_invD(3) [OF inv assms(3)] q unfolding session_ok_def by blast
  have "wakeSignal x \<or> sendPos x = SendReads \<or> CommandCapacity x \<le> 0 \<or>
      (\<forall>q \<in> set (pending_of (busStore (adminBus w)) a). q \<le> lastSent x) \<or> a \<in> cmdAgentId ` set (owed w)"
    using ctl_invD(4) [OF inv assms(3,2)] assms(4,5) unfolding served_def by blast
  then show ?thesis using ok q by (meson not_le)
qed

text \<open>
  C9. A session delivers no command twice and keeps to its window: what it has fetched is in the
  strictly increasing order of the sequence numbers, and at most \<open>CommandDispatchWindow\<close> commands are
  in flight.
\<close>

theorem session_in_order:
  assumes "ctl_reachable w" "sessionOf (sessions w) (a, g) = Some x"
  shows "sorted_wrt (<) (map Sequence (fetched x)) \<and> int (length (inflight x)) \<le> CommandDispatchWindow"
  using ctl_invD(3) [OF ctl_reachable_inv [OF assms(1)] assms(2)] unfolding session_ok_def by blast

text \<open>
  An acknowledgement of a command the log does not hold closes the session with
  \<open>InvalidArgument\<close>.  After a restart of the admin server, whose log is in memory, this is the answer
  to every acknowledgement an agent still holds.
\<close>

lemma forgotten_ack_closes_session:
  assumes "ackAgentId ack = sessionAgent x" "ackCommandId ack \<noteq> []"
    and "map_of (busItems b) (ackCommandId ack) = None" "map_of (commands (busStore b)) (ackCommandId ack) = None"
  shows "fst (handleEvent d None convErr (EvCommandAck ack) x b) = Some InvalidArgument"
  using assms by (simp add: handleEvent_def handleCommandAck_def BusAcknowledge_def Resolve_def Get_def)

subsection \<open>Witnesses\<close>

definition sample_deps :: adminDeps where
  "sample_deps = \<lparr>ownsActiveTask = (\<lambda>a t. True), heartbeatErr = False, startTaskErr = False, reportErr = None,
     clockNow = 0, leaseDuration = 10\<rparr>"

definition sample_command :: Command where
  "sample_command = \<lparr>CommandId = ''c1'', Sequence = 0, cmdAgentId = ''a'', cmdTaskId = ''t'', CreatedAtUnixNano = 5,
     DeliveryGeneration = 0, Body = StopTask ''done''\<rparr>"

definition open_admin :: Admin where
  "open_admin = (let w = NewAdmin 10 10 in w\<lparr>sessions := fst (snd (openSession sample_deps False False
     (Some \<lparr>protocolVersion = 1, helloAgentId = ''a'', helloTaskId = []\<rparr>) (sessions w)))\<rparr>)"

definition replayed_admin :: Admin where
  "replayed_admin = open_admin\<lparr>sessions :=
     put_session (''a'', 1) ((WakeCommands (newSession ''a'' 1))\<lparr>replayed := True\<rparr>) (sessions open_admin)\<rparr>"

definition logged :: "storeError option \<times> Command list \<times> Bus" where
  "logged = log_batch None [] 0 0 [sample_command] (adminBus replayed_admin)"

definition logged_admin :: Admin where
  "logged_admin = replayed_admin\<lparr>adminBus := snd (snd logged), owed := fst (snd logged),
     history := fold (\<lambda>c h. h(CommandId c \<mapsto> Sequence c)) (fst (snd logged)) Map.empty\<rparr>"

lemma open_step: "ctl_step w (w\<lparr>sessions := fst (snd (openSession d e1 e2 hello (sessions w)))\<rparr>)"
  by (rule ctl_step.open_session [of d e1 e2 hello w "fst (openSession d e1 e2 hello (sessions w))" _
        "snd (snd (openSession d e1 e2 hello (sessions w)))"]) simp

lemma open_session_ok: "sessionOf (sessions open_admin) (''a'', 1) = Some (newSession ''a'' 1)"
  by (simp add: open_admin_def NewAdmin_def NewSessionRegistry_def openSession_def Attach_def Current_def Let_def
      controlProtocolVersion_def requireAgentID_def trim_space_def go_spaces_def trim_left.simps)

lemma logged_ok:
  "logged = (None, [sample_command\<lparr>Sequence := 1\<rparr>], adminBus logged_admin)"
  "owed logged_admin = [sample_command\<lparr>Sequence := 1\<rparr>]"
  "set (pending_commands (busStore (adminBus logged_admin)) ''a'') = {sample_command\<lparr>Sequence := 1\<rparr>}"
proof -
  show 1: "logged = (None, [sample_command\<lparr>Sequence := 1\<rparr>], adminBus logged_admin)"
    by (simp add: logged_admin_def) (simp add: logged_def replayed_admin_def open_admin_def NewAdmin_def NewBus_def
        NewMemoryStore_def log_batch_def CreateBatch_def makeRoom_def create_one_def sample_command_def Let_def)
  show "owed logged_admin = [sample_command\<lparr>Sequence := 1\<rparr>]"
    using arg_cong [OF 1, of "\<lambda>t. fst (snd t)"] by (simp add: logged_admin_def)
  show "set (pending_commands (busStore (adminBus logged_admin)) ''a'') = {sample_command\<lparr>Sequence := 1\<rparr>}"
    by (simp add: logged_admin_def) (simp add: logged_def replayed_admin_def open_admin_def NewAdmin_def NewBus_def
        NewMemoryStore_def log_batch_def CreateBatch_def makeRoom_def create_one_def sample_command_def Let_def
        pending_commands_def is_pending_for_def record_at_def pending_of_def)
qed

lemma logged_reachable: "ctl_reachable logged_admin"
proof -
  have o: "ctl_step (NewAdmin 10 10) open_admin"
    unfolding open_admin_def Let_def by (rule open_step)
  have r: "ctl_step open_admin replayed_admin"
    unfolding replayed_admin_def by (rule ctl_step.replay [OF open_session_ok]) (simp add: newSession_def)
  have h: "history replayed_admin = Map.empty" "owed replayed_admin = []"
    by (simp_all add: replayed_admin_def open_admin_def NewAdmin_def)
  have l: "log_batch None [] 0 0 [sample_command] (adminBus replayed_admin) = (None, fst (snd logged), snd (snd logged))"
    using arg_cong [OF logged_ok(1), of fst] by (simp add: logged_def) (metis prod.collapse)
  have "list_all (\<lambda>c. history replayed_admin (CommandId c) = None) (fst (snd logged))" by (simp add: h list_all_iff)
  from ctl_step.log [OF l this] have "ctl_step replayed_admin logged_admin" by (simp add: h logged_admin_def)
  then show ?thesis using o r ctl_reachable.intros by blast
qed

lemma logged_session:
  "sessionOf (sessions logged_admin) (''a'', 1) = Some ((WakeCommands (newSession ''a'' 1))\<lparr>replayed := True\<rparr>)"
  "Current ''a'' 1 (sessions logged_admin)"
proof -
  show "sessionOf (sessions logged_admin) (''a'', 1) = Some ((WakeCommands (newSession ''a'' 1))\<lparr>replayed := True\<rparr>)"
    by (simp add: logged_admin_def replayed_admin_def put_session_def)
  show "Current ''a'' 1 (sessions logged_admin)"
    by (simp add: logged_admin_def replayed_admin_def put_session_def open_admin_def NewAdmin_def NewSessionRegistry_def
        openSession_def Attach_def Current_def controlProtocolVersion_def requireAgentID_def trim_space_def go_spaces_def
        trim_left.simps)
qed

theorem no_command_lost_witness:
  "1 \<in> Sequence ` set (fetched ((WakeCommands (newSession ''a'' 1))\<lparr>replayed := True\<rparr>)) \<or>
   lastSent ((WakeCommands (newSession ''a'' 1))\<lparr>replayed := True\<rparr>) < 1"
  using no_command_lost [OF logged_reachable logged_session(2,1), of "sample_command\<lparr>Sequence := 1\<rparr>"] logged_ok(3)
  by (auto simp: WakeCommands_def newSession_def)

theorem session_in_order_witness:
  "int (length (inflight ((WakeCommands (newSession ''a'' 1))\<lparr>replayed := True\<rparr>))) \<le> 16"
  using session_in_order [OF logged_reachable logged_session(1)] by (simp add: CommandDispatchWindow_def)

end
