(* ===== verification/AgentOutbox.thy ===== *)
theory AgentOutbox
  imports CommandDelivery "HOL-Library.Multiset"
begin

text \<open>
  What an agent keeps until the admin has confirmed it: the outcomes of its commands
  (\<^verbatim>\<open>agent/command/outbox.go\<close>) and its final reports (\<^verbatim>\<open>agent/session/report_outbox.go\<close>).  Each of the two
  has a list and an index over the same entries; one association list, in the order of the list,
  stands for both.  The edge-triggered notification is a flag.
\<close>

subsection \<open>Outcomes of commands\<close>

record commandOutcome =
  outAck :: CommandAck
  outPending :: bool
  outConfirmed :: bool

record OutcomeOutbox =
  outCapacity :: nat
  outItems :: "(string \<times> commandOutcome) list"
  outNotify :: bool

definition NewOutcomeOutbox :: "int \<Rightarrow> OutcomeOutbox" where
  "NewOutcomeOutbox capacity =
    \<lparr>outCapacity = (if capacity \<le> 0 then 4096 else nat capacity), outItems = [], outNotify = False\<rparr>"

text \<open>An entry goes back to the front and waits for its confirmation again.\<close>

definition renew :: "string \<Rightarrow> commandOutcome \<Rightarrow> OutcomeOutbox \<Rightarrow> OutcomeOutbox" where
  "renew cid item ob =
    ob\<lparr>outItems := (cid, item\<lparr>outPending := True, outConfirmed := False\<rparr>) # AList.delete cid (outItems ob),
       outNotify := True\<rparr>"

definition FindAndReplay :: "string \<Rightarrow> OutcomeOutbox \<Rightarrow> CommandAck option \<times> OutcomeOutbox" where
  "FindAndReplay cid ob =
    (case map_of (outItems ob) cid of
       None \<Rightarrow> (None, ob)
     | Some item \<Rightarrow> (Some (outAck item), renew cid item ob))"

definition oldest_settled :: "(string \<times> commandOutcome) list \<Rightarrow> string option" where
  "oldest_settled xs = map_option fst (find (\<lambda>(k, item). \<not> outPending item) (rev xs))"

lemma oldest_settled_mem:
  assumes "oldest_settled xs = Some k"
  shows "\<exists>item. (k, item) \<in> set xs \<and> \<not> outPending item"
proof -
  obtain item where "find (\<lambda>(k, item). \<not> outPending item) (rev xs) = Some (k, item)"
    using assms by (auto simp: oldest_settled_def)
  then show ?thesis by (metis (mono_tags, lifting) case_prodD find_Some_iff nth_mem set_rev)
qed

lemma length_delete_less:
  assumes "k \<in> fst ` set xs"
  shows "length (AList.delete k xs) < length xs"
  using assms by (auto simp: AList.delete_eq intro!: length_filter_less)

text \<open>Room is made from the entries that are confirmed, the oldest first; \<open>None\<close>: there is no such entry.\<close>

function evict_settled :: "nat \<Rightarrow> (string \<times> commandOutcome) list \<Rightarrow> (string \<times> commandOutcome) list option" where
  "evict_settled cap xs =
    (if length xs < cap then Some xs
     else case oldest_settled xs of None \<Rightarrow> None | Some k \<Rightarrow> evict_settled cap (AList.delete k xs))"
  by auto
termination
  by (relation "measure (\<lambda>(cap, xs). length xs)")
     (auto dest!: oldest_settled_mem intro!: length_delete_less intro: rev_image_eqI)

declare evict_settled.simps [simp del]

datatype outboxError = NoCommandId | OutboxFull

definition Record :: "CommandAck \<Rightarrow> OutcomeOutbox \<Rightarrow> outboxError option \<times> OutcomeOutbox" where
  "Record ack ob =
    (if ackCommandId ack = [] then (Some NoCommandId, ob)
     else case map_of (outItems ob) (ackCommandId ack) of
       Some item \<Rightarrow> (None, renew (ackCommandId ack) item ob)
     | None \<Rightarrow>
        (case evict_settled (outCapacity ob) (outItems ob) of
           None \<Rightarrow> (Some OutboxFull, ob)
         | Some xs \<Rightarrow> (None, ob\<lparr>outItems := (ackCommandId ack,
             \<lparr>outAck = ack, outPending = True, outConfirmed = False\<rparr>) # xs, outNotify := True\<rparr>)))"

definition Snapshot :: "OutcomeOutbox \<Rightarrow> CommandAck list" where
  "Snapshot ob = map (outAck \<circ> snd) (filter (\<lambda>(k, item). outPending item) (rev (outItems ob)))"

definition Confirm :: "CommandReceipt \<Rightarrow> OutcomeOutbox \<Rightarrow> bool \<times> OutcomeOutbox" where
  "Confirm rc ob =
    (case map_of (outItems ob) (rcCommandId rc) of
       None \<Rightarrow> (False, ob)
     | Some item \<Rightarrow>
        if ackSequence (outAck item) \<noteq> rcSequence rc then (False, ob)
        else (True, ob\<lparr>outItems := (rcCommandId rc, item\<lparr>outPending := False, outConfirmed := True\<rparr>) #
                 AList.delete (rcCommandId rc) (outItems ob)\<rparr>))"

text \<open>An outcome failing for lack of room may already have lost confirmed entries in the code's loop only
  when there are more entries than the capacity, which never happens.\<close>

datatype outbox_op = OFind string | ORecord CommandAck | OConfirm CommandReceipt | OWake | OTake

fun outbox_step :: "outbox_op \<Rightarrow> OutcomeOutbox \<Rightarrow> OutcomeOutbox" where
  "outbox_step (OFind cid) ob = snd (FindAndReplay cid ob)"
| "outbox_step (ORecord ack) ob = snd (Record ack ob)"
| "outbox_step (OConfirm rc) ob = snd (Confirm rc ob)"
| "outbox_step OWake ob = ob\<lparr>outNotify := True\<rparr>"
| "outbox_step OTake ob = ob\<lparr>outNotify := False\<rparr>"

text \<open>Entries have distinct ids and carry the acknowledgement of their id; there is no more than the capacity.\<close>

definition outbox_inv :: "OutcomeOutbox \<Rightarrow> bool" where
  "outbox_inv ob \<longleftrightarrow>
     distinct (map fst (outItems ob)) \<and> length (outItems ob) \<le> outCapacity ob \<and> 0 < outCapacity ob \<and>
     (\<forall>k item. (k, item) \<in> set (outItems ob) \<longrightarrow> ackCommandId (outAck item) = k \<and> outPending item \<noteq> outConfirmed item)"

lemma front_inv:
  assumes "outbox_inv ob" "map_of (outItems ob) cid = Some item" "outAck item' = outAck item" "outPending item' \<noteq> outConfirmed item'"
  shows "outbox_inv (ob\<lparr>outItems := (cid, item') # AList.delete cid (outItems ob), outNotify := n\<rparr>)"
proof -
  have mem: "(cid, item) \<in> set (outItems ob)" using assms(2) by (rule map_of_SomeD)
  then have "cid \<in> fst ` set (outItems ob)" by force
  from length_delete_less [OF this] have "length (AList.delete cid (outItems ob)) < length (outItems ob)" .
  moreover have "set (AList.delete cid (outItems ob)) \<subseteq> set (outItems ob)" by (auto simp: AList.delete_eq)
  moreover have "distinct (map fst (AList.delete cid (outItems ob)))"
    using assms(1) by (simp add: outbox_inv_def AList.distinct_delete)
  moreover have "cid \<notin> fst ` set (AList.delete cid (outItems ob))" by (auto simp: AList.delete_eq)
  ultimately show ?thesis using assms mem unfolding outbox_inv_def by auto
qed

lemma evict_settled_spec:
  assumes "evict_settled cap xs = Some ys" "distinct (map fst xs)"
  shows "length ys < cap \<and> set ys \<subseteq> set xs \<and> distinct (map fst ys) \<and>
    (\<forall>k item. (k, item) \<in> set xs \<and> outPending item \<longrightarrow> (k, item) \<in> set ys)"
  using assms
proof (induction cap xs rule: evict_settled.induct)
  case (1 cap xs)
  show ?case
  proof (cases "length xs < cap")
    case True
    then show ?thesis using "1.prems" by (auto simp: evict_settled.simps [of cap xs])
  next
    case False
    then obtain k where k: "oldest_settled xs = Some k" "evict_settled cap (AList.delete k xs) = Some ys"
      using "1.prems"(1) by (auto simp: evict_settled.simps [of cap xs] split: option.splits)
    obtain it where it: "(k, it) \<in> set xs" "\<not> outPending it" using oldest_settled_mem [OF k(1)] by blast
    have d: "distinct (map fst (AList.delete k xs))" using "1.prems"(2) by (rule AList.distinct_delete)
    have "(k', item) \<in> set (AList.delete k xs)" if "(k', item) \<in> set xs" "outPending item" for k' item
      using that it "1.prems"(2) by (auto simp: AList.delete_eq dest: eq_key_imp_eq_value)
    then show ?thesis using "1.IH" [OF False k(1) k(2) d] by (auto simp: AList.delete_eq)
  qed
qed

lemma Record_inv: "outbox_inv ob \<Longrightarrow> outbox_inv (snd (Record ack ob))"
proof -
  assume ob: "outbox_inv ob"
  consider (old) item where "map_of (outItems ob) (ackCommandId ack) = Some item" "ackCommandId ack \<noteq> []"
    | (new) ys where "map_of (outItems ob) (ackCommandId ack) = None" "ackCommandId ack \<noteq> []"
      "evict_settled (outCapacity ob) (outItems ob) = Some ys"
    | (same) "ackCommandId ack = [] \<or> map_of (outItems ob) (ackCommandId ack) = None \<and>
        evict_settled (outCapacity ob) (outItems ob) = None"
    by (metis option.exhaust)
  then show ?thesis
  proof cases
    case (old item)
    then show ?thesis using front_inv [OF ob old(1)] by (simp add: Record_def renew_def)
  next
    case (new ys)
    have "distinct (map fst (outItems ob))" using ob by (simp add: outbox_inv_def)
    note e = evict_settled_spec [OF new(3) this]
    have "ackCommandId ack \<notin> fst ` set ys" using e new(1) by (force simp: map_of_eq_None_iff)
    then show ?thesis using ob e new by (auto simp: Record_def outbox_inv_def)
  qed (use ob in \<open>auto simp: Record_def\<close>)
qed

lemma Confirm_inv: "outbox_inv ob \<Longrightarrow> outbox_inv (snd (Confirm rc ob))"
  using front_inv [of ob "rcCommandId rc" _ _ "outNotify ob"]
  by (auto simp: Confirm_def split: option.split)

lemma Find_inv: "outbox_inv ob \<Longrightarrow> outbox_inv (snd (FindAndReplay cid ob))"
  using front_inv [of ob cid] by (auto simp: FindAndReplay_def renew_def split: option.split)

interpretation outbox: op_system outbox_step outbox_inv "\<lambda>_. True"
proof
  fix ob op assume "outbox_inv ob"
  then show "outbox_inv (outbox_step op ob)"
    by (cases op) (simp_all add: Record_inv Confirm_inv Find_inv, auto simp: outbox_inv_def)
qed

text \<open>An outcome that waits for its confirmation is kept, unchanged, by every other operation.\<close>

definition kept :: "CommandAck \<Rightarrow> OutcomeOutbox \<Rightarrow> bool" where
  "kept ack ob \<longleftrightarrow> (\<exists>item. map_of (outItems ob) (ackCommandId ack) = Some item \<and> outAck item = ack \<and> outPending item)"

lemma kept_Snapshot:
  assumes "outbox_inv ob"
  shows "ack \<in> set (Snapshot ob) \<longleftrightarrow> kept ack ob"
proof
  assume "ack \<in> set (Snapshot ob)"
  then obtain k item where i: "(k, item) \<in> set (outItems ob)" "outPending item" "outAck item = ack"
    by (auto simp: Snapshot_def)
  then have "map_of (outItems ob) (ackCommandId ack) = Some item"
    using assms by (auto simp: outbox_inv_def)
  then show "kept ack ob" using i by (auto simp: kept_def)
next
  assume "kept ack ob"
  then obtain item where "(ackCommandId ack, item) \<in> set (outItems ob)" "outAck item = ack" "outPending item"
    by (auto simp: kept_def dest: map_of_SomeD)
  then show "ack \<in> set (Snapshot ob)" by (force simp: Snapshot_def)
qed

fun confirms :: "CommandAck \<Rightarrow> outbox_op \<Rightarrow> bool" where
  "confirms ack (OConfirm rc) \<longleftrightarrow> rcCommandId rc = ackCommandId ack \<and> rcSequence rc = ackSequence ack"
| "confirms ack _ \<longleftrightarrow> False"

lemma kept_renew: "kept ack ob \<Longrightarrow> map_of (outItems ob) cid = Some item \<Longrightarrow> kept ack (renew cid item ob)"
  by (auto simp: kept_def renew_def AList.delete_conv')

lemma kept_step:
  assumes "outbox_inv ob" "kept ack ob" "\<not> confirms ack op"
  shows "kept ack (outbox_step op ob)"
proof (cases op)
  case (OFind cid)
  then show ?thesis using assms kept_renew by (auto simp: FindAndReplay_def split: option.split)
next
  case (ORecord a)
  have d: "distinct (map fst (outItems ob))" using assms(1) by (simp add: outbox_inv_def)
  have "kept ack (ob\<lparr>outItems := (ackCommandId a, x) # ys, outNotify := True\<rparr>)"
    if ys: "evict_settled (outCapacity ob) (outItems ob) = Some ys" and a: "map_of (outItems ob) (ackCommandId a) = None"
    for ys x
  proof -
    obtain item where item: "map_of (outItems ob) (ackCommandId ack) = Some item" "outAck item = ack" "outPending item"
      using assms(2) by (auto simp: kept_def)
    note e = evict_settled_spec [OF ys d]
    have "(ackCommandId ack, item) \<in> set ys" using e item by (blast dest: map_of_SomeD)
    then show ?thesis using e item a by (auto simp: kept_def)
  qed
  then show ?thesis using ORecord assms(2) kept_renew by (auto simp: Record_def split: option.split)
next
  case (OConfirm rc)
  then show ?thesis
    using assms(2,3) by (auto simp: kept_def Confirm_def AList.delete_conv' split: option.split)
qed (use assms in \<open>auto simp: kept_def\<close>)

subsection \<open>Final reports\<close>

text \<open>
  A report is known by its id; the channel on which its sender waits is known by the number of the
  offer that made it.  \<open>resolved\<close> are the results sent on the channels.
\<close>

record pendingReport =
  pendReport :: FinalReport
  pendDone :: nat

record ReportOutbox =
  repCapacity :: nat
  repItems :: "(string \<times> pendingReport) list"
  repNotify :: bool
  repChannels :: nat
  resolved :: "(nat \<times> string option) list"

definition NewReportOutbox :: "int \<Rightarrow> ReportOutbox" where
  "NewReportOutbox capacity =
    \<lparr>repCapacity = (if capacity \<le> 0 then 128 else nat capacity), repItems = [], repNotify = False,
     repChannels = 0, resolved = []\<rparr>"

text \<open>\<open>None\<close>: the outbox is full.\<close>

definition Offer :: "FinalReport \<Rightarrow> ReportOutbox \<Rightarrow> nat option \<times> ReportOutbox" where
  "Offer rep ob =
    (case map_of (repItems ob) (frReportId rep) of
       Some p \<Rightarrow> (Some (pendDone p), ob)
     | None \<Rightarrow>
        if length (repItems ob) \<ge> repCapacity ob then (None, ob)
        else (Some (repChannels ob), ob\<lparr>repItems := repItems ob @ [(frReportId rep, \<lparr>pendReport = rep, pendDone = repChannels ob\<rparr>)],
                repChannels := repChannels ob + 1, repNotify := True\<rparr>))"

definition ReportSnapshot :: "ReportOutbox \<Rightarrow> FinalReport list" where
  "ReportSnapshot ob = map (pendReport \<circ> snd) (repItems ob)"

definition AcknowledgeReport :: "ReportAck \<Rightarrow> ReportOutbox \<Rightarrow> ReportOutbox" where
  "AcknowledgeReport ack ob =
    (case map_of (repItems ob) (rkReportId ack) of
       None \<Rightarrow> ob
     | Some p \<Rightarrow> ob\<lparr>repItems := AList.delete (rkReportId ack) (repItems ob),
         resolved := resolved ob @ [(pendDone p, if rkAccepted ack then None else Some (rkReason ack))]\<rparr>)"

datatype report_op = ROffer FinalReport | RAck ReportAck | RWake | RTake

fun report_step :: "report_op \<Rightarrow> ReportOutbox \<Rightarrow> ReportOutbox" where
  "report_step (ROffer rep) ob = snd (Offer rep ob)"
| "report_step (RAck ack) ob = AcknowledgeReport ack ob"
| "report_step RWake ob = ob\<lparr>repNotify := True\<rparr>"
| "report_step RTake ob = ob\<lparr>repNotify := False\<rparr>"

text \<open>Every offer that was taken waits for its acknowledgement or has got exactly one result.\<close>

definition report_inv :: "ReportOutbox \<Rightarrow> bool" where
  "report_inv ob \<longleftrightarrow>
     distinct (map fst (repItems ob)) \<and> length (repItems ob) \<le> repCapacity ob \<and>
     mset (map (pendDone \<circ> snd) (repItems ob)) + mset (map fst (resolved ob)) = mset [0..<repChannels ob]"

lemma mset_delete:
  assumes "distinct (map fst xs)" "map_of xs k = Some p"
  shows "mset (map (f \<circ> snd) xs) = add_mset (f p) (mset (map (f \<circ> snd) (AList.delete k xs)))"
  using assms by (induction xs) (auto simp: AList.delete_idem split: if_splits)

lemma length_delete_le2: "length (AList.delete k xs) \<le> length xs"
  by (simp add: AList.delete_eq)

interpretation reports: op_system report_step report_inv "\<lambda>_. True"
proof
  fix ob op assume ob: "report_inv ob"
  show "report_inv (report_step op ob)"
  proof (cases op)
    case (ROffer rep)
    then show ?thesis
      using ob by (auto simp: report_inv_def Offer_def map_of_eq_None_iff simp del: mset_upt split: option.split)
  next
    case (RAck ack)
    then show ?thesis
      using ob mset_delete [of "repItems ob" "rkReportId ack" _ pendDone] length_delete_le2 [of "rkReportId ack" "repItems ob"]
      by (auto simp: report_inv_def AcknowledgeReport_def AList.distinct_delete simp del: mset_upt split: option.split)
  qed (use ob in \<open>auto simp: report_inv_def\<close>)
qed

subsection \<open>Properties\<close>

text \<open>
  C8. An outcome that the admin has not confirmed is never lost or altered: whatever is recorded,
  replayed and confirmed besides, and however full the outbox gets, it stays among the outcomes sent
  on every new session until a receipt with its id and sequence number arrives.
\<close>

theorem unconfirmed_outcome_kept:
  assumes "ack \<in> set (Snapshot (fold outbox_step before (NewOutcomeOutbox capacity)))"
    and "list_all (\<lambda>op. \<not> confirms ack op) after"
  shows "ack \<in> set (Snapshot (fold outbox_step (before @ after) (NewOutcomeOutbox capacity)))"
proof -
  let ?ob = "fold outbox_step before (NewOutcomeOutbox capacity)"
  have "outbox_inv (NewOutcomeOutbox capacity)" by (auto simp: outbox_inv_def NewOutcomeOutbox_def)
  then have ob: "outbox_inv ?ob" by (rule outbox.run_inv) (simp add: list_all_iff)
  have "kept ack (fold outbox_step after ?ob)"
    using ob
  proof (rule outbox.run_induct)
    show "kept ack ?ob" using assms(1) kept_Snapshot [OF ob] by simp
    show "kept ack (outbox_step op t)" if "outbox_inv t" "kept ack t" "op \<in> set after" for op t
      using that assms(2) kept_step by (auto simp: list_all_iff)
  qed (simp add: list_all_iff)
  moreover have "outbox_inv (fold outbox_step after ?ob)" by (rule outbox.run_inv [OF ob]) (simp add: list_all_iff)
  ultimately show ?thesis using kept_Snapshot by simp
qed

definition sample_ack :: CommandAck where
  "sample_ack = \<lparr>ackCommandId = ''c1'', ackSequence = 1, ackAgentId = ''a'', ackTaskId = ''t'', ackStatus = AckApplied,
     ackReason = []\<rparr>"

theorem unconfirmed_outcome_kept_witness:
  "sample_ack \<in> set (Snapshot (fold outbox_step ([ORecord sample_ack] @
      [OConfirm \<lparr>rcCommandId = ''c1'', rcSequence = 2\<rparr>, ORecord (sample_ack\<lparr>ackCommandId := ''c2''\<rparr>)]) (NewOutcomeOutbox 1)))"
proof (rule unconfirmed_outcome_kept)
  show "sample_ack \<in> set (Snapshot (fold outbox_step [ORecord sample_ack] (NewOutcomeOutbox 1)))" by code_simp
  show "list_all (\<lambda>op. \<not> confirms sample_ack op)
      [OConfirm \<lparr>rcCommandId = ''c1'', rcSequence = 2\<rparr>, ORecord (sample_ack\<lparr>ackCommandId := ''c2''\<rparr>)]" by code_simp
qed

end
