(* ===== verification/AgentExec.thy ===== *)
theory AgentExec
  imports AgentOutbox
begin

text \<open>
  The command executor of an agent (\<^verbatim>\<open>agent/command/executor.go\<close>) with the task slot it drives
  (\<^verbatim>\<open>agent/app.go\<close>, \<^verbatim>\<open>agent/task/convert.go\<close>).  Commands are taken from one queue by one goroutine; the
  download and launch of a task runs beside it, the tasks themselves run beside both, and sessions,
  leases and the process may end at any time.  One step is what a goroutine does between two
  points at which another one can intervene: what happens under a lock, one operation of the
  outbox, one operation on a channel.  What a download, a submission to the goroutine pool or a
  \<^verbatim>\<open>select\<close> with several ready cases yields is an argument of the step.
\<close>

subsection \<open>Errors\<close>

datatype execError = TargetMismatch | CurrentTask string | UnknownCommand | AlreadyRunning string
  | AssignmentMissing | TaskIdMissing | BadCounts | BadBundle | NegativeStart
  | AgentShuttingDown | TaskBusy string | ReservationLost | StopRequested string | SessionInterrupted
  | ContextCanceled | DeadlineExceeded | RpcStatus nat string | SubmitFailed execError | OtherError string

text \<open>\<^verbatim>\<open>status.Code\<close> looks through wrapped errors; an error without a status has code Unknown.\<close>

fun status_code :: "execError \<Rightarrow> nat" where
  "status_code (RpcStatus c m) = c"
| "status_code (SubmitFailed e) = status_code e"
| "status_code _ = 2"

fun context_error :: "execError \<Rightarrow> bool" where
  "context_error ContextCanceled \<longleftrightarrow> True"
| "context_error DeadlineExceeded \<longleftrightarrow> True"
| "context_error (SubmitFailed e) \<longleftrightarrow> context_error e"
| "context_error _ \<longleftrightarrow> False"

definition isTransientCommandError :: "execError \<Rightarrow> bool" where
  "isTransientCommandError e \<longleftrightarrow> context_error e \<or> status_code e \<in> {1, 4, 14}"

subsection \<open>Assignments\<close>

record Assignment =
  asTaskID :: string
  asStartNumber :: int
  asStartIndex :: int
  asTotalBots :: int
  asConcurrentNum :: int
  asBundleDigest :: "nat list"
  asBundleSize :: int

definition Validate :: "Assignment \<Rightarrow> execError option" where
  "Validate a = (if asStartIndex a < 0 then Some NegativeStart else None)"

definition FromProto :: "TaskAssignment option \<Rightarrow> BundleDescriptor option \<Rightarrow> execError + Assignment" where
  "FromProto srcp bundle =
    (case srcp of
       None \<Rightarrow> Inl AssignmentMissing
     | Some src \<Rightarrow>
        if taTaskId src = [] then Inl TaskIdMissing
        else if taStartIndex src < 0 \<or> taTotalBots src \<le> 0 \<or> taConcurrentNum src < 0 then Inl BadCounts
        else case bundle of
          None \<Rightarrow> Inl BadBundle
        | Some b \<Rightarrow>
           if length (Sha256 b) \<noteq> 32 \<or> bdSize b \<le> 0 then Inl BadBundle
           else let out = \<lparr>asTaskID = taTaskId src, asStartNumber = taStartNumber src,
                  asStartIndex = taStartIndex src, asTotalBots = taTotalBots src,
                  asConcurrentNum = taConcurrentNum src, asBundleDigest = Sha256 b, asBundleSize = bdSize b\<rparr>
             in (case Validate out of None \<Rightarrow> Inr out | Some e \<Rightarrow> Inl e))"

subsection \<open>The agent process\<close>

text \<open>A request remembers the session that delivered it.\<close>

record commandRequest =
  rqSession :: nat
  rqCmd :: Command

text \<open>What is left of \<open>completeStart\<close>.\<close>

datatype completion = PubOutcome CommandAck | PubDone | NoOutcome | Requeue commandRequest

text \<open>Where the goroutine of a start command is.  The reservation is the task context it holds.\<close>

datatype jobPos = JFetching | JFetched "execError option" | JLaunch | JLaunched "execError option"
  | JComplete completion

record startJob =
  jbReq :: commandRequest
  jbAck :: CommandAck
  jbRes :: nat
  jbTask :: Assignment
  jbPos :: jobPos

datatype execPos = XIdle | XBody commandRequest | XBegin commandRequest | XStart commandRequest
  | XReserve commandRequest Assignment | XComplete commandRequest completion | XFinish commandRequest CommandAck

text \<open>
  \<open>curTask\<close> is the reserved assignment with the number of its context; \<open>causes\<close> are the causes
  with which contexts were cancelled.  \<open>launchedRes\<close>, \<open>launches\<close> and \<open>published\<close> only record what
  happened: the reservations and the commands with their tasks that were launched, and the outcomes.
\<close>

record AgentRt =
  rtId :: string
  errText :: "execError \<Rightarrow> string"
  curTask :: "(nat \<times> Assignment) option"
  rtShuttingDown :: bool
  causes :: "nat \<rightharpoonup> execError"
  nextRes :: nat
  rootCanceled :: bool
  deadSession :: "nat \<Rightarrow> bool"
  shutdownPrep :: "string \<times> nat"
  stopTriggered :: bool
  outcomes :: OutcomeOutbox
  execQueue :: "commandRequest list"
  inflight :: "string list"
  deferredReq :: "string \<rightharpoonup> commandRequest"
  execPos :: execPos
  jobs :: "startJob list"
  runningTasks :: "(nat \<times> Assignment) list"
  launchedRes :: "nat list"
  launches :: "(Command \<times> Assignment) list"
  published :: "(Command \<times> CommandAck) list"

definition NewAgent :: "string \<Rightarrow> (execError \<Rightarrow> string) \<Rightarrow> AgentRt" where
  "NewAgent aid txt =
    \<lparr>rtId = aid, errText = txt, curTask = None, rtShuttingDown = False, causes = Map.empty, nextRes = 0,
     rootCanceled = False, deadSession = (\<lambda>_. False), shutdownPrep = ([], 0), stopTriggered = False,
     outcomes = NewOutcomeOutbox 4096, execQueue = [], inflight = [], deferredReq = Map.empty,
     execPos = XIdle, jobs = [], runningTasks = [], launchedRes = [], launches = [], published = []\<rparr>"

subsection \<open>The task slot\<close>

text \<open>The first cause of a context is its cause; the contexts of tasks derive from that of the process.\<close>

definition cause_of :: "AgentRt \<Rightarrow> nat \<Rightarrow> execError option" where
  "cause_of w r = (case causes w r of Some c \<Rightarrow> Some c | None \<Rightarrow> if rootCanceled w then Some ContextCanceled else None)"

definition cancel_ctx :: "nat \<Rightarrow> execError \<Rightarrow> AgentRt \<Rightarrow> AgentRt" where
  "cancel_ctx r c w = (if cause_of w r = None then w\<lparr>causes := (causes w)(r \<mapsto> c)\<rparr> else w)"

text \<open>Cancelling the process leaves the causes of the contexts that were cancelled before.\<close>

definition CancelControlPlane :: "AgentRt \<Rightarrow> AgentRt" where
  "CancelControlPlane w = w\<lparr>rootCanceled := True\<rparr>"

definition cancelTask :: "string \<Rightarrow> string \<Rightarrow> AgentRt \<Rightarrow> string \<times> bool \<times> AgentRt" where
  "cancelTask expected reason w =
    (case curTask w of
       None \<Rightarrow> ([], False, w)
     | Some (r, task) \<Rightarrow>
        if expected \<noteq> [] \<and> expected \<noteq> asTaskID task then (asTaskID task, False, w)
        else (asTaskID task, True, cancel_ctx r (StopRequested reason) w))"

definition runtimeState :: "AgentRt \<Rightarrow> runtimeStatus \<times> string \<times> int" where
  "runtimeState w =
    (case curTask w of
       Some (r, task) \<Rightarrow> (StatusBusy, asTaskID task, asTotalBots task)
     | None \<Rightarrow> (StatusIdle, [], 0))"

definition reserveTask :: "Assignment \<Rightarrow> AgentRt \<Rightarrow> (execError + nat) \<times> AgentRt" where
  "reserveTask task w =
    (if rtShuttingDown w then (Inl AgentShuttingDown, w)
     else case curTask w of
       Some (r, t) \<Rightarrow> (Inl (TaskBusy (asTaskID t)), w)
     | None \<Rightarrow> (Inr (nextRes w), w\<lparr>curTask := Some (nextRes w, task), nextRes := nextRes w + 1\<rparr>))"

definition release_slot :: "nat \<Rightarrow> AgentRt \<Rightarrow> AgentRt" where
  "release_slot r w = (if map_option fst (curTask w) = Some r then w\<lparr>curTask := None\<rparr> else w)"

definition releaseReservedTask :: "nat \<Rightarrow> execError \<Rightarrow> AgentRt \<Rightarrow> AgentRt" where
  "releaseReservedTask r c w = release_slot r (cancel_ctx r c w)"

definition launchReservedTask ::
  "nat \<Rightarrow> Command \<Rightarrow> Assignment \<Rightarrow> execError option \<Rightarrow> AgentRt \<Rightarrow> execError option \<times> AgentRt" where
  "launchReservedTask r cmd task submitErr w =
    (if map_option fst (curTask w) \<noteq> Some r then (Some ReservationLost, w)
     else case cause_of w r of
       Some c \<Rightarrow> (Some c, w)
     | None \<Rightarrow>
        (case submitErr of
           Some e \<Rightarrow> (Some (SubmitFailed e), releaseReservedTask r e w)
         | None \<Rightarrow> (None, w\<lparr>runningTasks := (r, task) # runningTasks w, launchedRes := r # launchedRes w,
               launches := (cmd, task) # launches w\<rparr>)))"

text \<open>The deferred function of \<open>executeTask\<close>, when the task has stopped its robots and reported.\<close>

definition executeTask_end :: "nat \<Rightarrow> AgentRt \<Rightarrow> AgentRt" where
  "executeTask_end r w =
    (let w1 = cancel_ctx r ContextCanceled (release_slot r w)
     in w1\<lparr>runningTasks := filter (\<lambda>(r', t). r' \<noteq> r) (runningTasks w1)\<rparr>)"

definition prepareShutdown :: "string \<Rightarrow> nat \<Rightarrow> AgentRt \<Rightarrow> AgentRt" where
  "prepareShutdown cid sq w = w\<lparr>shutdownPrep := (cid, sq)\<rparr>"

definition confirmShutdown :: "string \<Rightarrow> nat \<Rightarrow> AgentRt \<Rightarrow> AgentRt" where
  "confirmShutdown cid sq w =
    (if shutdownPrep w = (cid, sq) then w\<lparr>shutdownPrep := ([], 0), stopTriggered := True\<rparr> else w)"

text \<open>The receive loop's \<open>CommandReceipt\<close> branch.\<close>

definition handleReceipt :: "CommandReceipt \<Rightarrow> AgentRt \<Rightarrow> AgentRt" where
  "handleReceipt rc w =
    (let (ok, ob) = Confirm rc (outcomes w); w1 = w\<lparr>outcomes := ob\<rparr>
     in if ok then confirmShutdown (rcCommandId rc) (rcSequence rc) w1 else w1)"

definition begin_shutdown :: "AgentRt \<Rightarrow> AgentRt" where
  "begin_shutdown w = snd (snd (cancelTask [] ''agent shutdown'' (w\<lparr>stopTriggered := True, rtShuttingDown := True\<rparr>)))"

subsection \<open>The executor\<close>

definition outcome_of :: "AgentRt \<Rightarrow> Command \<Rightarrow> CommandAckStatus \<Rightarrow> string \<Rightarrow> CommandAck" where
  "outcome_of w c st reason =
    \<lparr>ackCommandId = CommandId c, ackSequence = Sequence c, ackAgentId = rtId w, ackTaskId = cmdTaskId c,
     ackStatus = st, ackReason = reason\<rparr>"

definition rejected :: "AgentRt \<Rightarrow> Command \<Rightarrow> execError \<Rightarrow> CommandAck" where
  "rejected w c e = outcome_of w c AckRejected (errText w e)"

definition is_shutdown :: "Command \<Rightarrow> bool" where
  "is_shutdown c = (case Body c of Shutdown r \<Rightarrow> True | _ \<Rightarrow> False)"

definition finish :: "commandRequest \<Rightarrow> CommandAck \<Rightarrow> AgentRt \<Rightarrow> AgentRt" where
  "finish rq ack w =
    (let w1 = (if is_shutdown (rqCmd rq) \<and> ackStatus ack = AckApplied
               then prepareShutdown (CommandId (rqCmd rq)) (Sequence (rqCmd rq)) w else w);
         (err, ob) = Record ack (outcomes w1);
         w2 = w1\<lparr>outcomes := ob\<rparr>
     in if err \<noteq> None then CancelControlPlane w2
        else w2\<lparr>published := (rqCmd rq, ack) # published w2\<rparr>)"

text \<open>\<open>execute\<close> up to the lookup of an earlier outcome.\<close>

definition take_request :: "AgentRt \<Rightarrow> AgentRt" where
  "take_request w =
    (case execQueue w of
       [] \<Rightarrow> w
     | rq # rest \<Rightarrow>
        (let w1 = w\<lparr>execQueue := rest\<rparr>; c = rqCmd rq
         in if cmdAgentId c \<noteq> rtId w then w1\<lparr>execPos := XFinish rq (rejected w c TargetMismatch)\<rparr>
            else let (prev, ob) = FindAndReplay (CommandId c) (outcomes w1); w2 = w1\<lparr>outcomes := ob\<rparr>
              in if prev \<noteq> None then w2
                 else if is_start c then w2\<lparr>execPos := XBegin rq\<rparr>
                 else w2\<lparr>execPos := XBody rq\<rparr>))"

text \<open>The commands other than a start; a transient error leaves the command without an outcome.\<close>

definition execute_body :: "commandRequest \<Rightarrow> AgentRt \<Rightarrow> AgentRt" where
  "execute_body rq w =
    (let c = rqCmd rq;
         (err, w1) = (case Body c of
            StopTask reason \<Rightarrow>
              (let (current, canceled, w1) = cancelTask (cmdTaskId c) reason w
               in (if \<not> canceled \<and> current \<noteq> [] then Some (CurrentTask current) else None, w1))
          | Shutdown reason \<Rightarrow> (None, w)
          | _ \<Rightarrow> (Some UnknownCommand, w))
     in case err of
          None \<Rightarrow> w1\<lparr>execPos := XFinish rq (outcome_of w c AckApplied [])\<rparr>
        | Some e \<Rightarrow> if isTransientCommandError e then w1\<lparr>execPos := XIdle\<rparr>
            else w1\<lparr>execPos := XFinish rq (rejected w c e)\<rparr>)"

text \<open>\<open>beginStart\<close>: the inflight lock, the checks against the running task, the reservation.\<close>

definition begin_inflight :: "commandRequest \<Rightarrow> AgentRt \<Rightarrow> AgentRt" where
  "begin_inflight rq w =
    (let cid = CommandId (rqCmd rq)
     in if cid \<in> set (inflight w) then w\<lparr>deferredReq := (deferredReq w)(cid \<mapsto> rq), execPos := XIdle\<rparr>
        else w\<lparr>inflight := cid # inflight w, execPos := XStart rq\<rparr>)"

definition start_parts :: "Command \<Rightarrow> TaskAssignment option \<times> BundleDescriptor option" where
  "start_parts c = (case Body c of StartTask a b \<Rightarrow> (a, b) | _ \<Rightarrow> (None, None))"

definition begin_checks :: "commandRequest \<Rightarrow> AgentRt \<Rightarrow> AgentRt" where
  "begin_checks rq w =
    (let c = rqCmd rq; (st, current, bots) = runtimeState w
     in if current = cmdTaskId c \<and> current \<noteq> []
        then w\<lparr>execPos := XComplete rq (PubOutcome (outcome_of w c AckDuplicate []))\<rparr>
        else if current \<noteq> [] then w\<lparr>execPos := XComplete rq (PubOutcome (rejected w c (AlreadyRunning current)))\<rparr>
        else case FromProto (fst (start_parts c)) (snd (start_parts c)) of
          Inl e \<Rightarrow> w\<lparr>execPos := XComplete rq (PubOutcome (rejected w c e))\<rparr>
        | Inr domain \<Rightarrow> w\<lparr>execPos := XReserve rq domain\<rparr>)"

definition begin_reserve :: "execError option \<Rightarrow> commandRequest \<Rightarrow> Assignment \<Rightarrow> AgentRt \<Rightarrow> AgentRt" where
  "begin_reserve submitErr rq domain w =
    (let c = rqCmd rq
     in case reserveTask domain w of
          (Inl e, w1) \<Rightarrow> w1\<lparr>execPos := XComplete rq (PubOutcome (rejected w c e))\<rparr>
        | (Inr r, w1) \<Rightarrow>
           (case submitErr of
              Some e \<Rightarrow> (releaseReservedTask r e w1)\<lparr>execPos := XComplete rq (PubOutcome (rejected w c e))\<rparr>
            | None \<Rightarrow> w1\<lparr>execPos := XIdle,
                jobs := \<lparr>jbReq = rq, jbAck = outcome_of w c AckApplied [], jbRes = r, jbTask = domain,
                         jbPos = JFetching\<rparr> # jobs w1\<rparr>))"

text \<open>One step of \<open>completeStart\<close>; \<open>None\<close>: it returns.  \<open>leave\<close> is the choice between two ready cases.\<close>

definition forget_start :: "string \<Rightarrow> AgentRt \<Rightarrow> AgentRt" where
  "forget_start cid w = w\<lparr>deferredReq := (deferredReq w)(cid := None), inflight := remove1 cid (inflight w)\<rparr>"

fun completeStart :: "bool \<Rightarrow> commandRequest \<Rightarrow> completion \<Rightarrow> AgentRt \<Rightarrow> completion option \<times> AgentRt" where
  "completeStart leave rq (PubOutcome ack) w = (Some PubDone, finish rq ack w)"
| "completeStart leave rq PubDone w = (None, forget_start (CommandId (rqCmd rq)) w)"
| "completeStart leave rq NoOutcome w =
    (map_option Requeue (deferredReq w (CommandId (rqCmd rq))), forget_start (CommandId (rqCmd rq)) w)"
| "completeStart leave rq (Requeue retry) w =
    (if deadSession w (rqSession retry) \<and> (leave \<or> length (execQueue w) \<ge> 64) then (None, w)
     else if length (execQueue w) < 64 then (None, w\<lparr>execQueue := execQueue w @ [retry]\<rparr>)
     else (Some (Requeue retry), w))"

fun executor_step :: "execError option \<Rightarrow> bool \<Rightarrow> AgentRt \<Rightarrow> AgentRt" where
  "executor_step env leave w =
    (case execPos w of
       XIdle \<Rightarrow> take_request w
     | XBody rq \<Rightarrow> execute_body rq w
     | XBegin rq \<Rightarrow> begin_inflight rq w
     | XStart rq \<Rightarrow> begin_checks rq w
     | XReserve rq domain \<Rightarrow> begin_reserve env rq domain w
     | XFinish rq ack \<Rightarrow> (finish rq ack w)\<lparr>execPos := XIdle\<rparr>
     | XComplete rq cp \<Rightarrow>
        (case completeStart leave rq cp w of
           (None, w1) \<Rightarrow> w1\<lparr>execPos := XIdle\<rparr>
         | (Some cp', w1) \<Rightarrow> w1\<lparr>execPos := XComplete rq cp'\<rparr>))"

text \<open>
  One step of the goroutine of a start.  When the session that delivered the command is gone, its
  interruption has run before the download is looked at; \<open>job_interrupt\<close> is the earlier case.
  A launch skipped because the context is cancelled leaves that cause as the error: it is still the
  cause when \<open>JLaunched\<close> asks for it.
\<close>

definition interrupted :: "startJob \<Rightarrow> AgentRt \<Rightarrow> AgentRt" where
  "interrupted j w =
    (if deadSession w (rqSession (jbReq j)) then cancel_ctx (jbRes j) SessionInterrupted w else w)"

definition job_step :: "execError option \<Rightarrow> bool \<Rightarrow> startJob \<Rightarrow> AgentRt \<Rightarrow> startJob option \<times> AgentRt" where
  "job_step env leave j w =
    (case jbPos j of
       JFetching \<Rightarrow> (Some (j\<lparr>jbPos := JFetched env\<rparr>), interrupted j w)
     | JFetched err \<Rightarrow>
        (Some (j\<lparr>jbPos := (case (err, cause_of w (jbRes j)) of
            (None, None) \<Rightarrow> JLaunch
          | (None, Some c) \<Rightarrow> JLaunched (Some c)
          | (Some e, _) \<Rightarrow> JLaunched (Some e))\<rparr>), w)
     | JLaunch \<Rightarrow>
        (let (err, w1) = launchReservedTask (jbRes j) (rqCmd (jbReq j)) (jbTask j) env w
         in (Some (j\<lparr>jbPos := JLaunched err\<rparr>), w1))
     | JLaunched err \<Rightarrow>
        (case (case cause_of w (jbRes j) of Some c \<Rightarrow> Some c | None \<Rightarrow> err) of
           None \<Rightarrow> (Some (j\<lparr>jbPos := JComplete (PubOutcome (jbAck j))\<rparr>), w)
         | Some c \<Rightarrow>
            (Some (j\<lparr>jbPos := JComplete (if c = SessionInterrupted \<or> isTransientCommandError c then NoOutcome
                                        else PubOutcome (rejected w (rqCmd (jbReq j)) c))\<rparr>),
             releaseReservedTask (jbRes j) c w))
     | JComplete cp \<Rightarrow>
        (case completeStart leave (jbReq j) cp w of
           (None, w1) \<Rightarrow> (None, w1)
         | (Some cp', w1) \<Rightarrow> (Some (j\<lparr>jbPos := JComplete cp'\<rparr>), w1)))"

definition run_job :: "execError option \<Rightarrow> bool \<Rightarrow> nat \<Rightarrow> AgentRt \<Rightarrow> AgentRt" where
  "run_job env choice i w =
    (if i < length (jobs w)
     then case job_step env choice (jobs w ! i) w of
            (None, w1) \<Rightarrow> w1\<lparr>jobs := take i (jobs w) @ drop (Suc i) (jobs w)\<rparr>
          | (Some j, w1) \<Rightarrow> w1\<lparr>jobs := (jobs w)[i := j]\<rparr>
     else w)"

text \<open>The goroutine of \<^verbatim>\<open>context.AfterFunc\<close> may run as soon as the session has ended.\<close>

definition job_interrupt :: "nat \<Rightarrow> AgentRt \<Rightarrow> AgentRt" where
  "job_interrupt i w =
    (if i < length (jobs w) \<and> jbPos (jobs w ! i) = JFetching then interrupted (jobs w ! i) w else w)"

definition Enqueue :: "commandRequest \<Rightarrow> AgentRt \<Rightarrow> AgentRt" where
  "Enqueue rq w =
    (if length (execQueue w) < 64 \<and> \<not> deadSession w (rqSession rq) then w\<lparr>execQueue := execQueue w @ [rq]\<rparr> else w)"

datatype agent_op = AEnqueue commandRequest | AExec "execError option" bool | AJob "execError option" bool nat
  | AInterrupt nat | ATaskEnds nat | ASessionEnds nat | AReceipt CommandReceipt | ALeaseExpired
  | AShutdown | ARootCancel

fun agent_step :: "agent_op \<Rightarrow> AgentRt \<Rightarrow> AgentRt" where
  "agent_step (AEnqueue rq) w = Enqueue rq w"
| "agent_step (AExec env leave) w = executor_step env leave w"
| "agent_step (AJob env leave i) w = run_job env leave i w"
| "agent_step (AInterrupt i) w = job_interrupt i w"
| "agent_step (ATaskEnds r) w = (if r \<in> fst ` set (runningTasks w) then executeTask_end r w else w)"
| "agent_step (ASessionEnds s) w = w\<lparr>deadSession := (deadSession w)(s := True)\<rparr>"
| "agent_step (AReceipt rc) w = handleReceipt rc w"
| "agent_step ALeaseExpired w = snd (snd (cancelTask [] ''lease expired'' w))"
| "agent_step AShutdown w = begin_shutdown w"
| "agent_step ARootCancel w = CancelControlPlane w"

subsection \<open>The slot\<close>

fun before_launch :: "jobPos \<Rightarrow> bool" where
  "before_launch JFetching \<longleftrightarrow> True"
| "before_launch (JFetched e) \<longleftrightarrow> True"
| "before_launch JLaunch \<longleftrightarrow> True"
| "before_launch _ \<longleftrightarrow> False"

text \<open>
  A task whose context is not cancelled holds the slot; every goroutine that still has to launch its
  task has a reservation of its own that was never launched.
\<close>

definition slot_inv :: "AgentRt \<Rightarrow> bool" where
  "slot_inv w \<longleftrightarrow>
     distinct (launchedRes w) \<and> (\<forall>r\<in>set (launchedRes w). r < nextRes w) \<and>
     fst ` set (runningTasks w) \<subseteq> set (launchedRes w) \<and> distinct (map fst (runningTasks w)) \<and>
     (\<forall>r\<in>fst ` set (runningTasks w). cause_of w r = None \<longrightarrow> map_option fst (curTask w) = Some r) \<and>
     (\<forall>r t. curTask w = Some (r, t) \<longrightarrow> r < nextRes w) \<and>
     distinct (map jbRes (jobs w)) \<and>
     (\<forall>j\<in>set (jobs w). jbRes j < nextRes w \<and> (before_launch (jbPos j) \<longrightarrow> jbRes j \<notin> set (launchedRes w)))"

lemma slot_invI:
  assumes "distinct (launchedRes w)" "\<And>r. r \<in> set (launchedRes w) \<Longrightarrow> r < nextRes w"
    and "fst ` set (runningTasks w) \<subseteq> set (launchedRes w)" "distinct (map fst (runningTasks w))"
    and "\<And>r. r \<in> fst ` set (runningTasks w) \<Longrightarrow> cause_of w r = None \<Longrightarrow> map_option fst (curTask w) = Some r"
    and "\<And>r t. curTask w = Some (r, t) \<Longrightarrow> r < nextRes w" "distinct (map jbRes (jobs w))"
    and "\<And>j. j \<in> set (jobs w) \<Longrightarrow> jbRes j < nextRes w"
    and "\<And>j. j \<in> set (jobs w) \<Longrightarrow> before_launch (jbPos j) \<Longrightarrow> jbRes j \<notin> set (launchedRes w)"
  shows "slot_inv w"
  unfolding slot_inv_def by (intro conjI ballI allI impI; rule assms; assumption)

lemma slot_invD:
  assumes "slot_inv w"
  shows "distinct (map fst (runningTasks w))"
    and "r \<in> fst ` set (runningTasks w) \<Longrightarrow> r < nextRes w"
    and "r \<in> fst ` set (runningTasks w) \<Longrightarrow> cause_of w r = None \<Longrightarrow> map_option fst (curTask w) = Some r"
    and "curTask w = Some (r, t) \<Longrightarrow> r < nextRes w" and "distinct (map jbRes (jobs w))"
    and "j \<in> set (jobs w) \<Longrightarrow> jbRes j < nextRes w"
    and "j \<in> set (jobs w) \<Longrightarrow> before_launch (jbPos j) \<Longrightarrow> jbRes j \<notin> set (launchedRes w)"
    and "distinct (launchedRes w)" and "r \<in> set (launchedRes w) \<Longrightarrow> r < nextRes w"
    and "fst ` set (runningTasks w) \<subseteq> set (launchedRes w)"
  using assms unfolding slot_inv_def by blast+

text \<open>The steps that start nothing: contexts stay cancelled, a slot is given up only when its task is.\<close>

definition tame :: "AgentRt \<Rightarrow> AgentRt \<Rightarrow> bool" where
  "tame w w' \<longleftrightarrow>
     runningTasks w' = runningTasks w \<and> launchedRes w' = launchedRes w \<and> jobs w' = jobs w \<and> nextRes w' = nextRes w \<and>
     (\<forall>r. cause_of w r \<noteq> None \<longrightarrow> cause_of w' r \<noteq> None) \<and>
     (curTask w' = curTask w \<or> curTask w' = None \<and> (\<forall>r t. curTask w = Some (r, t) \<longrightarrow> cause_of w' r \<noteq> None))"

lemma tame_slot:
  assumes w: "slot_inv w" and t: "tame w w'"
  shows "slot_inv w'"
proof -
  have same: "runningTasks w' = runningTasks w" "launchedRes w' = launchedRes w" "jobs w' = jobs w" "nextRes w' = nextRes w"
    using t by (auto simp: tame_def)
  have "map_option fst (curTask w') = Some r" if r: "r \<in> fst ` set (runningTasks w)" "cause_of w' r = None" for r
  proof -
    have "cause_of w r = None" using t r(2) unfolding tame_def by blast
    then have "map_option fst (curTask w) = Some r" using w r(1) unfolding slot_inv_def by blast
    then obtain a where "curTask w = Some (r, a)" by auto
    then show ?thesis using t r(2) unfolding tame_def by fastforce
  qed
  moreover have "r < nextRes w" if "curTask w' = Some (r, a)" for r a
    using w t that unfolding slot_inv_def tame_def by fastforce
  ultimately show ?thesis using w unfolding slot_inv_def same by blast
qed

lemma tame_trans: "tame w w1 \<Longrightarrow> tame w1 w2 \<Longrightarrow> tame w w2"
  unfolding tame_def by (auto; metis)

lemma cancel_ctx_simps [simp]:
  "runningTasks (cancel_ctx r c w) = runningTasks w" "jobs (cancel_ctx r c w) = jobs w"
  "nextRes (cancel_ctx r c w) = nextRes w" "curTask (cancel_ctx r c w) = curTask w"
  "rootCanceled (cancel_ctx r c w) = rootCanceled w" "rtId (cancel_ctx r c w) = rtId w"
  "inflight (cancel_ctx r c w) = inflight w" "execPos (cancel_ctx r c w) = execPos w"
  "launchedRes (cancel_ctx r c w) = launchedRes w" "launches (cancel_ctx r c w) = launches w" "published (cancel_ctx r c w) = published w"
  "outcomes (cancel_ctx r c w) = outcomes w" "execQueue (cancel_ctx r c w) = execQueue w"
  "deferredReq (cancel_ctx r c w) = deferredReq w" "deadSession (cancel_ctx r c w) = deadSession w"
  by (simp_all add: cancel_ctx_def)

lemma release_slot_simps [simp]:
  "runningTasks (release_slot r w) = runningTasks w" "jobs (release_slot r w) = jobs w"
  "nextRes (release_slot r w) = nextRes w" "cause_of (release_slot r w) = cause_of w" "rtId (release_slot r w) = rtId w"
  "inflight (release_slot r w) = inflight w" "execPos (release_slot r w) = execPos w"
  "launchedRes (release_slot r w) = launchedRes w" "launches (release_slot r w) = launches w" "published (release_slot r w) = published w"
  by (auto simp: release_slot_def cause_of_def fun_eq_iff)

lemma curTask_release [simp]:
  "curTask (release_slot r w) = (if map_option fst (curTask w) = Some r then None else curTask w)"
  by (simp add: release_slot_def)

lemma cause_of_simps [simp]:
  "cause_of (w\<lparr>execPos := p\<rparr>) = cause_of w" "cause_of (w\<lparr>jobs := js\<rparr>) = cause_of w"
  "cause_of (w\<lparr>curTask := ct\<rparr>) = cause_of w" "cause_of (w\<lparr>nextRes := n\<rparr>) = cause_of w"
  "cause_of (w\<lparr>runningTasks := rs\<rparr>) = cause_of w" "cause_of (w\<lparr>launches := ls\<rparr>) = cause_of w"
  "cause_of (w\<lparr>launchedRes := lr\<rparr>) = cause_of w"
  by (simp_all add: cause_of_def fun_eq_iff)

lemma cause_of_cancel: "cause_of (cancel_ctx r c w) r' = (if r' = r \<and> cause_of w r = None then Some c else cause_of w r')"
  by (auto simp: cancel_ctx_def cause_of_def split: option.splits)

lemma tame_cancel: "tame w (cancel_ctx r c w)"
  by (auto simp: tame_def cause_of_cancel)

lemma tame_release: "tame w (releaseReservedTask r c w)"
  by (auto simp: tame_def releaseReservedTask_def cause_of_cancel)

lemma tame_same:
  assumes "runningTasks w' = runningTasks w" "launchedRes w' = launchedRes w" "jobs w' = jobs w" "nextRes w' = nextRes w" "causes w' = causes w"
    "rootCanceled w \<longrightarrow> rootCanceled w'" "curTask w' = curTask w"
  shows "tame w w'"
  using assms by (auto simp: tame_def cause_of_def split: option.splits)

lemma tame_cancelTask: "cancelTask e reason w = (a, b, w') \<Longrightarrow> tame w w'"
  by (auto simp: cancelTask_def tame_cancel split: option.splits if_splits intro: tame_same)

lemma tame_finish: "tame w (finish rq ack w)"
  by (rule tame_same) (auto simp: finish_def Let_def prepareShutdown_def CancelControlPlane_def split: prod.split)

lemma tame_complete: "completeStart leave rq cp w = (r, w') \<Longrightarrow> tame w w'"
  by (cases cp) (auto simp: tame_finish forget_start_def split: if_splits intro: tame_same)

lemma tame_execPos: "tame w w1 \<Longrightarrow> tame w (w1\<lparr>execPos := p\<rparr>)"
  by (simp add: tame_def)

lemma tame_refl [simp]: "tame w w"
  by (simp add: tame_def)

lemma tame_body: "tame w (execute_body rq w)"
proof -
  have "tame w (snd (snd (cancelTask e reason w)))" for e reason
    by (rule tame_cancelTask [OF surjective_pairing [THEN trans, OF arg_cong [of _ _ "Pair _", OF surjective_pairing]]])
  then show ?thesis
    by (simp add: execute_body_def Let_def split_beta tame_execPos split: commandBody.split)
qed

lemma slot_jobs:
  assumes w: "slot_inv w" and d: "distinct (map jbRes js)"
    and s: "\<And>j. j \<in> set js \<Longrightarrow> \<exists>k\<in>set (jobs w). jbRes k = jbRes j \<and> (before_launch (jbPos j) \<longrightarrow> before_launch (jbPos k))"
  shows "slot_inv (w\<lparr>jobs := js\<rparr>)"
proof -
  have "jbRes j < nextRes w \<and> (before_launch (jbPos j) \<longrightarrow> jbRes j \<notin> set (launchedRes w))" if "j \<in> set js" for j
    using s [OF that] w unfolding slot_inv_def by (metis (no_types, lifting))
  then show ?thesis using w d unfolding slot_inv_def by simp
qed

lemma slot_update:
  assumes w: "slot_inv w" and i: "i < length (jobs w)" and r: "jbRes j = jbRes (jobs w ! i)"
    and b: "before_launch (jbPos j) \<longrightarrow> before_launch (jbPos (jobs w ! i))"
  shows "slot_inv (w\<lparr>jobs := (jobs w)[i := j]\<rparr>)"
proof (rule slot_jobs [OF w])
  have "map jbRes ((jobs w)[i := j]) = map jbRes (jobs w)" using r i by (simp add: map_update list_update_same_conv)
  then show "distinct (map jbRes ((jobs w)[i := j]))" using w by (simp add: slot_inv_def)
  show "\<exists>k'\<in>set (jobs w). jbRes k' = jbRes k \<and> (before_launch (jbPos k) \<longrightarrow> before_launch (jbPos k'))"
    if "k \<in> set ((jobs w)[i := j])" for k
    using that set_update_subset_insert [of "jobs w" i j] r b nth_mem [OF i] by (metis insert_iff subsetD)
qed

lemma slot_remove:
  assumes w: "slot_inv w"
  shows "slot_inv (w\<lparr>jobs := take i (jobs w) @ drop (Suc i) (jobs w)\<rparr>)"
proof (rule slot_jobs [OF w])
  have "distinct (map jbRes (take i (jobs w) @ drop i (jobs w)))" using w by (simp add: slot_inv_def)
  then have d: "distinct (map jbRes (take i (jobs w)))" "jbRes ` set (take i (jobs w)) \<inter> jbRes ` set (drop i (jobs w)) = {}"
    unfolding map_append distinct_append by auto
  have "set (drop (Suc i) (jobs w)) \<subseteq> set (drop i (jobs w))" by (simp add: set_drop_subset_set_drop)
  then have "jbRes ` set (drop (Suc i) (jobs w)) \<subseteq> jbRes ` set (drop i (jobs w))" by (rule image_mono)
  moreover have "distinct (map jbRes (drop (Suc i) (jobs w)))"
    using w distinct_drop [of "map jbRes (jobs w)" "Suc i"] by (simp add: slot_inv_def drop_map)
  ultimately show "distinct (map jbRes (take i (jobs w) @ drop (Suc i) (jobs w)))" using d by (auto simp: disjoint_iff)
  show "\<exists>k'\<in>set (jobs w). jbRes k' = jbRes k \<and> (before_launch (jbPos k) \<longrightarrow> before_launch (jbPos k'))"
    if "k \<in> set (take i (jobs w) @ drop (Suc i) (jobs w))" for k
    using that by (auto dest: in_set_takeD in_set_dropD)
qed

text \<open>The launch: the reservation holds the slot and is not cancelled.\<close>

lemma slot_launch:
  assumes w: "slot_inv w" and i: "i < length (jobs w)" and pos: "jbPos (jobs w ! i) = JLaunch"
    and slot: "map_option fst (curTask w) = Some (jbRes (jobs w ! i))"
  shows "slot_inv (w\<lparr>runningTasks := (jbRes (jobs w ! i), t) # runningTasks w,
     launchedRes := jbRes (jobs w ! i) # launchedRes w, launches := ls,
     jobs := (jobs w)[i := (jobs w ! i)\<lparr>jbPos := JLaunched e\<rparr>]\<rparr>)" (is "slot_inv ?w'")
proof -
  let ?r = "jbRes (jobs w ! i)"
  have new: "?r \<notin> set (launchedRes w)" and lt: "?r < nextRes w"
    using w pos nth_mem [OF i] unfolding slot_inv_def by (metis before_launch.simps(3))+
  have d: "distinct (map jbRes (jobs w))" using w by (simp add: slot_inv_def)
  have m: "map jbRes ((jobs w)[i := (jobs w ! i)\<lparr>jbPos := JLaunched e\<rparr>]) = map jbRes (jobs w)"
    using i by (simp add: map_update list_update_same_conv)
  have c: "cause_of ?w' = cause_of w" by (simp add: cause_of_def fun_eq_iff)
  have "jbRes k < nextRes w \<and> (before_launch (jbPos k) \<longrightarrow> jbRes k \<noteq> ?r \<and> jbRes k \<notin> set (launchedRes w))"
    if k: "k \<in> set ((jobs w)[i := (jobs w ! i)\<lparr>jbPos := JLaunched e\<rparr>])" for k
  proof -
    obtain n where n: "n < length (jobs w)" "k = (jobs w)[i := (jobs w ! i)\<lparr>jbPos := JLaunched e\<rparr>] ! n"
      using k by (metis in_set_conv_nth length_list_update)
    show ?thesis
    proof (cases "n = i")
      case True
      then show ?thesis using n lt i by simp
    next
      case False
      then have k': "k = jobs w ! n" using n by simp
      moreover have "jbRes k \<noteq> ?r" using d False n(1) i k' nth_eq_iff_index_eq [of "map jbRes (jobs w)" n i] by simp
      ultimately show ?thesis using w nth_mem [OF n(1)] unfolding slot_inv_def by metis
    qed
  qed
  note k = this
  have one: "r = ?r" if "r \<in> fst ` set (runningTasks w)" "cause_of w r = None" for r
    using slot_invD(3) [OF w that] slot by simp
  show ?thesis
  proof (rule slot_invI)
    show "distinct (launchedRes ?w')" using slot_invD(8) [OF w] new by simp
    show "r < nextRes ?w'" if "r \<in> set (launchedRes ?w')" for r
      using that lt slot_invD(9) [OF w] by auto
    show "fst ` set (runningTasks ?w') \<subseteq> set (launchedRes ?w')" using slot_invD(10) [OF w] by auto
    show "distinct (map fst (runningTasks ?w'))" using slot_invD(1,10) [OF w] new by auto
    show "map_option fst (curTask ?w') = Some r" if "r \<in> fst ` set (runningTasks ?w')" "cause_of ?w' r = None" for r
    proof -
      have "r = ?r" using that one unfolding c by (cases "r = ?r") auto
      then show ?thesis using slot by simp
    qed
    show "r < nextRes ?w'" if "curTask ?w' = Some (r, a)" for r a using slot_invD(4) [OF w] that by simp
    show "distinct (map jbRes (jobs ?w'))" using d m by simp
    show "jbRes j < nextRes ?w'" if "j \<in> set (jobs ?w')" for j using k that by simp
    show "jbRes j \<notin> set (launchedRes ?w')" if "j \<in> set (jobs ?w')" "before_launch (jbPos j)" for j
      using k [of j] that by auto
  qed
qed

lemma slot_reserve: "slot_inv w \<Longrightarrow> slot_inv (begin_reserve env rq domain w)"
proof -
  assume w: "slot_inv w"
  show ?thesis
  proof (cases "rtShuttingDown w \<or> curTask w \<noteq> None")
    case True
    then have "tame w (begin_reserve env rq domain w)"
      by (auto simp: begin_reserve_def reserveTask_def Let_def intro!: tame_execPos split: option.splits)
    with w show ?thesis by (rule tame_slot)
  next
    case False
    define w1 where "w1 = w\<lparr>curTask := Some (nextRes w, domain), nextRes := nextRes w + 1\<rparr>"
    have fresh: "nextRes w \<notin> set (launchedRes w)" "\<forall>j\<in>set (jobs w). jbRes j \<noteq> nextRes w"
      using w unfolding slot_inv_def by (blast, metis less_irrefl)
    have c: "cause_of w1 = cause_of w" by (simp add: w1_def)
    have dead: "cause_of w r \<noteq> None" if "r \<in> fst ` set (runningTasks w)" for r
      using w that False unfolding slot_inv_def by (metis option.simps(3) option.map_disc_iff)
    have w1: "slot_inv w1"
    proof (rule slot_invI)
      show "r < nextRes w1" if "r \<in> set (launchedRes w1)" for r
        using slot_invD(9) [OF w, of r] that by (simp add: w1_def)
      show "fst ` set (runningTasks w1) \<subseteq> set (launchedRes w1)" using slot_invD(10) [OF w] by (simp add: w1_def)
      show "map_option fst (curTask w1) = Some r" if "r \<in> fst ` set (runningTasks w1)" "cause_of w1 r = None" for r
        using that dead [of r] by (simp add: c) (simp add: w1_def)
      show "jbRes j < nextRes w1" if "j \<in> set (jobs w1)" for j using slot_invD(6) [OF w, of j] that by (simp add: w1_def)
    qed (use slot_invD [OF w] in \<open>auto simp: w1_def\<close>)
    have r: "reserveTask domain w = (Inr (nextRes w), w1)" using False by (simp add: reserveTask_def w1_def split: option.split)
    show ?thesis
    proof (cases env)
      case None
      then show ?thesis
        using w1 fresh unfolding begin_reserve_def r slot_inv_def
        by (auto simp: w1_def image_iff)
    next
      case (Some e)
      have "tame w1 ((releaseReservedTask (nextRes w) e w1)\<lparr>execPos := p\<rparr>)" for p by (intro tame_execPos tame_release)
      then show ?thesis using tame_slot [OF w1] Some by (simp add: begin_reserve_def r)
    qed
  qed
qed

lemma slot_end: "slot_inv w \<Longrightarrow> slot_inv (executeTask_end r w)"
proof -
  assume w: "slot_inv w"
  have c: "cause_of (executeTask_end r w) r' = cause_of w r'" if "r' \<noteq> r" for r'
    using that by (simp add: executeTask_end_def Let_def cause_of_cancel)
  have "map_option fst (curTask (executeTask_end r w)) = Some r'"
    if "r' \<in> fst ` set (runningTasks (executeTask_end r w))" "cause_of (executeTask_end r w) r' = None" for r'
  proof -
    have "r' \<noteq> r" "r' \<in> fst ` set (runningTasks w)" using that(1) by (auto simp: executeTask_end_def Let_def)
    moreover from this have "map_option fst (curTask w) = Some r'" using w that(2) c unfolding slot_inv_def by metis
    ultimately show ?thesis by (auto simp: executeTask_end_def Let_def)
  qed
  note live = this
  have sub: "set (runningTasks (executeTask_end r w)) \<subseteq> set (runningTasks w)" "distinct (map fst (runningTasks (executeTask_end r w)))"
    using w by (auto simp: executeTask_end_def Let_def slot_inv_def distinct_map inj_on_def)
  have same: "nextRes (executeTask_end r w) = nextRes w" "jobs (executeTask_end r w) = jobs w"
    "launchedRes (executeTask_end r w) = launchedRes w"
    "curTask (executeTask_end r w) = curTask w \<or> curTask (executeTask_end r w) = None"
    by (auto simp: executeTask_end_def Let_def)
  have img: "fst ` set (runningTasks (executeTask_end r w)) \<subseteq> fst ` set (runningTasks w)" by (rule image_mono [OF sub(1)])
  show ?thesis
  proof (rule slot_invI)
    show "distinct (launchedRes (executeTask_end r w))" using slot_invD(8) [OF w] unfolding same .
    show "r' < nextRes (executeTask_end r w)" if "r' \<in> set (launchedRes (executeTask_end r w))" for r'
      using slot_invD(9) [OF w] that unfolding same by blast
    show "fst ` set (runningTasks (executeTask_end r w)) \<subseteq> set (launchedRes (executeTask_end r w))"
      using slot_invD(10) [OF w] img unfolding same by blast
    show "distinct (map fst (runningTasks (executeTask_end r w)))" by (rule sub(2))
    show "map_option fst (curTask (executeTask_end r w)) = Some r'"
      if "r' \<in> fst ` set (runningTasks (executeTask_end r w))" "cause_of (executeTask_end r w) r' = None" for r'
      using that by (rule live)
    show "r' < nextRes (executeTask_end r w)" if "curTask (executeTask_end r w) = Some (r', t)" for r' t
      using slot_invD(4) [OF w] same(4) that unfolding same(1) by (metis option.simps(3))
    show "distinct (map jbRes (jobs (executeTask_end r w)))" using slot_invD(5) [OF w] unfolding same .
    show "jbRes j < nextRes (executeTask_end r w)" if "j \<in> set (jobs (executeTask_end r w))" for j
      using slot_invD(6) [OF w] that unfolding same .
    show "jbRes j \<notin> set (launchedRes (executeTask_end r w))"
      if "j \<in> set (jobs (executeTask_end r w))" "before_launch (jbPos j)" for j
      using slot_invD(7) [OF w] that unfolding same by blast
  qed
qed

lemma tame_launch:
  assumes "launchReservedTask r c t env w = (e, w1)" "e \<noteq> None"
  shows "tame w w1"
  using assms tame_release by (auto simp: launchReservedTask_def split: if_splits option.splits)

lemma tame_interrupted: "tame w (interrupted j w)"
  by (simp add: interrupted_def tame_cancel)


lemma slot_job: "slot_inv w \<Longrightarrow> slot_inv (run_job env leave i w)"
proof -
  assume w: "slot_inv w"
  show ?thesis
  proof (cases "i < length (jobs w)")
    case True
    define j where "j = jobs w ! i"
    have upd: "slot_inv (w1\<lparr>jobs := (jobs w)[i := j']\<rparr>)"
      if "tame w w1" "jbRes j' = jbRes j" "before_launch (jbPos j') \<longrightarrow> before_launch (jbPos j)" for w1 j'
      using slot_update [OF tame_slot [OF w that(1)], of i j'] that True by (simp add: tame_def j_def)
    have del: "slot_inv (w1\<lparr>jobs := take i (jobs w) @ drop (Suc i) (jobs w)\<rparr>)" if "tame w w1" for w1
      using slot_remove [OF tame_slot [OF w that], of i] that by (simp add: tame_def)
    have run: "run_job env leave i w = (case job_step env leave j w of
        (None, w1) \<Rightarrow> w1\<lparr>jobs := take i (jobs w) @ drop (Suc i) (jobs w)\<rparr>
      | (Some j', w1) \<Rightarrow> w1\<lparr>jobs := (jobs w)[i := j']\<rparr>)"
      using True by (simp add: run_job_def j_def)
    show ?thesis
    proof (cases "jbPos j")
      case JLaunch
      obtain err w1 where l: "launchReservedTask (jbRes j) (rqCmd (jbReq j)) (jbTask j) env w = (err, w1)" by fastforce
      show ?thesis
      proof (cases err)
        case None
        then have "map_option fst (curTask w) = Some (jbRes j)"
            "w1 = w\<lparr>runningTasks := (jbRes j, jbTask j) # runningTasks w, launchedRes := jbRes j # launchedRes w,
              launches := (rqCmd (jbReq j), jbTask j) # launches w\<rparr>"
          using l by (auto simp: launchReservedTask_def split: if_splits option.splits)
        then show ?thesis
          using slot_launch [OF w True, where t = "jbTask j" and ls = "(rqCmd (jbReq j), jbTask j) # launches w" and e = None] JLaunch l None
          by (simp add: run job_step_def flip: j_def)
      next
        case (Some e)
        with tame_launch [OF l] upd show ?thesis using JLaunch l by (simp add: run job_step_def)
      qed
    next
      case (JComplete cp)
      obtain r w1 where c: "completeStart leave (jbReq j) cp w = (r, w1)" by fastforce
      show ?thesis
        using tame_complete [OF c] upd del c by (simp add: run job_step_def JComplete split: option.split)
    qed (use upd tame_interrupted tame_release in \<open>simp_all add: run job_step_def split: option.split\<close>)
  qed (simp add: run_job_def w)
qed

lemma slot_exec: "slot_inv w \<Longrightarrow> slot_inv (executor_step env leave w)"
proof -
  assume w: "slot_inv w"
  show ?thesis
  proof (cases "execPos w")
    case XIdle
    have "tame w (take_request w)"
      by (cases "execQueue w") (auto simp: take_request_def Let_def intro!: tame_same split: prod.split)
    then show ?thesis using tame_slot [OF w] XIdle by simp
  next
    case (XBody rq)
    then show ?thesis using tame_slot [OF w tame_body] by simp
  next
    case (XBegin rq)
    have "tame w (begin_inflight rq w)" by (rule tame_same) (auto simp: begin_inflight_def Let_def)
    then show ?thesis using tame_slot [OF w] XBegin by simp
  next
    case (XStart rq)
    have "tame w (begin_checks rq w)"
      by (auto simp: begin_checks_def Let_def split_beta intro!: tame_execPos split: sum.split)
    then show ?thesis using tame_slot [OF w] XStart by simp
  next
    case (XReserve rq d)
    then show ?thesis using slot_reserve [OF w] by simp
  next
    case (XComplete rq cp)
    obtain r w1 where c: "completeStart leave rq cp w = (r, w1)" by fastforce
    show ?thesis using tame_slot [OF w tame_execPos [OF tame_complete [OF c]]] XComplete c by (simp split: option.split)
  next
    case (XFinish rq ack)
    then show ?thesis using tame_slot [OF w tame_execPos [OF tame_finish]] by simp
  qed
qed

lemma tame_receipt: "tame w (handleReceipt rc w)"
  by (rule tame_same) (auto simp: handleReceipt_def confirmShutdown_def Let_def split: prod.split)

lemma tame_snd_cancelTask: "tame w (snd (snd (cancelTask e reason w)))"
  by (rule tame_cancelTask [OF surjective_pairing [THEN trans, OF arg_cong [of _ _ "Pair _", OF surjective_pairing]]])

interpretation slots: op_system agent_step slot_inv "\<lambda>_. True"
proof
  fix w op assume w: "slot_inv w"
  note t = tame_slot [OF w]
  have flags: "tame w (w\<lparr>stopTriggered := True, rtShuttingDown := True\<rparr>)" by (rule tame_same) simp_all
  show "slot_inv (agent_step op w)"
  proof (cases op)
    case (AInterrupt i)
    then show ?thesis using w t [OF tame_interrupted] by (simp add: job_interrupt_def)
  next
    case AShutdown
    then show ?thesis using t [OF tame_trans [OF flags tame_snd_cancelTask]] by (simp add: begin_shutdown_def)
  next
    case (AEnqueue rq)
    then show ?thesis using w t [OF tame_same] by (simp add: Enqueue_def)
  next
    case (ASessionEnds s)
    then show ?thesis using t [OF tame_same] by simp
  next
    case ARootCancel
    then show ?thesis using t [OF tame_same] by (simp add: CancelControlPlane_def)
  qed (use w slot_exec slot_job slot_end t [OF tame_receipt] t [OF tame_snd_cancelTask] in
      \<open>simp_all del: executor_step.simps\<close>)
qed

subsection \<open>Outcomes and launches\<close>

definition launchable :: "string \<Rightarrow> Command \<Rightarrow> Assignment \<Rightarrow> bool" where
  "launchable aid c t \<longleftrightarrow>
     is_start c \<and> cmdAgentId c = aid \<and> FromProto (fst (start_parts c)) (snd (start_parts c)) = Inr t"

definition honest :: "(Command \<times> Assignment) list \<Rightarrow> Command \<Rightarrow> CommandAck \<Rightarrow> bool" where
  "honest ls c ack \<longleftrightarrow> (is_start c \<longrightarrow> ackStatus ack = AckApplied \<longrightarrow> c \<in> fst ` set ls)"

fun honest_pos :: "(Command \<times> Assignment) list \<Rightarrow> Command \<Rightarrow> jobPos \<Rightarrow> bool" where
  "honest_pos ls c (JLaunched None) \<longleftrightarrow> c \<in> fst ` set ls"
| "honest_pos ls c (JComplete (PubOutcome ack)) \<longleftrightarrow> honest ls c ack"
| "honest_pos ls c _ \<longleftrightarrow> True"

definition honest_job :: "string \<Rightarrow> (Command \<times> Assignment) list \<Rightarrow> startJob \<Rightarrow> bool" where
  "honest_job aid ls j \<longleftrightarrow>
     launchable aid (rqCmd (jbReq j)) (jbTask j) \<and> honest_pos ls (rqCmd (jbReq j)) (jbPos j)"

fun honest_exec :: "string \<Rightarrow> (Command \<times> Assignment) list \<Rightarrow> execPos \<Rightarrow> bool" where
  "honest_exec aid ls (XBegin rq) \<longleftrightarrow> is_start (rqCmd rq) \<and> cmdAgentId (rqCmd rq) = aid"
| "honest_exec aid ls (XStart rq) \<longleftrightarrow> is_start (rqCmd rq) \<and> cmdAgentId (rqCmd rq) = aid"
| "honest_exec aid ls (XReserve rq t) \<longleftrightarrow> launchable aid (rqCmd rq) t"
| "honest_exec aid ls (XComplete rq (PubOutcome ack)) \<longleftrightarrow> honest ls (rqCmd rq) ack"
| "honest_exec aid ls (XFinish rq ack) \<longleftrightarrow> honest ls (rqCmd rq) ack"
| "honest_exec aid ls (XBody rq) \<longleftrightarrow> \<not> is_start (rqCmd rq)"
| "honest_exec aid ls _ \<longleftrightarrow> True"

definition honest_inv :: "AgentRt \<Rightarrow> bool" where
  "honest_inv w \<longleftrightarrow>
     list_all (\<lambda>(c, t). launchable (rtId w) c t) (launches w) \<and>
     list_all (\<lambda>(c, ack). honest (launches w) c ack) (published w) \<and>
     list_all (honest_job (rtId w) (launches w)) (jobs w) \<and>
     honest_exec (rtId w) (launches w) (execPos w)"

text \<open>What all steps but the launch leave alone.\<close>

definition same_log :: "AgentRt \<Rightarrow> AgentRt \<Rightarrow> bool" where
  "same_log w w' \<longleftrightarrow> rtId w' = rtId w \<and> launches w' = launches w \<and> jobs w' = jobs w \<and>
     published w' = published w"

lemma honest_same: "honest_inv w \<Longrightarrow> same_log w w' \<Longrightarrow> honest_exec (rtId w) (launches w) (execPos w') \<Longrightarrow> honest_inv w'"
  by (simp add: honest_inv_def same_log_def)

lemma honest_keep: "honest_inv w \<Longrightarrow> same_log w w' \<Longrightarrow> execPos w' = execPos w \<Longrightarrow> honest_inv w'"
  by (simp add: honest_inv_def same_log_def)

lemma same_log_cancel [simp]: "same_log w (cancel_ctx r c w)" "same_log w (release_slot r w)"
  "same_log w (releaseReservedTask r c w)" "execPos (releaseReservedTask r c w) = execPos w"
  by (simp_all add: same_log_def releaseReservedTask_def)

lemma same_log_cancelTask [simp]: "same_log w (snd (snd (cancelTask e reason w)))"
  "execPos (snd (snd (cancelTask e reason w))) = execPos w"
  by (auto simp: cancelTask_def same_log_def split: option.split)

lemma honest_finish:
  assumes "honest_inv w" "honest (launches w) (rqCmd rq) ack"
  shows "honest_inv (finish rq ack w) \<and> rtId (finish rq ack w) = rtId w \<and> launches (finish rq ack w) = launches w
    \<and> jobs (finish rq ack w) = jobs w \<and> execPos (finish rq ack w) = execPos w"
  using assms by (auto simp: finish_def Let_def honest_inv_def prepareShutdown_def CancelControlPlane_def split: prod.split)

fun honest_completion :: "(Command \<times> Assignment) list \<Rightarrow> Command \<Rightarrow> completion \<Rightarrow> bool" where
  "honest_completion ls c (PubOutcome ack) \<longleftrightarrow> honest ls c ack"
| "honest_completion ls c _ \<longleftrightarrow> True"

lemma honest_complete:
  assumes "honest_inv w" "honest_completion (launches w) (rqCmd rq) cp" "completeStart leave rq cp w = (r, w')"
  shows "honest_inv w' \<and> rtId w' = rtId w \<and> launches w' = launches w \<and> jobs w' = jobs w \<and> execPos w' = execPos w \<and>
    (\<forall>cp'. r = Some cp' \<longrightarrow> honest_completion (launches w) (rqCmd rq) cp')"
proof (cases cp)
  case (PubOutcome ack)
  then show ?thesis using assms honest_finish [OF assms(1), of rq ack] by auto
qed (use assms in \<open>auto simp: forget_start_def honest_inv_def split: if_splits\<close>)

lemma honest_pos_complete: "honest_pos ls c (JComplete cp) = honest_completion ls c cp"
  "honest_exec aid ls (XComplete rq cp) = honest_completion ls (rqCmd rq) cp"
  by (cases cp; simp)+

lemma honest_rejected [simp]: "honest ls c (rejected w c' e)" "honest ls c (outcome_of w c' AckDuplicate r)"
  by (simp_all add: honest_def rejected_def outcome_of_def)

lemma honest_execPos: "honest_inv w \<Longrightarrow> honest_exec (rtId w) (launches w) p \<Longrightarrow> honest_inv (w\<lparr>execPos := p\<rparr>)"
  by (simp add: honest_inv_def)

lemma honest_grow:
  assumes "honest_inv w" "launchable (rtId w) c t"
  shows "honest_inv (w\<lparr>runningTasks := rs, launchedRes := lr, launches := (c, t) # launches w\<rparr>)"
proof -
  have h: "honest ((c, t) # ls) c' ack" if "honest ls c' ack" for c' ack ls using that by (auto simp: honest_def)
  have p: "honest_pos ((c, t) # ls) c' q" if "honest_pos ls c' q" for c' q ls
    using that h by (cases "(ls, c', q)" rule: honest_pos.cases) auto
  have e: "honest_exec (rtId w) ((c, t) # ls) q" if "honest_exec (rtId w) ls q" for q ls
    using that h by (cases "(rtId w, ls, q)" rule: honest_exec.cases) auto
  show ?thesis using assms h p e by (auto simp: honest_inv_def honest_job_def list_all_iff)
qed

lemma honest_update:
  assumes "honest_inv w" "jobs w = js" "honest_job (rtId w) (launches w) j"
  shows "honest_inv (w\<lparr>jobs := js[i := j]\<rparr>)" "honest_inv (w\<lparr>jobs := take i js @ drop (Suc i) js\<rparr>)"
  using assms set_update_subset_insert [of js i j]
  by (auto simp: honest_inv_def list_all_iff dest: in_set_takeD in_set_dropD)

lemma honest_job_run: "honest_inv w \<Longrightarrow> honest_inv (run_job env leave i w)"
proof -
  assume w: "honest_inv w"
  show ?thesis
  proof (cases "i < length (jobs w)")
    case True
    define j where "j = jobs w ! i"
    have j: "launchable (rtId w) (rqCmd (jbReq j)) (jbTask j)" "honest_pos (launches w) (rqCmd (jbReq j)) (jbPos j)"
      using w nth_mem [OF True] by (auto simp: honest_inv_def list_all_iff honest_job_def j_def)
    have upd: "honest_inv (w1\<lparr>jobs := (jobs w)[i := j\<lparr>jbPos := p\<rparr>]\<rparr>)"
      if "honest_inv w1" "jobs w1 = jobs w" "rtId w1 = rtId w" "honest_pos (launches w1) (rqCmd (jbReq j)) p" for w1 p
      using honest_update(1) [OF that(1,2)] that(3,4) j(1) by (simp add: honest_job_def)
    have del: "honest_inv (w1\<lparr>jobs := take i (jobs w) @ drop (Suc i) (jobs w)\<rparr>)" if "honest_inv w1" "jobs w1 = jobs w" for w1
      using that by (auto simp: honest_inv_def list_all_iff dest: in_set_takeD in_set_dropD)
    have run: "run_job env leave i w = (case job_step env leave j w of
        (None, w1) \<Rightarrow> w1\<lparr>jobs := take i (jobs w) @ drop (Suc i) (jobs w)\<rparr>
      | (Some j', w1) \<Rightarrow> w1\<lparr>jobs := (jobs w)[i := j']\<rparr>)"
      using True by (simp add: run_job_def j_def)
    have logs: "honest_inv (cancel_ctx r c w)" "honest_inv (releaseReservedTask r c w)" for r c
      using w by (auto intro: honest_same simp: honest_inv_def releaseReservedTask_def)
    show ?thesis
    proof (cases "jbPos j")
      case JFetching
      then show ?thesis using upd w logs(1) by (auto simp: run job_step_def interrupted_def)
    next
      case (JFetched err)
      then show ?thesis using upd [OF w] by (auto simp: run job_step_def split: option.split)
    next
      case JLaunch
      show ?thesis
      proof (cases "fst (launchReservedTask (jbRes j) (rqCmd (jbReq j)) (jbTask j) env w)")
        case None
        then have "launchReservedTask (jbRes j) (rqCmd (jbReq j)) (jbTask j) env w =
          (None, w\<lparr>runningTasks := (jbRes j, jbTask j) # runningTasks w, launchedRes := jbRes j # launchedRes w,
             launches := (rqCmd (jbReq j), jbTask j) # launches w\<rparr>)"
          by (auto simp: launchReservedTask_def split: if_splits option.splits)
        then show ?thesis
          using upd [OF honest_grow [OF w j(1)], of "jbRes j # launchedRes w" "(jbRes j, jbTask j) # runningTasks w" "JLaunched None"] JLaunch
          by (simp add: run job_step_def)
      next
        case (Some e)
        then obtain w1 where l: "launchReservedTask (jbRes j) (rqCmd (jbReq j)) (jbTask j) env w = (Some e, w1)"
          by (metis prod.collapse)
        then have "honest_inv w1 \<and> jobs w1 = jobs w \<and> rtId w1 = rtId w"
          using w logs by (auto simp: launchReservedTask_def releaseReservedTask_def split: if_splits option.splits)
        then show ?thesis using upd [of w1 "JLaunched (Some e)"] JLaunch l by (simp add: run job_step_def)
      qed
    next
      case (JLaunched err)
      have c: "honest_pos ls (rqCmd (jbReq j)) (JComplete (if b then NoOutcome else PubOutcome (rejected w (rqCmd (jbReq j)) e)))"
        for ls b e by simp
      have "honest_inv ((releaseReservedTask (jbRes j) e w)\<lparr>jobs := (jobs w)[i := j\<lparr>jbPos := JComplete (if b then NoOutcome
          else PubOutcome (rejected w (rqCmd (jbReq j)) e))\<rparr>]\<rparr>)" for b e
        by (rule upd) (simp_all add: logs c, simp_all add: releaseReservedTask_def)
      moreover have "err = None \<Longrightarrow> honest_inv (w\<lparr>jobs := (jobs w)[i := j\<lparr>jbPos := JComplete (PubOutcome (jbAck j))\<rparr>]\<rparr>)"
        by (rule upd) (use w j JLaunched in \<open>auto simp: honest_def\<close>)
      ultimately show ?thesis using JLaunched by (auto simp: run job_step_def split: option.split)
    next
      case (JComplete cp)
      obtain r w1 where c: "completeStart leave (jbReq j) cp w = (r, w1)" by fastforce
      have "honest_completion (launches w) (rqCmd (jbReq j)) cp" using j(2) JComplete by (simp add: honest_pos_complete)
      from honest_complete [OF w this c] upd [of w1] del [of w1] show ?thesis
        using c by (auto simp: run job_step_def JComplete honest_pos_complete split: option.split)
    qed
  qed (simp add: run_job_def w)
qed

lemma honest_executor: "honest_inv w \<Longrightarrow> honest_inv (executor_step env leave w)"
proof -
  assume w: "honest_inv w"
  have pos: "honest_exec (rtId w) (launches w) (execPos w)" using w by (simp add: honest_inv_def)
  show ?thesis
  proof (cases "execPos w")
    case XIdle
    then show ?thesis
      using w by (cases "execQueue w") (auto simp: take_request_def Let_def honest_inv_def split: prod.split)
  next
    case (XBody rq)
    have logs: "honest_inv (snd (snd (cancelTask e reason w)))" "rtId (snd (snd (cancelTask e reason w))) = rtId w"
      "launches (snd (snd (cancelTask e reason w))) = launches w" for e reason
      using w same_log_cancelTask(1) [of w e reason] by (auto intro: honest_same simp: honest_inv_def same_log_def)
    show ?thesis
      using XBody w pos logs
      by (auto simp: execute_body_def Let_def split_beta honest_def intro!: honest_execPos split: commandBody.split)
  next
    case (XBegin rq)
    then show ?thesis using w pos by (auto simp: begin_inflight_def Let_def honest_inv_def)
  next
    case (XStart rq)
    then show ?thesis
      using w pos by (auto simp: begin_checks_def Let_def split_beta launchable_def intro!: honest_execPos split: sum.split)
  next
    case (XReserve rq d)
    then show ?thesis
      using w pos by (auto simp: begin_reserve_def reserveTask_def Let_def honest_inv_def honest_job_def releaseReservedTask_def
        split: option.split)
  next
    case (XComplete rq cp)
    obtain r w1 where c: "completeStart leave rq cp w = (r, w1)" by fastforce
    have "honest_completion (launches w) (rqCmd rq) cp" using pos XComplete by (simp add: honest_pos_complete)
    from honest_complete [OF w this c] show ?thesis
      using XComplete c by (auto simp: honest_pos_complete intro!: honest_execPos split: option.split)
  next
    case (XFinish rq ack)
    then show ?thesis using honest_finish [OF w, of rq ack] pos honest_execPos [of "finish rq ack w" XIdle] by simp
  qed
qed

interpretation commands: op_system agent_step honest_inv "\<lambda>_. True"
proof
  fix w op assume w: "honest_inv w"
  have logs: "honest_inv (snd (snd (cancelTask e reason w)))" "honest_inv (cancel_ctx r c w)" for e reason r c
    by (rule honest_keep [OF w]; simp)+
  have "honest_inv (snd (snd (cancelTask [] m (w\<lparr>stopTriggered := True, rtShuttingDown := True\<rparr>))))" for m
    by (rule honest_keep [of "w\<lparr>stopTriggered := True, rtShuttingDown := True\<rparr>"]) (use w in \<open>simp_all add: honest_inv_def\<close>)
  moreover have honest_plain: "honest_inv (Enqueue rq w)" "honest_inv (w\<lparr>deadSession := d\<rparr>)" "honest_inv (CancelControlPlane w)"
    for rq d using w by (simp_all add: honest_inv_def Enqueue_def CancelControlPlane_def)
  moreover have "honest_inv (executeTask_end r w)" for r
    using w by (auto simp: executeTask_end_def Let_def honest_inv_def)
  moreover have "honest_inv (handleReceipt rc w)" for rc
    using w by (auto simp: handleReceipt_def confirmShutdown_def Let_def honest_inv_def split: prod.split)
  ultimately show "honest_inv (agent_step op w)"
    using w logs honest_executor honest_job_run
    by (cases op) (simp_all add: job_interrupt_def interrupted_def begin_shutdown_def honest_plain del: executor_step.simps)
qed

subsection \<open>Properties\<close>

text \<open>
  C6. However commands, downloads, sessions, leases and shutdowns interleave, at most one task of the
  agent runs with a context that is not cancelled, every running task runs under a reservation of its
  own that was launched, and over the whole life of the agent no reservation is launched twice.
\<close>

theorem one_live_task:
  "let w = fold agent_step ops (NewAgent aid txt)
   in distinct (launchedRes w) \<and> fst ` set (runningTasks w) \<subseteq> set (launchedRes w) \<and>
      distinct (map fst (runningTasks w)) \<and>
      length (filter (\<lambda>(r, t). cause_of w r = None) (runningTasks w)) \<le> 1"
proof -
  define w where "w = fold agent_step ops (NewAgent aid txt)"
  have "slot_inv (NewAgent aid txt)" by (simp add: slot_inv_def NewAgent_def)
  then have w: "slot_inv w" unfolding w_def by (rule slots.run_inv) (simp add: list_all_iff)
  let ?live = "filter (\<lambda>(r, t). cause_of w r = None) (runningTasks w)"
  have same: "fst x = fst y" if "x \<in> set ?live" "y \<in> set ?live" for x y
  proof -
    have "map_option fst (curTask w) = Some (fst z)" if "z \<in> set ?live" for z
    proof (rule slot_invD(3) [OF w])
      show "fst z \<in> fst ` set (runningTasks w)" "cause_of w (fst z) = None" using that by auto
    qed
    from this [OF that(1)] this [OF that(2)] show ?thesis by simp
  qed
  have d: "distinct (map fst ?live)" using slot_invD(1) [OF w] by (simp add: distinct_map_filter)
  have "length ?live \<le> 1"
  proof (cases ?live)
    case (Cons x rest)
    have "rest = []"
    proof (cases rest)
      case (Cons y ys)
      then show ?thesis using same [of x y] d \<open>?live = x # rest\<close> by simp
    qed
    then show ?thesis using Cons by simp
  qed simp
  with slot_invD(1,8,10) [OF w] show ?thesis unfolding w_def Let_def by blast
qed

lemma rtId_simps [simp]:
  "rtId (releaseReservedTask r c w) = rtId w" "rtId (snd (snd (cancelTask e reason w))) = rtId w"
  "rtId (finish rq ack w) = rtId w" "rtId (executeTask_end r w) = rtId w" "rtId (handleReceipt rc w) = rtId w"
  "rtId (interrupted j w) = rtId w"
  by (auto simp: releaseReservedTask_def cancelTask_def finish_def prepareShutdown_def CancelControlPlane_def
      executeTask_end_def handleReceipt_def confirmShutdown_def interrupted_def Let_def split: option.split prod.split)

lemma rtId_complete: "completeStart leave rq cp w = (r, w') \<Longrightarrow> rtId w' = rtId w"
  by (cases cp) (auto simp: forget_start_def split: if_splits)

lemma rtId_launch: "rtId (snd (launchReservedTask r c t env w)) = rtId w"
  by (auto simp: launchReservedTask_def split: option.split)

lemma rtId_reserve: "rtId (snd (reserveTask t w)) = rtId w"
  by (auto simp: reserveTask_def split: option.split)

lemma rtId_executor: "rtId (executor_step env leave w) = rtId w"
proof (cases "execPos w")
  case XIdle
  then show ?thesis by (cases "execQueue w") (auto simp: take_request_def Let_def split: prod.split)
next
  case (XBody rq)
  then show ?thesis by (simp add: execute_body_def Let_def split_beta split: commandBody.split)
next
  case (XBegin rq)
  then show ?thesis by (simp add: begin_inflight_def Let_def)
next
  case (XStart rq)
  then show ?thesis by (auto simp: begin_checks_def Let_def split_beta split: sum.split)
next
  case (XReserve rq t)
  obtain r w1 where s: "reserveTask t w = (r, w1)" by fastforce
  then have "rtId w1 = rtId w" using rtId_reserve [of t w] by simp
  then show ?thesis using XReserve s by (auto simp: begin_reserve_def Let_def split: sum.split option.split)
next
  case (XComplete rq cp)
  obtain r w1 where "completeStart leave rq cp w = (r, w1)" by fastforce
  then show ?thesis using XComplete rtId_complete by (auto split: option.split)
qed simp

lemma rtId_job: "rtId (run_job env leave i w) = rtId w"
proof -
  have "rtId w1 = rtId w" if j: "job_step env leave j w = (j', w1)" for j j' w1
  proof (cases "jbPos j")
    case JLaunch
    then show ?thesis using j rtId_launch [of "jbRes j" "rqCmd (jbReq j)" "jbTask j" env w] by (auto simp: job_step_def split: prod.splits)
  next
    case (JComplete cp)
    then show ?thesis using j rtId_complete by (auto simp: job_step_def split: prod.splits option.splits)
  qed (use j in \<open>auto simp: job_step_def split: option.splits\<close>)
  then show ?thesis by (auto simp: run_job_def split: prod.split option.split)
qed

lemma rtId_step: "rtId (agent_step op w) = rtId w"
  by (cases op) (auto simp: rtId_executor rtId_job job_interrupt_def begin_shutdown_def Enqueue_def CancelControlPlane_def
      simp del: executor_step.simps)

lemma rtId_run: "rtId (fold agent_step ops w) = rtId w"
  by (induction ops arbitrary: w) (simp_all add: rtId_step)

text \<open>
  C7. A start command is reported as applied only if its task was launched; and whatever the agent has
  launched, reported or not, came from a start command addressed to this agent whose assignment and
  bundle description are valid and give the task that runs.
\<close>

theorem applied_start_was_launched:
  shows "((c, ack) \<in> set (published (fold agent_step ops (NewAgent aid txt))) \<and> is_start c \<and> ackStatus ack = AckApplied \<longrightarrow>
      (\<exists>t. (c, t) \<in> set (launches (fold agent_step ops (NewAgent aid txt))))) \<and>
    list_all (\<lambda>(c', t). launchable aid c' t) (launches (fold agent_step ops (NewAgent aid txt)))"
proof -
  have "honest_inv (NewAgent aid txt)" by (simp add: honest_inv_def NewAgent_def)
  then have w: "honest_inv (fold agent_step ops (NewAgent aid txt))" by (rule commands.run_inv) (simp add: list_all_iff)
  have "rtId (fold agent_step ops (NewAgent aid txt)) = aid" by (simp add: rtId_run) (simp add: NewAgent_def)
  then have L: "list_all (\<lambda>(c', t). launchable aid c' t) (launches (fold agent_step ops (NewAgent aid txt)))"
    using w by (simp add: honest_inv_def)
  have "\<exists>t. (c, t) \<in> set (launches (fold agent_step ops (NewAgent aid txt)))"
    if "(c, ack) \<in> set (published (fold agent_step ops (NewAgent aid txt)))" "is_start c" "ackStatus ack = AckApplied"
  proof -
    have "c \<in> fst ` set (launches (fold agent_step ops (NewAgent aid txt)))"
      using w that by (auto simp: honest_inv_def list_all_iff honest_def)
    then show ?thesis by force
  qed
  with L show ?thesis by blast
qed

definition sample_start :: "string \<Rightarrow> string \<Rightarrow> nat \<Rightarrow> commandRequest" where
  "sample_start cid tid session =
    \<lparr>rqSession = session, rqCmd = \<lparr>CommandId = cid, Sequence = 1, cmdAgentId = ''a'', cmdTaskId = tid,
      CreatedAtUnixNano = 0, DeliveryGeneration = 0,
      Body = StartTask (Some \<lparr>taTaskId = tid, taStartNumber = 1, taStartIndex = 0, taTotalBots = 2, taConcurrentNum = 1\<rparr>)
        (Some \<lparr>Sha256 = replicate 32 0, bdSize = 1\<rparr>)\<rparr>\<rparr>"

text \<open>The executor's four steps of a start, and the steps of its goroutine up to its outcome.\<close>

definition exec_start :: "agent_op list" where
  "exec_start = replicate 4 (AExec None False)"

definition job_run :: "execError option \<Rightarrow> agent_op list" where
  "job_run dl = AJob dl False 0 # replicate 5 (AJob None False 0)"

theorem applied_start_was_launched_witness:
  "(\<exists>t. (rqCmd (sample_start ''c1'' ''t1'' 0), t) \<in> set (launches (fold agent_step
      (AEnqueue (sample_start ''c1'' ''t1'' 0) # exec_start @ job_run None) (NewAgent ''a'' (\<lambda>_. ''e''))))) \<and>
    list_all (\<lambda>(c', t). launchable ''a'' c' t) (launches (fold agent_step
      (AEnqueue (sample_start ''c1'' ''t1'' 0) # exec_start @ job_run None) (NewAgent ''a'' (\<lambda>_. ''e''))))"
proof -
  let ?c = "rqCmd (sample_start ''c1'' ''t1'' 0)"
  let ?ack = "\<lparr>ackCommandId = ''c1'', ackSequence = 1, ackAgentId = ''a'', ackTaskId = ''t1'', ackStatus = AckApplied, ackReason = []\<rparr>"
  let ?ops = "AEnqueue (sample_start ''c1'' ''t1'' 0) # exec_start @ job_run None"
  have "(?c, ?ack) \<in> set (published (fold agent_step ?ops (NewAgent ''a'' (\<lambda>_. ''e''))))" by code_simp
  moreover have "is_start ?c" by code_simp
  moreover have "ackStatus ?ack = AckApplied" by simp
  ultimately show ?thesis using applied_start_was_launched [of ?c ?ack ?ops "''a''" "\<lambda>_. ''e''"] by blast
qed

subsection \<open>Behaviours that are not intended\<close>

text \<open>
  After a launch the cause of the context is looked at again.  A lease that expires, or a stop that
  arrives, between the two releases the slot of the task that has just started: the command is
  rejected although its task runs, and the next start runs a second task beside it.
\<close>

lemma slot_freed_while_running:
  "let w = fold agent_step
     (AEnqueue (sample_start ''c1'' ''t1'' 0) # exec_start @ replicate 3 (AJob None False 0) @ [ALeaseExpired] @
      replicate 3 (AJob None False 0) @ AEnqueue (sample_start ''c2'' ''t2'' 0) # exec_start @ job_run None)
     (NewAgent ''a'' (\<lambda>_. ''e''))
   in map (asTaskID \<circ> snd) (runningTasks w) = [''t2'', ''t1''] \<and>
      map (\<lambda>(c, ack). (CommandId c, ackStatus ack)) (published w) = [(''c2'', AckApplied), (''c1'', AckRejected)]"
  by code_simp

text \<open>
  A start whose download fails with a transient error on a session that stays open is forgotten: no
  outcome is recorded, nothing retries it, and the admin sends it again only on another session.
\<close>

lemma transient_start_forgotten:
  "let w = fold agent_step (AEnqueue (sample_start ''c1'' ''t1'' 0) # exec_start @ job_run (Some (RpcStatus 14 [])))
     (NewAgent ''a'' (\<lambda>_. ''e''))
   in outItems (outcomes w) = [] \<and> execQueue w = [] \<and> jobs w = [] \<and> inflight w = [] \<and>
      deferredReq w ''c1'' = None \<and> \<not> deadSession w 0 \<and> runningTasks w = [] \<and> launches w = []"
  by code_simp

text \<open>
  The lookup of an earlier outcome and the check of the commands in flight are two steps.  When the
  outcome is published between them, a redelivered start runs again: here its task runs although
  the command was, and stays, rejected.
\<close>

lemma rejected_start_runs:
  "let w = fold agent_step
     (AEnqueue (sample_start ''c1'' ''t1'' 0) # exec_start @ replicate 3 (AJob (Some (OtherError [])) False 0) @
      [AEnqueue (sample_start ''c1'' ''t1'' 1), AExec None False] @ replicate 2 (AJob None False 0) @
      replicate 3 (AExec None False) @ job_run None)
     (NewAgent ''a'' (\<lambda>_. ''e''))
   in map (asTaskID \<circ> snd) (runningTasks w) = [''t1''] \<and> map ackStatus (Snapshot (outcomes w)) = [AckRejected]"
  by code_simp

end
