(* ===== verification/StateStore.thy ===== *)
theory StateStore
  imports GoValue Prelude "HOL-Library.AList"
begin

text \<open>
  The state of a robot (\<^verbatim>\<open>state/store.go\<close>, \<^verbatim>\<open>state/overlay.go\<close>).  Maps, lists and overlays are shared by
  reference: a value refers to them by an address of the store's heap, and a write through one path
  is seen through every other path to the same container.  A message kept in its wire form is an
  opaque value of type \<open>'n\<close>; how it is navigated and unfolded is the interface \<open>navLib\<close>, whose results
  are built on the spot and hence get new addresses.
\<close>

subsection \<open>Values\<close>

text \<open>What navigating or unfolding an opaque value yields.\<close>

datatype 'n nval = NScalar gval | NNav 'n | NMap "(string \<times> 'n nval) list" | NList "'n nval list"

text \<open>\<open>PathNavigator\<close> and \<open>ValueMaterializer\<close>; \<open>None\<close>: no such path, or not a materializer.\<close>

record 'n navLib =
  NavigateSegs :: "'n \<Rightarrow> string list \<Rightarrow> 'n nval option"
  MaterializeValue :: "'n \<Rightarrow> 'n nval option"

text \<open>The entry of an overlay: a value, or the mark of a key that was set to nil.\<close>

datatype override = Tombstone | Val gval

datatype 'n obj =
    OMap "(string \<times> gval) list"
  | OList "gval list"
  | ONav 'n
  | Overlay (base: 'n) (overrides: "(string \<times> override) list")

record 'n Store =
  sdata :: "(string \<times> gval) list"
  objs :: "nat \<Rightarrow> 'n obj option"
  nextObj :: nat

definition NewStore :: "'n Store" where
  "NewStore = \<lparr>sdata = [], objs = (\<lambda>_. None), nextObj = 0\<rparr>"

definition obj_of :: "'n Store \<Rightarrow> gval \<Rightarrow> 'n obj option" where
  "obj_of st v = (case v of VRef a \<Rightarrow> objs st a | _ \<Rightarrow> None)"

definition new_obj :: "'n obj \<Rightarrow> 'n Store \<Rightarrow> gval \<times> 'n Store" where
  "new_obj x st = (VRef (nextObj st), st\<lparr>objs := (objs st)(nextObj st \<mapsto> x), nextObj := nextObj st + 1\<rparr>)"

definition set_obj :: "gval \<Rightarrow> 'n obj \<Rightarrow> 'n Store \<Rightarrow> 'n Store" where
  "set_obj v x st = (case v of VRef a \<Rightarrow> st\<lparr>objs := (objs st)(a \<mapsto> x)\<rparr> | _ \<Rightarrow> st)"

definition lookup :: "(string \<times> gval) list \<Rightarrow> string \<Rightarrow> gval" where
  "lookup m k = (case map_of m k of Some v \<Rightarrow> v | None \<Rightarrow> VNil)"

fun build :: "'n nval \<Rightarrow> 'n Store \<Rightarrow> gval \<times> 'n Store"
and build_list :: "'n nval list \<Rightarrow> 'n Store \<Rightarrow> gval list \<times> 'n Store"
and build_map :: "(string \<times> 'n nval) list \<Rightarrow> 'n Store \<Rightarrow> (string \<times> gval) list \<times> 'n Store" where
  "build (NScalar v) st = (v, st)"
| "build (NNav n) st = new_obj (ONav n) st"
| "build (NMap m) st = (let (kvs, st1) = build_map m st in new_obj (OMap kvs) st1)"
| "build (NList xs) st = (let (vs, st1) = build_list xs st in new_obj (OList vs) st1)"
| "build_list [] st = ([], st)"
| "build_list (x # xs) st = (let (v, st1) = build x st; (vs, st2) = build_list xs st1 in (v # vs, st2))"
| "build_map [] st = ([], st)"
| "build_map ((k, x) # xs) st = (let (v, st1) = build x st; (kvs, st2) = build_map xs st1 in ((k, v) # kvs, st2))"

subsection \<open>Paths\<close>

text \<open>\<open>SplitPath\<close>; an opening bracket that is never closed is skipped.\<close>

function split_path :: "string \<Rightarrow> string \<Rightarrow> string list" where
  "split_path [] buf = (if buf = [] then [] else [buf])"
| "split_path (ch # rest) buf =
    (let flush = (if buf = [] then [] else [buf])
     in if ch = CHR ''.'' then flush @ split_path rest []
        else if ch = CHR ''['' then
          (let inner = takeWhile (\<lambda>x. x \<noteq> CHR '']'') rest; after = dropWhile (\<lambda>x. x \<noteq> CHR '']'') rest
           in if after = [] then flush @ split_path rest []
              else flush @ (CHR ''['' # inner @ [CHR '']'']) # split_path (tl after) [])
        else split_path rest (buf @ [ch]))"
  by pat_completeness auto
termination
  by (relation "measure (\<lambda>(s, b). length s)") (auto simp: less_Suc_eq_le intro: le_trans [OF diff_le_self length_dropWhile_le])

definition SplitPath :: "string \<Rightarrow> string list" where
  "SplitPath path = split_path path []"

definition isArrayIndex :: "string \<Rightarrow> bool" where
  "isArrayIndex seg \<longleftrightarrow> length seg \<ge> 2 \<and> hd seg = CHR ''['' \<and> last seg = CHR '']''"

text \<open>\<open>strconv.Atoi\<close>, and \<open>strconv.ParseInt\<close> to the base ten.\<close>

definition atoi :: "string \<Rightarrow> int option" where
  "atoi s =
    (let neg = (s \<noteq> [] \<and> hd s = CHR ''-''); ds = (if s \<noteq> [] \<and> (hd s = CHR ''-'' \<or> hd s = CHR ''+'') then tl s else s);
         n = (if neg then - dec_val ds else dec_val ds)
     in if ds = [] \<or> \<not> list_all isDigit ds \<or> \<not> is_i64 n then None else Some n)"

definition index_of :: "string \<Rightarrow> int option" where
  "index_of seg = atoi (butlast (tl seg))"

subsection \<open>Reading\<close>

definition navigateValue :: "'n Store \<Rightarrow> gval \<Rightarrow> string \<Rightarrow> gval" where
  "navigateValue st cur seg0 =
    (let seg = trim_space seg0
     in if seg = [] then VNil
        else if isArrayIndex seg then
          (case index_of seg of
             None \<Rightarrow> VNil
           | Some i \<Rightarrow>
              (case obj_of st cur of
                 Some (OList xs) \<Rightarrow> if i < 0 \<or> i \<ge> int (length xs) then VNil else xs ! nat i
               | _ \<Rightarrow> VNil))
        else (case obj_of st cur of Some (OMap m) \<Rightarrow> lookup m seg | _ \<Rightarrow> VNil))"

definition build_found :: "'n nval option \<Rightarrow> 'n Store \<Rightarrow> gval option \<times> 'n Store" where
  "build_found r st = (case r of None \<Rightarrow> (None, st) | Some x \<Rightarrow> (let (v, st1) = build x st in (Some v, st1)))"

text \<open>
  \<open>navigateFrom\<close>, with the navigation of an overlay in the place where it is called.  The overlay looks
  at its own entries first; an index never matches there.
\<close>

fun navigateFrom :: "'n navLib \<Rightarrow> gval \<Rightarrow> string list \<Rightarrow> 'n Store \<Rightarrow> gval option \<times> 'n Store"
and overlay_segs :: "'n navLib \<Rightarrow> 'n \<Rightarrow> (string \<times> override) list \<Rightarrow> string list \<Rightarrow> 'n Store \<Rightarrow> gval option \<times> 'n Store" where
  "navigateFrom L v [] st = (if v = VNil then None else Some v, st)"
| "navigateFrom L v (seg # rest) st =
    (if v = VNil then (None, st)
     else case obj_of st v of
       Some (ONav n) \<Rightarrow> build_found (NavigateSegs L n (seg # rest)) st
     | Some (Overlay b ov) \<Rightarrow> overlay_segs L b ov (seg # rest) st
     | _ \<Rightarrow> navigateFrom L (navigateValue st v seg) rest st)"
| "overlay_segs L b ov [] st = (None, st)"
| "overlay_segs L b ov (seg # rest) st =
    (if isArrayIndex seg then (None, st)
     else case map_of ov seg of
       Some Tombstone \<Rightarrow> (None, st)
     | Some (Val v) \<Rightarrow> if rest = [] then (Some v, st) else navigateFrom L v rest st
     | None \<Rightarrow> build_found (NavigateSegs L b (seg # rest)) st)"

definition nav_segs :: "'n navLib \<Rightarrow> 'n obj \<Rightarrow> string list \<Rightarrow> 'n Store \<Rightarrow> (gval option \<times> 'n Store) option" where
  "nav_segs L x segs st =
    (case x of
       ONav n \<Rightarrow> Some (build_found (NavigateSegs L n segs) st)
     | Overlay b ov \<Rightarrow> Some (overlay_segs L b ov segs st)
     | _ \<Rightarrow> None)"

text \<open>The loop of \<open>GetPath\<close> and \<open>NavigatePath\<close>.\<close>

fun get_loop :: "'n navLib \<Rightarrow> gval \<Rightarrow> string list \<Rightarrow> 'n Store \<Rightarrow> gval \<times> 'n Store" where
  "get_loop L cur [] st = (cur, st)"
| "get_loop L cur (seg # rest) st =
    (if cur = VNil then (VNil, st)
     else case Option.bind (obj_of st cur) (\<lambda>x. nav_segs L x (seg # rest) st) of
       Some (r, st1) \<Rightarrow> (case r of None \<Rightarrow> VNil | Some v \<Rightarrow> v, st1)
     | None \<Rightarrow> get_loop L (navigateValue st cur seg) rest st)"

definition GetPath :: "'n navLib \<Rightarrow> string \<Rightarrow> 'n Store \<Rightarrow> gval \<times> 'n Store" where
  "GetPath L path st =
    (case SplitPath path of
       [] \<Rightarrow> (VNil, st)
     | seg # rest \<Rightarrow> get_loop L (lookup (sdata st) seg) rest st)"

definition NavigatePath :: "'n navLib \<Rightarrow> gval \<Rightarrow> string \<Rightarrow> 'n Store \<Rightarrow> gval \<times> 'n Store" where
  "NavigatePath L v path st = get_loop L v (SplitPath path) st"

subsection \<open>Writing\<close>

definition setChild :: "gval \<Rightarrow> 'n \<Rightarrow> (string \<times> override) list \<Rightarrow> string \<Rightarrow> gval \<Rightarrow> 'n Store \<Rightarrow> 'n Store" where
  "setChild me b ov seg val st =
    (if isArrayIndex seg then st
     else set_obj me (Overlay b (AList.update seg (if val = VNil then Tombstone else Val val) ov)) st)"

definition setInValue :: "gval \<Rightarrow> string \<Rightarrow> gval \<Rightarrow> 'n Store \<Rightarrow> 'n Store" where
  "setInValue cur seg val st =
    (case obj_of st cur of
       Some (Overlay b ov) \<Rightarrow> setChild cur b ov seg val st
     | x \<Rightarrow>
        if isArrayIndex seg then
          (case (index_of seg, x) of
             (Some i, Some (OList xs)) \<Rightarrow>
               if i < 0 \<or> i \<ge> int (length xs) then st else set_obj cur (OList (xs[nat i := val])) st
           | _ \<Rightarrow> st)
        else (case x of Some (OMap m) \<Rightarrow> set_obj cur (OMap (AList.update seg val m)) st | _ \<Rightarrow> st))"

text \<open>The value a walk goes on with: a container as it is, a message under an overlay, else an empty map.\<close>

definition container_for :: "gval \<Rightarrow> 'n Store \<Rightarrow> gval \<times> 'n Store" where
  "container_for v st =
    (case obj_of st v of
       Some (ONav n) \<Rightarrow> new_obj (Overlay n []) st
     | Some x \<Rightarrow> (v, st)
     | None \<Rightarrow> new_obj (OMap []) st)"

text \<open>\<open>childForWrite\<close>; \<open>None\<close>: the segment cannot be written.\<close>

definition childForWrite :: "'n navLib \<Rightarrow> gval \<Rightarrow> 'n \<Rightarrow> (string \<times> override) list \<Rightarrow> string \<Rightarrow> 'n Store \<Rightarrow> gval option \<times> 'n Store" where
  "childForWrite L me b ov seg st =
    (if isArrayIndex seg then (None, st)
     else
       let (v, st1) = (case map_of ov seg of
              Some Tombstone \<Rightarrow> (VNil, st)
            | Some (Val v) \<Rightarrow> (v, st)
            | None \<Rightarrow> (case NavigateSegs L b [seg] of None \<Rightarrow> (VNil, st) | Some x \<Rightarrow> build x st));
           (c, st2) = container_for v st1
       in (Some c, set_obj me (Overlay b (AList.update seg (Val c) ov)) st2))"

text \<open>One intermediate segment of \<open>SetPath\<close>.\<close>

definition step_down :: "'n navLib \<Rightarrow> gval \<Rightarrow> string \<Rightarrow> 'n Store \<Rightarrow> gval option \<times> 'n Store" where
  "step_down L cur seg st =
    (case obj_of st cur of
       Some (Overlay b ov) \<Rightarrow> childForWrite L cur b ov seg st
     | _ \<Rightarrow>
        (let v = navigateValue st cur seg
         in if obj_of st v = None \<and> isArrayIndex seg then (None, st)
            else let (c, st1) = container_for v st
              in (Some c, if c = v then st1 else setInValue cur seg c st1)))"

fun set_walk :: "'n navLib \<Rightarrow> gval \<Rightarrow> string list \<Rightarrow> gval \<Rightarrow> 'n Store \<Rightarrow> 'n Store" where
  "set_walk L cur [] val st = st"
| "set_walk L cur [seg] val st = setInValue cur seg val st"
| "set_walk L cur (seg # rest) val st =
    (case step_down L cur seg st of
       (None, st1) \<Rightarrow> st1
     | (Some c, st1) \<Rightarrow> set_walk L c rest val st1)"

definition Set :: "string \<Rightarrow> gval \<Rightarrow> 'n Store \<Rightarrow> 'n Store" where
  "Set key val st = st\<lparr>sdata := AList.update key val (sdata st)\<rparr>"

definition SetSegs :: "'n navLib \<Rightarrow> string list \<Rightarrow> gval \<Rightarrow> 'n Store \<Rightarrow> 'n Store" where
  "SetSegs L segs val st =
    (case segs of
       [] \<Rightarrow> st
     | [key] \<Rightarrow> Set key val st
     | key # rest \<Rightarrow>
        (let (c, st1) = container_for (lookup (sdata st) key) st
         in set_walk L c rest val (Set key c st1)))"

definition SetPath :: "'n navLib \<Rightarrow> string \<Rightarrow> gval \<Rightarrow> 'n Store \<Rightarrow> 'n Store" where
  "SetPath L path val st = SetSegs L (SplitPath path) val st"

subsection \<open>Unfolding\<close>

text \<open>
  \<open>materializeAny\<close>.  A container that contains itself makes the code recurse until its stack is
  exhausted; \<open>None\<close> is that the fuel does not suffice.
\<close>

fun those :: "'a option list \<Rightarrow> 'a list option" where
  "those [] = Some []"
| "those (x # xs) = (case x of None \<Rightarrow> None | Some y \<Rightarrow> map_option ((#) y) (those xs))"

definition on_values :: "('a \<Rightarrow> 'b option) \<Rightarrow> (string \<times> 'a) list \<Rightarrow> (string \<times> 'b) list option" where
  "on_values f m = those (map (\<lambda>(k, v). map_option (Pair k) (f v)) m)"

fun apply_overrides :: "(string \<times> 'n nval option) list \<Rightarrow> (string \<times> 'n nval) list \<Rightarrow> (string \<times> 'n nval) list" where
  "apply_overrides [] m = m"
| "apply_overrides ((k, None) # rest) m = apply_overrides rest (AList.delete k m)"
| "apply_overrides ((k, Some x) # rest) m = apply_overrides rest (AList.update k x m)"

definition overlay_value :: "'n navLib \<Rightarrow> 'n \<Rightarrow> (string \<times> 'n nval option) list \<Rightarrow> 'n nval" where
  "overlay_value L b ovs =
    NMap (apply_overrides ovs (case MaterializeValue L b of Some (NMap m) \<Rightarrow> m | _ \<Rightarrow> []))"

fun materializeAny :: "'n navLib \<Rightarrow> 'n Store \<Rightarrow> nat \<Rightarrow> gval \<Rightarrow> 'n nval option"
and materializeNew :: "'n navLib \<Rightarrow> 'n Store \<Rightarrow> nat \<Rightarrow> 'n nval \<Rightarrow> 'n nval option" where
  "materializeAny L st 0 v = None"
| "materializeAny L st (Suc fuel) v =
    (case obj_of st v of
       None \<Rightarrow> Some (NScalar v)
     | Some (OList xs) \<Rightarrow> map_option NList (those (map (materializeAny L st fuel) xs))
     | Some (OMap m) \<Rightarrow> map_option NMap (on_values (materializeAny L st fuel) m)
     | Some (ONav n) \<Rightarrow> (case MaterializeValue L n of None \<Rightarrow> Some (NScalar v) | Some x \<Rightarrow> materializeNew L st fuel x)
     | Some (Overlay b ov) \<Rightarrow>
        (case on_values (\<lambda>x. case x of Tombstone \<Rightarrow> Some None | Val w \<Rightarrow> map_option Some (materializeAny L st fuel w)) ov of
              None \<Rightarrow> None
            | Some ovs \<Rightarrow> materializeNew L st fuel (overlay_value L b ovs)))"
| "materializeNew L st 0 x = None"
| "materializeNew L st (Suc fuel) x =
    (case x of
       NScalar v \<Rightarrow> Some (NScalar v)
     | NNav n \<Rightarrow> (case MaterializeValue L n of None \<Rightarrow> Some (NNav n) | Some y \<Rightarrow> materializeNew L st fuel y)
     | NMap m \<Rightarrow> map_option NMap (on_values (materializeNew L st fuel) m)
     | NList xs \<Rightarrow> map_option NList (those (map (materializeNew L st fuel) xs)))"

subsection \<open>Conversions\<close>

definition wrap32 :: "int \<Rightarrow> int" where "wrap32 n = (n + 2 ^ 31) mod 2 ^ 32 - 2 ^ 31"

fun toInt :: "gval \<Rightarrow> int" where
  "toInt (VInt k n) = (if k \<in> {KInt, KInt32, KInt64} then n else 0)"
| "toInt (VUint k n) = (if k \<in> {KUint, KUint32, KUint64} then wrap64 n else 0)"
| "toInt (VF64 x) = int_of_f64 x"
| "toInt (VF32 x) = int_of_f64 x"
| "toInt _ = 0"

fun ToInt64Safe :: "gval \<Rightarrow> int option" where
  "ToInt64Safe (VInt k n) = (if k \<in> {KInt, KInt32, KInt64} then Some n else None)"
| "ToInt64Safe (VUint k n) =
    (if k \<in> {KUint, KUint64} then (if n \<ge> 2 ^ 63 then None else Some n)
     else if k = KUint32 then Some n else None)"
| "ToInt64Safe (VF64 x) = Some (int_of_f64 x)"
| "ToInt64Safe (VF32 x) = Some (int_of_f64 x)"
| "ToInt64Safe (VBool b) = Some (if b then 1 else 0)"
| "ToInt64Safe (VStr s) = atoi (trim_space s)"
| "ToInt64Safe _ = None"

definition ToInt64 :: "gval \<Rightarrow> int" where
  "ToInt64 v = (case ToInt64Safe v of None \<Rightarrow> 0 | Some n \<Rightarrow> n)"

fun ToFloat64Safe :: "gval \<Rightarrow> float64 option" where
  "ToFloat64Safe (VInt k n) = (if k \<in> {KInt, KInt32, KInt64} then Some (f64_of_int n) else None)"
| "ToFloat64Safe (VUint k n) = (if k \<in> {KUint, KUint32, KUint64} then Some (f64_of_int n) else None)"
| "ToFloat64Safe (VF64 x) = Some x"
| "ToFloat64Safe (VF32 x) = Some x"
| "ToFloat64Safe _ = None"

definition ToFloat64 :: "gval \<Rightarrow> float64" where
  "ToFloat64 v = (case ToFloat64Safe v of None \<Rightarrow> Fin 0 | Some x \<Rightarrow> x)"

text \<open>\<open>fmtv\<close> is \<^verbatim>\<open>fmt.Sprintf("%v", _)\<close>.\<close>

definition DeepEqual :: "(gval \<Rightarrow> string) \<Rightarrow> gval \<Rightarrow> gval \<Rightarrow> bool" where
  "DeepEqual fmtv a b =
    (if a = VNil \<or> b = VNil then a = VNil \<and> b = VNil
     else case (ToFloat64Safe a, ToFloat64Safe b) of
       (Some x, Some y) \<Rightarrow> feq x y
     | _ \<Rightarrow> fmtv a = fmtv b)"

definition containsValue :: "(gval \<Rightarrow> string) \<Rightarrow> 'n Store \<Rightarrow> gval \<Rightarrow> gval \<Rightarrow> bool" where
  "containsValue fmtv st a b =
    (if a = VNil then False
     else case obj_of st a of
       Some (OList xs) \<Rightarrow> list_ex (\<lambda>it. DeepEqual fmtv it b) xs
     | _ \<Rightarrow> sublist (fmtv b) (fmtv a))"

definition num_of :: "gval \<Rightarrow> gval \<Rightarrow> float64 option" where
  "num_of a b = (if a = VNil \<and> ToFloat64Safe b \<noteq> None then Some (Fin 0) else ToFloat64Safe a)"

definition value_in :: "(gval \<Rightarrow> string) \<Rightarrow> 'n Store \<Rightarrow> gval \<Rightarrow> gval \<Rightarrow> bool" where
  "value_in fmtv st a b = (case obj_of st b of Some (OList xs) \<Rightarrow> list_ex (DeepEqual fmtv a) xs | _ \<Rightarrow> False)"

definition CompareValues :: "(gval \<Rightarrow> string) \<Rightarrow> 'n Store \<Rightarrow> gval \<Rightarrow> gval \<Rightarrow> string \<Rightarrow> bool" where
  "CompareValues fmtv st a b opr =
    (let na = num_of a b; nb = num_of b a;
         eq = (case (na, nb) of (Some x, Some y) \<Rightarrow> feq x y
               | _ \<Rightarrow> if a = VNil \<and> b = VNil then True else if a = VNil \<or> b = VNil then False else fmtv a = fmtv b);
         ordered = (\<lambda>f. case (na, nb) of (Some x, Some y) \<Rightarrow> f x y | _ \<Rightarrow> False)
     in if opr \<in> {''eq'', ''=='', []} then eq
        else if opr \<in> {''neq'', ''!=''} then \<not> eq
        else if opr \<in> {''gt'', ''>''} then ordered (\<lambda>x y. flt y x)
        else if opr \<in> {''gte'', ''>=''} then ordered (\<lambda>x y. flt y x \<or> feq x y)
        else if opr \<in> {''lt'', ''<''} then ordered flt
        else if opr \<in> {''lte'', ''<=''} then ordered (\<lambda>x y. flt x y \<or> feq x y)
        else if opr = ''contains'' then containsValue fmtv st a b
        else if opr = ''notContains'' then \<not> containsValue fmtv st a b
        else if opr = ''in'' then value_in fmtv st a b
        else if opr = ''notIn'' then \<not> value_in fmtv st a b
        else if opr = ''notNil'' then a \<noteq> VNil
        else if opr = ''isNil'' then a = VNil
        else False)"

subsection \<open>Top-level access\<close>

definition Get :: "string \<Rightarrow> 'n Store \<Rightarrow> gval" where
  "Get key st = lookup (sdata st) key"

definition GetInt :: "string \<Rightarrow> 'n Store \<Rightarrow> int" where
  "GetInt key st = toInt (Get key st)"

definition GetInt32 :: "string \<Rightarrow> 'n Store \<Rightarrow> int" where
  "GetInt32 key st = wrap32 (GetInt key st)"

definition GetInt64 :: "string \<Rightarrow> 'n Store \<Rightarrow> int" where
  "GetInt64 key st = ToInt64 (Get key st)"

definition GetString :: "(gval \<Rightarrow> string) \<Rightarrow> string \<Rightarrow> 'n Store \<Rightarrow> string" where
  "GetString fmtv key st = (case Get key st of VNil \<Rightarrow> [] | VStr s \<Rightarrow> s | v \<Rightarrow> fmtv v)"

definition Delete :: "string \<Rightarrow> 'n Store \<Rightarrow> 'n Store" where
  "Delete key st = st\<lparr>sdata := AList.delete key (sdata st)\<rparr>"

definition Clear :: "'n Store \<Rightarrow> 'n Store" where
  "Clear st = st\<lparr>sdata := []\<rparr>"

definition Increment :: "string \<Rightarrow> 'n Store \<Rightarrow> int \<times> 'n Store" where
  "Increment key st = (let v = wrap64 (toInt (Get key st) + 1) in (v, Set key (VInt KInt v) st))"

definition IncrementInt64 :: "string \<Rightarrow> 'n Store \<Rightarrow> int \<times> 'n Store" where
  "IncrementInt64 key st = (let v = wrap64 (ToInt64 (Get key st) + 1) in (v, Set key (VInt KInt64 v) st))"

definition Keys :: "'n Store \<Rightarrow> string list" where
  "Keys st = map fst (sdata st)"

definition Has :: "string \<Rightarrow> 'n Store \<Rightarrow> bool" where
  "Has key st \<longleftrightarrow> map_of (sdata st) key \<noteq> None"

text \<open>
  \<open>MaterializeValue\<close> of a value; the outer \<open>None\<close> is that the fuel does not suffice, the inner one
  that the value is not a materializer.
\<close>

definition mat_value :: "'n navLib \<Rightarrow> nat \<Rightarrow> gval \<Rightarrow> 'n Store \<Rightarrow> 'n nval option option" where
  "mat_value L fuel v st =
    (case obj_of st v of
       Some (ONav n) \<Rightarrow> Some (MaterializeValue L n)
     | Some (Overlay b ov) \<Rightarrow>
        map_option (\<lambda>ovs. Some (overlay_value L b ovs))
          (on_values (\<lambda>x. case x of Tombstone \<Rightarrow> Some None | Val w \<Rightarrow> map_option Some (materializeAny L st fuel w)) ov)
     | _ \<Rightarrow> Some None)"

text \<open>The copies that \<open>GetList\<close> and \<open>GetMap\<close> return, by their contents; \<open>Some None\<close> is nil.\<close>

definition GetList :: "'n navLib \<Rightarrow> nat \<Rightarrow> string \<Rightarrow> 'n Store \<Rightarrow> (gval list option \<times> 'n Store) option" where
  "GetList L fuel key st =
    (case obj_of st (Get key st) of
       Some (OList xs) \<Rightarrow> Some (Some xs, st)
     | _ \<Rightarrow> map_option (\<lambda>m. case m of
          Some (NList xs) \<Rightarrow> (let (vs, st1) = build_list xs st in (Some vs, st1))
        | _ \<Rightarrow> (None, st)) (mat_value L fuel (Get key st) st))"

definition GetMap :: "'n navLib \<Rightarrow> nat \<Rightarrow> string \<Rightarrow> 'n Store \<Rightarrow> ((string \<times> gval) list option \<times> 'n Store) option" where
  "GetMap L fuel key st =
    (case obj_of st (Get key st) of
       Some (OMap m) \<Rightarrow> Some (Some m, st)
     | _ \<Rightarrow> map_option (\<lambda>x. case x of
          Some (NMap m) \<Rightarrow> (let (kvs, st1) = build_map m st in (Some kvs, st1))
        | _ \<Rightarrow> (None, st)) (mat_value L fuel (Get key st) st))"

definition ListLen :: "string \<Rightarrow> 'n Store \<Rightarrow> nat" where
  "ListLen key st = (case obj_of st (Get key st) of Some (OList xs) \<Rightarrow> length xs | _ \<Rightarrow> 0)"

definition pick_nth :: "(nat \<Rightarrow> int) \<Rightarrow> 'a list \<Rightarrow> 'a option" where
  "pick_nth pick xs =
    (if xs = [] then None
     else let i = pick (length xs) in if i < 0 \<or> i \<ge> int (length xs) then None else Some (xs ! nat i))"

definition PickFromList :: "string \<Rightarrow> (nat \<Rightarrow> int) \<Rightarrow> 'n Store \<Rightarrow> gval option" where
  "PickFromList key pick st = (case obj_of st (Get key st) of Some (OList xs) \<Rightarrow> pick_nth pick xs | _ \<Rightarrow> None)"

text \<open>\<open>order\<close> is the order in which the map is iterated over, which Go leaves open.\<close>

definition PickMapKey ::
  "'n navLib \<Rightarrow> nat \<Rightarrow> ((string \<times> gval) list \<Rightarrow> (string \<times> gval) list) \<Rightarrow> string \<Rightarrow> (nat \<Rightarrow> int) \<Rightarrow> 'n Store \<Rightarrow> string option option" where
  "PickMapKey L fuel order key pick st =
    map_option (\<lambda>(m, st1). Option.bind m (\<lambda>kvs. map_option fst (pick_nth pick (order kvs)))) (GetMap L fuel key st)"

definition PickMapValue ::
  "'n navLib \<Rightarrow> nat \<Rightarrow> ((string \<times> gval) list \<Rightarrow> (string \<times> gval) list) \<Rightarrow> string \<Rightarrow> (nat \<Rightarrow> int) \<Rightarrow> 'n Store \<Rightarrow>
   (gval option \<times> 'n Store) option" where
  "PickMapValue L fuel order key pick st =
    map_option (\<lambda>(m, st1). (Option.bind m (\<lambda>kvs. map_option snd (pick_nth pick (order kvs))), st1)) (GetMap L fuel key st)"

subsection \<open>The heap\<close>

definition heap_ok :: "'n Store \<Rightarrow> bool" where
  "heap_ok st \<longleftrightarrow> (\<forall>a. objs st a \<noteq> None \<longrightarrow> a < nextObj st)"

text \<open>A store that only got new objects.\<close>

definition grown :: "'n Store \<Rightarrow> 'n Store \<Rightarrow> bool" where
  "grown st st' \<longleftrightarrow> sdata st' = sdata st \<and> nextObj st \<le> nextObj st' \<and>
     (\<forall>a<nextObj st. objs st' a = objs st a) \<and> (heap_ok st \<longrightarrow> heap_ok st')"

lemma grown_refl [simp]: "grown st st"
  by (simp add: grown_def)

lemma grown_trans: "grown st st1 \<Longrightarrow> grown st1 st2 \<Longrightarrow> grown st st2"
  by (fastforce simp: grown_def)

lemma grown_new [simp]: "new_obj x st = (v, st1) \<Longrightarrow> grown st st1 \<and> obj_of st1 v = Some x \<and> v = VRef (nextObj st)"
  by (auto simp: new_obj_def grown_def heap_ok_def obj_of_def less_Suc_eq)

lemma grown_build:
  "build x st = (v, st1) \<Longrightarrow> grown st st1"
  "build_list xs st = (vs, st1) \<Longrightarrow> grown st st1"
  "build_map m st = (kvs, st1) \<Longrightarrow> grown st st1"
  by (induction x st and xs st and m st arbitrary: v st1 and vs st1 and kvs st1 rule: build_build_list_build_map.induct)
    (auto split: prod.splits intro: grown_trans dest: grown_new)

lemma grown_found: "build_found r st = (v, st1) \<Longrightarrow> grown st st1"
  by (auto simp: build_found_def grown_build(1) split: option.splits prod.splits)

lemma grown_navigate:
  "navigateFrom L v segs st = (r, st1) \<Longrightarrow> grown st st1"
  "overlay_segs L b ov segs st = (r, st1) \<Longrightarrow> grown st st1"
  by (induction L v segs st and L b ov segs st arbitrary: r st1 and r st1 rule: navigateFrom_overlay_segs.induct)
    (auto split: if_splits option.splits obj.splits override.splits simp: grown_found)

text \<open>The two loops that follow a path find the same.\<close>

definition found :: "gval option \<times> 'n Store \<Rightarrow> gval \<times> 'n Store" where
  "found r = (case fst r of None \<Rightarrow> VNil | Some v \<Rightarrow> v, snd r)"

lemma get_loop_navigateFrom: "get_loop L v segs st = found (navigateFrom L v segs st)"
proof (induction L v segs st rule: get_loop.induct)
  case (2 L cur seg rest st)
  show ?case
  proof (cases "obj_of st cur")
    case (Some x)
    then show ?thesis using 2 by (cases x) (auto simp: nav_segs_def found_def split: prod.split)
  qed (use 2 in \<open>auto simp: found_def\<close>)
qed (simp add: found_def)

subsection \<open>Writes are read back\<close>

text \<open>
  What the container at \<open>cur\<close> holds under a segment, and whether it takes a value there that is found
  again: reading trims the segment, so it must be trimmed already.
\<close>

definition holds :: "'n Store \<Rightarrow> gval \<Rightarrow> string \<Rightarrow> gval \<Rightarrow> bool" where
  "holds st cur seg v \<longleftrightarrow>
     (case obj_of st cur of
        Some (Overlay b ov) \<Rightarrow> \<not> isArrayIndex seg \<and> map_of ov seg = Some (if v = VNil then Tombstone else Val v)
      | Some (ONav n) \<Rightarrow> False
      | Some x \<Rightarrow> navigateValue st cur seg = v
      | None \<Rightarrow> False)"

definition writable :: "'n Store \<Rightarrow> gval \<Rightarrow> string \<Rightarrow> bool" where
  "writable st cur seg \<longleftrightarrow>
     trim_space seg = seg \<and> seg \<noteq> [] \<and>
     (case obj_of st cur of
        Some (OMap m) \<Rightarrow> \<not> isArrayIndex seg
      | Some (Overlay b ov) \<Rightarrow> \<not> isArrayIndex seg
      | Some (OList xs) \<Rightarrow> isArrayIndex seg \<and> (case index_of seg of Some i \<Rightarrow> 0 \<le> i \<and> i < int (length xs) | None \<Rightarrow> False)
      | _ \<Rightarrow> False)"

fun address :: "gval \<Rightarrow> nat list" where
  "address (VRef a) = [a]"
| "address _ = []"

lemma obj_of_address: "obj_of st v \<noteq> None \<Longrightarrow> \<exists>a. v = VRef a \<and> objs st a \<noteq> None"
  by (cases v) (auto simp: obj_of_def)

lemma holds_navigate: "holds st cur seg v \<Longrightarrow> navigateFrom L cur (seg # rest) st = navigateFrom L v rest st"
proof -
  assume h: "holds st cur seg v"
  then obtain x where x: "obj_of st cur = Some x" by (cases "obj_of st cur") (simp_all add: holds_def)
  then have "cur \<noteq> VNil" by (auto simp: obj_of_def)
  moreover have "navigateFrom L VNil rest st = (None, st)" by (cases rest) simp_all
  moreover have "navigateFrom L v [] st = (Some v, st)" if "v \<noteq> VNil" using that by simp
  ultimately show ?thesis using h x by (cases x) (simp_all add: holds_def del: navigateFrom.simps(1) split: if_splits)
qed

lemma obj_of_set [simp]: "obj_of (set_obj v x st) v = (case v of VRef a \<Rightarrow> Some x | _ \<Rightarrow> None)"
  by (auto simp: obj_of_def set_obj_def split: gval.split)

lemma holds_set:
  assumes "writable st cur seg"
  shows "holds (setInValue cur seg val st) cur seg val"
proof -
  obtain a x where cur: "cur = VRef a" and x: "objs st a = Some x"
    using assms by (auto simp: writable_def obj_of_def split: option.splits gval.splits)
  have s: "trim_space seg = seg" "seg \<noteq> []" using assms by (auto simp: writable_def)
  show ?thesis
  proof (cases x)
    case (OMap m)
    then show ?thesis using assms s x
      by (simp add: holds_def setInValue_def set_obj_def obj_of_def cur writable_def navigateValue_def lookup_def AList.update_conv')
  next
    case (OList xs)
    then obtain i where "isArrayIndex seg" "index_of seg = Some i" "0 \<le> i" "i < int (length xs)"
      using assms x by (auto simp: writable_def obj_of_def cur split: option.splits)
    then show ?thesis using s x OList
      by (simp add: holds_def setInValue_def set_obj_def obj_of_def cur navigateValue_def)
  next
    case (Overlay b ov)
    then show ?thesis using assms s x
      by (simp add: holds_def setInValue_def setChild_def set_obj_def obj_of_def cur writable_def AList.update_conv')
  qed (use assms x in \<open>simp add: writable_def obj_of_def cur\<close>)
qed

lemma navigateValue_cong: "obj_of st' cur = obj_of st cur \<Longrightarrow> navigateValue st' cur seg = navigateValue st cur seg"
  by (simp only: navigateValue_def)

text \<open>Only the container itself changes.\<close>

lemma setInValue_frame:
  "sdata (setInValue cur seg val st) = sdata st" "nextObj (setInValue cur seg val st) = nextObj st"
  "a \<notin> set (address cur) \<Longrightarrow> objs (setInValue cur seg val st) a = objs st a"
  "objs (setInValue cur seg val st) a = None \<longleftrightarrow> objs st a = None"
  by (auto simp: setInValue_def setChild_def set_obj_def obj_of_def split: option.splits obj.splits gval.splits)

lemma setInValue_heap: "heap_ok st \<Longrightarrow> heap_ok (setInValue cur seg val st)"
  unfolding heap_ok_def using setInValue_frame(2,4) by metis

lemma container_for_spec:
  assumes "container_for v st = (c, st1)"
  shows "grown st st1" "obj_of st1 c \<noteq> None" "c = v \<and> st1 = st \<or> c = VRef (nextObj st)"
  using assms by (auto simp: container_for_def new_obj_def obj_of_def grown_def heap_ok_def less_Suc_eq
      split: option.splits obj.splits)

text \<open>
  One step of the walk leaves the container at \<open>cur\<close> holding, under the segment, the one the walk
  goes on with, and changes nothing else but for new objects.
\<close>

definition stepped :: "gval \<Rightarrow> 'n Store \<Rightarrow> 'n Store \<Rightarrow> bool" where
  "stepped cur st st' \<longleftrightarrow> sdata st' = sdata st \<and> nextObj st \<le> nextObj st' \<and>
     (\<forall>a<nextObj st. a \<notin> set (address cur) \<longrightarrow> objs st' a = objs st a) \<and> (heap_ok st \<longrightarrow> heap_ok st')"

lemma stepped_set: "grown st st1 \<Longrightarrow> stepped cur st (setInValue cur seg val st1)"
  using setInValue_heap [of st1 cur seg val] by (auto simp: stepped_def grown_def setInValue_frame)

lemma stepped_grown: "grown st st1 \<Longrightarrow> stepped cur st st1"
  by (auto simp: stepped_def grown_def)

lemma step_down_spec:
  assumes ok: "heap_ok st" and w: "writable st cur seg" and s: "step_down L cur seg st = (Some c, st1)"
  shows "holds st1 cur seg c" "stepped cur st st1"
proof -
  obtain a x where cur: "cur = VRef a" and x: "objs st a = Some x" and ocur: "obj_of st cur = Some x"
    using w by (auto simp: writable_def obj_of_def split: option.splits gval.splits)
  have a: "a < nextObj st" using ok x by (auto simp: heap_ok_def)
  have "holds st1 cur seg c \<and> stepped cur st st1"
  proof (cases "\<exists>b ov. x = Overlay b ov")
    case True
    then obtain b ov where xo: "x = Overlay b ov" by blast
    have idx: "\<not> isArrayIndex seg" using w x xo by (simp add: writable_def obj_of_def cur)
    define src where "src = (case map_of ov seg of
              Some Tombstone \<Rightarrow> (VNil, st)
            | Some (Val v) \<Rightarrow> (v, st)
            | None \<Rightarrow> (case NavigateSegs L b [seg] of None \<Rightarrow> (VNil, st) | Some x \<Rightarrow> build x st))"
    obtain v st0 where v: "src = (v, st0)" by fastforce
    have g0: "grown st st0"
      using v by (auto simp: src_def grown_build(1) split: option.splits override.splits)
    obtain c' st2 where c': "container_for v st0 = (c', st2)" by fastforce
    have g: "grown st st2" using grown_trans [OF g0 container_for_spec(1) [OF c']] .
    have r: "c = c'" "st1 = set_obj cur (Overlay b (AList.update seg (Val c') ov)) st2"
      using s ocur xo idx v c' by (auto simp: step_down_def childForWrite_def src_def)
    have nn: "c' \<noteq> VNil" using container_for_spec(2) [OF c'] by (auto simp: obj_of_def)
    have "holds st1 cur seg c"
      using nn idx by (simp add: r holds_def cur AList.update_conv' obj_of_def set_obj_def)
    moreover have "stepped cur st st1"
      using g a by (auto simp: stepped_def grown_def r cur set_obj_def heap_ok_def)
    ultimately show ?thesis ..
  next
    case False
    define v where "v = navigateValue st cur seg"
    obtain c' st2 where c': "container_for v st = (c', st2)" by fastforce
    have r: "c = c'" "st1 = (if c' = v then st2 else setInValue cur seg c' st2)"
      using s ocur False c' by (auto simp: step_down_def v_def Let_def split: obj.splits if_splits)
    have g: "grown st st2" by (rule container_for_spec(1) [OF c'])
    have o2: "obj_of st2 cur = Some x" using g a x by (auto simp: grown_def obj_of_def cur)
    then have w2: "writable st2 cur seg" using w ocur by (simp add: writable_def)
    have nv: "navigateValue st2 cur seg = v" unfolding v_def by (rule navigateValue_cong) (simp add: o2 ocur)
    show ?thesis
    proof (cases "c' = v")
      case True
      have "x \<noteq> ONav n" for n using w ocur by (auto simp: writable_def)
      then have "holds st2 cur seg v" using o2 nv False by (cases x) (auto simp: holds_def)
      then show ?thesis using True r stepped_grown [OF g] by simp
    next
      case False
      then show ?thesis using holds_set [OF w2, of c'] stepped_set [OF g, of cur seg c'] r by simp
    qed
  qed
  then show "holds st1 cur seg c" "stepped cur st st1" by auto
qed

text \<open>The containers through which a write goes; \<open>None\<close>: it is given up on the way.\<close>

fun trace :: "'n navLib \<Rightarrow> gval \<Rightarrow> string list \<Rightarrow> 'n Store \<Rightarrow> nat list option" where
  "trace L cur [] st = None"
| "trace L cur (seg # rest) st =
    (if \<not> writable st cur seg then None
     else if rest = [] then Some (address cur)
     else case step_down L cur seg st of
       (None, st1) \<Rightarrow> None
     | (Some c, st1) \<Rightarrow> map_option ((@) (address cur)) (trace L c rest st1))"

lemma set_walk_frame:
  assumes "trace L cur segs st = Some as" "heap_ok st"
  shows "sdata (set_walk L cur segs val st) = sdata st \<and> nextObj st \<le> nextObj (set_walk L cur segs val st) \<and>
    (\<forall>a<nextObj st. a \<notin> set as \<longrightarrow> objs (set_walk L cur segs val st) a = objs st a)"
  using assms
proof (induction L cur segs val st arbitrary: as rule: set_walk.induct)
  case (2 L cur seg val st)
  then show ?case by (auto simp: setInValue_frame split: if_splits)
next
  case (3 L cur seg s2 rest val st)
  obtain c st1 bs where sd: "step_down L cur seg st = (Some c, st1)" and w: "writable st cur seg"
    and bs: "trace L c (s2 # rest) st1 = Some bs" "as = address cur @ bs"
    using "3.prems"(1) by (auto simp del: trace.simps(2) simp: trace.simps(2) [of L cur seg] split: if_splits prod.splits option.splits)
  note spec = step_down_spec(2) [OF "3.prems"(2) w sd]
  have "heap_ok st1" using spec "3.prems"(2) by (simp add: stepped_def)
  from "3.IH" [OF _ _ bs(1) this, of "Some c"] sd
  show ?case using spec by (auto simp: bs(2) stepped_def)
qed simp

lemma holds_frame: "holds st cur seg v \<Longrightarrow> obj_of st' cur = obj_of st cur \<Longrightarrow> holds st' cur seg v"
  using navigateValue_cong [of st' cur st seg] by (simp only: holds_def)

lemma set_walk_read:
  assumes "trace L cur segs st = Some as" "distinct as" "heap_ok st"
  shows "navigateFrom L cur segs (set_walk L cur segs val st) = navigateFrom L val [] (set_walk L cur segs val st)"
  using assms
proof (induction L cur segs val st arbitrary: as rule: set_walk.induct)
  case (2 L cur seg val st)
  then have "holds (setInValue cur seg val st) cur seg val" by (auto intro: holds_set split: if_splits)
  then show ?case using holds_navigate [of _ cur seg val L "[]"] by (simp del: navigateFrom.simps)
next
  case (3 L cur seg s2 rest val st)
  obtain c st1 bs where sd: "step_down L cur seg st = (Some c, st1)" and w: "writable st cur seg"
    and bs: "trace L c (s2 # rest) st1 = Some bs" "as = address cur @ bs"
    using "3.prems"(1) by (auto simp del: trace.simps(2) simp: trace.simps(2) [of L cur seg] split: if_splits prod.splits option.splits)
  note spec = step_down_spec [OF "3.prems"(3) w sd]
  have ok: "heap_ok st1" using spec "3.prems"(3) by (simp add: stepped_def)
  let ?st' = "set_walk L c (s2 # rest) val st1"
  have IH: "navigateFrom L c (s2 # rest) ?st' = navigateFrom L val [] ?st'"
    using "3.IH" [OF _ _ bs(1) _ ok, of "Some c"] sd "3.prems"(2) by (simp add: bs(2) del: navigateFrom.simps)
  obtain a where a: "cur = VRef a" "objs st a \<noteq> None"
    using w by (auto simp: writable_def obj_of_def split: option.splits gval.splits)
  have "a < nextObj st" using a "3.prems"(3) by (auto simp: heap_ok_def)
  then have "a < nextObj st1" "a \<notin> set bs" using spec(2) "3.prems"(2) by (auto simp: stepped_def bs(2) a(1))
  then have "objs ?st' a = objs st1 a" using set_walk_frame [OF bs(1) ok, of val] by blast
  then have h: "holds ?st' cur seg c" using holds_frame [OF spec(1)] by (simp add: obj_of_def a(1))
  have "set_walk L cur (seg # s2 # rest) val st = ?st'" using sd by simp
  then show ?case using holds_navigate [OF h, of L "s2 # rest"] IH by (simp only:)
qed simp

subsection \<open>Operations\<close>

text \<open>
  The operations of the owner of the state.  A value that is put in is either new or one that is
  already there under another path, so containers may be shared and may contain themselves.
\<close>

datatype 'n state_op = SSet string "'n nval" | SSetPath string "'n nval" | SCopy string string
  | SGet string | SDelete string | SClear | SIncrement string | SIncrementInt64 string

fun state_step :: "'n navLib \<Rightarrow> 'n state_op \<Rightarrow> 'n Store \<Rightarrow> 'n Store" where
  "state_step L (SSet key x) st = (let (v, st1) = build x st in Set key v st1)"
| "state_step L (SSetPath path x) st = (let (v, st1) = build x st in SetPath L path v st1)"
| "state_step L (SCopy src dst) st = (let (v, st1) = GetPath L src st in SetPath L dst v st1)"
| "state_step L (SGet path) st = snd (GetPath L path st)"
| "state_step L (SDelete key) st = Delete key st"
| "state_step L SClear st = Clear st"
| "state_step L (SIncrement key) st = snd (Increment key st)"
| "state_step L (SIncrementInt64 key) st = snd (IncrementInt64 key st)"

lemma heap_ok_set_obj: "heap_ok st \<Longrightarrow> obj_of st v \<noteq> None \<Longrightarrow> heap_ok (set_obj v x st)"
  by (auto simp: heap_ok_def obj_of_def set_obj_def split: gval.splits)

lemma heap_ok_step_down:
  assumes "heap_ok st" "step_down L cur seg st = (r, st1)"
  shows "heap_ok st1"
proof -
  have c: "heap_ok st2" if "container_for v st0 = (c, st2)" "heap_ok st0" for v st0 c st2
    using container_for_spec(1) [OF that(1)] that(2) by (simp add: grown_def)
  show ?thesis
  proof (cases "\<exists>b ov. obj_of st cur = Some (Overlay b ov)")
    case True
    then obtain b ov where o: "obj_of st cur = Some (Overlay b ov)" by blast
    show ?thesis
    proof (cases "isArrayIndex seg")
      case True
      then show ?thesis using assms o by (simp add: step_down_def childForWrite_def)
    next
      case False
      define src where "src = (case map_of ov seg of
              Some Tombstone \<Rightarrow> (VNil, st)
            | Some (Val v) \<Rightarrow> (v, st)
            | None \<Rightarrow> (case NavigateSegs L b [seg] of None \<Rightarrow> (VNil, st) | Some x \<Rightarrow> build x st))"
      obtain v st0 where v: "src = (v, st0)" by fastforce
      have g0: "grown st st0"
        using v by (auto simp: src_def grown_build(1) split: option.splits override.splits)
      obtain c' st2 where c': "container_for v st0 = (c', st2)" by fastforce
      have g: "grown st st2" using grown_trans [OF g0 container_for_spec(1) [OF c']] .
      have r: "st1 = set_obj cur (Overlay b (AList.update seg (Val c') ov)) st2"
        using assms(2) o False v c' by (auto simp: step_down_def childForWrite_def src_def)
      have "obj_of st2 cur \<noteq> None"
        using g o assms(1) by (auto simp: grown_def obj_of_def heap_ok_def split: gval.splits)
      then show ?thesis unfolding r using g assms(1) by (intro heap_ok_set_obj) (auto simp: grown_def)
    qed
  next
    case False
    obtain c' st2 where c': "container_for (navigateValue st cur seg) st = (c', st2)" by fastforce
    then have "st1 = st \<or> st1 = st2 \<or> st1 = setInValue cur seg c' st2"
      using assms(2) False by (auto simp: step_down_def Let_def split: option.splits obj.splits if_splits)
    then show ?thesis using c [OF c' assms(1)] assms(1) setInValue_heap by blast
  qed
qed

lemma heap_ok_walk: "heap_ok st \<Longrightarrow> heap_ok (set_walk L cur segs val st)"
proof (induction L cur segs val st rule: set_walk.induct)
  case (3 L cur seg s2 rest val st)
  obtain r st1 where sd: "step_down L cur seg st = (r, st1)" by fastforce
  have ok: "heap_ok st1" by (rule heap_ok_step_down [OF "3.prems" sd])
  show ?case
  proof (cases r)
    case None
    then show ?thesis using sd ok by simp
  next
    case (Some c)
    then show ?thesis using "3.IH" [OF _ _ ok, of r c] sd by simp
  qed
qed (simp_all add: setInValue_heap)

lemma heap_ok_data [simp]: "heap_ok (st\<lparr>sdata := d\<rparr>) = heap_ok st"
  by (simp add: heap_ok_def)

lemma heap_ok_SetSegs: "heap_ok st \<Longrightarrow> heap_ok (SetSegs L segs val st)"
proof -
  assume st: "heap_ok st"
  have "heap_ok (snd (container_for v st))" for v
    using container_for_spec(1) [of v st] st by (metis grown_def prod.collapse)
  then show ?thesis
    using st by (auto simp: SetSegs_def Set_def split_beta intro!: heap_ok_walk split: list.split)
qed

lemma heap_ok_GetPath: "heap_ok st \<Longrightarrow> heap_ok (snd (GetPath L path st))"
  using grown_navigate(1) [of L _ _ st, OF surjective_pairing]
  by (auto simp: GetPath_def get_loop_navigateFrom found_def grown_def split: list.split)

lemma heap_ok_build: "heap_ok st \<Longrightarrow> build x st = (v, st1) \<Longrightarrow> heap_ok st1"
  using grown_build(1) [of x st v st1] by (simp add: grown_def)

lemma heap_ok_step: "heap_ok st \<Longrightarrow> heap_ok (state_step L opr st)"
proof -
  assume st: "heap_ok st"
  have b: "heap_ok (snd (build x st))" for x using heap_ok_build [OF st] by (metis prod.collapse)
  show ?thesis
    using st b heap_ok_GetPath [OF st, of L]
    by (cases opr) (simp_all add: heap_ok_SetSegs split_beta Set_def SetPath_def Delete_def Clear_def Increment_def IncrementInt64_def Let_def)
qed

interpretation state: op_system "state_step L" heap_ok "\<lambda>_. True"
  by unfold_locales (rule heap_ok_step)

text \<open>The write arrives: no step is given up, and no container occurs twice on the way.\<close>

definition writes :: "'n navLib \<Rightarrow> string list \<Rightarrow> 'n Store \<Rightarrow> bool" where
  "writes L segs st =
    (case segs of
       [] \<Rightarrow> False
     | [key] \<Rightarrow> True
     | key # rest \<Rightarrow>
        (let (c, st1) = container_for (lookup (sdata st) key) st
         in case trace L c rest (Set key c st1) of None \<Rightarrow> False | Some as \<Rightarrow> distinct as))"

lemma SetSegs_read:
  assumes "heap_ok st" "writes L (key # rest) st"
  shows "found (navigateFrom L (lookup (sdata (SetSegs L (key # rest) val st)) key) rest (SetSegs L (key # rest) val st)) =
    (val, SetSegs L (key # rest) val st)"
proof (cases rest)
  case Nil
  then show ?thesis by (simp add: SetSegs_def Set_def lookup_def AList.update_conv' found_def)
next
  case (Cons s2 rest2)
  obtain c st1 where c: "container_for (lookup (sdata st) key) st = (c, st1)" by fastforce
  obtain as where as: "trace L c rest (Set key c st1) = Some as" "distinct as"
    using assms(2) c Cons by (auto simp: writes_def split: option.splits)
  have ok: "heap_ok (Set key c st1)" using container_for_spec(1) [OF c] assms(1) by (simp add: grown_def Set_def)
  have st': "SetSegs L (key # rest) val st = set_walk L c rest val (Set key c st1)"
    using Cons c by (simp add: SetSegs_def)
  have "lookup (sdata (set_walk L c rest val (Set key c st1))) key = c"
    using set_walk_frame [OF as(1) ok, of val] by (simp add: Set_def lookup_def AList.update_conv')
  then show ?thesis
    using set_walk_read [OF as ok, of val] by (simp add: st' found_def del: navigateFrom.simps(2))
qed

text \<open>A write below an overlay leaves the other entries of the overlay alone.\<close>

lemma walk_overlay:
  assumes "trace L cur (seg # rest) st = Some as" "distinct as" "heap_ok st" "obj_of st cur = Some (Overlay b ov)"
  shows "\<exists>ov'. obj_of (set_walk L cur (seg # rest) val st) cur = Some (Overlay b ov') \<and>
    (\<forall>t. t \<noteq> seg \<longrightarrow> map_of ov' t = map_of ov t)"
proof -
  obtain a where a: "cur = VRef a" "objs st a = Some (Overlay b ov)"
    using assms(4) by (auto simp: obj_of_def split: gval.splits)
  have w: "writable st cur seg" using assms(1) by (auto split: if_splits)
  then have idx: "\<not> isArrayIndex seg" using assms(4) by (simp add: writable_def)
  show ?thesis
  proof (cases rest)
    case Nil
    then show ?thesis
      using a idx by (simp add: setInValue_def setChild_def obj_of_def set_obj_def AList.update_conv')
  next
    case (Cons s2 rest2)
    obtain c st1 bs where sd: "step_down L cur seg st = (Some c, st1)"
      and bs: "trace L c rest st1 = Some bs" "as = address cur @ bs"
      using assms(1) w Cons by (auto simp del: trace.simps(2) simp: trace.simps(2) [of L cur seg] split: prod.splits option.splits)
    note spec = step_down_spec(2) [OF assms(3) w sd]
    have "\<exists>ov'. objs st1 a = Some (Overlay b ov') \<and> (\<forall>t. t \<noteq> seg \<longrightarrow> map_of ov' t = map_of ov t)"
      using sd a idx
      by (auto simp: step_down_def childForWrite_def obj_of_def set_obj_def AList.update_conv' split: prod.splits)
    moreover have "a < nextObj st1" using spec a(2) assms(3) by (auto simp: heap_ok_def stepped_def)
    moreover have "a \<notin> set bs" using assms(2) by (simp add: bs(2) a(1))
    moreover have "heap_ok st1" using spec assms(3) by (simp add: stepped_def)
    ultimately show ?thesis
      using set_walk_frame [OF bs(1), of val] sd Cons by (auto simp: obj_of_def a(1))
  qed
qed

subsection \<open>Properties\<close>

lemma heap_ok_run: "heap_ok (fold (state_step L) ops NewStore)"
  by (rule state.run_inv) (simp_all add: heap_ok_def NewStore_def list_all_iff)

text \<open>
  C11. What is written under a path is read back from it, in every state that the operations can
  reach, with containers shared in any way: through maps, lists and overlays, creating the missing
  maps and covering messages kept in wire form.  The condition \<open>writes\<close> asks that no step is given up,
  that no container occurs twice on the path, and that the segments below the key are not empty and
  have no surrounding blanks, since reading trims a segment and writing does not (\<open>blank_in_path\<close>).
\<close>

theorem written_value_is_read:
  assumes "writes L (SplitPath path) (fold (state_step L) ops NewStore)"
  shows "GetPath L path (SetPath L path val (fold (state_step L) ops NewStore)) =
    (val, SetPath L path val (fold (state_step L) ops NewStore))"
proof (cases "SplitPath path")
  case Nil
  then show ?thesis using assms by (simp add: writes_def)
next
  case (Cons key rest)
  then show ?thesis
    using SetSegs_read [OF heap_ok_run, of L key rest L ops val] assms
    by (simp add: GetPath_def SetPath_def get_loop_navigateFrom)
qed

text \<open>
  The message reached from \<open>n\<close> through nested messages, and the law of the library that rests on: the
  path below a nested message is a path of that message.
\<close>

primrec nested :: "'n navLib \<Rightarrow> 'n \<Rightarrow> string list \<Rightarrow> 'n option" where
  "nested L n [] = Some n"
| "nested L n (c # cs) = (case NavigateSegs L n [c] of Some (NNav n') \<Rightarrow> nested L n' cs | _ \<Rightarrow> None)"

definition nav_law :: "'n navLib \<Rightarrow> bool" where
  "nav_law L \<longleftrightarrow> (\<forall>n c n' segs. NavigateSegs L n [c] = Some (NNav n') \<longrightarrow> segs \<noteq> [] \<longrightarrow>
     NavigateSegs L n (c # segs) = NavigateSegs L n' segs)"

lemma nested_path:
  assumes "nav_law L" and "segs \<noteq> []"
  shows "nested L n common = Some m \<Longrightarrow> NavigateSegs L n (common @ segs) = NavigateSegs L m segs"
proof (induction common arbitrary: n)
  case (Cons c cs)
  then obtain n' where n': "NavigateSegs L n [c] = Some (NNav n')" "nested L n' cs = Some m"
    by (auto split: option.splits nval.splits)
  have "NavigateSegs L n (c # cs @ segs) = NavigateSegs L n' (cs @ segs)"
    using assms n'(1) unfolding nav_law_def by blast
  then show ?case using Cons(1) [OF n'(2)] by simp
qed simp

lemma step_down_nested:
  assumes "obj_of st cur = Some (Overlay n [])" "NavigateSegs L n [c] = Some (NNav n')" "heap_ok st"
    and "step_down L cur c st = (Some d, st1)"
  shows "obj_of st1 d = Some (Overlay n' [])"
proof -
  obtain a where a: "cur = VRef a" "objs st a \<noteq> None" using obj_of_address [of st cur] assms(1) by auto
  then have "a < nextObj st" using assms(3) by (auto simp: heap_ok_def)
  then show ?thesis using assms(1,2,4) a(1)
    by (auto simp: step_down_def childForWrite_def container_for_def new_obj_def obj_of_def set_obj_def split: if_splits)
qed

text \<open>A write below an overlay leaves what lies beside its path, at every message it passes through.\<close>

lemma walk_beside:
  assumes "trace L cur (common @ seg # rest) st = Some as" "distinct as" "heap_ok st"
    and "obj_of st cur = Some (Overlay n [])" "nested L n common = Some m" "seg' \<noteq> seg" "\<not> isArrayIndex seg'"
  shows "navigateFrom L cur (common @ seg' # rest') (set_walk L cur (common @ seg # rest) val st) =
    build_found (NavigateSegs L m (seg' # rest')) (set_walk L cur (common @ seg # rest) val st)"
  using assms
proof (induction common arbitrary: cur st n as)
  case Nil
  then have t: "trace L cur (seg # rest) st = Some as" by simp
  from walk_overlay [OF t Nil(2,3,4), of val] assms(6) obtain ov where
    ov: "obj_of (set_walk L cur (seg # rest) val st) cur = Some (Overlay n ov)" "map_of ov seg' = None" by auto
  have "cur \<noteq> VNil" using Nil(4) by (auto simp: obj_of_def)
  then show ?case using ov Nil(5) assms(7) by simp
next
  case (Cons c cs)
  obtain n' where n': "NavigateSegs L n [c] = Some (NNav n')" "nested L n' cs = Some m"
    using Cons(6) by (auto split: option.splits nval.splits)
  let ?path = "cs @ seg # rest"
  have path: "?path \<noteq> []" by simp
  obtain d st1 bs where sd: "step_down L cur c st = (Some d, st1)" and w: "writable st cur c"
    and bs: "trace L d ?path st1 = Some bs" "as = address cur @ bs"
    using Cons(2) path by (auto simp del: trace.simps(2) simp: trace.simps(2) [of L cur c] split: if_splits prod.splits option.splits)
  note spec = step_down_spec [OF Cons(4) w sd]
  have ok: "heap_ok st1" using spec Cons(4) by (simp add: stepped_def)
  let ?st' = "set_walk L d ?path val st1"
  have IH: "navigateFrom L d (cs @ seg' # rest') ?st' = build_found (NavigateSegs L m (seg' # rest')) ?st'"
    by (rule Cons(1) [OF bs(1) _ ok step_down_nested [OF Cons(5) n'(1) Cons(4) sd] n'(2) assms(6,7)])
      (use Cons(3) bs(2) in simp)
  obtain a where a: "cur = VRef a" "objs st a \<noteq> None"
    using w by (auto simp: writable_def obj_of_def split: option.splits gval.splits)
  have "a < nextObj st" using a Cons(4) by (auto simp: heap_ok_def)
  then have "a < nextObj st1" "a \<notin> set bs" using spec(2) Cons(3) by (auto simp: stepped_def bs(2) a(1))
  then have "objs ?st' a = objs st1 a" using set_walk_frame [OF bs(1) ok, of val] by blast
  then have h: "holds ?st' cur c d" using holds_frame [OF spec(1)] by (simp add: obj_of_def a(1))
  have "set_walk L cur (c # ?path) val st = ?st'" using sd by (cases ?path) simp_all
  then show ?case using holds_navigate [OF h, of L "cs @ seg' # rest'"] IH by (simp only: append_Cons)
qed

text \<open>
  C12. Writing below a message kept in wire form covers it and the messages nested in it along the
  written path: every field beside that path, at whatever depth it branches off, is still read from
  the message itself, whether the write sets a value or, with nil, removes one.  The written path meets
  the condition \<open>writes\<close>, navigation goes step by step (\<open>nav_law\<close>), and the field is not a list index.
\<close>

theorem overlay_keeps_siblings:
  assumes "nav_law L" and "st = fold (state_step L) ops NewStore" and "obj_of st (Get key st) = Some (ONav n)"
    and "SplitPath path = key # common @ seg # rest" "writes L (SplitPath path) st" "nested L n common = Some m"
    and "SplitPath other = key # common @ seg' # rest'" "seg' \<noteq> seg" "\<not> isArrayIndex seg'"
  shows "GetPath L other (SetPath L path val st) =
    (case NavigateSegs L n (common @ seg' # rest') of
       None \<Rightarrow> (VNil, SetPath L path val st) | Some x \<Rightarrow> build x (SetPath L path val st))"
proof -
  define c where "c = VRef (nextObj st)"
  define st1 where "st1 = st\<lparr>objs := (objs st)(nextObj st \<mapsto> Overlay n []), nextObj := nextObj st + 1\<rparr>"
  have c: "container_for (lookup (sdata st) key) st = (c, st1)"
    using assms(3) by (simp add: container_for_def new_obj_def Get_def c_def st1_def)
  have ne: "common @ seg # rest \<noteq> []" by simp
  then obtain as where as: "trace L c (common @ seg # rest) (Set key c st1) = Some as" "distinct as"
    using assms(4,5) c by (cases "common @ seg # rest") (auto simp: writes_def simp del: trace.simps split: option.splits)
  have st: "heap_ok st" unfolding assms(2) by (rule heap_ok_run)
  then have ok: "heap_ok (Set key c st1)" by (auto simp: Set_def st1_def heap_ok_def less_Suc_eq)
  have st': "SetPath L path val st = set_walk L c (common @ seg # rest) val (Set key c st1)"
    using assms(4) c ne by (cases "common @ seg # rest") (simp_all add: SetPath_def SetSegs_def)
  have o: "obj_of (Set key c st1) c = Some (Overlay n [])" by (simp add: obj_of_def c_def Set_def st1_def)
  have "lookup (sdata (SetPath L path val st)) key = c"
    using set_walk_frame [OF as(1) ok, of val] by (simp add: st' Set_def lookup_def AList.update_conv')
  then have "GetPath L other (SetPath L path val st) =
      found (build_found (NavigateSegs L m (seg' # rest')) (SetPath L path val st))"
    using walk_beside [OF as ok o assms(6,8,9), of rest' val] assms(7)
    by (simp add: GetPath_def get_loop_navigateFrom st')
  then show ?thesis using nested_path [OF assms(1) _ assms(6), of "seg' # rest'"]
    by (auto simp: found_def build_found_def split: option.split prod.split)
qed

text \<open>A tree of messages as the tests have it: the field \<open>id\<close> is a number, every other field a message.\<close>

definition tree_nav :: "string list navLib" where
  "tree_nav = \<lparr>NavigateSegs = (\<lambda>n segs. if last segs = ''id'' then Some (NScalar (VInt KInt64 (int (length (n @ segs)))))
       else Some (NNav (n @ segs))), MaterializeValue = (\<lambda>n. None)\<rparr>"

text \<open>A message whose every field is a string naming its path.\<close>

definition echo_nav :: "string navLib" where
  "echo_nav = \<lparr>NavigateSegs = (\<lambda>n segs. Some (NScalar (VStr (n @ concat segs)))), MaterializeValue = (\<lambda>n. None)\<rparr>"

theorem written_value_is_read_witness:
  "GetPath echo_nav ''m.a.b'' (SetPath echo_nav ''m.a.b'' (VStr ''v'')
      (fold (state_step echo_nav) [SSet ''m'' (NNav ''x''), SCopy ''m'' ''n.m''] NewStore)) =
    (VStr ''v'', SetPath echo_nav ''m.a.b'' (VStr ''v'')
      (fold (state_step echo_nav) [SSet ''m'' (NNav ''x''), SCopy ''m'' ''n.m''] NewStore))"
  by (rule written_value_is_read) code_simp

theorem overlay_keeps_siblings_witness:
  "GetPath tree_nav ''p.guild.members.id'' (SetPath tree_nav ''p.guild.members.m1'' VNil
      (fold (state_step tree_nav) [SSet ''p'' (NNav [])] NewStore)) =
    (case NavigateSegs tree_nav [] ([''guild'', ''members''] @ ''id'' # []) of
       None \<Rightarrow> (VNil, SetPath tree_nav ''p.guild.members.m1'' VNil (fold (state_step tree_nav) [SSet ''p'' (NNav [])] NewStore))
     | Some x \<Rightarrow> build x (SetPath tree_nav ''p.guild.members.m1'' VNil (fold (state_step tree_nav) [SSet ''p'' (NNav [])] NewStore)))"
proof (rule overlay_keeps_siblings [where ops = "[SSet ''p'' (NNav [])]" and key = "''p''" and seg = "''m1''" and rest = "[]"
      and m = "[''guild'', ''members'']"])
  show "nav_law tree_nav" by (auto simp: nav_law_def tree_nav_def)
  show "obj_of (fold (state_step tree_nav) [SSet ''p'' (NNav [])] NewStore)
      (Get ''p'' (fold (state_step tree_nav) [SSet ''p'' (NNav [])] NewStore)) = Some (ONav [])" by code_simp
  show "writes tree_nav (SplitPath ''p.guild.members.m1'') (fold (state_step tree_nav) [SSet ''p'' (NNav [])] NewStore)" by code_simp
  show "SplitPath ''p.guild.members.m1'' = ''p'' # [''guild'', ''members''] @ ''m1'' # []" by code_simp
  show "SplitPath ''p.guild.members.id'' = ''p'' # [''guild'', ''members''] @ ''id'' # []" by code_simp
  show "nested tree_nav [] [''guild'', ''members''] = Some [''guild'', ''members'']" by code_simp
qed (simp_all add: isArrayIndex_def)

subsection \<open>Behaviours that are not intended\<close>

text \<open>Reading trims the segments of a path, writing does not: the value goes to a key nobody reads.\<close>

lemma blank_in_path:
  "fst (GetPath echo_nav ''a. b'' (SetPath echo_nav ''a. b'' (VStr ''v'') NewStore)) = VNil"
  "fst (GetPath echo_nav ''a.b'' (SetPath echo_nav ''a. b'' (VStr ''v'') NewStore)) = VNil"
  by code_simp+

text \<open>An index write that has no list to go to is skipped, but only after it has replaced the scalar.\<close>

lemma skipped_write_destroys:
  "let st = SetPath echo_nav ''a[0]'' (VStr ''v'') (Set ''a'' (VStr ''old'') NewStore)
   in obj_of st (Get ''a'' st) = Some (OMap [])"
  by code_simp

text \<open>Different 64-bit integers compare as equal: both are rounded to a float first.\<close>

lemma tie_floor: "\<lfloor>9007199254740993 / 2 :: rat\<rfloor> = 4503599627370496"
  by (simp add: floor_eq_iff)

lemma tie_rounds: "f64_of_int 9007199254740993 = Fin 9007199254740992" "f64_of_int 9007199254740992 = Fin 9007199254740992"
  by (simp_all add: f64_of_int_def round64_small rnd_def rnd_pos_def ulp_def binade_def rne_def p2_def tie_floor)

lemma big_integers_equal:
  "CompareValues (\<lambda>_. []) NewStore (VInt KInt64 9007199254740993) (VInt KInt64 9007199254740992) ''eq''"
  by (simp add: CompareValues_def num_of_def tie_rounds)

end
