(* ===== verification/MetricsCollector.thy ===== *)
theory MetricsCollector
  imports GoValue Errcode "HOL-Library.Word" "HOL-Library.Monad_Syntax"
begin

unbundle bit_operations_syntax

text \<open>
  The metrics collector of an agent (\<^verbatim>\<open>monitor/histogram.go\<close>, \<^verbatim>\<open>monitor/collector.go\<close>).  Each action
  has a block of atomic counters, three latency distributions and its errors by code; the
  collector keeps one set of blocks since the last reset and a second set for the report window
  that is open.  The DDSketch library is a parameter.  A record under the action's lock is one step;
  \<open>None\<close> is a panic.
\<close>

subsection \<open>Latency distributions\<close>

text \<open>
  What the code uses of \<^verbatim>\<open>sketches-go\<close>: the constructor, \<open>Add\<close>, \<open>Clear\<close>, the four quantiles it asks
  for, \<open>GetCount\<close>, \<open>MergeWith\<close>, \<open>Encode\<close> and \<open>DecodeDDSketch\<close>.  \<open>None\<close> is the error result.
\<close>

record 'sk sketchLib =
  skNew :: "float64 \<Rightarrow> int \<Rightarrow> 'sk option"
  skAdd :: "'sk \<Rightarrow> float64 \<Rightarrow> 'sk option"
  skClear :: "'sk \<Rightarrow> 'sk"
  skQuantiles :: "'sk \<Rightarrow> (float64 \<times> float64 \<times> float64 \<times> float64) option"
  skCount :: "'sk \<Rightarrow> float64"
  skMerge :: "'sk \<Rightarrow> 'sk \<Rightarrow> 'sk option"
  skEncode :: "'sk \<Rightarrow> nat list"
  skDecode :: "nat list \<Rightarrow> 'sk option"

record 'sk LatencyHistogram =
  sketch :: 'sk
  hCount :: int
  hSumNs :: int
  hMinNs :: int
  hMaxNs :: int

definition maxInt64 :: int where "maxInt64 = 2 ^ 63 - 1"

text \<open>The literal \<open>0.01\<close> is the double nearest to it.\<close>

definition defaultSketchRelativeAccuracy :: rat where
  "defaultSketchRelativeAccuracy = 5764607523034235 / 576460752303423488"

definition defaultSketchMaxBins :: int where "defaultSketchMaxBins = 2048"

definition newLatencyHistogramWith :: "'sk sketchLib \<Rightarrow> float64 \<Rightarrow> int \<Rightarrow> 'sk LatencyHistogram option" where
  "newLatencyHistogramWith L relativeAccuracy bins =
     map_option (\<lambda>s. \<lparr>sketch = s, hCount = 0, hSumNs = 0, hMinNs = maxInt64, hMaxNs = 0\<rparr>)
       (skNew L (if flt relativeAccuracy (Fin 0) \<or> feq relativeAccuracy (Fin 0) then Fin defaultSketchRelativeAccuracy else relativeAccuracy)
         (if bins \<le> 0 then defaultSketchMaxBins else bins))"

text \<open>\<open>Record\<close>: \<open>None\<close> is the error, after which nothing has changed.\<close>

definition Record :: "'sk sketchLib \<Rightarrow> int \<Rightarrow> 'sk LatencyHistogram \<Rightarrow> 'sk LatencyHistogram option" where
  "Record L ns h =
     (if ns < 0 then None
      else case skAdd L (sketch h) (f64_of_int ns) of
        None \<Rightarrow> None
      | Some s \<Rightarrow> Some (h\<lparr>sketch := s, hCount := wrap64 (hCount h + 1), hSumNs := wrap64 (hSumNs h + ns),
                         hMinNs := min ns (hMinNs h), hMaxNs := max ns (hMaxNs h)\<rparr>))"

definition ResetHistogram :: "'sk sketchLib \<Rightarrow> 'sk LatencyHistogram \<Rightarrow> 'sk LatencyHistogram" where
  "ResetHistogram L h =
     h\<lparr>sketch := skClear L (sketch h), hCount := 0, hSumNs := 0, hMinNs := maxInt64, hMaxNs := 0\<rparr>"

subsection \<open>Timings\<close>

text \<open>The stages of a client action that are timed apart.\<close>

datatype cost = Build | Encode | Send | DecodeWait | Decode | DispatchWait | ParseStore

type_synonym TimingStage = "16 word"

definition StageRTT :: TimingStage where "StageRTT = 1"
definition StageListenWait :: TimingStage where "StageListenWait = 2"

primrec cost_stage :: "cost \<Rightarrow> TimingStage" where
  "cost_stage Build = 4"
| "cost_stage Encode = 8"
| "cost_stage Send = 16"
| "cost_stage DecodeWait = 32"
| "cost_stage Decode = 64"
| "cost_stage DispatchWait = 128"
| "cost_stage ParseStore = 256"

definition Has :: "TimingStage \<Rightarrow> TimingStage \<Rightarrow> bool" where
  "Has s stage \<longleftrightarrow> s AND stage \<noteq> 0"

record RequestTiming =
  WireRTT :: int
  rqObserved :: TimingStage

record ClientTiming =
  clCost :: "cost \<Rightarrow> int"
  clObserved :: TimingStage

record ActionTiming =
  Requests :: "RequestTiming list"
  FailedRequests :: int
  ListenWaits :: "int list"
  ListenReady :: int
  ListenTimeouts :: int
  Client :: ClientTiming

definition noTiming :: ActionTiming where
  "noTiming = \<lparr>Requests = [], FailedRequests = 0, ListenWaits = [], ListenReady = 0, ListenTimeouts = 0,
               Client = \<lparr>clCost = (\<lambda>_. 0), clObserved = 0\<rparr>\<rparr>"

definition wireRTTSum :: "ActionTiming \<Rightarrow> int" where
  "wireRTTSum t = foldl (\<lambda>total rq. if 0 < WireRTT rq then wrap64 (total + WireRTT rq) else total) 0 (Requests t)"

datatype ActionResult = ResultSuccess | ResultFailure | ResultTimeout | ResultCanceled

text \<open>The error of an action: none, one without a code, or a \<open>CodedError\<close>.\<close>

datatype action_err = NoErr | PlainErr | Coded ErrorCode string

datatype TimingDetailLevel = TimingRTTOnly | TimingCodecDetail | TimingFullDetail

definition timingDetailRank :: "TimingDetailLevel \<Rightarrow> nat" where
  "timingDetailRank level = (case level of TimingFullDetail \<Rightarrow> 2 | TimingCodecDetail \<Rightarrow> 1 | TimingRTTOnly \<Rightarrow> 0)"

definition TimingDetailAtLeast :: "TimingDetailLevel \<Rightarrow> TimingDetailLevel \<Rightarrow> bool" where
  "TimingDetailAtLeast current required \<longleftrightarrow> timingDetailRank required \<le> timingDetailRank current"

definition NormalizeTimingDetail :: "string \<Rightarrow> TimingDetailLevel" where
  "NormalizeTimingDetail v =
     (if v = ''codec'' then TimingCodecDetail else if v = ''full'' then TimingFullDetail else TimingRTTOnly)"

subsection \<open>Errors by code\<close>

record errorBucket =
  ebCount :: int
  msgRing :: "string option list"
  ringIdx :: int

definition ErrorDetailRingSize :: nat where "ErrorDetailRingSize = 3"

definition newBucket :: errorBucket where
  "newBucket = \<lparr>ebCount = 0, msgRing = replicate ErrorDetailRingSize None, ringIdx = 0\<rparr>"

text \<open>The ring index is a \<open>uint32\<close> that wraps; the slot is its value before the increment.\<close>

definition bucket_record :: "string \<Rightarrow> errorBucket \<Rightarrow> errorBucket" where
  "bucket_record detail b =
     (let i' = (ringIdx b + 1) mod 2 ^ 32;
          idx = nat (((i' - 1) mod 2 ^ 32) mod int (length (msgRing b)))
      in b\<lparr>ebCount := wrap64 (ebCount b + 1), ringIdx := i', msgRing := (msgRing b)[idx := Some detail]\<rparr>)"

definition bucket_snapshot :: "errorBucket \<Rightarrow> int \<times> string list" where
  "bucket_snapshot b =
     (ebCount b,
      foldl (\<lambda>msgs v. case v of None \<Rightarrow> msgs
                       | Some s \<Rightarrow> if s \<noteq> [] \<and> s \<notin> set msgs then msgs @ [s] else msgs) [] (msgRing b))"

subsection \<open>The block of one action\<close>

datatype counter =
    successCount | failureCount | timeoutCount | timeoutTotalNs | canceledCount | executing
  | sendBytes | recvBytes | apdexSatisfied | apdexTolerating | rttFailedCount
  | clientCostSum | clientCostCount | costSum cost | costCount cost
  | rttSampleCount | totalDurationSampleCount | byteSampleCount
  | listenWaitCount | listenReadyCount | listenTimeoutHits

record 'sk actionMetrics =
  amCount :: "counter \<Rightarrow> int"
  rtt :: "'sk LatencyHistogram"
  listenWait :: "'sk LatencyHistogram"
  totalDuration :: "'sk LatencyHistogram"
  errBuckets :: "(ErrorCode \<times> errorBucket) list"

definition newActionMetrics :: "'sk sketchLib \<Rightarrow> float64 \<Rightarrow> int \<Rightarrow> 'sk actionMetrics option" where
  "newActionMetrics L relativeAccuracy maxBins = do {
     h1 \<leftarrow> newLatencyHistogramWith L relativeAccuracy maxBins;
     h2 \<leftarrow> newLatencyHistogramWith L relativeAccuracy maxBins;
     h3 \<leftarrow> newLatencyHistogramWith L relativeAccuracy maxBins;
     Some \<lparr>amCount = (\<lambda>_. 0), rtt = h1, listenWait = h2, totalDuration = h3, errBuckets = []\<rparr>
   }"

text \<open>\<open>atomic.Int64.Add\<close> on one counter.\<close>

definition bump :: "counter \<Rightarrow> int \<Rightarrow> 'sk actionMetrics \<Rightarrow> 'sk actionMetrics" where
  "bump k n am = am\<lparr>amCount := (amCount am)(k := wrap64 (amCount am k + n))\<rparr>"

text \<open>
  The pieces of \<open>recordAction\<close>.  They thread the action's block and the number of samples
  refused so far, the collector's \<open>invalidMetricSamples\<close>.
\<close>

type_synonym 'sk blk = "'sk actionMetrics \<times> int"

definition addDuration :: "cost \<Rightarrow> TimingStage \<Rightarrow> int \<Rightarrow> 'sk blk \<Rightarrow> 'sk blk" where
  "addDuration st observed d b =
     (let (am, inv) = b in
      if \<not> Has observed (cost_stage st) \<and> d = 0 then b
      else if d < 0 then (am, wrap64 (inv + 1))
      else (bump (costCount st) 1 (if 0 < d then bump (costSum st) d am else am), inv))"

definition recordWallClock :: "'sk sketchLib \<Rightarrow> ActionTiming \<Rightarrow> int \<Rightarrow> 'sk blk \<Rightarrow> 'sk blk" where
  "recordWallClock L timing wallClock b =
     (let (am, inv) = b;
          clientCost = max (wrap64 (wallClock - wireRTTSum timing)) 0;
          am1 = (if 0 < clientCost then bump clientCostSum clientCost am else am);
          am2 = bump clientCostCount 1 am1;
          b3 = (case Record L wallClock (totalDuration am2) of
                  None \<Rightarrow> (am2, wrap64 (inv + 1))
                | Some h \<Rightarrow> (bump totalDurationSampleCount 1 (am2\<lparr>totalDuration := h\<rparr>), inv));
          observed = clObserved (Client timing);
          d = clCost (Client timing)
      in fold (\<lambda>st. addDuration st observed (d st))
           [Build, Encode, Send, DecodeWait, Decode, DispatchWait, ParseStore] b3)"

definition recordRequest :: "'sk sketchLib \<Rightarrow> int \<Rightarrow> RequestTiming \<Rightarrow> 'sk blk \<Rightarrow> 'sk blk" where
  "recordRequest L apdexT rq b =
     (let (am, inv) = b in
      if \<not> Has (rqObserved rq) StageRTT \<and> WireRTT rq = 0 then b
      else case Record L (WireRTT rq) (rtt am) of
        None \<Rightarrow> (am, wrap64 (inv + 1))
      | Some h \<Rightarrow>
          let am1 = bump rttSampleCount 1 (am\<lparr>rtt := h\<rparr>);
              threshold = wrap64 (apdexT * 1000000)
          in (if WireRTT rq < threshold then bump apdexSatisfied 1 am1
              else if WireRTT rq < wrap64 (4 * threshold) then bump apdexTolerating 1 am1
              else am1, inv))"

definition recordListenWait :: "'sk sketchLib \<Rightarrow> int \<Rightarrow> 'sk blk \<Rightarrow> 'sk blk" where
  "recordListenWait L wait b =
     (let (am, inv) = b in
      if wait \<le> 0 then b
      else case Record L wait (listenWait am) of
        None \<Rightarrow> (am, wrap64 (inv + 1))
      | Some h \<Rightarrow> (bump listenWaitCount 1 (am\<lparr>listenWait := h\<rparr>), inv))"

definition bump_pos :: "counter \<Rightarrow> int \<Rightarrow> 'sk actionMetrics \<Rightarrow> 'sk actionMetrics" where
  "bump_pos k n am = (if 0 < n then bump k n am else am)"

text \<open>The detail is a Go string and its length counts bytes.\<close>

definition recordError :: "action_err \<Rightarrow> 'sk actionMetrics \<Rightarrow> 'sk actionMetrics" where
  "recordError err am =
     (case err of
        Coded code detail \<Rightarrow>
          let d = (if 120 < length detail then take 120 detail else detail) in
          (case map_of (errBuckets am) code of
             Some b \<Rightarrow> am\<lparr>errBuckets := map (\<lambda>(c, x). if c = code then (c, bucket_record d b) else (c, x)) (errBuckets am)\<rparr>
           | None \<Rightarrow> am\<lparr>errBuckets := errBuckets am @ [(code, bucket_record d newBucket)]\<rparr>)
      | _ \<Rightarrow> am)"

definition recordResult :: "ActionResult \<Rightarrow> int \<Rightarrow> action_err \<Rightarrow> 'sk actionMetrics \<Rightarrow> 'sk actionMetrics" where
  "recordResult result wallClock err am =
     (case result of
        ResultSuccess \<Rightarrow> bump successCount 1 am
      | ResultFailure \<Rightarrow> recordError err (bump failureCount 1 am)
      | ResultTimeout \<Rightarrow> recordError err (bump_pos timeoutTotalNs wallClock (bump timeoutCount 1 am))
      | ResultCanceled \<Rightarrow> bump canceledCount 1 am)"

text \<open>What \<open>recordAction\<close> does to the block of its action.\<close>

definition recordBlock ::
  "'sk sketchLib \<Rightarrow> int \<Rightarrow> ActionResult \<Rightarrow> ActionTiming \<Rightarrow> int \<Rightarrow> int \<Rightarrow> int \<Rightarrow> action_err \<Rightarrow> bool \<Rightarrow> 'sk blk \<Rightarrow> 'sk blk" where
  "recordBlock L apdexT result timing wallClock sendB recvB err trackExecuting b =
     (let (am, inv) = b;
          b1 = (if trackExecuting then bump executing (- 1) am else am, inv);
          b2 = (if result \<noteq> ResultCanceled \<or> 0 < wallClock then recordWallClock L timing wallClock b1 else b1);
          b3 = fold (recordRequest L apdexT) (Requests timing) b2;
          b4 = apfst (bump_pos rttFailedCount (FailedRequests timing)) b3;
          b5 = fold (recordListenWait L) (ListenWaits timing) b4;
          b6 = apfst (bump_pos listenTimeoutHits (ListenTimeouts timing) \<circ> bump_pos listenReadyCount (ListenReady timing)) b5;
          b7 = apfst (bump byteSampleCount 1 \<circ> bump_pos recvBytes recvB \<circ> bump_pos sendBytes sendB) b6
      in apfst (recordResult result wallClock err) b7)"

subsection \<open>The collector\<close>

text \<open>The counters of the collector itself.\<close>

datatype gcounter =
    robotsStarted | robotsRunning | robotsStopped | robotsErrored | totalActions
  | connEstablished | connActive | connClosed | connFailed | connDropped
  | totalSendBytes | totalRecvBytes | invalidMetricSamples

text \<open>
  One set of blocks: \<open>actions\<close> is the concurrent map and \<open>names\<close> the order of first occurrence.
  A \<open>MetricsCollector\<close> owns one and, in \<open>window\<close>, the window-only collector; the flag
  \<open>windowOnly\<close> of the code is the difference between the two types.  \<open>NewCollector\<close> stores a
  window, so that the pointer is never nil.
\<close>

record 'sk Core =
  enabled :: bool
  relAccuracy :: float64
  maxBins :: int
  timingDetail :: TimingDetailLevel
  apdexT :: int
  collectionEpoch :: int
  startTime :: int
  actions :: "string \<Rightarrow> 'sk actionMetrics option"
  names :: "string list"
  gCount :: "gcounter \<Rightarrow> int"
  rampUpCurrentStage :: int
  rampUpTotalStages :: int

record 'sk MetricsCollector =
  core :: "'sk Core"
  window :: "'sk Core"

text \<open>\<open>CollectorConfig\<close>, as far as the collector reads it.\<close>

record CollectorConfig =
  cfgApdexThresholdMs :: int
  cfgTimingDetail :: string
  cfgRelativeAccuracy :: float64
  cfgMaxBins :: int

definition to_i32 :: "int \<Rightarrow> int" where
  "to_i32 x = (x + 2 ^ 31) mod 2 ^ 32 - 2 ^ 31"

definition newWindowCollector :: "int \<Rightarrow> 'sk Core \<Rightarrow> 'sk Core" where
  "newWindowCollector start c =
     \<lparr>enabled = enabled c, relAccuracy = relAccuracy c, maxBins = maxBins c, timingDetail = timingDetail c,
      apdexT = apdexT c, collectionEpoch = collectionEpoch c, startTime = start,
      actions = (\<lambda>_. None), names = [], gCount = (\<lambda>_. 0), rampUpCurrentStage = 0, rampUpTotalStages = 0\<rparr>"

definition NewCollector :: "CollectorConfig \<Rightarrow> int \<Rightarrow> 'sk MetricsCollector" where
  "NewCollector cfg now =
     (let t = (if cfgApdexThresholdMs cfg \<le> 0 then 100 else cfgApdexThresholdMs cfg);
          c = \<lparr>enabled = True, relAccuracy = cfgRelativeAccuracy cfg, maxBins = cfgMaxBins cfg,
               timingDetail = NormalizeTimingDetail (cfgTimingDetail cfg),
               apdexT = to_i32 t, collectionEpoch = 1, startTime = now,
               actions = (\<lambda>_. None), names = [], gCount = (\<lambda>_. 0), rampUpCurrentStage = 0, rampUpTotalStages = 0\<rparr>
      in \<lparr>core = c, window = newWindowCollector now c\<rparr>)"

definition gbump :: "gcounter \<Rightarrow> int \<Rightarrow> 'sk Core \<Rightarrow> 'sk Core" where
  "gbump k n c = c\<lparr>gCount := (gCount c)(k := wrap64 (gCount c k + n))\<rparr>"

definition getOrCreateAction :: "'sk sketchLib \<Rightarrow> string \<Rightarrow> 'sk Core \<Rightarrow> ('sk actionMetrics \<times> 'sk Core) option" where
  "getOrCreateAction L name c =
     (case actions c name of
        Some am \<Rightarrow> Some (am, c)
      | None \<Rightarrow>
          (case newActionMetrics L (relAccuracy c) (maxBins c) of
             None \<Rightarrow> None
           | Some am \<Rightarrow> Some (am, c\<lparr>actions := (actions c)(name \<mapsto> am), names := names c @ [name]\<rparr>)))"

definition putAction :: "string \<Rightarrow> 'sk actionMetrics \<Rightarrow> 'sk Core \<Rightarrow> 'sk Core" where
  "putAction name am c = c\<lparr>actions := (actions c)(name \<mapsto> am)\<rparr>"

text \<open>\<open>recordAction\<close> on one set of blocks, and on the collector: first the cumulative set, then the window.\<close>

definition coreRecordAction ::
  "'sk sketchLib \<Rightarrow> string \<Rightarrow> ActionResult \<Rightarrow> ActionTiming \<Rightarrow> int \<Rightarrow> int \<Rightarrow> int \<Rightarrow> action_err \<Rightarrow> bool \<Rightarrow> 'sk Core \<Rightarrow> 'sk Core option" where
  "coreRecordAction L name result timing wallClock sendB recvB err trackExecuting c =
     (if \<not> enabled c then Some c
      else do {
        (am, c1) \<leftarrow> getOrCreateAction L name c;
        let c2 = (if result \<noteq> ResultCanceled then gbump totalActions 1 c1 else c1);
        let (am', inv') = recordBlock L (apdexT c2) result timing wallClock sendB recvB err trackExecuting
                             (am, gCount c2 invalidMetricSamples);
        Some (putAction name am' (c2\<lparr>gCount := (gCount c2)(invalidMetricSamples := inv')\<rparr>))
      })"

definition recordAction ::
  "'sk sketchLib \<Rightarrow> string \<Rightarrow> ActionResult \<Rightarrow> ActionTiming \<Rightarrow> int \<Rightarrow> int \<Rightarrow> int \<Rightarrow> action_err \<Rightarrow> bool
     \<Rightarrow> 'sk MetricsCollector \<Rightarrow> 'sk MetricsCollector option" where
  "recordAction L name result timing wallClock sendB recvB err trackExecuting mc =
     (if \<not> enabled (core mc) then Some mc
      else do {
        c \<leftarrow> coreRecordAction L name result timing wallClock sendB recvB err trackExecuting (core mc);
        w \<leftarrow> coreRecordAction L name result timing wallClock sendB recvB err False (window mc);
        Some (mc\<lparr>core := c, window := w\<rparr>)
      })"

definition RecordAction where
  "RecordAction L name result timing wallClock sendB recvB err =
     recordAction L name result timing wallClock sendB recvB err True"

definition RecordCallback where
  "RecordCallback L name result timing wallClock sendB recvB err =
     recordAction L (''callback:'' @ name) result timing wallClock sendB recvB err False"

definition RecordCallbackSuccess where
  "RecordCallbackSuccess L name = RecordCallback L name ResultSuccess noTiming 0 0 0 NoErr"

definition RecordCallbackError where
  "RecordCallbackError L name err = RecordCallback L name ResultFailure noTiming 0 0 0 err"

text \<open>\<open>RecordActionStart\<close> counts in the cumulative set alone.\<close>

definition RecordActionStart :: "'sk sketchLib \<Rightarrow> string \<Rightarrow> 'sk MetricsCollector \<Rightarrow> 'sk MetricsCollector option" where
  "RecordActionStart L name mc =
     (if \<not> enabled (core mc) then Some mc
      else do {
        (am, c) \<leftarrow> getOrCreateAction L name (core mc);
        Some (mc\<lparr>core := putAction name (bump executing 1 am) c\<rparr>)
      })"

definition coreRecordPendingCanceled :: "'sk sketchLib \<Rightarrow> string \<Rightarrow> 'sk Core \<Rightarrow> 'sk Core option" where
  "coreRecordPendingCanceled L name c =
     (if \<not> enabled c then Some c
      else do {
        (am, c1) \<leftarrow> getOrCreateAction L name c;
        Some (putAction name (bump canceledCount 1 am) c1)
      })"

definition RecordPendingCanceled :: "'sk sketchLib \<Rightarrow> string \<Rightarrow> 'sk MetricsCollector \<Rightarrow> 'sk MetricsCollector option" where
  "RecordPendingCanceled L name mc =
     (if \<not> enabled (core mc) then Some mc
      else do {
        c \<leftarrow> coreRecordPendingCanceled L name (core mc);
        w \<leftarrow> coreRecordPendingCanceled L name (window mc);
        Some (mc\<lparr>core := c, window := w\<rparr>)
      })"

definition coreAddBandwidth :: "int \<Rightarrow> int \<Rightarrow> 'sk Core \<Rightarrow> 'sk Core" where
  "coreAddBandwidth send recv c =
     (if \<not> enabled c then c
      else let c1 = (if 0 < send then gbump totalSendBytes send c else c)
           in (if 0 < recv then gbump totalRecvBytes recv c1 else c1))"

definition AddBandwidth :: "int \<Rightarrow> int \<Rightarrow> 'sk MetricsCollector \<Rightarrow> 'sk MetricsCollector" where
  "AddBandwidth send recv mc =
     (if \<not> enabled (core mc) then mc
      else mc\<lparr>core := coreAddBandwidth send recv (core mc), window := coreAddBandwidth send recv (window mc)\<rparr>)"

text \<open>The hooks of the robots and connections touch the cumulative set alone.\<close>

definition hook :: "(gcounter \<times> int) list \<Rightarrow> 'sk MetricsCollector \<Rightarrow> 'sk MetricsCollector" where
  "hook ds mc = (if enabled (core mc) then mc\<lparr>core := fold (\<lambda>(k, n). gbump k n) ds (core mc)\<rparr> else mc)"

definition RobotStarted :: "'sk MetricsCollector \<Rightarrow> 'sk MetricsCollector" where
  "RobotStarted = hook [(robotsStarted, 1)]"
definition RobotRunning :: "'sk MetricsCollector \<Rightarrow> 'sk MetricsCollector" where
  "RobotRunning = hook [(robotsRunning, 1)]"
definition RobotStopped :: "'sk MetricsCollector \<Rightarrow> 'sk MetricsCollector" where
  "RobotStopped = hook [(robotsRunning, - 1), (robotsStopped, 1)]"
definition RobotErrored :: "'sk MetricsCollector \<Rightarrow> 'sk MetricsCollector" where
  "RobotErrored = hook [(robotsRunning, - 1), (robotsErrored, 1)]"
definition ConnEstablished :: "'sk MetricsCollector \<Rightarrow> 'sk MetricsCollector" where
  "ConnEstablished = hook [(connEstablished, 1), (connActive, 1)]"
definition ConnClosed :: "'sk MetricsCollector \<Rightarrow> 'sk MetricsCollector" where
  "ConnClosed = hook [(connActive, - 1), (connClosed, 1)]"
definition ConnFailed :: "'sk MetricsCollector \<Rightarrow> 'sk MetricsCollector" where
  "ConnFailed = hook [(connFailed, 1)]"
definition ConnDropped :: "'sk MetricsCollector \<Rightarrow> 'sk MetricsCollector" where
  "ConnDropped = hook [(connDropped, 1)]"

definition SetRampUpStage :: "int \<Rightarrow> int \<Rightarrow> 'sk MetricsCollector \<Rightarrow> 'sk MetricsCollector" where
  "SetRampUpStage current stages mc =
     (if enabled (core mc)
      then mc\<lparr>core := (core mc)\<lparr>rampUpCurrentStage := to_i32 current, rampUpTotalStages := to_i32 stages\<rparr>\<rparr> else mc)"

definition RampUpStage :: "'sk MetricsCollector \<Rightarrow> int \<times> int" where
  "RampUpStage mc = (rampUpCurrentStage (core mc), rampUpTotalStages (core mc))"

text \<open>
  Two operations are coarser here than in the code, which makes two stores of \<open>SetApdexT\<close> and takes no
  lock in \<open>RecordActionStart\<close>, so that a recording may see the first store only, and a start may fall
  between two parts of a reset.  \<open>MetricsRun\<close> has these parts and what becomes of such a start.
\<close>

definition SetApdexT :: "int \<Rightarrow> 'sk MetricsCollector \<Rightarrow> 'sk MetricsCollector" where
  "SetApdexT t mc =
     (if t \<le> 0 then mc
      else mc\<lparr>core := (core mc)\<lparr>apdexT := to_i32 t\<rparr>, window := (window mc)\<lparr>apdexT := to_i32 t\<rparr>\<rparr>)"

definition ResetCollector :: "int \<Rightarrow> 'sk MetricsCollector \<Rightarrow> 'sk MetricsCollector" where
  "ResetCollector now mc =
     (let c = (core mc)\<lparr>startTime := now, collectionEpoch := wrapu64 (collectionEpoch (core mc) + 1),
                        actions := (\<lambda>_. None), names := [], gCount := (\<lambda>_. 0),
                        rampUpCurrentStage := 0, rampUpTotalStages := 0\<rparr>
      in mc\<lparr>core := c, window := newWindowCollector now c\<rparr>)"

definition ActionNames :: "'sk Core \<Rightarrow> string list" where
  "ActionNames c = names c"

subsection \<open>The window and the cumulative set move together\<close>

text \<open>
  \<open>uniformAdd\<close> states of the sketch library that whether a value is refused depends on the value
  alone: \<open>Add\<close> fails for a value that cannot be indexed.
\<close>

definition uniformAdd :: "'sk sketchLib \<Rightarrow> bool" where
  "uniformAdd L \<longleftrightarrow> (\<forall>s s' v. (skAdd L s v = None) = (skAdd L s' v = None))"

lemma Record_None: "uniformAdd L \<Longrightarrow> (Record L ns h = None) = (Record L ns h' = None)"
  unfolding uniformAdd_def Record_def by (auto split: option.splits) (metis option.distinct(1))+

text \<open>The blocks \<open>a\<close> and \<open>b\<close> differ by \<open>D\<close> in every counter but \<open>executing\<close>.\<close>

definition am_rel :: "(counter \<Rightarrow> int) \<Rightarrow> 'sk actionMetrics \<Rightarrow> 'sk actionMetrics \<Rightarrow> bool" where
  "am_rel D a b \<longleftrightarrow> (\<forall>k. k \<noteq> executing \<longrightarrow> amCount a k = wrap64 (amCount b k + D k))"

definition blk_rel :: "(counter \<Rightarrow> int) \<Rightarrow> int \<Rightarrow> 'sk blk \<Rightarrow> 'sk blk \<Rightarrow> bool" where
  "blk_rel D E x y \<longleftrightarrow> am_rel D (fst x) (fst y) \<and> snd x = wrap64 (snd y + E)"

lemma wrap64_shift: "wrap64 (wrap64 (b + d) + n) = wrap64 (wrap64 (b + n) + d)"
  by (simp add: wrap64_add algebra_simps wrap64_add_right)

named_theorems rel_intros \<open>one step on both sides keeps the difference\<close>

lemma am_rel_bump [rel_intros]: "am_rel D a b \<Longrightarrow> am_rel D (bump k n a) (bump k n b)"
  by (simp add: am_rel_def bump_def wrap64_shift)

lemma am_rel_executing [simp]: "am_rel D (bump executing n a) b = am_rel D a b"
  by (simp add: am_rel_def bump_def)

lemma am_rel_hist [simp]:
  "am_rel D (a\<lparr>rtt := h\<rparr>) b = am_rel D a b" "am_rel D a (b\<lparr>rtt := h\<rparr>) = am_rel D a b"
  "am_rel D (a\<lparr>listenWait := h\<rparr>) b = am_rel D a b" "am_rel D a (b\<lparr>listenWait := h\<rparr>) = am_rel D a b"
  "am_rel D (a\<lparr>totalDuration := h\<rparr>) b = am_rel D a b" "am_rel D a (b\<lparr>totalDuration := h\<rparr>) = am_rel D a b"
  by (simp_all add: am_rel_def)

lemma recordError_amCount [simp]:
  "amCount (recordError e am) = amCount am" "rtt (recordError e am) = rtt am"
  "listenWait (recordError e am) = listenWait am" "totalDuration (recordError e am) = totalDuration am"
  by (simp_all add: recordError_def Let_def split: action_err.splits option.splits)

lemma am_rel_recordError [simp]:
  "am_rel D (recordError e a) b = am_rel D a b" "am_rel D a (recordError e b) = am_rel D a b"
  by (simp_all add: am_rel_def)

lemma am_rel_bump_pos [rel_intros]: "am_rel D a b \<Longrightarrow> am_rel D (bump_pos k n a) (bump_pos k n b)"
  by (simp add: bump_pos_def am_rel_bump)

lemma am_rel_recordResult [rel_intros]:
  "am_rel D a b \<Longrightarrow> am_rel D (recordResult r w e a) (recordResult r w e b)"
  by (cases r) (simp_all add: recordResult_def am_rel_bump am_rel_bump_pos)

lemma blk_rel_invalid: "blk_rel D E (a, i) (b, j) \<Longrightarrow> blk_rel D E (a, wrap64 (i + 1)) (b, wrap64 (j + 1))"
  by (simp add: blk_rel_def wrap64_shift)

lemma blk_rel_apfst:
  "blk_rel D E x y \<Longrightarrow> (\<And>a b. am_rel D a b \<Longrightarrow> am_rel D (f a) (f b)) \<Longrightarrow> blk_rel D E (apfst f x) (apfst f y)"
  by (cases x; cases y) (simp add: blk_rel_def)

lemma blk_rel_fold:
  assumes "\<And>z x y. blk_rel D E x y \<Longrightarrow> blk_rel D E (f z x) (f z y)" and "blk_rel D E x y"
  shows "blk_rel D E (fold f zs x) (fold f zs y)"
  using assms(2)
proof (induction zs arbitrary: x y)
  case (Cons z zs)
  show ?case unfolding fold_Cons comp_def by (rule Cons.IH, rule assms(1), rule Cons.prems)
qed simp

lemma blk_rel_addDuration: "blk_rel D E x y \<Longrightarrow> blk_rel D E (addDuration st ob d x) (addDuration st ob d y)"
  by (cases x; cases y)
    (auto simp: addDuration_def blk_rel_def wrap64_shift intro!: rel_intros)

lemma blk_rel_recordRequest:
  assumes "uniformAdd L" and "blk_rel D E x y"
  shows "blk_rel D E (recordRequest L T rq x) (recordRequest L T rq y)"
proof -
  obtain a i b j where xy: "x = (a, i)" "y = (b, j)" by (cases x; cases y)
  have "Record L (WireRTT rq) (rtt a) = None \<longleftrightarrow> Record L (WireRTT rq) (rtt b) = None"
    by (rule Record_None [OF assms(1)])
  then show ?thesis using assms(2)
    by (cases "Record L (WireRTT rq) (rtt a)"; cases "Record L (WireRTT rq) (rtt b)")
      (auto simp: xy recordRequest_def blk_rel_def Let_def wrap64_shift intro!: rel_intros)
qed

lemma blk_rel_recordListenWait:
  assumes "uniformAdd L" and "blk_rel D E x y"
  shows "blk_rel D E (recordListenWait L w x) (recordListenWait L w y)"
proof -
  obtain a i b j where xy: "x = (a, i)" "y = (b, j)" by (cases x; cases y)
  have "Record L w (listenWait a) = None \<longleftrightarrow> Record L w (listenWait b) = None"
    by (rule Record_None [OF assms(1)])
  then show ?thesis using assms(2)
    by (cases "Record L w (listenWait a)"; cases "Record L w (listenWait b)")
      (auto simp: xy recordListenWait_def blk_rel_def Let_def wrap64_shift intro!: rel_intros)
qed

lemma blk_rel_recordWallClock:
  assumes "uniformAdd L" and "blk_rel D E x y"
  shows "blk_rel D E (recordWallClock L t w x) (recordWallClock L t w y)"
proof -
  obtain a i b j where xy: "x = (a, i)" "y = (b, j)" by (cases x; cases y)
  have td [simp]: "totalDuration (bump k n c) = totalDuration c" for k n and c :: "'a actionMetrics"
    by (simp add: bump_def)
  have N: "Record L w (totalDuration a) = None \<longleftrightarrow> Record L w (totalDuration b) = None"
    by (rule Record_None [OF assms(1)])
  have ij: "am_rel D a b" "i = wrap64 (j + E)" using assms(2) by (simp_all add: xy blk_rel_def)
  show ?thesis
    unfolding recordWallClock_def xy Let_def prod.case
    by (rule blk_rel_fold, erule blk_rel_addDuration, use N ij in \<open>cases "Record L w (totalDuration a)"; cases "Record L w (totalDuration b)"\<close>)
      (auto simp: blk_rel_def wrap64_shift intro!: rel_intros)
qed

lemma blk_rel_recordBlock:
  assumes L: "uniformAdd L" and R: "blk_rel D E (a, i) (b, j)"
  shows "blk_rel D E (recordBlock L T r t w s v e tr (a, i)) (recordBlock L T r t w s v e False (b, j))"
proof -
  have 1: "blk_rel D E (if tr then bump executing (- 1) a else a, i) (b, j)"
    using R by (simp add: blk_rel_def)
  show ?thesis
    unfolding recordBlock_def Let_def prod.case if_False
    apply (intro blk_rel_apfst blk_rel_fold [OF blk_rel_recordListenWait [OF L]]
        blk_rel_fold [OF blk_rel_recordRequest [OF L]])
            apply (simp add: blk_rel_recordWallClock [OF L] 1 split del: if_split cong: if_cong)
    using blk_rel_recordWallClock [OF L 1] 1
         apply (auto intro!: rel_intros)
    done
qed

subsection \<open>Counters of an action, and the counters both sets share\<close>

definition cnt :: "'sk Core \<Rightarrow> string \<Rightarrow> counter \<Rightarrow> int" where
  "cnt c n k = (case actions c n of None \<Rightarrow> 0 | Some am \<Rightarrow> amCount am k)"

definition windowed :: "gcounter \<Rightarrow> bool" where
  "windowed g \<longleftrightarrow> g \<in> {totalActions, totalSendBytes, totalRecvBytes, invalidMetricSamples}"

definition core_rel :: "(string \<Rightarrow> counter \<Rightarrow> int) \<Rightarrow> (gcounter \<Rightarrow> int) \<Rightarrow> 'sk Core \<Rightarrow> 'sk Core \<Rightarrow> bool" where
  "core_rel D G c w \<longleftrightarrow>
     enabled w = enabled c \<and> relAccuracy w = relAccuracy c \<and> maxBins w = maxBins c \<and> apdexT w = apdexT c \<and>
     (\<forall>n k. k \<noteq> executing \<longrightarrow> cnt c n k = wrap64 (cnt w n k + D n k)) \<and>
     (\<forall>g. windowed g \<longrightarrow> gCount c g = wrap64 (gCount w g + G g))"

lemma newActionMetrics_zero: "newActionMetrics L x y = Some am \<Longrightarrow> amCount am = (\<lambda>_. 0)"
  by (auto simp: newActionMetrics_def split: bind_splits)

lemma getOrCreateAction_same:
  assumes "getOrCreateAction L name c = Some (am, c')"
  shows "cnt c' n k = cnt c n k" "amCount am k = cnt c name k" "enabled c' = enabled c"
    "relAccuracy c' = relAccuracy c" "maxBins c' = maxBins c" "apdexT c' = apdexT c" "gCount c' = gCount c"
  using assms newActionMetrics_zero [of L "relAccuracy c" "maxBins c"]
  by (auto simp: getOrCreateAction_def cnt_def split: option.splits if_splits)

lemma getOrCreate_rel:
  assumes "core_rel D G c w"
    and "getOrCreateAction L name c = Some (am, c1)" and "getOrCreateAction L name w = Some (bm, w1)"
  shows "core_rel D G c1 w1" "am_rel (D name) am bm"
  using assms(1) unfolding core_rel_def am_rel_def
  by (simp_all add: getOrCreateAction_same [OF assms(2)] getOrCreateAction_same [OF assms(3)])

lemma cnt_putAction: "cnt (putAction name am c) n k = (if n = name then amCount am k else cnt c n k)"
  by (simp add: cnt_def putAction_def)

lemma core_rel_put:
  "core_rel D G c w \<Longrightarrow> am_rel (D name) a b \<Longrightarrow> core_rel D G (putAction name a c) (putAction name b w)"
  by (simp add: core_rel_def am_rel_def cnt_putAction) (simp add: putAction_def)

lemma core_rel_put_left:
  "core_rel D G c w \<Longrightarrow> (\<And>k. k \<noteq> executing \<Longrightarrow> amCount a k = cnt c name k) \<Longrightarrow> core_rel D G (putAction name a c) w"
  by (simp add: core_rel_def cnt_putAction) (simp add: putAction_def)

lemma cnt_gCount [simp]: "cnt (c\<lparr>gCount := g\<rparr>) n k = cnt c n k"
  by (simp add: cnt_def)

lemma core_rel_gbump: "core_rel D G c w \<Longrightarrow> core_rel D G (gbump g n c) (gbump g n w)"
  by (auto simp: core_rel_def gbump_def wrap64_shift)

lemma core_rel_gbump_left: "\<not> windowed g \<Longrightarrow> core_rel D G c w \<Longrightarrow> core_rel D G (gbump g n c) w"
  by (auto simp: core_rel_def gbump_def)

lemma coreRecordAction_rel:
  assumes L: "uniformAdd L" and R: "core_rel D G c w"
    and c': "coreRecordAction L name r t wc s v e tr c = Some c'"
    and w': "coreRecordAction L name r t wc s v e False w = Some w'"
  shows "core_rel D G c' w'"
proof (cases "enabled c")
  case False
  then show ?thesis using assms by (simp add: coreRecordAction_def core_rel_def)
next
  case en: True
  then have enw: "enabled w" using R by (simp add: core_rel_def)
  obtain am c1 where g1: "getOrCreateAction L name c = Some (am, c1)"
    using c' en by (auto simp: coreRecordAction_def split: bind_splits)
  obtain bm w1 where g2: "getOrCreateAction L name w = Some (bm, w1)"
    using w' enw by (auto simp: coreRecordAction_def split: bind_splits)
  define c2 where "c2 = (if r \<noteq> ResultCanceled then gbump totalActions 1 c1 else c1)"
  define w2 where "w2 = (if r \<noteq> ResultCanceled then gbump totalActions 1 w1 else w1)"
  have R2: "core_rel D G c2 w2"
    using getOrCreate_rel(1) [OF R g1 g2] by (simp add: c2_def w2_def core_rel_gbump)
  have T: "apdexT w2 = apdexT c2" using R2 by (simp add: core_rel_def)
  obtain a i where b1: "recordBlock L (apdexT c2) r t wc s v e tr (am, gCount c2 invalidMetricSamples) = (a, i)"
    by fastforce
  obtain b j where b2: "recordBlock L (apdexT c2) r t wc s v e False (bm, gCount w2 invalidMetricSamples) = (b, j)"
    by fastforce
  have "blk_rel (D name) (G invalidMetricSamples) (am, gCount c2 invalidMetricSamples) (bm, gCount w2 invalidMetricSamples)"
    using R2 getOrCreate_rel(2) [OF R g1 g2] by (simp add: blk_rel_def core_rel_def windowed_def)
  from blk_rel_recordBlock [OF L this, of "apdexT c2" r t wc s v e tr]
  have B: "am_rel (D name) a b" "i = wrap64 (j + G invalidMetricSamples)"
    by (simp_all add: b1 b2 blk_rel_def)
  have c'': "c' = putAction name a (c2\<lparr>gCount := (gCount c2)(invalidMetricSamples := i)\<rparr>)"
    using c' en g1 b1 by (simp add: coreRecordAction_def c2_def [symmetric])
  have w'': "w' = putAction name b (w2\<lparr>gCount := (gCount w2)(invalidMetricSamples := j)\<rparr>)"
    using w' enw g2 b2 T by (simp add: coreRecordAction_def w2_def [symmetric])
  show ?thesis
    unfolding c'' w'' by (rule core_rel_put [where D = D and name = name, OF _ B(1)]) (use R2 B(2) in \<open>simp add: core_rel_def\<close>)
qed

subsection \<open>Invariant of one set of blocks\<close>

text \<open>The distributions hold as many samples as the counters say.\<close>

definition am_ok :: "'sk actionMetrics \<Rightarrow> bool" where
  "am_ok am \<longleftrightarrow> hCount (rtt am) = amCount am rttSampleCount \<and> hCount (listenWait am) = amCount am listenWaitCount \<and>
     hCount (totalDuration am) = amCount am totalDurationSampleCount"

definition sampleSum :: "'sk actionMetrics \<Rightarrow> int" where
  "sampleSum am = amCount am successCount + amCount am failureCount + amCount am timeoutCount"

definition core_inv :: "'sk Core \<Rightarrow> bool" where
  "core_inv c \<longleftrightarrow> distinct (names c) \<and> set (names c) = dom (actions c) \<and>
     (\<forall>n am. actions c n = Some am \<longrightarrow> am_ok am) \<and>
     gCount c totalActions = wrap64 (\<Sum>n \<leftarrow> names c. sampleSum (the (actions c n)))"

lemma newActionMetrics_ok: "newActionMetrics L x y = Some am \<Longrightarrow> am_ok am \<and> sampleSum am = 0"
  by (auto simp: newActionMetrics_def newLatencyHistogramWith_def am_ok_def sampleSum_def split: bind_splits)

lemma Record_count: "Record L ns h = Some h' \<Longrightarrow> hCount h' = wrap64 (hCount h + 1)"
  by (auto simp: Record_def split: if_splits option.splits)

definition plain :: "counter \<Rightarrow> bool" where
  "plain k \<longleftrightarrow> k \<notin> {rttSampleCount, listenWaitCount, totalDurationSampleCount, successCount, failureCount, timeoutCount}"

lemma bump_hist [simp]:
  "rtt (bump k n am) = rtt am" "listenWait (bump k n am) = listenWait am" "totalDuration (bump k n am) = totalDuration am"
  by (simp_all add: bump_def)

lemma bump_plain:
  assumes "plain k"
  shows "am_ok (bump k n am) = am_ok am" "sampleSum (bump k n am) = sampleSum am"
    "am_ok (bump_pos k n am) = am_ok am" "sampleSum (bump_pos k n am) = sampleSum am"
  using assms by (auto simp: am_ok_def sampleSum_def plain_def bump_def bump_pos_def)

definition blk_keeps :: "'sk blk \<Rightarrow> 'sk blk \<Rightarrow> bool" where
  "blk_keeps x y \<longleftrightarrow> (am_ok (fst x) \<longrightarrow> am_ok (fst y)) \<and> sampleSum (fst y) = sampleSum (fst x)"

lemma blk_keeps_refl [simp]: "blk_keeps x x"
  by (simp add: blk_keeps_def)

lemma blk_keeps_trans: "blk_keeps x y \<Longrightarrow> blk_keeps y z \<Longrightarrow> blk_keeps x z"
  by (simp add: blk_keeps_def)

lemma blk_keeps_fold: "(\<And>z x. blk_keeps x (f z x)) \<Longrightarrow> blk_keeps x (fold f zs x)"
proof (induction zs arbitrary: x)
  case (Cons z zs)
  show ?case unfolding fold_Cons comp_def by (rule blk_keeps_trans [OF Cons.prems Cons.IH]) (rule Cons.prems)
qed simp

lemma addDuration_keeps: "blk_keeps x (addDuration st ob d x)"
  by (cases x) (auto simp: addDuration_def blk_keeps_def bump_plain plain_def)

lemma recordRequest_keeps: "blk_keeps x (recordRequest L T rq x)"
proof (cases x)
  case (Pair am i)
  show ?thesis
  proof (cases "Record L (WireRTT rq) (rtt am)")
    case (Some h)
    have "am_ok am \<longrightarrow> am_ok (bump rttSampleCount 1 (am\<lparr>rtt := h\<rparr>))"
      "sampleSum (bump rttSampleCount 1 (am\<lparr>rtt := h\<rparr>)) = sampleSum am"
      using Record_count [OF Some] by (auto simp: am_ok_def sampleSum_def bump_def)
    then show ?thesis
      by (auto simp: Pair Some recordRequest_def blk_keeps_def Let_def bump_plain plain_def)
  qed (auto simp: Pair recordRequest_def blk_keeps_def)
qed

lemma recordListenWait_keeps: "blk_keeps x (recordListenWait L w x)"
proof (cases x)
  case (Pair am i)
  show ?thesis
  proof (cases "Record L w (listenWait am)")
    case (Some h)
    have "am_ok am \<longrightarrow> am_ok (bump listenWaitCount 1 (am\<lparr>listenWait := h\<rparr>))"
      "sampleSum (bump listenWaitCount 1 (am\<lparr>listenWait := h\<rparr>)) = sampleSum am"
      using Record_count [OF Some] by (auto simp: am_ok_def sampleSum_def bump_def)
    then show ?thesis by (auto simp: Pair Some recordListenWait_def blk_keeps_def)
  qed (auto simp: Pair recordListenWait_def blk_keeps_def)
qed

lemma recordWallClock_keeps: "blk_keeps x (recordWallClock L t w x)"
proof (cases x)
  case (Pair am i)
  define am1 where "am1 = bump clientCostCount 1
    (if 0 < max (wrap64 (w - wireRTTSum t)) 0 then bump clientCostSum (max (wrap64 (w - wireRTTSum t)) 0) am else am)"
  have 1: "am_ok am1 = am_ok am" "sampleSum am1 = sampleSum am" by (simp_all add: am1_def bump_plain plain_def)
  have 2: "blk_keeps x (case Record L w (totalDuration am1) of None \<Rightarrow> (am1, wrap64 (i + 1))
                | Some h \<Rightarrow> (bump totalDurationSampleCount 1 (am1\<lparr>totalDuration := h\<rparr>), i))"
  proof (cases "Record L w (totalDuration am1)")
    case (Some h)
    have "am_ok am1 \<longrightarrow> am_ok (bump totalDurationSampleCount 1 (am1\<lparr>totalDuration := h\<rparr>))"
      "sampleSum (bump totalDurationSampleCount 1 (am1\<lparr>totalDuration := h\<rparr>)) = sampleSum am1"
      using Record_count [OF Some] by (auto simp: am_ok_def sampleSum_def bump_def)
    then show ?thesis using 1 by (simp add: Pair Some blk_keeps_def)
  qed (simp add: Pair blk_keeps_def 1)
  show ?thesis
    unfolding recordWallClock_def Pair Let_def prod.case am1_def [symmetric]
    by (rule blk_keeps_trans [OF 2 [unfolded Pair] blk_keeps_fold]) (rule addDuration_keeps)
qed

lemma recordResult_ok: "am_ok (recordResult r w e am) = am_ok am"
  by (cases r) (auto simp: recordResult_def am_ok_def bump_def bump_pos_def)

lemma recordResult_samples:
  "wrap64 (sampleSum (recordResult r w e am)) = wrap64 (sampleSum am + (if r = ResultCanceled then 0 else 1))"
proof -
  have *: "wrap64 (wrap64 (a + 1) + b + c) = wrap64 (a + b + c + 1)" "wrap64 (b + wrap64 (a + 1) + c) = wrap64 (b + a + c + 1)"
    "wrap64 (b + c + wrap64 (a + 1)) = wrap64 (b + c + a + 1)" for a b c
    using wrap64_add [of "a + 1" "b + c"] by (simp_all add: algebra_simps)
  show ?thesis
    by (cases r) (simp_all add: recordResult_def sampleSum_def bump_def bump_pos_def *)
qed

lemma apfst_keeps: "(\<And>am. am_ok (f am) = am_ok am) \<Longrightarrow> (\<And>am. sampleSum (f am) = sampleSum am) \<Longrightarrow> blk_keeps x (apfst f x)"
  by (cases x) (simp add: blk_keeps_def)

text \<open>A block keeps its invariant, and gains one sample unless the action was canceled.\<close>

lemma recordBlock_ok:
  assumes "am_ok am" and "recordBlock L T r t w s v e tr (am, i) = (am', i')"
  shows "am_ok am'" "wrap64 (sampleSum am') = wrap64 (sampleSum am + (if r = ResultCanceled then 0 else 1))"
proof -
  define b1 where "b1 = (if tr then bump executing (- 1) am else am, i)"
  define b2 where "b2 = (if r \<noteq> ResultCanceled \<or> 0 < w then recordWallClock L t w b1 else b1)"
  define b3 where "b3 = fold (recordRequest L T) (Requests t) b2"
  define b4 where "b4 = apfst (bump_pos rttFailedCount (FailedRequests t)) b3"
  define b5 where "b5 = fold (recordListenWait L) (ListenWaits t) b4"
  define b6 where "b6 = apfst (bump_pos listenTimeoutHits (ListenTimeouts t) \<circ> bump_pos listenReadyCount (ListenReady t)) b5"
  define b7 where "b7 = apfst (bump byteSampleCount 1 \<circ> bump_pos recvBytes v \<circ> bump_pos sendBytes s) b6"
  have p: "plain executing" "plain rttFailedCount" "plain listenTimeoutHits" "plain listenReadyCount"
    "plain byteSampleCount" "plain recvBytes" "plain sendBytes" by (simp_all add: plain_def)
  have 1: "blk_keeps (am, i) b1" by (simp add: b1_def blk_keeps_def bump_plain p)
  have 2: "blk_keeps b1 b2" by (simp add: b2_def recordWallClock_keeps)
  have 3: "blk_keeps b2 b3" unfolding b3_def by (rule blk_keeps_fold) (rule recordRequest_keeps)
  have 4: "blk_keeps b3 b4" unfolding b4_def by (rule apfst_keeps) (simp_all add: bump_plain p)
  have 5: "blk_keeps b4 b5" unfolding b5_def by (rule blk_keeps_fold) (rule recordListenWait_keeps)
  have 6: "blk_keeps b5 b6" unfolding b6_def by (rule apfst_keeps) (simp_all add: bump_plain p)
  have 7: "blk_keeps b6 b7" unfolding b7_def by (rule apfst_keeps) (simp_all add: bump_plain p)
  have K: "blk_keeps (am, i) b7" by (rule blk_keeps_trans [OF 1 blk_keeps_trans [OF 2 blk_keeps_trans [OF 3
      blk_keeps_trans [OF 4 blk_keeps_trans [OF 5 blk_keeps_trans [OF 6 7]]]]]])
  have "(am', i') = apfst (recordResult r w e) b7"
    using assms(2) unfolding recordBlock_def Let_def prod.case b1_def b2_def b3_def b4_def b5_def b6_def b7_def
    by (rule sym)
  then have "am' = recordResult r w e (fst b7)" by (cases b7) simp
  then show "am_ok am'" "wrap64 (sampleSum am') = wrap64 (sampleSum am + (if r = ResultCanceled then 0 else 1))"
    using K assms(1) by (simp_all add: recordResult_ok recordResult_samples blk_keeps_def)
qed

lemma getOrCreate_inv:
  assumes "core_inv c" and "getOrCreateAction L name c = Some (am, c')"
  shows "core_inv c'" "am_ok am" "actions c' name = Some am"
proof -
  have "core_inv c' \<and> am_ok am \<and> actions c' name = Some am"
  proof (cases "actions c name")
    case (Some a)
    then show ?thesis using assms by (auto simp: getOrCreateAction_def core_inv_def)
  next
    case None
    then obtain am' where n: "newActionMetrics L (relAccuracy c) (maxBins c) = Some am'"
      and eq: "am = am'" "c' = c\<lparr>actions := (actions c)(name \<mapsto> am'), names := names c @ [name]\<rparr>"
      using assms(2) by (auto simp: getOrCreateAction_def split: option.splits)
    have fresh: "name \<notin> set (names c)" using None assms(1) by (auto simp: core_inv_def)
    have sums: "(\<Sum>n \<leftarrow> names c. sampleSum (the (((actions c)(name \<mapsto> am')) n))) = (\<Sum>n \<leftarrow> names c. sampleSum (the (actions c n)))"
      by (rule arg_cong [where f = sum_list], rule map_cong [OF refl]) (use fresh in auto)
    have "core_inv c'"
      using assms(1) newActionMetrics_ok [OF n] fresh sums
      by (simp add: eq core_inv_def del: fun_upd_apply) auto
    then show ?thesis using newActionMetrics_ok [OF n] by (simp add: eq)
  qed
  then show "core_inv c'" "am_ok am" "actions c' name = Some am" by simp_all
qed

lemma sum_upd:
  assumes "distinct ns" "m \<in> set ns" "\<And>n. n \<noteq> m \<Longrightarrow> f' n = f n"
  shows "(\<Sum>n \<leftarrow> ns. f' n) = (\<Sum>n \<leftarrow> ns. f n) + (f' m - f m :: int)"
  using assms
proof (induction ns)
  case (Cons a ns)
  show ?case
  proof (cases "a = m")
    case True
    have "(\<Sum>n \<leftarrow> ns. f' n) = (\<Sum>n \<leftarrow> ns. f n)"
    proof (rule arg_cong [where f = sum_list], rule map_cong [OF refl])
      fix x assume "x \<in> set ns"
      then have "x \<noteq> m" using Cons.prems True by auto
      then show "f' x = f x" by (rule Cons.prems)
    qed
    then show ?thesis using True by simp
  next
    case False
    then show ?thesis using Cons by auto
  qed
qed simp

text \<open>The block of an action changes by \<open>d\<close> samples, and \<open>totalActions\<close> by the same \<open>d\<close>.\<close>

lemma putAction_inv:
  assumes I: "core_inv c" and am: "actions c name = Some am" and ok: "am_ok am'"
    and d: "wrap64 (sampleSum am') = wrap64 (sampleSum am + d)"
    and g: "g totalActions = wrap64 (gCount c totalActions + d)"
  shows "core_inv (putAction name am' (c\<lparr>gCount := g\<rparr>))"
proof -
  let ?acts = "(actions c)(name \<mapsto> am')"
  have mem: "name \<in> set (names c)" "distinct (names c)" using I am by (auto simp: core_inv_def)
  let ?f = "\<lambda>n. sampleSum (the (actions c n))" and ?f' = "\<lambda>n. sampleSum (the (?acts n))"
  have "(\<Sum>n \<leftarrow> names c. ?f' n) = (\<Sum>n \<leftarrow> names c. ?f n) + (?f' name - ?f name)"
    by (rule sum_upd [OF mem(2,1)]) simp
  then have "(\<Sum>n \<leftarrow> names c. ?f' n) = (\<Sum>n \<leftarrow> names c. ?f n) - sampleSum am + sampleSum am'"
    using am by (simp del: fun_upd_apply) simp
  then have "wrap64 (\<Sum>n \<leftarrow> names c. ?f' n) = wrap64 ((\<Sum>n \<leftarrow> names c. ?f n) - sampleSum am + sampleSum am')"
    by (rule arg_cong)
  also have "\<dots> = wrap64 ((\<Sum>n \<leftarrow> names c. ?f n) - sampleSum am + (sampleSum am + d))"
    using wrap64_add_right [of _ "sampleSum am'"] wrap64_add_right [of _ "sampleSum am + d"] d by metis
  also have "\<dots> = wrap64 ((\<Sum>n \<leftarrow> names c. ?f n) + d)" by simp
  also have "\<dots> = g totalActions" using I g by (simp add: core_inv_def wrap64_add)
  finally have "g totalActions = wrap64 (\<Sum>n \<leftarrow> names c. ?f' n)" by (rule sym)
  then show ?thesis using I am ok by (auto simp: core_inv_def putAction_def)
qed

lemma gbump_record: "gbump k n c = c\<lparr>gCount := (gCount c)(k := wrap64 (gCount c k + n))\<rparr>"
  by (simp add: gbump_def)

lemma coreRecordAction_inv:
  assumes I: "core_inv c" and c': "coreRecordAction L name r t w s v e tr c = Some c'"
  shows "core_inv c'"
proof (cases "enabled c")
  case True
  then obtain am c1 where g1: "getOrCreateAction L name c = Some (am, c1)"
    using c' by (auto simp: coreRecordAction_def split: bind_splits)
  define d :: int where "d = (if r = ResultCanceled then 0 else 1)"
  define c2 where "c2 = (if r \<noteq> ResultCanceled then gbump totalActions 1 c1 else c1)"
  obtain a i where b1: "recordBlock L (apdexT c2) r t w s v e tr (am, gCount c2 invalidMetricSamples) = (a, i)"
    by fastforce
  have I1: "core_inv c1" "am_ok am" "actions c1 name = Some am" using getOrCreate_inv [OF I g1] .
  have c'': "c' = putAction name a (c1\<lparr>gCount := (gCount c2)(invalidMetricSamples := i)\<rparr>)"
    using c' True g1 b1 by (auto simp: coreRecordAction_def c2_def [symmetric]) (auto simp: c2_def gbump_def putAction_def)
  have "gCount c1 totalActions = wrap64 (gCount c1 totalActions)" using I1(1) by (simp add: core_inv_def)
  then have "((gCount c2)(invalidMetricSamples := i)) totalActions = wrap64 (gCount c1 totalActions + d)"
    by (auto simp: c2_def d_def gbump_def)
  then show ?thesis
    unfolding c'' using recordBlock_ok [OF I1(2) b1] by (intro putAction_inv [OF I1(1,3)]) (simp_all add: d_def)
qed (use assms in \<open>simp add: coreRecordAction_def\<close>)

lemma core_inv_wrap: "core_inv c \<Longrightarrow> wrap64 (gCount c totalActions) = gCount c totalActions"
  by (simp add: core_inv_def)

lemma put_plain_inv:
  assumes "core_inv c" "getOrCreateAction L name c = Some (am, c1)" "plain k"
  shows "core_inv (putAction name (bump k n am) c1)"
proof -
  note I1 = getOrCreate_inv [OF assms(1,2)]
  have "core_inv (putAction name (bump k n am) (c1\<lparr>gCount := gCount c1\<rparr>))"
    by (rule putAction_inv [OF I1(1,3), where d = 0]) (use I1 in \<open>simp_all add: bump_plain assms(3) core_inv_wrap\<close>)
  then show ?thesis by simp
qed

lemma gbump_inv: "core_inv c \<Longrightarrow> k \<noteq> totalActions \<Longrightarrow> core_inv (gbump k n c)"
  by (simp add: core_inv_def gbump_def)

lemma newWindow_inv [simp]: "core_inv (newWindowCollector t c)"
  by (simp add: newWindowCollector_def core_inv_def)

lemma coreRecordAction_enabled:
  assumes "coreRecordAction L name r t w s v e tr c = Some c'"
  shows "enabled c' = enabled c"
proof (cases "enabled c")
  case True
  then obtain am c1 where g1: "getOrCreateAction L name c = Some (am, c1)"
    using assms by (auto simp: coreRecordAction_def split: bind_splits)
  show ?thesis
    using assms True g1 getOrCreateAction_same(3) [OF g1]
    by (cases "r = ResultCanceled") (auto simp: coreRecordAction_def putAction_def gbump_def Let_def split: prod.splits)
qed (use assms in \<open>simp add: coreRecordAction_def\<close>)

subsection \<open>What a record does to \<open>executing\<close>\<close>

definition exec_of :: "'sk blk \<Rightarrow> int" where
  "exec_of b = amCount (fst b) executing"

lemma bump_exec: "amCount (bump k n am) executing = (if k = executing then wrap64 (amCount am executing + n) else amCount am executing)"
  by (simp add: bump_def)

lemma bump_pos_exec [simp]: "k \<noteq> executing \<Longrightarrow> amCount (bump_pos k n am) executing = amCount am executing"
  by (simp add: bump_pos_def bump_exec)

lemma exec_of_apfst: "(\<And>am. amCount (f am) executing = amCount am executing) \<Longrightarrow> exec_of (apfst f b) = exec_of b"
  by (cases b) (simp add: exec_of_def)

lemma exec_of_fold: "(\<And>z b. exec_of (f z b) = exec_of b) \<Longrightarrow> exec_of (fold f zs b) = exec_of b"
proof (induction zs arbitrary: b)
  case (Cons z zs)
  then show ?case by (metis comp_apply fold_simps(2))
qed simp

lemma addDuration_exec: "exec_of (addDuration st ob d b) = exec_of b"
  by (cases b) (auto simp: addDuration_def exec_of_def bump_exec)

lemma recordRequest_exec: "exec_of (recordRequest L T rq b) = exec_of b"
  by (cases b; cases "Record L (WireRTT rq) (rtt (fst b))") (auto simp: recordRequest_def exec_of_def bump_exec Let_def)

lemma recordListenWait_exec: "exec_of (recordListenWait L w b) = exec_of b"
  by (cases b; cases "Record L w (listenWait (fst b))") (auto simp: recordListenWait_def exec_of_def bump_exec)

lemma recordWallClock_exec: "exec_of (recordWallClock L t w b) = exec_of b"
proof -
  obtain am i where b: "b = (am, i)" by (cases b)
  show ?thesis
    unfolding recordWallClock_def b Let_def prod.case
    by (rule trans [OF exec_of_fold], rule addDuration_exec) (simp add: exec_of_def bump_exec split: option.splits)
qed

lemma recordResult_exec: "amCount (recordResult r w e am) executing = amCount am executing"
  by (cases r) (simp_all add: recordResult_def bump_exec)

lemma recordBlock_exec:
  "exec_of (recordBlock L T r t w s v e tr (am, i)) =
     (if tr then wrap64 (amCount am executing - 1) else amCount am executing)"
proof -
  define b1 where "b1 = (if tr then bump executing (- 1) am else am, i)"
  define b2 where "b2 = (if r \<noteq> ResultCanceled \<or> 0 < w then recordWallClock L t w b1 else b1)"
  define b3 where "b3 = fold (recordRequest L T) (Requests t) b2"
  define b4 where "b4 = apfst (bump_pos rttFailedCount (FailedRequests t)) b3"
  define b5 where "b5 = fold (recordListenWait L) (ListenWaits t) b4"
  define b6 where "b6 = apfst (bump_pos listenTimeoutHits (ListenTimeouts t) \<circ> bump_pos listenReadyCount (ListenReady t)) b5"
  define b7 where "b7 = apfst (bump byteSampleCount 1 \<circ> bump_pos recvBytes v \<circ> bump_pos sendBytes s) b6"
  have 1: "exec_of b1 = (if tr then wrap64 (amCount am executing - 1) else amCount am executing)"
    by (simp add: b1_def exec_of_def bump_exec)
  have 2: "exec_of b2 = exec_of b1" by (simp add: b2_def recordWallClock_exec)
  have 3: "exec_of b3 = exec_of b2" unfolding b3_def by (rule exec_of_fold) (rule recordRequest_exec)
  have 4: "exec_of b4 = exec_of b3" unfolding b4_def by (rule exec_of_apfst) simp
  have 5: "exec_of b5 = exec_of b4" unfolding b5_def by (rule exec_of_fold) (rule recordListenWait_exec)
  have 6: "exec_of b6 = exec_of b5" unfolding b6_def by (rule exec_of_apfst) simp
  have 7: "exec_of b7 = exec_of b6" unfolding b7_def by (rule exec_of_apfst) (simp add: bump_exec)
  have "recordBlock L T r t w s v e tr (am, i) = apfst (recordResult r w e) b7"
    unfolding recordBlock_def Let_def prod.case b1_def b2_def b3_def b4_def b5_def b6_def b7_def by (rule refl)
  then have "exec_of (recordBlock L T r t w s v e tr (am, i)) = exec_of b7"
    by (simp add: exec_of_apfst recordResult_exec)
  then show ?thesis using 1 2 3 4 5 6 7 by simp
qed

end
