(* ===== verification/MetricsSnapshot.thy ===== *)
theory MetricsSnapshot
  imports MetricsCollector
begin

text \<open>
  The snapshots of the collector (\<^verbatim>\<open>monitor/snapshot.go\<close> and the snapshot half of
  \<^verbatim>\<open>monitor/histogram.go\<close>): the copy of the counters with the rates and averages derived from them,
  the summary over the actions, the report that closes a window, and the merge of the snapshots of
  several agents.  Floating-point values are computed by \<open>Float64\<close>.
\<close>

subsection \<open>Distributions\<close>

record HistogramSnapshot =
  hsCount :: int
  hsMinMs :: "float64 option"
  hsMaxMs :: "float64 option"
  hsAvgMs :: "float64 option"
  hsP50Ms :: "float64 option"
  hsP90Ms :: "float64 option"
  hsP95Ms :: "float64 option"
  hsP99Ms :: "float64 option"
  hsSumNs :: int
  hsSketch :: "nat list"

definition emptyHistogram :: HistogramSnapshot where
  "emptyHistogram = \<lparr>hsCount = 0, hsMinMs = None, hsMaxMs = None, hsAvgMs = None, hsP50Ms = None,
     hsP90Ms = None, hsP95Ms = None, hsP99Ms = None, hsSumNs = 0, hsSketch = []\<rparr>"

definition nsPerMs :: float64 where "nsPerMs = Fin 1000000"

definition histogramSnapshotFromSketch ::
  "'sk sketchLib \<Rightarrow> 'sk \<Rightarrow> int \<Rightarrow> int \<Rightarrow> int \<Rightarrow> int \<Rightarrow> nat list \<Rightarrow> HistogramSnapshot option" where
  "histogramSnapshotFromSketch L sk count sumNs minNs maxNs encoded =
     (if count = 0 then Some emptyHistogram
      else case skQuantiles L sk of
        None \<Rightarrow> None
      | Some (v50, v90, v95, v99) \<Rightarrow>
          let minMs = fdiv (f64_of_int minNs) nsPerMs;
              maxMs = fdiv (f64_of_int maxNs) nsPerMs;
              clamp = (\<lambda>ns. fmax minMs (fmin maxMs (fdiv ns nsPerMs)))
          in Some \<lparr>hsCount = count, hsMinMs = Some minMs, hsMaxMs = Some maxMs,
                   hsAvgMs = Some (fdiv (fdiv (f64_of_int sumNs) (f64_of_int count)) nsPerMs),
                   hsP50Ms = Some (clamp v50), hsP90Ms = Some (clamp v90), hsP95Ms = Some (clamp v95),
                   hsP99Ms = Some (clamp v99), hsSumNs = sumNs, hsSketch = encoded\<rparr>)"

definition HistSnapshot :: "'sk sketchLib \<Rightarrow> 'sk LatencyHistogram \<Rightarrow> HistogramSnapshot option" where
  "HistSnapshot L h =
     (if hCount h = 0 then Some emptyHistogram
      else histogramSnapshotFromSketch L (sketch h) (hCount h) (hSumNs h) (hMinNs h) (hMaxNs h)
             (skEncode L (sketch h)))"

datatype merge_err = MissingValues | MissingSketch | BadSketch | CountMismatch | MergeFailed | NoQuantiles

record 'sk mergeState =
  msSketch :: "'sk option"
  msCount :: int
  msSumNs :: int
  msMinNs :: int
  msMaxNs :: int

text \<open>One round of the loop of \<open>MergeHistograms\<close>.\<close>

definition mergeStep :: "'sk sketchLib \<Rightarrow> HistogramSnapshot \<Rightarrow> 'sk mergeState \<Rightarrow> merge_err + 'sk mergeState" where
  "mergeStep L s st =
     (if hsCount s = 0 then Inr st
      else if hsMinMs s = None \<or> hsMaxMs s = None \<or> hsAvgMs s = None \<or> hsP50Ms s = None \<or>
              hsP90Ms s = None \<or> hsP95Ms s = None \<or> hsP99Ms s = None then Inl MissingValues
      else if hsSketch s = [] then Inl MissingSketch
      else case skDecode L (hsSketch s) of
        None \<Rightarrow> Inl BadSketch
      | Some d \<Rightarrow>
          if \<not> feq (fround (skCount L d)) (f64_of_int (hsCount s)) then Inl CountMismatch
          else case (case msSketch st of None \<Rightarrow> Some d | Some m \<Rightarrow> skMerge L m d) of
            None \<Rightarrow> Inl MergeFailed
          | Some m \<Rightarrow>
              let candMin = int_of_f64 (fround (fmul (the (hsMinMs s)) nsPerMs));
                  candMax = int_of_f64 (fround (fmul (the (hsMaxMs s)) nsPerMs))
              in Inr \<lparr>msSketch = Some m, msCount = wrap64 (msCount st + hsCount s),
                      msSumNs = wrap64 (msSumNs st + hsSumNs s),
                      msMinNs = min candMin (msMinNs st), msMaxNs = max candMax (msMaxNs st)\<rparr>)"

primrec mergeLoop :: "'sk sketchLib \<Rightarrow> HistogramSnapshot list \<Rightarrow> 'sk mergeState \<Rightarrow> merge_err + 'sk mergeState" where
  "mergeLoop L [] st = Inr st"
| "mergeLoop L (s # ss) st = (case mergeStep L s st of Inl e \<Rightarrow> Inl e | Inr st' \<Rightarrow> mergeLoop L ss st')"

text \<open>A count other than 0 means that a sketch was merged.\<close>

definition MergeHistograms :: "'sk sketchLib \<Rightarrow> HistogramSnapshot list \<Rightarrow> merge_err + HistogramSnapshot" where
  "MergeHistograms L snaps =
     (case mergeLoop L snaps \<lparr>msSketch = None, msCount = 0, msSumNs = 0, msMinNs = maxInt64, msMaxNs = 0\<rparr> of
        Inl e \<Rightarrow> Inl e
      | Inr st \<Rightarrow>
          if msCount st = 0 then Inr emptyHistogram
          else let m = the (msSketch st) in
            case histogramSnapshotFromSketch L m (msCount st) (msSumNs st) (msMinNs st) (msMaxNs st) (skEncode L m) of
              None \<Rightarrow> Inl NoQuantiles
            | Some h \<Rightarrow> Inr h)"

subsection \<open>Snapshot of an action\<close>

datatype ActionKind = ActionKindNetworked | ActionKindListen | ActionKindSend | ActionKindLocal

definition classifyActionKind :: "int \<Rightarrow> int \<Rightarrow> int \<Rightarrow> ActionKind" where
  "classifyActionKind roundTrips listenEvents sendB =
     (if 0 < roundTrips then ActionKindNetworked
      else if 0 < listenEvents then ActionKindListen
      else if 0 < sendB then ActionKindSend else ActionKindLocal)"

record ErrorEntry =
  eeCode :: ErrorCode
  eeCodeName :: string
  eeMessages :: "string list"
  eeCount :: int

definition CollectErrors :: "'sk actionMetrics \<Rightarrow> ErrorEntry list" where
  "CollectErrors am =
     map (\<lambda>(code, b). \<lparr>eeCode = code, eeCodeName = code_String code, eeMessages = snd (bucket_snapshot b),
                       eeCount = fst (bucket_snapshot b)\<rparr>) (errBuckets am)"

text \<open>
  The raw counters of the snapshot carry the counters of the block one to one; \<open>asCounts\<close> holds
  them under the same names (\<open>costSum Build\<close> is \<open>BuildCostSumNs\<close>, \<open>costCount Build\<close> is
  \<open>BuildSampleCount\<close>, \<open>listenTimeoutHits\<close> is \<open>ListenTimeoutCount\<close>).
\<close>

record ActionSnapshot =
  asName :: string
  asSampleCount :: int
  asCounts :: "counter \<Rightarrow> int"
  asSuccessRate :: float64
  asAvgSendBytes :: float64
  asAvgRecvBytes :: float64
  asKind :: ActionKind
  asRTTApdex :: float64
  asRTTApdexSampleCount :: int
  asRTT :: HistogramSnapshot
  asListenWait :: HistogramSnapshot
  asListenTimeoutRate :: float64
  asTotalDuration :: HistogramSnapshot
  asTimeoutAvgMs :: float64
  asClientAvgMs :: float64
  asCostAvgMs :: "cost \<Rightarrow> float64"
  asAvgQPS :: float64
  asPeriodQPS :: float64
  asErrors :: "ErrorEntry list"

definition avgMs :: "int \<Rightarrow> int \<Rightarrow> float64" where
  "avgMs sumNs count = (if count \<le> 0 then Fin 0 else fdiv (fdiv (f64_of_int sumNs) (f64_of_int count)) nsPerMs)"

definition divideMetricSumNs :: "int \<Rightarrow> int \<Rightarrow> float64" where
  "divideMetricSumNs sumNs count =
     (if count = 0 then Fin 0 else fdiv (fdiv (f64_of_int sumNs) (f64_of_int count)) nsPerMs)"

definition quot_pos :: "int \<Rightarrow> int \<Rightarrow> float64" where
  "quot_pos a b = (if 0 < b then fdiv (f64_of_int a) (f64_of_int b) else Fin 0)"

definition apdex_points :: "int \<Rightarrow> int \<Rightarrow> float64" where
  "apdex_points satisfied tolerating = fadd (f64_of_int satisfied) (fmul (f64_of_int tolerating) (Fin (1 / 2)))"

definition periodQPS :: "(string \<Rightarrow> int) option \<Rightarrow> float64 \<Rightarrow> string \<Rightarrow> int \<Rightarrow> float64" where
  "periodQPS prev periodSec name samples =
     (case prev of
        Some p \<Rightarrow> (let diff = wrap64 (samples - p name) in
                   if flt (Fin 0) periodSec \<and> 0 < diff then fdiv (f64_of_int diff) periodSec else Fin 0)
      | None \<Rightarrow> Fin 0)"

definition snapshotAction ::
  "'sk sketchLib \<Rightarrow> float64 \<Rightarrow> (string \<Rightarrow> int) option \<Rightarrow> float64 \<Rightarrow> string \<Rightarrow> 'sk actionMetrics \<Rightarrow> ActionSnapshot option" where
  "snapshotAction L uptimeSec prev periodSec name am =
     (let n = amCount am;
          samples = wrap64 (wrap64 (n successCount + n failureCount) + n timeoutCount);
          rttApdexSamples = wrap64 (n rttSampleCount + n rttFailedCount);
          listenTotal = wrap64 (wrap64 (n listenWaitCount + n listenReadyCount) + n listenTimeoutHits)
      in do {
        rttSnap \<leftarrow> HistSnapshot L (rtt am);
        listenWaitSnap \<leftarrow> HistSnapshot L (listenWait am);
        totalDurationSnap \<leftarrow> HistSnapshot L (totalDuration am);
        Some \<lparr>asName = name, asSampleCount = samples, asCounts = n,
          asSuccessRate = quot_pos (n successCount) samples,
          asAvgSendBytes = quot_pos (n sendBytes) (n byteSampleCount),
          asAvgRecvBytes = quot_pos (n recvBytes) (n byteSampleCount),
          asKind = classifyActionKind rttApdexSamples listenTotal (n sendBytes),
          asRTTApdex = (if 0 < rttApdexSamples
             then fdiv (apdex_points (n apdexSatisfied) (n apdexTolerating)) (f64_of_int rttApdexSamples) else Fin 0),
          asRTTApdexSampleCount = rttApdexSamples,
          asRTT = rttSnap, asListenWait = listenWaitSnap,
          asListenTimeoutRate = quot_pos (n listenTimeoutHits) listenTotal,
          asTotalDuration = totalDurationSnap,
          asTimeoutAvgMs = avgMs (n timeoutTotalNs) (n timeoutCount),
          asClientAvgMs = avgMs (n clientCostSum) (n clientCostCount),
          asCostAvgMs = (\<lambda>st. avgMs (n (costSum st)) (n (costCount st))),
          asAvgQPS = (if flt (Fin 0) uptimeSec then fdiv (f64_of_int samples) uptimeSec else Fin 0),
          asPeriodQPS = periodQPS prev periodSec name samples,
          asErrors = (if 0 < n failureCount \<or> 0 < n timeoutCount then CollectErrors am else [])\<rparr>
      })"

text \<open>The loop over the names; \<open>prevCounts\<close> is updated as the loop goes when a period is given.\<close>

primrec snapshotActions ::
  "'sk sketchLib \<Rightarrow> float64 \<Rightarrow> float64 \<Rightarrow> 'sk Core \<Rightarrow> string list \<Rightarrow> (string \<Rightarrow> int) option
     \<Rightarrow> (ActionSnapshot list \<times> (string \<Rightarrow> int) option) option" where
  "snapshotActions L uptimeSec periodSec c [] prev = Some ([], prev)"
| "snapshotActions L uptimeSec periodSec c (n # ns) prev =
     (case actions c n of
        None \<Rightarrow> snapshotActions L uptimeSec periodSec c ns prev
      | Some am \<Rightarrow> do {
          a \<leftarrow> snapshotAction L uptimeSec prev periodSec n am;
          (as, prev') \<leftarrow> snapshotActions L uptimeSec periodSec c ns
             (if flt (Fin 0) periodSec then map_option (\<lambda>p. p(n := asSampleCount a)) prev else prev);
          Some (a # as, prev')
        })"

subsection \<open>Summary over the actions\<close>

record SnapshotSummary =
  smSampleCount :: int
  smSuccessCount :: int
  smFailureCount :: int
  smTimeoutCount :: int
  smCanceledCount :: int
  smExecuting :: int
  smSuccessRate :: float64
  smRTTApdex :: float64
  smRTTApdexSampleCount :: int
  smRTT :: HistogramSnapshot
  smListenWait :: HistogramSnapshot
  smTotalDuration :: HistogramSnapshot
  smClientAvgMs :: float64
  smClientCostCount :: int
  smCostAvgMs :: "cost \<Rightarrow> float64"
  smCostCount :: "cost \<Rightarrow> int"
  smAvgQPS :: float64

definition zeroSummary :: SnapshotSummary where
  "zeroSummary = \<lparr>smSampleCount = 0, smSuccessCount = 0, smFailureCount = 0, smTimeoutCount = 0, smCanceledCount = 0,
     smExecuting = 0, smSuccessRate = Fin 0, smRTTApdex = Fin 0, smRTTApdexSampleCount = 0, smRTT = emptyHistogram,
     smListenWait = emptyHistogram, smTotalDuration = emptyHistogram, smClientAvgMs = Fin 0, smClientCostCount = 0,
     smCostAvgMs = (\<lambda>_. Fin 0), smCostCount = (\<lambda>_. 0), smAvgQPS = Fin 0\<rparr>"

definition sumOf :: "counter \<Rightarrow> ActionSnapshot list \<Rightarrow> int" where
  "sumOf k as = wsum (map (\<lambda>a. asCounts a k) as)"

definition buildSnapshotSummary :: "'sk sketchLib \<Rightarrow> ActionSnapshot list \<Rightarrow> merge_err + SnapshotSummary" where
  "buildSnapshotSummary L as =
     (let samples = wsum (map asSampleCount as);
          denominator = wsum (map asRTTApdexSampleCount as);
          points = foldl (\<lambda>p a. fadd p (apdex_points (asCounts a apdexSatisfied) (asCounts a apdexTolerating))) (Fin 0) as;
          weighted = filter (\<lambda>a. 0 < asCounts a clientCostCount) as;
          clientWeight = sumOf clientCostCount weighted
      in case MergeHistograms L (filter (\<lambda>h. 0 < hsCount h) (map asRTT as)) of
           Inl e \<Rightarrow> Inl e
         | Inr r \<Rightarrow>
         (case MergeHistograms L (filter (\<lambda>h. 0 < hsCount h) (map asListenWait as)) of
           Inl e \<Rightarrow> Inl e
         | Inr lw \<Rightarrow>
         (case MergeHistograms L (filter (\<lambda>h. 0 < hsCount h) (map asTotalDuration as)) of
           Inl e \<Rightarrow> Inl e
         | Inr td \<Rightarrow> Inr
             \<lparr>smSampleCount = samples, smSuccessCount = sumOf successCount as, smFailureCount = sumOf failureCount as,
              smTimeoutCount = sumOf timeoutCount as, smCanceledCount = sumOf canceledCount as,
              smExecuting = sumOf executing as,
              smSuccessRate = quot_pos (sumOf successCount as) samples,
              smRTTApdex = (if 0 < denominator then fdiv points (f64_of_int denominator) else Fin 0),
              smRTTApdexSampleCount = denominator, smRTT = r, smListenWait = lw, smTotalDuration = td,
              smClientAvgMs = (if 0 < clientWeight then divideMetricSumNs (sumOf clientCostSum weighted) clientWeight else Fin 0),
              smClientCostCount = clientWeight,
              smCostAvgMs = (\<lambda>st. divideMetricSumNs (sumOf (costSum st) as) (sumOf (costCount st) as)),
              smCostCount = (\<lambda>st. sumOf (costCount st) as),
              smAvgQPS = foldl (\<lambda>q a. fadd q (asAvgQPS a)) (Fin 0) as\<rparr>)))"

text \<open>\<open>BuildSnapshotSummary\<close> panics on the error.\<close>

definition BuildSnapshotSummary :: "'sk sketchLib \<Rightarrow> ActionSnapshot list \<Rightarrow> SnapshotSummary option" where
  "BuildSnapshotSummary L as = (case buildSnapshotSummary L as of Inl _ \<Rightarrow> None | Inr s \<Rightarrow> Some s)"

subsection \<open>Snapshot of the collector\<close>

record SystemSnapshot =
  Goroutines :: int
  MemAllocMB :: float64
  MemSysMB :: float64
  GCCount :: int

record ReportWindow =
  rwSequence :: int
  rwStartedAt :: int
  rwEndedAt :: int
  rwDurationSeconds :: float64
  rwExpectedIntervalSeconds :: float64
  rwSummary :: SnapshotSummary
  rwSendBytes :: int
  rwRecvBytes :: int
  rwSendMBps :: float64
  rwRecvMBps :: float64
  rwActions :: "ActionSnapshot list"
  rwInvalidMetricSamples :: int

text \<open>
  \<open>csCounts\<close> holds \<open>TotalActions\<close>, \<open>InvalidMetricSamples\<close>, the robots, the connections and the byte
  totals under the names of the collector's counters.
\<close>

record CollectorSnapshot =
  csTimestamp :: int
  csCollectionEpoch :: int
  csUptime :: int
  csUptimeSec :: float64
  csApdexT :: int
  csTimingDetail :: string
  csSummary :: SnapshotSummary
  csSystem :: SystemSnapshot
  csCounts :: "gcounter \<Rightarrow> int"
  csRampUp :: "int \<times> int"
  csSendMBps :: float64
  csRecvMBps :: float64
  csActions :: "ActionSnapshot list"
  csWindow :: "ReportWindow option"

definition zeroSystem :: SystemSnapshot where
  "zeroSystem = \<lparr>Goroutines = 0, MemAllocMB = Fin 0, MemSysMB = Fin 0, GCCount = 0\<rparr>"

definition zeroCollectorSnapshot :: CollectorSnapshot where
  "zeroCollectorSnapshot = \<lparr>csTimestamp = 0, csCollectionEpoch = 0, csUptime = 0, csUptimeSec = Fin 0, csApdexT = 0,
     csTimingDetail = [], csSummary = zeroSummary, csSystem = zeroSystem, csCounts = (\<lambda>_. 0), csRampUp = (0, 0),
     csSendMBps = Fin 0, csRecvMBps = Fin 0, csActions = [], csWindow = None\<rparr>"

definition zeroWindow :: ReportWindow where
  "zeroWindow = \<lparr>rwSequence = 0, rwStartedAt = 0, rwEndedAt = 0, rwDurationSeconds = Fin 0,
     rwExpectedIntervalSeconds = Fin 0, rwSummary = zeroSummary, rwSendBytes = 0, rwRecvBytes = 0, rwSendMBps = Fin 0,
     rwRecvMBps = Fin 0, rwActions = [], rwInvalidMetricSamples = 0\<rparr>"

primrec detail_name :: "TimingDetailLevel \<Rightarrow> string" where
  "detail_name TimingRTTOnly = ''rtt''"
| "detail_name TimingCodecDetail = ''codec''"
| "detail_name TimingFullDetail = ''full''"

text \<open>\<open>Time.Sub\<close> saturates; \<open>Duration.Seconds\<close>.\<close>

definition time_sub :: "int \<Rightarrow> int \<Rightarrow> int" where
  "time_sub a b = max (- (2 ^ 63)) (min (2 ^ 63 - 1) (a - b))"

definition dur_Seconds :: "int \<Rightarrow> float64" where
  "dur_Seconds d = fadd (f64_of_int (d sdiv 1000000000)) (fdiv (f64_of_int (d smod 1000000000)) (Fin 1000000000))"

definition mbps :: "int \<Rightarrow> float64 \<Rightarrow> float64" where
  "mbps bytes sec = fdiv (fdiv (fdiv (f64_of_int bytes) (Fin 1024)) (Fin 1024)) sec"

definition snapshotUnlocked ::
  "'sk sketchLib \<Rightarrow> int \<Rightarrow> SystemSnapshot \<Rightarrow> (string \<Rightarrow> int) option \<Rightarrow> float64 \<Rightarrow> 'sk Core
     \<Rightarrow> (CollectorSnapshot \<times> (string \<Rightarrow> int) option) option" where
  "snapshotUnlocked L now sys prev periodSec c =
     (if \<not> enabled c
      then Some (zeroCollectorSnapshot\<lparr>csCollectionEpoch := collectionEpoch c,
                                       csTimingDetail := detail_name (timingDetail c)\<rparr>, prev)
      else
        let uptime = time_sub now (startTime c); uptimeSec = dur_Seconds uptime;
            g = gCount c;
            rate = (\<lambda>b. if flt (Fin 0) uptimeSec then mbps b uptimeSec else Fin 0)
        in do {
          (as, prev') \<leftarrow> snapshotActions L uptimeSec periodSec c (ActionNames c) prev;
          sm \<leftarrow> BuildSnapshotSummary L as;
          Some (\<lparr>csTimestamp = now, csCollectionEpoch = collectionEpoch c, csUptime = uptime, csUptimeSec = uptimeSec,
                 csApdexT = apdexT c, csTimingDetail = detail_name (timingDetail c), csSummary = sm, csSystem = sys,
                 csCounts = g, csRampUp = (rampUpCurrentStage c, rampUpTotalStages c),
                 csSendMBps = rate (g totalSendBytes), csRecvMBps = rate (g totalRecvBytes),
                 csActions = as, csWindow = None\<rparr>, prev')
        })"

definition Snapshot where
  "Snapshot L now sys prev periodSec mc = snapshotUnlocked L now sys prev periodSec (core mc)"

record ReportMeta =
  rmSequence :: int
  rmStartedAt :: int
  rmEndedAt :: int
  rmExpectedIntervalSeconds :: float64

definition report_duration :: "ReportMeta \<Rightarrow> float64" where
  "report_duration meta =
     (let d1 = dur_Seconds (time_sub (rmEndedAt meta) (rmStartedAt meta));
          d2 = (if fle d1 (Fin 0) then rmExpectedIntervalSeconds meta else d1)
      in if fle d2 (Fin 0) then Fin 1 else d2)"

definition executingIn :: "ActionSnapshot list \<Rightarrow> string \<Rightarrow> int" where
  "executingIn as n =
     (case map_of (rev (map (\<lambda>a. (asName a, asCounts a executing)) as)) n of Some e \<Rightarrow> e | None \<Rightarrow> 0)"

text \<open>The actions of the closed window: its own rates, and who is executing now.\<close>

definition intervalAction :: "float64 \<Rightarrow> ActionSnapshot list \<Rightarrow> ActionSnapshot \<Rightarrow> ActionSnapshot" where
  "intervalAction duration cum a =
     (let q = fdiv (f64_of_int (asSampleCount a)) duration
      in a\<lparr>asAvgQPS := q, asPeriodQPS := q, asCounts := (asCounts a)(executing := executingIn cum (asName a))\<rparr>)"

text \<open>
  \<open>TakeReportSnapshot\<close>: the window is switched and the cumulative set copied under the write lock;
  the closed window, which nobody writes any more, is copied afterwards, a little later.
\<close>

definition TakeReportSnapshot ::
  "'sk sketchLib \<Rightarrow> (int \<times> SystemSnapshot) \<Rightarrow> (int \<times> SystemSnapshot) \<Rightarrow> ReportMeta \<Rightarrow> 'sk MetricsCollector
     \<Rightarrow> (CollectorSnapshot \<times> 'sk MetricsCollector) option" where
  "TakeReportSnapshot L env1 env2 meta mc =
     (if \<not> enabled (core mc) then Some (zeroCollectorSnapshot\<lparr>csWindow := Some zeroWindow\<rparr>, mc)
      else
        let duration = report_duration meta;
            mc' = mc\<lparr>window := newWindowCollector (rmEndedAt meta) (core mc)\<rparr>
        in do {
          (cumulative, _) \<leftarrow> snapshotUnlocked L (fst env1) (snd env1) None (Fin 0) (core mc);
          (interval, _) \<leftarrow> snapshotUnlocked L (fst env2) (snd env2) None (Fin 0) (window mc);
          let as = map (intervalAction duration (csActions cumulative)) (csActions interval);
          sm \<leftarrow> BuildSnapshotSummary L as;
          let sm' = sm\<lparr>smAvgQPS := fdiv (f64_of_int (smSampleCount sm)) duration,
                       smExecuting := smExecuting (csSummary cumulative)\<rparr>;
          let sent = csCounts interval totalSendBytes;
          let received = csCounts interval totalRecvBytes;
          Some (cumulative\<lparr>csWindow := Some
            \<lparr>rwSequence = rmSequence meta, rwStartedAt = rmStartedAt meta, rwEndedAt = rmEndedAt meta,
             rwDurationSeconds = duration, rwExpectedIntervalSeconds = rmExpectedIntervalSeconds meta,
             rwSummary = sm', rwSendBytes = sent, rwRecvBytes = received,
             rwSendMBps = mbps sent duration, rwRecvMBps = mbps received duration,
             rwActions = as, rwInvalidMetricSamples = csCounts interval invalidMetricSamples\<rparr>\<rparr>, mc')
        })"

end
