(* ===== verification/MetricsMerge.thy ===== *)
theory MetricsMerge
  imports MetricsSnapshot
begin

text \<open>
  The merge of the snapshots of several agents and the public copy of a snapshot
  (\<^verbatim>\<open>monitor/snapshot.go\<close>): counters are added up per action name, distributions merged by their
  sketches, and every derived value is computed again from the sums.
\<close>

subsection \<open>Merging the actions\<close>

definition mergedErrorDetailLimit :: nat where "mergedErrorDetailLimit = 5"

text \<open>The entries by code; the code's map is listed in the order of first occurrence.\<close>

definition mergeMessages :: "string list \<Rightarrow> string list \<Rightarrow> string list" where
  "mergeMessages old new =
     take mergedErrorDetailLimit (foldl (\<lambda>ms m. if m \<in> set ms then ms else ms @ [m]) old new)"

primrec addError :: "ErrorEntry \<Rightarrow> ErrorEntry list \<Rightarrow> ErrorEntry list" where
  "addError e [] = [e]"
| "addError e (x # xs) =
     (if eeCode x = eeCode e
      then x\<lparr>eeCount := wrap64 (eeCount x + eeCount e), eeMessages := mergeMessages (eeMessages x) (eeMessages e)\<rparr> # xs
      else x # addError e xs)"

definition mergeErrors :: "ActionSnapshot list \<Rightarrow> ErrorEntry list" where
  "mergeErrors as = fold addError (concat (map asErrors as)) []"

text \<open>The body of the loop over the action names.\<close>

definition mergeAction :: "'sk sketchLib \<Rightarrow> float64 \<Rightarrow> string \<Rightarrow> ActionSnapshot list \<Rightarrow> merge_err + ActionSnapshot" where
  "mergeAction L maxUptime name as =
     (let n = (\<lambda>k. sumOf k as);
          samples = wsum (map asSampleCount as);
          rttApdexSamples = wrap64 (n rttSampleCount + n rttFailedCount);
          listenTotal = wrap64 (wrap64 (n listenWaitCount + n listenReadyCount) + n listenTimeoutHits)
      in case MergeHistograms L (map asRTT as) of
           Inl e \<Rightarrow> Inl e
         | Inr r \<Rightarrow>
         (case MergeHistograms L (map asListenWait as) of
           Inl e \<Rightarrow> Inl e
         | Inr lw \<Rightarrow>
         (case MergeHistograms L (map asTotalDuration as) of
           Inl e \<Rightarrow> Inl e
         | Inr td \<Rightarrow> Inr
             \<lparr>asName = name, asSampleCount = samples, asCounts = n,
              asSuccessRate = quot_pos (n successCount) samples,
              asAvgSendBytes = quot_pos (n sendBytes) (n byteSampleCount),
              asAvgRecvBytes = quot_pos (n recvBytes) (n byteSampleCount),
              asKind = classifyActionKind rttApdexSamples listenTotal (n sendBytes),
              asRTTApdex = (if 0 < rttApdexSamples
                 then fdiv (apdex_points (n apdexSatisfied) (n apdexTolerating)) (f64_of_int rttApdexSamples) else Fin 0),
              asRTTApdexSampleCount = rttApdexSamples,
              asRTT = r, asListenWait = lw,
              asListenTimeoutRate = quot_pos (n listenTimeoutHits) listenTotal,
              asTotalDuration = td,
              asTimeoutAvgMs = (if 0 < n timeoutCount then divideMetricSumNs (n timeoutTotalNs) (n timeoutCount) else Fin 0),
              asClientAvgMs = avgMs (n clientCostSum) (n clientCostCount),
              asCostAvgMs = (\<lambda>st. divideMetricSumNs (n (costSum st)) (n (costCount st))),
              asAvgQPS = (if flt (Fin 0) maxUptime then fdiv (f64_of_int samples) maxUptime else Fin 0),
              asPeriodQPS = Fin 0,
              asErrors = mergeErrors as\<rparr>)))"

text \<open>The names in the order of their first occurrence, and the actions of one name.\<close>

definition actionOrder :: "ActionSnapshot list \<Rightarrow> string list" where
  "actionOrder as = foldl (\<lambda>ns a. if asName a \<in> set ns then ns else ns @ [asName a]) [] as"

definition actionsNamed :: "string \<Rightarrow> ActionSnapshot list \<Rightarrow> ActionSnapshot list" where
  "actionsNamed n as = filter (\<lambda>a. asName a = n) as"

primrec mergeActions :: "'sk sketchLib \<Rightarrow> float64 \<Rightarrow> ActionSnapshot list \<Rightarrow> string list \<Rightarrow> merge_err + ActionSnapshot list" where
  "mergeActions L maxUptime all [] = Inr []"
| "mergeActions L maxUptime all (n # ns) =
     (case mergeAction L maxUptime n (actionsNamed n all) of
        Inl e \<Rightarrow> Inl e
      | Inr a \<Rightarrow> (case mergeActions L maxUptime all ns of Inl e \<Rightarrow> Inl e | Inr as \<Rightarrow> Inr (a # as)))"

subsection \<open>Merging the snapshots\<close>

definition normDetail :: "string \<Rightarrow> string" where
  "normDetail s = detail_name (NormalizeTimingDetail s)"

definition detailStep :: "string \<Rightarrow> CollectorSnapshot \<Rightarrow> string" where
  "detailStep d s =
     (if timingDetailRank (NormalizeTimingDetail (csTimingDetail s)) < timingDetailRank (NormalizeTimingDetail d)
      then normDetail (csTimingDetail s) else d)"

definition stageStep :: "int \<times> bool \<Rightarrow> CollectorSnapshot \<Rightarrow> int \<times> bool" where
  "stageStep st s =
     (let cur = fst (csRampUp s) in
      if 0 < cur \<and> (snd st \<or> cur < fst st) then (cur, False) else st)"

definition MergeSnapshots ::
  "'sk sketchLib \<Rightarrow> int \<Rightarrow> CollectorSnapshot option list \<Rightarrow> merge_err + CollectorSnapshot" where
  "MergeSnapshots L now snaps =
     (case map the (filter (\<lambda>s. s \<noteq> None) snaps) of
        [] \<Rightarrow> Inr (zeroCollectorSnapshot\<lparr>csTimingDetail := ''rtt''\<rparr>)
      | [s] \<Rightarrow>
          (case buildSnapshotSummary L (csActions s) of
             Inl e \<Rightarrow> Inl e
           | Inr sm \<Rightarrow> Inr (s\<lparr>csTimingDetail := normDetail (csTimingDetail s), csSummary := sm\<rparr>))
      | valid \<Rightarrow>
          (let first = hd valid;
               maxUptime = foldl (\<lambda>m s. if flt m (csUptimeSec s) then csUptimeSec s else m) (Fin 0) valid;
               counts = (\<lambda>k. wsum (map (\<lambda>s. csCounts s k) valid));
               all = concat (map csActions valid);
               rate = (\<lambda>b. if flt (Fin 0) maxUptime then mbps b maxUptime else Fin 0)
           in case mergeActions L maxUptime all (actionOrder all) of
                Inl e \<Rightarrow> Inl e
              | Inr as \<Rightarrow>
              (case buildSnapshotSummary L as of
                Inl e \<Rightarrow> Inl e
              | Inr sm \<Rightarrow> Inr
                  \<lparr>csTimestamp = now, csCollectionEpoch = foldl (\<lambda>m s. max m (csCollectionEpoch s)) 0 valid,
                   csUptime = int_of_f64 (fmul maxUptime (Fin 1000000000)), csUptimeSec = maxUptime,
                   csApdexT = csApdexT first,
                   csTimingDetail = foldl detailStep (normDetail (csTimingDetail first)) valid,
                   csSummary = sm, csSystem = zeroSystem, csCounts = counts,
                   csRampUp = (fst (foldl stageStep (0, True) valid), snd (csRampUp first)),
                   csSendMBps = rate (counts totalSendBytes), csRecvMBps = rate (counts totalRecvBytes),
                   csActions = as, csWindow = None\<rparr>)))"

subsection \<open>The public copy\<close>

definition publicHistogram :: "HistogramSnapshot \<Rightarrow> HistogramSnapshot" where
  "publicHistogram h = h\<lparr>hsSketch := [], hsSumNs := 0\<rparr>"

definition publicSummaryCopy :: "SnapshotSummary \<Rightarrow> SnapshotSummary" where
  "publicSummaryCopy s = s\<lparr>smRTT := publicHistogram (smRTT s), smListenWait := publicHistogram (smListenWait s),
                           smTotalDuration := publicHistogram (smTotalDuration s)\<rparr>"

text \<open>The raw counters that are cleared.\<close>

definition internalCounter :: "counter \<Rightarrow> bool" where
  "internalCounter k \<longleftrightarrow>
     k \<in> {apdexSatisfied, apdexTolerating, rttFailedCount, sendBytes, recvBytes, timeoutTotalNs, clientCostSum}
     \<or> (case k of costSum _ \<Rightarrow> True | _ \<Rightarrow> False)"

definition publicAction :: "ActionSnapshot \<Rightarrow> ActionSnapshot" where
  "publicAction a = a\<lparr>asRTT := publicHistogram (asRTT a), asListenWait := publicHistogram (asListenWait a),
     asTotalDuration := publicHistogram (asTotalDuration a),
     asCounts := (\<lambda>k. if internalCounter k then 0 else asCounts a k)\<rparr>"

definition publicActionCopies :: "ActionSnapshot list \<Rightarrow> ActionSnapshot list" where
  "publicActionCopies as = map publicAction as"

definition PublicCopy :: "CollectorSnapshot \<Rightarrow> CollectorSnapshot" where
  "PublicCopy s = s\<lparr>csSummary := publicSummaryCopy (csSummary s), csActions := publicActionCopies (csActions s),
     csWindow := map_option (\<lambda>w. w\<lparr>rwSequence := 0, rwSummary := publicSummaryCopy (rwSummary w),
                                    rwActions := publicActionCopies (rwActions w)\<rparr>) (csWindow s)\<rparr>"

end
