(* ===== verification/MetricsRun.thy ===== *)
theory MetricsRun
  imports MetricsMerge
begin

text \<open>
  Runs of the collector: the calls of robots, connections and the reporter in the order in which
  the collector's locks serialise them.  The ghost component collects the reports taken since the last
  reset.
\<close>

datatype lifecycle =
    EvRobotStarted | EvRobotRunning | EvRobotStopped | EvRobotErrored
  | EvConnEstablished | EvConnClosed | EvConnFailed | EvConnDropped

primrec lifecycle_hook :: "lifecycle \<Rightarrow> 'sk MetricsCollector \<Rightarrow> 'sk MetricsCollector" where
  "lifecycle_hook EvRobotStarted = RobotStarted"
| "lifecycle_hook EvRobotRunning = RobotRunning"
| "lifecycle_hook EvRobotStopped = RobotStopped"
| "lifecycle_hook EvRobotErrored = RobotErrored"
| "lifecycle_hook EvConnEstablished = ConnEstablished"
| "lifecycle_hook EvConnClosed = ConnClosed"
| "lifecycle_hook EvConnFailed = ConnFailed"
| "lifecycle_hook EvConnDropped = ConnDropped"

datatype ev =
    EvAction string ActionResult ActionTiming int int int action_err
  | EvCallback string ActionResult ActionTiming int int int action_err
  | EvStart string
  | EvPending string
  | EvBandwidth int int
  | EvLife lifecycle
  | EvRampUp int int
  | EvApdexT int
  | EvReset int
  | EvReport "int \<times> SystemSnapshot" "int \<times> SystemSnapshot" ReportMeta

type_synonym 'sk run = "'sk MetricsCollector \<times> CollectorSnapshot list"

primrec ev_step :: "'sk sketchLib \<Rightarrow> ev \<Rightarrow> 'sk run \<Rightarrow> 'sk run option" where
  "ev_step L (EvAction n r t w s v e) st = map_option (\<lambda>mc. (mc, snd st)) (RecordAction L n r t w s v e (fst st))"
| "ev_step L (EvCallback n r t w s v e) st = map_option (\<lambda>mc. (mc, snd st)) (RecordCallback L n r t w s v e (fst st))"
| "ev_step L (EvStart n) st = map_option (\<lambda>mc. (mc, snd st)) (RecordActionStart L n (fst st))"
| "ev_step L (EvPending n) st = map_option (\<lambda>mc. (mc, snd st)) (RecordPendingCanceled L n (fst st))"
| "ev_step L (EvBandwidth s v) st = Some (AddBandwidth s v (fst st), snd st)"
| "ev_step L (EvLife h) st = Some (lifecycle_hook h (fst st), snd st)"
| "ev_step L (EvRampUp a b) st = Some (SetRampUpStage a b (fst st), snd st)"
| "ev_step L (EvApdexT t) st = Some (SetApdexT t (fst st), snd st)"
| "ev_step L (EvReset now) st = Some (ResetCollector now (fst st), [])"
| "ev_step L (EvReport e1 e2 meta) st =
     map_option (\<lambda>(r, mc). (mc, snd st @ [r])) (TakeReportSnapshot L e1 e2 meta (fst st))"

primrec ev_run :: "'sk sketchLib \<Rightarrow> ev list \<Rightarrow> 'sk run \<Rightarrow> 'sk run option" where
  "ev_run L [] st = Some st"
| "ev_run L (e # es) st = (case ev_step L e st of None \<Rightarrow> None | Some st' \<Rightarrow> ev_run L es st')"

subsection \<open>What a report says of an action\<close>

definition countIn :: "ActionSnapshot list \<Rightarrow> string \<Rightarrow> counter \<Rightarrow> int" where
  "countIn as n k = (\<Sum>a \<leftarrow> as. if asName a = n then asCounts a k else 0)"

definition windowActions :: "CollectorSnapshot \<Rightarrow> ActionSnapshot list" where
  "windowActions r = (case csWindow r of None \<Rightarrow> [] | Some w \<Rightarrow> rwActions w)"

definition windowCount :: "CollectorSnapshot \<Rightarrow> gcounter \<Rightarrow> int" where
  "windowCount r g =
     (case csWindow r of
        None \<Rightarrow> 0
      | Some w \<Rightarrow> (case g of totalActions \<Rightarrow> smSampleCount (rwSummary w) | totalSendBytes \<Rightarrow> rwSendBytes w
                    | totalRecvBytes \<Rightarrow> rwRecvBytes w | invalidMetricSamples \<Rightarrow> rwInvalidMetricSamples w | _ \<Rightarrow> 0))"

lemma snapshotAction_simps:
  assumes "snapshotAction L u prev p n am = Some a"
  shows "asName a = n" "asCounts a = amCount am"
    "asSampleCount a = wrap64 (sampleSum am)"
    "HistSnapshot L (rtt am) = Some (asRTT a)" "HistSnapshot L (listenWait am) = Some (asListenWait a)"
    "HistSnapshot L (totalDuration am) = Some (asTotalDuration a)"
    "asRTTApdexSampleCount a = wrap64 (amCount am rttSampleCount + amCount am rttFailedCount)"
  using assms by (auto simp: snapshotAction_def Let_def sampleSum_def wrap64_add split: bind_splits)

lemma snapshotActions_spec:
  assumes "snapshotActions L u p c ns prev = Some (as, prev')" and "set ns \<subseteq> dom (actions c)"
  shows "map asName as = ns \<and>
    (\<forall>a \<in> set as. \<exists>am prev. actions c (asName a) = Some am \<and> snapshotAction L u prev p (asName a) am = Some a)"
  using assms
proof (induction ns arbitrary: as prev prev')
  case (Cons n ns)
  then obtain am where am: "actions c n = Some am" by auto
  with Cons.prems(1) obtain a as' p' where a: "snapshotAction L u prev p n am = Some a"
    and r: "snapshotActions L u p c ns (if flt (Fin 0) p then map_option (\<lambda>q. q(n := asSampleCount a)) prev else prev)
      = Some (as', p')" and as: "as = a # as'"
    by (auto split: bind_splits)
  have "asName a = n" by (rule snapshotAction_simps(1) [OF a])
  then show ?case using Cons.IH [OF r] Cons.prems(2) am a unfolding as by auto
qed simp

lemma countIn_distinct:
  assumes "distinct (map asName as)" and "\<And>a. a \<in> set as \<Longrightarrow> asCounts a k = f (asName a)"
  shows "countIn as n k = (if n \<in> asName ` set as then f n else 0)"
  using assms
proof (induction as)
  case (Cons a as)
  then show ?case by (auto simp: countIn_def)
qed (simp add: countIn_def)

lemma snapshot_actions:
  assumes "core_inv c" "enabled c" "snapshotUnlocked L now sys prev p c = Some (s, prev')"
  shows "map asName (csActions s) = names c" "csCounts s = gCount c"
    "\<And>a. a \<in> set (csActions s) \<Longrightarrow> \<exists>am u q. actions c (asName a) = Some am \<and> snapshotAction L u q p (asName a) am = Some a"
    "BuildSnapshotSummary L (csActions s) = Some (csSummary s)"
    "csCollectionEpoch s = collectionEpoch c" "csApdexT s = apdexT c" "csTimingDetail s = detail_name (timingDetail c)"
proof -
  from assms(2,3) obtain as p' where as: "snapshotActions L (dur_Seconds (time_sub now (startTime c))) p c (names c) prev = Some (as, p')"
    and s: "csActions s = as" "csCounts s = gCount c" "BuildSnapshotSummary L as = Some (csSummary s)"
      "csCollectionEpoch s = collectionEpoch c" "csApdexT s = apdexT c" "csTimingDetail s = detail_name (timingDetail c)"
    by (auto simp: snapshotUnlocked_def Let_def ActionNames_def split: bind_splits)
  have "set (names c) \<subseteq> dom (actions c)" using assms(1) by (simp add: core_inv_def)
  from snapshotActions_spec [OF as this]
  show "map asName (csActions s) = names c" "csCounts s = gCount c"
    "\<And>a. a \<in> set (csActions s) \<Longrightarrow> \<exists>am u q. actions c (asName a) = Some am \<and> snapshotAction L u q p (asName a) am = Some a"
    "BuildSnapshotSummary L (csActions s) = Some (csSummary s)"
    "csCollectionEpoch s = collectionEpoch c" "csApdexT s = apdexT c" "csTimingDetail s = detail_name (timingDetail c)"
    unfolding s by blast+
qed

lemma snapshot_countIn:
  assumes "core_inv c" "enabled c" "snapshotUnlocked L now sys prev p c = Some (s, prev')"
  shows "countIn (csActions s) n k = cnt c n k"
proof -
  note S = snapshot_actions [OF assms]
  have d: "distinct (map asName (csActions s))" using assms(1) by (simp add: S(1) core_inv_def)
  have c: "asCounts a k = cnt c (asName a) k" if "a \<in> set (csActions s)" for a
    using S(3) [OF that] snapshotAction_simps(2) by (fastforce simp: cnt_def)
  have "asName ` set (csActions s) = dom (actions c)"
    using S(1) assms(1) by (metis core_inv_def set_map)
  then show ?thesis
    using countIn_distinct [OF d c, of n] by (auto simp: cnt_def split: option.splits)
qed

text \<open>The report carries the counters of the closed window unchanged, but for \<open>executing\<close>.\<close>

lemma report_spec:
  assumes I: "core_inv (core mc)" "core_inv (window mc)" "enabled (core mc)" "enabled (window mc)"
    and R: "TakeReportSnapshot L e1 e2 meta mc = Some (r, mc')"
  obtains cum prev interval prev' w where
    "snapshotUnlocked L (fst e1) (snd e1) None (Fin 0) (core mc) = Some (cum, prev)"
    "snapshotUnlocked L (fst e2) (snd e2) None (Fin 0) (window mc) = Some (interval, prev')"
    "r = cum\<lparr>csWindow := Some w\<rparr>"
    "rwActions w = map (intervalAction (report_duration meta) (csActions cum)) (csActions interval)"
    "smSampleCount (rwSummary w) = wsum (map asSampleCount (rwActions w))"
    "rwSendBytes w = gCount (window mc) totalSendBytes" "rwRecvBytes w = gCount (window mc) totalRecvBytes"
    "rwInvalidMetricSamples w = gCount (window mc) invalidMetricSamples"
    "mc' = mc\<lparr>window := newWindowCollector (rmEndedAt meta) (core mc)\<rparr>"
    "rwSequence w = rmSequence meta" "rwStartedAt w = rmStartedAt meta" "rwEndedAt w = rmEndedAt meta"
    "rwDurationSeconds w = report_duration meta" "rwExpectedIntervalSeconds w = rmExpectedIntervalSeconds meta"
    "rwSendMBps w = mbps (rwSendBytes w) (report_duration meta)" "rwRecvMBps w = mbps (rwRecvBytes w) (report_duration meta)"
proof -
  from R I(3) obtain cum prev interval prev' sm where
    c: "snapshotUnlocked L (fst e1) (snd e1) None (Fin 0) (core mc) = Some (cum, prev)" and
    i: "snapshotUnlocked L (fst e2) (snd e2) None (Fin 0) (window mc) = Some (interval, prev')" and
    b: "BuildSnapshotSummary L (map (intervalAction (report_duration meta) (csActions cum)) (csActions interval)) = Some sm" and
    r: "r = cum\<lparr>csWindow := Some
            \<lparr>rwSequence = rmSequence meta, rwStartedAt = rmStartedAt meta, rwEndedAt = rmEndedAt meta,
             rwDurationSeconds = report_duration meta, rwExpectedIntervalSeconds = rmExpectedIntervalSeconds meta,
             rwSummary = sm\<lparr>smAvgQPS := fdiv (f64_of_int (smSampleCount sm)) (report_duration meta),
                       smExecuting := smExecuting (csSummary cum)\<rparr>, rwSendBytes = csCounts interval totalSendBytes,
             rwRecvBytes = csCounts interval totalRecvBytes,
             rwSendMBps = mbps (csCounts interval totalSendBytes) (report_duration meta),
             rwRecvMBps = mbps (csCounts interval totalRecvBytes) (report_duration meta),
             rwActions = map (intervalAction (report_duration meta) (csActions cum)) (csActions interval),
             rwInvalidMetricSamples = csCounts interval invalidMetricSamples\<rparr>\<rparr>"
    and mc': "mc' = mc\<lparr>window := newWindowCollector (rmEndedAt meta) (core mc)\<rparr>"
    by (auto simp: TakeReportSnapshot_def Let_def split: bind_splits)
  have "smSampleCount sm = wsum (map asSampleCount (map (intervalAction (report_duration meta) (csActions cum)) (csActions interval)))"
    using b by (auto simp: BuildSnapshotSummary_def buildSnapshotSummary_def Let_def split: sum.splits)
  with that [OF c i r] mc' snapshot_actions(2) [OF I(2,4) i] show thesis by simp
qed

lemma intervalAction_simps [simp]:
  "asName (intervalAction d cum a) = asName a" "asSampleCount (intervalAction d cum a) = asSampleCount a"
  "k \<noteq> executing \<Longrightarrow> asCounts (intervalAction d cum a) k = asCounts a k"
  by (simp_all add: intervalAction_def Let_def)

lemma countIn_interval: "k \<noteq> executing \<Longrightarrow> countIn (map (intervalAction d cum) as) n k = countIn as n k"
  by (simp add: countIn_def comp_def cong: if_cong)

subsection \<open>The invariant of a run\<close>

definition run_inv :: "'sk run \<Rightarrow> bool" where
  "run_inv st \<longleftrightarrow> core_inv (core (fst st)) \<and> core_inv (window (fst st)) \<and> enabled (core (fst st)) \<and>
     core_rel (\<lambda>n k. \<Sum>r \<leftarrow> snd st. countIn (windowActions r) n k) (\<lambda>g. \<Sum>r \<leftarrow> snd st. windowCount r g)
       (core (fst st)) (window (fst st))"

lemma run_inv_window: "run_inv st \<Longrightarrow> enabled (window (fst st))"
  by (simp add: run_inv_def core_rel_def)

lemma core_rel_refl0:
  assumes "\<And>n k. cnt c n k = 0" and "\<And>g. gCount c g = 0"
  shows "core_rel (\<lambda>_ _. 0) (\<lambda>_. 0) c (newWindowCollector t c)"
  using assms by (simp add: core_rel_def newWindowCollector_def) (simp add: cnt_def)

lemma run_inv_init: "run_inv (NewCollector cfg now, [])"
  by (simp add: run_inv_def NewCollector_def core_rel_refl0 Let_def cnt_def) (simp add: core_inv_def)

lemma core_frames [simp]:
  "core_inv (c\<lparr>apdexT := a\<rparr>) = core_inv c" "core_inv (c\<lparr>rampUpCurrentStage := x, rampUpTotalStages := y\<rparr>) = core_inv c"
  "core_rel D G (c\<lparr>rampUpCurrentStage := x, rampUpTotalStages := y\<rparr>) w = core_rel D G c w"
  "core_rel D G c w \<Longrightarrow> core_rel D G (c\<lparr>apdexT := a\<rparr>) (w\<lparr>apdexT := a\<rparr>)"
  by (simp_all add: core_inv_def core_rel_def cnt_def)

lemma record_both_inv:
  assumes L: "uniformAdd L" and I: "run_inv (mc, rs)" and R: "recordAction L n r t w s v e tr mc = Some mc'"
  shows "run_inv (mc', rs)"
proof -
  have en: "enabled (core mc)" using I by (simp add: run_inv_def)
  obtain c b where c: "coreRecordAction L n r t w s v e tr (core mc) = Some c"
    and b: "coreRecordAction L n r t w s v e False (window mc) = Some b" and mc': "mc' = mc\<lparr>core := c, window := b\<rparr>"
    using R en by (auto simp: recordAction_def split: bind_splits)
  have "enabled c" using coreRecordAction_enabled [OF c] en by simp
  then show ?thesis
    using I coreRecordAction_inv [OF _ c] coreRecordAction_inv [OF _ b] coreRecordAction_rel [OF L _ c b]
    by (simp add: run_inv_def mc')
qed

lemma hook_inv:
  assumes "run_inv (mc, rs)" and "\<And>k d. (k, d) \<in> set ds \<Longrightarrow> \<not> windowed k"
  shows "run_inv (hook ds mc, rs)"
proof -
  have "core_inv (fold (\<lambda>(k, n). gbump k n) ds c) \<and> enabled (fold (\<lambda>(k, n). gbump k n) ds c) = enabled c \<and>
        core_rel D G (fold (\<lambda>(k, n). gbump k n) ds c) w"
    if "core_inv c" "core_rel D G c w" for c w and D :: "string \<Rightarrow> counter \<Rightarrow> int" and G
    using that assms(2)
  proof (induction ds arbitrary: c)
    case (Cons x ds)
    obtain k d where x: "x = (k, d)" by (cases x)
    have k: "\<not> windowed k" "k \<noteq> totalActions" using Cons.prems(3) [of k d] by (auto simp: x windowed_def)
    have "core_inv (gbump k d c)" "core_rel D G (gbump k d c) w" "enabled (gbump k d c) = enabled c"
      using Cons.prems k by (simp_all add: gbump_inv core_rel_gbump_left) (simp add: gbump_def)
    moreover from this(1,2) have "core_inv (fold (\<lambda>(k, n). gbump k n) ds (gbump k d c)) \<and>
        enabled (fold (\<lambda>(k, n). gbump k n) ds (gbump k d c)) = enabled (gbump k d c) \<and>
        core_rel D G (fold (\<lambda>(k, n). gbump k n) ds (gbump k d c)) w"
      by (rule Cons.IH) (meson Cons.prems(3) list.set_intros(2))
    ultimately show ?case by (simp add: x)
  qed simp
  note step = this
  show ?thesis
    using assms(1) step [of "core mc" _ _ "window mc"] unfolding run_inv_def hook_def fst_conv snd_conv
    by (cases "enabled (core mc)") auto
qed

lemma rampUp_inv: "run_inv (mc, rs) \<Longrightarrow> run_inv (SetRampUpStage a b mc, rs)"
  by (simp add: run_inv_def SetRampUpStage_def)

lemma apdexT_inv: "run_inv (mc, rs) \<Longrightarrow> run_inv (SetApdexT t mc, rs)"
  by (simp add: run_inv_def SetApdexT_def)

lemma lifecycle_inv: "run_inv (mc, rs) \<Longrightarrow> run_inv (lifecycle_hook h mc, rs)"
  by (cases h)
    (auto simp: RobotStarted_def RobotRunning_def RobotStopped_def RobotErrored_def ConnEstablished_def ConnClosed_def
      ConnFailed_def ConnDropped_def windowed_def intro!: hook_inv)

lemma start_inv:
  assumes I: "run_inv (mc, rs)" and R: "RecordActionStart L n mc = Some mc'"
  shows "run_inv (mc', rs)"
proof -
  have en: "enabled (core mc)" using I by (simp add: run_inv_def)
  obtain am c where g: "getOrCreateAction L n (core mc) = Some (am, c)"
    and mc': "mc' = mc\<lparr>core := putAction n (bump executing 1 am) c\<rparr>"
    using R en by (auto simp: RecordActionStart_def split: bind_splits)
  have "core_inv (putAction n (bump executing 1 am) c)"
    by (rule put_plain_inv [OF _ g]) (use I in \<open>simp_all add: run_inv_def plain_def\<close>)
  moreover have "core_rel D G (putAction n (bump executing 1 am) c) w" if "core_rel D G (core mc) w"
    for D :: "string \<Rightarrow> counter \<Rightarrow> int" and G w
  proof (rule core_rel_put_left)
    show "core_rel D G c w"
      using that unfolding core_rel_def by (simp add: getOrCreateAction_same [OF g])
    fix k assume "k \<noteq> executing"
    then show "amCount (bump executing 1 am) k = cnt c n k"
      by (simp add: bump_def getOrCreateAction_same [OF g])
  qed
  ultimately show ?thesis
    using I en getOrCreateAction_same(3) [OF g] by (simp add: run_inv_def mc') (simp add: putAction_def)
qed

lemma pending_inv:
  assumes I: "run_inv (mc, rs)" and R: "RecordPendingCanceled L n mc = Some mc'"
  shows "run_inv (mc', rs)"
proof -
  have en: "enabled (core mc)" "enabled (window mc)" using I run_inv_window [OF I] by (simp_all add: run_inv_def)
  obtain am c bm w where g: "getOrCreateAction L n (core mc) = Some (am, c)" "getOrCreateAction L n (window mc) = Some (bm, w)"
    and mc': "mc' = mc\<lparr>core := putAction n (bump canceledCount 1 am) c, window := putAction n (bump canceledCount 1 bm) w\<rparr>"
    using R en by (auto simp: RecordPendingCanceled_def coreRecordPendingCanceled_def split: bind_splits)
  have "core_inv (putAction n (bump canceledCount 1 am) c)" "core_inv (putAction n (bump canceledCount 1 bm) w)"
    by (rule put_plain_inv [OF _ g(1)], use I in \<open>simp_all add: run_inv_def plain_def\<close>)
       (rule put_plain_inv [OF _ g(2)], use I in \<open>simp_all add: run_inv_def plain_def\<close>)
  moreover have "core_rel D G (putAction n (bump canceledCount 1 am) c) (putAction n (bump canceledCount 1 bm) w)"
    if "core_rel D G (core mc) (window mc)" for D :: "string \<Rightarrow> counter \<Rightarrow> int" and G
    using getOrCreate_rel [OF that g] by (intro core_rel_put am_rel_bump)
  ultimately show ?thesis
    using I en getOrCreateAction_same(3) [OF g(1)] by (simp add: run_inv_def mc') (simp add: putAction_def)
qed

lemma bandwidth_inv: "run_inv (mc, rs) \<Longrightarrow> run_inv (AddBandwidth s v mc, rs)"
proof -
  assume I: "run_inv (mc, rs)"
  have "core_rel D G (coreAddBandwidth s v (core mc)) (coreAddBandwidth s v (window mc))"
    if "core_rel D G (core mc) (window mc)" for D :: "string \<Rightarrow> counter \<Rightarrow> int" and G
    using that by (simp add: coreAddBandwidth_def core_rel_gbump Let_def) (simp add: core_rel_def)
  moreover have "core_inv (coreAddBandwidth s v c)" "enabled (coreAddBandwidth s v c) = enabled c" if "core_inv c" for c :: "'a Core"
    using that by (simp_all add: coreAddBandwidth_def gbump_inv Let_def) (simp add: gbump_def)
  ultimately show ?thesis using I by (simp add: run_inv_def AddBandwidth_def)
qed

lemma wsum_map_wrap: "wsum (map (\<lambda>x. wrap64 (f x)) xs) = wrap64 (\<Sum>x \<leftarrow> xs. f x)"
proof (induction xs)
  case (Cons x xs)
  have "wrap64 (wrap64 (f x) + (\<Sum>x \<leftarrow> xs. wrap64 (f x))) = wrap64 (f x + (\<Sum>x \<leftarrow> xs. wrap64 (f x)))"
    by (rule wrap64_add)
  also have "\<dots> = wrap64 (f x + wrap64 (\<Sum>x \<leftarrow> xs. wrap64 (f x)))" by (rule wrap64_add_right [symmetric])
  also have "\<dots> = wrap64 (f x + (\<Sum>x \<leftarrow> xs. f x))" using Cons by (simp add: wsum_eq wrap64_add_right)
  finally show ?case by (simp add: wsum_eq)
qed (simp add: wsum_def)

lemma sample_total:
  assumes "core_inv c" "enabled c" "snapshotUnlocked L now sys prev p c = Some (s, prev')"
  shows "wsum (map asSampleCount (csActions s)) = gCount c totalActions"
proof -
  note S = snapshot_actions [OF assms]
  have "map asSampleCount (csActions s) = map (\<lambda>a. wrap64 (sampleSum (the (actions c (asName a))))) (csActions s)"
  proof (rule map_cong [OF refl])
    fix a assume "a \<in> set (csActions s)"
    from S(3) [OF this] obtain am u q where "actions c (asName a) = Some am" "snapshotAction L u q p (asName a) am = Some a"
      by blast
    then show "asSampleCount a = wrap64 (sampleSum (the (actions c (asName a))))"
      using snapshotAction_simps(3) by fastforce
  qed
  also have "\<dots> = map (\<lambda>n. wrap64 (sampleSum (the (actions c n)))) (map asName (csActions s))" by simp
  finally show ?thesis
    using assms(1) unfolding S(1) by (simp only: wsum_map_wrap) (simp add: core_inv_def)
qed

lemma report_inv:
  assumes I: "run_inv (mc, rs)" and R: "TakeReportSnapshot L e1 e2 meta mc = Some (r, mc')"
  shows "run_inv (mc', rs @ [r])"
proof -
  have inv: "core_inv (core mc)" "core_inv (window mc)" "enabled (core mc)" "enabled (window mc)"
    using I run_inv_window [OF I] by (simp_all add: run_inv_def)
  obtain cum prev interval prev' w where
    i: "snapshotUnlocked L (fst e2) (snd e2) None (Fin 0) (window mc) = Some (interval, prev')"
    and r: "r = cum\<lparr>csWindow := Some w\<rparr>"
    and w: "rwActions w = map (intervalAction (report_duration meta) (csActions cum)) (csActions interval)"
      "smSampleCount (rwSummary w) = wsum (map asSampleCount (rwActions w))"
      "rwSendBytes w = gCount (window mc) totalSendBytes" "rwRecvBytes w = gCount (window mc) totalRecvBytes"
      "rwInvalidMetricSamples w = gCount (window mc) invalidMetricSamples"
    and mc': "mc' = mc\<lparr>window := newWindowCollector (rmEndedAt meta) (core mc)\<rparr>"
    by (rule report_spec [OF inv R]) blast
  have 1: "countIn (windowActions r) n k = cnt (window mc) n k" if "k \<noteq> executing" for n k
    using snapshot_countIn [OF inv(2,4) i, of n k] that by (simp add: windowActions_def r w(1) countIn_interval)
  have 2: "windowCount r g = gCount (window mc) g" if "windowed g" for g
    using that w sample_total [OF inv(2,4) i]
    by (auto simp: windowed_def windowCount_def r comp_def)
  have new: "cnt (newWindowCollector t c) n k = 0" "gCount (newWindowCollector t c) g = 0" for t n k g and c :: "'a Core"
    by (simp_all add: cnt_def newWindowCollector_def)
  have "core_rel (\<lambda>n k. \<Sum>r \<leftarrow> rs @ [r]. countIn (windowActions r) n k) (\<lambda>g. \<Sum>r \<leftarrow> rs @ [r]. windowCount r g)
      (core mc) (newWindowCollector (rmEndedAt meta) (core mc))"
    using I by (simp add: run_inv_def core_rel_def new 1 2 add.commute) (simp add: newWindowCollector_def)
  then show ?thesis using inv by (simp add: run_inv_def mc')
qed

lemma ev_step_inv:
  assumes L: "uniformAdd L" and I: "run_inv st" and S: "ev_step L e st = Some st'"
  shows "run_inv st'"
proof -
  obtain mc rs where st: "st = (mc, rs)" by (cases st)
  show ?thesis
  proof (cases e)
    case (EvReset now)
    have "core_inv ((core mc)\<lparr>startTime := now, collectionEpoch := wrapu64 (collectionEpoch (core mc) + 1),
        actions := (\<lambda>_. None), names := [], gCount := (\<lambda>_. 0), rampUpCurrentStage := 0, rampUpTotalStages := 0\<rparr>)"
      by (simp add: core_inv_def)
    moreover have "core_rel (\<lambda>_ _. 0) (\<lambda>_. 0) (core (ResetCollector now mc)) (window (ResetCollector now mc))"
    proof -
      have "window (ResetCollector now mc) = newWindowCollector now (core (ResetCollector now mc))"
        by (simp add: ResetCollector_def Let_def)
      then show ?thesis
        by (simp only:) (rule core_rel_refl0; simp add: ResetCollector_def Let_def cnt_def)
    qed
    moreover have "st' = (ResetCollector now mc, [])" using S by (simp add: st EvReset)
    ultimately show ?thesis using I by (simp add: st run_inv_def) (simp add: ResetCollector_def Let_def)
  qed (use S I in \<open>auto simp: st RecordAction_def RecordCallback_def
      intro: record_both_inv [OF L] start_inv pending_inv bandwidth_inv lifecycle_inv report_inv rampUp_inv apdexT_inv\<close>)
qed

lemma ev_run_inv: "uniformAdd L \<Longrightarrow> run_inv st \<Longrightarrow> ev_run L es st = Some st' \<Longrightarrow> run_inv st'"
  by (induction es arbitrary: st) (auto split: option.splits intro: ev_step_inv)

subsection \<open>Nothing is lost between the windows\<close>

text \<open>A sketch that counts its samples and keeps the last one, and a run, for the witnesses.\<close>

definition lastSketch :: "(nat \<times> float64) sketchLib" where
  "lastSketch = \<lparr>skNew = (\<lambda>_ _. Some (0, Fin 0)), skAdd = (\<lambda>s v. Some (fst s + 1, v)), skClear = (\<lambda>_. (0, Fin 0)),
     skQuantiles = (\<lambda>s. Some (snd s, snd s, snd s, snd s)), skCount = (\<lambda>s. Fin (of_nat (fst s))),
     skMerge = (\<lambda>a b. Some (fst a + fst b, snd b)), skEncode = (\<lambda>s. [fst s]), skDecode = (\<lambda>bs. Some (hd bs, Fin 0))\<rparr>"

definition exampleMeta :: ReportMeta where
  "exampleMeta = \<lparr>rmSequence = 1, rmStartedAt = 0, rmEndedAt = 1000000000, rmExpectedIntervalSeconds = Fin 1\<rparr>"

definition exampleConfig :: CollectorConfig where
  "exampleConfig = \<lparr>cfgApdexThresholdMs = 100, cfgTimingDetail = ''rtt'', cfgRelativeAccuracy = Fin 0, cfgMaxBins = 0\<rparr>"

definition exampleRun :: "ev list" where
  "exampleRun = [EvPending ''a'', EvReport (1000000000, zeroSystem) (1000000001, zeroSystem) exampleMeta, EvPending ''a'']"

lemma lastSketch_uniform: "uniformAdd lastSketch"
  by (simp add: uniformAdd_def lastSketch_def)

definition lastBlock :: "(nat \<times> float64) actionMetrics" where
  "lastBlock = the (newActionMetrics lastSketch (Fin 0) 0)"

lemma lastBlock_new: "newActionMetrics lastSketch r b = Some lastBlock"
  by (simp add: lastBlock_def newActionMetrics_def newLatencyHistogramWith_def lastSketch_def)

lemma lastBlock_simps:
  "hCount (rtt lastBlock) = 0" "hCount (listenWait lastBlock) = 0" "hCount (totalDuration lastBlock) = 0" "amCount lastBlock k = 0"
  by (simp_all add: lastBlock_def newActionMetrics_def newLatencyHistogramWith_def lastSketch_def)

lemma MergeHistograms_Nil [simp]: "MergeHistograms L [] = Inr emptyHistogram"
  by (simp add: MergeHistograms_def)

lemma exampleRun_result:
  "case ev_run lastSketch exampleRun (NewCollector exampleConfig 0, []) of
     Some (mc, rs) \<Rightarrow> cnt (core mc) ''a'' canceledCount = 2 \<and> cnt (window mc) ''a'' canceledCount = 1 \<and> length rs = 1
   | None \<Rightarrow> False"
  by (simp add: exampleRun_def NewCollector_def exampleConfig_def RecordPendingCanceled_def coreRecordPendingCanceled_def
      getOrCreateAction_def lastBlock_new lastBlock_simps Let_def newWindowCollector_def putAction_def cnt_def bump_def
      wrap64_def TakeReportSnapshot_def snapshotUnlocked_def snapshotAction_def HistSnapshot_def BuildSnapshotSummary_def
      buildSnapshotSummary_def ActionNames_def emptyHistogram_def intervalAction_def numeral_2_eq_2 split del: if_split)

text \<open>
  C32. Since the last reset of the collector, for every action and every counter but
  \<open>executing\<close>, and for the totals that a window carries: the values reported by the closed windows and
  the value of the open window add up to the cumulative value, modulo \<open>2 ^ 64\<close>.
\<close>

theorem window_conservation:
  assumes "uniformAdd L" and "ev_run L es (NewCollector cfg now, []) = Some (mc, rs)"
  shows "(k \<noteq> executing \<longrightarrow>
           cnt (core mc) n k = wrap64 ((\<Sum>r \<leftarrow> rs. countIn (windowActions r) n k) + cnt (window mc) n k)) \<and>
         (windowed g \<longrightarrow>
           gCount (core mc) g = wrap64 ((\<Sum>r \<leftarrow> rs. windowCount r g) + gCount (window mc) g))"
  using ev_run_inv [OF assms(1) run_inv_init assms(2)] by (simp add: run_inv_def core_rel_def add.commute)

theorem window_conservation_witness:
  "case ev_run lastSketch exampleRun (NewCollector exampleConfig 0, []) of
     Some (mc, rs) \<Rightarrow>
       cnt (core mc) ''a'' canceledCount = 2 \<and> cnt (window mc) ''a'' canceledCount = 1 \<and>
       cnt (core mc) ''a'' canceledCount =
         wrap64 ((\<Sum>r \<leftarrow> rs. countIn (windowActions r) ''a'' canceledCount) + cnt (window mc) ''a'' canceledCount)
   | None \<Rightarrow> False"
  using exampleRun_result
    window_conservation [OF lastSketch_uniform, where es = exampleRun and cfg = exampleConfig and now = 0
      and k = canceledCount and n = "''a''" and g = totalActions]
  by (cases "ev_run lastSketch exampleRun (NewCollector exampleConfig 0, [])") fastforce+

subsection \<open>Merging adds up the counters\<close>

lemma actionOrder_spec: "distinct (actionOrder as) \<and> set (actionOrder as) = asName ` set as"
proof -
  have "distinct (foldl (\<lambda>ns a. if asName a \<in> set ns then ns else ns @ [asName a]) ns as) \<and>
    set (foldl (\<lambda>ns a. if asName a \<in> set ns then ns else ns @ [asName a]) ns as) = set ns \<union> asName ` set as"
    if "distinct ns" for ns
    using that by (induction as arbitrary: ns) (simp_all, auto)
  from this [of "[]"] show ?thesis by (simp add: actionOrder_def)
qed

lemma mergeAction_simps:
  assumes "mergeAction L u n as = Inr a"
  shows "asName a = n" "asCounts a k = wrap64 (\<Sum>b \<leftarrow> as. asCounts b k)"
    "asSampleCount a = wsum (map asSampleCount as)"
  using assms by (auto simp: mergeAction_def Let_def sumOf_def wsum_eq split: sum.splits)

lemma mergeActions_spec:
  "mergeActions L u all ns = Inr as \<Longrightarrow>
   map asName as = ns \<and> (\<forall>a \<in> set as. mergeAction L u (asName a) (actionsNamed (asName a) all) = Inr a)"
proof (induction ns arbitrary: as)
  case (Cons n ns)
  then obtain a as' where a: "mergeAction L u n (actionsNamed n all) = Inr a" and r: "mergeActions L u all ns = Inr as'"
    and as: "as = a # as'"
    by (auto split: sum.splits)
  have "asName a = n" by (rule mergeAction_simps(1) [OF a])
  then show ?case using Cons.IH [OF r] a by (simp add: as)
qed simp

lemma countIn_named: "(\<Sum>a \<leftarrow> actionsNamed n all. asCounts a k) = countIn all n k"
  by (induction all) (simp_all add: actionsNamed_def countIn_def)

lemma countIn_append: "countIn (as @ bs) n k = countIn as n k + countIn bs n k"
  by (simp add: countIn_def)

lemma countIn_concat: "countIn (concat ass) n k = (\<Sum>as \<leftarrow> ass. countIn as n k)"
  by (induction ass) (simp_all add: countIn_append, simp add: countIn_def)

lemma countIn_absent: "n \<notin> asName ` set as \<Longrightarrow> countIn as n k = 0"
  by (induction as) (auto simp: countIn_def)

lemma mergeActions_count:
  assumes "mergeActions L u all (actionOrder all) = Inr as"
  shows "countIn as n k = wrap64 (countIn all n k)"
proof -
  note M = mergeActions_spec [OF assms] and O = actionOrder_spec [of all]
  have d: "distinct (map asName as)" using M O by simp
  have c: "asCounts a k = wrap64 (countIn all (asName a) k)" if "a \<in> set as" for a
    using M that mergeAction_simps(2) countIn_named by metis
  have "asName ` set as = asName ` set all" using M O by (metis set_map)
  then show ?thesis
    using countIn_distinct [OF d c, of n] countIn_absent [of n all k] by auto
qed

text \<open>What the snapshots, nil ones left out, say of an action and of the collector.\<close>

definition countsOf :: "CollectorSnapshot option list \<Rightarrow> string \<Rightarrow> counter \<Rightarrow> int" where
  "countsOf snaps n k = (\<Sum>s \<leftarrow> snaps. case s of None \<Rightarrow> 0 | Some s \<Rightarrow> countIn (csActions s) n k)"

definition totalsOf :: "CollectorSnapshot option list \<Rightarrow> gcounter \<Rightarrow> int" where
  "totalsOf snaps g = (\<Sum>s \<leftarrow> snaps. case s of None \<Rightarrow> 0 | Some s \<Rightarrow> csCounts s g)"

lemma valid_sums:
  "countsOf snaps n k = (\<Sum>s \<leftarrow> map the (filter (\<lambda>s. s \<noteq> None) snaps). countIn (csActions s) n k)"
  "totalsOf snaps g = (\<Sum>s \<leftarrow> map the (filter (\<lambda>s. s \<noteq> None) snaps). csCounts s g)"
  by (induction snaps) (auto simp: countsOf_def totalsOf_def)

lemma merge_sums:
  assumes "MergeSnapshots L now snaps = Inr m"
  shows "wrap64 (countIn (csActions m) n k) = wrap64 (countsOf snaps n k)"
    "wrap64 (csCounts m g) = wrap64 (totalsOf snaps g)"
proof -
  define valid where "valid = map the (filter (\<lambda>s. s \<noteq> None) snaps)"
  note M = assms [unfolded MergeSnapshots_def, folded valid_def]
  have "wrap64 (countIn (csActions m) n k) = wrap64 (\<Sum>s \<leftarrow> valid. countIn (csActions s) n k) \<and>
    wrap64 (csCounts m g) = wrap64 (\<Sum>s \<leftarrow> valid. csCounts s g)"
  proof (cases valid)
    case Nil
    then show ?thesis using M
      by (auto simp: zeroCollectorSnapshot_def countIn_def)
  next
    case (Cons s rest)
    show ?thesis
    proof (cases rest)
      case Nil
      then show ?thesis using M Cons
        by (auto split: sum.splits)
    next
      case (Cons s' rest')
      with M \<open>valid = s # rest\<close> obtain u as where
        as: "mergeActions L u (concat (map csActions valid)) (actionOrder (concat (map csActions valid))) = Inr as"
        and m: "csActions m = as" "csCounts m g = wsum (map (\<lambda>s. csCounts s g) valid)"
        by (auto simp: Let_def split: sum.splits)
      show ?thesis
        using mergeActions_count [OF as, of n k]
        by (simp add: m wsum_eq countIn_concat comp_def)
    qed
  qed
  then show "wrap64 (countIn (csActions m) n k) = wrap64 (countsOf snaps n k)"
    "wrap64 (csCounts m g) = wrap64 (totalsOf snaps g)"
    by (simp_all only: valid_sums valid_def)
qed

lemma countsOf_append: "countsOf (xs @ ys) n k = countsOf xs n k + countsOf ys n k"
  by (simp add: countsOf_def)

lemma totalsOf_append: "totalsOf (xs @ ys) g = totalsOf xs g + totalsOf ys g"
  by (simp add: totalsOf_def)

lemma wrap64_cong2: "wrap64 a = wrap64 c \<Longrightarrow> wrap64 b = wrap64 d \<Longrightarrow> wrap64 (a + b) = wrap64 (c + d)"
  by (metis wrap64_add wrap64_add_right)

text \<open>
  C38. The merge adds up, modulo \<open>2 ^ 64\<close>, what the agents report of every action (\<open>countsOf\<close>, the sum
  over the snapshots) and of their robots, connections and bytes (\<open>totalsOf\<close>), and it does not matter how
  the agents are grouped: merging two merged groups and merging all agents at once both give these sums.
\<close>

theorem merge_grouping:
  assumes "MergeSnapshots L t1 xs = Inr mx" and "MergeSnapshots L t2 ys = Inr my"
    and "MergeSnapshots L t3 [Some mx, Some my] = Inr m" and "MergeSnapshots L t4 (xs @ ys) = Inr m'"
  shows "wrap64 (countIn (csActions m) n k) = wrap64 (countsOf (xs @ ys) n k) \<and>
         wrap64 (csCounts m g) = wrap64 (totalsOf (xs @ ys) g) \<and>
         wrap64 (countIn (csActions m) n k) = wrap64 (countIn (csActions m') n k) \<and>
         wrap64 (csCounts m g) = wrap64 (csCounts m' g)"
proof -
  have "countsOf [Some mx, Some my] n k = countIn (csActions mx) n k + countIn (csActions my) n k"
    "totalsOf [Some mx, Some my] g = csCounts mx g + csCounts my g"
    by (simp_all add: countsOf_def totalsOf_def)
  then have "wrap64 (countsOf [Some mx, Some my] n k) = wrap64 (countsOf (xs @ ys) n k)"
    "wrap64 (totalsOf [Some mx, Some my] g) = wrap64 (totalsOf (xs @ ys) g)"
    by (simp_all only: countsOf_append totalsOf_append)
      (rule wrap64_cong2, rule merge_sums [OF assms(1)], rule merge_sums [OF assms(2)])+
  then show ?thesis
    by (simp only: merge_sums [OF assms(3)] merge_sums [OF assms(4)])
qed

text \<open>Two agents that report two and three started robots and canceled actions.\<close>

definition canceledSnapshot :: "int \<Rightarrow> CollectorSnapshot" where
  "canceledSnapshot c = zeroCollectorSnapshot\<lparr>csCounts := (\<lambda>_. 0)(robotsStarted := c), csActions :=
     [\<lparr>asName = ''a'', asSampleCount = 0, asCounts = (\<lambda>_. 0)(canceledCount := c), asSuccessRate = Fin 0, asAvgSendBytes = Fin 0,
       asAvgRecvBytes = Fin 0, asKind = ActionKindLocal, asRTTApdex = Fin 0, asRTTApdexSampleCount = 0, asRTT = emptyHistogram,
       asListenWait = emptyHistogram, asListenTimeoutRate = Fin 0, asTotalDuration = emptyHistogram, asTimeoutAvgMs = Fin 0,
       asClientAvgMs = Fin 0, asCostAvgMs = (\<lambda>_. Fin 0), asAvgQPS = Fin 0, asPeriodQPS = Fin 0, asErrors = []\<rparr>]\<rparr>"

lemma MergeHistograms_empty: "list_all (\<lambda>h. hsCount h = 0) hs \<Longrightarrow> MergeHistograms L hs = Inr emptyHistogram"
proof -
  assume "list_all (\<lambda>h. hsCount h = 0) hs"
  then have "mergeLoop L hs st = Inr st" for st by (induction hs) (simp_all add: mergeStep_def)
  then show ?thesis by (simp add: MergeHistograms_def)
qed

lemma merge_example:
  "\<exists>mx my m m'. MergeSnapshots lastSketch 0 [Some (canceledSnapshot 2)] = Inr mx \<and>
     MergeSnapshots lastSketch 0 [None, Some (canceledSnapshot 3)] = Inr my \<and>
     MergeSnapshots lastSketch 0 [Some mx, Some my] = Inr m \<and>
     MergeSnapshots lastSketch 0 ([Some (canceledSnapshot 2)] @ [None, Some (canceledSnapshot 3)]) = Inr m'"
  by (simp add: MergeSnapshots_def canceledSnapshot_def zeroCollectorSnapshot_def buildSnapshotSummary_def Let_def
      mergeAction_def actionOrder_def actionsNamed_def MergeHistograms_empty emptyHistogram_def split del: if_split)

theorem merge_grouping_witness:
  "\<exists>mx my m. MergeSnapshots lastSketch 0 [Some (canceledSnapshot 2)] = Inr mx \<and>
     MergeSnapshots lastSketch 0 [None, Some (canceledSnapshot 3)] = Inr my \<and>
     MergeSnapshots lastSketch 0 [Some mx, Some my] = Inr m \<and> wrap64 (countIn (csActions m) ''a'' canceledCount) = 5 \<and>
     wrap64 (csCounts m robotsStarted) = 5"
proof -
  obtain mx my m m' where M: "MergeSnapshots lastSketch 0 [Some (canceledSnapshot 2)] = Inr mx"
     "MergeSnapshots lastSketch 0 [None, Some (canceledSnapshot 3)] = Inr my"
     "MergeSnapshots lastSketch 0 [Some mx, Some my] = Inr m"
     "MergeSnapshots lastSketch 0 ([Some (canceledSnapshot 2)] @ [None, Some (canceledSnapshot 3)]) = Inr m'"
    using merge_example by blast
  have "wrap64 (countIn (csActions m) ''a'' canceledCount) = 5 \<and> wrap64 (csCounts m robotsStarted) = 5"
    using merge_grouping [OF M, of "''a''" canceledCount robotsStarted]
    by (simp add: countsOf_def totalsOf_def countIn_def canceledSnapshot_def wrap64_def)
  then show ?thesis using M(1-3) by blast
qed

subsection \<open>Steps that the code does not make atomic\<close>

text \<open>
  \<open>Reset\<close> and the recording of results exclude each other by \<open>transitionMu\<close>, but \<open>RecordActionStart\<close> does
  not take it, and \<open>SetApdexT\<close> stores the two thresholds one after the other.  In a run above they are
  single steps; here are the two parts of each.
\<close>

definition resetActions :: "int \<Rightarrow> 'sk MetricsCollector \<Rightarrow> 'sk MetricsCollector" where
  "resetActions now mc = mc\<lparr>core := (core mc)\<lparr>startTime := now, collectionEpoch := wrapu64 (collectionEpoch (core mc) + 1),
     actions := (\<lambda>_. None)\<rparr>\<rparr>"

definition resetRest :: "int \<Rightarrow> 'sk MetricsCollector \<Rightarrow> 'sk MetricsCollector" where
  "resetRest now mc =
     (let c = (core mc)\<lparr>names := [], gCount := (\<lambda>_. 0), rampUpCurrentStage := 0, rampUpTotalStages := 0\<rparr>
      in mc\<lparr>core := c, window := newWindowCollector now c\<rparr>)"

lemma ResetCollector_parts: "ResetCollector now mc = resetRest now (resetActions now mc)"
  by (simp add: ResetCollector_def resetRest_def resetActions_def Let_def)

lemma SetApdexT_parts:
  "0 < t \<Longrightarrow> SetApdexT t mc =
     (\<lambda>m. m\<lparr>window := (window m)\<lparr>apdexT := to_i32 t\<rparr>\<rparr>) (mc\<lparr>core := (core mc)\<lparr>apdexT := to_i32 t\<rparr>\<rparr>)"
  by (simp add: SetApdexT_def)

text \<open>
  An action that starts between the two parts of a reset has a block but no name, and stays so however
  often it is recorded: no snapshot lists it, although \<open>totalActions\<close> counts its results.
\<close>

definition unlisted :: "string \<Rightarrow> 'sk Core \<Rightarrow> bool" where
  "unlisted n c \<longleftrightarrow> actions c n \<noteq> None \<and> n \<notin> set (names c)"

lemma start_inside_reset:
  assumes "RecordActionStart L n (resetActions now mc) = Some mc'" and "enabled (core mc)"
  shows "unlisted n (core (resetRest now mc'))"
  using assms
  by (auto simp: RecordActionStart_def resetActions_def resetRest_def unlisted_def putAction_def Let_def split: bind_splits)

lemma unlisted_stays:
  assumes "unlisted n c" and "coreRecordAction L m r t w s v e tr c = Some c'"
  shows "unlisted n c'"
  using assms
  by (auto simp: coreRecordAction_def getOrCreateAction_def unlisted_def putAction_def gbump_def Let_def
      split: bind_splits option.splits if_splits prod.splits)

end
