(* ===== verification/WindowStore.thy ===== *)
theory WindowStore
  imports MetricsRun "HOL-Library.AList" "HOL-Library.List_Lexorder"
begin

text \<open>
  The admin server's store of metric windows (\<^verbatim>\<open>admin/metrics/window_store.go\<close>): a report is validated
  without a lock, committed under the lock of its shard if its sequence number is new, and its window
  appended to the history of the task under the store's lock; the history is handed out in batches that
  stay in flight until they are acknowledged.  The shards only spread the lock, so the map of states is
  one association list.  SHA-256 is a parameter.
\<close>

subsection \<open>Validation of a report\<close>

datatype act_err =
    EmptyName | DuplicateName | NegativeCount | SampleMismatch | HistogramMismatch | ApdexDenominator | ApdexRaw
  | DerivedMismatch | EmptyCarriesData | BadHistogramValues | BadDistribution merge_err

datatype report_err =
    EpochZero | BadTimingDetail | BadRange | BadDuration | BadInterval | BadApdexT | NegativeReport | BadBandwidth
  | CumulativeAction act_err | WindowAction act_err | TotalMismatch | WindowTotalMismatch

definition allCosts :: "cost list" where
  "allCosts = [Build, Encode, Send, DecodeWait, Decode, DispatchWait, ParseStore]"

definition ratio :: "int \<Rightarrow> int \<Rightarrow> float64" where
  "ratio a b = (if b = 0 then Fin 0 else fdiv (f64_of_int a) (f64_of_int b))"

definition apdexValue :: "ActionSnapshot \<Rightarrow> float64" where
  "apdexValue a =
     (if asRTTApdexSampleCount a = 0 then Fin 0
      else fdiv (apdex_points (asCounts a apdexSatisfied) (asCounts a apdexTolerating)) (f64_of_int (asRTTApdexSampleCount a)))"

definition finiteNonNegative :: "float64 \<Rightarrow> bool" where
  "finiteNonNegative v \<longleftrightarrow> v \<noteq> NaN \<and> v \<noteq> PInf \<and> v \<noteq> NInf \<and> fle (Fin 0) v"

text \<open>The literal \<open>1e-12\<close> is the double nearest to it.\<close>

definition tiny :: float64 where
  "tiny = Fin (4951760157141521 / 4951760157141521099596496896)"

definition validDerivedValue :: "float64 \<Rightarrow> float64 \<Rightarrow> bool" where
  "validDerivedValue actual expected \<longleftrightarrow>
     finiteNonNegative actual \<and> finiteNonNegative expected \<and>
     fle (fabs (fsub actual expected)) (fmax tiny (fmul (fabs expected) tiny))"

definition listenTotal :: "ActionSnapshot \<Rightarrow> int" where
  "listenTotal a = wrap64 (wrap64 (asCounts a listenWaitCount + asCounts a listenReadyCount) + asCounts a listenTimeoutHits)"

definition validAverage :: "float64 \<times> int \<times> int \<Rightarrow> bool" where
  "validAverage m =
     (let (average, sumNs, count) = m in
      \<not> (count = 0 \<and> sumNs \<noteq> 0) \<and>
      validDerivedValue average
        (if 0 < count then fdiv (fdiv (f64_of_int sumNs) (f64_of_int count)) nsPerMs else Fin 0))"

definition validActionDerivedValues :: "ActionSnapshot \<Rightarrow> bool" where
  "validActionDerivedValues a =
     (let n = asCounts a in
      validDerivedValue (asSuccessRate a) (ratio (n successCount) (asSampleCount a)) \<and>
      validDerivedValue (asAvgSendBytes a) (ratio (n sendBytes) (n byteSampleCount)) \<and>
      validDerivedValue (asAvgRecvBytes a) (ratio (n recvBytes) (n byteSampleCount)) \<and>
      validDerivedValue (asRTTApdex a) (apdexValue a) \<and>
      validDerivedValue (asListenTimeoutRate a) (ratio (n listenTimeoutHits) (listenTotal a)) \<and>
      finiteNonNegative (asAvgQPS a) \<and> finiteNonNegative (asPeriodQPS a) \<and>
      validAverage (asTimeoutAvgMs a, n timeoutTotalNs, n timeoutCount) \<and>
      validAverage (asClientAvgMs a, n clientCostSum, n clientCostCount) \<and>
      (\<forall>st \<in> set allCosts. validAverage (asCostAvgMs a st, n (costSum st), n (costCount st))) \<and>
      asKind a = (if 0 < asRTTApdexSampleCount a then ActionKindNetworked
                  else if 0 < listenTotal a then ActionKindListen
                  else if 0 < n sendBytes then ActionKindSend else ActionKindLocal))"

definition histogramHasValue :: "HistogramSnapshot \<Rightarrow> bool" where
  "histogramHasValue h \<longleftrightarrow> hsMinMs h \<noteq> None \<or> hsMaxMs h \<noteq> None \<or> hsAvgMs h \<noteq> None \<or> hsP50Ms h \<noteq> None \<or>
     hsP90Ms h \<noteq> None \<or> hsP95Ms h \<noteq> None \<or> hsP99Ms h \<noteq> None"

definition validHistogramValues :: "HistogramSnapshot \<Rightarrow> bool" where
  "validHistogramValues h =
     (list_all (\<lambda>v. case v of None \<Rightarrow> False | Some x \<Rightarrow> finiteNonNegative x)
        [hsMinMs h, hsP50Ms h, hsP90Ms h, hsP95Ms h, hsP99Ms h, hsAvgMs h, hsMaxMs h] \<and>
      (let mn = the (hsMinMs h); mx = the (hsMaxMs h); avg = the (hsAvgMs h);
           e = fdiv (fdiv (f64_of_int (hsSumNs h)) (f64_of_int (hsCount h))) nsPerMs
       in \<not> (flt (the (hsP50Ms h)) mn \<or> flt (the (hsP90Ms h)) (the (hsP50Ms h)) \<or>
             flt (the (hsP95Ms h)) (the (hsP90Ms h)) \<or> flt (the (hsP99Ms h)) (the (hsP95Ms h)) \<or>
             flt mx (the (hsP99Ms h)) \<or> flt avg mn \<or> flt mx avg) \<and>
          fle (fabs (fsub avg e)) (fmax tiny (fmul (fabs e) tiny))))"

definition validateHistogram :: "'sk sketchLib \<Rightarrow> HistogramSnapshot \<Rightarrow> act_err option" where
  "validateHistogram L h =
     (if hsCount h = 0
      then (if hsSumNs h \<noteq> 0 \<or> hsSketch h \<noteq> [] \<or> histogramHasValue h then Some EmptyCarriesData else None)
      else if hsSumNs h < 0 \<or> \<not> validHistogramValues h then Some BadHistogramValues
      else case MergeHistograms L [h] of Inl e \<Rightarrow> Some (BadDistribution e) | Inr _ \<Rightarrow> None)"

definition nonNegativeCounters :: "counter list" where
  "nonNegativeCounters =
     [successCount, failureCount, timeoutCount, canceledCount, executing, byteSampleCount, rttSampleCount, rttFailedCount,
      listenWaitCount, listenReadyCount, listenTimeoutHits, totalDurationSampleCount, sendBytes, recvBytes,
      timeoutTotalNs, clientCostCount, clientCostSum] @ map costCount allCosts @ map costSum allCosts"

primrec first_err :: "'e option list \<Rightarrow> 'e option" where
  "first_err [] = None"
| "first_err (e # es) = (case e of Some x \<Rightarrow> Some x | None \<Rightarrow> first_err es)"

text \<open>
  The body of the loop of \<open>validateMetricActions\<close> after the check of the name.  The code ranges over a map
  of the three distributions, here in a fixed order; it matters only for which error is reported.
\<close>

definition validateAction :: "'sk sketchLib \<Rightarrow> ActionSnapshot \<Rightarrow> act_err option" where
  "validateAction L a =
     (let n = asCounts a in
      if asSampleCount a < 0 \<or> asRTTApdexSampleCount a < 0 \<or> list_ex (\<lambda>k. n k < 0) nonNegativeCounters then Some NegativeCount
      else if asSampleCount a \<noteq> wrap64 (wrap64 (n successCount + n failureCount) + n timeoutCount) then Some SampleMismatch
      else if hsCount (asRTT a) \<noteq> n rttSampleCount \<or> hsCount (asListenWait a) \<noteq> n listenWaitCount \<or>
              hsCount (asTotalDuration a) \<noteq> n totalDurationSampleCount then Some HistogramMismatch
      else if asRTTApdexSampleCount a \<noteq> wrap64 (n rttSampleCount + n rttFailedCount) then Some ApdexDenominator
      else if n apdexSatisfied < 0 \<or> n apdexTolerating < 0 \<or>
              n rttSampleCount < wrap64 (n apdexSatisfied + n apdexTolerating) then Some ApdexRaw
      else if \<not> validActionDerivedValues a then Some DerivedMismatch
      else first_err [validateHistogram L (asRTT a), validateHistogram L (asListenWait a),
                      validateHistogram L (asTotalDuration a)])"

primrec validateMetricActions :: "'sk sketchLib \<Rightarrow> ActionSnapshot list \<Rightarrow> string list \<Rightarrow> act_err option" where
  "validateMetricActions L [] seen = None"
| "validateMetricActions L (a # as) seen =
     (if asName a = [] then Some EmptyName
      else if asName a \<in> set seen then Some DuplicateName
      else case validateAction L a of
        Some e \<Rightarrow> Some e
      | None \<Rightarrow> validateMetricActions L as (asName a # seen))"

definition totalActionSamples :: "ActionSnapshot list \<Rightarrow> int" where
  "totalActionSamples as = wsum (map asSampleCount as)"

definition millisecond :: float64 where
  "millisecond = fdiv (Fin 1000000) (Fin 1000000000)"

definition allGCounters :: "gcounter list" where
  "allGCounters = [robotsStarted, robotsRunning, robotsStopped, robotsErrored, totalActions, connEstablished, connActive,
     connClosed, connFailed, connDropped, totalSendBytes, totalRecvBytes, invalidMetricSamples]"

definition validateMetricReport :: "'sk sketchLib \<Rightarrow> CollectorSnapshot \<Rightarrow> ReportWindow \<Rightarrow> int \<Rightarrow> int \<Rightarrow> report_err option" where
  "validateMetricReport L s w expectedEvery expectedApdexT =
     (if csCollectionEpoch s = 0 then Some EpochZero
      else if csTimingDetail s \<notin> {''rtt'', ''codec'', ''full''} then Some BadTimingDetail
      else if \<not> rwStartedAt w < rwEndedAt w then Some BadRange
      else if flt millisecond (fabs (fsub (rwDurationSeconds w) (dur_Seconds (time_sub (rwEndedAt w) (rwStartedAt w))))) then Some BadDuration
      else if expectedEvery \<le> 0 \<or> flt millisecond (fabs (fsub (rwExpectedIntervalSeconds w) (dur_Seconds expectedEvery))) then Some BadInterval
      else if csApdexT s \<noteq> go_div expectedApdexT 1000000 then Some BadApdexT
      else if list_ex (\<lambda>g. csCounts s g < 0) allGCounters \<or> rwInvalidMetricSamples w < 0 \<or> rwSendBytes w < 0 \<or> rwRecvBytes w < 0
        then Some NegativeReport
      else if \<not> validDerivedValue (rwSendMBps w) (mbps (rwSendBytes w) (rwDurationSeconds w)) \<or>
              \<not> validDerivedValue (rwRecvMBps w) (mbps (rwRecvBytes w) (rwDurationSeconds w)) then Some BadBandwidth
      else case validateMetricActions L (csActions s) [] of
        Some e \<Rightarrow> Some (CumulativeAction e)
      | None \<Rightarrow>
        (case validateMetricActions L (rwActions w) [] of
          Some e \<Rightarrow> Some (WindowAction e)
        | None \<Rightarrow>
          if totalActionSamples (csActions s) \<noteq> csCounts s totalActions then Some TotalMismatch
          else if totalActionSamples (rwActions w) \<noteq> smSampleCount (rwSummary w) then Some WindowTotalMismatch
          else None))"

text \<open>\<open>validateCumulativeMonotonic\<close>: the counters compared, and the verdict.\<close>

definition monotonicCounters :: "counter list" where
  "monotonicCounters = [successCount, failureCount, timeoutCount, canceledCount, sendBytes, recvBytes, timeoutTotalNs,
     clientCostSum] @ map costSum allCosts"

definition validateCumulativeMonotonic :: "CollectorSnapshot \<Rightarrow> CollectorSnapshot \<Rightarrow> bool" where
  "validateCumulativeMonotonic previous current =
     (csCounts previous totalActions \<le> csCounts current totalActions \<and>
      csCounts previous invalidMetricSamples \<le> csCounts current invalidMetricSamples \<and>
      (let byName = map_of (rev (map (\<lambda>a. (asName a, a)) (csActions current))) in
       \<forall>old \<in> set (csActions previous).
         case byName (asName old) of
           None \<Rightarrow> False
         | Some cur \<Rightarrow>
             asSampleCount old \<le> asSampleCount cur \<and> hsCount (asRTT old) \<le> hsCount (asRTT cur) \<and>
             hsCount (asListenWait old) \<le> hsCount (asListenWait cur) \<and>
             hsCount (asTotalDuration old) \<le> hsCount (asTotalDuration cur) \<and>
             list_all (\<lambda>k. asCounts old k \<le> asCounts cur k) monotonicCounters))"

subsection \<open>The store\<close>

record StressReport =
  srAgentID :: string
  srTaskID :: string
  srReportedAt :: int
  srSnapshot :: "CollectorSnapshot option"

record AgentMetricState =
  amsAgentID :: string
  amsLastSequence :: int
  amsDroppedIntervals :: int
  amsReceivedAt :: int
  amsExpectedEvery :: int
  amsCumulative :: CollectorSnapshot
  amsLatestWindow :: ReportWindow

text \<open>\<open>hwCounts\<close> carries the robots and the connections of the report.\<close>

record MetricHistoryWindow =
  hwAgentID :: string
  hwApdexT :: int
  hwTimingDetail :: string
  hwCounts :: "gcounter \<Rightarrow> int"
  hwWindow :: ReportWindow

record MetricHistoryBatch =
  hbToken :: "nat list"
  hbWindows :: "MetricHistoryWindow list"

record WindowStore =
  wsStates :: "((string \<times> string) \<times> AgentMetricState) list"
  wsPending :: "string \<Rightarrow> MetricHistoryWindow list"
  wsInFlight :: "string \<Rightarrow> MetricHistoryBatch option"
  wsTerminal :: "string set"

definition NewWindowStore :: WindowStore where
  "NewWindowStore = \<lparr>wsStates = [], wsPending = (\<lambda>_. []), wsInFlight = (\<lambda>_. None), wsTerminal = {}\<rparr>"

datatype accept_err = NoAgentID | TaskMismatch | NoWindow | SequenceZero | Invalid report_err | DropsBack | EpochBack | Regressed

datatype accept_status = WindowAccepted | WindowDuplicate

text \<open>
  The first half of \<open>AcceptWithDrops\<close>, up to the release of the shard's lock: the result, the new
  states, and for an accepted report the window that is to be appended.
\<close>

definition acceptCommit ::
  "'sk sketchLib \<Rightarrow> int \<Rightarrow> StressReport \<Rightarrow> string \<Rightarrow> int \<Rightarrow> int \<Rightarrow> int \<Rightarrow> WindowStore
     \<Rightarrow> accept_err + accept_status \<times> (MetricHistoryWindow \<times> WindowStore) option" where
  "acceptCommit L now report expectedTaskID expectedEvery expectedApdexT droppedIntervals st =
     (if srAgentID report = [] then Inl NoAgentID
      else if srTaskID report = [] \<or> srTaskID report \<noteq> expectedTaskID then Inl TaskMismatch
      else case srSnapshot report of
        None \<Rightarrow> Inl NoWindow
      | Some s \<Rightarrow>
        (case csWindow s of
          None \<Rightarrow> Inl NoWindow
        | Some w \<Rightarrow>
          if rwSequence w = 0 then Inl SequenceZero
          else case validateMetricReport L s w expectedEvery expectedApdexT of
            Some e \<Rightarrow> Inl (Invalid e)
          | None \<Rightarrow>
            (let key = (srTaskID report, srAgentID report); previous = map_of (wsStates st) key in
             if (case previous of Some p \<Rightarrow> rwSequence w \<le> amsLastSequence p | None \<Rightarrow> False) then Inr (WindowDuplicate, None)
             else if (case previous of Some p \<Rightarrow> droppedIntervals < amsDroppedIntervals p | None \<Rightarrow> False) then Inl DropsBack
             else if (case previous of Some p \<Rightarrow> csCollectionEpoch s < csCollectionEpoch (amsCumulative p) | None \<Rightarrow> False)
               then Inl EpochBack
             else if (case previous of
                        Some p \<Rightarrow> csCollectionEpoch s = csCollectionEpoch (amsCumulative p) \<and>
                                  \<not> validateCumulativeMonotonic (amsCumulative p) s
                      | None \<Rightarrow> False) then Inl Regressed
             else
               let state = \<lparr>amsAgentID = srAgentID report, amsLastSequence = rwSequence w, amsDroppedIntervals = droppedIntervals,
                            amsReceivedAt = now, amsExpectedEvery = expectedEvery,
                            amsCumulative = s\<lparr>csWindow := None\<rparr>, amsLatestWindow = w\<rparr>
               in Inr (WindowAccepted, Some
                    (\<lparr>hwAgentID = srAgentID report, hwApdexT = csApdexT s, hwTimingDetail = csTimingDetail s,
                      hwCounts = csCounts s, hwWindow = w\<rparr>,
                     st\<lparr>wsStates := AList.update key state (wsStates st)\<rparr>)))))"

text \<open>The second half, under the store's lock.\<close>

definition acceptAppend :: "string \<Rightarrow> MetricHistoryWindow \<Rightarrow> WindowStore \<Rightarrow> WindowStore" where
  "acceptAppend taskID hw st = st\<lparr>wsPending := (wsPending st)(taskID := wsPending st taskID @ [hw])\<rparr>"

definition AcceptWithDrops ::
  "'sk sketchLib \<Rightarrow> int \<Rightarrow> StressReport \<Rightarrow> string \<Rightarrow> int \<Rightarrow> int \<Rightarrow> int \<Rightarrow> WindowStore
     \<Rightarrow> (accept_err + accept_status) \<times> WindowStore" where
  "AcceptWithDrops L now report expectedTaskID expectedEvery expectedApdexT droppedIntervals st =
     (case acceptCommit L now report expectedTaskID expectedEvery expectedApdexT droppedIntervals st of
        Inl e \<Rightarrow> (Inl e, st)
      | Inr (r, None) \<Rightarrow> (Inr r, st)
      | Inr (r, Some (hw, st')) \<Rightarrow> (Inr r, acceptAppend (srTaskID report) hw st'))"

definition WindowAccept where
  "WindowAccept L now report expectedTaskID expectedEvery expectedApdexT =
     AcceptWithDrops L now report expectedTaskID expectedEvery expectedApdexT 0"

definition PendingHistoryCount :: "WindowStore \<Rightarrow> string \<Rightarrow> nat" where
  "PendingHistoryCount st taskID =
     length (wsPending st taskID) + (case wsInFlight st taskID of None \<Rightarrow> 0 | Some b \<Rightarrow> length (hbWindows b))"

text \<open>
  The token: the range of sequence numbers of every agent, the agents in byte order, hashed.
  \<open>H\<close> is SHA-256.
\<close>

definition seqRange :: "MetricHistoryWindow list \<Rightarrow> string \<Rightarrow> int \<times> int" where
  "seqRange ws agent =
     (let qs = map (rwSequence \<circ> hwWindow) (filter (\<lambda>w. hwAgentID w = agent) ws)
      in (foldl min (hd qs) qs, foldl max (hd qs) qs))"

definition be64 :: "int \<Rightarrow> nat list" where
  "be64 x = map (\<lambda>i. nat (x div 2 ^ (8 * (7 - i)) mod 256)) [0, 1, 2, 3, 4, 5, 6, 7]"

definition metricHistoryBatchToken :: "(nat list \<Rightarrow> nat list) \<Rightarrow> MetricHistoryWindow list \<Rightarrow> nat list" where
  "metricHistoryBatchToken H ws =
     H (concat (map (\<lambda>agent. map of_char agent @ [0] @ be64 (fst (seqRange ws agent)) @ be64 (snd (seqRange ws agent)))
          (sort (remdups (map hwAgentID ws)))))"

definition PeekHistory ::
  "(nat list \<Rightarrow> nat list) \<Rightarrow> string \<Rightarrow> WindowStore \<Rightarrow> MetricHistoryBatch option \<times> WindowStore" where
  "PeekHistory H taskID st =
     (case wsInFlight st taskID of
        Some b \<Rightarrow> (Some b, st)
      | None \<Rightarrow>
          if wsPending st taskID = [] then (None, st)
          else let b = \<lparr>hbToken = metricHistoryBatchToken H (wsPending st taskID), hbWindows = wsPending st taskID\<rparr>
               in (Some b, st\<lparr>wsPending := (wsPending st)(taskID := []), wsInFlight := (wsInFlight st)(taskID \<mapsto> b)\<rparr>))"

definition dropTaskLocked :: "string \<Rightarrow> WindowStore \<Rightarrow> WindowStore" where
  "dropTaskLocked taskID st =
     \<lparr>wsStates = filter (\<lambda>(k, _). fst k \<noteq> taskID) (wsStates st), wsPending = (wsPending st)(taskID := []),
      wsInFlight = (wsInFlight st)(taskID := None), wsTerminal = wsTerminal st - {taskID}\<rparr>"

definition cleanupTerminalTaskLocked :: "string \<Rightarrow> WindowStore \<Rightarrow> WindowStore" where
  "cleanupTerminalTaskLocked taskID st =
     (if taskID \<notin> wsTerminal st \<or> wsPending st taskID \<noteq> [] \<or> wsInFlight st taskID \<noteq> None then st
      else dropTaskLocked taskID st)"

definition AckHistory :: "string \<Rightarrow> nat list \<Rightarrow> WindowStore \<Rightarrow> bool \<times> WindowStore" where
  "AckHistory taskID token st =
     (case wsInFlight st taskID of
        None \<Rightarrow> (False, st)
      | Some b \<Rightarrow>
          if hbToken b \<noteq> token then (False, st)
          else (True, cleanupTerminalTaskLocked taskID (st\<lparr>wsInFlight := (wsInFlight st)(taskID := None)\<rparr>)))"

definition MarkTaskTerminal :: "string \<Rightarrow> WindowStore \<Rightarrow> WindowStore" where
  "MarkTaskTerminal taskID st = cleanupTerminalTaskLocked taskID (st\<lparr>wsTerminal := insert taskID (wsTerminal st)\<rparr>)"

definition DropTask :: "string \<Rightarrow> WindowStore \<Rightarrow> WindowStore" where
  "DropTask = dropTaskLocked"

definition AgentState :: "WindowStore \<Rightarrow> string \<Rightarrow> string \<Rightarrow> AgentMetricState option" where
  "AgentState st taskID agentID = map_of (wsStates st) (taskID, agentID)"

definition StatesOf :: "WindowStore \<Rightarrow> string \<Rightarrow> AgentMetricState list" where
  "StatesOf st taskID = map snd (filter (\<lambda>(k, _). fst k = taskID) (wsStates st))"

end
