(* ===== verification/WindowDelivery.thy ===== *)
theory WindowDelivery
  imports WindowStore "HOL-Library.Multiset"
begin

text \<open>
  Every accepted window is archived exactly once: the calls of the metrics service, the sampler and the
  task service interleave under the store's locks.  An accept is two steps, because
  \<open>AcceptWithDrops\<close> releases the shard's lock before it takes the store's.
\<close>

text \<open>
  Ghost components: \<open>committed\<close> lists what was accepted for a task, \<open>acked\<close> what its archive confirmed,
  \<open>discarded\<close> what \<open>DropTask\<close> threw away, \<open>releases\<close> how often the task's states were released;
  \<open>appending\<close> are the accepts between their two steps.
\<close>

record wsys =
  store :: WindowStore
  appending :: "(string \<times> MetricHistoryWindow) list"
  committed :: "string \<Rightarrow> MetricHistoryWindow list"
  acked :: "string \<Rightarrow> MetricHistoryWindow list"
  discarded :: "string \<Rightarrow> MetricHistoryWindow list"
  releases :: "string \<Rightarrow> nat"

definition wsys_init :: wsys where
  "wsys_init = \<lparr>store = NewWindowStore, appending = [], committed = (\<lambda>_. []), acked = (\<lambda>_. []),
                discarded = (\<lambda>_. []), releases = (\<lambda>_. 0)\<rparr>"

definition flying :: "WindowStore \<Rightarrow> string \<Rightarrow> MetricHistoryWindow list" where
  "flying st t = (case wsInFlight st t of None \<Rightarrow> [] | Some b \<Rightarrow> hbWindows b)"

definition released :: "string \<Rightarrow> WindowStore \<Rightarrow> bool" where
  "released t st \<longleftrightarrow> t \<in> wsTerminal st \<and> wsPending st t = [] \<and> wsInFlight st t = None"

definition note_release :: "bool \<Rightarrow> string \<Rightarrow> wsys \<Rightarrow> wsys" where
  "note_release b t s = (if b then s\<lparr>releases := (releases s)(t := releases s t + 1)\<rparr> else s)"

inductive wstep :: "'sk sketchLib \<Rightarrow> (nat list \<Rightarrow> nat list) \<Rightarrow> wsys \<Rightarrow> wsys \<Rightarrow> bool"
  for L :: "'sk sketchLib" and H :: "nat list \<Rightarrow> nat list" where
  commit: "acceptCommit L now rep t every apdex dropped_n (store s) = Inr (WindowAccepted, Some (hw, st')) \<Longrightarrow>
     wstep L H s (s\<lparr>store := st', appending := appending s @ [(t, hw)],
                   committed := (committed s)(t := committed s t @ [hw])\<rparr>)"
| append: "appending s = xs @ (t, hw) # ys \<Longrightarrow>
     wstep L H s (s\<lparr>store := acceptAppend t hw (store s), appending := xs @ ys\<rparr>)"
| peek: "wstep L H s (s\<lparr>store := snd (PeekHistory H t (store s))\<rparr>)"
| ack: "AckHistory t token (store s) = (True, st') \<Longrightarrow>
     wstep L H s (note_release (t \<in> wsTerminal (store s) \<and> wsPending (store s) t = []) t
       (s\<lparr>store := st', acked := (acked s)(t := acked s t @ flying (store s) t)\<rparr>))"
| nack: "AckHistory t token (store s) = (False, st') \<Longrightarrow> wstep L H s (s\<lparr>store := st'\<rparr>)"
| terminal: "wstep L H s (note_release (wsPending (store s) t = [] \<and> wsInFlight (store s) t = None) t
       (s\<lparr>store := MarkTaskTerminal t (store s)\<rparr>))"
| discard: "wstep L H s (note_release True t
       (s\<lparr>store := DropTask t (store s),
         discarded := (discarded s)(t := discarded s t @ wsPending (store s) t @ flying (store s) t)\<rparr>))"

inductive_cases wstep_cases: "wstep L H s s'"

subsection \<open>Conservation\<close>

definition places :: "wsys \<Rightarrow> string \<Rightarrow> MetricHistoryWindow multiset" where
  "places s t = mset (acked s t) + mset (flying (store s) t) + mset (wsPending (store s) t) +
     mset (map snd (filter (\<lambda>x. fst x = t) (appending s))) + mset (discarded s t)"

lemma cleanup_places [simp]:
  "wsPending (cleanupTerminalTaskLocked t st) = wsPending st" "flying (cleanupTerminalTaskLocked t st) = flying st"
  by (auto simp: cleanupTerminalTaskLocked_def dropTaskLocked_def flying_def fun_eq_iff)

lemma commit_store:
  assumes "acceptCommit L now rep t every apdex d st = Inr (r, Some (hw, st'))"
  shows "st' = st\<lparr>wsStates := wsStates st'\<rparr>" "srTaskID rep = t"
  using assms by (auto simp: acceptCommit_def Let_def split: if_splits option.splits)

lemma note_release_simps [simp]:
  "store (note_release b t s) = store s" "appending (note_release b t s) = appending s"
  "committed (note_release b t s) = committed s" "acked (note_release b t s) = acked s"
  "discarded (note_release b t s) = discarded s"
  by (simp_all add: note_release_def)

lemma wstep_places:
  assumes "wstep L H s s'" and "\<And>t. mset (committed s t) = places s t"
  shows "mset (committed s' t') = places s' t'"
  using assms(1)
proof cases
  case (commit now rep t every apdex d hw st')
  obtain x where "st' = (store s)\<lparr>wsStates := x\<rparr>"
    using commit_store(1) [OF commit(2)] by blast
  then have "wsPending st' = wsPending (store s)" "flying st' = flying (store s)"
    by (simp_all add: flying_def fun_eq_iff)
  then show ?thesis using assms(2) [of t'] assms(2) [of t] by (simp add: commit(1) places_def)
next
  case (append xs t hw ys)
  then show ?thesis using assms(2) [of t'] by (auto simp: places_def acceptAppend_def flying_def ac_simps)
next
  case (peek t)
  then show ?thesis using assms(2) [of t']
    by (auto simp: places_def PeekHistory_def flying_def Let_def split: option.splits)
next
  case (ack t token st')
  have "wsInFlight (store s) t \<noteq> None" "st' = cleanupTerminalTaskLocked t ((store s)\<lparr>wsInFlight := (wsInFlight (store s))(t := None)\<rparr>)"
    using ack(2) by (auto simp: AckHistory_def split: option.splits if_splits)
  then show ?thesis using assms(2) [of t'] by (auto simp: ack(1) places_def flying_def ac_simps)
next
  case (nack t token st')
  then show ?thesis using assms(2) [of t'] by (auto simp: AckHistory_def places_def split: option.splits if_splits)
next
  case (terminal t)
  then show ?thesis using assms(2) [of t'] by (auto simp: MarkTaskTerminal_def places_def flying_def)
next
  case (discard t)
  then show ?thesis using assms(2) [of t'] by (auto simp: DropTask_def dropTaskLocked_def places_def flying_def ac_simps)
qed

subsection \<open>Sequence numbers\<close>

definition seqsOf :: "wsys \<Rightarrow> string \<Rightarrow> string \<Rightarrow> int list" where
  "seqsOf s t a = map (rwSequence \<circ> hwWindow) (filter (\<lambda>w. hwAgentID w = a) (committed s t))"

text \<open>As long as the states of a task were not released, an agent's accepted numbers increase up to \<open>LastSequence\<close>.\<close>

definition seqs_ok :: "wsys \<Rightarrow> bool" where
  "seqs_ok s \<longleftrightarrow> (\<forall>t a. releases s t = 0 \<longrightarrow>
     sorted_wrt (<) (seqsOf s t a) \<and>
     (case map_of (wsStates (store s)) (t, a) of
        None \<Rightarrow> seqsOf s t a = []
      | Some p \<Rightarrow> seqsOf s t a \<noteq> [] \<and> last (seqsOf s t a) = amsLastSequence p))"

lemma commit_seq:
  assumes "acceptCommit L now rep t every apdex d st = Inr (r, Some (hw, st'))"
  obtains p where "wsStates st' = AList.update (t, hwAgentID hw) p (wsStates st)" "amsLastSequence p = rwSequence (hwWindow hw)"
    "case map_of (wsStates st) (t, hwAgentID hw) of None \<Rightarrow> True | Some q \<Rightarrow> amsLastSequence q < rwSequence (hwWindow hw)"
  using assms by (fastforce simp: acceptCommit_def Let_def split: if_splits option.splits)

lemma filter_states: "map_of (filter (\<lambda>(k, _). fst k \<noteq> t) xs) k = (if fst k = t then None else map_of xs k)"
  by (induction xs) auto

lemma cleanup_states:
  "released t' st \<or> t \<noteq> t' \<Longrightarrow> \<not> released t st \<Longrightarrow> map_of (wsStates (cleanupTerminalTaskLocked t' st)) (t, a) = map_of (wsStates st) (t, a)"
  by (auto simp: cleanupTerminalTaskLocked_def dropTaskLocked_def filter_states released_def)

lemma cleanup_keep: "\<not> released t st \<Longrightarrow> cleanupTerminalTaskLocked t st = st"
  by (auto simp: cleanupTerminalTaskLocked_def released_def)

lemma cleanup_other: "t \<noteq> t' \<Longrightarrow> map_of (wsStates (cleanupTerminalTaskLocked t' st)) (t, a) = map_of (wsStates st) (t, a)"
  by (auto simp: cleanupTerminalTaskLocked_def dropTaskLocked_def filter_states)

lemma seqs_ok_frame:
  assumes "seqs_ok s" and "committed s' = committed s"
    and "\<And>t. releases s' t = 0 \<Longrightarrow> releases s t = 0 \<and> (\<forall>a. map_of (wsStates (store s')) (t, a) = map_of (wsStates (store s)) (t, a))"
  shows "seqs_ok s'"
proof -
  have "seqsOf s' = seqsOf s" by (simp add: seqsOf_def assms(2) fun_eq_iff)
  then show ?thesis using assms(1,3) unfolding seqs_ok_def by presburger
qed

lemma sorted_last: "sorted_wrt (<) xs \<Longrightarrow> x \<in> set xs \<Longrightarrow> x \<le> last (xs :: int list)"
  by (induction xs rule: rev_induct) (auto simp: sorted_wrt_append less_imp_le)

lemma wstep_seqs:
  assumes "wstep L H s s'" and I: "seqs_ok s"
  shows "seqs_ok s'"
  using assms(1)
proof cases
  case (commit now rep t every apdex d hw st')
  obtain p where p: "wsStates st' = AList.update (t, hwAgentID hw) p (wsStates (store s))"
    "amsLastSequence p = rwSequence (hwWindow hw)"
    "case map_of (wsStates (store s)) (t, hwAgentID hw) of None \<Rightarrow> True | Some q \<Rightarrow> amsLastSequence q < rwSequence (hwWindow hw)"
    by (rule commit_seq [OF commit(2)])
  have st: "store s' = st'" by (simp add: commit(1))
  show ?thesis
    unfolding seqs_ok_def
  proof (intro allI impI)
    fix t' a assume r: "releases s' t' = 0"
    have old: "sorted_wrt (<) (seqsOf s t' a)" "case map_of (wsStates (store s)) (t', a) of
        None \<Rightarrow> seqsOf s t' a = [] | Some p \<Rightarrow> seqsOf s t' a \<noteq> [] \<and> last (seqsOf s t' a) = amsLastSequence p"
      using I r by (auto simp: seqs_ok_def commit(1))
    show "sorted_wrt (<) (seqsOf s' t' a) \<and> (case map_of (wsStates (store s')) (t', a) of
        None \<Rightarrow> seqsOf s' t' a = [] | Some p \<Rightarrow> seqsOf s' t' a \<noteq> [] \<and> last (seqsOf s' t' a) = amsLastSequence p)"
    proof (cases "t' = t \<and> a = hwAgentID hw")
      case True
      have s': "seqsOf s' t' a = seqsOf s t' a @ [rwSequence (hwWindow hw)]"
        using True by (simp add: seqsOf_def commit(1))
      have "x < rwSequence (hwWindow hw)" if mem: "x \<in> set (seqsOf s t' a)" for x
      proof -
        obtain q where q: "map_of (wsStates (store s)) (t', a) = Some q" "last (seqsOf s t' a) = amsLastSequence q"
        proof (cases "map_of (wsStates (store s)) (t', a)")
          case None
          then have "seqsOf s t' a = []" using old(2) by simp
          then show ?thesis using mem by simp
        next
          case (Some q)
          then show ?thesis using old(2) by (intro that) simp_all
        qed
        have "x \<le> last (seqsOf s t' a)"
          by (rule sorted_last [OF old(1) mem])
        then show ?thesis using q p(3) True by auto
      qed
      then show ?thesis
        using old(1) True unfolding s' st by (simp add: sorted_wrt_append p AList.update_conv')
    next
      case False
      have 1: "seqsOf s' t' a = seqsOf s t' a" using False by (auto simp: seqsOf_def commit(1))
      have 2: "map_of (wsStates (store s')) (t', a) = map_of (wsStates (store s)) (t', a)"
        using False by (auto simp: p(1) st AList.update_conv')
      show ?thesis unfolding 1 2 using old by (rule conjI)
    qed
  qed
next
  case (append xs t hw ys)
  then show ?thesis by (auto intro: seqs_ok_frame [OF I] simp: acceptAppend_def)
next
  case (peek t)
  then show ?thesis by (auto intro!: seqs_ok_frame [OF I] simp: PeekHistory_def Let_def split: option.splits)
next
  case (ack t token st')
  have st': "st' = cleanupTerminalTaskLocked t ((store s)\<lparr>wsInFlight := (wsInFlight (store s))(t := None)\<rparr>)"
    using ack(2) by (auto simp: AckHistory_def split: option.splits if_splits)
  show ?thesis
  proof (rule seqs_ok_frame [OF I])
    fix t' assume r: "releases s' t' = 0"
    show "releases s t' = 0 \<and> (\<forall>a. map_of (wsStates (store s')) (t', a) = map_of (wsStates (store s)) (t', a))"
    proof (cases "t' = t")
      case True
      then have "\<not> released t ((store s)\<lparr>wsInFlight := (wsInFlight (store s))(t := None)\<rparr>)"
        using r by (auto simp: ack(1) note_release_def released_def split: if_splits)
      then show ?thesis using r True by (simp add: ack(1) st' cleanup_keep note_release_def split: if_splits)
    next
      case False
      then show ?thesis using r by (auto simp: ack(1) st' cleanup_other note_release_def split: if_splits)
    qed
  qed (simp add: ack(1))
next
  case (nack t token st')
  then show ?thesis by (auto intro!: seqs_ok_frame [OF I] simp: AckHistory_def split: option.splits if_splits)
next
  case (terminal t)
  show ?thesis
  proof (rule seqs_ok_frame [OF I])
    fix t' assume r: "releases s' t' = 0"
    show "releases s t' = 0 \<and> (\<forall>a. map_of (wsStates (store s')) (t', a) = map_of (wsStates (store s)) (t', a))"
    proof (cases "t' = t")
      case True
      then have "\<not> released t ((store s)\<lparr>wsTerminal := insert t (wsTerminal (store s))\<rparr>)"
        using r by (auto simp: terminal note_release_def released_def split: if_splits)
      then show ?thesis using r True by (simp add: terminal MarkTaskTerminal_def cleanup_keep note_release_def split: if_splits)
    next
      case False
      then show ?thesis using r by (auto simp: terminal MarkTaskTerminal_def cleanup_other note_release_def split: if_splits)
    qed
  qed (simp add: terminal)
next
  case (discard t)
  then show ?thesis
    by (auto intro!: seqs_ok_frame [OF I] simp: DropTask_def dropTaskLocked_def filter_states note_release_def split: if_splits)
qed

subsection \<open>A report for the witnesses\<close>

definition idleReport :: "int \<Rightarrow> StressReport" where
  "idleReport n = \<lparr>srAgentID = ''a'', srTaskID = ''t'', srReportedAt = 0,
     srSnapshot = Some (zeroCollectorSnapshot\<lparr>csCollectionEpoch := 1, csTimingDetail := ''rtt'', csApdexT := 100,
       csWindow := Some (zeroWindow\<lparr>rwSequence := n, rwEndedAt := 1000000000, rwDurationSeconds := Fin 1,
         rwExpectedIntervalSeconds := Fin 1\<rparr>)\<rparr>)\<rparr>"

lemma rnd_1: "rnd 1 = 1"
  using rnd_of_int [of 1] by simp

lemma one_second: "dur_Seconds 1000000000 = Fin 1"
  by (simp add: dur_Seconds_def f64_of_int_small round64_small rnd_1 signed_divide_int_def signed_modulo_int_def)

lemma millisecond_pos: "\<not> flt millisecond (Fin 0)"
  by (simp add: millisecond_def round64_small not_less rnd_nonneg)

lemma validDerivedValue_0: "validDerivedValue (Fin 0) (Fin 0)"
  by (simp add: validDerivedValue_def finiteNonNegative_def fle_def fsub_def round64_small fmax_def tiny_def)

lemma idleReport_accepted:
  "\<exists>hw st. acceptCommit lastSketch 0 (idleReport 1) ''t'' 1000000000 100000000 0 NewWindowStore
     = Inr (WindowAccepted, Some (hw, st)) \<and> hwAgentID hw = ''a''"
  by (simp add: acceptCommit_def idleReport_def validateMetricReport_def NewWindowStore_def zeroCollectorSnapshot_def
      zeroWindow_def time_sub_def one_second millisecond_pos validDerivedValue_0 go_div_def wrap64_def
      signed_divide_int_def fsub_def round64_small allGCounters_def mbps_def f64_of_int_small totalActionSamples_def
      wsum_def zeroSummary_def)

subsection \<open>Exactly once\<close>

lemma wstep_reach:
  assumes "(wstep L H)\<^sup>*\<^sup>* wsys_init s"
  shows "seqs_ok s \<and> (\<forall>t. mset (committed s t) = places s t)"
  using assms
proof (induction rule: rtranclp_induct)
  case base
  show ?case by (simp add: seqs_ok_def seqsOf_def places_def wsys_init_def NewWindowStore_def flying_def)
next
  case (step s s')
  then show ?case using wstep_seqs wstep_places by metis
qed

lemma distinct_by_agent:
  assumes "\<And>a. sorted_wrt (<) (map (rwSequence \<circ> hwWindow) (filter (\<lambda>w. hwAgentID w = a) ws) :: int list)"
  shows "distinct (map (\<lambda>w. (hwAgentID w, rwSequence (hwWindow w))) ws)"
  using assms
proof (induction ws)
  case (Cons w ws)
  have "distinct (map (\<lambda>w. (hwAgentID w, rwSequence (hwWindow w))) ws)"
  proof (rule Cons.IH)
    fix a show "sorted_wrt (<) (map (rwSequence \<circ> hwWindow) (filter (\<lambda>w. hwAgentID w = a) ws))"
      using Cons.prems [of a] by (auto simp: comp_def split: if_splits)
  qed
  moreover have "(hwAgentID w, rwSequence (hwWindow w)) \<noteq> (hwAgentID v, rwSequence (hwWindow v))" if "v \<in> set ws" for v
    using Cons.prems [of "hwAgentID w"] that by auto
  ultimately show ?case by auto
qed simp

text \<open>
  C33. Every accepted metrics window is in exactly one place: it waits to be appended, or is pending,
  in flight, confirmed by the archive or thrown away by \<open>DropTask\<close>; as long as the states of the task were
  not released, no sequence number of an agent was accepted twice, whatever calls of the metrics service,
  the sampler and the task service interleave.
\<close>

theorem window_exactly_once:
  assumes "(wstep L H)\<^sup>*\<^sup>* wsys_init s"
  shows "mset (committed s t) = mset (acked s t) + mset (flying (store s) t) + mset (wsPending (store s) t) +
           mset (map snd (filter (\<lambda>x. fst x = t) (appending s))) + mset (discarded s t) \<and>
         (releases s t = 0 \<longrightarrow> distinct (map (\<lambda>w. (hwAgentID w, rwSequence (hwWindow w))) (committed s t)))"
  using wstep_reach [OF assms] distinct_by_agent [of "committed s t"]
  by (auto simp: places_def seqs_ok_def seqsOf_def)

theorem window_exactly_once_witness:
  "\<exists>s hw. (wstep lastSketch id)\<^sup>*\<^sup>* wsys_init s \<and> committed s ''t'' = [hw] \<and>
     mset (committed s ''t'') = mset (acked s ''t'') + mset (flying (store s) ''t'') + mset (wsPending (store s) ''t'') +
           mset (map snd (filter (\<lambda>x. fst x = ''t'') (appending s))) + mset (discarded s ''t'')"
proof -
  obtain hw st where c: "acceptCommit lastSketch 0 (idleReport 1) ''t'' 1000000000 100000000 0 (store wsys_init)
     = Inr (WindowAccepted, Some (hw, st))"
    using idleReport_accepted by (auto simp: wsys_init_def)
  let ?s = "wsys_init\<lparr>store := st, appending := appending wsys_init @ [(''t'', hw)],
      committed := (committed wsys_init)(''t'' := committed wsys_init ''t'' @ [hw])\<rparr>"
  have "(wstep lastSketch id)\<^sup>*\<^sup>* wsys_init ?s"
    using wstep.commit [OF c, of id] by (rule r_into_rtranclp)
  moreover have "committed ?s ''t'' = [hw]" by (simp add: wsys_init_def)
  ultimately show ?thesis using window_exactly_once by blast
qed

text \<open>
  C39. The batch handed to the archive stays the same until it is acknowledged with its own token: a
  second \<open>PeekHistory\<close> returns it again, an acknowledgement with another token changes nothing.
\<close>

theorem batch_stays_until_acked:
  assumes "PeekHistory H t st = (Some b, st1)"
  shows "PeekHistory H t (acceptAppend t hw st1) = (Some b, acceptAppend t hw st1) \<and>
    (token \<noteq> hbToken b \<longrightarrow> AckHistory t token st1 = (False, st1)) \<and> fst (AckHistory t (hbToken b) st1)"
  using assms by (auto simp: PeekHistory_def AckHistory_def acceptAppend_def Let_def split: option.splits if_splits)

theorem batch_stays_until_acked_witness:
  "\<exists>hw b st1. PeekHistory id ''t'' (acceptAppend ''t'' hw NewWindowStore) = (Some b, st1) \<and>
     fst (AckHistory ''t'' (hbToken b) st1)"
proof -
  fix hw
  obtain b st1 where "PeekHistory id ''t'' (acceptAppend ''t'' hw NewWindowStore) = (Some b, st1)"
    by (simp add: PeekHistory_def acceptAppend_def NewWindowStore_def Let_def)
  with batch_stays_until_acked [OF this] show ?thesis by blast
qed

subsection \<open>A task that ends between the two halves of an accept\<close>

text \<open>
  The two halves of an accept are not atomic: when the task is marked terminal in between, its states
  are released, the late window becomes pending history of a task nobody will release again, and the
  same report is accepted a second time.
\<close>

theorem terminal_between_accept_halves:
  assumes "acceptCommit L now rep t every apdex d st = Inr (WindowAccepted, Some (hw, st1))"
    and "wsPending st t = []" and "wsInFlight st t = None"
    and "st2 = acceptAppend t hw (MarkTaskTerminal t st1)"
  shows "wsPending st2 t = [hw] \<and> t \<notin> wsTerminal st2 \<and> AgentState st2 t (hwAgentID hw) = None \<and>
    (\<exists>st3. acceptCommit L now rep t every apdex d st2 = Inr (WindowAccepted, Some (hw, st3)))"
proof -
  obtain x where x: "st1 = st\<lparr>wsStates := x\<rparr>" using commit_store(1) [OF assms(1)] by blast
  have st2: "st2 = acceptAppend t hw (dropTaskLocked t (st1\<lparr>wsTerminal := insert t (wsTerminal st1)\<rparr>))"
    using assms(2,3) by (simp add: assms(4) MarkTaskTerminal_def cleanupTerminalTaskLocked_def x)
  have none: "map_of (wsStates st2) (t, a) = None" for a
    by (simp add: st2 acceptAppend_def dropTaskLocked_def filter_states)
  have t: "srTaskID rep = t" by (rule commit_store(2) [OF assms(1)])
  have "\<exists>st3. acceptCommit L now rep t every apdex d st2 = Inr (WindowAccepted, Some (hw, st3))"
    using assms(1) none [of "srAgentID rep"] t
    by (auto simp: acceptCommit_def Let_def split: if_splits option.splits)
  then show ?thesis
    using none by (simp add: AgentState_def) (simp add: st2 acceptAppend_def dropTaskLocked_def)
qed

theorem terminal_between_accept_halves_witness:
  "\<exists>hw st1 st2. acceptCommit lastSketch 0 (idleReport 1) ''t'' 1000000000 100000000 0 NewWindowStore = Inr (WindowAccepted, Some (hw, st1)) \<and>
     st2 = acceptAppend ''t'' hw (MarkTaskTerminal ''t'' st1) \<and> wsPending st2 ''t'' = [hw] \<and> AgentState st2 ''t'' ''a'' = None"
proof -
  obtain hw st1 where c: "acceptCommit lastSketch 0 (idleReport 1) ''t'' 1000000000 100000000 0 NewWindowStore
     = Inr (WindowAccepted, Some (hw, st1))" and a: "hwAgentID hw = ''a''"
    using idleReport_accepted by blast
  from terminal_between_accept_halves [OF c _ _ refl] a show ?thesis
    using c by (auto simp: NewWindowStore_def)
qed

end
