(* ===== verification/SampleCounts.thy ===== *)
theory SampleCounts
  imports MetricsRun
begin

text \<open>
  The number of samples in the distributions of a collector.  While fewer than \<open>2 ^ 53\<close> samples have been
  recorded no counter wraps and the sketches count exactly: each distribution's counter is the number of
  values in its sketch, and the Apdex counters classify at most the recorded response times.
\<close>

subsection \<open>What the sketches promise\<close>

text \<open>
  \<open>N s\<close> is the number of values in \<open>s\<close>.  An addition adds one, encoding and decoding keep the number, and
  \<open>GetCount\<close>, a sum of floating point bin counts, is exact below \<open>2 ^ 53\<close>.
\<close>

definition countingSketch :: "'sk sketchLib \<Rightarrow> ('sk \<Rightarrow> nat) \<Rightarrow> bool" where
  "countingSketch L N \<longleftrightarrow>
     (\<forall>r b s. skNew L r b = Some s \<longrightarrow> N s = 0) \<and> (\<forall>s v s'. skAdd L s v = Some s' \<longrightarrow> N s' = N s + 1) \<and>
     (\<forall>s d. skDecode L (skEncode L s) = Some d \<longrightarrow> N d = N s) \<and>
     (\<forall>s. N s < 2 ^ 53 \<longrightarrow> skCount L s = Fin (of_nat (N s)))"

definition hist_samples :: "('sk \<Rightarrow> nat) \<Rightarrow> nat \<Rightarrow> 'sk LatencyHistogram \<Rightarrow> bool" where
  "hist_samples N K h \<longleftrightarrow> hCount h = int (N (sketch h)) \<and> N (sketch h) \<le> K"

definition am_samples :: "('sk \<Rightarrow> nat) \<Rightarrow> nat \<Rightarrow> 'sk actionMetrics \<Rightarrow> bool" where
  "am_samples N K am \<longleftrightarrow>
     hist_samples N K (rtt am) \<and> hist_samples N K (listenWait am) \<and> hist_samples N K (totalDuration am) \<and>
     0 \<le> amCount am apdexSatisfied \<and> 0 \<le> amCount am apdexTolerating \<and>
     amCount am apdexSatisfied + amCount am apdexTolerating \<le> hCount (rtt am)"

lemma hist_samples_mono: "hist_samples N K h \<Longrightarrow> K \<le> K' \<Longrightarrow> hist_samples N K' h"
  by (simp add: hist_samples_def)

lemma am_samples_mono: "am_samples N K am \<Longrightarrow> K \<le> K' \<Longrightarrow> am_samples N K' am"
  by (auto simp: am_samples_def intro: hist_samples_mono)

lemma wrap64_sample: "0 \<le> a \<Longrightarrow> a \<le> int K \<Longrightarrow> Suc K < 2 ^ 53 \<Longrightarrow> wrap64 (a + 1) = a + 1"
  by (simp add: wrap64_def)

lemma Record_samples:
  assumes "countingSketch L N" and "Record L ns h = Some h'" and "hist_samples N K h" and "Suc K < 2 ^ 53"
  shows "hist_samples N (Suc K) h'" "hCount h' = hCount h + 1"
proof -
  obtain s where s: "skAdd L (sketch h) (f64_of_int ns) = Some s" "sketch h' = s" "hCount h' = wrap64 (hCount h + 1)"
    using assms(2) by (auto simp: Record_def split: if_splits option.splits)
  have "N s = N (sketch h) + 1" using assms(1) s(1) by (auto simp: countingSketch_def)
  moreover have "wrap64 (hCount h + 1) = hCount h + 1"
    using assms(3,4) by (intro wrap64_sample [of _ K]) (simp_all add: hist_samples_def)
  ultimately show "hist_samples N (Suc K) h'" "hCount h' = hCount h + 1"
    using s assms(3) by (simp_all add: hist_samples_def)
qed

subsection \<open>One block\<close>

definition apdexCounter :: "counter \<Rightarrow> bool" where
  "apdexCounter k \<longleftrightarrow> k \<in> {apdexSatisfied, apdexTolerating}"

lemma am_samples_bump [simp]:
  "\<not> apdexCounter k \<Longrightarrow> am_samples N K (bump k n am) = am_samples N K am"
  "\<not> apdexCounter k \<Longrightarrow> am_samples N K (bump_pos k n am) = am_samples N K am"
  by (auto simp: am_samples_def bump_def bump_pos_def apdexCounter_def)

lemma am_samples_other [simp]:
  "hist_samples N K h \<Longrightarrow> am_samples N K am \<Longrightarrow> am_samples N K (am\<lparr>listenWait := h\<rparr>)"
  "hist_samples N K h \<Longrightarrow> am_samples N K am \<Longrightarrow> am_samples N K (am\<lparr>totalDuration := h\<rparr>)"
  "am_samples N K (am\<lparr>errBuckets := es\<rparr>) = am_samples N K am"
  by (simp_all add: am_samples_def)

lemma recordRequest_samples:
  assumes "countingSketch L N" and "am_samples N K (fst x)" and "Suc K < 2 ^ 53"
  shows "am_samples N (Suc K) (fst (recordRequest L T rq x))"
proof (cases "Record L (WireRTT rq) (rtt (fst x))")
  case None
  then show ?thesis using am_samples_mono [OF assms(2), of "Suc K"]
    by (cases x) (simp add: recordRequest_def)
next
  case (Some h)
  note R = Record_samples [OF assms(1) Some _ assms(3)]
  let ?am = "fst x"
  have I: "hist_samples N K (rtt ?am)" "0 \<le> amCount ?am apdexSatisfied" "0 \<le> amCount ?am apdexTolerating"
    "amCount ?am apdexSatisfied + amCount ?am apdexTolerating \<le> hCount (rtt ?am)" "hCount (rtt ?am) \<le> int K"
    using assms(2) by (simp_all add: am_samples_def hist_samples_def)
  define am1 where "am1 = bump rttSampleCount 1 (?am\<lparr>rtt := h\<rparr>)"
  have w: "wrap64 (amCount ?am apdexSatisfied + 1) = amCount ?am apdexSatisfied + 1"
    "wrap64 (amCount ?am apdexTolerating + 1) = amCount ?am apdexTolerating + 1"
    using I assms(3) by (auto intro: wrap64_sample [of _ K])
  have "am_samples N (Suc K) am1" "am_samples N (Suc K) (bump apdexSatisfied 1 am1)" "am_samples N (Suc K) (bump apdexTolerating 1 am1)"
    using am_samples_mono [OF assms(2), of "Suc K"] R [OF I(1)] I(2,3,4) w
    by (simp_all add: am1_def am_samples_def bump_def)
  moreover have "am_samples N (Suc K) ?am" by (rule am_samples_mono [OF assms(2)]) simp
  ultimately show ?thesis
    using Some by (cases x) (simp add: recordRequest_def Let_def am1_def)
qed

lemma recordListenWait_samples:
  assumes "countingSketch L N" and "am_samples N K (fst x)" and "Suc K < 2 ^ 53"
  shows "am_samples N (Suc K) (fst (recordListenWait L w x))"
proof (cases "Record L w (listenWait (fst x))")
  case None
  then show ?thesis using am_samples_mono [OF assms(2), of "Suc K"]
    by (cases x) (simp add: recordListenWait_def)
next
  case (Some h)
  have "hist_samples N (Suc K) h"
    using Record_samples(1) [OF assms(1) Some _ assms(3)] assms(2) by (simp add: am_samples_def)
  then show ?thesis using Some am_samples_mono [OF assms(2), of "Suc K"]
    by (cases x) (simp add: recordListenWait_def apdexCounter_def)
qed

lemma addDuration_samples: "am_samples N K (fst (addDuration st ob d x)) = am_samples N K (fst x)"
  by (cases x) (auto simp: addDuration_def apdexCounter_def)

lemma fold_addDuration: "am_samples N K (fst (fold (\<lambda>st. addDuration st ob (d st)) sts x)) = am_samples N K (fst x)"
  by (induction sts arbitrary: x) (simp_all add: addDuration_samples)

lemma recordWallClock_samples:
  assumes "countingSketch L N" and "am_samples N K (fst x)" and "Suc K < 2 ^ 53"
  shows "am_samples N (Suc K) (fst (recordWallClock L t w x))"
proof (cases x)
  case (Pair am i)
  define am1 where "am1 = bump clientCostCount 1
    (if 0 < max (wrap64 (w - wireRTTSum t)) 0 then bump clientCostSum (max (wrap64 (w - wireRTTSum t)) 0) am else am)"
  have 1: "am_samples N K am1" using assms(2) by (simp add: am1_def Pair apdexCounter_def)
  have "am_samples N (Suc K) (fst (case Record L w (totalDuration am1) of None \<Rightarrow> (am1, wrap64 (i + 1))
                | Some h \<Rightarrow> (bump totalDurationSampleCount 1 (am1\<lparr>totalDuration := h\<rparr>), i)))"
  proof (cases "Record L w (totalDuration am1)")
    case (Some h)
    have "hist_samples N (Suc K) h"
      using Record_samples(1) [OF assms(1) Some _ assms(3)] 1 by (simp add: am_samples_def)
    then show ?thesis using Some am_samples_mono [OF 1, of "Suc K"] by (simp add: apdexCounter_def)
  qed (use am_samples_mono [OF 1, of "Suc K"] in simp)
  then show ?thesis
    unfolding recordWallClock_def Pair Let_def prod.case am1_def [symmetric] fold_addDuration .
qed

lemma fold_samples:
  assumes "\<And>z x K. am_samples N K (fst x) \<Longrightarrow> Suc K < 2 ^ 53 \<Longrightarrow> am_samples N (Suc K) (fst (f z x))"
    and "am_samples N K (fst x)" and "K + length zs < 2 ^ 53"
  shows "am_samples N (K + length zs) (fst (fold f zs x))"
  using assms(2,3)
proof (induction zs arbitrary: x K)
  case (Cons z zs)
  have "am_samples N (Suc K) (fst (f z x))" using Cons.prems by (intro assms(1)) simp_all
  then show ?case using Cons.IH [of "Suc K" "f z x"] Cons.prems by simp
qed simp

lemma recordResult_kept: "am_samples N K (recordResult r w e am) = am_samples N K am"
  by (cases r) (auto simp: recordResult_def apdexCounter_def recordError_def Let_def split: action_err.splits option.splits)

text \<open>The samples an action can add.\<close>

definition timing_samples :: "ActionTiming \<Rightarrow> nat" where
  "timing_samples t = Suc (length (Requests t) + length (ListenWaits t))"

lemma recordBlock_samples:
  assumes "countingSketch L N" and "am_samples N K am" and "K + timing_samples t < 2 ^ 53"
    and "recordBlock L T r t w s v e tr (am, i) = (am', i')"
  shows "am_samples N (K + timing_samples t) am'"
proof -
  define b1 where "b1 = (if tr then bump executing (- 1) am else am, i)"
  define b2 where "b2 = (if r \<noteq> ResultCanceled \<or> 0 < w then recordWallClock L t w b1 else b1)"
  define b3 where "b3 = fold (recordRequest L T) (Requests t) b2"
  define b4 where "b4 = apfst (bump_pos rttFailedCount (FailedRequests t)) b3"
  define b5 where "b5 = fold (recordListenWait L) (ListenWaits t) b4"
  define b6 where "b6 = apfst (bump_pos listenTimeoutHits (ListenTimeouts t) \<circ> bump_pos listenReadyCount (ListenReady t)) b5"
  define b7 where "b7 = apfst (bump byteSampleCount 1 \<circ> bump_pos recvBytes v \<circ> bump_pos sendBytes s) b6"
  have K: "Suc K < 2 ^ 53" "Suc K + length (Requests t) < 2 ^ 53" "Suc K + length (Requests t) + length (ListenWaits t) < 2 ^ 53"
    using assms(3) by (simp_all add: timing_samples_def)
  have "am_samples N K (fst b1)" using assms(2) by (simp add: b1_def apdexCounter_def)
  then have "am_samples N (Suc K) (fst b2)"
    using recordWallClock_samples [OF assms(1) _ K(1), of b1 t w] am_samples_mono [of N K "fst b1" "Suc K"] by (simp add: b2_def)
  from fold_samples [where f = "recordRequest L T", OF recordRequest_samples [OF assms(1)] this K(2)]
  have "am_samples N (Suc K + length (Requests t)) (fst b3)" by (simp add: b3_def)
  then have "am_samples N (Suc K + length (Requests t)) (fst b4)" by (simp add: b4_def apdexCounter_def)
  from fold_samples [where f = "recordListenWait L", OF recordListenWait_samples [OF assms(1)] this K(3)]
  have "am_samples N (K + timing_samples t) (fst b5)" by (simp add: b5_def timing_samples_def add.assoc)
  then have "am_samples N (K + timing_samples t) (fst b7)" by (simp add: b7_def b6_def apdexCounter_def)
  moreover have "(am', i') = apfst (recordResult r w e) b7"
    using assms(4) unfolding recordBlock_def Let_def prod.case b1_def b2_def b3_def b4_def b5_def b6_def b7_def
    by (rule sym)
  then have "am' = recordResult r w e (fst b7)" by (cases b7) simp
  ultimately show ?thesis by (simp add: recordResult_kept)
qed

subsection \<open>A run\<close>

definition core_samples :: "('sk \<Rightarrow> nat) \<Rightarrow> nat \<Rightarrow> 'sk Core \<Rightarrow> bool" where
  "core_samples N K c \<longleftrightarrow> (\<forall>am \<in> ran (actions c). am_samples N K am)"

definition mc_samples :: "('sk \<Rightarrow> nat) \<Rightarrow> nat \<Rightarrow> 'sk MetricsCollector \<Rightarrow> bool" where
  "mc_samples N K mc \<longleftrightarrow> core_samples N K (core mc) \<and> core_samples N K (window mc)"

lemma core_samples_mono: "core_samples N K c \<Longrightarrow> K \<le> K' \<Longrightarrow> core_samples N K' c"
  by (auto simp: core_samples_def intro: am_samples_mono)

lemma core_samples_frame: "actions c' = actions c \<Longrightarrow> core_samples N K c' = core_samples N K c"
  by (simp add: core_samples_def)

lemma core_samples_get: "core_samples N K c \<Longrightarrow> actions c n = Some am \<Longrightarrow> am_samples N K am"
  by (auto simp: core_samples_def ran_def)

lemma core_samples_put:
  "core_samples N K c \<Longrightarrow> am_samples N K am \<Longrightarrow> core_samples N K (putAction n am c)"
  by (auto simp: core_samples_def putAction_def ran_def)

lemma getOrCreate_samples:
  assumes "countingSketch L N" and "core_samples N K c" and "getOrCreateAction L n c = Some (am, c')"
  shows "core_samples N K c'" "am_samples N K am"
proof -
  have "am_samples N K am" if "newActionMetrics L x y = Some am" for x y am
    using that assms(1)
    by (auto simp: newActionMetrics_def newLatencyHistogramWith_def am_samples_def hist_samples_def countingSketch_def split: bind_splits)
  then show "core_samples N K c'" "am_samples N K am"
    using assms(2,3) by (auto simp: getOrCreateAction_def core_samples_def ran_def split: option.splits if_splits) blast
qed

lemma coreRecordAction_samples:
  assumes "countingSketch L N" and "core_samples N K c" and "K + timing_samples t < 2 ^ 53"
    and c': "coreRecordAction L name r t w s v e tr c = Some c'"
  shows "core_samples N (K + timing_samples t) c'"
proof (cases "enabled c")
  case True
  then obtain am c1 where g1: "getOrCreateAction L name c = Some (am, c1)"
    using c' by (auto simp: coreRecordAction_def split: bind_splits)
  define c2 where "c2 = (if r \<noteq> ResultCanceled then gbump totalActions 1 c1 else c1)"
  obtain a i where b1: "recordBlock L (apdexT c2) r t w s v e tr (am, gCount c2 invalidMetricSamples) = (a, i)"
    by fastforce
  note G = getOrCreate_samples [OF assms(1,2) g1]
  have c'': "c' = putAction name a (c2\<lparr>gCount := (gCount c2)(invalidMetricSamples := i)\<rparr>)"
    using c' True g1 b1 by (simp add: coreRecordAction_def c2_def [symmetric])
  have "core_samples N K (c2\<lparr>gCount := (gCount c2)(invalidMetricSamples := i)\<rparr>)"
    using G(1) by (simp add: core_samples_def c2_def gbump_def)
  then show ?thesis
    unfolding c'' using recordBlock_samples [OF assms(1) G(2) assms(3) b1]
    by (intro core_samples_put) (auto intro: core_samples_mono)
qed (use assms core_samples_mono [of N K c] in \<open>auto simp: coreRecordAction_def\<close>)

lemma put_bump_samples:
  assumes "countingSketch L N" and "core_samples N K c" and "getOrCreateAction L n c = Some (am, c')" and "\<not> apdexCounter k"
  shows "core_samples N K (putAction n (bump k d am) c')"
  using getOrCreate_samples [OF assms(1-3)] assms(4) by (intro core_samples_put) simp_all

primrec ev_samples :: "ev \<Rightarrow> nat" where
  "ev_samples (EvAction n r t w s v e) = timing_samples t"
| "ev_samples (EvCallback n r t w s v e) = timing_samples t"
| "ev_samples (EvStart n) = 0"
| "ev_samples (EvPending n) = 0"
| "ev_samples (EvBandwidth s v) = 0"
| "ev_samples (EvLife h) = 0"
| "ev_samples (EvRampUp a b) = 0"
| "ev_samples (EvApdexT t) = 0"
| "ev_samples (EvReset now) = 0"
| "ev_samples (EvReport e1 e2 meta) = 0"

lemma fold_gbump_actions: "actions (fold (\<lambda>(k, n). gbump k n) ds c) = actions c"
  by (induction ds arbitrary: c) (auto simp: gbump_def)

lemma hook_samples: "mc_samples N K (hook ds mc) = mc_samples N K mc"
  by (simp add: mc_samples_def hook_def core_samples_def fold_gbump_actions)

lemma recordAction_samples:
  assumes "countingSketch L N" and "mc_samples N K mc" and "K + timing_samples t < 2 ^ 53"
    and "recordAction L n r t w s v e tr mc = Some mc'"
  shows "mc_samples N (K + timing_samples t) mc'"
  using assms(4) coreRecordAction_samples [OF assms(1) _ assms(3)] assms(2) core_samples_mono [of N K _ "K + timing_samples t"]
  by (auto simp: recordAction_def mc_samples_def split: bind_splits if_splits)

lemma ev_step_samples:
  assumes "countingSketch L N" and "mc_samples N K mc" and "K + ev_samples e < 2 ^ 53" and "ev_step L e (mc, rs) = Some (mc', rs')"
  shows "mc_samples N (K + ev_samples e) mc'"
proof (cases e)
  case (EvAction n r t w s v e)
  then show ?thesis using recordAction_samples [OF assms(1,2)] assms(3,4) by (auto simp: RecordAction_def)
next
  case (EvCallback n r t w s v e)
  then show ?thesis using recordAction_samples [OF assms(1,2)] assms(3,4) by (auto simp: RecordCallback_def)
next
  case (EvStart n)
  then show ?thesis using assms(2,4) put_bump_samples [OF assms(1)]
    by (auto simp: RecordActionStart_def mc_samples_def apdexCounter_def split: bind_splits if_splits)
next
  case (EvPending n)
  then show ?thesis using assms(2,4) put_bump_samples [OF assms(1)]
    by (auto simp: RecordPendingCanceled_def coreRecordPendingCanceled_def mc_samples_def apdexCounter_def split: bind_splits if_splits)
next
  case (EvBandwidth s v)
  then show ?thesis using assms(2,4)
    by (auto simp: AddBandwidth_def coreAddBandwidth_def Let_def gbump_def mc_samples_def core_samples_def split: if_splits)
next
  case (EvLife h)
  then show ?thesis using assms(2,4)
    by (cases h) (auto simp: RobotStarted_def RobotRunning_def RobotStopped_def RobotErrored_def ConnEstablished_def ConnClosed_def
      ConnFailed_def ConnDropped_def hook_samples)
next
  case (EvReset now)
  then show ?thesis using assms(4)
    by (auto simp: ResetCollector_def Let_def mc_samples_def core_samples_def newWindowCollector_def)
next
  case (EvReport e1 e2 meta)
  then show ?thesis using assms(2,4)
    by (auto simp: TakeReportSnapshot_def Let_def mc_samples_def core_samples_def newWindowCollector_def split: bind_splits if_splits)
qed (use assms(2,4) in \<open>auto simp: SetRampUpStage_def SetApdexT_def mc_samples_def core_samples_def split: if_splits\<close>)

lemma ev_run_samples:
  assumes "countingSketch L N"
  shows "mc_samples N K (fst st) \<Longrightarrow> K + sum_list (map ev_samples es) < 2 ^ 53 \<Longrightarrow> ev_run L es st = Some st' \<Longrightarrow>
    mc_samples N (K + sum_list (map ev_samples es)) (fst st')"
proof (induction es arbitrary: st K)
  case (Cons e es)
  obtain st1 where s: "ev_step L e st = Some st1" "ev_run L es st1 = Some st'"
    using Cons.prems(3) by (auto split: option.splits)
  have "mc_samples N (K + ev_samples e) (fst st1)"
    by (rule ev_step_samples [OF assms, of K "fst st" e "snd st" _ "snd st1"]) (use Cons.prems s in simp_all)
  from Cons.IH [OF this _ s(2)] Cons.prems(2) show ?case by (simp add: add.assoc)
qed simp

lemma new_samples: "mc_samples N 0 (NewCollector cfg now)"
  by (simp add: NewCollector_def Let_def mc_samples_def core_samples_def newWindowCollector_def)

end
