(* ===== verification/ReportCheck.thy ===== *)
theory ReportCheck
  imports WindowDelivery SampleCounts
begin

text \<open>
  The two ends of the metrics path together: what the agent's collector puts into a report and what the
  admin server's \<open>validateMetricReport\<close> demands of it.
\<close>

subsection \<open>The counts of a report are consistent\<close>

definition consistent :: "ActionSnapshot \<Rightarrow> bool" where
  "consistent a \<longleftrightarrow>
     asSampleCount a = wrap64 (wrap64 (asCounts a successCount + asCounts a failureCount) + asCounts a timeoutCount) \<and>
     hsCount (asRTT a) = asCounts a rttSampleCount \<and> hsCount (asListenWait a) = asCounts a listenWaitCount \<and>
     hsCount (asTotalDuration a) = asCounts a totalDurationSampleCount \<and>
     asRTTApdexSampleCount a = wrap64 (asCounts a rttSampleCount + asCounts a rttFailedCount)"

lemma HistSnapshot_count: "HistSnapshot L h = Some s \<Longrightarrow> hsCount s = hCount h"
  by (auto simp: HistSnapshot_def histogramSnapshotFromSketch_def emptyHistogram_def Let_def split: if_splits option.splits)

lemma snapshotAction_consistent:
  assumes "am_ok am" and "snapshotAction L u prev p n am = Some a"
  shows "consistent a"
proof -
  note S = snapshotAction_simps [OF assms(2)]
  note H = HistSnapshot_count [OF S(4)] HistSnapshot_count [OF S(5)] HistSnapshot_count [OF S(6)]
  show ?thesis
    using assms(1) by (simp add: consistent_def am_ok_def S(2,3,7) H sampleSum_def wrap64_add)
qed

lemma interval_consistent: "consistent a \<Longrightarrow> consistent (intervalAction d cum a)"
  by (simp add: consistent_def intervalAction_def Let_def)

lemma snapshot_consistent:
  assumes "core_inv c" "enabled c" "snapshotUnlocked L now sys prev p c = Some (s, prev')"
  shows "distinct (map asName (csActions s))" "\<And>a. a \<in> set (csActions s) \<Longrightarrow> consistent a"
proof -
  note S = snapshot_actions [OF assms]
  show "distinct (map asName (csActions s))" using assms(1) by (simp add: S(1) core_inv_def)
  fix a assume "a \<in> set (csActions s)"
  from S(3) [OF this] obtain am u q where "actions c (asName a) = Some am" "snapshotAction L u q p (asName a) am = Some a"
    by blast
  then show "consistent a" using assms(1) by (auto simp: core_inv_def intro: snapshotAction_consistent)
qed

text \<open>The errors of the checks that compare counts with each other or with the distributions.\<close>

definition countErrors :: "act_err set" where
  "countErrors = {DuplicateName, SampleMismatch, HistogramMismatch, ApdexDenominator, ApdexRaw, EmptyCarriesData,
     BadDistribution CountMismatch}"

text \<open>The distributions of an action are exact, and the Apdex counters do not exceed the response times.\<close>

definition exact_hist :: "'sk sketchLib \<Rightarrow> HistogramSnapshot \<Rightarrow> bool" where
  "exact_hist L h \<longleftrightarrow>
     (hsCount h = 0 \<longrightarrow> h = emptyHistogram) \<and>
     (\<forall>d. hsCount h \<noteq> 0 \<and> skDecode L (hsSketch h) = Some d \<longrightarrow> feq (fround (skCount L d)) (f64_of_int (hsCount h)))"

definition exact :: "'sk sketchLib \<Rightarrow> ActionSnapshot \<Rightarrow> bool" where
  "exact L a \<longleftrightarrow> consistent a \<and> exact_hist L (asRTT a) \<and> exact_hist L (asListenWait a) \<and> exact_hist L (asTotalDuration a) \<and>
     0 \<le> asCounts a apdexSatisfied \<and> 0 \<le> asCounts a apdexTolerating \<and>
     wrap64 (asCounts a apdexSatisfied + asCounts a apdexTolerating) \<le> asCounts a rttSampleCount"

lemma HistSnapshot_exact:
  assumes "countingSketch L N" and "hist_samples N K h" and "K < 2 ^ 53" and "HistSnapshot L h = Some s"
  shows "exact_hist L s"
proof (cases "hCount h = 0")
  case True
  then show ?thesis using assms(4) by (auto simp: HistSnapshot_def exact_hist_def emptyHistogram_def)
next
  case False
  then have s: "hsCount s = hCount h" "hsSketch s = skEncode L (sketch h)"
    using assms(4) by (auto simp: HistSnapshot_def histogramSnapshotFromSketch_def Let_def split: option.splits)
  have n: "hCount h = int (N (sketch h))" "N (sketch h) < 2 ^ 53"
    using assms(2,3) by (simp_all add: hist_samples_def)
  have "feq (fround (skCount L d)) (f64_of_int (hCount h))" if "skDecode L (skEncode L (sketch h)) = Some d" for d
  proof -
    have "skCount L d = Fin (of_nat (N (sketch h)))"
      using assms(1) that n(2) by (auto simp: countingSketch_def)
    moreover have "f64_of_int (hCount h) = Fin (of_nat (N (sketch h)))"
      using n by (subst f64_of_int_small) simp_all
    moreover have "\<lfloor>rat_of_nat n + 1 / 2\<rfloor> = int n" for n by linarith
    ultimately show ?thesis by simp
  qed
  then show ?thesis using False s by (simp add: exact_hist_def)
qed

lemma snapshotAction_exact:
  assumes "countingSketch L N" and "am_ok am" and "am_samples N K am" and "K < 2 ^ 53"
    and "snapshotAction L u prev p n am = Some a"
  shows "exact L a"
proof -
  note S = snapshotAction_simps [OF assms(5)]
  have "hCount (rtt am) < 2 ^ 53" using assms(3,4) by (simp add: am_samples_def hist_samples_def)
  then have "wrap64 (amCount am apdexSatisfied + amCount am apdexTolerating) = amCount am apdexSatisfied + amCount am apdexTolerating"
    using assms(3) by (intro wrap64_id) (simp add: am_samples_def is_i64_def)
  then show ?thesis
    using assms(2,3) snapshotAction_consistent [OF assms(2,5)] HistSnapshot_exact [OF assms(1) _ assms(4) S(4)]
      HistSnapshot_exact [OF assms(1) _ assms(4) S(5)] HistSnapshot_exact [OF assms(1) _ assms(4) S(6)]
    by (simp add: exact_def S(2) am_samples_def am_ok_def)
qed

lemma interval_exact: "exact L a \<Longrightarrow> exact L (intervalAction d cum a)"
  by (simp add: exact_def interval_consistent) (simp add: intervalAction_def Let_def)

lemma snapshot_exact:
  assumes "countingSketch L N" and "core_samples N K c" and "K < 2 ^ 53"
    and I: "core_inv c" "enabled c" "snapshotUnlocked L now sys prev p c = Some (s, prev')"
    and a: "a \<in> set (csActions s)"
  shows "exact L a"
proof -
  obtain am u q where "actions c (asName a) = Some am" "snapshotAction L u q p (asName a) am = Some a"
    using snapshot_actions(3) [OF I a] by blast
  then show ?thesis
    using I(1) snapshotAction_exact [OF assms(1) _ core_samples_get [OF assms(2)] assms(3)] by (auto simp: core_inv_def)
qed

lemma validateHistogram_err:
  assumes "exact_hist L h" and "validateHistogram L h = Some e"
  shows "e \<notin> countErrors"
proof (cases "hsCount h = 0")
  case True
  then show ?thesis using assms
    by (auto simp: exact_hist_def validateHistogram_def emptyHistogram_def histogramHasValue_def)
next
  case False
  have "mergeStep L h st \<noteq> Inl CountMismatch" for st
    using assms(1) False by (auto simp: mergeStep_def exact_hist_def Let_def split: option.splits)
  then have "MergeHistograms L [h] \<noteq> Inl CountMismatch"
    by (auto simp: MergeHistograms_def Let_def split: sum.splits option.splits)
  then show ?thesis using assms(2) False
    by (auto simp: validateHistogram_def countErrors_def split: if_splits sum.splits)
qed

lemma validateAction_err:
  assumes X: "exact L a" and "validateAction L a = Some e"
  shows "e \<notin> countErrors"
proof -
  have "e \<in> {NegativeCount, DerivedMismatch} \<or>
    validateHistogram L (asRTT a) = Some e \<or> validateHistogram L (asListenWait a) = Some e \<or>
    validateHistogram L (asTotalDuration a) = Some e"
    using assms by (auto simp: validateAction_def exact_def consistent_def Let_def split: if_splits option.splits)
  then show ?thesis
    using X validateHistogram_err [of L "asRTT a"] validateHistogram_err [of L "asListenWait a"]
      validateHistogram_err [of L "asTotalDuration a"]
    by (auto simp: exact_def) (auto simp: countErrors_def)
qed

lemma validateMetricActions_err:
  assumes "\<And>a. a \<in> set as \<Longrightarrow> exact L a" and "distinct (map asName as)" and "set (map asName as) \<inter> set seen = {}"
    and "validateMetricActions L as seen = Some e"
  shows "e \<notin> countErrors"
  using assms
proof (induction as arbitrary: seen)
  case (Cons a as)
  show ?case
  proof (cases "validateAction L a")
    case None
    show ?thesis
    proof (cases "asName a = []")
      case False
      then have "validateMetricActions L as (asName a # seen) = Some e" using Cons.prems None by auto
      then show ?thesis by (intro Cons.IH [of "asName a # seen"]) (use Cons.prems in auto)
    qed (use Cons.prems None in \<open>auto simp: countErrors_def\<close>)
  next
    case (Some e')
    then show ?thesis
      using Cons.prems validateAction_err [of L a] by (auto simp: countErrors_def split: if_splits)
  qed
qed simp

lemma validateMetricReport_err:
  assumes "validateMetricReport L r w every T = Some e"
  shows "e \<in> {EpochZero, BadTimingDetail, BadRange, BadDuration, BadInterval, BadApdexT, NegativeReport, BadBandwidth} \<or>
    (\<exists>x. e = CumulativeAction x \<and> validateMetricActions L (csActions r) [] = Some x) \<or>
    (\<exists>x. e = WindowAction x \<and> validateMetricActions L (rwActions w) [] = Some x) \<or>
    totalActionSamples (csActions r) \<noteq> csCounts r totalActions \<or>
    totalActionSamples (rwActions w) \<noteq> smSampleCount (rwSummary w)"
proof (cases "validateMetricActions L (csActions r) []")
  case (Some x)
  then show ?thesis using assms unfolding validateMetricReport_def
    by (simp only: option.case if_distrib [of "\<lambda>v. v = Some e"] option.inject split: if_split_asm) simp_all
next
  case None
  show ?thesis
  proof (cases "validateMetricActions L (rwActions w) []")
    case (Some x)
    then show ?thesis using assms None unfolding validateMetricReport_def
      by (simp only: option.case option.inject split: if_split_asm) simp_all
  next
    case None': None
    show ?thesis using assms None None' unfolding validateMetricReport_def
      by (simp only: option.case option.inject option.distinct split: if_split_asm) simp_all
  qed
qed

text \<open>
  C37. A report taken from a collector passes every check of the admin server that compares counts: no
  action appears twice; the samples are the successes, failures and timeouts; each distribution holds as
  many samples as its counter says, as many values as its encoded sketch, and nothing when the counter is 0;
  the Apdex denominator is right, and no more actions are satisfied or tolerating than there are response
  times; and the totals are the sums over the actions, for the cumulative part and for the window.  This
  holds while fewer than \<open>2 ^ 53\<close> samples have been recorded, with sketches that count their values.
\<close>

theorem report_counts_consistent:
  assumes "uniformAdd L" and "countingSketch L N" and "sum_list (map ev_samples es) < 2 ^ 53"
    and "ev_run L es (NewCollector cfg now, []) = Some (mc, rs)"
    and "TakeReportSnapshot L e1 e2 meta mc = Some (r, mc')" and "csWindow r = Some w"
  shows "validateMetricReport L r w every T \<notin>
    Some ` ({TotalMismatch, WindowTotalMismatch} \<union> CumulativeAction ` countErrors \<union> WindowAction ` countErrors)"
proof -
  have I: "run_inv (mc, rs)" by (rule ev_run_inv [OF assms(1) run_inv_init assms(4)])
  have inv: "core_inv (core mc)" "core_inv (window mc)" "enabled (core mc)" "enabled (window mc)"
    using I run_inv_window [OF I] by (simp_all add: run_inv_def)
  obtain cum prev interval prev' v where
    c: "snapshotUnlocked L (fst e1) (snd e1) None (Fin 0) (core mc) = Some (cum, prev)" and
    i: "snapshotUnlocked L (fst e2) (snd e2) None (Fin 0) (window mc) = Some (interval, prev')" and
    r: "r = cum\<lparr>csWindow := Some v\<rparr>" and
    v: "rwActions v = map (intervalAction (report_duration meta) (csActions cum)) (csActions interval)"
       "smSampleCount (rwSummary v) = wsum (map asSampleCount (rwActions v))"
    by (rule report_spec [OF inv assms(5)]) blast
  have w: "w = v" using assms(6) by (simp add: r)
  have "mc_samples N (sum_list (map ev_samples es)) mc"
    using ev_run_samples [OF assms(2) _ _ assms(4), of 0] new_samples [of N cfg now] assms(3) by simp
  then have n: "core_samples N (sum_list (map ev_samples es)) (core mc)" "core_samples N (sum_list (map ev_samples es)) (window mc)"
    by (simp_all add: mc_samples_def)
  note X = snapshot_exact [OF assms(2) n(1) assms(3) inv(1,3) c] and Y = snapshot_exact [OF assms(2) n(2) assms(3) inv(2,4) i]
  note C = snapshot_consistent [OF inv(1,3) c] and W = snapshot_consistent [OF inv(2,4) i]
  have total: "totalActionSamples (csActions r) = csCounts r totalActions"
    using sample_total [OF inv(1,3) c] snapshot_actions(2) [OF inv(1,3) c] by (simp add: r totalActionSamples_def)
  have wtotal: "totalActionSamples (rwActions w) = smSampleCount (rwSummary w)"
    by (simp add: w v(2) totalActionSamples_def)
  have cum: "e \<notin> countErrors" if "validateMetricActions L (csActions r) [] = Some e" for e
    by (rule validateMetricActions_err [OF _ _ _ that]) (simp_all add: r C X)
  have win: "e \<notin> countErrors" if "validateMetricActions L (rwActions w) [] = Some e" for e
    by (rule validateMetricActions_err [OF _ _ _ that]) (auto simp: w v(1) comp_def W Y interval_exact)
  show ?thesis
  proof
    assume "validateMetricReport L r w every T \<in>
      Some ` ({TotalMismatch, WindowTotalMismatch} \<union> CumulativeAction ` countErrors \<union> WindowAction ` countErrors)"
    then obtain e where e: "validateMetricReport L r w every T = Some e"
      "e \<in> {TotalMismatch, WindowTotalMismatch} \<union> CumulativeAction ` countErrors \<union> WindowAction ` countErrors"
      by blast
    show False using validateMetricReport_err [OF e(1)] e(2) cum win total wtotal by auto
  qed
qed

lemma lastSketch_counts: "countingSketch lastSketch fst"
  by (simp add: countingSketch_def lastSketch_def)

text \<open>The example run, reported once more.\<close>

lemma exampleReport:
  "\<exists>mc rs r mc' w. ev_run lastSketch exampleRun (NewCollector exampleConfig 0, []) = Some (mc, rs) \<and>
     TakeReportSnapshot lastSketch (2000000000, zeroSystem) (2000000001, zeroSystem) exampleMeta mc = Some (r, mc') \<and>
     csWindow r = Some w \<and> length (rwActions w) = 1"
  by (simp add: exampleRun_def NewCollector_def exampleConfig_def RecordPendingCanceled_def coreRecordPendingCanceled_def
      getOrCreateAction_def lastBlock_new lastBlock_simps Let_def newWindowCollector_def putAction_def bump_def
      wrap64_def TakeReportSnapshot_def snapshotUnlocked_def snapshotAction_def HistSnapshot_def BuildSnapshotSummary_def
      buildSnapshotSummary_def ActionNames_def emptyHistogram_def intervalAction_def split del: if_split)

theorem report_counts_consistent_witness:
  "\<exists>mc rs r mc' w. ev_run lastSketch exampleRun (NewCollector exampleConfig 0, []) = Some (mc, rs) \<and>
     TakeReportSnapshot lastSketch (2000000000, zeroSystem) (2000000001, zeroSystem) exampleMeta mc = Some (r, mc') \<and>
     csWindow r = Some w \<and> length (rwActions w) = 1 \<and>
     validateMetricReport lastSketch r w 1000000000 100000000 \<noteq> Some TotalMismatch"
proof -
  obtain mc rs r mc' w where M: "ev_run lastSketch exampleRun (NewCollector exampleConfig 0, []) = Some (mc, rs)"
     "TakeReportSnapshot lastSketch (2000000000, zeroSystem) (2000000001, zeroSystem) exampleMeta mc = Some (r, mc')"
     "csWindow r = Some w" and one: "length (rwActions w) = 1"
    using exampleReport by blast
  have "validateMetricReport lastSketch r w 1000000000 100000000 \<noteq> Some TotalMismatch"
    using report_counts_consistent [OF lastSketch_uniform lastSketch_counts _ M, of 1000000000 100000000]
    by (auto simp: exampleRun_def)
  then show ?thesis using M one by blast
qed

subsection \<open>A reset while an action runs\<close>

lemma validateMetricActions_None:
  "validateMetricActions L as seen = None \<Longrightarrow> a \<in> set as \<Longrightarrow> validateAction L a = None"
  by (induction as arbitrary: seen) (auto split: if_splits option.splits)

lemma negative_executing:
  assumes "a \<in> set as" and "asCounts a executing < 0"
  shows "validateMetricActions L as seen \<noteq> None"
  using assms validateMetricActions_None [of L as seen a]
  by (auto simp: validateAction_def nonNegativeCounters_def Let_def)

lemma report_executing:
  assumes I: "run_inv (mc, rs)" and T: "TakeReportSnapshot L e1 e2 meta mc = Some (r, mc')"
    and w: "csWindow r = Some w" and n: "actions (core mc) n = Some am" "amCount am executing < 0"
  shows "validateMetricReport L r w every T \<noteq> None"
proof -
  have inv: "core_inv (core mc)" "core_inv (window mc)" "enabled (core mc)" "enabled (window mc)"
    using I run_inv_window [OF I] by (simp_all add: run_inv_def)
  obtain cum prev v where
    c: "snapshotUnlocked L (fst e1) (snd e1) None (Fin 0) (core mc) = Some (cum, prev)" and r: "r = cum\<lparr>csWindow := Some v\<rparr>"
    by (rule report_spec [OF inv T]) blast
  note S = snapshot_actions [OF inv(1,3) c]
  have "n \<in> set (map asName (csActions cum))" using inv(1) n(1) by (auto simp: S(1) core_inv_def)
  then obtain a where a: "a \<in> set (csActions cum)" "asName a = n" by auto
  obtain u q where "snapshotAction L u q (Fin 0) n am = Some a" using S(3) [OF a(1)] a(2) n(1) by auto
  then have "asCounts a executing < 0" using snapshotAction_simps(2) n(2) by metis
  with a(1) show ?thesis
    using negative_executing [of a "csActions r" L "[]"] by (auto simp: r validateMetricReport_def)
qed

lemma RecordAction_executing:
  assumes "actions (core mc) n = None" and "enabled (core mc)" and "RecordAction L n r t w s v e mc = Some mc'"
  shows "\<exists>am. actions (core mc') n = Some am \<and> amCount am executing = - 1"
proof -
  obtain c where c: "coreRecordAction L n r t w s v e True (core mc) = Some c" and mc': "core mc' = c"
    using assms(2,3) by (auto simp: RecordAction_def recordAction_def split: bind_splits)
  obtain am c1 where g: "getOrCreateAction L n (core mc) = Some (am, c1)"
    using c assms(2) by (auto simp: coreRecordAction_def split: bind_splits)
  have am: "amCount am executing = 0" using getOrCreateAction_same(2) [OF g] assms(1) by (simp add: cnt_def)
  define c2 where "c2 = (if r \<noteq> ResultCanceled then gbump totalActions 1 c1 else c1)"
  obtain a i where b: "recordBlock L (apdexT c2) r t w s v e True (am, gCount c2 invalidMetricSamples) = (a, i)"
    by fastforce
  have "amCount a executing = - 1"
    using recordBlock_exec [of L "apdexT c2" r t w s v e True am "gCount c2 invalidMetricSamples"] am
    by (simp add: b exec_of_def wrap64_def)
  moreover have "actions c n = Some a"
    using c assms(2) g b by (auto simp: coreRecordAction_def c2_def [symmetric] putAction_def)
  ultimately show ?thesis by (simp add: mc')
qed

text \<open>
  When the collector is reset between the start and the end of an action, the action ends with
  \<open>executing = -1\<close> in the new generation, and the next report is refused by the admin server whatever
  else it contains, as long as nothing else starts the action.
\<close>

theorem reset_while_executing:
  assumes "uniformAdd L"
    and "ev_run L [EvStart n, EvReset t, EvAction n res ti wc sb rb er] (NewCollector cfg now, []) = Some (mc, rs)"
    and "TakeReportSnapshot L e1 e2 meta mc = Some (r, mc')" and "csWindow r = Some w"
  shows "cnt (core mc) n executing = - 1 \<and> validateMetricReport L r w every T \<noteq> None"
proof -
  have I: "run_inv (mc, rs)" by (rule ev_run_inv [OF assms(1) run_inv_init assms(2)])
  obtain mc1 where m1: "RecordActionStart L n (NewCollector cfg now) = Some mc1"
    and m2: "RecordAction L n res ti wc sb rb er (ResetCollector t mc1) = Some mc"
    using assms(2) by (auto split: option.splits)
  have "ev_run L [EvStart n] (NewCollector cfg now, []) = Some (mc1, [])" by (simp add: m1)
  from ev_run_inv [OF assms(1) run_inv_init this] have "enabled (core mc1)" by (simp add: run_inv_def)
  then obtain am where "actions (core mc) n = Some am" "amCount am executing = - 1"
    using RecordAction_executing [OF _ _ m2] by (auto simp: ResetCollector_def Let_def)
  then show ?thesis using report_executing [OF I assms(3,4)] by (simp add: cnt_def)
qed

definition resetRun :: "ev list" where
  "resetRun = [EvStart ''a'', EvReset 5, EvAction ''a'' ResultCanceled noTiming 0 0 0 NoErr]"

lemma resetRun_report:
  "\<exists>mc rs r mc' w. ev_run lastSketch resetRun (NewCollector exampleConfig 0, []) = Some (mc, rs) \<and>
     TakeReportSnapshot lastSketch (2000000000, zeroSystem) (2000000001, zeroSystem) exampleMeta mc = Some (r, mc') \<and>
     csWindow r = Some w"
  by (simp add: resetRun_def NewCollector_def exampleConfig_def RecordActionStart_def RecordAction_def recordAction_def
      coreRecordAction_def recordBlock_def recordResult_def noTiming_def bump_pos_def ResetCollector_def
      getOrCreateAction_def lastBlock_new lastBlock_simps Let_def newWindowCollector_def putAction_def bump_def
      wrap64_def TakeReportSnapshot_def snapshotUnlocked_def snapshotAction_def HistSnapshot_def BuildSnapshotSummary_def
      buildSnapshotSummary_def ActionNames_def emptyHistogram_def intervalAction_def split del: if_split)

theorem reset_while_executing_witness:
  "\<exists>mc rs r mc' w. ev_run lastSketch resetRun (NewCollector exampleConfig 0, []) = Some (mc, rs) \<and>
     TakeReportSnapshot lastSketch (2000000000, zeroSystem) (2000000001, zeroSystem) exampleMeta mc = Some (r, mc') \<and>
     csWindow r = Some w \<and> cnt (core mc) ''a'' executing = - 1 \<and>
     validateMetricReport lastSketch r w 1000000000 100000000 \<noteq> None"
proof -
  obtain mc rs r mc' w where M: "ev_run lastSketch resetRun (NewCollector exampleConfig 0, []) = Some (mc, rs)"
     "TakeReportSnapshot lastSketch (2000000000, zeroSystem) (2000000001, zeroSystem) exampleMeta mc = Some (r, mc')"
     "csWindow r = Some w"
    using resetRun_report by blast
  from reset_while_executing [OF lastSketch_uniform M [unfolded resetRun_def], of 1000000000 100000000] M
  show ?thesis by blast
qed

end
