(* ===== verification/MetricsAggregate.thy ===== *)
theory MetricsAggregate
  imports ReportCheck Assign
begin

text \<open>
  The admin server's aggregation of metrics: the live view of a task (\<^verbatim>\<open>admin/metrics/aggregator.go\<close>), the
  aggregation of the resources of the agents, and the sampler that archives the windows
  (\<^verbatim>\<open>admin/metrics/sampler.go\<close>).  Snapshots are values here; the code shares the slice of a single
  snapshot's actions with the store and writes into it.
\<close>

subsection \<open>Live view of a task\<close>

record StressAggregate =
  sgSnapshot :: CollectorSnapshot
  sgReportingAgents :: nat
  sgTotalAgents :: nat
  sgOfflineAgents :: nat
  sgAssignedAgents :: nat
  sgFreshAgents :: nat
  sgStaleAgents :: nat
  sgCoverageRatio :: float64
  sgAsOf :: int

definition windowPart :: "int \<Rightarrow> string \<Rightarrow> ReportWindow \<Rightarrow> CollectorSnapshot" where
  "windowPart apdex detail w = zeroCollectorSnapshot\<lparr>csApdexT := apdex, csTimingDetail := detail,
     csUptimeSec := rwDurationSeconds w, csActions := rwActions w,
     csCounts := (\<lambda>_. 0)(invalidMetricSamples := rwInvalidMetricSamples w)\<rparr>"

text \<open>The earliest start and the latest end; \<open>None\<close> is the zero time.\<close>

definition earliest :: "int list \<Rightarrow> int option" where
  "earliest ts = foldl (\<lambda>m t. case m of None \<Rightarrow> Some t | Some x \<Rightarrow> if t < x then Some t else m) None ts"

definition latest :: "int list \<Rightarrow> int option" where
  "latest ts = foldl (\<lambda>m t. case m of None \<Rightarrow> Some t | Some x \<Rightarrow> if x < t then Some t else m) None ts"

definition timeOf :: "int option \<Rightarrow> int" where
  "timeOf t = (case t of None \<Rightarrow> 0 | Some x \<Rightarrow> x)"

definition actionRate :: "AgentMetricState list \<Rightarrow> string \<Rightarrow> float64" where
  "actionRate states n =
     foldl (\<lambda>q (d, a). fadd q (fdiv (f64_of_int (asSampleCount a)) d)) (Fin 0)
       (filter (\<lambda>(d, a). asName a = n)
         (concat (map (\<lambda>s. let w = amsLatestWindow s in
            if flt (Fin 0) (rwDurationSeconds w) then map (Pair (rwDurationSeconds w)) (rwActions w) else []) states)))"

definition actionExecuting :: "AgentMetricState list \<Rightarrow> string \<Rightarrow> int" where
  "actionExecuting states n =
     wsum (map (\<lambda>a. asCounts a executing) (actionsNamed n (concat (map (csActions \<circ> amsCumulative) states))))"

definition sumRate :: "(ReportWindow \<Rightarrow> int) \<Rightarrow> AgentMetricState list \<Rightarrow> float64" where
  "sumRate bytes states =
     foldl (\<lambda>r s. let w = amsLatestWindow s in
        if flt (Fin 0) (rwDurationSeconds w) then fadd r (mbps (bytes w) (rwDurationSeconds w)) else r) (Fin 0) states"

definition set_executing :: "(string \<Rightarrow> int) \<Rightarrow> ActionSnapshot \<Rightarrow> ActionSnapshot" where
  "set_executing e a = a\<lparr>asCounts := (asCounts a)(executing := e (asName a))\<rparr>"

definition attachFreshWindow ::
  "'sk sketchLib \<Rightarrow> int \<Rightarrow> CollectorSnapshot \<Rightarrow> AgentMetricState list \<Rightarrow> merge_err + CollectorSnapshot" where
  "attachFreshWindow L now cumulative states =
     (if states = []
      then Inr (cumulative\<lparr>csWindow := None, csSendMBps := Fin 0, csRecvMBps := Fin 0,
             csActions := map (\<lambda>a. (set_executing (\<lambda>_. 0) a)\<lparr>asPeriodQPS := Fin 0\<rparr>) (csActions cumulative),
             csSummary := (csSummary cumulative)\<lparr>smExecuting := 0\<rparr>\<rparr>)
      else
        let ws = map amsLatestWindow states;
            parts = map (\<lambda>s. Some (windowPart (csApdexT (amsCumulative s)) (csTimingDetail (amsCumulative s)) (amsLatestWindow s))) states;
            rate = actionRate states; exec = actionExecuting states;
            startedAt = earliest (map rwStartedAt ws); endedAt = latest (map rwEndedAt ws);
            sendMBps = sumRate rwSendBytes states; recvMBps = sumRate rwRecvBytes states;
            executingTotal = wsum (map exec (actionOrder (concat (map (csActions \<circ> amsCumulative) states))))
        in case MergeSnapshots L now parts of
             Inl e \<Rightarrow> Inl e
           | Inr m \<Rightarrow>
             let qps = foldl (\<lambda>q a. fadd q (rate (asName a))) (Fin 0) (csActions m);
                 as = map (\<lambda>a. (set_executing exec a)\<lparr>asAvgQPS := rate (asName a), asPeriodQPS := rate (asName a)\<rparr>) (csActions m);
                 sm = (csSummary m)\<lparr>smAvgQPS := qps, smExecuting := executingTotal\<rparr>;
                 w = \<lparr>rwSequence = 0, rwStartedAt = timeOf startedAt, rwEndedAt = timeOf endedAt,
                      rwDurationSeconds = dur_Seconds (time_sub (timeOf endedAt) (timeOf startedAt)),
                      rwExpectedIntervalSeconds = Fin 0, rwSummary = sm,
                      rwSendBytes = wsum (map rwSendBytes ws), rwRecvBytes = wsum (map rwRecvBytes ws),
                      rwSendMBps = sendMBps, rwRecvMBps = recvMBps, rwActions = as,
                      rwInvalidMetricSamples = csCounts m invalidMetricSamples\<rparr>
             in Inr (cumulative\<lparr>csWindow := Some w, csSendMBps := sendMBps, csRecvMBps := recvMBps,
                  csCounts := (csCounts cumulative)
                    (robotsRunning := wsum (map (\<lambda>s. csCounts (amsCumulative s) robotsRunning) states),
                     connActive := wsum (map (\<lambda>s. csCounts (amsCumulative s) connActive) states)),
                  csSummary := (csSummary cumulative)\<lparr>smExecuting := executingTotal\<rparr>,
                  csActions := map (\<lambda>a. (set_executing exec a)\<lparr>asPeriodQPS := rate (asName a)\<rparr>) (csActions cumulative)\<rparr>))"

definition freshFor :: "AgentMetricState \<Rightarrow> int" where
  "freshFor s = max (wrap64 (3 * amsExpectedEvery s)) 15000000000"

definition AggregateStress ::
  "'sk sketchLib \<Rightarrow> int \<Rightarrow> Node list \<Rightarrow> string \<Rightarrow> AgentMetricState list \<Rightarrow> merge_err + StressAggregate" where
  "AggregateStress L now nodes taskID states =
     (let mine = filter (\<lambda>n. nCurrentTaskID n = taskID) nodes;
          assigned = map_of (rev (map (\<lambda>n. (nID n, n)) mine));
          reporting = filter (\<lambda>s. assigned (amsAgentID s) \<noteq> None) states;
          stale = (\<lambda>s. nStatus (the (assigned (amsAgentID s))) = Offline \<or> freshFor s < time_sub now (amsReceivedAt s));
          fresh = filter (\<lambda>s. \<not> stale s) reporting
      in case MergeSnapshots L now (map (Some \<circ> amsCumulative) reporting) of
           Inl e \<Rightarrow> Inl e
         | Inr m \<Rightarrow>
         (case attachFreshWindow L now m fresh of
           Inl e \<Rightarrow> Inl e
         | Inr m' \<Rightarrow> Inr
           \<lparr>sgSnapshot = m'\<lparr>csTimestamp := now\<rparr>, sgReportingAgents = length reporting,
            sgTotalAgents = length (filter (\<lambda>n. nStatus n \<noteq> Offline) mine),
            sgOfflineAgents = length (filter (\<lambda>n. nStatus n = Offline) mine),
            sgAssignedAgents = length mine, sgFreshAgents = length fresh,
            sgStaleAgents = length (filter stale reporting),
            sgCoverageRatio = (if mine \<noteq> [] then fdiv (f64_of_int (int (length reporting))) (f64_of_int (int (length mine))) else Fin 0),
            sgAsOf = now\<rparr>))"

subsection \<open>Archiving a batch of windows\<close>

text \<open>What the windows of one agent add up to; its robots and connections are those of its last window.\<close>

record agentRate =
  arSamples :: int
  arDuration :: float64
  arSendBytes :: int
  arRecvBytes :: int
  arLatestSequence :: int
  arCounts :: "gcounter \<Rightarrow> int"

definition rateStep :: "MetricHistoryWindow \<Rightarrow> agentRate \<Rightarrow> agentRate" where
  "rateStep item r =
     (let w = hwWindow item;
          r1 = r\<lparr>arSamples := foldl (\<lambda>n a. wrap64 (n + asSampleCount a)) (arSamples r) (rwActions w),
                 arDuration := fadd (arDuration r) (rwDurationSeconds w),
                 arSendBytes := wrap64 (arSendBytes r + rwSendBytes w), arRecvBytes := wrap64 (arRecvBytes r + rwRecvBytes w)\<rparr>
      in if arLatestSequence r \<le> rwSequence w then r1\<lparr>arLatestSequence := rwSequence w, arCounts := hwCounts item\<rparr> else r1)"

definition agentRateOf :: "MetricHistoryWindow list \<Rightarrow> string \<Rightarrow> agentRate" where
  "agentRateOf ws agent =
     fold rateStep (filter (\<lambda>w. hwAgentID w = agent) ws)
       \<lparr>arSamples = 0, arDuration = Fin 0, arSendBytes = 0, arRecvBytes = 0, arLatestSequence = 0, arCounts = (\<lambda>_. 0)\<rparr>"

definition perSecond :: "(agentRate \<Rightarrow> float64) \<Rightarrow> agentRate list \<Rightarrow> float64" where
  "perSecond f rs = foldl (\<lambda>q r. if flt (Fin 0) (arDuration r) then fadd q (f r) else q) (Fin 0) rs"

text \<open>The map of the agents is listed in the order of first occurrence.\<close>

definition aggregateHistoryBatch :: "'sk sketchLib \<Rightarrow> int \<Rightarrow> MetricHistoryBatch \<Rightarrow> merge_err + StressAggregate" where
  "aggregateHistoryBatch L now batch =
     (let ws = hbWindows batch;
          rates = map (agentRateOf ws) (rev (remdups (rev (map hwAgentID ws))));
          startedAt = earliest (map (rwStartedAt \<circ> hwWindow) ws); endedAt = latest (map (rwEndedAt \<circ> hwWindow) ws);
          total = (\<lambda>g. wsum (map (\<lambda>r. arCounts r g) rates))
      in case MergeSnapshots L now (map (\<lambda>i. Some (windowPart (hwApdexT i) (hwTimingDetail i) (hwWindow i))) ws) of
           Inl e \<Rightarrow> Inl e
         | Inr m \<Rightarrow>
           let qps = perSecond (\<lambda>r. fdiv (f64_of_int (arSamples r)) (arDuration r)) rates;
               sendMBps = perSecond (\<lambda>r. mbps (arSendBytes r) (arDuration r)) rates;
               recvMBps = perSecond (\<lambda>r. mbps (arRecvBytes r) (arDuration r)) rates;
               add = (\<lambda>g. wrap64 (csCounts m g + total g));
               sm = (csSummary m)\<lparr>smAvgQPS := qps\<rparr>;
               m' = m\<lparr>csCounts := (csCounts m)(robotsRunning := add robotsRunning, connActive := add connActive,
                        connClosed := add connClosed, connDropped := add connDropped, totalActions := smSampleCount sm),
                      csSummary := sm, csSendMBps := sendMBps, csRecvMBps := recvMBps,
                      csWindow := Some (zeroWindow\<lparr>rwStartedAt := timeOf startedAt, rwEndedAt := timeOf endedAt,
                        rwDurationSeconds := dur_Seconds (time_sub (timeOf endedAt) (timeOf startedAt)), rwSummary := sm,
                        rwSendMBps := sendMBps, rwRecvMBps := recvMBps, rwActions := csActions m\<rparr>)\<rparr>
           in Inr \<lparr>sgSnapshot = m', sgReportingAgents = length rates, sgTotalAgents = 0, sgOfflineAgents = 0,
                   sgAssignedAgents = 0, sgFreshAgents = 0, sgStaleAgents = 0, sgCoverageRatio = Fin 0, sgAsOf = 0\<rparr>)"

definition historySaveIntervalSec :: "int \<Rightarrow> int" where
  "historySaveIntervalSec elapsed = (if elapsed < 30 * 60 then 10 else if elapsed < 6 * 60 * 60 then 60 else 5 * 60)"

definition distinctResetCount :: "CompletionReport list \<Rightarrow> nat" where
  "distinctResetCount rs = length (remdups (filter (\<lambda>i. 0 < i) (map crStageIndex rs)))"

definition currentStageIndex :: "Task option \<Rightarrow> int" where
  "currentStageIndex t =
     (case t of
        None \<Rightarrow> - 1
      | Some t \<Rightarrow>
          let plan = BuildStagePlan (rcRampUp (tRobotConfig t)) in
          if \<not> HasReset plan then - 1
          else int (min (distinctResetCount (tStageReports t) + 1) (length (Segments plan))))"

definition taskAssignedAgentCount :: "Task option \<Rightarrow> nat" where
  "taskAssignedAgentCount t =
     (case t of None \<Rightarrow> 0
      | Some t \<Rightarrow> if tSucceededAgents t \<noteq> [] then length (tSucceededAgents t) else length (tAssignments t))"

subsection \<open>Resources of the agents\<close>

text \<open>\<open>agent.SystemSnapshot\<close>; \<open>None\<close> is a nil pointer.\<close>

record AgentSystem =
  ssTimestamp :: "int option"
  HostCPUPercent :: "float64 option"
  HostMemTotalBytes :: "int option"
  HostMemUsedBytes :: "int option"
  HostNetSendBytesPerSec :: "float64 option"
  HostNetRecvBytesPerSec :: "float64 option"
  ProcessCPUPercent :: "float64 option"
  ProcessRSSBytes :: "int option"
  ProcessHeapBytes :: int
  ProcessGoroutines :: int
  ProcessThreads :: "int option"
  ProcessFDs :: "int option"

text \<open>
  What the aggregation reads of a registered agent.  \<open>avSystemUpdatedAt\<close> is \<open>None\<close> for the zero time;
  \<open>avInterval\<close> is the parsed reporting interval, \<open>None\<close> if it does not parse.
\<close>

record AgentView =
  avID :: string
  avName :: string
  avStatus :: Status
  avLastHeartbeatAt :: int
  avNumCPU :: int
  avInterval :: "int option"
  avSystem :: "AgentSystem option"
  avSystemUpdatedAt :: "int option"

record AgentSystemBrief =
  abAgentID :: string
  abName :: string
  abStatus :: Status
  abIsStale :: bool
  abSampledAt :: "int option"
  abReceivedAt :: "int option"
  abAge :: "float64 option"
  abLastHeartbeatAt :: int
  abHostCPU :: "float64 option"
  abHostMem :: "float64 option"
  abNetSend :: "float64 option"
  abNetRecv :: "float64 option"
  abProcessCPU :: "float64 option"
  abRSS :: "int option"
  abHeap :: "int option"
  abGoroutines :: "int option"
  abThreads :: "int option"
  abFDs :: "int option"

definition newBrief :: "string \<Rightarrow> string \<Rightarrow> Status \<Rightarrow> int \<Rightarrow> AgentSystemBrief" where
  "newBrief i n st hb = \<lparr>abAgentID = i, abName = n, abStatus = st, abIsStale = False, abSampledAt = None,
     abReceivedAt = None, abAge = None, abLastHeartbeatAt = hb, abHostCPU = None, abHostMem = None, abNetSend = None,
     abNetRecv = None, abProcessCPU = None, abRSS = None, abHeap = None, abGoroutines = None, abThreads = None, abFDs = None\<rparr>"

text \<open>A maximum with the agent it was seen on.\<close>

type_synonym 'v hot = "('v \<times> string \<times> string) option"

definition hotter :: "('v \<Rightarrow> 'v \<Rightarrow> bool) \<Rightarrow> 'v \<Rightarrow> AgentView \<Rightarrow> 'v hot \<Rightarrow> 'v hot" where
  "hotter lt v ag m = (case m of None \<Rightarrow> Some (v, avID ag, avName ag)
     | Some (x, _) \<Rightarrow> if lt x v then Some (v, avID ag, avName ag) else m)"

record ClusterAcc =
  caOnline :: nat
  caUnhealthy :: nat
  caOffline :: nat
  caReporting :: nat
  caStale :: nat
  caMissing :: nat
  caHostCPU :: "nat \<times> float64 \<times> float64"
  caMaxHostCPU :: "float64 hot"
  caHostMem :: "nat \<times> int \<times> int"
  caMaxHostMem :: "float64 hot"
  caNetSend :: "nat \<times> float64"
  caNetRecv :: "nat \<times> float64"
  caProcessCPU :: "nat \<times> float64 \<times> float64"
  caMaxProcessCPU :: "float64 hot"
  caRSS :: "nat \<times> int"
  caMaxRSS :: "int hot"
  caHeap :: int
  caGoroutines :: int
  caThreads :: "nat \<times> int"
  caFDs :: "nat \<times> int"
  caMaxFDs :: "int hot"
  caAgents :: "AgentSystemBrief list"

definition zeroCluster :: ClusterAcc where
  "zeroCluster = \<lparr>caOnline = 0, caUnhealthy = 0, caOffline = 0, caReporting = 0, caStale = 0, caMissing = 0,
     caHostCPU = (0, Fin 0, Fin 0), caMaxHostCPU = None, caHostMem = (0, 0, 0), caMaxHostMem = None,
     caNetSend = (0, Fin 0), caNetRecv = (0, Fin 0), caProcessCPU = (0, Fin 0, Fin 0), caMaxProcessCPU = None,
     caRSS = (0, 0), caMaxRSS = None, caHeap = 0, caGoroutines = 0, caThreads = (0, 0), caFDs = (0, 0), caMaxFDs = None,
     caAgents = []\<rparr>"

definition validPercent :: "float64 option \<Rightarrow> float64 option" where
  "validPercent v = (case v of None \<Rightarrow> None
     | Some x \<Rightarrow> if x = NaN \<or> x = PInf \<or> x = NInf \<or> flt x (Fin 0) \<or> flt (Fin 100) x then None else Some x)"

definition validNonNegative :: "float64 option \<Rightarrow> float64 option" where
  "validNonNegative v = (case v of None \<Rightarrow> None
     | Some x \<Rightarrow> if x = NaN \<or> x = PInf \<or> x = NInf \<or> flt x (Fin 0) then None else Some x)"

definition percentOf :: "int \<Rightarrow> int \<Rightarrow> float64" where
  "percentOf used total_b = fmul (fdiv (f64_of_int used) (f64_of_int total_b)) (Fin 100)"

definition validHostMemory :: "AgentSystem \<Rightarrow> (int \<times> int \<times> float64) option" where
  "validHostMemory s = (case (HostMemTotalBytes s, HostMemUsedBytes s) of
     (Some all_b, Some used) \<Rightarrow> if all_b = 0 \<or> all_b < used then None else Some (all_b, used, percentOf used all_b)
   | _ \<Rightarrow> None)"

definition systemSnapshotFreshFor :: "int option \<Rightarrow> int" where
  "systemSnapshotFreshFor interval =
     (let v = (case interval of Some x \<Rightarrow> if x \<le> 0 then 5000000000 else x | None \<Rightarrow> 5000000000);
          v3 = wrap64 (v * 3)
      in if v3 < 15000000000 then 15000000000 else v3)"

definition statusStep :: "Status \<Rightarrow> ClusterAcc \<Rightarrow> ClusterAcc" where
  "statusStep st c =
     (case st of Unhealthy \<Rightarrow> c\<lparr>caUnhealthy := caUnhealthy c + 1\<rparr> | Offline \<Rightarrow> c\<lparr>caOffline := caOffline c + 1\<rparr>
      | _ \<Rightarrow> c\<lparr>caOnline := caOnline c + 1\<rparr>)"

definition to_u64_add :: "int \<Rightarrow> int \<Rightarrow> int" where
  "to_u64_add a b = wrapu64 (a + b)"

text \<open>The values of a fresh snapshot, added up and copied into the agent's line.\<close>

definition freshStep :: "AgentView \<Rightarrow> AgentSystem \<Rightarrow> AgentSystemBrief \<Rightarrow> ClusterAcc \<Rightarrow> ClusterAcc" where
  "freshStep ag s b c =
     (let weight = (if avNumCPU ag \<le> 0 then Fin 1 else f64_of_int (avNumCPU ag));
          cpu = validPercent (HostCPUPercent s); mem = validHostMemory s;
          ns = validNonNegative (HostNetSendBytesPerSec s); nr = validNonNegative (HostNetRecvBytesPerSec s);
          pcpu = validPercent (ProcessCPUPercent s); rss = ProcessRSSBytes s;
          threads = (case ProcessThreads s of Some v \<Rightarrow> if 0 \<le> v then Some v else None | None \<Rightarrow> None);
          fds = (case ProcessFDs s of Some v \<Rightarrow> if 0 \<le> v then Some v else None | None \<Rightarrow> None);
          b' = b\<lparr>abHostCPU := cpu, abHostMem := map_option (\<lambda>(_, _, p). p) mem, abNetSend := ns, abNetRecv := nr,
                 abProcessCPU := pcpu, abRSS := rss, abHeap := Some (ProcessHeapBytes s),
                 abGoroutines := Some (ProcessGoroutines s), abThreads := threads, abFDs := fds\<rparr>
      in c\<lparr>caReporting := caReporting c + 1,
           caHostCPU := (case cpu of None \<Rightarrow> caHostCPU c | Some v \<Rightarrow> let (n, w, t) = caHostCPU c in (n + 1, fadd w (fmul v weight), fadd t weight)),
           caMaxHostCPU := (case cpu of None \<Rightarrow> caMaxHostCPU c | Some v \<Rightarrow> hotter flt v ag (caMaxHostCPU c)),
           caHostMem := (case mem of None \<Rightarrow> caHostMem c | Some (a, u, _) \<Rightarrow> let (n, x, y) = caHostMem c in (n + 1, to_u64_add x a, to_u64_add y u)),
           caMaxHostMem := (case mem of None \<Rightarrow> caMaxHostMem c | Some (_, _, p) \<Rightarrow> hotter flt p ag (caMaxHostMem c)),
           caNetSend := (case ns of None \<Rightarrow> caNetSend c | Some v \<Rightarrow> (fst (caNetSend c) + 1, fadd (snd (caNetSend c)) v)),
           caNetRecv := (case nr of None \<Rightarrow> caNetRecv c | Some v \<Rightarrow> (fst (caNetRecv c) + 1, fadd (snd (caNetRecv c)) v)),
           caProcessCPU := (case pcpu of None \<Rightarrow> caProcessCPU c | Some v \<Rightarrow> let (n, w, t) = caProcessCPU c in (n + 1, fadd w (fmul v weight), fadd t weight)),
           caMaxProcessCPU := (case pcpu of None \<Rightarrow> caMaxProcessCPU c | Some v \<Rightarrow> hotter flt v ag (caMaxProcessCPU c)),
           caRSS := (case rss of None \<Rightarrow> caRSS c | Some v \<Rightarrow> (fst (caRSS c) + 1, to_u64_add (snd (caRSS c)) v)),
           caMaxRSS := (case rss of None \<Rightarrow> caMaxRSS c | Some v \<Rightarrow> hotter (<) v ag (caMaxRSS c)),
           caHeap := to_u64_add (caHeap c) (ProcessHeapBytes s), caGoroutines := wrap64 (caGoroutines c + ProcessGoroutines s),
           caThreads := (case threads of None \<Rightarrow> caThreads c | Some v \<Rightarrow> (fst (caThreads c) + 1, to_i32 (snd (caThreads c) + v))),
           caFDs := (case fds of None \<Rightarrow> caFDs c | Some v \<Rightarrow> (fst (caFDs c) + 1, to_i32 (snd (caFDs c) + v))),
           caMaxFDs := (case fds of None \<Rightarrow> caMaxFDs c | Some v \<Rightarrow> hotter (<) v ag (caMaxFDs c)),
           caAgents := caAgents c @ [b']\<rparr>)"

text \<open>One round of the loop over the agent IDs.\<close>

definition systemStep :: "int \<Rightarrow> AgentView list \<Rightarrow> string \<Rightarrow> ClusterAcc \<Rightarrow> ClusterAcc" where
  "systemStep now views i c =
     (case map_of (rev (map (\<lambda>a. (avID a, a)) views)) i of
        None \<Rightarrow> c\<lparr>caOffline := caOffline c + 1, caMissing := caMissing c + 1, caAgents := caAgents c @ [newBrief i [] Offline 0]\<rparr>
      | Some ag \<Rightarrow>
          (let b = newBrief (avID ag) (avName ag) (avStatus ag) (avLastHeartbeatAt ag);
               c1 = statusStep (avStatus ag) c
           in case (avSystem ag, avSystemUpdatedAt ag) of
                (Some s, Some receivedAt) \<Rightarrow>
                  (let age = time_sub now receivedAt;
                       b1 = b\<lparr>abReceivedAt := Some receivedAt, abSampledAt := ssTimestamp s, abAge := Some (dur_Seconds age)\<rparr>
                   in if (avStatus ag = Idle \<or> avStatus ag = Busy) \<and> 0 \<le> age \<and> age \<le> systemSnapshotFreshFor (avInterval ag)
                      then freshStep ag s b1 c1
                      else c1\<lparr>caStale := caStale c1 + 1, caAgents := caAgents c1 @ [b1\<lparr>abIsStale := True\<rparr>]\<rparr>)
              | _ \<Rightarrow> c1\<lparr>caMissing := caMissing c1 + 1, caAgents := caAgents c1 @ [b]\<rparr>))"

definition uniqueSystemAgentIDs :: "string list option \<Rightarrow> AgentView list \<Rightarrow> string list" where
  "uniqueSystemAgentIDs agentIDs views =
     sort (remdups (case agentIDs of None \<Rightarrow> map avID views | Some ids \<Rightarrow> filter (\<lambda>i. i \<noteq> []) ids))"

record ClusterSystemSnapshot =
  clTimestamp :: int
  clAgentCount :: nat
  clAcc :: ClusterAcc
  clCoverageRatio :: float64
  clAvgHostCPUPercent :: "float64 option"
  clAvgHostMemPercent :: "float64 option"
  clTotalHostMem :: "(int \<times> int) option"
  clTotalNetSend :: "float64 option"
  clTotalNetRecv :: "float64 option"
  clAvgProcessCPUPercent :: "float64 option"
  clTotalHeapGoroutines :: "(int \<times> int) option"
  clTotalRSS :: "int option"
  clTotalThreads :: "int option"
  clTotalFDs :: "int option"

text \<open>A total is given when some agent reported the value; an average when the weights are positive.\<close>

definition given :: "nat \<times> 'v \<Rightarrow> 'v option" where
  "given x = (if 0 < fst x then Some (snd x) else None)"

definition weighted :: "nat \<times> float64 \<times> float64 \<Rightarrow> float64 option" where
  "weighted x = (case x of (_, w, t) \<Rightarrow> if flt (Fin 0) t then Some (fdiv w t) else None)"

definition AggregateSystem :: "int \<Rightarrow> string list option \<Rightarrow> AgentView list \<Rightarrow> ClusterSystemSnapshot" where
  "AggregateSystem now agentIDs views =
     (let ids = uniqueSystemAgentIDs agentIDs views; c = fold (systemStep now views) ids zeroCluster;
          (_, memAll, memUsed) = caHostMem c
      in \<lparr>clTimestamp = now, clAgentCount = length ids, clAcc = c,
          clCoverageRatio = (if ids \<noteq> [] then fdiv (f64_of_int (int (caReporting c))) (f64_of_int (int (length ids))) else Fin 0),
          clAvgHostCPUPercent = weighted (caHostCPU c),
          clAvgHostMemPercent = (if 0 < memAll then Some (percentOf memUsed memAll) else None),
          clTotalHostMem = (if 0 < memAll then Some (memAll, memUsed) else None),
          clTotalNetSend = given (caNetSend c), clTotalNetRecv = given (caNetRecv c),
          clAvgProcessCPUPercent = weighted (caProcessCPU c),
          clTotalHeapGoroutines = (if 0 < caReporting c then Some (caHeap c, caGoroutines c) else None),
          clTotalRSS = given (caRSS c), clTotalThreads = given (caThreads c), clTotalFDs = given (caFDs c)\<rparr>)"
subsection \<open>The point of a time series\<close>

record HistoryTrendPoint =
  tpSampledAt :: int
  tpElapsedSec :: int
  tpStageIndex :: int
  tpWindow :: "(int \<times> int) option"
  tpSampleCount :: int
  tpBatchToken :: "nat list"
  tpTotalQPS :: float64
  tpRTTApdex :: "float64 option"
  tpListenWaitP99Ms :: "float64 option"
  tpRTT :: "(float64 option) list"
  tpConnections :: "(int \<times> int \<times> int) option"
  tpNetBytesPerSec :: "(float64 \<times> float64) option"
  tpReporting :: "(nat \<times> nat \<times> float64) option"
  tpTotalDuration :: "(float64 option) list"
  tpClientAvgMs :: "float64 option"
  tpEncodeAvgMs :: "float64 option"
  tpDecodeAvgMs :: "float64 option"
  tpBotsRunning :: int
  tpBotsErrored :: int
  tpSendKBps :: float64
  tpRecvKBps :: float64
  tpCPU :: "float64 \<times> float64"
  tpMem :: "float64 \<times> float64"
  tpGoroutines :: int
  tpThreads :: int
  tpFDs :: int
  tpOnlineCount :: nat
  tpOfflineCount :: nat

definition float64Value :: "float64 option \<Rightarrow> float64" where
  "float64Value v = (case v of None \<Rightarrow> Fin 0 | Some x \<Rightarrow> x)"

definition intValue :: "int option \<Rightarrow> int" where
  "intValue v = (case v of None \<Rightarrow> 0 | Some x \<Rightarrow> x)"

definition hotValue :: "float64 hot \<Rightarrow> float64" where
  "hotValue m = (case m of None \<Rightarrow> Fin 0 | Some (v, _) \<Rightarrow> v)"

definition buildHistoryTrendPoint :: "int \<Rightarrow> int \<Rightarrow> StressAggregate \<Rightarrow> ClusterSystemSnapshot \<Rightarrow> HistoryTrendPoint" where
  "buildHistoryTrendPoint sampledAt elapsed stress sys =
     (let s = sgSnapshot stress;
          p = \<lparr>tpSampledAt = sampledAt, tpElapsedSec = elapsed, tpStageIndex = 0, tpWindow = None, tpSampleCount = 0,
            tpBatchToken = [], tpTotalQPS = Fin 0, tpRTTApdex = None, tpListenWaitP99Ms = None, tpRTT = [], tpConnections = None,
            tpNetBytesPerSec = None, tpReporting = None, tpTotalDuration = [], tpClientAvgMs = None, tpEncodeAvgMs = None,
            tpDecodeAvgMs = None, tpBotsRunning = csCounts s robotsRunning, tpBotsErrored = csCounts s robotsErrored,
            tpSendKBps = Fin 0, tpRecvKBps = Fin 0,
            tpCPU = (float64Value (clAvgHostCPUPercent sys), hotValue (caMaxHostCPU (clAcc sys))),
            tpMem = (float64Value (clAvgHostMemPercent sys), hotValue (caMaxHostMem (clAcc sys))),
            tpGoroutines = intValue (map_option snd (clTotalHeapGoroutines sys)), tpThreads = intValue (clTotalThreads sys),
            tpFDs = intValue (clTotalFDs sys), tpOnlineCount = caOnline (clAcc sys), tpOfflineCount = caOffline (clAcc sys)\<rparr>
      in case csWindow s of
           None \<Rightarrow> p
         | Some w \<Rightarrow>
           let sm = rwSummary w; k = Fin 1024;
               ifn = (\<lambda>n v. if 0 < (n :: int) then Some v else None)
           in p\<lparr>tpWindow := Some (rwStartedAt w, rwEndedAt w), tpSampleCount := smSampleCount sm,
                tpSendKBps := fmul (rwSendMBps w) k, tpRecvKBps := fmul (rwRecvMBps w) k,
                tpNetBytesPerSec := Some (fmul (fmul (rwSendMBps w) k) k, fmul (fmul (rwRecvMBps w) k) k),
                tpConnections := Some (csCounts s connActive, csCounts s connClosed, csCounts s connDropped),
                tpReporting := Some (sgAssignedAgents stress, sgReportingAgents stress, sgCoverageRatio stress),
                tpTotalQPS := smAvgQPS sm, tpRTTApdex := ifn (smRTTApdexSampleCount sm) (smRTTApdex sm),
                tpRTT := (let h = smRTT sm in if 0 < hsCount h then [hsAvgMs h, hsP50Ms h, hsP90Ms h, hsP95Ms h, hsP99Ms h] else []),
                tpListenWaitP99Ms := (if 0 < hsCount (smListenWait sm) then hsP99Ms (smListenWait sm) else None),
                tpTotalDuration := (let h = smTotalDuration sm in if 0 < hsCount h then [hsAvgMs h, hsP95Ms h, hsP99Ms h] else []),
                tpClientAvgMs := ifn (smClientCostCount sm) (smClientAvgMs sm),
                tpEncodeAvgMs := ifn (smCostCount sm Encode) (smCostAvgMs sm Encode),
                tpDecodeAvgMs := ifn (smCostCount sm Decode) (smCostAvgMs sm Decode)\<rparr>)"

text \<open>
  \<open>sampleOnce\<close>.  \<open>live\<close> is the result of the aggregator's two calls, \<open>task\<close> the stored task,
  \<open>written\<close> the archive's answer to the write (\<open>True\<close>: written).  The aggregator, the archive and the
  window store are present (the code returns at once when one is nil), and nothing happens between
  \<open>PeekHistory\<close> and \<open>AckHistory\<close>; \<open>overlapping_samples\<close> shows what an overlap does.
\<close>

datatype sample_result = NothingToSample | SampleMergeError merge_err | LiveError merge_err | AppendFailed | AckFailed | Sampled HistoryTrendPoint

definition sampleCoverage :: "StressAggregate \<Rightarrow> StressAggregate" where
  "sampleCoverage s = s\<lparr>sgCoverageRatio := (if 0 < sgAssignedAgents s
     then fdiv (f64_of_int (int (sgReportingAgents s))) (f64_of_int (int (sgAssignedAgents s))) else Fin 0)\<rparr>"

definition sampleOnce ::
  "'sk sketchLib \<Rightarrow> (nat list \<Rightarrow> nat list) \<Rightarrow> int \<Rightarrow> string \<Rightarrow> int \<Rightarrow> int \<Rightarrow> (merge_err + StressAggregate) \<times> ClusterSystemSnapshot
     \<Rightarrow> Task option \<Rightarrow> (HistoryTrendPoint \<Rightarrow> bool) \<Rightarrow> WindowStore \<Rightarrow> sample_result \<times> WindowStore" where
  "sampleOnce L H now taskID sampledAt elapsed live task written st =
     (case PeekHistory H taskID st of
        (None, st1) \<Rightarrow> (NothingToSample, st1)
      | (Some batch, st1) \<Rightarrow>
        (case aggregateHistoryBatch L now batch of
           Inl e \<Rightarrow> (SampleMergeError e, st1)
         | Inr stress \<Rightarrow>
         (case fst live of
           Inl e \<Rightarrow> (LiveError e, st1)
         | Inr lv \<Rightarrow>
           let s1 = sampleCoverage (stress\<lparr>sgAssignedAgents := sgAssignedAgents lv, sgTotalAgents := sgTotalAgents lv,
                                           sgOfflineAgents := sgOfflineAgents lv\<rparr>);
               s2 = (if sgAssignedAgents s1 = 0 then sampleCoverage (s1\<lparr>sgAssignedAgents := taskAssignedAgentCount task\<rparr>) else s1);
               p = (buildHistoryTrendPoint sampledAt elapsed s2 (snd live))\<lparr>tpStageIndex := currentStageIndex task, tpBatchToken := hbToken batch\<rparr>
           in if \<not> written p then (AppendFailed, st1)
              else case AckHistory taskID (hbToken batch) st1 of
                (False, st2) \<Rightarrow> (AckFailed, st2)
              | (True, st2) \<Rightarrow> (Sampled p, st2))))"

subsection \<open>Properties\<close>

text \<open>
  What the aggregation of the resources should say: the agents asked for, the last view of an agent (an
  agent without one is offline), and whether its resource snapshot is fresh.
\<close>

definition requested :: "string list option \<Rightarrow> AgentView list \<Rightarrow> string set" where
  "requested agentIDs views = (case agentIDs of None \<Rightarrow> avID ` set views | Some ids \<Rightarrow> set ids - {[]})"

definition viewOf :: "AgentView list \<Rightarrow> string \<Rightarrow> AgentView option" where
  "viewOf views i = map_of (rev (map (\<lambda>a. (avID a, a)) views)) i"

definition statusIn :: "AgentView list \<Rightarrow> string \<Rightarrow> Status" where
  "statusIn views i = (case viewOf views i of None \<Rightarrow> Offline | Some a \<Rightarrow> avStatus a)"

datatype freshness = IsFresh | IsStale | NoSnapshot

definition freshnessIn :: "int \<Rightarrow> AgentView list \<Rightarrow> string \<Rightarrow> freshness" where
  "freshnessIn now views i =
     (case viewOf views i of
        None \<Rightarrow> NoSnapshot
      | Some a \<Rightarrow>
          (case (avSystem a, avSystemUpdatedAt a) of
             (Some s, Some t) \<Rightarrow>
               if avStatus a \<in> {Idle, Busy} \<and> 0 \<le> time_sub now t \<and> time_sub now t \<le> systemSnapshotFreshFor (avInterval a)
               then IsFresh else IsStale
           | _ \<Rightarrow> NoSnapshot))"

definition tally :: "int \<Rightarrow> AgentView list \<Rightarrow> string list \<Rightarrow> ClusterAcc \<Rightarrow> bool" where
  "tally now views ids c \<longleftrightarrow>
     caOnline c = length (filter (\<lambda>i. statusIn views i \<notin> {Unhealthy, Offline}) ids) \<and>
     caUnhealthy c = length (filter (\<lambda>i. statusIn views i = Unhealthy) ids) \<and>
     caOffline c = length (filter (\<lambda>i. statusIn views i = Offline) ids) \<and>
     caReporting c = length (filter (\<lambda>i. freshnessIn now views i = IsFresh) ids) \<and>
     caStale c = length (filter (\<lambda>i. freshnessIn now views i = IsStale) ids) \<and>
     caMissing c = length (filter (\<lambda>i. freshnessIn now views i = NoSnapshot) ids) \<and>
     map abAgentID (caAgents c) = ids"

lemma viewOf_id: "viewOf views i = Some a \<Longrightarrow> avID a = i"
  by (auto simp: viewOf_def dest: map_of_SomeD)

lemma statusStep_counts [simp]:
  "caOnline (statusStep st c) = caOnline c + (if st \<notin> {Unhealthy, Offline} then 1 else 0)"
  "caUnhealthy (statusStep st c) = caUnhealthy c + (if st = Unhealthy then 1 else 0)"
  "caOffline (statusStep st c) = caOffline c + (if st = Offline then 1 else 0)"
  "caReporting (statusStep st c) = caReporting c" "caStale (statusStep st c) = caStale c"
  "caMissing (statusStep st c) = caMissing c" "caAgents (statusStep st c) = caAgents c"
  by (cases st; simp add: statusStep_def)+

lemma freshStep_counts [simp]:
  "caOnline (freshStep ag s b c) = caOnline c" "caUnhealthy (freshStep ag s b c) = caUnhealthy c"
  "caOffline (freshStep ag s b c) = caOffline c" "caReporting (freshStep ag s b c) = caReporting c + 1"
  "caStale (freshStep ag s b c) = caStale c" "caMissing (freshStep ag s b c) = caMissing c"
  "map abAgentID (caAgents (freshStep ag s b c)) = map abAgentID (caAgents c) @ [abAgentID b]"
  by (simp_all add: freshStep_def Let_def)

lemma systemStep_tally:
  assumes "tally now views ids c"
  shows "tally now views (ids @ [i]) (systemStep now views i c)"
proof (cases "viewOf views i")
  case None
  then show ?thesis using assms
    by (simp add: systemStep_def tally_def statusIn_def freshnessIn_def viewOf_def [symmetric] newBrief_def)
next
  case (Some a)
  have id: "avID a = i" by (rule viewOf_id [OF Some])
  have m: "map_of (rev (map (\<lambda>a. (avID a, a)) views)) i = Some a" using Some by (simp add: viewOf_def)
  show ?thesis
  proof (cases "\<exists>s t. avSystem a = Some s \<and> avSystemUpdatedAt a = Some t")
    case True
    then obtain s t where "avSystem a = Some s" "avSystemUpdatedAt a = Some t" by blast
    then show ?thesis using assms Some id m
      by (simp add: systemStep_def tally_def statusIn_def freshnessIn_def newBrief_def Let_def)
  next
    case False
    then show ?thesis using assms Some id m
      by (auto simp: systemStep_def tally_def statusIn_def freshnessIn_def newBrief_def Let_def split: option.splits)
  qed
qed

lemma systemFold_tally: "tally now views done c \<Longrightarrow> tally now views (done @ ids) (fold (systemStep now views) ids c)"
proof (induction ids arbitrary: "done" c)
  case (Cons i ids)
  from Cons.IH [OF systemStep_tally [OF Cons.prems]] show ?case by simp
qed simp

lemma unique_ids:
  "distinct (uniqueSystemAgentIDs agentIDs views)" "set (uniqueSystemAgentIDs agentIDs views) = requested agentIDs views"
  "uniqueSystemAgentIDs agentIDs views = sorted_list_of_set (requested agentIDs views)"
  by (auto simp: uniqueSystemAgentIDs_def requested_def sorted_list_of_set_sort_remdups [symmetric] set_diff_eq split: option.splits)

lemma three_way:
  "length (filter (\<lambda>i. f i \<notin> {Unhealthy, Offline}) xs) + length (filter (\<lambda>i. f i = Unhealthy) xs)
     + length (filter (\<lambda>i. f i = Offline) xs) = length xs"
  "length (filter (\<lambda>i. g i = IsFresh) xs) + length (filter (\<lambda>i. g i = IsStale) xs)
     + length (filter (\<lambda>i. g i = NoSnapshot) xs) = length xs"
proof -
  have "g i \<noteq> IsFresh \<Longrightarrow> g i \<noteq> IsStale \<Longrightarrow> g i = NoSnapshot" for i by (cases "g i") simp_all
  then show "length (filter (\<lambda>i. f i \<notin> {Unhealthy, Offline}) xs) + length (filter (\<lambda>i. f i = Unhealthy) xs)
     + length (filter (\<lambda>i. f i = Offline) xs) = length xs"
   "length (filter (\<lambda>i. g i = IsFresh) xs) + length (filter (\<lambda>i. g i = IsStale) xs)
     + length (filter (\<lambda>i. g i = NoSnapshot) xs) = length xs"
    by (induction xs) auto
qed

lemma length_filter_card: "distinct xs \<Longrightarrow> length (filter P xs) = card {x \<in> set xs. P x}"
  by (metis distinct_card distinct_filter set_filter)

lemma ratio_le_1:
  assumes "a \<le> b" "0 < b" "b \<le> 2 ^ 53"
  shows "\<exists>q. fdiv (f64_of_int (int a)) (f64_of_int (int b)) = Fin q \<and> 0 \<le> q \<and> q \<le> 1"
proof -
  have "int b \<le> int (2 ^ 53)" using assms(3) by (simp only: of_nat_le_iff)
  then have ab: "\<bar>int a\<bar> \<le> 2 ^ 53" "\<bar>int b\<bar> \<le> 2 ^ 53" using assms(1) by simp_all
  have le: "(of_nat a :: rat) / of_nat b \<le> 1" "0 \<le> (of_nat a :: rat) / of_nat b" using assms by (simp_all add: divide_le_eq)
  then have "\<bar>(of_nat a :: rat) / of_nat b\<bar> \<le> 2 ^ 63" by simp
  then have "fdiv (f64_of_int (int a)) (f64_of_int (int b)) = Fin (rnd (of_nat a / of_nat b))"
    using assms(2) by (simp add: f64_of_int_small [OF ab(1)] f64_of_int_small [OF ab(2)] round64_small)
  moreover have "rnd ((of_nat a :: rat) / of_nat b) \<le> 1" using rnd_mono [OF le(1)] by (simp add: rnd_1)
  ultimately show ?thesis using rnd_nonneg [OF le(2)] by blast
qed

lemma AggregateSystem_simps:
  "clAcc (AggregateSystem now agentIDs views) = fold (systemStep now views) (uniqueSystemAgentIDs agentIDs views) zeroCluster"
  "clAgentCount (AggregateSystem now agentIDs views) = length (uniqueSystemAgentIDs agentIDs views)"
  "clCoverageRatio (AggregateSystem now agentIDs views) = (if uniqueSystemAgentIDs agentIDs views \<noteq> []
     then fdiv (f64_of_int (int (caReporting (clAcc (AggregateSystem now agentIDs views)))))
            (f64_of_int (int (length (uniqueSystemAgentIDs agentIDs views)))) else Fin 0)"
  by (simp_all add: AggregateSystem_def Let_def case_prod_beta)

text \<open>
  C40. The aggregation of the agents' resources counts every requested agent exactly once, however often
  it is named: the agents counted are the distinct requested ones, with one line each in the order of
  their ids; each is counted under the status of its last view and under the freshness of that
  view's resource snapshot, an agent without a view as offline and missing; and the coverage ratio lies
  between 0 and 1.
\<close>

theorem AggregateSystem_counts:
  assumes "card (requested agentIDs views) \<le> 2 ^ 53" and "c = AggregateSystem now agentIDs views"
    and "R = requested agentIDs views"
  shows "clAgentCount c = card R \<and> map abAgentID (caAgents (clAcc c)) = sorted_list_of_set R \<and>
    caOnline (clAcc c) = card {i \<in> R. statusIn views i \<notin> {Unhealthy, Offline}} \<and>
    caUnhealthy (clAcc c) = card {i \<in> R. statusIn views i = Unhealthy} \<and>
    caOffline (clAcc c) = card {i \<in> R. statusIn views i = Offline} \<and>
    caReporting (clAcc c) = card {i \<in> R. freshnessIn now views i = IsFresh} \<and>
    caStale (clAcc c) = card {i \<in> R. freshnessIn now views i = IsStale} \<and>
    caMissing (clAcc c) = card {i \<in> R. freshnessIn now views i = NoSnapshot} \<and>
    caOnline (clAcc c) + caUnhealthy (clAcc c) + caOffline (clAcc c) = clAgentCount c \<and>
    caReporting (clAcc c) + caStale (clAcc c) + caMissing (clAcc c) = clAgentCount c \<and>
    (\<exists>q. clCoverageRatio c = Fin q \<and> 0 \<le> q \<and> q \<le> 1)"
proof -
  let ?ids = "uniqueSystemAgentIDs agentIDs views"
  note u = unique_ids [of agentIDs views, folded assms(3)]
  have "tally now views ([] @ ?ids) (fold (systemStep now views) ?ids zeroCluster)"
    by (rule systemFold_tally) (simp add: tally_def zeroCluster_def)
  then have t: "tally now views ?ids (clAcc c)" and n: "clAgentCount c = length ?ids"
    by (simp_all add: assms(2) AggregateSystem_simps(1,2))
  have len: "length ?ids = card R" using u(1,2) by (metis distinct_card)
  have s: "caOnline (clAcc c) + caUnhealthy (clAcc c) + caOffline (clAcc c) = length ?ids"
    "caReporting (clAcc c) + caStale (clAcc c) + caMissing (clAcc c) = length ?ids"
    using t three_way(1) [of "statusIn views" ?ids] three_way(2) [of "freshnessIn now views" ?ids] by (simp_all add: tally_def)
  have le: "caReporting (clAcc c) \<le> length ?ids" "length ?ids \<le> 2 ^ 53" using s assms(1,3) len by auto
  note ratio = AggregateSystem_simps(3) [of now agentIDs views, folded assms(2)]
  have "\<exists>q. clCoverageRatio c = Fin q \<and> 0 \<le> q \<and> q \<le> 1"
  proof (cases "?ids = []")
    case False
    then show ?thesis using ratio_le_1 [OF le(1) _ le(2)] by (simp add: ratio)
  qed (simp add: ratio)
  then show ?thesis
    using t n s len length_filter_card [OF u(1)] u(2) by (simp add: tally_def u(3) [symmetric])
qed

text \<open>Three requests for two agents, of which one has no view.\<close>

theorem AggregateSystem_counts_witness:
  "clAgentCount (AggregateSystem 0 (Some [''x'', ''y'', ''x'']) []) = 2 \<and>
   caMissing (clAcc (AggregateSystem 0 (Some [''x'', ''y'', ''x'']) [])) = 2"
proof -
  have R: "requested (Some [''x'', ''y'', ''x'']) [] = {''x'', ''y''}" by (auto simp: requested_def)
  have "{i \<in> {''x'', ''y''}. freshnessIn 0 [] i = NoSnapshot} = {''x'', ''y''}" by (auto simp: freshnessIn_def viewOf_def)
  then show ?thesis
    using AggregateSystem_counts [OF _ refl refl, of "Some [''x'', ''y'', ''x'']" "[]" 0] by (simp add: R)
qed

text \<open>
  C36. A batch of windows leaves the store only after the archive has taken it: if the write fails, or
  nothing could be merged, the same batch with the same token is handed out by the next round; if it
  succeeds, the point carries the batch's token and the batch is gone.
\<close>

theorem sampleOnce_at_least_once:
  assumes "PeekHistory H taskID st = (Some batch, st1)"
    and "sampleOnce L H now taskID sampledAt elapsed live task written st = (res, st2)"
  shows "case res of
      Sampled p \<Rightarrow> written p \<and> tpBatchToken p = hbToken batch \<and> wsInFlight st2 taskID = None
    | _ \<Rightarrow> res \<noteq> AckFailed \<and> st2 = st1 \<and> PeekHistory H taskID st2 = (Some batch, st2)"
proof -
  have again: "PeekHistory H taskID st1 = (Some batch, st1)" and fly: "wsInFlight st1 taskID = Some batch"
    using assms(1) by (auto simp: PeekHistory_def Let_def split: option.splits if_splits)
  have ack: "\<exists>st'. AckHistory taskID (hbToken batch) st1 = (True, st') \<and> wsInFlight st' taskID = None"
    by (auto simp: AckHistory_def fly cleanupTerminalTaskLocked_def dropTaskLocked_def)
  show ?thesis
    using assms(2) again ack
    by (auto simp: sampleOnce_def assms(1) Let_def split: sum.splits if_splits)
qed

text \<open>
  The sampler's loop and \<open>Stop\<close> may overlap between \<open>PeekHistory\<close> and \<open>AckHistory\<close>.  Then both archive the
  same batch under the same token; the first acknowledgement ends it and the second fails, so that
  a point may be written twice but no batch is lost.
\<close>

lemma overlapping_samples:
  assumes "PeekHistory H taskID st = (Some batch, st1)" and "AckHistory taskID (hbToken batch) st1 = (True, st2)"
  shows "PeekHistory H taskID st1 = (Some batch, st1)" "fst (AckHistory taskID (hbToken batch) st2) = False"
  using assms
  by (auto simp: PeekHistory_def AckHistory_def cleanupTerminalTaskLocked_def dropTaskLocked_def Let_def
      split: option.splits if_splits)

definition idleWindow :: MetricHistoryWindow where
  "idleWindow = \<lparr>hwAgentID = ''a'', hwApdexT = 100, hwTimingDetail = ''rtt'', hwCounts = (\<lambda>_. 0),
     hwWindow = zeroWindow\<lparr>rwSequence := 1\<rparr>\<rparr>"

definition idleStress :: StressAggregate where
  "idleStress = \<lparr>sgSnapshot = zeroCollectorSnapshot, sgReportingAgents = 1, sgTotalAgents = 1, sgOfflineAgents = 0,
     sgAssignedAgents = 1, sgFreshAgents = 1, sgStaleAgents = 0, sgCoverageRatio = Fin 1, sgAsOf = 0\<rparr>"

lemma idle_peek:
  "PeekHistory id ''t'' (acceptAppend ''t'' idleWindow NewWindowStore) =
     (Some \<lparr>hbToken = metricHistoryBatchToken id [idleWindow], hbWindows = [idleWindow]\<rparr>,
      NewWindowStore\<lparr>wsInFlight := [''t'' \<mapsto> \<lparr>hbToken = metricHistoryBatchToken id [idleWindow], hbWindows = [idleWindow]\<rparr>]\<rparr>)"
  by (auto simp: PeekHistory_def acceptAppend_def NewWindowStore_def Let_def)

theorem sampleOnce_at_least_once_witness:
  "\<exists>p st2. sampleOnce lastSketch id 0 ''t'' 7 0 (Inr idleStress, AggregateSystem 0 None []) None (\<lambda>_. True)
       (acceptAppend ''t'' idleWindow NewWindowStore) = (Sampled p, st2) \<and>
     tpBatchToken p = metricHistoryBatchToken id [idleWindow] \<and> wsInFlight st2 ''t'' = None"
proof -
  obtain stress where a: "aggregateHistoryBatch lastSketch 0
      \<lparr>hbToken = metricHistoryBatchToken id [idleWindow], hbWindows = [idleWindow]\<rparr> = Inr stress"
    by (simp add: aggregateHistoryBatch_def MergeSnapshots_def windowPart_def buildSnapshotSummary_def Let_def
        idleWindow_def zeroWindow_def zeroCollectorSnapshot_def split del: if_split)
  obtain p st2 where s: "sampleOnce lastSketch id 0 ''t'' 7 0 (Inr idleStress, AggregateSystem 0 None []) None (\<lambda>_. True)
       (acceptAppend ''t'' idleWindow NewWindowStore) = (Sampled p, st2)"
    by (simp add: sampleOnce_def idle_peek a AckHistory_def Let_def split del: if_split)
  show ?thesis using sampleOnce_at_least_once [OF idle_peek s] s by simp
qed

subsection \<open>Errored robots never reach the archive\<close>

lemma MergeSnapshots_zero:
  assumes "MergeSnapshots L now snaps = Inr m" and "\<And>s. Some s \<in> set snaps \<Longrightarrow> csCounts s g = 0"
  shows "csCounts m g = 0"
proof -
  define valid where "valid = map the (filter (\<lambda>s. s \<noteq> None) snaps)"
  note M = assms(1) [unfolded MergeSnapshots_def, folded valid_def]
  have z: "csCounts s g = 0" if "s \<in> set valid" for s
    using that assms(2) by (auto simp: valid_def)
  have zs: "wsum (map (\<lambda>s. csCounts s g) valid) = 0"
  proof -
    have "(\<Sum>s \<leftarrow> valid. csCounts s g) = (\<Sum>s \<leftarrow> valid. 0)"
      by (rule arg_cong [where f = sum_list], rule map_cong [OF refl]) (rule z)
    then show ?thesis by (simp add: wsum_eq)
  qed
  show ?thesis
  proof (cases valid)
    case Nil
    then show ?thesis using M by (auto simp: zeroCollectorSnapshot_def)
  next
    case (Cons s rest)
    then show ?thesis using M z [of s] zs by (cases rest) (auto simp: Let_def split: sum.splits)
  qed
qed

text \<open>
  The archived point of a batch always says that no robot failed: the windows are merged without their
  robots, and only the running ones are added afterwards.
\<close>

lemma history_point_never_errored:
  assumes "aggregateHistoryBatch L now batch = Inr stress"
  shows "tpBotsErrored (buildHistoryTrendPoint sampledAt elapsed stress sys) = 0"
proof -
  obtain m where m: "MergeSnapshots L now (map (\<lambda>i. Some (windowPart (hwApdexT i) (hwTimingDetail i) (hwWindow i))) (hbWindows batch)) = Inr m"
    and s: "csCounts (sgSnapshot stress) robotsErrored = csCounts m robotsErrored"
    using assms by (auto simp: aggregateHistoryBatch_def Let_def split: sum.splits)
  have "csCounts m robotsErrored = 0"
    by (rule MergeSnapshots_zero [OF m]) (auto simp: windowPart_def)
  then show ?thesis using s by (simp add: buildHistoryTrendPoint_def Let_def split: option.splits)
qed

end
