(* ===== verification/MetricsStream.thy ===== *)
theory MetricsStream
  imports WindowDelivery Registry TaskStore
begin

text \<open>
  The way of a metrics window from the agent to the store: the reporter that closes windows
  (\<^verbatim>\<open>agent/metrics/reporter.go\<close>), the one-slot buffer in front of the stream (\<^verbatim>\<open>agent/metrics/stream.go\<close>),
  the admin server's ingestor with one slot per agent and kind (\<^verbatim>\<open>admin/metrics/ingestor.go\<close>) and the
  acceptance service (\<^verbatim>\<open>admin/metrics/accept.go\<close>).
\<close>

subsection \<open>The agent's buffer\<close>

record stressSlot =
  slTaskID :: string
  slReportedAt :: int
  slSnapshot :: CollectorSnapshot
  slDropped :: int

text \<open>The system slot holds its snapshot and its own count of lost frames.\<close>

record 'y LatestMetrics =
  lmStress :: "stressSlot option"
  lmSystem :: "('y \<times> int) option"
  lmStressDrops :: int
  lmStressTaskID :: string
  lmSystemDrops :: int
  lmNotify :: bool

definition NewLatestMetrics :: "'y LatestMetrics" where
  "NewLatestMetrics = \<lparr>lmStress = None, lmSystem = None, lmStressDrops = 0, lmStressTaskID = [], lmSystemDrops = 0,
     lmNotify = False\<rparr>"

text \<open>\<open>wake\<close>: the channel holds one token.\<close>

definition wake :: "'y LatestMetrics \<Rightarrow> 'y LatestMetrics" where
  "wake t = t\<lparr>lmNotify := True\<rparr>"

definition OfferStress :: "string \<Rightarrow> int \<Rightarrow> CollectorSnapshot \<Rightarrow> 'y LatestMetrics \<Rightarrow> 'y LatestMetrics" where
  "OfferStress taskID reportedAt snapshot t =
     (let t1 = (if lmStressTaskID t \<noteq> taskID then t\<lparr>lmStressTaskID := taskID, lmStressDrops := 0, lmStress := None\<rparr> else t);
          t2 = (if lmStress t1 \<noteq> None then t1\<lparr>lmStressDrops := wrapu64 (lmStressDrops t1 + 1)\<rparr> else t1)
      in wake (t2\<lparr>lmStress := Some \<lparr>slTaskID = taskID, slReportedAt = reportedAt, slSnapshot = snapshot,
                                      slDropped = lmStressDrops t2\<rparr>\<rparr>))"

definition OfferSystem :: "'y \<Rightarrow> 'y LatestMetrics \<Rightarrow> 'y LatestMetrics" where
  "OfferSystem snapshot t =
     (let t1 = (if lmSystem t \<noteq> None then t\<lparr>lmSystemDrops := wrapu64 (lmSystemDrops t + 1)\<rparr> else t)
      in wake (t1\<lparr>lmSystem := Some (snapshot, lmSystemDrops t1)\<rparr>))"

definition takeSlots :: "'y LatestMetrics \<Rightarrow> stressSlot option \<times> ('y \<times> int) option \<times> 'y LatestMetrics" where
  "takeSlots t = (lmStress t, lmSystem t, t\<lparr>lmStress := None, lmSystem := None\<rparr>)"

definition restore :: "stressSlot option \<Rightarrow> ('y \<times> int) option \<Rightarrow> 'y LatestMetrics \<Rightarrow> 'y LatestMetrics" where
  "restore stress system t =
     (let t1 = (case stress of
                  None \<Rightarrow> t
                | Some s \<Rightarrow>
                    (case lmStress t of
                       None \<Rightarrow> t\<lparr>lmStress := Some s\<rparr>
                     | Some cur \<Rightarrow>
                         if slTaskID cur = slTaskID s
                         then let d = wrapu64 (lmStressDrops t + 1) in t\<lparr>lmStressDrops := d, lmStress := Some (cur\<lparr>slDropped := d\<rparr>)\<rparr>
                         else t));
          t2 = (case system of
                  None \<Rightarrow> t1
                | Some s \<Rightarrow>
                    (case lmSystem t1 of
                       None \<Rightarrow> t1\<lparr>lmSystem := Some s\<rparr>
                     | Some (snap, _) \<Rightarrow> let d = wrapu64 (lmSystemDrops t1 + 1) in t1\<lparr>lmSystemDrops := d, lmSystem := Some (snap, d)\<rparr>))
      in if lmStress t2 \<noteq> None \<or> lmSystem t2 \<noteq> None then wake t2 else t2)"

text \<open>
  One round of \<open>SendLoop\<close> after a notification, given whether the two sends succeed; the frames that
  went out, and whether the loop goes on.
\<close>

definition sendRound :: "bool \<Rightarrow> bool \<Rightarrow> 'y LatestMetrics \<Rightarrow> stressSlot list \<times> ('y \<times> int) list \<times> bool \<times> 'y LatestMetrics" where
  "sendRound stressOk systemOk t0 =
     (let (stress, system, t) = takeSlots (t0\<lparr>lmNotify := False\<rparr>) in
      if stress \<noteq> None \<and> \<not> stressOk then ([], [], False, restore stress system t)
      else
        let sent = (case stress of None \<Rightarrow> [] | Some s \<Rightarrow> [s]) in
        case system of
          None \<Rightarrow> (sent, [], True, t)
        | Some y \<Rightarrow> if systemOk then (sent, [y], True, t) else (sent, [], False, restore None system t))"

subsection \<open>The reporter\<close>

record StressReporter =
  rpTaskID :: string
  rpInterval :: int
  rpNextSequence :: int
  rpWindowStart :: int
  rpStopped :: bool

definition NewStressReporter :: "int \<Rightarrow> string \<Rightarrow> int \<Rightarrow> StressReporter" where
  "NewStressReporter now taskID interval =
     \<lparr>rpTaskID = taskID, rpInterval = interval, rpNextSequence = 1, rpWindowStart = now, rpStopped = False\<rparr>"

text \<open>The part of \<open>reportOnce\<close> under the reporter's lock; the offer to the buffer follows outside it.\<close>

definition reportTake ::
  "'sk sketchLib \<Rightarrow> int \<times> SystemSnapshot \<Rightarrow> int \<times> SystemSnapshot \<Rightarrow> int \<Rightarrow> StressReporter \<times> 'sk MetricsCollector
     \<Rightarrow> (CollectorSnapshot \<times> StressReporter \<times> 'sk MetricsCollector) option" where
  "reportTake L e1 e2 now rc =
     (let (r, mc) = rc in
      case TakeReportSnapshot L e1 e2 \<lparr>rmSequence = rpNextSequence r, rmStartedAt = rpWindowStart r, rmEndedAt = now,
             rmExpectedIntervalSeconds = dur_Seconds (rpInterval r)\<rparr> mc of
        None \<Rightarrow> None
      | Some (s, mc') \<Rightarrow> Some (s, r\<lparr>rpNextSequence := wrapu64 (rpNextSequence r + 1), rpWindowStart := now\<rparr>, mc'))"

definition reportOnce where
  "reportOnce L e1 e2 now rc t =
     (case reportTake L e1 e2 now rc of
        None \<Rightarrow> None
      | Some (s, r, mc) \<Rightarrow> Some ((r, mc), OfferStress (rpTaskID r) now s t))"

text \<open>\<open>Stop\<close> reports the last window once.\<close>

definition StopReporter where
  "StopReporter L e1 e2 now rc t =
     (if rpStopped (fst rc) then Some (rc, t) else reportOnce L e1 e2 now (apfst (\<lambda>r. r\<lparr>rpStopped := True\<rparr>) rc) t)"

subsection \<open>What the count of dropped frames says\<close>

text \<open>
  The buffer with its send loop: \<open>fly\<close> and \<open>flySystem\<close> are the frames the loop has taken and not yet
  sent, also when the task has changed meanwhile.  The rest records what happened: the stress frames
  offered and sent since the current task became current, the tasks before it, the system frames offered
  and sent.  A task's id is not used again after another task's; \<open>offer\<close> says so.
\<close>

record 'y buf =
  bm :: "'y LatestMetrics"
  fly :: "stressSlot option"
  flySystem :: "('y \<times> int) option"
  offeredN :: int
  sentN :: int
  pastTasks :: "string list"
  systemOffered :: int
  systemSent :: int

inductive bstep :: "'y buf \<Rightarrow> 'y buf \<Rightarrow> bool" where
  offer: "task \<notin> set (pastTasks s) \<Longrightarrow>
    bstep s (if lmStressTaskID (bm s) = task
             then s\<lparr>bm := OfferStress task rep_at snap (bm s), offeredN := offeredN s + 1\<rparr>
             else s\<lparr>bm := OfferStress task rep_at snap (bm s), offeredN := 1, sentN := 0,
                    pastTasks := lmStressTaskID (bm s) # pastTasks s\<rparr>)"
| offerSystem: "bstep s (s\<lparr>bm := OfferSystem y (bm s), systemOffered := systemOffered s + 1\<rparr>)"
| takeFrames: "fly s = None \<Longrightarrow> flySystem s = None \<Longrightarrow>
    bstep s (s\<lparr>bm := snd (snd (takeSlots (bm s))), fly := lmStress (bm s), flySystem := lmSystem (bm s)\<rparr>)"
| sendOk: "fly s = Some x \<Longrightarrow>
    bstep s (s\<lparr>fly := None, sentN := (if slTaskID x = lmStressTaskID (bm s) then sentN s + 1 else sentN s)\<rparr>)"
| sendFail: "fly s = Some x \<Longrightarrow>
    bstep s (s\<lparr>fly := None, flySystem := None, bm := restore (Some x) (flySystem s) (bm s)\<rparr>)"
| sendSystemOk: "fly s = None \<Longrightarrow> flySystem s = Some y \<Longrightarrow>
    bstep s (s\<lparr>flySystem := None, systemSent := systemSent s + 1\<rparr>)"
| sendSystemFail: "fly s = None \<Longrightarrow> flySystem s = Some y \<Longrightarrow>
    bstep s (s\<lparr>flySystem := None, bm := restore None (Some y) (bm s)\<rparr>)"

definition buf_init :: "'y buf" where
  "buf_init = \<lparr>bm = NewLatestMetrics, fly = None, flySystem = None, offeredN = 0, sentN = 0, pastTasks = [],
     systemOffered = 0, systemSent = 0\<rparr>"

definition present :: "'a option \<Rightarrow> int" where
  "present x = (if x = None then 0 else 1)"

text \<open>Whether the frame on its way belongs to the current task.\<close>

definition flying :: "'y buf \<Rightarrow> int" where
  "flying s = (case fly s of None \<Rightarrow> 0 | Some x \<Rightarrow> if slTaskID x = lmStressTaskID (bm s) then 1 else 0)"

definition buf_inv :: "'y buf \<Rightarrow> bool" where
  "buf_inv s \<longleftrightarrow>
     lmStressDrops (bm s) = wrapu64 (offeredN s - sentN s - present (lmStress (bm s)) - flying s) \<and>
     lmSystemDrops (bm s) = wrapu64 (systemOffered s - systemSent s - present (lmSystem (bm s)) - present (flySystem s)) \<and>
     (\<forall>x. lmStress (bm s) = Some x \<longrightarrow> slTaskID x = lmStressTaskID (bm s)) \<and>
     lmStressTaskID (bm s) \<notin> set (pastTasks s) \<and>
     (\<forall>x. fly s = Some x \<longrightarrow> slTaskID x = lmStressTaskID (bm s) \<or> slTaskID x \<in> set (pastTasks s) \<and> lmStress (bm s) \<noteq> None)"

lemma wrapu64_add: "wrapu64 (wrapu64 a + b) = wrapu64 (a + b)"
  by (simp add: wrapu64_def mod_add_left_eq)

lemma wrapu64_add_right: "wrapu64 (a + wrapu64 b) = wrapu64 (a + b)"
  by (simp add: wrapu64_def mod_add_right_eq)

lemmas buf_simps = buf_inv_def flying_def wake_def Let_def present_def wrapu64_add wrapu64_add_right algebra_simps

lemma restore_stress:
  "lmStress (restore (Some x) y t) = (case lmStress t of None \<Rightarrow> Some x
     | Some c \<Rightarrow> if slTaskID c = slTaskID x then Some (c\<lparr>slDropped := wrapu64 (lmStressDrops t + 1)\<rparr>) else Some c)"
  "lmStressDrops (restore (Some x) y t) = (case lmStress t of None \<Rightarrow> lmStressDrops t
     | Some c \<Rightarrow> if slTaskID c = slTaskID x then wrapu64 (lmStressDrops t + 1) else lmStressDrops t)"
  "lmStress (restore None y t) = lmStress t" "lmStressDrops (restore None y t) = lmStressDrops t"
  "lmStressTaskID (restore x' y t) = lmStressTaskID t"
  by (auto simp: restore_def wake_def Let_def split: option.split)

lemma restore_system:
  "lmSystem (restore x None t) = lmSystem t" "lmSystemDrops (restore x None t) = lmSystemDrops t"
  "lmSystem (restore x (Some y) t) \<noteq> None"
  "lmSystemDrops (restore x (Some y) t) = (if lmSystem t = None then lmSystemDrops t else wrapu64 (lmSystemDrops t + 1))"
  by (auto simp: restore_def wake_def Let_def present_def split: option.split)

lemma bstep_inv:
  assumes "bstep s s'" and "buf_inv s"
  shows "buf_inv s'"
  using assms(1)
proof cases
  case (offer task rep_at snap)
  show ?thesis
  proof (cases "lmStressTaskID (bm s) = task")
    case True
    then show ?thesis using assms(2)
      by (cases "lmStress (bm s)") (auto simp: offer(1) OfferStress_def buf_simps split: option.splits)
  next
    case False
    have w: "wrapu64 0 = 0" by (simp add: wrapu64_def)
    show ?thesis using False assms(2) offer(2)
      by (auto simp: offer(1) OfferStress_def buf_simps w split: option.splits)
  qed
next
  case (offerSystem y)
  then show ?thesis using assms(2) by (auto simp: OfferSystem_def buf_simps split: option.splits)
next
  case takeFrames
  then show ?thesis using assms(2) by (auto simp: takeSlots_def buf_simps split: option.splits)
next
  case (sendOk x)
  then show ?thesis using assms(2) by (auto simp: buf_simps)
next
  case (sendFail x)
  then show ?thesis using assms(2)
    by (cases "lmStress (bm s)"; cases "flySystem s") (auto simp: restore_stress restore_system buf_simps)
next
  case (sendSystemOk y)
  then show ?thesis using assms(2) by (auto simp: buf_simps)
next
  case (sendSystemFail y)
  then show ?thesis using assms(2) by (auto simp: restore_stress restore_system buf_simps)
qed

text \<open>
  C35. The counts of dropped frames are exact, in whatever order offers, task switches, sends and failed
  sends interleave.  Of the stress windows offered since the current task became current, each was sent,
  waits in the slot, is on its way, or is counted in \<open>stressDrops\<close>; a frame of an earlier task whose
  send fails after the switch changes neither the count nor the slot.  The same holds for the system
  frames over the whole life of the buffer.  (A task id is not used again after another task's.)
\<close>

theorem dropped_frames_exact:
  assumes "bstep\<^sup>*\<^sup>* buf_init s"
  shows "lmStressDrops (bm s) = wrapu64 (offeredN s - sentN s - present (lmStress (bm s)) - flying s) \<and>
    lmSystemDrops (bm s) = wrapu64 (systemOffered s - systemSent s - present (lmSystem (bm s)) - present (flySystem s))"
proof -
  have "buf_inv s"
    using assms
  proof (induction rule: rtranclp_induct)
    case base
    show ?case by (simp add: buf_inv_def buf_init_def NewLatestMetrics_def present_def flying_def wrapu64_def)
  next
    case (step s s')
    show ?case by (rule bstep_inv [OF step(2,3)])
  qed
  then show ?thesis by (simp add: buf_inv_def)
qed

text \<open>A frame of the task \<open>a\<close> is on its way when \<open>b\<close> starts; its send fails.\<close>

definition switched :: "unit buf" where
  "switched = \<lparr>bm = restore (Some \<lparr>slTaskID = ''a'', slReportedAt = 0, slSnapshot = zeroCollectorSnapshot, slDropped = 0\<rparr>) None
       (OfferStress ''b'' 0 zeroCollectorSnapshot (snd (snd (takeSlots (OfferStress ''a'' 0 zeroCollectorSnapshot NewLatestMetrics))))),
     fly = None, flySystem = None, offeredN = 1, sentN = 0, pastTasks = [''a'', []], systemOffered = 0, systemSent = 0\<rparr>"

theorem dropped_frames_exact_witness:
  "lmStressDrops (bm switched) = 0 \<and> lmSystemDrops (bm switched) = 0"
proof -
  let ?z = "zeroCollectorSnapshot"
  let ?m1 = "OfferStress ''a'' 0 ?z (NewLatestMetrics :: unit LatestMetrics)" and ?m2 = "snd (snd (takeSlots (OfferStress ''a'' 0 ?z (NewLatestMetrics :: unit LatestMetrics))))"
  let ?f = "Some \<lparr>slTaskID = ''a'', slReportedAt = 0, slSnapshot = ?z, slDropped = 0\<rparr>"
  define s1 :: "unit buf" where "s1 = buf_init\<lparr>bm := ?m1, offeredN := 1, pastTasks := [[]]\<rparr>"
  define s2 where "s2 = s1\<lparr>bm := ?m2, fly := ?f\<rparr>"
  define s3 where "s3 = s2\<lparr>bm := OfferStress ''b'' 0 ?z ?m2, pastTasks := [''a'', []]\<rparr>"
  note m = OfferStress_def wake_def Let_def NewLatestMetrics_def takeSlots_def
  have "bstep buf_init s1"
    using bstep.offer [of "''a''" buf_init 0 ?z] by (simp add: s1_def buf_init_def NewLatestMetrics_def)
  moreover have "bstep s1 s2"
    using bstep.takeFrames [of s1] by (simp add: s2_def s1_def buf_init_def m)
  moreover have "bstep s2 s3"
    using bstep.offer [of "''b''" s2 0 ?z] by (simp add: s3_def s2_def s1_def buf_init_def m)
  moreover have "bstep s3 switched"
    using bstep.sendFail [of s3 "\<lparr>slTaskID = ''a'', slReportedAt = 0, slSnapshot = ?z, slDropped = 0\<rparr>"]
    by (simp add: switched_def s3_def s2_def s1_def buf_init_def)
  ultimately have "bstep\<^sup>*\<^sup>* buf_init switched" by (meson r_into_rtranclp rtranclp_trans)
  from dropped_frames_exact [OF this] show ?thesis
    by (simp add: switched_def present_def flying_def wrapu64_def restore_def m)
qed

text \<open>
  The offer follows outside the reporter's lock, so that two reports may be offered in the other order:
  the older window then replaces the newer, also when the newer is the last one, taken by \<open>Stop\<close>.
\<close>

lemma older_window_wins:
  assumes "reportTake L e1 e2 t1 (r0, mc0) = Some (s1, r1, mc1)" and "reportTake L e3 e4 t2 (r1, mc1) = Some (s2, r2, mc2)"
  shows "map_option slSnapshot (lmStress (OfferStress task t1 s1 (OfferStress task t2 s2 b))) = Some s1"
  by (simp add: OfferStress_def wake_def Let_def)

subsection \<open>The ingestor\<close>

datatype metricsKind = MetricsStress | MetricsSystem

type_synonym metricsKey = "string \<times> int \<times> metricsKind"

definition metricsSlotCapacity :: nat where "metricsSlotCapacity = 32768"

text \<open>\<open>'e\<close> are the envelopes, \<open>'x\<close> the errors of the acceptance.\<close>

record 'e metricsSlot =
  msEnvelope :: "'e option"
  msQueued :: bool
  msLastLog :: int

record ('e, 'x) Ingestor =
  inSlots :: "(metricsKey \<times> 'e metricsSlot) list"
  inErrors :: "metricsKey \<Rightarrow> 'x option"
  inReady :: "metricsKey list"
  inAccepted :: int
  inRejected :: int
  inDropped :: int

definition NewIngestor :: "('e, 'x) Ingestor" where
  "NewIngestor = \<lparr>inSlots = [], inErrors = (\<lambda>_. None), inReady = [], inAccepted = 0, inRejected = 0, inDropped = 0\<rparr>"

text \<open>The number of workers is that of the processors, kept between 4 and 32.\<close>

definition workerCount :: "int \<Rightarrow> int" where
  "workerCount cpus = (let w = (if cpus < 4 then 4 else cpus) in if 32 < w then 32 else w)"

datatype offer_result = OfferBadIdentity | OfferNoPayload | SlotsFull | AlreadyQueued | NeedsSend metricsKey

text \<open>
  \<open>Offer\<close> up to the release of the lock.  The envelope's identity and the kind of its payload are given;
  \<open>None\<close> is an envelope without a payload.
\<close>

definition offerSlot :: "string \<Rightarrow> int \<Rightarrow> metricsKind option \<Rightarrow> 'e \<Rightarrow> ('e, 'x) Ingestor \<Rightarrow> offer_result \<times> ('e, 'x) Ingestor" where
  "offerSlot agentID generation kind env st =
     (if agentID = [] \<or> generation = 0 then (OfferBadIdentity, st)
      else case kind of
        None \<Rightarrow> (OfferNoPayload, st)
      | Some kd \<Rightarrow>
          (let key = (agentID, generation, kd); old = map_of (inSlots st) key in
           if metricsSlotCapacity \<le> length (inSlots st) \<and> old = None then (SlotsFull, st)
           else
             let slot = (case old of None \<Rightarrow> \<lparr>msEnvelope = None, msQueued = False, msLastLog = 0\<rparr> | Some s \<Rightarrow> s);
                 st1 = (if msEnvelope slot \<noteq> None then st\<lparr>inDropped := wrapu64 (inDropped st + 1)\<rparr> else st);
                 st2 = st1\<lparr>inSlots := AList.update key (slot\<lparr>msEnvelope := Some env, msQueued := True\<rparr>) (inSlots st1)\<rparr>
             in (if msQueued slot then AlreadyQueued else NeedsSend key, st2)))"

text \<open>The send on the buffered channel that follows; \<open>False\<close> is the error of a full queue.\<close>

definition offerSend :: "metricsKey \<Rightarrow> ('e, 'x) Ingestor \<Rightarrow> bool \<times> ('e, 'x) Ingestor" where
  "offerSend key st =
     (if length (inReady st) < metricsSlotCapacity then (True, st\<lparr>inReady := inReady st @ [key]\<rparr>)
      else (False, case map_of (inSlots st) key of
              None \<Rightarrow> st
            | Some s \<Rightarrow> st\<lparr>inSlots := AList.update key (s\<lparr>msQueued := False\<rparr>) (inSlots st)\<rparr>))"

definition TakeError :: "string \<Rightarrow> int \<Rightarrow> ('e, 'x) Ingestor \<Rightarrow> 'x option \<times> ('e, 'x) Ingestor" where
  "TakeError agentID generation st =
     (let k1 = (agentID, generation, MetricsStress); k2 = (agentID, generation, MetricsSystem) in
      case inErrors st k1 of
        Some e \<Rightarrow> (Some e, st\<lparr>inErrors := (inErrors st)(k1 := None)\<rparr>)
      | None \<Rightarrow> (case inErrors st k2 of
          Some e \<Rightarrow> (Some e, st\<lparr>inErrors := (inErrors st)(k2 := None)\<rparr>)
        | None \<Rightarrow> (None, st)))"

definition dropKey :: "metricsKey \<Rightarrow> ('e, 'x) Ingestor \<Rightarrow> ('e, 'x) Ingestor" where
  "dropKey key st =
     (let st1 = st\<lparr>inErrors := (inErrors st)(key := None)\<rparr> in
      case map_of (inSlots st1) key of
        Some s \<Rightarrow> if \<not> msQueued s then st1\<lparr>inSlots := AList.delete key (inSlots st1)\<rparr> else st1
      | None \<Rightarrow> st1)"

definition DropGeneration :: "string \<Rightarrow> int \<Rightarrow> ('e, 'x) Ingestor \<Rightarrow> ('e, 'x) Ingestor" where
  "DropGeneration agentID generation st =
     dropKey (agentID, generation, MetricsSystem) (dropKey (agentID, generation, MetricsStress) st)"

text \<open>
  \<open>processKey\<close> in its parts: the envelope is taken, handed to the service outside the lock, its
  outcome noted, and the key queued again if a newer envelope has come meanwhile.
\<close>

definition processTake :: "metricsKey \<Rightarrow> ('e, 'x) Ingestor \<Rightarrow> 'e option \<times> ('e, 'x) Ingestor" where
  "processTake key st =
     (case map_of (inSlots st) key of
        None \<Rightarrow> (None, st)
      | Some s \<Rightarrow> (msEnvelope s, st\<lparr>inSlots := AList.update key (s\<lparr>msEnvelope := None\<rparr>) (inSlots st)\<rparr>))"

datatype 'x outcome = Accepted | Canceled | Rejected 'x

definition processOutcome :: "int \<Rightarrow> metricsKey \<Rightarrow> 'x outcome \<Rightarrow> ('e, 'x) Ingestor \<Rightarrow> ('e, 'x) Ingestor" where
  "processOutcome now key r st =
     (case r of
        Accepted \<Rightarrow> st\<lparr>inAccepted := wrapu64 (inAccepted st + 1)\<rparr>
      | Canceled \<Rightarrow> st
      | Rejected e \<Rightarrow>
          (let st1 = st\<lparr>inRejected := wrapu64 (inRejected st + 1), inErrors := (inErrors st)(key \<mapsto> e)\<rparr> in
           case map_of (inSlots st1) key of
             None \<Rightarrow> st1
           | Some s \<Rightarrow> if 60000000000 \<le> time_sub now (msLastLog s)
                        then st1\<lparr>inSlots := AList.update key (s\<lparr>msLastLog := now\<rparr>) (inSlots st1)\<rparr> else st1))"

text \<open>The end: \<open>True\<close> if the key has to be queued again.\<close>

definition processEnd :: "metricsKey \<Rightarrow> ('e, 'x) Ingestor \<Rightarrow> bool \<times> ('e, 'x) Ingestor" where
  "processEnd key st =
     (case map_of (inSlots st) key of
        Some s \<Rightarrow> if msEnvelope s \<noteq> None then (True, st) else (False, st\<lparr>inSlots := AList.delete key (inSlots st)\<rparr>)
      | None \<Rightarrow> (False, st))"

text \<open>
  The ingestor with the goroutines that are between two critical sections.  \<open>stored\<close> and \<open>handed\<close> record
  what happened: the frames taken into a slot, and the frames taken out of one by a worker.
\<close>

record ('e, 'x) ingest =
  ing :: "('e, 'x) Ingestor"
  sending :: "metricsKey list"
  received :: "metricsKey list"
  handling :: "metricsKey list"
  stored :: int
  handed :: int

inductive istep :: "('e, 'x) ingest \<Rightarrow> ('e, 'x) ingest \<Rightarrow> bool" where
  offer: "offerSlot a g kd env (ing s) = (NeedsSend k, st') \<Longrightarrow> istep s (s\<lparr>ing := st', sending := k # sending s, stored := stored s + 1\<rparr>)"
| offerOther: "offerSlot a g kd env (ing s) = (r, st') \<Longrightarrow> (\<And>k. r \<noteq> NeedsSend k) \<Longrightarrow> istep s (s\<lparr>ing := st', stored := stored s + (if r = AlreadyQueued then 1 else 0)\<rparr>)"
| send: "k \<in> set (sending s) \<Longrightarrow> istep s (s\<lparr>ing := snd (offerSend k (ing s)), sending := remove1 k (sending s)\<rparr>)"
| receive: "inReady (ing s) = k # ks \<Longrightarrow> istep s (s\<lparr>ing := (ing s)\<lparr>inReady := ks\<rparr>, received := k # received s\<rparr>)"
| take: "k \<in> set (received s) \<Longrightarrow>
     istep s (s\<lparr>ing := snd (processTake k (ing s)), received := remove1 k (received s), handling := k # handling s,
       handed := handed s + present (fst (processTake k (ing s)))\<rparr>)"
| finish: "k \<in> set (handling s) \<Longrightarrow> processEnd k (processOutcome now k r (ing s)) = (False, st') \<Longrightarrow>
     istep s (s\<lparr>ing := st', handling := remove1 k (handling s)\<rparr>)"
| requeue: "k \<in> set (handling s) \<Longrightarrow> processEnd k (processOutcome now k r (ing s)) = (True, st') \<Longrightarrow>
     istep s (s\<lparr>ing := st', handling := remove1 k (handling s), sending := k # sending s\<rparr>)"
| takeError: "istep s (s\<lparr>ing := snd (TakeError a g (ing s))\<rparr>)"
| dropGeneration: "istep s (s\<lparr>ing := DropGeneration a g (ing s)\<rparr>)"

definition ingest_init :: "('e, 'x) ingest" where
  "ingest_init = \<lparr>ing = NewIngestor, sending = [], received = [], handling = [], stored = 0, handed = 0\<rparr>"

definition at_work :: "('e, 'x) ingest \<Rightarrow> metricsKey list" where
  "at_work s = sending s @ inReady (ing s) @ received s @ handling s"

text \<open>
  The keys on their way are exactly the keys of the slots, each once, and every slot is marked queued.
\<close>

definition ingest_inv :: "('e, 'x) ingest \<Rightarrow> bool" where
  "ingest_inv s \<longleftrightarrow> distinct (at_work s) \<and> distinct (map fst (inSlots (ing s))) \<and>
     set (at_work s) = fst ` set (inSlots (ing s)) \<and> length (inSlots (ing s)) \<le> metricsSlotCapacity \<and>
     (\<forall>k v. map_of (inSlots (ing s)) k = Some v \<longrightarrow> msQueued v)"

lemma ingest_room:
  assumes "ingest_inv s" and "k \<in> set (sending s)"
  shows "length (inReady (ing s)) < metricsSlotCapacity"
proof -
  have "length (at_work s) = length (inSlots (ing s))"
    using assms(1) by (metis distinct_card ingest_inv_def length_map list.set_map)
  moreover have "length (inReady (ing s)) < length (at_work s)"
    using assms(2) by (cases "sending s") (auto simp: at_work_def)
  ultimately show ?thesis using assms(1) by (simp add: ingest_inv_def)
qed

lemma length_update: "length (AList.update k v xs) = (if k \<in> fst ` set xs then length xs else length xs + 1)"
  by (induction xs) auto

lemma keys_delete: "fst ` set (AList.delete k xs) = fst ` set xs - {k}"
  by (induction xs) auto

lemma slots_length_delete: "length (AList.delete k xs) \<le> length xs"
  by (simp add: AList.delete_eq)

lemma processOutcome_slots:
  "fst ` set (inSlots (processOutcome now k r st)) = fst ` set (inSlots st)"
  "distinct (map fst (inSlots st)) \<Longrightarrow> distinct (map fst (inSlots (processOutcome now k r st)))"
  "length (inSlots (processOutcome now k r st)) = length (inSlots st)"
  "inReady (processOutcome now k r st) = inReady st"
  "(\<forall>k v. map_of (inSlots st) k = Some v \<longrightarrow> msQueued v) \<Longrightarrow>
     (\<forall>k v. map_of (inSlots (processOutcome now k' r st)) k = Some v \<longrightarrow> msQueued v)"
  by (auto simp: processOutcome_def Let_def dom_update length_update AList.update_conv' distinct_update
      dest: map_of_SomeD intro: rev_image_eqI split: outcome.splits option.splits if_splits)

lemma processTake_slots:
  "fst ` set (inSlots (snd (processTake k st))) = fst ` set (inSlots st)"
  "distinct (map fst (inSlots st)) \<Longrightarrow> distinct (map fst (inSlots (snd (processTake k st))))"
  "length (inSlots (snd (processTake k st))) = length (inSlots st)"
  "inReady (snd (processTake k st)) = inReady st"
  "(\<forall>k v. map_of (inSlots st) k = Some v \<longrightarrow> msQueued v) \<Longrightarrow>
     (\<forall>k v. map_of (inSlots (snd (processTake k' st))) k = Some v \<longrightarrow> msQueued v)"
  by (auto simp: processTake_def dom_update length_update AList.update_conv' distinct_update map_of_eq_None_iff simp del: split_paired_All
      dest: map_of_SomeD intro: rev_image_eqI split: option.splits if_splits)

lemma offerSlot_queued:
  assumes "offerSlot a g kd env st = (AlreadyQueued, st')"
  shows "\<exists>k v v'. map_of (inSlots st) k = Some v \<and> msQueued v' \<and> inReady st' = inReady st \<and>
     inSlots st' = AList.update k v' (inSlots st)"
proof -
  obtain x where x: "kd = Some x" "a \<noteq> []" "g \<noteq> 0"
    using assms by (auto simp: offerSlot_def split: option.splits if_splits)
  then obtain v where v: "map_of (inSlots st) (a, g, x) = Some v"
    using assms by (auto simp: offerSlot_def Let_def split: option.splits if_splits)
  have "inReady st' = inReady st \<and> inSlots st' = AList.update (a, g, x) (v\<lparr>msEnvelope := Some env, msQueued := True\<rparr>) (inSlots st)"
    using assms x v by (auto simp: offerSlot_def Let_def split: if_splits)
  then show ?thesis using v by (intro exI conjI) auto
qed

lemma istep_inv:
  assumes "istep s s'" and I: "ingest_inv s"
  shows "ingest_inv s'"
proof -
have Id: "distinct (map fst (inSlots (ing s)))" and Iq: "\<forall>k v. map_of (inSlots (ing s)) k = Some v \<longrightarrow> msQueued v"
  using I by (simp_all add: ingest_inv_def del: split_paired_All)
show ?thesis
  using assms(1)
proof cases
  case (offer a g kd env k st')
  obtain x where kd: "kd = Some x" "k = (a, g, x)"
    using offer(2) by (auto simp: offerSlot_def Let_def split: option.splits if_splits)
  have old: "map_of (inSlots (ing s)) k = None" and room: "length (inSlots (ing s)) < metricsSlotCapacity"
    and st': "st' = (ing s)\<lparr>inSlots := AList.update k \<lparr>msEnvelope = Some env, msQueued = True, msLastLog = 0\<rparr> (inSlots (ing s))\<rparr>"
    using offer(2) I kd by (auto simp: offerSlot_def Let_def ingest_inv_def split: option.splits if_splits)
  have "k \<notin> fst ` set (inSlots (ing s))" using old by (simp add: map_of_eq_None_iff)
  then show ?thesis
    using I room by (auto simp: offer(1) st' ingest_inv_def at_work_def dom_update length_update AList.update_conv' distinct_update)
next
  case (offerOther a g kd env r st')
  show ?thesis
  proof (cases "r = AlreadyQueued")
    case True
    then obtain k v v' where kv: "map_of (inSlots (ing s)) k = Some v" "msQueued v'" "inReady st' = inReady (ing s)"
      "inSlots st' = AList.update k v' (inSlots (ing s))"
      using offerSlot_queued [of a g kd env "ing s" st'] offerOther(2) by auto
    have "k \<in> fst ` set (inSlots (ing s))" using kv(1) by (force dest: map_of_SomeD)
    then show ?thesis
      using I kv by (auto simp: offerOther(1) ingest_inv_def at_work_def dom_update length_update AList.update_conv' distinct_update)
  next
    case False
    then have "st' = ing s" using offerOther(2,3)
      by (auto simp: offerSlot_def Let_def split: option.splits if_splits)
    then show ?thesis using I by (simp add: offerOther(1) ingest_inv_def at_work_def)
  qed
next
  case (send k)
  have "snd (offerSend k (ing s)) = (ing s)\<lparr>inReady := inReady (ing s) @ [k]\<rparr>"
    using ingest_room [OF I send(2)] by (simp add: offerSend_def)
  then show ?thesis using I send(2) by (auto simp: send(1) ingest_inv_def at_work_def)
next
  case (receive k ks)
  then show ?thesis using I by (auto simp: ingest_inv_def at_work_def)
next
  case (take k)
  have perm: "mset (at_work s') = mset (at_work s)"
    using take(2) by (simp add: take(1) at_work_def processTake_slots(4))
  show ?thesis
    unfolding ingest_inv_def
    using I processTake_slots(2) [OF Id, of k] processTake_slots(5) [OF Iq, of k]
      mset_eq_imp_distinct_iff [OF perm] mset_eq_setD [OF perm]
    by (simp add: take(1) ingest_inv_def processTake_slots(1,3) del: split_paired_All)
next
  case (finish k now r st')
  let ?p = "processOutcome now k r (ing s)"
  have P: "distinct (map fst (inSlots ?p))" "\<forall>k' v. map_of (inSlots ?p) k' = Some v \<longrightarrow> msQueued v"
    using processOutcome_slots(2) [OF Id] processOutcome_slots(5) [OF Iq] by blast+
  have "k \<in> fst ` set (inSlots ?p)"
    using I finish(2) unfolding processOutcome_slots(1) by (auto simp: ingest_inv_def at_work_def)
  then obtain v where "map_of (inSlots ?p) k = Some v" by (metis map_of_eq_None_iff not_None_eq)
  then have st': "st' = ?p\<lparr>inSlots := AList.delete k (inSlots ?p)\<rparr>"
    using finish(3) by (auto simp: processEnd_def split: if_splits)
  have L: "length (AList.delete k (inSlots ?p)) \<le> metricsSlotCapacity"
    using slots_length_delete [of k "inSlots ?p"] I by (simp add: processOutcome_slots(3) ingest_inv_def)
  have K: "fst ` set (AList.delete k (inSlots ?p)) = fst ` set (inSlots (ing s)) - {k}"
    by (simp add: keys_delete processOutcome_slots(1))
  have W: "distinct (at_work s')" "set (at_work s') = set (at_work s) - {k}"
    using I finish(2) by (auto simp: finish(1) st' at_work_def processOutcome_slots(4) ingest_inv_def)
  have Q: "\<forall>k' v. map_of (AList.delete k (inSlots ?p)) k' = Some v \<longrightarrow> msQueued v"
    using P(2) by (auto simp: AList.delete_conv')
  show ?thesis
    unfolding ingest_inv_def using I W K L Q distinct_delete [OF P(1), of k]
    by (simp add: finish(1) st' ingest_inv_def del: split_paired_All)
next
  case (requeue k now r st')
  have "st' = processOutcome now k r (ing s)"
    using requeue(3) by (auto simp: processEnd_def split: option.splits if_splits)
  then have perm: "mset (at_work s') = mset (at_work s)"
    using requeue(2) by (simp add: requeue(1) at_work_def processOutcome_slots(4))
  show ?thesis
    unfolding ingest_inv_def
    using I processOutcome_slots(2) [OF Id, of now k r] processOutcome_slots(5) [OF Iq, of now k r]
      mset_eq_imp_distinct_iff [OF perm] mset_eq_setD [OF perm] \<open>st' = _\<close>
    by (simp add: requeue(1) ingest_inv_def processOutcome_slots(1,3) del: split_paired_All)
next
  case (takeError a g)
  then show ?thesis using I by (auto simp: ingest_inv_def at_work_def TakeError_def Let_def split: option.splits)
next
  case (dropGeneration a g)
  have "inSlots (dropKey k st) = inSlots st" "inReady (dropKey k st) = inReady st"
    if "\<forall>k v. map_of (inSlots st) k = Some v \<longrightarrow> msQueued v" for k and st :: "('a, 'b) Ingestor"
    using that by (auto simp: dropKey_def Let_def simp del: split_paired_All split: option.splits)
  then show ?thesis using I Iq by (simp add: dropGeneration ingest_inv_def at_work_def DropGeneration_def)
qed
qed

lemma ingest_reachable: "istep\<^sup>*\<^sup>* ingest_init s \<Longrightarrow> ingest_inv s"
proof (induction rule: rtranclp_induct)
  case base
  show ?case by (simp add: ingest_inv_def ingest_init_def NewIngestor_def at_work_def)
next
  case (step s s')
  show ?case by (rule istep_inv [OF step(2,3)])
qed

text \<open>The frames that wait in a slot, and what becomes of those that were stored.\<close>

definition waiting :: "('k \<times> 'e metricsSlot) list \<Rightarrow> int" where
  "waiting xs = int (length (filter (\<lambda>p. msEnvelope (snd p) \<noteq> None) xs))"

definition envelope_of :: "('k \<times> 'e metricsSlot) list \<Rightarrow> 'k \<Rightarrow> 'e option" where
  "envelope_of xs k = (case map_of xs k of None \<Rightarrow> None | Some v \<Rightarrow> msEnvelope v)"

definition frames_inv :: "('e, 'x) ingest \<Rightarrow> bool" where
  "frames_inv s \<longleftrightarrow> inDropped (ing s) = wrapu64 (stored s - handed s - waiting (inSlots (ing s))) \<and>
     (\<forall>k \<in> set (sending s @ inReady (ing s) @ received s). envelope_of (inSlots (ing s)) k \<noteq> None)"

lemma waiting_update:
  "waiting (AList.update k v xs) = waiting xs + present (msEnvelope v) - present (envelope_of xs k)"
  by (induction xs) (auto simp: waiting_def present_def envelope_of_def)

lemma waiting_delete:
  "distinct (map fst xs) \<Longrightarrow> waiting (AList.delete k xs) = waiting xs - present (envelope_of xs k)"
proof (induction xs)
  case (Cons p xs)
  have "k \<notin> fst ` set xs \<Longrightarrow> AList.delete k xs = xs \<and> map_of xs k = None"
    by (simp add: AList.delete_id map_of_eq_None_iff)
  then show ?case using Cons
    by (cases p) (auto simp: waiting_def present_def envelope_of_def simp del: split_paired_All split_paired_Ex)
qed (simp add: waiting_def present_def envelope_of_def)

lemma envelope_of_update [simp]:
  "envelope_of (AList.update k v xs) k' = (if k' = k then msEnvelope v else envelope_of xs k')"
  by (simp add: envelope_of_def AList.update_conv')

lemma envelope_of_delete [simp]:
  "envelope_of (AList.delete k xs) k' = (if k' = k then None else envelope_of xs k')"
  by (simp add: envelope_of_def AList.delete_conv')

lemma processOutcome_frames:
  "waiting (inSlots (processOutcome now k r st)) = waiting (inSlots st)"
  "envelope_of (inSlots (processOutcome now k r st)) = envelope_of (inSlots st)"
  "inDropped (processOutcome now k r st) = inDropped st"
  by (auto simp: processOutcome_def Let_def waiting_update envelope_of_def present_def AList.update_conv' fun_eq_iff
      simp del: split_paired_All split: outcome.splits option.splits)

lemma processTake_frames:
  "fst (processTake k st) = envelope_of (inSlots st) k"
  "waiting (inSlots (snd (processTake k st))) = waiting (inSlots st) - present (envelope_of (inSlots st) k)"
  "k' \<noteq> k \<Longrightarrow> envelope_of (inSlots (snd (processTake k st))) k' = envelope_of (inSlots st) k'"
  "inDropped (snd (processTake k st)) = inDropped st"
  by (auto simp: processTake_def waiting_update envelope_of_def present_def AList.update_conv' split: option.splits)

lemma offerSlot_frames:
  assumes "offerSlot a g kd env st = (r, st')" and "\<forall>k v. map_of (inSlots st) k = Some v \<longrightarrow> msQueued v"
    and "inDropped st = wrapu64 (n - waiting (inSlots st))"
  shows "inDropped st' = wrapu64 (n + (if r = AlreadyQueued \<or> (\<exists>k. r = NeedsSend k) then 1 else 0) - waiting (inSlots st'))"
    and "envelope_of (inSlots st) k \<noteq> None \<Longrightarrow> envelope_of (inSlots st') k \<noteq> None"
    and "r = NeedsSend k' \<Longrightarrow> envelope_of (inSlots st') k' \<noteq> None"
    and "inReady st' = inReady st"
  using assms
  by (auto simp: offerSlot_def Let_def waiting_update envelope_of_def present_def AList.update_conv' wrapu64_add
      wrapu64_add_right algebra_simps simp del: split_paired_All split: option.splits if_splits)


lemma istep_frames:
  assumes "istep s s'" and I: "ingest_inv s" and F: "frames_inv s"
  shows "frames_inv s'"
proof -
have Id: "distinct (map fst (inSlots (ing s)))" and Iq: "\<forall>k v. map_of (inSlots (ing s)) k = Some v \<longrightarrow> msQueued v"
  and Iw: "distinct (at_work s)"
  using I by (simp_all add: ingest_inv_def del: split_paired_All)
have D: "inDropped (ing s) = wrapu64 ((stored s - handed s) - waiting (inSlots (ing s)))"
  and E: "k \<in> set (sending s) \<union> set (inReady (ing s)) \<union> set (received s) \<Longrightarrow> envelope_of (inSlots (ing s)) k \<noteq> None" for k
  using F by (auto simp: frames_inv_def)
show ?thesis
  using assms(1)
proof cases
  case (offer a g kd env k st')
  note o = offerSlot_frames [OF offer(2) Iq D]
  show ?thesis using o(1) o(2) [OF E] o(3) o(4) by (auto simp: offer(1) frames_inv_def algebra_simps simp del: split_paired_All split_paired_Ex)
next
  case (offerOther a g kd env r st')
  note o = offerSlot_frames [OF offerOther(2) Iq D]
  show ?thesis using o(1) o(2) [OF E] o(4) offerOther(3) by (auto simp: offerOther(1) frames_inv_def algebra_simps)
next
  case (send k)
  have "snd (offerSend k (ing s)) = (ing s)\<lparr>inReady := inReady (ing s) @ [k]\<rparr>"
    using ingest_room [OF I send(2)] by (simp add: offerSend_def)
  then show ?thesis using D E send(2) by (auto simp: send(1) frames_inv_def dest: subsetD [OF set_remove1_subset])
next
  case (receive k ks)
  then show ?thesis using D E by (auto simp: frames_inv_def)
next
  case (take k)
  have "k' \<noteq> k" if "k' \<in> set (sending s) \<union> set (inReady (ing s)) \<union> set (remove1 k (received s))" for k'
    using that Iw take(2) by (auto simp: at_work_def)
  then show ?thesis
    using D E by (auto simp: take(1) frames_inv_def processTake_frames processTake_slots(4) algebra_simps dest: subsetD [OF set_remove1_subset])
next
  case (finish k now r st')
  let ?p = "processOutcome now k r (ing s)"
  have P: "distinct (map fst (inSlots ?p))" by (rule processOutcome_slots(2) [OF Id])
  have st': "st' = ?p\<lparr>inSlots := inSlots st'\<rparr>" "envelope_of (inSlots (ing s)) k = None"
    "waiting (inSlots st') = waiting (inSlots (ing s))"
    "k' \<noteq> k \<Longrightarrow> envelope_of (inSlots st') k' = envelope_of (inSlots (ing s)) k'" for k'
  proof -
    have none: "envelope_of (inSlots ?p) k = None"
      using finish(3) by (auto simp: processEnd_def envelope_of_def split: option.splits if_splits)
    show e: "envelope_of (inSlots (ing s)) k = None" using none by (simp add: processOutcome_frames(2))
    have "st' = ?p\<lparr>inSlots := AList.delete k (inSlots ?p)\<rparr> \<or> st' = ?p"
      using finish(3) by (auto simp: processEnd_def split: option.splits if_splits)
    then show "st' = ?p\<lparr>inSlots := inSlots st'\<rparr>" "waiting (inSlots st') = waiting (inSlots (ing s))"
      "k' \<noteq> k \<Longrightarrow> envelope_of (inSlots st') k' = envelope_of (inSlots (ing s)) k'" for k'
      using waiting_delete [OF P, of k] none
      by (auto simp: processOutcome_frames present_def)
  qed
  have "inReady st' = inReady (ing s)" "inDropped st' = inDropped (ing s)"
    by (subst st'(1), simp add: processOutcome_slots(4) processOutcome_frames(3))+
  moreover have "envelope_of (inSlots st') k' \<noteq> None" if "k' \<in> set (sending s) \<union> set (inReady (ing s)) \<union> set (received s)" for k'
  proof -
    have "k' \<noteq> k" using that Iw finish(2) by (auto simp: at_work_def)
    then show ?thesis using st'(4) E [OF that] by simp
  qed
  ultimately show ?thesis
    using D st'(3) unfolding finish(1) frames_inv_def by (auto simp del: split_paired_All split_paired_Ex)
next
  case (requeue k now r st')
  have st': "st' = processOutcome now k r (ing s)" and "envelope_of (inSlots st') k \<noteq> None"
    using requeue(3) by (auto simp: processEnd_def envelope_of_def split: option.splits if_splits)
  then show ?thesis
    using D E by (auto simp: requeue(1) frames_inv_def processOutcome_frames processOutcome_slots(4))
next
  case (takeError a g)
  then show ?thesis using D E by (auto simp: frames_inv_def TakeError_def Let_def split: option.splits)
next
  case (dropGeneration a g)
  have "inSlots (dropKey k st) = inSlots st" "inReady (dropKey k st) = inReady st" "inDropped (dropKey k st) = inDropped st"
    if "\<forall>k v. map_of (inSlots st) k = Some v \<longrightarrow> msQueued v" for k and st :: "('a, 'b) Ingestor"
    using that by (auto simp: dropKey_def Let_def simp del: split_paired_All split: option.splits)
  then show ?thesis using D E Iq by (simp add: dropGeneration frames_inv_def DropGeneration_def)
qed
qed

lemma frames_reachable: "istep\<^sup>*\<^sup>* ingest_init s \<Longrightarrow> frames_inv s"
proof (induction rule: rtranclp_induct)
  case base
  show ?case by (simp add: frames_inv_def ingest_init_def NewIngestor_def waiting_def wrapu64_def)
next
  case (step s s')
  show ?case by (rule istep_frames [OF step(2) ingest_reachable [OF step(1)] step(3)])
qed

text \<open>
  C34. However offers, workers, error reads and dropped generations interleave, no frame that has been taken
  into a slot is refused for a full queue or left behind: a send on the ready channel always finds
  room, so that the error path of \<open>Offer\<close> which clears \<open>queued\<close> is never taken and a worker
  never blocks on requeueing; a key with a waiting envelope is on its way to a worker exactly once, and a
  worker that receives a key finds an envelope in its slot; and of the frames stored, each was handed to a
  worker, waits in a slot, or is counted in \<open>dropped\<close> (modulo the width of that counter), so that none
  vanishes with its slot.
\<close>

theorem ingestor_never_stuck:
  assumes "istep\<^sup>*\<^sup>* ingest_init s"
  shows "(k \<in> set (sending s) \<longrightarrow> fst (offerSend k (ing s))) \<and>
    (map_of (inSlots (ing s)) k = Some v \<and> msEnvelope v \<noteq> None \<longrightarrow> msQueued v \<and> count (mset (at_work s)) k = 1) \<and>
    (k \<in> set (received s) \<longrightarrow> fst (processTake k (ing s)) \<noteq> None) \<and>
    inDropped (ing s) = wrapu64 (stored s - handed s - waiting (inSlots (ing s)))"
proof -
  have I: "ingest_inv s" and F: "frames_inv s" by (rule ingest_reachable [OF assms], rule frames_reachable [OF assms])
  have "count (mset (at_work s)) k = 1" if "map_of (inSlots (ing s)) k = Some v"
  proof -
    have "k \<in> fst ` set (inSlots (ing s))" using that by (force dest: map_of_SomeD)
    then have "k \<in> set (at_work s)" using I by (simp add: ingest_inv_def)
    then show ?thesis using I by (auto simp: ingest_inv_def distinct_count_atmost_1 simp del: split_paired_All)
  qed
  moreover have "msQueued v" if "map_of (inSlots (ing s)) k = Some v"
    using I that by (auto simp: ingest_inv_def simp del: split_paired_All)
  moreover have "k \<in> set (received s) \<Longrightarrow> fst (processTake k (ing s)) \<noteq> None"
    using F by (simp add: frames_inv_def processTake_frames(1) del: split_paired_All split_paired_Ex)
  ultimately show ?thesis using ingest_room [OF I] F by (simp add: offerSend_def frames_inv_def)
qed

text \<open>One frame is handed out; two more come before its worker is done, which then queues the key again.\<close>

definition ingest_example :: "(nat, nat) ingest" where
  "ingest_example = \<lparr>ing = \<lparr>inSlots = [((''a'', 1, MetricsStress), \<lparr>msEnvelope = Some 9, msQueued = True, msLastLog = 0\<rparr>)],
     inErrors = (\<lambda>_. None), inReady = [], inAccepted = 1, inRejected = 0, inDropped = 1\<rparr>,
     sending = [(''a'', 1, MetricsStress)], received = [], handling = [], stored = 3, handed = 1\<rparr>"

theorem ingestor_never_stuck_witness:
  "fst (offerSend (''a'', 1, MetricsStress) (ing ingest_example)) \<and> count (mset (at_work ingest_example)) (''a'', 1, MetricsStress) = 1 \<and>
   inDropped (ing ingest_example) = wrapu64 (3 - 1 - waiting (inSlots (ing ingest_example)))"
proof -
  let ?k = "(''a'', 1 :: int, MetricsStress)"
  define f :: "nat option \<Rightarrow> int \<Rightarrow> metricsKey list \<Rightarrow> (nat, nat) Ingestor" where
    "f e d q = \<lparr>inSlots = [(?k, \<lparr>msEnvelope = e, msQueued = True, msLastLog = 0\<rparr>)],
       inErrors = (\<lambda>_. None), inReady = q, inAccepted = 0, inRejected = 0, inDropped = d\<rparr>" for e d q
  define g where "g e d q a b c n m = \<lparr>ing = f e d q, sending = a, received = b, handling = c, stored = n, handed = m\<rparr>" for e d q a b c n m
  note f = f_def offerSlot_def Let_def metricsSlotCapacity_def wrapu64_def
  have s: "istep ingest_init (g (Some 7) 0 [] [?k] [] [] 1 0)"
    using istep.offer [of "''a''" 1 "Some MetricsStress" 7 ingest_init ?k "f (Some 7) 0 []"]
    by (simp add: g_def f ingest_init_def NewIngestor_def)
  have "istep (g (Some 7) 0 [] [?k] [] [] 1 0) (g (Some 7) 0 [?k] [] [] [] 1 0)"
    using istep.send [of ?k "g (Some 7) 0 [] [?k] [] [] 1 0"] by (simp add: g_def offerSend_def f)
  note s = rtranclp.rtrancl_into_rtrancl [OF r_into_rtranclp [of istep, OF s] this]
  have "istep (g (Some 7) 0 [?k] [] [] [] 1 0) (g (Some 7) 0 [] [] [?k] [] 1 0)"
    using istep.receive [of "g (Some 7) 0 [?k] [] [] [] 1 0"] by (simp add: g_def f)
  note s = rtranclp.rtrancl_into_rtrancl [OF s this]
  have "istep (g (Some 7) 0 [] [] [?k] [] 1 0) (g None 0 [] [] [] [?k] 1 1)"
    using istep.take [of ?k "g (Some 7) 0 [] [] [?k] [] 1 0"] by (simp add: g_def f processTake_def present_def)
  note s = rtranclp.rtrancl_into_rtrancl [OF s this]
  have "istep (g None 0 [] [] [] [?k] 1 1) (g (Some 8) 0 [] [] [] [?k] 2 1)"
    using istep.offerOther [of "''a''" 1 "Some MetricsStress" 8 "g None 0 [] [] [] [?k] 1 1" AlreadyQueued "f (Some 8) 0 []"]
    by (simp add: g_def f)
  note s = rtranclp.rtrancl_into_rtrancl [OF s this]
  have "istep (g (Some 8) 0 [] [] [] [?k] 2 1) (g (Some 9) 1 [] [] [] [?k] 3 1)"
    using istep.offerOther [of "''a''" 1 "Some MetricsStress" 9 "g (Some 8) 0 [] [] [] [?k] 2 1" AlreadyQueued "f (Some 9) 1 []"]
    by (simp add: g_def f)
  note s = rtranclp.rtrancl_into_rtrancl [OF s this]
  have "istep (g (Some 9) 1 [] [] [] [?k] 3 1) ingest_example"
    using istep.requeue [of ?k "g (Some 9) 1 [] [] [] [?k] 3 1" 0 Accepted "ing ingest_example"]
    by (simp add: g_def f processOutcome_def processEnd_def ingest_example_def)
  note s = rtranclp.rtrancl_into_rtrancl [OF s this]
  from ingestor_never_stuck [OF s, of ?k] show ?thesis
    by (simp add: ingest_example_def)
qed

subsection \<open>The acceptance service\<close>

text \<open>
  \<open>every\<close> parses the node's report interval, \<open>apdexOf\<close> reads the task's configuration, and \<open>enc\<close> is the
  identity of a snapshot object.  A report of another task is dropped without an error.
\<close>

datatype acceptance_err = ErrAgentNotFound | BadInterval | AcceptFailed accept_err

definition Accept ::
  "'sk sketchLib \<Rightarrow> ('t, 's, 'fs) Adapter \<Rightarrow> (Node \<Rightarrow> int option) \<Rightarrow> ('t \<Rightarrow> int) \<Rightarrow> (CollectorSnapshot option \<Rightarrow> nat option) \<Rightarrow> int
     \<Rightarrow> StressReport \<Rightarrow> int \<Rightarrow> Registry \<times> ('t, 'fs) Repository \<times> WindowStore
     \<Rightarrow> acceptance_err option \<times> Registry \<times> ('t, 'fs) Repository \<times> WindowStore" where
  "Accept L A every apdexOf enc now report droppedIntervals st =
     (let (reg0, repo, ws) = st; reg = Touch now (srAgentID report) [] reg0 in
      case RegGet (srAgentID report) reg of
        None \<Rightarrow> (Some ErrAgentNotFound, reg, repo, ws)
      | Some node \<Rightarrow>
          if nCurrentTaskID node = [] \<or> nCurrentTaskID node \<noteq> srTaskID report then (None, reg, repo, ws)
          else
            (case every node of
               None \<Rightarrow> (Some BadInterval, reg, repo, ws)
             | Some expectedEvery \<Rightarrow>
                 if expectedEvery \<le> 0 then (Some BadInterval, reg, repo, ws)
                 else
                   (case ActiveTask A repo of
                      None \<Rightarrow> (None, reg, repo, ws)
                    | Some active \<Rightarrow>
                        if aID A active \<noteq> srTaskID report then (None, reg, repo, ws)
                        else
                          let apdexT = (if apdexOf active \<le> 0 then 100 else apdexOf active) in
                          case AcceptWithDrops L now report (srTaskID report) expectedEvery (wrap64 (apdexT * 1000000)) droppedIntervals ws of
                            (Inl e, ws') \<Rightarrow> (Some (AcceptFailed e), reg, repo, ws')
                          | (Inr _, ws') \<Rightarrow>
                              (let received = (case AgentState ws' (srTaskID report) (srAgentID report) of None \<Rightarrow> 0 | Some a \<Rightarrow> amsReceivedAt a) in
                               (None, UpdateStress (srAgentID report) (enc (srSnapshot report)) received reg, repo, ws')))))"

end
