(* ===== verification/Spec2Isabelle.thy ===== *)
theory Spec2Isabelle
  imports CondRoundTrip Executor Completion ConnInv AgentExec StateStore MetricsAggregate MetricsStream
begin

text \<open>
  A verification development of stressbot, a distributed load-testing tool: an admin server distributes
  a task over agents; each agent runs many robots; each robot executes a flow of nodes against the system
  under test over connections whose frames a declarative codec builds; the agents measure what the robots
  do and report it to the admin server window by window.

  \<^bold>\<open>Parts of the program and their theories.\<close>  Paths are relative to \<^verbatim>\<open>src/\<close>.

  Foundations:
  \<^item> \<open>Prelude\<close>: Go's 64-bit integers as \<open>int\<close> with the wrap-around written out, and \<open>op_system\<close>, the
    contract of a component whose operations keep an invariant.
  \<^item> \<open>Float64\<close>: Go's \<open>float64\<close> as binary64 with round to nearest even, executable, and its rounding lemmas.
  \<^item> \<open>GoValue\<close>, \<open>Errcode\<close>: dynamic values, error codes and error chains (\<^verbatim>\<open>errcode/\<close>, \<^verbatim>\<open>engine/errors.go\<close>).

  Flows and their interpreter:
  \<^item> \<open>CondLexer\<close>, \<open>CondParser\<close>, \<open>CondEval\<close>, \<open>CondRoundTrip\<close>: the condition language (\<^verbatim>\<open>flow/condition_tokenizer.go\<close>,
    \<^verbatim>\<open>condition_compile.go\<close>, \<^verbatim>\<open>condition_compare.go\<close>, \<^verbatim>\<open>condition.go\<close>), and that printing a tree and compiling the text
    gives the tree back.
  \<^item> \<open>Flow\<close>, \<open>Executor\<close>: the flow graph and its preparation (\<^verbatim>\<open>flow/flow.go\<close>, \<^verbatim>\<open>prepare.go\<close>), the interpreter
    (\<^verbatim>\<open>engine/executor.go\<close>) with retries, error strategies, control signals and cancellation.
  \<^item> \<open>StateStore\<close>: the state of a robot on a heap of shared containers (\<^verbatim>\<open>state/store.go\<close>, \<^verbatim>\<open>overlay.go\<close>).
  \<^item> \<open>Cleanup\<close>: clean-up summaries (\<^verbatim>\<open>robot/cleanup.go\<close>).

  Frames and connections:
  \<^item> \<open>CodecBytes\<close>, \<open>CodecCipher\<close>, \<open>CodecDigest\<close>, \<open>CodecSchema\<close>, \<open>CodecCompile\<close>, \<open>CodecEngine\<close>, \<open>CodecRoundTrip\<close>: the declarative
    codec (\<^verbatim>\<open>protocol/codec/\<close>): header fields, ciphers, checksums and compressors, validation and
    compilation of a schema, encoding and decoding, and their round trip.
  \<^item> \<open>ContentLRU\<close>, \<open>DedupCaches\<close>: the content-addressed cache (\<^verbatim>\<open>internal/lru/content_lru.go\<close>) and the caches on
    it (\<^verbatim>\<open>protocol/codec/inflate_cache.go\<close>, \<^verbatim>\<open>intern.go\<close>, \<^verbatim>\<open>protocol/protox/dedup.go\<close>).
  \<^item> \<open>Framing\<close>: cutting the inbound stream into frames (\<^verbatim>\<open>network/gnet.go\<close>, \<open>OnTraffic\<close>).
  \<^item> \<open>ListenQueue\<close>, \<open>Connection\<close>, \<open>ConnInv\<close>: pushed messages, requests, life cycle, pump and heartbeat of a
    connection (\<^verbatim>\<open>network/listen_queue.go\<close>, \<^verbatim>\<open>connection.go\<close>, \<^verbatim>\<open>heartbeat.go\<close>, \<^verbatim>\<open>message.go\<close>), and the
    invariants over every interleaving of its steps.

  Tasks and agents:
  \<^item> \<open>TaskStore\<close>, \<open>Registry\<close>, \<open>Assign\<close>, \<open>Completion\<close>: the task repository (\<^verbatim>\<open>admin/task/store.go\<close>, \<^verbatim>\<open>admin_store.go\<close>,
    \<^verbatim>\<open>persist.go\<close>, \<^verbatim>\<open>types.go\<close>), the agent registry (\<^verbatim>\<open>admin/agent/registry.go\<close>), the distribution of a task
    (\<^verbatim>\<open>admin/task/assignment.go\<close>, \<^verbatim>\<open>distribution.go\<close>, \<^verbatim>\<open>stage_plan.go\<close>) and its completion (\<^verbatim>\<open>completion.go\<close>).
  \<^item> \<open>CommandStore\<close>, \<open>CommandSession\<close>, \<open>CommandDelivery\<close>: the command log, the bus and the sessions that deliver
    commands to the agents (\<^verbatim>\<open>admin/command/\<close>, \<^verbatim>\<open>admin/grpcapi/control_service.go\<close>).
  \<^item> \<open>AgentOutbox\<close>, \<open>AgentExec\<close>: what an agent keeps until the admin has confirmed it, and its command executor
    with the slot of its one task (\<^verbatim>\<open>agent/command/\<close>, \<^verbatim>\<open>agent/session/report_outbox.go\<close>, \<^verbatim>\<open>agent/app.go\<close>).

  Metrics, from the agent to the archive:
  \<^item> \<open>MetricsCollector\<close>, \<open>MetricsSnapshot\<close>, \<open>MetricsMerge\<close>, \<open>MetricsRun\<close>, \<open>SampleCounts\<close>: the collector, its snapshots and
    report windows, their merge over agents (\<^verbatim>\<open>monitor/collector.go\<close>, \<^verbatim>\<open>histogram.go\<close>, \<^verbatim>\<open>snapshot.go\<close>), runs of a
    collector, and the exact counting of samples below \<open>2 ^ 53\<close>.
  \<^item> \<open>MetricsStream\<close>: reporter, one-slot buffer, ingestor and acceptance (\<^verbatim>\<open>agent/metrics/reporter.go\<close>, \<^verbatim>\<open>stream.go\<close>,
    \<^verbatim>\<open>admin/metrics/ingestor.go\<close>, \<^verbatim>\<open>accept.go\<close>).
  \<^item> \<open>WindowStore\<close>, \<open>WindowDelivery\<close>, \<open>ReportCheck\<close>: the store of windows with the validation of reports
    (\<^verbatim>\<open>admin/metrics/window_store.go\<close>), its interleavings, and the two ends of the path together.
  \<^item> \<open>MetricsAggregate\<close>: live and archive aggregation and the sampler (\<^verbatim>\<open>admin/metrics/aggregator.go\<close>, \<^verbatim>\<open>sampler.go\<close>).

  \<^bold>\<open>How the model corresponds to the code.\<close>  A struct is a record, an enumeration a datatype, an
  operation a function of the same name (renamed only where the name is taken: \<open>RegStartTask\<close> is
  \<open>Registry.StartTask\<close>, \<open>ListTasks\<close> is \<open>Repository.List\<close>, \<open>ResetCollector\<close> is \<open>MetricsCollector.Reset\<close>).
  Stateful operations take the state and return it updated; a section under one lock is one step, and
  goroutines are inductive step relations between such sections (\<open>Connection\<close>, \<open>CommandDelivery\<close>, \<open>AgentExec\<close>,
  \<open>MetricsStream\<close>, \<open>WindowDelivery\<close>).  Errors are values.  Maps are functions to \<open>option\<close>, or association lists where
  iteration matters.  Time, random choices and the processor count are arguments.  Logging is left out.
  Third-party and standard library code is a parameter with named laws: the AES block function, the
  digests and the gzip stream (\<open>CodecCipher\<close>, \<open>CodecDigest\<close>), the DDSketch library (\<open>uniformAdd\<close>,
  \<open>countingSketch\<close>), messages in wire form (\<open>StateStore\<close>).  Fields that record what happened (\<open>launches\<close> and \<open>launchedRes\<close> in
  \<open>AgentExec\<close>, \<open>stored\<close> and \<open>handed\<close>, \<open>offeredN\<close> and \<open>sentN\<close> in \<open>MetricsStream\<close>, \<open>committed\<close> and \<open>acked\<close> in
  \<open>WindowDelivery\<close>) are never read by a step.

  \<^bold>\<open>Steps that are coarser than the code.\<close>  \<open>Close\<close> and \<open>onClose\<close> of a connection are single steps;
  \<open>wireShared\<close> is one.  \<open>SetApdexT\<close> makes two stores without a lock and \<open>RecordActionStart\<close> takes no lock
  against \<open>Reset\<close>; in the runs of \<open>MetricsRun\<close> they are single steps, and \<open>start_inside_reset\<close> shows what the code's
  interleaving does.  \<open>sampleOnce\<close> is one step from \<open>PeekHistory\<close> to \<open>AckHistory\<close>; \<open>overlapping_samples\<close>
  shows what an overlap of \<open>Stop\<close> and the loop does.  The distributions of a report are validated in a
  fixed order, where the code ranges over a map.

  \<^bold>\<open>Fuel and bounds.\<close>  The parser recurses with fuel that \<open>compileCondition\<close> sets from the number of
  tokens; \<open>compileCondition_total\<close> shows that it always suffices.  The executor recurses with fuel
  because a flow graph may be cyclic; \<open>Run_terminates\<close> gives the fuel that suffices for a bounded
  flow, and \<open>action_attempts_bounded\<close> counts the attempts of a node over the flow's own table of nodes.  The
  distribution theorems hold for totals whose product stays below \<open>2 ^ 53\<close>, the range in which binary64
  is exact on integers; the same bound on the samples of a collector makes its sketches count exactly.
  Counters of frames and of windows are compared modulo their width.

  \<^bold>\<open>What the lemmas show.\<close>  The compiled condition evaluates as the syntax tree it came from means;
  numbers compare exactly; printing and compiling a tree gives it back, with the levels of precedence
  and without chains of comparisons.  Preparation compiles every condition of a flow, in any order.  The
  executor terminates, contains its control signals, bounds its retries and lets cancellation through.
  What is written under a path of the state is read there, and a write through an overlay leaves all
  other fields of a message alone.  An accepted schema compiles to a well-formed codec; decoding
  inverts encoding; caches are transparent and bounded.  Frames do not depend on the segmentation of the
  stream; requests get their own responses; no channel is used after it was closed; the heartbeat is not
  starved; life-cycle callbacks run once.  At most one task is active; the registry stays consistent;
  robots, concurrency and ramp-up are dealt out exactly; a task stops with its last report.  Commands are
  delivered in order and not lost; an agent runs one task at a time, launches each reservation at
  most once and reports as applied only what it launched.  Windows add up to the cumulative counters;
  reports pass the checks of the admin server on counts; frames are sent, waiting or counted as dropped;
  every accepted window is archived once its batch is acknowledged; merging and aggregating adds up
  every agent once.  Lemmas named as findings in the manifest show where the code does not do
  what it means to.

  \<^bold>\<open>Not modelled.\<close>  The HTTP and gRPC front ends and conversions, the history database and templates (SQL and
  files), the Lua runtime and its bindings, dynamic protobuf messages and their wire form, the Redis store
  of shared state, the goroutines of robots and scheduler, the handlers of flow actions, dialling and the
  socket event loop, timers and tickers, the console and CSV output, configuration and the web front end:
  they are input and output, third-party code, or left for later; the manifest lists them.
\<close>

end
